(* ===== verification/Prelude.thy ===== *)
theory Prelude
  imports "HOL-Library.Word" "HOL-Library.Sublist" "HOL-Library.Char_ord"
begin

text \<open>
  Shared vocabulary of the development: the machine types the C sources use (bytes, 64-bit
  words, NUL-terminated strings, possibly-null pointers), the few libc functions the modelled
  code calls (\<open>strstr\<close>, \<open>memchr\<close>, \<open>snprintf\<close> of integers, the C-locale character classes),
  the two ways the runtime reports failure (a slang \<open>result\<close> value and a panic), the generic
  list and index lemmas the components share, and the interface of a codec, which the encoders
  and number printers of the runtime implement.
\<close>

unbundle bit_operations_syntax

section \<open>Machine types\<close>

text \<open>
  \<open>unsigned char\<close> is an 8-bit word, \<open>char\<close> is the HOL character (a byte), a slang \<open>bytes\<close>
  (\<open>struct { long long len; unsigned char *ptr; }\<close>) is the list of its bytes, and a pointer
  that the code compares with \<open>NULL\<close> is an option. A \<open>str\<close> is a NUL-terminated byte string:
  the list of the characters before the terminator.
\<close>

type_synonym byte = "8 word"
type_synonym u64 = "64 word"
type_synonym sl_bytes = "byte list"
type_synonym cstr = "string option"

definition SIZE_MAX :: nat where
  "SIZE_MAX = 2 ^ 64 - 1"

text \<open>The casts \<open>(unsigned char)c\<close> and \<open>(char)b\<close>.\<close>

definition uc :: "char \<Rightarrow> byte" where
  "uc c = word_of_nat (of_char c)"

definition ch :: "byte \<Rightarrow> char" where
  "ch b = char_of (unat b)"

definition NUL :: char where
  "NUL = CHR 0x00"

definition nul_free :: "string \<Rightarrow> bool" where
  "nul_free s \<longleftrightarrow> NUL \<notin> set s"

section \<open>Failure\<close>

text \<open>
  A slang \<open>result[T, str]\<close> is \<open>string + 'a\<close> with the message on the left. A call of
  \<open>sl_rt_error(msg, a, b)\<close> or \<open>sl_rt_error_at(msg, a, b, at)\<close> ends the task: it is the value
  \<open>Inl (Panic msg a b)\<close>; the source position \<open>at\<close>, which is only printed, is left out.
\<close>

type_synonym 'a sl_result = "string + 'a"

datatype panic = Panic string int int

type_synonym 'a sl_panics = "panic + 'a"

section \<open>Collections of facts\<close>

named_theorems char_class \<open>definitions of the character classes\<close>
named_theorems scan_le \<open>a scanner returns a position or a rest no further back than its input\<close>

section \<open>Characters and casts\<close>

lemma ch_uc [simp]: "ch (uc c) = c"
  by (simp add: ch_def uc_def unat_of_nat)

lemma uc_ch [simp]: "uc (ch b) = b"
proof -
  have "unat b < 256" using unsigned_less [of b, where ?'a = nat] by simp
  then show ?thesis by (simp add: ch_def uc_def of_char_of)
qed

lemma uc_inject [simp]: "uc c = uc d \<longleftrightarrow> c = d"
  by (metis ch_uc)

lemma ch_inject [simp]: "ch b = ch c \<longleftrightarrow> b = c"
  by (metis uc_ch)

lemma unat_uc [simp]: "unat (uc c) = of_char c"
  by (simp add: uc_def unat_of_nat)

lemma unat_byte_less [simp]: "unat (b :: byte) < 256"
  using unsigned_less [of b, where ?'a = nat] by simp

lemma ch_eq_NUL_iff: "ch b = NUL \<longleftrightarrow> b = 0"
proof -
  have "ch b = NUL \<longleftrightarrow> b = uc NUL" by (metis ch_uc uc_ch)
  also have "uc NUL = 0" by (simp add: uc_def NUL_def)
  finally show ?thesis .
qed

lemma nul_free_append [simp]: "nul_free (s @ t) \<longleftrightarrow> nul_free s \<and> nul_free t"
  by (auto simp: nul_free_def)

lemma nul_free_Nil [simp]: "nul_free []"
  by (simp add: nul_free_def)

lemma nul_free_Cons [simp]: "nul_free (c # s) \<longleftrightarrow> c \<noteq> NUL \<and> nul_free s"
  by (auto simp: nul_free_def)

text \<open>The classes of \<open>ctype.h\<close> in the C locale, and the runtime's own hexadecimal digit.\<close>

definition is_digit :: "char \<Rightarrow> bool" where
  [char_class]: "is_digit c \<longleftrightarrow> CHR ''0'' \<le> c \<and> c \<le> CHR ''9''"

definition is_lower :: "char \<Rightarrow> bool" where
  [char_class]: "is_lower c \<longleftrightarrow> CHR ''a'' \<le> c \<and> c \<le> CHR ''z''"

definition is_upper :: "char \<Rightarrow> bool" where
  [char_class]: "is_upper c \<longleftrightarrow> CHR ''A'' \<le> c \<and> c \<le> CHR ''Z''"

definition is_alpha :: "char \<Rightarrow> bool" where
  [char_class]: "is_alpha c \<longleftrightarrow> is_lower c \<or> is_upper c"

definition is_alnum :: "char \<Rightarrow> bool" where
  [char_class]: "is_alnum c \<longleftrightarrow> is_alpha c \<or> is_digit c"

definition is_xdigit :: "char \<Rightarrow> bool" where
  [char_class]: "is_xdigit c \<longleftrightarrow> is_digit c \<or> CHR ''a'' \<le> c \<and> c \<le> CHR ''f'' \<or>
     CHR ''A'' \<le> c \<and> c \<le> CHR ''F''"

definition code :: "char \<Rightarrow> nat" where
  "code c = of_char c"

lemma code_less [simp]: "code c < 256"
  by (simp add: code_def)

lemma code_inject [simp]: "code c = code d \<longleftrightarrow> c = d"
  by (simp add: code_def)

lemma code_char_of [simp]: "code (char_of n) = n mod 256"
  by (simp add: code_def)

lemma char_of_code [simp]: "char_of (code c) = c"
  by (simp add: code_def)

lemma char_less_eq_code: "c \<le> d \<longleftrightarrow> code c \<le> code d"
  by (simp add: code_def less_eq_char_def)

lemma char_less_code: "c < d \<longleftrightarrow> code c < code d"
  by (simp add: code_def less_char_def)

lemma code_numeral_char [simp]:
  "code CHR ''0'' = 48" "code CHR ''9'' = 57" "code CHR ''a'' = 97" "code CHR ''f'' = 102"
  "code CHR ''z'' = 122" "code CHR ''A'' = 65" "code CHR ''F'' = 70" "code CHR ''Z'' = 90"
  by (simp_all add: code_def)

section \<open>libc: strstr, decimal printing\<close>

text \<open>\<open>strstr(hay, needle)\<close> as the offset of the first occurrence.\<close>

fun strstr :: "string \<Rightarrow> string \<Rightarrow> nat option" where
  "strstr [] needle = (if needle = [] then Some 0 else None)"
| "strstr (c # hay) needle =
     (if prefix needle (c # hay) then Some 0 else map_option Suc (strstr hay needle))"

text \<open>\<open>%lld\<close> of a non-negative and of any integer.\<close>

fun dec :: "nat \<Rightarrow> string" where
  "dec n = (if n < 10 then [char_of (48 + n)] else dec (n div 10) @ [char_of (48 + n mod 10)])"

declare dec.simps [simp del]

definition dec_int :: "int \<Rightarrow> string" where
  "dec_int i = (if i < 0 then CHR ''-'' # dec (nat (- i)) else dec (nat i))"

text \<open>\<open>snprintf(buf, n, ...)\<close> keeps at most \<open>n - 1\<close> characters.\<close>

definition snprintf :: "nat \<Rightarrow> string \<Rightarrow> string" where
  "snprintf n s = take (n - 1) s"

lemma prefix_iff_take: "prefix xs ys \<longleftrightarrow> length xs \<le> length ys \<and> take (length xs) ys = xs"
  by (metis append_eq_conv_conj prefixE prefix_length_le take_is_prefix)

lemma strstr_SomeD:
  "strstr hay needle = Some i \<Longrightarrow> i + length needle \<le> length hay \<and>
     take (length needle) (drop i hay) = needle"
proof (induction hay arbitrary: i)
  case (Cons c hay)
  then show ?case
    by (cases "prefix needle (c # hay)") (auto simp: prefix_iff_take)
qed (auto split: if_splits)

lemma strstr_first:
  "strstr hay needle = Some i \<Longrightarrow> j < i \<Longrightarrow> \<not> prefix needle (drop j hay)"
proof (induction hay arbitrary: i j)
  case (Cons c hay)
  then show ?case by (cases j) (auto split: if_splits)
qed (auto split: if_splits)

lemma strstr_None:
  "strstr hay needle = None \<longleftrightarrow> (\<forall>j. \<not> prefix needle (drop j hay))"
proof (induction hay)
  case Nil
  then show ?case by auto
next
  case (Cons c hay)
  have "(\<forall>j. \<not> prefix needle (drop j (c # hay))) \<longleftrightarrow>
        \<not> prefix needle (c # hay) \<and> (\<forall>j. \<not> prefix needle (drop j hay))"
    by (metis drop0 drop_Suc_Cons old.nat.exhaust)
  with Cons show ?case by simp
qed

lemma strstr_decomp:
  "strstr hay needle = Some i \<Longrightarrow>
     hay = take i hay @ needle @ drop (i + length needle) hay"
  using strstr_SomeD [of hay needle i]
  by (metis add.commute append_take_drop_id drop_drop)

lemma strstr_length:
  "strstr hay needle = Some i \<Longrightarrow> i + length needle \<le> length hay"
  by (simp add: strstr_SomeD)

lemma strstr_drop_less [termination_simp]:
  assumes "strstr hay needle = Some i" and "needle \<noteq> []"
  shows "length hay - (i + length needle) < length hay"
  using strstr_length [OF assms(1)] assms(2) by (cases needle) auto

section \<open>Decimal digits\<close>

text \<open>The value of decimal digits read after \<open>a\<close>.\<close>

definition dval :: "nat \<Rightarrow> string \<Rightarrow> nat" where
  "dval a s = foldl (\<lambda>a c. a * 10 + (code c - 48)) a s"

lemma dval_simps [simp]:
  "dval a [] = a" "dval a (c # s) = dval (a * 10 + (code c - 48)) s"
  "dval a (s @ t) = dval (dval a s) t"
  by (simp_all add: dval_def)

lemma dval_shift: "dval a s = a * 10 ^ length s + dval 0 s"
proof (induction s arbitrary: a)
  case (Cons c s)
  show ?case using Cons [of "a * 10 + (code c - 48)"] Cons [of "0 * 10 + (code c - 48)"] by (simp add: algebra_simps)
qed simp

lemma dval_mono: "a \<le> dval a s"
proof (induction s arbitrary: a)
  case (Cons c s)
  have "a \<le> a * 10 + (code c - 48)" by simp
  also have "\<dots> \<le> dval (a * 10 + (code c - 48)) s" by (rule Cons.IH)
  finally show ?case by simp
qed simp

lemma code_digit: "d < 10 \<Longrightarrow> code (char_of (48 + d)) = 48 + d"
  by (simp add: code_def of_char_of)

lemma dval_dec: "dval 0 (dec n) = n"
proof (induction n rule: dec.induct)
  case (1 n)
  then show ?case
    by (subst dec.simps) (auto simp: code_digit)
qed

lemma dec_digits: "c \<in> set (dec n) \<Longrightarrow> is_digit c"
proof (induction n rule: dec.induct)
  case (1 n)
  have "is_digit (char_of (48 + d))" if "d < 10" for d :: nat
    using that by (simp add: char_class char_less_eq_code code_digit)
  with 1 show ?case by (subst (asm) (2) dec.simps) (auto split: if_splits)
qed

lemma dec_not_Nil [simp]: "dec n \<noteq> []"
  by (subst dec.simps) simp

lemma length_dec: "n < 10 ^ Suc k \<Longrightarrow> length (dec n) \<le> Suc k"
proof (induction k arbitrary: n)
  case (Suc k)
  then have "n div 10 < 10 ^ Suc k" by (simp add: less_mult_imp_div_less mult.commute)
  with Suc.IH show ?case by (subst dec.simps) simp
qed (simp add: dec.simps)

section \<open>Words as bytes, least significant first\<close>

definition le_byte :: "u64 \<Rightarrow> nat \<Rightarrow> byte" where
  "le_byte v i = ucast (drop_bit (8 * i) v AND 0xff)"

definition le_word :: "sl_bytes \<Rightarrow> u64" where
  "le_word b = fold (\<lambda>i v. v OR push_bit (8 * i) (ucast (b ! i))) [0..<8] 0"

lemma bit_le_byte: "bit (le_byte v i) n \<longleftrightarrow> n < 8 \<and> bit v (8 * i + n)"
proof -
  have "le_byte v i = ucast (take_bit 8 (drop_bit (8 * i) v))"
    by (simp add: le_byte_def take_bit_eq_mask mask_eq_exp_minus_1)
  then show ?thesis by (auto simp: bit_simps dest: bit_imp_le_length)
qed

lemma bit_or_fold:
  "bit (fold (\<lambda>i v. v OR f i) xs (v :: 'a::len word)) n \<longleftrightarrow> bit v n \<or> (\<exists>i\<in>set xs. bit (f i) n)"
  by (induction xs arbitrary: v) (auto simp: bit_simps)

lemma bit_shifted_byte:
  assumes "i < 8"
  shows "bit (push_bit (8 * i) (ucast (x :: byte)) :: u64) n \<longleftrightarrow> n div 8 = i \<and> bit x (n mod 8)"
proof (cases "n div 8 = i")
  case True
  then have "n = 8 * i + n mod 8" "n mod 8 < 8" "n < 64" using assms by auto
  then have "n - 8 * i = n mod 8" "8 * i \<le> n" "n mod 8 < 64" by linarith+
  then show ?thesis using True \<open>n < 64\<close> by (simp add: bit_simps)
next
  case False
  then have "n < 8 * i \<or> 8 \<le> n - 8 * i" by auto
  then show ?thesis using False by (auto simp: bit_simps dest: bit_imp_le_length)
qed

lemma bit_le_word: "bit (le_word b) n \<longleftrightarrow> n < 64 \<and> bit (b ! (n div 8)) (n mod 8)"
  unfolding le_word_def bit_or_fold using bit_shifted_byte by auto

lemma le_word_bytes: "le_word (map (le_byte v) [0..<8]) = v"
  by (rule bit_word_eqI) (simp add: bit_le_word bit_le_byte)

lemma le_bytes_word: "length b = 8 \<Longrightarrow> map (le_byte (le_word b)) [0..<8] = b"
  by (rule nth_equalityI) (auto intro!: bit_word_eqI simp: bit_le_word bit_le_byte)

section \<open>Lists\<close>

lemma nth_take_drop_split:
  "i < length xs \<Longrightarrow> xs = take i xs @ xs ! i # drop (Suc i) xs"
  by (rule id_take_nth_drop)

lemma takeWhile_length_le [scan_le]: "length (takeWhile P xs) \<le> length xs"
  by (rule length_takeWhile_le)

lemma dropWhile_length_le [scan_le]: "length (dropWhile P xs) \<le> length xs"
  by (rule length_dropWhile_le)

lemma nths_interval: "nths s {i. lo \<le> i \<and> i < hi} = take (hi - lo) (drop lo s)"
proof (induction s arbitrary: lo hi)
  case (Cons c s)
  have tail: "{j. Suc j \<in> {i. lo \<le> i \<and> i < hi}} = {i. lo - 1 \<le> i \<and> i < hi - 1}" by auto
  show ?case
  proof (cases lo)
    case 0
    then show ?thesis using Cons.IH [of 0 "hi - 1"] tail by (cases hi) (simp_all add: nths_Cons)
  next
    case (Suc l)
    then show ?thesis using Cons.IH [of l "hi - 1"] tail by (simp add: nths_Cons)
  qed
qed simp

section \<open>Arithmetic of the ring\<close>

lemma and_mask_mod: "(i :: nat) AND (2 ^ n - 1) = i mod 2 ^ n"
  by (simp add: take_bit_eq_mod [symmetric] take_bit_eq_mask mask_eq_exp_minus_1)

lemma add_mod_if:
  "x < c \<Longrightarrow> y < c \<Longrightarrow> (x + y) mod c = (if x + y < c then x + y else x + y - (c :: nat))"
  by (simp add: mod_if)

text \<open>The distance from slot \<open>h\<close> forward to slot \<open>i\<close> in a ring of \<open>c\<close> slots.\<close>

definition dist :: "nat \<Rightarrow> nat \<Rightarrow> nat \<Rightarrow> nat" where
  "dist c h i = (i + c - h) mod c"

lemma dist_if: "h < c \<Longrightarrow> i < c \<Longrightarrow> dist c h i = (if h \<le> i then i - h else i + c - h)"
  by (auto simp: dist_def mod_if)

lemma dist_less: "0 < c \<Longrightarrow> dist c h i < c"
  by (simp add: dist_def)

lemma add_dist: "h < c \<Longrightarrow> i < c \<Longrightarrow> (h + dist c h i) mod c = i"
  by (auto simp: dist_if mod_if)

lemma dist_add: "h < c \<Longrightarrow> d < c \<Longrightarrow> dist c h ((h + d) mod c) = d"
proof (cases "h + d < c")
  case False
  moreover assume "h < c" "d < c"
  ultimately have m: "(h + d) mod c = h + d - c" by (simp only: add_mod_if if_False)
  have "h + d - c < c" "\<not> h \<le> h + d - c"
    using False \<open>h < c\<close> \<open>d < c\<close> by linarith+
  then have "dist c h (h + d - c) = h + d - c + c - h"
    using \<open>h < c\<close> by (simp only: dist_if if_False)
  then show ?thesis unfolding m using False by linarith
qed (simp add: dist_if)

lemma ring_inj: "(h :: nat) < c \<Longrightarrow> d < c \<Longrightarrow> d' < c \<Longrightarrow> (h + d) mod c = (h + d') mod c \<Longrightarrow> d = d'"
  by (drule arg_cong [where f = "dist c h"]) (simp only: dist_add)

section \<open>Codecs\<close>

text \<open>
  What an encoder and its decoder promise each other: decoding an encoded value gives it
  back. The decoder may fail on input no encoder produced, so it returns a sum. Values the
  encoder is specified for satisfy \<open>valid\<close>.
\<close>

locale codec =
  fixes valid :: "'a \<Rightarrow> bool"
    and encode :: "'a \<Rightarrow> 'b"
    and decode :: "'b \<Rightarrow> 'e + 'a"
  assumes decode_encode: "valid x \<Longrightarrow> decode (encode x) = Inr x"
begin

lemma encode_inj: "valid x \<Longrightarrow> valid y \<Longrightarrow> encode x = encode y \<Longrightarrow> x = y"
  by (metis decode_encode sum.inject(2))

lemma encode_inj_on: "inj_on encode (Collect valid)"
  by (rule inj_onI) (simp add: encode_inj)

lemma decode_complete: "valid x \<Longrightarrow> \<exists>y. decode y = Inr x"
  using decode_encode by blast

end

end
