(* ===== verification/Sl_Strings.thy ===== *)
theory Sl_Strings
  imports Prelude
begin

text \<open>
  The \<open>strings\<close> package, \<open>runtime/sl_strings.c\<close>: search, trim, ASCII case, slice, repeat,
  replace, split and join on \<open>str\<close>, and the header-field lookup of the http package. Every
  pointer argument the C code compares with \<open>NULL\<close> is an option here; a loop over a moving
  pointer \<open>p\<close> into the string is a recursion on the rest of the string from \<open>p\<close>.
\<close>

section \<open>Search\<close>

definition sl_strings_find :: "cstr \<Rightarrow> cstr \<Rightarrow> int" where
  "sl_strings_find hay needle =
     (case (hay, needle) of
        (Some h, Some n) \<Rightarrow>
          if n = [] then 0
          else (case strstr h n of Some i \<Rightarrow> int i | None \<Rightarrow> - 1)
      | _ \<Rightarrow> - 1)"

text \<open>The loop \<open>for (i = hl - nl + 1; i-- > 0;)\<close>: the argument is \<open>i\<close> before the decrement.\<close>

fun rfind_loop :: "string \<Rightarrow> string \<Rightarrow> nat \<Rightarrow> int" where
  "rfind_loop h n 0 = - 1"
| "rfind_loop h n (Suc i) =
     (if take (length n) (drop i h) = n then int i else rfind_loop h n i)"

definition sl_strings_rfind :: "cstr \<Rightarrow> cstr \<Rightarrow> int" where
  "sl_strings_rfind hay needle =
     (case (hay, needle) of
        (Some h, Some n) \<Rightarrow>
          (let nl = length n; hl = length h in
           if nl = 0 then int hl
           else if nl > hl then - 1
           else rfind_loop h n (hl - nl + 1))
      | _ \<Rightarrow> - 1)"

definition sl_strings_contains :: "cstr \<Rightarrow> cstr \<Rightarrow> bool" where
  "sl_strings_contains hay needle \<longleftrightarrow> sl_strings_find hay needle \<ge> 0"

text \<open>\<open>strncmp(s, p, strlen(p)) == 0\<close>, which stops at the end of either string.\<close>

fun strncmp_eq :: "string \<Rightarrow> string \<Rightarrow> bool" where
  "strncmp_eq s [] = True"
| "strncmp_eq [] (d # p) = False"
| "strncmp_eq (c # s) (d # p) = (c = d \<and> strncmp_eq s p)"

definition sl_strings_has_prefix :: "cstr \<Rightarrow> cstr \<Rightarrow> bool" where
  "sl_strings_has_prefix s p =
     (case (s, p) of (Some s, Some p) \<Rightarrow> strncmp_eq s p | _ \<Rightarrow> False)"

definition sl_strings_has_suffix :: "cstr \<Rightarrow> cstr \<Rightarrow> bool" where
  "sl_strings_has_suffix s p =
     (case (s, p) of
        (Some s, Some p) \<Rightarrow>
          (let sl = length s; pl = length p in
           sl \<ge> pl \<and> take pl (drop (sl - pl) s) = p)
      | _ \<Rightarrow> False)"

text \<open>
  \<open>for (p = hay; (p = strstr(p, needle)); p += nl) n++\<close>. The function is called with a
  non-empty needle only; the test keeps the recursion total.
\<close>

function count_loop :: "string \<Rightarrow> string \<Rightarrow> nat \<Rightarrow> nat" where
  "count_loop p needle n =
     (if needle = [] then n
      else (case strstr p needle of
              None \<Rightarrow> n
            | Some i \<Rightarrow> count_loop (drop (i + length needle) p) needle (n + 1)))"
  by pat_completeness auto
termination
  by (relation "measure (\<lambda>(p, needle, n). length p)") (auto simp: strstr_drop_less)

declare count_loop.simps [simp del]

definition sl_strings_count :: "cstr \<Rightarrow> cstr \<Rightarrow> nat" where
  "sl_strings_count hay needle =
     (case (hay, needle) of
        (Some h, Some n) \<Rightarrow> if n = [] then length h + 1 else count_loop h n 0
      | _ \<Rightarrow> 0)"

section \<open>Trim and case\<close>

definition sl_strings_is_space :: "char \<Rightarrow> bool" where
  "sl_strings_is_space c \<longleftrightarrow>
     c = CHR '' '' \<or> c = CHR 0x09 \<or> c = CHR 0x0D \<or> c = CHR 0x0A"

text \<open>\<open>while (*s && is_space(*s)) s++\<close>\<close>

fun skip_space :: "string \<Rightarrow> string" where
  "skip_space [] = []"
| "skip_space (c # s) = (if sl_strings_is_space c then skip_space s else c # s)"

text \<open>\<open>while (n && is_space(s[n - 1])) n--\<close>, from \<open>n\<close>.\<close>

fun trim_len :: "string \<Rightarrow> nat \<Rightarrow> nat" where
  "trim_len s 0 = 0"
| "trim_len s (Suc n) = (if sl_strings_is_space (s ! n) then trim_len s n else Suc n)"

definition sl_strings_trim_start :: "cstr \<Rightarrow> string" where
  "sl_strings_trim_start s = (case s of None \<Rightarrow> [] | Some s \<Rightarrow> skip_space s)"

definition sl_strings_trim_end :: "cstr \<Rightarrow> string" where
  "sl_strings_trim_end s =
     (case s of None \<Rightarrow> [] | Some s \<Rightarrow> take (trim_len s (length s)) s)"

definition sl_strings_trim :: "cstr \<Rightarrow> string" where
  "sl_strings_trim s =
     (case s of
        None \<Rightarrow> []
      | Some s \<Rightarrow> (let s' = skip_space s in take (trim_len s' (length s')) s'))"

definition upper_char :: "char \<Rightarrow> char" where
  "upper_char c = (if is_lower c then char_of (code c - 32) else c)"

definition lower_char :: "char \<Rightarrow> char" where
  "lower_char c = (if is_upper c then char_of (code c + 32) else c)"

definition sl_strings_to_upper :: "cstr \<Rightarrow> string" where
  "sl_strings_to_upper s = (case s of None \<Rightarrow> [] | Some s \<Rightarrow> map upper_char s)"

definition sl_strings_to_lower :: "cstr \<Rightarrow> string" where
  "sl_strings_to_lower s = (case s of None \<Rightarrow> [] | Some s \<Rightarrow> map lower_char s)"

section \<open>Slices\<close>

definition sl_strings_slice :: "cstr \<Rightarrow> int \<Rightarrow> int \<Rightarrow> string" where
  "sl_strings_slice s start end =
     (case s of
        None \<Rightarrow> []
      | Some s \<Rightarrow>
          (let n = int (length s);
               start = (if start < 0 then start + n else start);
               end = (if end < 0 then end + n else end);
               start = (if start < 0 then 0 else start);
               end = (if end > n then n else end)
           in if start \<ge> n \<or> end \<le> start then []
              else take (nat (end - start)) (drop (nat start) s)))"

text \<open>A \<open>str\<close> made from bytes ends at the first zero byte, as \<open>strlen\<close> reads it.\<close>

definition str_of_bytes :: "sl_bytes \<Rightarrow> string" where
  "str_of_bytes b = takeWhile (\<lambda>c. c \<noteq> NUL) (map ch b)"

definition sl_strings_from_bytes :: "sl_bytes option \<Rightarrow> int \<Rightarrow> int \<Rightarrow> string" where
  "sl_strings_from_bytes b lo hi =
     (let n = (case b of None \<Rightarrow> 0 | Some b \<Rightarrow> int (length b));
          lo = (if lo < 0 then lo + n else lo);
          hi = (if hi < 0 then hi + n else hi);
          lo = (if lo < 0 then 0 else lo);
          hi = (if hi > n then n else hi)
      in case b of
           None \<Rightarrow> []
         | Some b \<Rightarrow>
             if lo \<ge> n \<or> hi \<le> lo then []
             else str_of_bytes (take (nat (hi - lo)) (drop (nat lo) b)))"

definition sl_strings_from_bytes_lower :: "sl_bytes option \<Rightarrow> int \<Rightarrow> int \<Rightarrow> string" where
  "sl_strings_from_bytes_lower b lo hi =
     (let n = (case b of None \<Rightarrow> 0 | Some b \<Rightarrow> int (length b));
          lo = (if lo < 0 then lo + n else lo);
          hi = (if hi < 0 then hi + n else hi);
          lo = (if lo < 0 then 0 else lo);
          hi = (if hi > n then n else hi)
      in case b of
           None \<Rightarrow> []
         | Some b \<Rightarrow>
             if lo \<ge> n \<or> hi \<le> lo then []
             else map lower_char (str_of_bytes (take (nat (hi - lo)) (drop (nat lo) b))))"

section \<open>Repeat, replace, split, join\<close>

definition sl_strings_repeat :: "cstr \<Rightarrow> int \<Rightarrow> string sl_panics" where
  "sl_strings_repeat s n =
     (case s of
        None \<Rightarrow> Inr []
      | Some s \<Rightarrow>
          if n \<le> 0 then Inr []
          else if s = [] then Inr []
          else if nat n > (SIZE_MAX - 1) div length s
          then Inl (Panic ''strings.repeat: result would overflow'' n (int (length s)))
          else Inr (concat (replicate (nat n) s)))"

function replace_loop :: "string \<Rightarrow> string \<Rightarrow> string \<Rightarrow> string" where
  "replace_loop p old neu =
     (if old = [] then p
      else (case strstr p old of
              None \<Rightarrow> p
            | Some i \<Rightarrow> take i p @ neu @ replace_loop (drop (i + length old) p) old neu))"
  by pat_completeness auto
termination
  by (relation "measure (\<lambda>(p, old, neu). length p)") (auto simp: strstr_drop_less)

declare replace_loop.simps [simp del]

text \<open>The \<open>size_t\<close> total of \<open>sl_strings_replace\<close>: 64-bit arithmetic, which wraps. It allocates
  one byte more than that, and then copies without looking at it again.\<close>

definition replace_total :: "string \<Rightarrow> string \<Rightarrow> string \<Rightarrow> 64 word" where
  "replace_total s old neu =
     (let hits = word_of_nat (sl_strings_count (Some s) (Some old)) in
      word_of_nat (length s) + hits * word_of_nat (length neu) - hits * word_of_nat (length old))"

text \<open>\<open>None\<close>: the text and its terminator do not fit the buffer that was allocated, and the
  copies write behind it.\<close>

definition sl_strings_replace :: "cstr \<Rightarrow> cstr \<Rightarrow> cstr \<Rightarrow> string option" where
  "sl_strings_replace s old neu =
     (case s of
        None \<Rightarrow> Some []
      | Some s \<Rightarrow>
          (case old of
             None \<Rightarrow> Some s
           | Some old \<Rightarrow>
               if old = [] then Some s
               else (let neu = (case neu of None \<Rightarrow> [] | Some t \<Rightarrow> t) in
                     if sl_strings_count (Some s) (Some old) \<le> 0 then Some s
                     else (let out = replace_loop s old neu in
                           if length out + 1 \<le> unat (replace_total s old neu + 1)
                           then Some out else None))))"

function split_loop :: "string \<Rightarrow> string \<Rightarrow> string list" where
  "split_loop p sep =
     (if sep = [] then [p]
      else (case strstr p sep of
              None \<Rightarrow> [p]
            | Some i \<Rightarrow> take i p # split_loop (drop (i + length sep) p) sep))"
  by pat_completeness auto
termination
  by (relation "measure (\<lambda>(p, sep). length p)") (auto simp: strstr_drop_less)

declare split_loop.simps [simp del]

definition sl_strings_split :: "cstr \<Rightarrow> cstr \<Rightarrow> string list" where
  "sl_strings_split s sep =
     (case s of
        None \<Rightarrow> []
      | Some s \<Rightarrow>
          (case sep of
             None \<Rightarrow> map (\<lambda>c. [c]) s
           | Some sep \<Rightarrow> if sep = [] then map (\<lambda>c. [c]) s else split_loop s sep))"

text \<open>A list of \<open>str\<close> may hold null pointers; \<open>join\<close> reads one as the empty string.\<close>

definition item_str :: "cstr \<Rightarrow> string" where
  "item_str x = (case x of None \<Rightarrow> [] | Some t \<Rightarrow> t)"

definition join_total :: "cstr list \<Rightarrow> string \<Rightarrow> nat" where
  "join_total items sep = sum_list (map (\<lambda>x. length (item_str x)) items)
     + length sep * (length items - 1)"

fun join_loop :: "nat \<Rightarrow> cstr list \<Rightarrow> string \<Rightarrow> string" where
  "join_loop i [] sep = []"
| "join_loop i (x # xs) sep =
     (if i \<noteq> 0 then sep else []) @ item_str x @ join_loop (i + 1) xs sep"

definition sl_strings_join :: "cstr list option \<Rightarrow> cstr \<Rightarrow> string" where
  "sl_strings_join parts sep =
     (case parts of
        None \<Rightarrow> []
      | Some items \<Rightarrow>
          if items = [] then []
          else join_loop 0 items (item_str sep))"

definition sl_strings_join_bytes :: "sl_bytes option list option \<Rightarrow> sl_bytes option \<Rightarrow> sl_bytes" where
  "sl_strings_join_bytes parts sep =
     (let items = (case parts of None \<Rightarrow> [] | Some l \<Rightarrow> l);
          sp = (case sep of None \<Rightarrow> [] | Some b \<Rightarrow> b);
          get = (\<lambda>x. case x of None \<Rightarrow> [] | Some b \<Rightarrow> b)
      in concat (map (\<lambda>i. (if i \<noteq> 0 then sp else []) @ get (items ! i)) [0..<length items]))"

definition sl_strings_bytes_zero :: "int \<Rightarrow> sl_bytes" where
  "sl_strings_bytes_zero n = (let n = (if n < 0 then 0 else n) in replicate (nat n) 0)"


section \<open>Search: lemmas\<close>

lemma strstr_Least:
  assumes "strstr h n = Some i"
  shows "(LEAST j. prefix n (drop j h)) = i"
proof (rule Least_equality)
  show "prefix n (drop i h)"
    using strstr_SomeD [OF assms] by (auto simp: prefix_iff_take)
  show "i \<le> j" if "prefix n (drop j h)" for j
    using strstr_first [OF assms] that by (meson not_less)
qed

lemma rfind_loop_eq:
  "rfind_loop h n k =
     (if \<exists>j<k. take (length n) (drop j h) = n
      then int (GREATEST j. j < k \<and> take (length n) (drop j h) = n) else - 1)"
proof (induction k)
  case (Suc k)
  show ?case
  proof (cases "take (length n) (drop k h) = n")
    case True
    then have "(GREATEST j. j < Suc k \<and> take (length n) (drop j h) = n) = k"
      by (intro Greatest_equality) auto
    with True show ?thesis by auto
  next
    case False
    then have "j < Suc k \<and> take (length n) (drop j h) = n \<longleftrightarrow>
               j < k \<and> take (length n) (drop j h) = n" for j
      using less_Suc_eq by auto
    with False Suc show ?thesis by simp
  qed
qed simp

lemma prefix_drop_iff:
  "n \<noteq> [] \<Longrightarrow> prefix n (drop j h) \<longleftrightarrow> j + length n \<le> length h \<and> take (length n) (drop j h) = n"
  by (cases "j \<le> length h") (auto simp: prefix_iff_take)

lemma strncmp_eq_prefix: "strncmp_eq s p \<longleftrightarrow> prefix p s"
  by (induction s p rule: strncmp_eq.induct) auto

section \<open>Split, count, replace, join: lemmas\<close>

lemma split_loop_None [simp]: "strstr p sep = None \<Longrightarrow> split_loop p sep = [p]"
  by (subst split_loop.simps) simp

lemma split_loop_Some [simp]:
  "strstr p sep = Some i \<Longrightarrow> sep \<noteq> [] \<Longrightarrow>
     split_loop p sep = take i p # split_loop (drop (i + length sep) p) sep"
  by (subst split_loop.simps) simp

lemma split_loop_nonempty [simp]: "split_loop p sep \<noteq> []"
  by (subst split_loop.simps) (simp split: option.split)

lemma count_loop_split:
  "sep \<noteq> [] \<Longrightarrow> count_loop p sep n + 1 = n + length (split_loop p sep)"
proof (induction p sep n rule: count_loop.induct)
  case (1 p sep n)
  then show ?case
    by (cases "strstr p sep") (simp_all add: count_loop.simps [of p sep n])
qed

lemma join_loop_pos:
  "i \<noteq> 0 \<Longrightarrow> join_loop i xs sep = concat (map (\<lambda>x. sep @ item_str x) xs)"
  by (induction i xs sep rule: join_loop.induct) auto

lemma join_loop_0_Cons:
  "join_loop 0 (x # xs) sep = item_str x @ concat (map (\<lambda>x. sep @ item_str x) xs)"
  by (simp add: join_loop_pos)

lemma item_str_Some [simp]: "item_str (Some t) = t"
  by (simp add: item_str_def)

lemma join_loop_0_append:
  "ys \<noteq> [] \<Longrightarrow> join_loop 0 (x # ys) sep = item_str x @ sep @ join_loop 0 ys sep"
  by (cases ys) (simp_all add: join_loop_0_Cons join_loop_pos)

lemma replace_loop_eq_join:
  "old \<noteq> [] \<Longrightarrow> replace_loop p old neu = join_loop 0 (map Some (split_loop p old)) neu"
proof (induction p old neu rule: replace_loop.induct)
  case (1 p old neu)
  show ?case
  proof (cases "strstr p old")
    case None
    with "1.prems" show ?thesis by (simp add: replace_loop.simps [of p old neu])
  next
    case (Some i)
    have "replace_loop p old neu = take i p @ neu @ replace_loop (drop (i + length old) p) old neu"
      using Some "1.prems" by (simp add: replace_loop.simps [of p old neu])
    with "1.IH" [OF "1.prems" Some "1.prems"] Some "1.prems" show ?thesis
      by (simp add: join_loop_0_append del: join_loop.simps)
  qed
qed

lemma join_split_loop:
  "sep \<noteq> [] \<Longrightarrow> join_loop 0 (map Some (split_loop p sep)) sep = p"
proof (induction p sep rule: split_loop.induct)
  case (1 p sep)
  show ?case
  proof (cases "strstr p sep")
    case None
    then show ?thesis by simp
  next
    case (Some i)
    with "1.IH" [OF "1.prems" Some "1.prems"] "1.prems" show ?thesis
      using strstr_decomp [OF Some] by (simp add: join_loop_0_append del: join_loop.simps)
  qed
qed

lemma split_loop_pieces:
  "sep \<noteq> [] \<Longrightarrow> x \<in> set (split_loop p sep) \<Longrightarrow> strstr x sep = None"
proof (induction p sep rule: split_loop.induct)
  case (1 p sep)
  show ?case
  proof (cases "strstr p sep")
    case None
    with "1.prems" show ?thesis by simp
  next
    case (Some i)
    have "\<not> prefix sep (drop j (take i p))" for j
    proof
      assume a: "prefix sep (drop j (take i p))"
      then have "j + length sep \<le> i" using "1.prems"(1) by (simp add: prefix_drop_iff)
      moreover have "0 < length sep" using "1.prems"(1) by simp
      ultimately have "j < i" by linarith
      moreover have "prefix sep (drop j p)"
        using a by (metis drop_take prefix_order.trans take_is_prefix)
      ultimately show False using strstr_first [OF Some] by blast
    qed
    then have "strstr (take i p) sep = None" by (simp add: strstr_None)
    with 1 Some show ?thesis by auto
  qed
qed

lemma length_join_loop_0:
  "length (join_loop 0 items sep) = join_total items sep"
proof (cases items)
  case (Cons x xs)
  have "length (concat (map (\<lambda>x. sep @ item_str x) xs)) =
        sum_list (map (\<lambda>x. length (item_str x)) xs) + length sep * length xs"
    by (induction xs) auto
  with Cons show ?thesis
    by (simp add: join_total_def join_loop_0_Cons del: join_loop.simps)
qed (simp add: join_total_def)

section \<open>Trim: lemmas\<close>

lemma skip_space_dropWhile: "skip_space s = dropWhile sl_strings_is_space s"
  by (induction s) auto

lemma skip_space_split:
  "\<exists>w. s = w @ skip_space s \<and> (\<forall>c\<in>set w. sl_strings_is_space c)"
  by (rule exI [of _ "takeWhile sl_strings_is_space s"])
    (auto simp: skip_space_dropWhile dest: set_takeWhileD)

lemma skip_space_hd: "skip_space s \<noteq> [] \<Longrightarrow> \<not> sl_strings_is_space (hd (skip_space s))"
  by (induction s) auto

lemma trim_len_le: "trim_len s n \<le> n"
  by (induction n) (auto simp: le_Suc_eq)

lemma trim_len_last: "trim_len s n \<noteq> 0 \<Longrightarrow> \<not> sl_strings_is_space (s ! (trim_len s n - 1))"
  by (induction n) auto

lemma trim_len_rest:
  "trim_len s n \<le> i \<Longrightarrow> i < n \<Longrightarrow> sl_strings_is_space (s ! i)"
  by (induction n) (auto split: if_splits simp: less_Suc_eq)

section \<open>Specifications\<close>

text \<open>The needle occurs in the string at offset \<open>j\<close>.\<close>

definition occurs :: "string \<Rightarrow> string \<Rightarrow> nat \<Rightarrow> bool" where
  "occurs n h j \<longleftrightarrow> j \<le> length h \<and> prefix n (drop j h)"

lemma occurs_iff: "n \<noteq> [] \<Longrightarrow> occurs n h j \<longleftrightarrow> j < length h - length n + 1 \<and>
    length n \<le> length h \<and> take (length n) (drop j h) = n"
  by (auto simp: occurs_def prefix_drop_iff)

lemma find_occurs:
  "sl_strings_find (Some h) (Some n) = (if \<exists>j. occurs n h j then int (LEAST j. occurs n h j) else - 1)"
proof (cases "n = []")
  case True
  then show ?thesis by (auto simp: sl_strings_find_def occurs_def intro!: Least_equality [symmetric])
next
  case False
  then have occ: "occurs n h = (\<lambda>j. prefix n (drop j h))"
    by (auto simp: occurs_def prefix_drop_iff)
  show ?thesis
  proof (cases "strstr h n")
    case None
    then show ?thesis using False strstr_None [of h n] by (simp add: sl_strings_find_def occ)
  next
    case (Some i)
    then have "\<exists>j. prefix n (drop j h)" using strstr_None [of h n] by auto
    then show ?thesis using Some False strstr_Least [OF Some] by (simp add: sl_strings_find_def occ)
  qed
qed

lemma rfind_occurs:
  "sl_strings_rfind (Some h) (Some n) =
     (if \<exists>j. occurs n h j then int (GREATEST j. occurs n h j) else - 1)"
proof (cases "n = []")
  case True
  then show ?thesis
    by (auto simp: sl_strings_rfind_def occurs_def intro!: Greatest_equality [symmetric])
next
  case False
  show ?thesis
  proof (cases "length n \<le> length h")
    case True
    then have "occurs n h = (\<lambda>j. j < length h - length n + 1 \<and> take (length n) (drop j h) = n)"
      using occurs_iff [OF False] by (intro ext) auto
    then show ?thesis using True False
      by (simp add: sl_strings_rfind_def rfind_loop_eq Let_def del: rfind_loop.simps)
  next
    case nle: False
    then show ?thesis using False by (simp add: sl_strings_rfind_def occurs_iff)
  qed
qed

lemma occurs_sublist: "(\<exists>j. occurs n h j) \<longleftrightarrow> sublist n h"
proof
  assume "\<exists>j. occurs n h j"
  then obtain j r where "drop j h = n @ r" by (auto simp: occurs_def elim: prefixE)
  then have "h = take j h @ n @ r" by (metis append_take_drop_id)
  then show "sublist n h" by (metis sublist_def)
next
  assume "sublist n h"
  then obtain l r where "h = l @ n @ r" by (auto simp: sublist_def)
  then have "occurs n h (length l)" by (simp add: occurs_def)
  then show "\<exists>j. occurs n h j" ..
qed

lemma trim_spec:
  "\<exists>l r. s = l @ take (trim_len (skip_space s) (length (skip_space s))) (skip_space s) @ r \<and>
     (\<forall>c\<in>set l \<union> set r. sl_strings_is_space c)"
proof -
  let ?s = "skip_space s"
  let ?n = "trim_len ?s (length ?s)"
  obtain l where l: "s = l @ ?s" "\<forall>c\<in>set l. sl_strings_is_space c" using skip_space_split by blast
  have "sl_strings_is_space c" if c: "c \<in> set (drop ?n ?s)" for c
  proof -
    from c obtain i where i: "i < length (drop ?n ?s)" "c = drop ?n ?s ! i"
      by (auto simp: in_set_conv_nth)
    then have "?n + i < length ?s" by simp
    moreover have "c = ?s ! (?n + i)" using i by simp
    ultimately show ?thesis using trim_len_rest [of ?s "length ?s" "?n + i"] by simp
  qed
  with l have "s = l @ take ?n ?s @ drop ?n ?s \<and>
      (\<forall>c\<in>set l \<union> set (drop ?n ?s). sl_strings_is_space c)" by auto
  then show ?thesis by blast
qed

lemma trim_ends:
  assumes "take (trim_len (skip_space s) (length (skip_space s))) (skip_space s) = t" and "t \<noteq> []"
  shows "\<not> sl_strings_is_space (hd t)" and "\<not> sl_strings_is_space (last t)"
proof -
  let ?s = "skip_space s"
  let ?n = "trim_len ?s (length ?s)"
  have n: "?n \<noteq> 0" "?n \<le> length ?s" using assms trim_len_le [of ?s "length ?s"] by auto
  have "hd t = hd ?s" "?s \<noteq> []" using assms by (auto simp: hd_take)
  then show "\<not> sl_strings_is_space (hd t)" using skip_space_hd by simp
  have "last t = ?s ! (?n - 1)"
    using assms n by (subst last_conv_nth) auto
  then show "\<not> sl_strings_is_space (last t)" using trim_len_last [OF n(1)] by simp
qed

text \<open>The index a negative bound stands for: counted from the end.\<close>

definition bound_from_end :: "string \<Rightarrow> int \<Rightarrow> int" where
  "bound_from_end s i = (if i < 0 then i + int (length s) else i)"

section \<open>Properties\<close>

text \<open>\<open>find\<close> is the leftmost and \<open>rfind\<close> the rightmost offset at which the needle occurs,
  each -1 exactly when there is none, and \<open>contains\<close> tells which; the empty needle occurs
  everywhere.\<close>

theorem sl_strings_find_rfind:
  "sl_strings_find (Some h) (Some n) =
     (if sublist n h then int (LEAST j. occurs n h j) else - 1) \<and>
   sl_strings_rfind (Some h) (Some n) =
     (if sublist n h then int (GREATEST j. occurs n h j) else - 1) \<and>
   sl_strings_contains (Some h) (Some n) = sublist n h"
  by (simp add: sl_strings_contains_def find_occurs rfind_occurs occurs_sublist)

text \<open>\<open>split\<close> and \<open>join\<close> are inverse: joining the pieces of a string with the separator
  gives the string back, the empty separator (one piece per byte) included.\<close>

theorem sl_strings_join_split:
  "sl_strings_join (Some (map Some (sl_strings_split (Some s) (Some sep)))) (Some sep) = s"
proof (cases "sep = []")
  case True
  have "join_loop i (map (Some \<circ> (\<lambda>c. [c])) s) [] = s" for i by (induction s arbitrary: i) auto
  with True show ?thesis by (simp add: sl_strings_join_def sl_strings_split_def item_str_def)
next
  case False
  then show ?thesis
    using join_split_loop [OF False, of s]
    by (simp add: sl_strings_join_def sl_strings_split_def)
qed

lemma replace_total_eq:
  assumes "sep \<noteq> []"
  shows "replace_total s sep t = word_of_nat (length (replace_loop s sep t))"
proof -
  let ?parts = "split_loop s sep" and ?n = "sl_strings_count (Some s) (Some sep)"
  have count: "?n + 1 = length ?parts"
    using count_loop_split [OF assms, of s 0] assms by (simp add: sl_strings_count_def)
  have len: "length (join_loop 0 (map Some ?parts) u) = sum_list (map length ?parts) + length u * ?n" for u
    using count [symmetric] by (simp add: length_join_loop_0 join_total_def o_def)
  have "length (replace_loop s sep t) + ?n * length sep = length s + ?n * length t"
    using len [of t] len [of sep] join_split_loop [OF assms, of s] replace_loop_eq_join [OF assms, of s t]
    by (simp add: mult.commute)
  from arg_cong [OF this, of "word_of_nat :: nat \<Rightarrow> 64 word"]
  have "word_of_nat (length (replace_loop s sep t)) + word_of_nat ?n * word_of_nat (length sep) =
      (word_of_nat (length s) + word_of_nat ?n * word_of_nat (length t) :: 64 word)" by simp
  then show ?thesis by (simp add: replace_total_def Let_def algebra_simps)
qed

text \<open>C31: with a non-empty separator \<open>split\<close> gives one piece more than \<open>count\<close> occurrences, no
  piece contains the separator, and \<open>replace\<close> is the join of the pieces with the new text
  whenever that text and its terminator are below \<open>2 ^ 64\<close> bytes: the size it computed for its
  buffer is then the length of what it writes. From \<open>2 ^ 64\<close> bytes on the size wraps, and
  \<open>replace\<close> writes behind its buffer if there is anything to replace.\<close>

theorem sl_strings_split_count_replace:
  assumes "sep \<noteq> []"
  shows "length (sl_strings_split (Some s) (Some sep)) = sl_strings_count (Some s) (Some sep) + 1 \<and>
    (\<forall>x\<in>set (sl_strings_split (Some s) (Some sep)). \<not> sl_strings_contains (Some x) (Some sep)) \<and>
    (let r = sl_strings_join (Some (map Some (sl_strings_split (Some s) (Some sep)))) (Some t) in
     if length r + 1 < 2 ^ 64
     then sl_strings_replace (Some s) (Some sep) (Some t) = Some r \<and> unat (replace_total s sep t) = length r
     else 0 < sl_strings_count (Some s) (Some sep) \<longrightarrow> sl_strings_replace (Some s) (Some sep) (Some t) = None)"
proof -
  let ?parts = "split_loop s sep" and ?r = "replace_loop s sep t"
  have split: "sl_strings_split (Some s) (Some sep) = ?parts"
    using assms by (simp add: sl_strings_split_def)
  have count: "sl_strings_count (Some s) (Some sep) + 1 = length ?parts"
    using count_loop_split [OF assms, of s 0] assms by (simp add: sl_strings_count_def)
  have free: "\<not> sl_strings_contains (Some x) (Some sep)" if "x \<in> set ?parts" for x
    using split_loop_pieces [OF assms that] assms
    by (simp add: sl_strings_contains_def sl_strings_find_def)
  have join: "sl_strings_join (Some (map Some ?parts)) (Some t) = ?r"
    by (simp add: sl_strings_join_def replace_loop_eq_join [OF assms])
  have one: "?r = s" if "sl_strings_count (Some s) (Some sep) = 0"
    using that count join_split_loop [OF assms, of s] by (cases ?parts) (auto simp: replace_loop_eq_join [OF assms])
  have suc: "replace_total s sep t + 1 = word_of_nat (length ?r + 1)"
    by (simp add: replace_total_eq [OF assms])
  have fits: "sl_strings_replace (Some s) (Some sep) (Some t) = Some ?r \<and> unat (replace_total s sep t) = length ?r"
    if "length ?r + 1 < 2 ^ 64"
  proof -
    have "unat (replace_total s sep t + 1) = length ?r + 1"
      unfolding suc unat_of_nat using that by (intro mod_less) simp
    moreover have "unat (replace_total s sep t) = length ?r"
      unfolding replace_total_eq [OF assms] unat_of_nat using that by (intro mod_less) simp
    ultimately show ?thesis using assms one by (simp add: sl_strings_replace_def)
  qed
  have over: "sl_strings_replace (Some s) (Some sep) (Some t) = None"
    if "\<not> length ?r + 1 < 2 ^ 64" "0 < sl_strings_count (Some s) (Some sep)"
  proof -
    have "unat (replace_total s sep t + 1) < 2 ^ 64" using unsigned_less [of "replace_total s sep t + 1", where ?'a = nat] by simp
    then show ?thesis using that assms by (simp add: sl_strings_replace_def)
  qed
  show ?thesis using free count fits over by (simp add: split join Let_def)
qed

theorem sl_strings_split_count_replace_witness:
  "sl_strings_split (Some ''a,b,,c'') (Some '','') = [''a'', ''b'', [], ''c''] \<and>
   length (sl_strings_split (Some ''a,b,,c'') (Some '','')) =
     sl_strings_count (Some ''a,b,,c'') (Some '','') + 1 \<and>
   sl_strings_replace (Some ''a,b,,c'') (Some '','') (Some ''; '') = Some ''a; b; ; c''"
proof -
  have e: "sl_strings_split (Some ''a,b,,c'') (Some '','') = [''a'', ''b'', [], ''c'']"
    "sl_strings_join (Some (map Some (sl_strings_split (Some ''a,b,,c'') (Some '','')))) (Some ''; '') = ''a; b; ; c''"
    by code_simp+
  have "'','' \<noteq> []" by simp
  note t = sl_strings_split_count_replace [OF this, of "''a,b,,c''" "''; ''", unfolded e(2)]
  show ?thesis using t e(1) by simp
qed

text \<open>The operation \<open>trim\<close> removes white space and nothing else, from both ends and nowhere else: the string
  is the result with white space around it, and the result neither starts nor ends with it.\<close>

theorem sl_strings_trim_spec:
  "\<exists>l t r. s = l @ t @ r \<and> sl_strings_trim (Some s) = t \<and>
     filter (\<lambda>c. \<not> sl_strings_is_space c) (l @ r) = [] \<and>
     (t = [] \<or> (\<not> sl_strings_is_space (hd t) \<and> \<not> sl_strings_is_space (last t)))"
proof -
  have trim_def': "sl_strings_trim (Some s) =
      take (trim_len (skip_space s) (length (skip_space s))) (skip_space s)"
    by (simp add: sl_strings_trim_def Let_def)
  obtain l r where lr: "s = l @ sl_strings_trim (Some s) @ r"
    "\<forall>c\<in>set l \<union> set r. sl_strings_is_space c"
    using trim_spec [of s] by (auto simp: trim_def')
  have "filter (\<lambda>c. \<not> sl_strings_is_space c) (l @ r) = []" using lr(2) by (auto simp: filter_empty_conv)
  moreover have "sl_strings_trim (Some s) = [] \<or> \<not> sl_strings_is_space (hd (sl_strings_trim (Some s))) \<and>
      \<not> sl_strings_is_space (last (sl_strings_trim (Some s)))"
    using trim_ends [OF trim_def' [symmetric]] by blast
  ultimately show ?thesis using lr(1) by blast
qed

text \<open>\<open>slice\<close> keeps exactly the bytes whose index lies between the two bounds, where a negative
  bound counts from the end; it never reads outside the string, whatever the bounds.\<close>

theorem sl_strings_slice_spec:
  "sl_strings_slice (Some s) start end =
     nths s {i. bound_from_end s start \<le> int i \<and> int i < bound_from_end s end}"
proof -
  let ?a = "bound_from_end s start" and ?b = "bound_from_end s end" and ?n = "int (length s)"
  have "{i. ?a \<le> int i \<and> int i < ?b} = {i. nat ?a \<le> i \<and> i < nat ?b}" by auto
  then have nths: "nths s {i. ?a \<le> int i \<and> int i < ?b} = take (nat ?b - nat ?a) (drop (nat ?a) s)"
    by (simp add: nths_interval)
  have slice: "sl_strings_slice (Some s) start end =
      (let lo = max 0 ?a; hi = min ?b ?n in
       if lo \<ge> ?n \<or> hi \<le> lo then [] else take (nat (hi - lo)) (drop (nat lo) s))"
    by (simp add: sl_strings_slice_def bound_from_end_def Let_def max_def min_def)
  show ?thesis unfolding nths slice Let_def
  proof (cases "max 0 ?a \<ge> ?n \<or> min ?b ?n \<le> max 0 ?a")
    case True
    then have "nat ?b - nat ?a = 0 \<or> length s \<le> nat ?a" by auto
    with True show "(if max 0 ?a \<ge> ?n \<or> min ?b ?n \<le> max 0 ?a then []
        else take (nat (min ?b ?n - max 0 ?a)) (drop (nat (max 0 ?a)) s)) =
      take (nat ?b - nat ?a) (drop (nat ?a) s)" by auto
  next
    case False
    have "nat (max 0 ?a) = nat ?a" by auto
    moreover have "take (nat (min ?b ?n - max 0 ?a)) (drop (nat ?a) s) =
        take (nat ?b - nat ?a) (drop (nat ?a) s)"
      using False by (cases "?b \<le> ?n") (auto simp: min_def max_def nat_diff_distrib split: if_splits)
    ultimately show "(if max 0 ?a \<ge> ?n \<or> min ?b ?n \<le> max 0 ?a then []
        else take (nat (min ?b ?n - max 0 ?a)) (drop (nat (max 0 ?a)) s)) =
      take (nat ?b - nat ?a) (drop (nat ?a) s)" using False by auto
  qed
qed

end
