(* ===== verification/Sl_Encoding.thy ===== *)
theory Sl_Encoding
  imports Prelude
begin

text \<open>
  The \<open>encoding\<close> package, \<open>runtime/sl_encoding.c\<close>: hex, base64 and base64url,
  percent-encoding in its url and form variants, query strings, and the little-endian
  conversion of a float's bit pattern. A \<open>double\<close> is its IEEE-754 bit pattern, which is all
  \<open>float64_to_le\<close> and \<open>float64_from_le\<close> use of it. An encoder that computes the size of its
  buffer in a first pass has that size as a definition of its own.
\<close>

section \<open>Hexadecimal\<close>

definition SL_ENC_HEX_LOWER :: string where
  "SL_ENC_HEX_LOWER = ''0123456789abcdef''"

definition SL_ENC_HEX_UPPER :: string where
  "SL_ENC_HEX_UPPER = ''0123456789ABCDEF''"

definition sl_enc_msg :: "nat \<Rightarrow> string \<Rightarrow> nat \<Rightarrow> string" where
  "sl_enc_msg bufn what at = snprintf bufn (what @ '' at offset '' @ dec at)"

definition sl_encoding_hex_encode :: "sl_bytes option \<Rightarrow> string" where
  "sl_encoding_hex_encode b =
     (case b of
        None \<Rightarrow> []
      | Some b \<Rightarrow> concat (map (\<lambda>c. [SL_ENC_HEX_LOWER ! unat (drop_bit 4 c),
                                    SL_ENC_HEX_LOWER ! unat (c AND 15)]) b))"

definition sl_enc_hex_digit :: "char \<Rightarrow> int" where
  "sl_enc_hex_digit c =
     (if CHR ''0'' \<le> c \<and> c \<le> CHR ''9'' then int (code c) - 48
      else if CHR ''a'' \<le> c \<and> c \<le> CHR ''f'' then int (code c) - 97 + 10
      else if CHR ''A'' \<le> c \<and> c \<le> CHR ''F'' then int (code c) - 65 + 10
      else - 1)"

text \<open>\<open>(unsigned char)((hi << 4) | lo)\<close>\<close>

definition hex_byte :: "int \<Rightarrow> int \<Rightarrow> byte" where
  "hex_byte hi lo = word_of_int (push_bit 4 hi OR lo)"

fun hex_decode_loop :: "nat \<Rightarrow> string \<Rightarrow> sl_bytes sl_result" where
  "hex_decode_loop i (a # b # s) =
     (let hi = sl_enc_hex_digit a; lo = sl_enc_hex_digit b in
      if hi < 0 \<or> lo < 0
      then Inl (sl_enc_msg 128 ''hex_decode: not a hex digit'' (if hi < 0 then i else i + 1))
      else (case hex_decode_loop (i + 2) s of
              Inl e \<Rightarrow> Inl e
            | Inr out \<Rightarrow> Inr (hex_byte hi lo # out)))"
| "hex_decode_loop i s = Inr []"

definition sl_encoding_hex_decode :: "cstr \<Rightarrow> sl_bytes sl_result" where
  "sl_encoding_hex_decode s =
     (case s of
        None \<Rightarrow> Inr []
      | Some s \<Rightarrow>
          if length s mod 2 \<noteq> 0
          then Inl ''hex_decode: odd number of digits (a byte needs two)''
          else hex_decode_loop 0 s)"

section \<open>Base64\<close>

definition SL_ENC_B64_STD :: string where
  "SL_ENC_B64_STD = ''ABCDEFGHIJKLMNOPQRSTUVWXYZabcdefghijklmnopqrstuvwxyz0123456789+/''"

definition SL_ENC_B64_URL :: string where
  "SL_ENC_B64_URL = ''ABCDEFGHIJKLMNOPQRSTUVWXYZabcdefghijklmnopqrstuvwxyz0123456789-_''"

text \<open>\<open>alpha[(v >> k) & 63]\<close> on the 32-bit quantum.\<close>

definition b64_char :: "string \<Rightarrow> 32 word \<Rightarrow> nat \<Rightarrow> char" where
  "b64_char alpha v k = alpha ! unat (drop_bit k v AND 63)"

fun b64_loop :: "string \<Rightarrow> bool \<Rightarrow> sl_bytes \<Rightarrow> string" where
  "b64_loop alpha pad (x # y # z # b) =
     (let v = push_bit 16 (ucast x) OR push_bit 8 (ucast y) OR ucast z :: 32 word in
      [b64_char alpha v 18, b64_char alpha v 12, b64_char alpha v 6, b64_char alpha v 0]
      @ b64_loop alpha pad b)"
| "b64_loop alpha pad [x, y] =
     (let v = push_bit 16 (ucast x) OR push_bit 8 (ucast y) :: 32 word in
      [b64_char alpha v 18, b64_char alpha v 12, b64_char alpha v 6]
      @ (if pad then ''='' else []))"
| "b64_loop alpha pad [x] =
     (let v = push_bit 16 (ucast x) :: 32 word in
      [b64_char alpha v 18, b64_char alpha v 12]
      @ (if pad then ''='' else []) @ (if pad then ''='' else []))"
| "b64_loop alpha pad [] = []"

definition b64_outn :: "bool \<Rightarrow> nat \<Rightarrow> nat" where
  "b64_outn pad n =
     (let full = n div 3; rem = n mod 3; outn = full * 4 in
      if rem \<noteq> 0 then outn + (if pad then 4 else rem + 1) else outn)"

definition sl_enc_b64 :: "sl_bytes option \<Rightarrow> string \<Rightarrow> bool \<Rightarrow> string" where
  "sl_enc_b64 b alpha pad = (case b of None \<Rightarrow> [] | Some b \<Rightarrow> b64_loop alpha pad b)"

text \<open>\<open>memchr(alpha, c, 64)\<close> as an index, or -1.\<close>

fun memchr_from :: "int \<Rightarrow> string \<Rightarrow> char \<Rightarrow> int" where
  "memchr_from i [] c = - 1"
| "memchr_from i (a # s) c = (if a = c then i else memchr_from (i + 1) s c)"

definition sl_enc_b64_digit :: "char \<Rightarrow> string \<Rightarrow> int" where
  "sl_enc_b64_digit c alpha = memchr_from 0 (take 64 alpha) c"

text \<open>The digits of one group from offset \<open>i\<close>, or the error at the first bad one.\<close>

fun b64_digits :: "string \<Rightarrow> string \<Rightarrow> nat \<Rightarrow> string \<Rightarrow> int list sl_result" where
  "b64_digits who alpha i [] = Inr []"
| "b64_digits who alpha i (c # s) =
     (let d = sl_enc_b64_digit c alpha in
      if d < 0
      then Inl (sl_enc_msg 160 (snprintf 96 (who @ '': byte not in the alphabet'')) i)
      else (case b64_digits who alpha (i + 1) s of Inl e \<Rightarrow> Inl e | Inr ds \<Rightarrow> Inr (d # ds)))"

definition b64_val :: "int list \<Rightarrow> 32 word" where
  "b64_val d = push_bit 18 (word_of_int (d ! 0)) OR push_bit 12 (word_of_int (d ! 1))
     OR push_bit 6 (word_of_int (d ! 2)) OR word_of_int (d ! 3)"

text \<open>The decoding loop over the first \<open>n\<close> characters (trailing padding removed).\<close>

function b64_decode_loop :: "string \<Rightarrow> string \<Rightarrow> nat \<Rightarrow> string \<Rightarrow> sl_bytes sl_result" where
  "b64_decode_loop who alpha i s =
     (if length s \<ge> 4 then
        (case b64_digits who alpha i (take 4 s) of
           Inl e \<Rightarrow> Inl e
         | Inr d \<Rightarrow>
             (let v = b64_val d in
              case b64_decode_loop who alpha (i + 4) (drop 4 s) of
                Inl e \<Rightarrow> Inl e
              | Inr out \<Rightarrow>
                  Inr (ucast (drop_bit 16 v) # ucast (drop_bit 8 v) # ucast v # out)))
      else if s \<noteq> [] then
        (case b64_digits who alpha i s of
           Inl e \<Rightarrow> Inl e
         | Inr d \<Rightarrow>
             (let v = b64_val (take 3 (d @ [0, 0, 0]) @ [0]) in
              Inr (ucast (drop_bit 16 v) # (if length s = 3 then [ucast (drop_bit 8 v)] else []))))
      else Inr [])"
  by pat_completeness auto
termination
  by (relation "measure (\<lambda>(who, alpha, i, s). length s)") auto

declare b64_decode_loop.simps [simp del]

text \<open>\<open>while (n && s[n - 1] == '=') n--\<close>\<close>

fun strip_pad :: "string \<Rightarrow> nat \<Rightarrow> nat" where
  "strip_pad s 0 = 0"
| "strip_pad s (Suc n) = (if s ! n = CHR ''='' then strip_pad s n else Suc n)"

definition sl_enc_b64_decode :: "cstr \<Rightarrow> string \<Rightarrow> bool \<Rightarrow> string \<Rightarrow> sl_bytes sl_result" where
  "sl_enc_b64_decode s alpha pad who =
     (case s of
        None \<Rightarrow> Inr []
      | Some s \<Rightarrow>
          (let n = strip_pad s (length s) in
           if pad \<and> length s mod 4 \<noteq> 0
           then Inl (''base64_decode: length is not a multiple of 4 (input is '' @
                     ''truncated, or is base64url -- try base64url_decode)'')
           else if n mod 4 = 1
           then Inl ''base64 decode: trailing character with no quantum to join''
           else b64_decode_loop who alpha 0 (take n s)))"

definition sl_encoding_base64_encode :: "sl_bytes option \<Rightarrow> string" where
  "sl_encoding_base64_encode b = sl_enc_b64 b SL_ENC_B64_STD True"

definition sl_encoding_base64_decode :: "cstr \<Rightarrow> sl_bytes sl_result" where
  "sl_encoding_base64_decode s = sl_enc_b64_decode s SL_ENC_B64_STD True ''base64_decode''"

definition sl_encoding_base64url_encode :: "sl_bytes option \<Rightarrow> string" where
  "sl_encoding_base64url_encode b = sl_enc_b64 b SL_ENC_B64_URL False"

definition sl_encoding_base64url_decode :: "cstr \<Rightarrow> sl_bytes sl_result" where
  "sl_encoding_base64url_decode s = sl_enc_b64_decode s SL_ENC_B64_URL False ''base64url_decode''"

section \<open>Percent-encoding\<close>

definition sl_enc_unreserved :: "char \<Rightarrow> bool" where
  "sl_enc_unreserved c \<longleftrightarrow> CHR ''A'' \<le> c \<and> c \<le> CHR ''Z'' \<or> CHR ''a'' \<le> c \<and> c \<le> CHR ''z'' \<or>
     CHR ''0'' \<le> c \<and> c \<le> CHR ''9'' \<or> c = CHR ''-'' \<or> c = CHR ''.'' \<or> c = CHR ''_'' \<or>
     c = CHR ''~''"

text \<open>The first pass of \<open>sl_enc_percent\<close>: the size of the buffer.\<close>

definition percent_outn :: "bool \<Rightarrow> string \<Rightarrow> nat" where
  "percent_outn plus_space s =
     sum_list (map (\<lambda>c. if sl_enc_unreserved c \<or> plus_space \<and> c = CHR '' '' then 1 else 3) s)"

definition percent_char :: "bool \<Rightarrow> char \<Rightarrow> string" where
  "percent_char plus_space c =
     (if sl_enc_unreserved c then [c]
      else if plus_space \<and> c = CHR '' '' then ''+''
      else [CHR ''%'', SL_ENC_HEX_UPPER ! unat (drop_bit 4 (uc c)),
            SL_ENC_HEX_UPPER ! unat (uc c AND 15)])"

definition sl_enc_percent :: "cstr \<Rightarrow> bool \<Rightarrow> string" where
  "sl_enc_percent s plus_space =
     concat (map (percent_char plus_space) (case s of None \<Rightarrow> [] | Some s \<Rightarrow> s))"

fun sl_enc_unpercent :: "bool \<Rightarrow> string \<Rightarrow> string sl_result" where
  "sl_enc_unpercent plus_space [] = Inr []"
| "sl_enc_unpercent plus_space (c # s) =
     (if c = CHR ''%'' then
        (if length s < 2 then Inl ''truncated percent-escape (needs two hex digits)''
         else
           (let hi = sl_enc_hex_digit (s ! 0); lo = sl_enc_hex_digit (s ! 1) in
            if hi < 0 \<or> lo < 0 then Inl ''percent-escape is not two hex digits''
            else if push_bit 4 hi OR lo = 0
            then Inl (''%00 cannot be represented in a str (decode to '' @
                      ''bytes with hex_decode or base64_decode instead)'')
            else (case sl_enc_unpercent plus_space (drop 2 s) of
                    Inl e \<Rightarrow> Inl e
                  | Inr w \<Rightarrow> Inr (ch (hex_byte hi lo) # w))))
      else
        (let d = (if plus_space \<and> c = CHR ''+'' then CHR '' '' else c) in
         case sl_enc_unpercent plus_space s of
           Inl e \<Rightarrow> Inl e
         | Inr w \<Rightarrow> Inr (d # w)))"

definition sl_enc_decode_str :: "cstr \<Rightarrow> bool \<Rightarrow> string sl_result" where
  "sl_enc_decode_str s plus_space =
     (case s of None \<Rightarrow> Inr [] | Some s \<Rightarrow> sl_enc_unpercent plus_space s)"

definition sl_encoding_url_encode :: "cstr \<Rightarrow> string" where
  "sl_encoding_url_encode s = sl_enc_percent s False"

definition sl_encoding_url_decode :: "cstr \<Rightarrow> string sl_result" where
  "sl_encoding_url_decode s = sl_enc_decode_str s False"

definition sl_encoding_form_encode :: "cstr \<Rightarrow> string" where
  "sl_encoding_form_encode s = sl_enc_percent s True"

definition sl_encoding_form_decode :: "cstr \<Rightarrow> string sl_result" where
  "sl_encoding_form_decode s = sl_enc_decode_str s True"

section \<open>Query strings\<close>

text \<open>The query part: after the first \<open>?\<close> if there is one, up to a fragment.\<close>

definition sl_enc_query_start :: "string \<Rightarrow> string" where
  "sl_enc_query_start s =
     (let s = (if CHR ''?'' \<in> set s then tl (dropWhile (\<lambda>c. c \<noteq> CHR ''?'') s) else s) in
      takeWhile (\<lambda>c. c \<noteq> CHR ''#'') s)"

definition query_sep :: "char \<Rightarrow> bool" where
  "query_sep c \<longleftrightarrow> c = CHR ''&'' \<or> c = CHR '';''"

text \<open>
  The next \<open>key=value\<close> pair and the rest of the query from the cursor on, or \<open>None\<close> when the
  query is exhausted.
\<close>

definition sl_enc_query_next :: "string \<Rightarrow> (string \<times> string \<times> string) option" where
  "sl_enc_query_next q =
     (let q = dropWhile query_sep q in
      if q = [] then None
      else
        (let field = takeWhile (\<lambda>c. \<not> query_sep c) q;
             rest = dropWhile (\<lambda>c. \<not> query_sep c) q
         in if CHR ''='' \<in> set field
            then Some (takeWhile (\<lambda>c. c \<noteq> CHR ''='') field,
                       tl (dropWhile (\<lambda>c. c \<noteq> CHR ''='') field), rest)
            else Some (field, [], rest)))"

lemma sl_enc_query_next_shorter:
  "sl_enc_query_next q = Some (k, v, rest) \<Longrightarrow> length rest < length q"
proof -
  assume a: "sl_enc_query_next q = Some (k, v, rest)"
  let ?q = "dropWhile query_sep q"
  from a have ne: "?q \<noteq> []" and r: "rest = dropWhile (\<lambda>c. \<not> query_sep c) ?q"
    by (auto simp: sl_enc_query_next_def Let_def split: if_splits)
  from ne have "\<not> query_sep (hd ?q)" by (rule hd_dropWhile)
  with ne r have "length rest < length ?q"
    by (cases ?q) (auto simp: less_Suc_eq_le length_dropWhile_le)
  also have "\<dots> \<le> length q" by (rule length_dropWhile_le)
  finally show ?thesis .
qed

function query_get_loop :: "string \<Rightarrow> string \<Rightarrow> string option" where
  "query_get_loop q key =
     (case sl_enc_query_next q of
        None \<Rightarrow> None
      | Some (k, v, rest) \<Rightarrow>
          if length k \<ge> 256 then query_get_loop rest key
          else
            (case sl_enc_unpercent True k of
               Inl _ \<Rightarrow> query_get_loop rest key
             | Inr kd \<Rightarrow>
                 if kd \<noteq> key then query_get_loop rest key
                 else (case sl_enc_unpercent True v of Inl _ \<Rightarrow> None | Inr vd \<Rightarrow> Some vd)))"
  by pat_completeness auto
termination
  by (relation "measure (\<lambda>(q, key). length q)") (auto dest: sl_enc_query_next_shorter)

declare query_get_loop.simps [simp del]

definition sl_encoding_query_get :: "cstr \<Rightarrow> cstr \<Rightarrow> string option" where
  "sl_encoding_query_get url key =
     (case (url, key) of
        (Some u, Some k) \<Rightarrow> query_get_loop (sl_enc_query_start u) k
      | _ \<Rightarrow> None)"

function query_keys_loop :: "string \<Rightarrow> string list" where
  "query_keys_loop q =
     (case sl_enc_query_next q of
        None \<Rightarrow> []
      | Some (k, v, rest) \<Rightarrow>
          (case sl_enc_unpercent True k of
             Inl _ \<Rightarrow> query_keys_loop rest
           | Inr kd \<Rightarrow> kd # query_keys_loop rest))"
  by pat_completeness auto
termination
  by (relation "measure length") (auto dest: sl_enc_query_next_shorter)

declare query_keys_loop.simps [simp del]

definition sl_encoding_query_keys :: "cstr \<Rightarrow> string list" where
  "sl_encoding_query_keys url =
     (case url of None \<Rightarrow> [] | Some u \<Rightarrow> query_keys_loop (sl_enc_query_start u))"

section \<open>Float bit patterns\<close>

definition sl_encoding_float64_to_le :: "u64 \<Rightarrow> sl_bytes" where
  "sl_encoding_float64_to_le bits = map (\<lambda>i. ucast (drop_bit (8 * i) bits AND 0xff)) [0..<8]"

definition sl_encoding_float64_from_le :: "sl_bytes option \<Rightarrow> u64 sl_result" where
  "sl_encoding_float64_from_le b =
     (case b of
        None \<Rightarrow> Inl ''encoding.float64_from_le: expected exactly 8 bytes''
      | Some b \<Rightarrow>
          if length b \<noteq> 8 then Inl ''encoding.float64_from_le: expected exactly 8 bytes''
          else Inr (fold (\<lambda>i bits. bits OR push_bit (8 * i) (ucast (b ! i))) [0..<8] 0))"


section \<open>Nibbles and sextets: lemmas\<close>

lemma and_15: "(c :: 'a::len word) AND 15 = take_bit 4 c"
  by (simp add: take_bit_eq_mask mask_eq_exp_minus_1)

lemma and_63: "(c :: 'a::len word) AND 63 = take_bit 6 c"
  by (simp add: take_bit_eq_mask mask_eq_exp_minus_1)

lemma and_255: "(c :: 'a::len word) AND 0xff = take_bit 8 c"
  by (simp add: take_bit_eq_mask mask_eq_exp_minus_1)

lemma unat_take_bit_less: "unat (take_bit k (c :: 'a::len word)) < 2 ^ k"
  by (simp add: unsigned_take_bit_eq)

lemma unat_drop4_less: "unat (drop_bit 4 (c :: byte)) < 16"
proof -
  have "unat (drop_bit 4 c) = unat c div 16"
    by (simp only: unat_drop_bit_eq) (simp add: drop_bit_eq_div)
  then show ?thesis using unat_byte_less [of c] by linarith
qed

lemma unat_and15_less: "unat ((c :: byte) AND 15) < 16"
  using unat_take_bit_less [of 4 c] by (simp add: and_15)

lemma hex_byte_nibbles:
  "hex_byte (uint (drop_bit 4 c)) (uint (c AND 15)) = c"
proof -
  have "hex_byte (uint (drop_bit 4 c)) (uint (c AND 15))
      = push_bit 4 (drop_bit 4 c) OR take_bit 4 c"
    by (simp add: hex_byte_def of_int_or_eq of_int_push_bit and_15)
  also have "\<dots> = c"
    by (rule bit_word_eqI) (auto simp: bit_simps)
  finally show ?thesis .
qed

lemma hex_digit_lower: "n < 16 \<Longrightarrow> sl_enc_hex_digit (SL_ENC_HEX_LOWER ! n) = int n"
proof -
  have "\<forall>n<16. sl_enc_hex_digit (SL_ENC_HEX_LOWER ! n) = int n" by code_simp
  then show "n < 16 \<Longrightarrow> ?thesis" by blast
qed

lemma hex_digit_upper: "n < 16 \<Longrightarrow> sl_enc_hex_digit (SL_ENC_HEX_UPPER ! n) = int n"
proof -
  have "\<forall>n<16. sl_enc_hex_digit (SL_ENC_HEX_UPPER ! n) = int n" by code_simp
  then show "n < 16 \<Longrightarrow> ?thesis" by blast
qed

lemma hex_digit_range: "sl_enc_hex_digit c < 16"
  by (auto simp: sl_enc_hex_digit_def char_less_eq_code)

text \<open>The 24-bit quantum: three bytes in, four sextets out, and back.\<close>

lemma quantum_sextets:
  fixes v :: "32 word"
  assumes "\<And>n. 24 \<le> n \<Longrightarrow> \<not> bit v n"
  shows "push_bit 18 (take_bit 6 (drop_bit 18 v)) OR push_bit 12 (take_bit 6 (drop_bit 12 v))
    OR push_bit 6 (take_bit 6 (drop_bit 6 v)) OR take_bit 6 v = v"
    (is "?w = v")
proof (rule bit_word_eqI)
  fix n :: nat
  assume n: "n < LENGTH(32)"
  consider "n < 6" | "6 \<le> n" "n < 12" | "12 \<le> n" "n < 18" | "18 \<le> n" "n < 24" | "24 \<le> n"
    by linarith
  then show "bit ?w n = bit v n"
    using n assms [of n] by cases (simp_all add: bit_simps less_diff_conv2)
qed

lemma quantum_bytes:
  fixes x y z :: byte
  defines "v \<equiv> push_bit 16 (ucast x) OR push_bit 8 (ucast y) OR ucast z :: 32 word"
  shows quantum_byte1: "ucast (drop_bit 16 v) = x"
    and quantum_byte2: "ucast (drop_bit 8 v) = y"
    and quantum_byte3: "ucast v = z"
    and quantum_high: "24 \<le> n \<Longrightarrow> \<not> bit v n"
proof -
  show "ucast (drop_bit 16 v) = x"
    unfolding v_def by (rule bit_word_eqI) (auto simp: bit_simps dest: bit_imp_le_length)
  show "ucast (drop_bit 8 v) = y"
    unfolding v_def by (rule bit_word_eqI) (auto simp: bit_simps dest: bit_imp_le_length)
  show "ucast v = z"
    unfolding v_def by (rule bit_word_eqI) (auto simp: bit_simps dest: bit_imp_le_length)
  show "24 \<le> n \<Longrightarrow> \<not> bit v n"
    unfolding v_def by (auto simp: bit_simps dest: bit_imp_le_length)
qed

text \<open>The same for a last group of two bytes and of one.\<close>

lemma quantum_bytes_2:
  fixes x y :: byte
  defines "v \<equiv> push_bit 16 (ucast x) OR push_bit 8 (ucast y) :: 32 word"
  shows "ucast (drop_bit 16 v) = x" and "ucast (drop_bit 8 v) = y"
    and "24 \<le> n \<Longrightarrow> \<not> bit v n"
  using quantum_bytes [where x = x and y = y and z = 0] by (simp_all only: v_def unsigned_0 or.right_neutral not_False_eq_True)

lemma quantum_bytes_1:
  fixes x :: byte
  defines "v \<equiv> push_bit 16 (ucast x) :: 32 word"
  shows "ucast (drop_bit 16 v) = x" and "24 \<le> n \<Longrightarrow> \<not> bit v n"
  using quantum_bytes_2 [where x = x and y = 0] by (simp_all only: v_def unsigned_0 push_bit_of_0 or.right_neutral not_False_eq_True)

lemma quantum_low_sextet:
  "take_bit 6 (push_bit 16 (ucast x) OR push_bit 8 (ucast y) :: 32 word) = 0"
  by (rule bit_word_eqI) (auto simp: bit_simps)

lemma quantum_low_sextets:
  "take_bit 6 (push_bit 16 (ucast x) :: 32 word) = 0"
  "take_bit 6 (drop_bit 6 (push_bit 16 (ucast x) :: 32 word)) = 0"
  by (rule bit_word_eqI; auto simp: bit_simps)+

section \<open>Hex: round trip\<close>

lemma hex_decode_loop_encode:
  "hex_decode_loop i (sl_encoding_hex_encode (Some b)) = Inr b"
proof (induction b arbitrary: i)
  case (Cons c b)
  then show ?case
    by (simp add: sl_encoding_hex_encode_def hex_digit_lower unat_drop4_less unat_and15_less
        hex_byte_nibbles)
qed (simp add: sl_encoding_hex_encode_def)

lemma length_hex_encode: "length (sl_encoding_hex_encode (Some b)) = 2 * length b"
  by (induction b) (auto simp: sl_encoding_hex_encode_def)

interpretation hex: codec "\<lambda>_. True" "\<lambda>b. sl_encoding_hex_encode (Some b)"
  "\<lambda>s. sl_encoding_hex_decode (Some s)"
  by unfold_locales
    (simp add: sl_encoding_hex_decode_def length_hex_encode hex_decode_loop_encode)

section \<open>Base64: round trip\<close>

lemma groups_of_three [case_names triple pair single nil]:
  fixes P :: "sl_bytes \<Rightarrow> bool"
  assumes "\<And>x y z b. P b \<Longrightarrow> P (x # y # z # b)" and "\<And>x y. P [x, y]" and "\<And>x. P [x]" and "P []"
  shows "P b"
  by (rule b64_loop.induct [where P = "\<lambda>_ _ b. P b"]) (use assms in auto)

text \<open>
  What the decoder needs of an alphabet: 64 distinct characters, found at their index, and no
  padding character among them.
\<close>

locale b64_alphabet =
  fixes alpha :: string and who :: string
  assumes digit_nth: "n < 64 \<Longrightarrow> sl_enc_b64_digit (alpha ! n) alpha = int n"
    and length_alpha: "length alpha = 64"
    and pad_notin: "CHR ''='' \<notin> set alpha"
begin

lemma digit_char:
  "sl_enc_b64_digit (b64_char alpha v k) alpha = uint (take_bit 6 (drop_bit k v))"
  using unat_take_bit_less [of 6 "drop_bit k v"]
  by (simp add: b64_char_def and_63 digit_nth)

lemma char_not_pad: "b64_char alpha v k \<noteq> CHR ''=''"
proof -
  have "unat (take_bit 6 (drop_bit k v)) < length alpha"
    using unat_take_bit_less [of 6 "drop_bit k v"] by (simp add: length_alpha)
  then show ?thesis
    using pad_notin nth_mem by (fastforce simp: b64_char_def and_63)
qed

lemma val_4:
  assumes "\<And>n. 24 \<le> n \<Longrightarrow> \<not> bit v n"
  shows "b64_val [uint (take_bit 6 (drop_bit 18 v)), uint (take_bit 6 (drop_bit 12 v)),
    uint (take_bit 6 (drop_bit 6 v)), uint (take_bit 6 v)] = v"
  using quantum_sextets [OF assms] by (simp add: b64_val_def)

lemma decode_group_4:
  assumes "\<And>n. 24 \<le> n \<Longrightarrow> \<not> bit v n"
  shows "b64_decode_loop who alpha i
      (b64_char alpha v 18 # b64_char alpha v 12 # b64_char alpha v 6 # b64_char alpha v 0 # s) =
    (case b64_decode_loop who alpha (i + 4) s of
       Inl e \<Rightarrow> Inl e
     | Inr out \<Rightarrow> Inr (ucast (drop_bit 16 v) # ucast (drop_bit 8 v) # ucast v # out))"
  by (subst b64_decode_loop.simps) (simp add: Let_def digit_char val_4 [OF assms])

lemma decode_group_3:
  assumes "\<And>n. 24 \<le> n \<Longrightarrow> \<not> bit v n" and "take_bit 6 v = 0"
  shows "b64_decode_loop who alpha i
      [b64_char alpha v 18, b64_char alpha v 12, b64_char alpha v 6] =
    Inr [ucast (drop_bit 16 v), ucast (drop_bit 8 v)]"
  using val_4 [OF assms(1)] assms(2)
  by (subst b64_decode_loop.simps) (simp add: Let_def digit_char)

lemma decode_group_2:
  assumes "\<And>n. 24 \<le> n \<Longrightarrow> \<not> bit v n" and "take_bit 6 v = 0" and "take_bit 6 (drop_bit 6 v) = 0"
  shows "b64_decode_loop who alpha i [b64_char alpha v 18, b64_char alpha v 12] =
    Inr [ucast (drop_bit 16 v)]"
  using val_4 [OF assms(1)] assms(2,3)
  by (subst b64_decode_loop.simps) (simp add: Let_def digit_char)

lemma decode_loop_encode:
  "b64_decode_loop who alpha i (b64_loop alpha False b) = Inr b"
proof (induction b arbitrary: i rule: groups_of_three)
  case (triple x y z b)
  define v :: "32 word" where "v = push_bit 16 (ucast x) OR push_bit 8 (ucast y) OR ucast z"
  show ?case
    using decode_group_4 [OF quantum_high [where x = x and y = y and z = z, folded v_def]]
    by (simp add: v_def [symmetric] Let_def quantum_bytes [where x = x and y = y and z = z, folded v_def] triple)
next
  case (pair x y)
  define v :: "32 word" where "v = push_bit 16 (ucast x) OR push_bit 8 (ucast y)"
  show ?case
    using decode_group_3 [OF quantum_bytes_2(3) [where x = x and y = y, folded v_def]
        quantum_low_sextet [of x y, folded v_def]]
    by (simp add: v_def [symmetric] Let_def quantum_bytes_2 [where x = x and y = y, folded v_def])
next
  case (single x)
  define v :: "32 word" where "v = push_bit 16 (ucast x)"
  show ?case
    using decode_group_2 [OF quantum_bytes_1(2) [where x = x, folded v_def]
        quantum_low_sextets [of x, folded v_def]]
    by (simp add: v_def [symmetric] Let_def quantum_bytes_1 [where x = x, folded v_def])
qed (simp add: b64_decode_loop.simps)

lemma set_loop: "CHR ''='' \<notin> set (b64_loop alpha False b)"
  by (induction b rule: groups_of_three)
    (simp_all add: Let_def char_not_pad char_not_pad [symmetric])


lemma loop_pad:
  "b64_loop alpha pad b = b64_loop alpha False b
     @ (if pad then replicate ((3 - length b mod 3) mod 3) (CHR ''='') else [])"
proof (induction b rule: groups_of_three)
  case (triple x y z b)
  have "Suc (Suc (Suc (length b))) mod 3 = length b mod 3" by presburger
  with triple show ?case by (simp add: Let_def)
qed (simp_all add: Let_def numeral_2_eq_2)

end

lemma length_b64_loop: "length (b64_loop alpha pad b) = b64_outn pad (length b)"
proof (induction b rule: groups_of_three)
  case (triple x y z b)
  have "Suc (Suc (Suc (length b))) div 3 = Suc (length b div 3)"
    and "Suc (Suc (Suc (length b))) mod 3 = length b mod 3"
    by presburger+
  with triple show ?case by (simp add: Let_def b64_outn_def)
qed (simp_all add: Let_def b64_outn_def)

lemma strip_pad_append:
  assumes "s = [] \<or> last s \<noteq> CHR ''=''"
  shows "strip_pad (s @ replicate k (CHR ''='')) (length s + k) = length s"
proof (induction k)
  case 0
  show ?case
  proof (cases "length s")
    case (Suc n)
    then have "last s = s ! n" by (cases s rule: rev_cases) auto
    with assms Suc have "s ! n \<noteq> CHR ''=''" by auto
    with Suc show ?thesis by simp
  qed simp
next
  case (Suc k)
  have "strip_pad (s @ replicate (Suc k) (CHR ''='')) m = strip_pad (s @ replicate k (CHR ''='')) m"
    if "m \<le> length s + k" for m
    using that by (induction m) (auto simp: nth_append nth_Cons' )
  with Suc show ?case by (simp add: nth_append replicate_append_same [symmetric] del: replicate_Suc)
qed

lemma b64_outn_mod:
  "b64_outn False n mod 4 \<noteq> 1" "b64_outn True n mod 4 = 0"
  "b64_outn False n + (3 - n mod 3) mod 3 = b64_outn True n"
proof -
  have "n mod 3 = 0 \<or> n mod 3 = 1 \<or> n mod 3 = 2" by linarith
  then show "b64_outn False n mod 4 \<noteq> 1" "b64_outn True n mod 4 = 0"
    "b64_outn False n + (3 - n mod 3) mod 3 = b64_outn True n"
    by (auto simp: b64_outn_def Let_def mod_Suc)
qed

context b64_alphabet
begin

theorem round_trip:
  "sl_enc_b64_decode (Some (sl_enc_b64 (Some b) alpha pad)) alpha pad who = Inr b"
proof -
  let ?core = "b64_loop alpha False b"
  define k where "k = (if pad then (3 - length b mod 3) mod 3 else 0)"
  have s: "b64_loop alpha pad b = ?core @ replicate k (CHR ''='')"
    by (subst loop_pad) (simp add: k_def)
  have "?core = [] \<or> last ?core \<noteq> CHR ''=''"
    using set_loop [of b] last_in_set by metis
  then have n: "strip_pad (b64_loop alpha pad b) (length (b64_loop alpha pad b)) = length ?core"
    unfolding s by (simp add: strip_pad_append)
  have "pad \<longrightarrow> length (b64_loop alpha pad b) mod 4 = 0"
    by (cases pad) (simp_all add: length_b64_loop b64_outn_mod)
  moreover have "length ?core mod 4 \<noteq> 1"
    by (simp only: length_b64_loop b64_outn_mod not_False_eq_True)
  moreover have "take (length ?core) (b64_loop alpha pad b) = ?core"
    unfolding s by simp
  ultimately show ?thesis
    by (auto simp: sl_enc_b64_def sl_enc_b64_decode_def Let_def n decode_loop_encode)
qed

end

interpretation b64_std: b64_alphabet SL_ENC_B64_STD "''base64_decode''"
proof
  have "\<forall>n<64. sl_enc_b64_digit (SL_ENC_B64_STD ! n) SL_ENC_B64_STD = int n" by code_simp
  then show "n < 64 \<Longrightarrow> sl_enc_b64_digit (SL_ENC_B64_STD ! n) SL_ENC_B64_STD = int n" for n
    by blast
qed (simp_all add: SL_ENC_B64_STD_def)

interpretation b64_url: b64_alphabet SL_ENC_B64_URL "''base64url_decode''"
proof
  have "\<forall>n<64. sl_enc_b64_digit (SL_ENC_B64_URL ! n) SL_ENC_B64_URL = int n" by code_simp
  then show "n < 64 \<Longrightarrow> sl_enc_b64_digit (SL_ENC_B64_URL ! n) SL_ENC_B64_URL = int n" for n
    by blast
qed (simp_all add: SL_ENC_B64_URL_def)

interpretation base64: codec "\<lambda>_. True" "\<lambda>b. sl_encoding_base64_encode (Some b)"
  "\<lambda>s. sl_encoding_base64_decode (Some s)"
  by unfold_locales
    (simp add: sl_encoding_base64_encode_def sl_encoding_base64_decode_def b64_std.round_trip)

interpretation base64url: codec "\<lambda>_. True" "\<lambda>b. sl_encoding_base64url_encode (Some b)"
  "\<lambda>s. sl_encoding_base64url_decode (Some s)"
  by unfold_locales
    (simp add: sl_encoding_base64url_encode_def sl_encoding_base64url_decode_def b64_url.round_trip)

section \<open>Percent-encoding: round trip\<close>

lemma unpercent_percent_char:
  assumes "c \<noteq> NUL"
  shows "sl_enc_unpercent ps (percent_char ps c @ s) =
    (case sl_enc_unpercent ps s of Inl e \<Rightarrow> Inl e | Inr w \<Rightarrow> Inr (c # w))"
proof (cases "sl_enc_unreserved c")
  case True
  then have "c \<noteq> CHR ''%''" "c \<noteq> CHR ''+''"
    by (auto simp: sl_enc_unreserved_def char_less_eq_code code_def)
  with True show ?thesis by (simp add: percent_char_def)
next
  case False
  show ?thesis
  proof (cases "ps \<and> c = CHR '' ''")
    case True
    then have "ps" and "c = CHR '' ''" by simp_all
    with False show ?thesis by (simp add: percent_char_def split: sum.split)
  next
    case space: False
    let ?hi = "uint (drop_bit 4 (uc c))" and ?lo = "uint (uc c AND 15)"
    have b: "hex_byte ?hi ?lo = uc c" by (rule hex_byte_nibbles)
    moreover have "push_bit 4 ?hi OR ?lo \<noteq> 0"
    proof
      assume "push_bit 4 ?hi OR ?lo = 0"
      then have "uc c = 0" using b by (simp add: hex_byte_def)
      then show False using assms ch_uc [of c] ch_eq_NUL_iff [of 0] by simp
    qed
    ultimately show ?thesis
      using False space
      by (auto simp: percent_char_def hex_digit_upper unat_drop4_less unat_and15_less
          split: sum.split)
  qed
qed

lemma unpercent_percent:
  "nul_free s \<Longrightarrow> sl_enc_unpercent ps (sl_enc_percent (Some s) ps) = Inr s"
proof (induction s)
  case (Cons c s)
  then have "sl_enc_unpercent ps (concat (map (percent_char ps) s)) = Inr s"
    by (simp add: sl_enc_percent_def)
  with Cons.prems show ?case
    by (simp add: sl_enc_percent_def unpercent_percent_char)
qed (simp add: sl_enc_percent_def)

lemma length_percent: "length (sl_enc_percent (Some s) ps) = percent_outn ps s"
  by (induction s) (auto simp: sl_enc_percent_def percent_outn_def percent_char_def)

lemma nth_HEX_UPPER_unreserved: "n < 16 \<Longrightarrow> sl_enc_unreserved (SL_ENC_HEX_UPPER ! n)"
proof -
  have "\<forall>n<16. sl_enc_unreserved (SL_ENC_HEX_UPPER ! n)" by code_simp
  then show "n < 16 \<Longrightarrow> ?thesis" by blast
qed

lemma percent_char_chars:
  assumes "d \<in> set (percent_char ps c)"
  shows "sl_enc_unreserved d \<or> d = CHR ''%'' \<or> ps \<and> d = CHR ''+''"
proof -
  have u: "sl_enc_unreserved (SL_ENC_HEX_UPPER ! unat (drop_bit 4 (uc c)))"
    "sl_enc_unreserved (SL_ENC_HEX_UPPER ! unat (uc c AND 15))"
    by (simp_all only: nth_HEX_UPPER_unreserved unat_drop4_less unat_and15_less)
  consider "sl_enc_unreserved c" | "\<not> sl_enc_unreserved c" "ps \<and> c = CHR '' ''"
    | "\<not> sl_enc_unreserved c" "\<not> (ps \<and> c = CHR '' '')" by blast
  then show ?thesis
  proof cases
    case 3
    then have "set (percent_char ps c) = {CHR ''%'', SL_ENC_HEX_UPPER ! unat (drop_bit 4 (uc c)),
        SL_ENC_HEX_UPPER ! unat (uc c AND 15)}"
      by (simp only: percent_char_def if_False list.set)
    with assms u show ?thesis by blast
  qed (use assms in \<open>simp_all add: percent_char_def\<close>)
qed

lemma percent_chars:
  "c \<in> set (sl_enc_percent (Some s) ps) \<Longrightarrow>
     sl_enc_unreserved c \<or> c = CHR ''%'' \<or> ps \<and> c = CHR ''+''"
  by (auto simp: sl_enc_percent_def dest: percent_char_chars)

lemma unreserved_not_special:
  "sl_enc_unreserved c \<Longrightarrow> c \<notin> {CHR ''%'', CHR ''+'', CHR ''&'', CHR '';'', CHR ''='', CHR ''#'', CHR ''?''}"
  by (auto simp: sl_enc_unreserved_def char_less_eq_code code_def)

interpretation url: codec nul_free "\<lambda>s. sl_encoding_url_encode (Some s)"
  "\<lambda>s. sl_encoding_url_decode (Some s)"
  by unfold_locales
    (simp add: sl_encoding_url_encode_def sl_encoding_url_decode_def sl_enc_decode_str_def
      unpercent_percent)

interpretation form: codec nul_free "\<lambda>s. sl_encoding_form_encode (Some s)"
  "\<lambda>s. sl_encoding_form_decode (Some s)"
  by unfold_locales
    (simp add: sl_encoding_form_encode_def sl_encoding_form_decode_def sl_enc_decode_str_def
      unpercent_percent)

lemma hex_value:
  fixes hi lo :: int
  assumes "0 \<le> lo" "lo < 16"
  shows "push_bit 4 hi OR lo = 16 * hi + lo"
proof -
  have lo: "take_bit 4 lo = lo" using assms by (simp add: take_bit_int_eq_self)
  have "push_bit 4 hi OR take_bit 4 lo = take_bit 4 lo + push_bit 4 hi"
    by (simp add: concat_bit_eq [symmetric] concat_bit_def or.commute)
  then show ?thesis by (simp add: lo push_bit_eq_mult)
qed

lemma hex_byte_nonzero:
  assumes "0 \<le> hi" "hi < 16" "0 \<le> lo" "lo < 16" and "push_bit 4 hi OR lo \<noteq> 0"
  shows "hex_byte hi lo \<noteq> 0"
proof -
  have "uint (hex_byte hi lo) = (16 * hi + lo) mod 256"
    using assms by (simp only: hex_byte_def hex_value uint_word_of_int) simp
  also have "\<dots> = 16 * hi + lo" using assms by simp
  finally have "uint (hex_byte hi lo) \<noteq> 0" using assms by (simp add: hex_value)
  then show ?thesis by auto
qed

lemma unpercent_nul_free:
  "nul_free s \<Longrightarrow> sl_enc_unpercent ps s = Inr w \<Longrightarrow> nul_free w"
proof (induction ps s arbitrary: w rule: sl_enc_unpercent.induct)
  case (2 ps c s)
  show ?case
  proof (cases "c = CHR ''%''")
    case True
    let ?hi = "sl_enc_hex_digit (s ! 0)" and ?lo = "sl_enc_hex_digit (s ! 1)"
    from True "2.prems"(2) obtain w' where w': "\<not> length s < 2" "0 \<le> ?hi" "0 \<le> ?lo"
      "push_bit 4 ?hi OR ?lo \<noteq> 0" "sl_enc_unpercent ps (drop 2 s) = Inr w'"
      "w = ch (hex_byte ?hi ?lo) # w'"
      by (auto simp: Let_def not_less simp del: length_drop split: if_splits sum.splits)
    from "2.prems"(1) have "nul_free (drop 2 s)"
      by (auto simp: nul_free_def dest: in_set_dropD)
    then have "nul_free w'"
      using "2.IH"(1) [OF True w'(1) refl refl _ w'(4)] w' by (simp add: not_less)
    moreover have "hex_byte ?hi ?lo \<noteq> 0"
      using w' hex_digit_range by (intro hex_byte_nonzero) auto
    ultimately show ?thesis using w'(6) by (simp add: ch_eq_NUL_iff)
  next
    case False
    from False "2.prems"(2) obtain w' where w': "sl_enc_unpercent ps s = Inr w'"
      "w = (if ps \<and> c = CHR ''+'' then CHR '' '' else c) # w'"
      by (auto simp: Let_def split: sum.splits)
    with "2.IH"(2) [OF False refl _ w'(1)] "2.prems"(1) have "nul_free w'" by simp
    with w'(2) "2.prems"(1) show ?thesis by (simp add: NUL_def)
  qed
qed simp


section \<open>Query strings: lemmas\<close>

lemma takeWhile_append_stop:
  "\<forall>c\<in>set s. P c \<Longrightarrow> r = [] \<or> \<not> P (hd r) \<Longrightarrow> takeWhile P (s @ r) = s \<and> dropWhile P (s @ r) = r"
  by (cases r) (auto simp: takeWhile_append dropWhile_append)

lemma form_encode_no_special:
  "c \<in> set (sl_encoding_form_encode (Some s)) \<Longrightarrow>
     c \<noteq> CHR ''&'' \<and> c \<noteq> CHR '';'' \<and> c \<noteq> CHR ''='' \<and> c \<noteq> CHR ''#'' \<and> c \<noteq> CHR ''?''"
  unfolding sl_encoding_form_encode_def
  by (drule percent_chars) (auto dest: unreserved_not_special)

text \<open>One encoded field, as a form or a query string carries it.\<close>

definition query_field :: "string \<times> string \<Rightarrow> string" where
  "query_field kv =
     sl_encoding_form_encode (Some (fst kv)) @ ''='' @ sl_encoding_form_encode (Some (snd kv))"

lemma query_field_chars:
  "c \<in> set (query_field kv) \<Longrightarrow> \<not> query_sep c \<and> c \<noteq> CHR ''#'' \<and> c \<noteq> CHR ''?''"
  by (auto simp: query_field_def query_sep_def dest: form_encode_no_special)

lemma query_next_field:
  assumes "r = [] \<or> query_sep (hd r)"
  shows "sl_enc_query_next (query_field (k, v) @ r) =
    Some (sl_encoding_form_encode (Some k), sl_encoding_form_encode (Some v), r)"
proof -
  let ?f = "query_field (k, v)"
  have ne: "?f \<noteq> []" by (simp add: query_field_def)
  have "dropWhile query_sep (?f @ r) = ?f @ r"
    using query_field_chars [of _ "(k, v)"] ne by (cases ?f) auto
  moreover have "takeWhile (\<lambda>c. \<not> query_sep c) (?f @ r) = ?f \<and>
      dropWhile (\<lambda>c. \<not> query_sep c) (?f @ r) = r"
    using query_field_chars [of _ "(k, v)"] assms by (intro takeWhile_append_stop) auto
  moreover have "takeWhile (\<lambda>c. c \<noteq> CHR ''='') ?f = sl_encoding_form_encode (Some k) \<and>
      dropWhile (\<lambda>c. c \<noteq> CHR ''='') ?f = ''='' @ sl_encoding_form_encode (Some v)"
    unfolding query_field_def fst_conv snd_conv
    by (intro takeWhile_append_stop) (auto dest: form_encode_no_special)
  moreover have "CHR ''='' \<in> set ?f" by (simp add: query_field_def)
  ultimately show ?thesis using ne by (simp add: sl_enc_query_next_def Let_def)
qed

lemma query_next_skip: "sl_enc_query_next (CHR ''&'' # q) = sl_enc_query_next q"
  by (simp add: sl_enc_query_next_def query_sep_def)

lemma query_get_skip: "query_get_loop (CHR ''&'' # q) key = query_get_loop q key"
  by (subst (1 2) query_get_loop.simps) (simp add: query_next_skip)

lemma query_get_field:
  assumes "nul_free k" "nul_free v" "length (sl_encoding_form_encode (Some k)) < 256"
    and "r = [] \<or> query_sep (hd r)"
  shows "query_get_loop (query_field (k, v) @ r) key =
    (if k = key then Some v else query_get_loop r key)"
proof -
  have "sl_enc_unpercent True (sl_encoding_form_encode (Some k)) = Inr k"
    "sl_enc_unpercent True (sl_encoding_form_encode (Some v)) = Inr v"
    using assms(1,2) by (simp_all add: sl_encoding_form_encode_def unpercent_percent)
  then show ?thesis
    using assms(3) by (subst query_get_loop.simps) (simp add: query_next_field [OF assms(4)])
qed

definition query_ok :: "string \<times> string \<Rightarrow> bool" where
  "query_ok kv \<longleftrightarrow> nul_free (fst kv) \<and> nul_free (snd kv) \<and>
     length (sl_encoding_form_encode (Some (fst kv))) < 256"

lemma query_get_fields:
  "\<forall>kv\<in>set kvs. query_ok kv \<Longrightarrow>
     query_get_loop (concat (map (\<lambda>kv. CHR ''&'' # query_field kv) kvs)) key = map_of kvs key"
proof (induction kvs)
  case Nil
  then show ?case by (simp add: query_get_loop.simps sl_enc_query_next_def)
next
  case (Cons kv kvs)
  obtain k v where kv: "kv = (k, v)" by (cases kv)
  let ?r = "concat (map (\<lambda>kv. CHR ''&'' # query_field kv) kvs)"
  have "?r = [] \<or> query_sep (hd ?r)" by (cases kvs) (auto simp: query_sep_def)
  with Cons kv show ?case by (simp add: query_get_skip query_get_field query_ok_def)
qed

lemma query_start_path:
  assumes "CHR ''?'' \<notin> set path" and "\<forall>c\<in>set q. c \<noteq> CHR ''#''"
  shows "sl_enc_query_start (path @ CHR ''?'' # q) = q"
proof -
  have "dropWhile (\<lambda>c. c \<noteq> CHR ''?'') (path @ CHR ''?'' # q) = CHR ''?'' # q"
    using assms(1) by (auto simp: dropWhile_append)
  moreover have "takeWhile (\<lambda>c. c \<noteq> CHR ''#'') q = q"
    using assms(2) by (simp add: takeWhile_eq_all_conv)
  ultimately show ?thesis by (simp add: sl_enc_query_start_def Let_def)
qed

section \<open>Acceptance: which inputs decode\<close>

lemma hex_digit_xdigit: "0 \<le> sl_enc_hex_digit c \<longleftrightarrow> is_xdigit c"
  by (auto simp: sl_enc_hex_digit_def char_class char_less_eq_code)

lemma hex_decode_loop_accepts:
  "even (length s) \<Longrightarrow> (\<exists>b. hex_decode_loop i s = Inr b) \<longleftrightarrow> (\<forall>c\<in>set s. is_xdigit c)"
proof (induction i s rule: hex_decode_loop.induct)
  case (1 i a b s)
  have "hex_decode_loop (i + 2) s = Inr x \<Longrightarrow> \<exists>b. hex_decode_loop (i + 2) s = Inr b" for x by blast
  with 1 show ?case
    by (auto simp: Let_def hex_digit_xdigit [symmetric] not_less split: sum.splits)
qed auto

section \<open>Properties\<close>

text \<open>C20: every byte string survives hex, base64 and base64url: decoding what the encoder wrote
  gives it back, and the encoders write exactly the number of characters they allocate.\<close>

theorem binary_codecs_round_trip:
  "sl_encoding_hex_decode (Some (sl_encoding_hex_encode (Some b))) = Inr b \<and>
   sl_encoding_base64_decode (Some (sl_encoding_base64_encode (Some b))) = Inr b \<and>
   sl_encoding_base64url_decode (Some (sl_encoding_base64url_encode (Some b))) = Inr b \<and>
   length (sl_encoding_hex_encode (Some b)) = 2 * length b \<and>
   length (sl_encoding_base64_encode (Some b)) = b64_outn True (length b) \<and>
   length (sl_encoding_base64url_encode (Some b)) = b64_outn False (length b)"
  by (intro conjI hex.decode_encode base64.decode_encode base64url.decode_encode)
    (simp_all add: length_hex_encode sl_encoding_base64_encode_def sl_encoding_base64url_encode_def
      sl_enc_b64_def length_b64_loop)

text \<open>The hex decoder accepts exactly the strings of an even number of hex digits, in either
  case; everything else is an error value.\<close>

theorem hex_decode_accepts:
  "(\<exists>b. sl_encoding_hex_decode (Some s) = Inr b) \<longleftrightarrow>
     even (length s) \<and> list_all is_xdigit s"
proof (cases "even (length s)")
  case True
  then show ?thesis
    using hex_decode_loop_accepts [OF True, of 0]
    by (simp add: sl_encoding_hex_decode_def even_iff_mod_2_eq_zero list_all_iff)
next
  case False
  then show ?thesis by (simp add: sl_encoding_hex_decode_def odd_iff_mod_2_eq_one)
qed

text \<open>C23: a \<open>str\<close> survives percent-encoding in both variants.\<close>

theorem percent_round_trip:
  assumes "nul_free s"
  shows "sl_encoding_url_decode (Some (sl_encoding_url_encode (Some s))) = Inr s \<and>
    sl_encoding_form_decode (Some (sl_encoding_form_encode (Some s))) = Inr s"
  using url.decode_encode [OF assms] form.decode_encode [OF assms] by simp

theorem percent_round_trip_witness:
  "nul_free ''a b&c=%d'' \<and> sl_encoding_url_encode (Some ''a b&c=%d'') = ''a%20b%26c%3D%25d'' \<and>
   sl_encoding_url_decode (Some (sl_encoding_url_encode (Some ''a b&c=%d''))) = Inr ''a b&c=%d''"
proof -
  have "nul_free ''a b&c=%d''" "sl_encoding_url_encode (Some ''a b&c=%d'') = ''a%20b%26c%3D%25d''"
    by code_simp+
  then show ?thesis using percent_round_trip [of "''a b&c=%d''"] by blast
qed

text \<open>What the percent encoders write is safe in any part of a URL: only unreserved characters
  and escapes (and the plus sign of a form), and exactly as many as the first pass counted for
  the buffer.\<close>

theorem percent_output_safe:
  "length (sl_encoding_url_encode (Some s)) = percent_outn False s \<and>
   length (sl_encoding_form_encode (Some s)) = percent_outn True s \<and>
   list_all (\<lambda>c. sl_enc_unreserved c \<or> c = CHR ''%'') (sl_encoding_url_encode (Some s)) \<and>
   list_all (\<lambda>c. sl_enc_unreserved c \<or> c = CHR ''%'' \<or> c = CHR ''+'') (sl_encoding_form_encode (Some s))"
  using percent_chars [of _ s False] percent_chars [of _ s True]
  by (auto simp: list_all_iff sl_encoding_url_encode_def sl_encoding_form_encode_def length_percent)

text \<open>A decoded \<open>str\<close> never holds a zero byte: an escaped one is an error, not a silent end of
  the string.\<close>

theorem percent_decode_nul_free:
  assumes "nul_free s" and "sl_enc_decode_str (Some s) ps = Inr w"
  shows "nul_free w"
  using unpercent_nul_free [OF assms(1)] assms(2) by (simp add: sl_enc_decode_str_def)

theorem percent_decode_nul_free_witness:
  "sl_enc_decode_str (Some ''%41+%2B'') True = Inr ''A +'' \<and> nul_free ''A +'' \<and>
   (\<exists>e. sl_enc_decode_str (Some ''a%00b'') True = Inl e)"
proof -
  have "sl_enc_decode_str (Some ''%41+%2B'') True = Inr ''A +''" "nul_free ''%41+%2B''"
    "sl_enc_decode_str (Some ''a%00b'') True =
      Inl (''%00 cannot be represented in a str (decode to '' @
                      ''bytes with hex_decode or base64_decode instead)'')" by code_simp+
  then show ?thesis using percent_decode_nul_free [of "''%41+%2B''" True "''A +''"] by blast
qed

text \<open>The base64 decoder is not injective on its accepted input: it takes padding with nothing
  before it, a whole quantum of padding, and set bits behind the last byte.\<close>

theorem base64_decode_lenient:
  "sl_encoding_base64_decode (Some ''===='') = Inr [] \<and>
   sl_encoding_base64_decode (Some ''AAAA===='') = sl_encoding_base64_decode (Some ''AAAA'') \<and>
   sl_encoding_base64_decode (Some ''QR=='') = sl_encoding_base64_decode (Some ''QQ=='')"
  by code_simp

end
