(* ===== verification/Sl_Bytes.thy ===== *)
theory Sl_Bytes
  imports Sl_Encoding
begin

text \<open>
  \<open>bytes\<close>, \<open>wire\<close>, \<open>peer\<close> and \<open>fault\<close> values, the conversions between integers, strings and
  bytes, and the tables of user-declared enums: \<open>runtime/sl_containers.c\<close> and the value types at
  the end of \<open>runtime/sl_core.c\<close>. A \<open>bytes\<close> is the list of its bytes (the length is never negative
  and the data is never shared with another value); an index or a bound is an integer, and
  \<open>b[i] = v\<close> returns the updated list. A \<open>wire\<close> is a view into memory it does not own, so its
  operations take the memory, a function from addresses to bytes, and return it.
\<close>

section \<open>Bytes\<close>

definition sl_bytes_at :: "sl_bytes \<Rightarrow> int \<Rightarrow> int sl_panics" where
  "sl_bytes_at b i =
     (if i < 0 \<or> i \<ge> int (length b) then Inl (Panic ''byte index out of bounds'' i (int (length b)))
      else Inr (uint (b ! nat i)))"

definition sl_bytes_set :: "sl_bytes \<Rightarrow> int \<Rightarrow> byte \<Rightarrow> sl_bytes sl_panics" where
  "sl_bytes_set b i v =
     (if i < 0 \<or> i \<ge> int (length b) then Inl (Panic ''byte index out of bounds'' i (int (length b)))
      else Inr (b[nat i := v]))"

definition sl_bytes_concat :: "sl_bytes \<Rightarrow> sl_bytes \<Rightarrow> sl_bytes" where
  "sl_bytes_concat a b = a @ b"

text \<open>The bounds of a slice after clamping, shared by \<open>bytes\<close>, \<open>wire\<close> and lists.\<close>

definition clamp_lo :: "int \<Rightarrow> int" where
  "clamp_lo s = (if s < 0 then 0 else s)"

definition clamp_hi :: "int \<Rightarrow> int \<Rightarrow> int \<Rightarrow> int" where
  "clamp_hi len s e = (let e = (if e > len then len else e) in if e < s then s else e)"

definition sl_bytes_slice :: "sl_bytes \<Rightarrow> int \<Rightarrow> int \<Rightarrow> sl_bytes" where
  "sl_bytes_slice b s e =
     (let s = clamp_lo s; e = clamp_hi (int (length b)) s e
      in if e - s \<noteq> 0 then take (nat (e - s)) (drop (nat s) b) else [])"

text \<open>\<open>memcmp\<close> on the first \<open>n\<close> bytes.\<close>

fun memcmp_eq :: "nat \<Rightarrow> sl_bytes \<Rightarrow> sl_bytes \<Rightarrow> bool" where
  "memcmp_eq (Suc n) (x # a) (y # b) = (x = y \<and> memcmp_eq n a b)"
| "memcmp_eq n a b = True"

definition sl_bytes_eq :: "sl_bytes \<Rightarrow> sl_bytes \<Rightarrow> bool" where
  "sl_bytes_eq a b \<longleftrightarrow> length a = length b \<and> (length a = 0 \<or> memcmp_eq (length a) a b)"

text \<open>The buffer of a \<open>str\<close> made from bytes; as a \<open>str\<close> it ends at the first zero byte.\<close>

definition sl_str_from_bytes :: "sl_bytes \<Rightarrow> string" where
  "sl_str_from_bytes b = takeWhile (\<lambda>c. c \<noteq> NUL) (map ch b)"

definition sl_bytes_from_str :: "string \<Rightarrow> sl_bytes" where
  "sl_bytes_from_str s = map uc s"

section \<open>Byte order\<close>

definition sl_to_le :: "u64 \<Rightarrow> sl_bytes" where
  "sl_to_le v = map (\<lambda>i. ucast (drop_bit (8 * i) v AND 0xff)) [0..<8]"

text \<open>\<open>buf[7 - i]\<close> for \<open>i\<close> from 0 to 7.\<close>

definition sl_to_be :: "u64 \<Rightarrow> sl_bytes" where
  "sl_to_be v = fold (\<lambda>i buf. buf[7 - i := ucast (drop_bit (8 * i) v AND 0xff)]) [0..<8] (replicate 8 0)"

definition sl_from_le :: "sl_bytes \<Rightarrow> u64 sl_panics" where
  "sl_from_le b =
     (if length b \<noteq> 8 then Inl (Panic ''from_le expects exactly 8 bytes'' (int (length b)) 8)
      else Inr (fold (\<lambda>i v. push_bit 8 v OR ucast (b ! i)) (rev [0..<8]) 0))"

definition sl_from_be :: "sl_bytes \<Rightarrow> u64 sl_panics" where
  "sl_from_be b =
     (if length b \<noteq> 8 then Inl (Panic ''from_be expects exactly 8 bytes'' (int (length b)) 8)
      else Inr (fold (\<lambda>i v. push_bit 8 v OR ucast (b ! i)) [0..<8] 0))"

section \<open>Integers and strings\<close>

text \<open>The digits of \<open>sl_str_parse_int\<close> from the accumulator \<open>acc\<close> on.\<close>

fun parse_int_loop :: "u64 \<Rightarrow> string \<Rightarrow> u64 \<Rightarrow> u64 sl_result" where
  "parse_int_loop limit [] acc = Inr acc"
| "parse_int_loop limit (c # p) acc =
     (if c < CHR ''0'' \<or> c > CHR ''9'' then Inl ''not a base-10 integer''
      else
        (let d = word_of_nat (code c - 48) in
         if acc > (limit - d) div 10 then Inl ''out of range for int''
         else parse_int_loop limit p (acc * 10 + d)))"

text \<open>
  The result is a \<open>long long\<close>, read off the 64-bit word as a signed value; negation is the
  word's, so that the most negative value comes out as itself.
\<close>

definition sl_str_parse_int :: "cstr \<Rightarrow> int sl_result" where
  "sl_str_parse_int s =
     (case s of
        None \<Rightarrow> Inl ''cannot parse an empty string as int''
      | Some s \<Rightarrow>
          if s = [] then Inl ''cannot parse an empty string as int''
          else
            (let signed = (hd s = CHR ''+'' \<or> hd s = CHR ''-'');
                 neg = (signed \<and> hd s = CHR ''-'');
                 p = (if signed then tl s else s)
             in if p = [] then Inl ''no digits after the sign''
                else
                  (let limit = (if neg then 9223372036854775808 else 9223372036854775807) in
                   case parse_int_loop limit p 0 of
                     Inl e \<Rightarrow> Inl e
                   | Inr acc \<Rightarrow> Inr (sint (if neg then - acc else acc)))))"

definition sl_str_from_int :: "int \<Rightarrow> string" where
  "sl_str_from_int v = snprintf 32 (dec_int v)"

definition sl_str_from_uint :: "u64 \<Rightarrow> string" where
  "sl_str_from_uint v = snprintf 32 (dec (unat v))"

definition sl_str_from_bool :: "bool \<Rightarrow> string" where
  "sl_str_from_bool v = (if v then ''true'' else ''false'')"

definition sl_str_concat :: "string \<Rightarrow> string \<Rightarrow> string" where
  "sl_str_concat a b = a @ b"

section \<open>Enums\<close>

text \<open>An enum is its table of names and ordinals, as the code generator emits it.\<close>

fun sl_enum_name :: "int \<Rightarrow> (string \<times> int) list \<Rightarrow> nat \<Rightarrow> string sl_panics" where
  "sl_enum_name ord [] n = Inl (Panic ''internal: enum value has no matching variant'' ord (int n))"
| "sl_enum_name ord ((name, v) # vs) n = (if v = ord then Inr name else sl_enum_name ord vs n)"

fun sl_enum_from_int :: "int \<Rightarrow> (string \<times> int) list \<Rightarrow> nat \<Rightarrow> nat option" where
  "sl_enum_from_int x [] i = None"
| "sl_enum_from_int x ((name, v) # vs) i = (if v = x then Some i else sl_enum_from_int x vs (i + 1))"

fun sl_enum_from_str :: "string \<Rightarrow> (string \<times> int) list \<Rightarrow> nat \<Rightarrow> nat option" where
  "sl_enum_from_str s [] i = None"
| "sl_enum_from_str s ((name, v) # vs) i = (if name = s then Some i else sl_enum_from_str s vs (i + 1))"

section \<open>Wires\<close>

record sl_wire =
  w_ptr :: nat
  w_len :: int

type_synonym memory = "nat \<Rightarrow> byte"

definition sl_wire_make :: "nat \<Rightarrow> int \<Rightarrow> sl_wire" where
  "sl_wire_make p n = \<lparr>w_ptr = p, w_len = n\<rparr>"

definition sl_wire_at :: "memory \<Rightarrow> sl_wire \<Rightarrow> int \<Rightarrow> int sl_panics" where
  "sl_wire_at mem w i =
     (if i < 0 \<or> i \<ge> w_len w then Inl (Panic ''wire index out of bounds'' i (w_len w))
      else Inr (uint (mem (w_ptr w + nat i))))"

definition sl_wire_set :: "memory \<Rightarrow> sl_wire \<Rightarrow> int \<Rightarrow> byte \<Rightarrow> memory sl_panics" where
  "sl_wire_set mem w i v =
     (if i < 0 \<or> i \<ge> w_len w then Inl (Panic ''wire index out of bounds'' i (w_len w))
      else Inr (mem(w_ptr w + nat i := v)))"

definition sl_wire_slice :: "sl_wire \<Rightarrow> int \<Rightarrow> int \<Rightarrow> sl_wire" where
  "sl_wire_slice w s e =
     (let s = clamp_lo s; e = clamp_hi (w_len w) s e
      in \<lparr>w_ptr = w_ptr w + nat s, w_len = e - s\<rparr>)"

definition memcpy :: "memory \<Rightarrow> nat \<Rightarrow> sl_bytes \<Rightarrow> memory" where
  "memcpy mem p b = (\<lambda>a. if p \<le> a \<and> a < p + length b then b ! (a - p) else mem a)"

definition sl_wire_put :: "memory \<Rightarrow> sl_wire \<Rightarrow> int \<Rightarrow> cstr \<Rightarrow> int \<times> memory" where
  "sl_wire_put mem w off s =
     (case s of
        None \<Rightarrow> (0, mem)
      | Some s \<Rightarrow>
          if off < 0 \<or> off > w_len w then (0, mem)
          else
            (let room = w_len w - off in
             if room = 0 then (0, mem)
             else
               (let n = int (length s); n = (if n > room then room else n) in
                if n > 0 then (n, memcpy mem (w_ptr w + nat off) (map uc (take (nat n) s)))
                else (n, mem))))"

definition sl_wire_put_bytes :: "memory \<Rightarrow> sl_wire \<Rightarrow> int \<Rightarrow> sl_bytes option \<Rightarrow> int \<times> memory" where
  "sl_wire_put_bytes mem w off b =
     (case b of
        None \<Rightarrow> (0, mem)
      | Some b \<Rightarrow>
          if off < 0 \<or> off > w_len w then (0, mem)
          else
            (let room = w_len w - off; n = int (length b); n = (if n > room then room else n) in
             if n > 0 then (n, memcpy mem (w_ptr w + nat off) (take (nat n) b))
             else (n, mem)))"

definition sl_str_from_wire :: "memory \<Rightarrow> sl_wire \<Rightarrow> string" where
  "sl_str_from_wire mem w = sl_str_from_bytes (map (\<lambda>i. mem (w_ptr w + i)) [0..<nat (w_len w)])"

section \<open>Peers and faults\<close>

record sl_peer =
  p_addr :: "32 word"
  p_port :: "16 word"

definition sl_peer_v4 :: "int \<Rightarrow> int \<Rightarrow> int \<Rightarrow> int \<Rightarrow> int \<Rightarrow> sl_peer" where
  "sl_peer_v4 a b c d port =
     \<lparr>p_addr = push_bit 24 (word_of_int (a AND 255)) OR push_bit 16 (word_of_int (b AND 255)) OR
               push_bit 8 (word_of_int (c AND 255)) OR word_of_int (d AND 255),
      p_port = word_of_int port\<rparr>"

definition sl_peer_port :: "sl_peer \<Rightarrow> int" where
  "sl_peer_port p = uint (p_port p)"

definition sl_peer_eq :: "sl_peer \<Rightarrow> sl_peer \<Rightarrow> bool" where
  "sl_peer_eq a b \<longleftrightarrow> p_addr a = p_addr b \<and> p_port a = p_port b"

definition peer_text :: "sl_peer \<Rightarrow> string" where
  "peer_text p =
     (let octet = (\<lambda>k. dec (unat (drop_bit k (p_addr p) AND 255))) in
      octet 24 @ ''.'' @ octet 16 @ ''.'' @ octet 8 @ ''.'' @ octet 0 @ '':'' @ dec (unat (p_port p)))"

definition sl_str_from_peer :: "sl_peer \<Rightarrow> string" where
  "sl_str_from_peer p =
     (let buf = snprintf 32 (peer_text p); n = length (peer_text p);
          n = (if n \<ge> 32 then 31 else n)
      in take n buf)"

record sl_fault =
  f_kind :: int
  f_detail :: string
  f_op :: string
  f_code :: int

definition sl_fault_make :: "int \<Rightarrow> cstr \<Rightarrow> sl_fault" where
  "sl_fault_make kind d =
     \<lparr>f_kind = kind, f_detail = (case d of None \<Rightarrow> [] | Some t \<Rightarrow> t), f_op = [], f_code = 0\<rparr>"

definition sl_fault_op :: "int \<Rightarrow> int \<Rightarrow> cstr \<Rightarrow> sl_fault" where
  "sl_fault_op kind cd op =
     \<lparr>f_kind = kind,
      f_detail = (if kind = 1 then ''timeout'' else if kind = 2 then ''reset''
                  else if kind = 3 then ''closed'' else if kind = 5 then ''refused'' else ''io''),
      f_op = (case op of None \<Rightarrow> [] | Some t \<Rightarrow> t), f_code = cd\<rparr>"

text \<open>\<open>strerror\<close> belongs to libc: a parameter.\<close>

definition sl_str_from_fault :: "(int \<Rightarrow> string) \<Rightarrow> sl_fault \<Rightarrow> string" where
  "sl_str_from_fault strerror f =
     (if f_op f = [] \<and> f_code f = 0 then f_detail f
      else if f_op f \<noteq> [] \<and> f_code f \<noteq> 0
      then snprintf 256 (f_op f @ '': '' @ strerror (f_code f))
      else if f_op f \<noteq> [] then snprintf 256 (f_op f @ '' '' @ f_detail f)
      else snprintf 256 (f_detail f @ '': '' @ strerror (f_code f)))"

section \<open>Byte order: lemmas\<close>

lemma upt_8: "[0..<8] = [0, 1, 2, 3, 4, 5, 6, 7]"
  by code_simp

lemma to_le_bytes: "sl_to_le v = map (le_byte v) [0..<8]"
  by (simp add: sl_to_le_def le_byte_def)

lemma from_le_word: "length b = 8 \<Longrightarrow> sl_from_le b = Inr (le_word b)"
  unfolding sl_from_le_def le_word_def upt_8 by (simp add: push_bit_or ac_simps)

lemma to_be_rev: "sl_to_be v = rev (sl_to_le v)"
  unfolding sl_to_be_def sl_to_le_def upt_8 by (simp add: numeral_eq_Suc)

lemma from_be_rev: "length b = 8 \<Longrightarrow> sl_from_be b = sl_from_le (rev b)"
  by (simp add: sl_from_be_def sl_from_le_def rev_nth upt_8)

lemma float64_from_word: "length b = 8 \<Longrightarrow> sl_encoding_float64_from_le (Some b) = Inr (le_word b)"
  by (simp add: sl_encoding_float64_from_le_def le_word_def)

lemma float64_to_bytes: "sl_encoding_float64_to_le v = map (le_byte v) [0..<8]"
  by (simp add: sl_encoding_float64_to_le_def le_byte_def)

interpretation int_le: codec "\<lambda>_. True" sl_to_le sl_from_le
  by unfold_locales (simp add: to_le_bytes from_le_word le_word_bytes)

interpretation int_be: codec "\<lambda>_. True" sl_to_be sl_from_be
  by unfold_locales
    (simp add: to_be_rev from_be_rev to_le_bytes from_le_word le_word_bytes del: rev_map)

interpretation float_le: codec "\<lambda>_. True" sl_encoding_float64_to_le
  "\<lambda>b. sl_encoding_float64_from_le (Some b)"
  by unfold_locales (simp add: float64_to_bytes float64_from_word le_word_bytes)

section \<open>Integers and strings: lemmas\<close>

lemma digit_code: "is_digit c \<Longrightarrow> 48 \<le> code c \<and> code c - 48 \<le> 9"
  by (auto simp: char_class char_less_eq_code code_def)

lemma not_digit: "(c < CHR ''0'' \<or> c > CHR ''9'') \<longleftrightarrow> \<not> is_digit c"
  by (auto simp: is_digit_def not_le)

lemma parse_guard:
  fixes acc limit :: u64
  assumes "d \<le> 9" and "9 \<le> unat limit"
  shows "acc > (limit - word_of_nat d) div 10 \<longleftrightarrow> unat acc * 10 + d > unat limit"
proof -
  have d: "unat (word_of_nat d :: u64) = d" using assms(1) by (simp add: unat_of_nat)
  have "unat (limit - word_of_nat d) = unat limit - d"
    using assms by (simp add: unat_sub word_le_nat_alt d)
  then have "unat ((limit - word_of_nat d) div 10) = (unat limit - d) div 10"
    by (simp add: unat_div_distrib)
  then have "acc > (limit - word_of_nat d) div 10 \<longleftrightarrow> (unat limit - d) div 10 < unat acc"
    by (simp add: word_less_nat_alt)
  also have "\<dots> \<longleftrightarrow> unat limit - d < unat acc * 10" by (rule div_less_iff_less_mult) simp
  also have "\<dots> \<longleftrightarrow> unat acc * 10 + d > unat limit" using assms by linarith
  finally show ?thesis .
qed

lemma parse_step:
  fixes acc limit :: u64
  assumes "unat acc * 10 + d \<le> unat limit"
  shows "unat (acc * 10 + word_of_nat d) = unat acc * 10 + d"
proof -
  have "unat acc * 10 + d < 2 ^ 64" using assms unsigned_less [of limit, where ?'a = nat] by simp
  moreover have "acc * 10 + word_of_nat d = word_of_nat (unat acc * 10 + d)" by simp
  ultimately show ?thesis by (simp only: unat_of_nat) simp
qed

lemma parse_int_loop_iff:
  assumes "9 \<le> unat limit" and "unat acc \<le> unat limit"
  shows "parse_int_loop limit p acc = Inr r \<longleftrightarrow>
    list_all is_digit p \<and> dval (unat acc) p \<le> unat limit \<and> unat r = dval (unat acc) p"
  using assms(2)
proof (induction p arbitrary: acc)
  case Nil
  then show ?case by (auto simp: word_unat_eq_iff)
next
  case (Cons c p)
  let ?d = "code c - 48"
  show ?case
  proof (cases "is_digit c")
    case dig: True
    have g: "acc > (limit - word_of_nat ?d) div 10 \<longleftrightarrow> unat acc * 10 + ?d > unat limit"
      using digit_code [OF dig] by (intro parse_guard assms) simp
    have step: "parse_int_loop limit (c # p) acc =
        (if unat acc * 10 + ?d > unat limit then Inl ''out of range for int''
         else parse_int_loop limit p (acc * 10 + word_of_nat ?d))"
      using dig unfolding parse_int_loop.simps not_digit Let_def g by simp
    show ?thesis
    proof (cases "unat acc * 10 + ?d > unat limit")
      case True
      then have "\<not> dval (unat acc) (c # p) \<le> unat limit"
        using dval_mono [of "unat acc * 10 + ?d" p] by simp
      then show ?thesis using True step by simp
    next
      case False
      then have le: "unat acc * 10 + ?d \<le> unat limit" by simp
      have "unat (acc * 10 + word_of_nat ?d) = unat acc * 10 + ?d" by (rule parse_step [OF le])
      then show ?thesis using Cons.IH [of "acc * 10 + word_of_nat ?d"] le step dig by simp
    qed
  next
    case False
    then show ?thesis unfolding parse_int_loop.simps not_digit by simp
  qed
qed

text \<open>The integer a decimal text denotes: an optional sign and at least one digit.\<close>

definition int_text :: "string \<Rightarrow> int option" where
  "int_text s =
     (let signed = (s \<noteq> [] \<and> (hd s = CHR ''+'' \<or> hd s = CHR ''-''));
          p = (if signed then tl s else s)
      in if p = [] \<or> \<not> list_all is_digit p then None
         else Some (if signed \<and> hd s = CHR ''-'' then - int (dval 0 p) else int (dval 0 p)))"

lemma sint_in_range:
  assumes "- (2 ^ 63) \<le> x" and "x < 2 ^ 63"
  shows "sint (word_of_int x :: u64) = x"
proof -
  have "sint (word_of_int x :: u64) = signed_take_bit 63 x" by (simp add: signed_of_int)
  also have "\<dots> = x" by (rule signed_take_bit_int_eq_self) (use assms in simp_all)
  finally show ?thesis .
qed

lemma sint_small:
  assumes "unat (w :: u64) < 2 ^ 63"
  shows "sint w = int (unat w)"
proof -
  have "int (unat w) < int (2 ^ 63)" using assms by (simp only: of_nat_less_iff)
  then have "sint (word_of_int (int (unat w)) :: u64) = int (unat w)"
    by (intro sint_in_range) (simp_all add: order_trans [of _ 0])
  then show ?thesis by simp
qed

lemma sint_neg_small:
  assumes "unat (w :: u64) \<le> 2 ^ 63"
  shows "sint (- w) = - int (unat w)"
proof -
  have "int (unat w) \<le> int (2 ^ 63)" using assms by (simp only: of_nat_le_iff)
  then have "sint (word_of_int (- int (unat w)) :: u64) = - int (unat w)"
    by (intro sint_in_range) (simp_all add: le_less_trans [of _ 0])
  then show ?thesis by simp
qed

lemma parse_int_unsigned:
  assumes "p \<noteq> []"
  shows "(\<exists>acc. parse_int_loop 9223372036854775807 p 0 = Inr acc \<and> v = sint acc) \<longleftrightarrow>
    list_all is_digit p \<and> v = int (dval 0 p) \<and> v < 2 ^ 63"
proof -
  have iff: "parse_int_loop 9223372036854775807 p 0 = Inr acc \<longleftrightarrow>
      list_all is_digit p \<and> dval 0 p < 2 ^ 63 \<and> unat acc = dval 0 p" for acc
    using parse_int_loop_iff [of 9223372036854775807 0 p acc] by auto
  show ?thesis
  proof
    assume "\<exists>acc. parse_int_loop 9223372036854775807 p 0 = Inr acc \<and> v = sint acc"
    then obtain acc :: u64 where "list_all is_digit p" "dval 0 p < 2 ^ 63" "unat acc = dval 0 p" "v = sint acc"
      unfolding iff by blast
    then show "list_all is_digit p \<and> v = int (dval 0 p) \<and> v < 2 ^ 63"
      using sint_small [of acc] by simp
  next
    assume a: "list_all is_digit p \<and> v = int (dval 0 p) \<and> v < 2 ^ 63"
    then have "unat (word_of_nat (dval 0 p) :: u64) = dval 0 p" by (simp add: unat_of_nat)
    then show "\<exists>acc. parse_int_loop 9223372036854775807 p 0 = Inr acc \<and> v = sint acc"
      unfolding iff using a sint_small [of "word_of_nat (dval 0 p)"]
      by (intro exI [of _ "word_of_nat (dval 0 p)"]) simp
  qed
qed

lemma parse_int_negative:
  assumes "p \<noteq> []"
  shows "(\<exists>acc. parse_int_loop 9223372036854775808 p 0 = Inr acc \<and> v = sint (- acc)) \<longleftrightarrow>
    list_all is_digit p \<and> v = - int (dval 0 p) \<and> - (2 ^ 63) \<le> v"
proof -
  have iff: "parse_int_loop 9223372036854775808 p 0 = Inr acc \<longleftrightarrow>
      list_all is_digit p \<and> dval 0 p \<le> 2 ^ 63 \<and> unat acc = dval 0 p" for acc
    using parse_int_loop_iff [of 9223372036854775808 0 p acc] by simp
  show ?thesis
  proof
    assume "\<exists>acc. parse_int_loop 9223372036854775808 p 0 = Inr acc \<and> v = sint (- acc)"
    then obtain acc :: u64 where "list_all is_digit p" "dval 0 p \<le> 2 ^ 63" "unat acc = dval 0 p" "v = sint (- acc)"
      unfolding iff by blast
    then show "list_all is_digit p \<and> v = - int (dval 0 p) \<and> - (2 ^ 63) \<le> v"
      using sint_neg_small [of acc] by simp
  next
    assume a: "list_all is_digit p \<and> v = - int (dval 0 p) \<and> - (2 ^ 63) \<le> v"
    then have "unat (word_of_nat (dval 0 p) :: u64) = dval 0 p" by (simp add: unat_of_nat)
    then show "\<exists>acc. parse_int_loop 9223372036854775808 p 0 = Inr acc \<and> v = sint (- acc)"
      unfolding iff using a sint_neg_small [of "word_of_nat (dval 0 p)"]
      by (intro exI [of _ "word_of_nat (dval 0 p)"]) simp
  qed
qed

lemma sum_case_Inr_iff: "(case x of Inl e \<Rightarrow> Inl e | Inr a \<Rightarrow> Inr (f a)) = Inr v \<longleftrightarrow> (\<exists>a. x = Inr a \<and> v = f a)"
  by (cases x) auto

lemma parse_int_iff:
  "sl_str_parse_int (Some s) = Inr v \<longleftrightarrow> int_text s = Some v \<and> - (2 ^ 63) \<le> v \<and> v < 2 ^ 63"
proof -
  define signed where "signed = (s \<noteq> [] \<and> (hd s = CHR ''+'' \<or> hd s = CHR ''-''))"
  define p where "p = (if signed then tl s else s)"
  define neg where "neg = (signed \<and> hd s = CHR ''-'')"
  have itext: "int_text s = (if p = [] \<or> \<not> list_all is_digit p then None
      else Some (if neg then - int (dval 0 p) else int (dval 0 p)))"
    by (simp add: int_text_def signed_def p_def neg_def Let_def)
  have parse: "sl_str_parse_int (Some s) =
      (if s = [] then Inl ''cannot parse an empty string as int''
       else if p = [] then Inl ''no digits after the sign''
       else case parse_int_loop (if neg then 9223372036854775808 else 9223372036854775807) p 0 of
              Inl e \<Rightarrow> Inl e | Inr acc \<Rightarrow> Inr (sint (if neg then - acc else acc)))"
    by (simp add: sl_str_parse_int_def signed_def p_def neg_def Let_def split: sum.split)
  show ?thesis
  proof (cases "p = []")
    case True
    then show ?thesis by (simp add: itext parse)
  next
    case False
    then have "s \<noteq> []" by (auto simp: p_def signed_def)
    have 0: "- (2 ^ 63) \<le> int n" "- int n < 2 ^ 63" for n
      by (simp_all add: order_trans [of _ 0] le_less_trans [of _ 0])
    show ?thesis
    proof (cases neg)
      case True
      then have "sl_str_parse_int (Some s) = Inr v \<longleftrightarrow>
          (\<exists>acc. parse_int_loop 9223372036854775808 p 0 = Inr acc \<and> v = sint (- acc))"
        using False \<open>s \<noteq> []\<close> by (simp add: parse sum_case_Inr_iff)
      then show ?thesis using parse_int_negative [OF False, of v] True False 0 by (auto simp: itext)
    next
      case nneg: False
      then have "sl_str_parse_int (Some s) = Inr v \<longleftrightarrow>
          (\<exists>acc. parse_int_loop 9223372036854775807 p 0 = Inr acc \<and> v = sint acc)"
        using False \<open>s \<noteq> []\<close> by (simp add: parse sum_case_Inr_iff)
      then show ?thesis using parse_int_unsigned [OF False, of v] nneg False 0 by (auto simp: itext)
    qed
  qed
qed

lemma length_dec_64: "n < 2 ^ 64 \<Longrightarrow> length (dec n) \<le> 20"
proof -
  assume "n < 2 ^ 64"
  also have "(2 :: nat) ^ 64 \<le> 10 ^ Suc 19" by simp
  finally show ?thesis using length_dec [of n 19] by simp
qed

lemma hd_dec_digit: "is_digit (hd (dec n))"
  by (rule dec_digits [of _ n]) simp

lemma int_text_dec: "int_text (dec_int v) = Some v"
proof (cases "v < 0")
  case True
  then show ?thesis
    using dec_digits [of _ "nat (- v)"] by (auto simp: int_text_def dec_int_def Let_def dval_dec list_all_iff)
next
  case False
  moreover have "hd (dec n) \<noteq> CHR ''+'' \<and> hd (dec n) \<noteq> CHR ''-''" for n
    using hd_dec_digit [of n] by (auto simp: char_class char_less_eq_code code_def)
  ultimately show ?thesis
    using dec_digits [of _ "nat v"] by (auto simp: int_text_def dec_int_def Let_def dval_dec list_all_iff)
qed

lemma from_int_text:
  assumes "- (2 ^ 63) \<le> v" and "v < 2 ^ 63"
  shows "sl_str_from_int v = dec_int v"
proof -
  have "length (dec (nat v)) \<le> 20" "length (dec (nat (- v))) \<le> 20"
    using assms by (auto intro!: length_dec_64)
  then show ?thesis by (simp add: sl_str_from_int_def snprintf_def dec_int_def)
qed

interpretation int_text: codec "\<lambda>v. - (2 ^ 63) \<le> v \<and> v < 2 ^ 63" sl_str_from_int
  "\<lambda>s. sl_str_parse_int (Some s)"
  by unfold_locales (simp add: from_int_text parse_int_iff int_text_dec)

section \<open>Wires and peers: lemmas\<close>

lemma take_clamped:
  assumes "0 \<le> off" and "off \<le> len"
  shows "length (take (nat (if n > len - off then len - off else n)) b) \<le> nat (len - off)"
  using assms by (auto simp: min_le_iff_disj)

lemma memcpy_outside: "a < p \<or> p + length b \<le> a \<Longrightarrow> memcpy mem p b a = mem a"
  by (auto simp: memcpy_def)

lemma memcpy_inside: "i < length b \<Longrightarrow> memcpy mem p b (p + i) = b ! i"
  by (simp add: memcpy_def)

lemma dec_split:
  assumes "dec a @ x = dec b @ y" and "x = [] \<or> \<not> is_digit (hd x)" and "y = [] \<or> \<not> is_digit (hd y)"
  shows "a = b \<and> x = y"
proof -
  have digits: "\<forall>c\<in>set (dec n). is_digit c" for n using dec_digits by blast
  have "takeWhile is_digit (dec a @ x) = dec a" "takeWhile is_digit (dec b @ y) = dec b"
    using takeWhile_append_stop [OF digits] assms(2,3) by blast+
  then have "dec a = dec b" using assms(1) by simp
  moreover from this have "a = b" by (metis dval_dec)
  ultimately show ?thesis using assms(1) by simp
qed

lemma octet_less: "unat (drop_bit k (w :: 32 word) AND 255) < 256"
  using unat_take_bit_less [of 8 "drop_bit k w"] by (simp add: and_255)

lemma length_dec_small: "n < 256 \<Longrightarrow> length (dec n) \<le> 3" "n < 65536 \<Longrightarrow> length (dec n) \<le> 5"
  using length_dec [of n 2] length_dec [of n 4] by simp_all

lemma length_peer_text: "length (peer_text p) \<le> 21"
proof -
  have "length (dec (unat (drop_bit k (p_addr p) AND 255))) \<le> 3" for k
    by (intro length_dec_small octet_less)
  from this [of 24] this [of 16] this [of 8] this [of 0]
  have "length (dec (unat (drop_bit 24 (p_addr p) AND 255))) + length (dec (unat (drop_bit 16 (p_addr p) AND 255)))
     + length (dec (unat (drop_bit 8 (p_addr p) AND 255))) + length (dec (unat (drop_bit 0 (p_addr p) AND 255))) \<le> 12"
    by linarith
  moreover have "length (dec (unat (p_port p))) \<le> 5"
    using unsigned_less [of "p_port p", where ?'a = nat] by (intro length_dec_small) simp
  ultimately show ?thesis by (simp add: peer_text_def Let_def)
qed

lemma from_peer_text: "sl_str_from_peer p = peer_text p"
  using length_peer_text [of p] by (simp add: sl_str_from_peer_def snprintf_def Let_def)

lemma octets_eq:
  fixes v w :: "32 word"
  assumes "\<And>k. k \<in> {0, 8, 16, 24} \<Longrightarrow> drop_bit k v AND 255 = drop_bit k w AND 255"
  shows "v = w"
proof (rule bit_word_eqI)
  fix n assume "n < LENGTH(32)"
  then have n: "n < 32" by simp
  define k where "k = 8 * (n div 8)"
  have "n div 8 \<in> {0, 1, 2, 3}" using n by auto
  then have "k \<in> {0, 8, 16, 24}" by (auto simp: k_def)
  then have "take_bit 8 (drop_bit k v) = take_bit 8 (drop_bit k w)" using assms by (simp add: and_255)
  then have "bit (take_bit 8 (drop_bit k v)) (n mod 8) = bit (take_bit 8 (drop_bit k w)) (n mod 8)" by simp
  moreover have "k + n mod 8 = n" by (simp add: k_def)
  ultimately show "bit v n = bit w n" by (simp only: bit_take_bit_iff bit_drop_bit_eq o_apply) simp
qed

section \<open>Properties\<close>

text \<open>C17: \<open>to_int\<close> accepts exactly the texts that are an optional sign and decimal digits and whose
  value fits a signed 64-bit integer, both ends included, and answers that value; the overflow
  guard of the loop neither lets a wrapped value through nor rejects one in range.\<close>

theorem sl_str_parse_int_exact:
  "sl_str_parse_int (Some s) = Inr v \<longleftrightarrow> int_text s = Some v \<and> - (2 ^ 63) \<le> v \<and> v < 2 ^ 63"
  by (rule parse_int_iff)

text \<open>An integer printed by \<open>to_str\<close> parses back to itself, over the whole signed range.\<close>

theorem sl_str_int_round_trip:
  assumes "- (2 ^ 63) \<le> v" and "v < 2 ^ 63"
  shows "sl_str_parse_int (Some (sl_str_from_int v)) = Inr v"
  using int_text.decode_encode [of v] assms by blast

theorem sl_str_int_round_trip_witness:
  "sl_str_parse_int (Some (sl_str_from_int (- (2 ^ 63)))) = Inr (- (2 ^ 63)) \<and>
   sl_str_from_int (- 45) = ''-45''"
proof -
  have "sl_str_from_int (- 45) = ''-45''" by code_simp
  then show ?thesis using sl_str_int_round_trip [of "- (2 ^ 63)"] by simp
qed

text \<open>The byte-order conversions are bijections between 64-bit values and eight bytes: each
  direction undoes the other, big-endian is little-endian reversed, a float's bits travel the
  same way, and any other length is refused.\<close>

theorem byte_order_round_trips:
  "sl_from_le (sl_to_le v) = Inr v \<and> sl_from_be (sl_to_be v) = Inr v \<and>
   sl_encoding_float64_from_le (Some (sl_encoding_float64_to_le v)) = Inr v \<and>
   sl_to_be v = rev (sl_to_le v) \<and>
   (sl_from_le b = Inr v \<longleftrightarrow> b = sl_to_le v) \<and> (sl_from_be b = Inr v \<longleftrightarrow> b = sl_to_be v)"
proof -
  have "b = sl_to_le v" if "sl_from_le b = Inr v" for b
  proof -
    have len: "length b = 8" using that by (auto simp: sl_from_le_def split: if_splits)
    then have "le_word b = v" using that from_le_word [OF len] by simp
    then show ?thesis using le_bytes_word [OF len] by (simp add: to_le_bytes)
  qed
  note le = this
  have "b = sl_to_be v" if "sl_from_be b = Inr v"
  proof -
    have "length b = 8" using that by (auto simp: sl_from_be_def split: if_splits)
    then have "rev b = sl_to_le v" using that from_be_rev le by metis
    then show ?thesis by (metis rev_rev_ident to_be_rev)
  qed
  then show ?thesis
    using le int_le.decode_encode int_be.decode_encode float_le.decode_encode to_be_rev by blast
qed

text \<open>C32: a \<open>wire\<close> operation writes only inside the wire: a bulk copy from a string or from bytes
  changes no address outside the part it reports as written, that part lies within the wire,
  and holds the bytes of the source.\<close>

theorem sl_wire_put_contained:
  assumes "0 \<le> w_len w" and "sl_wire_put_bytes mem w off (Some b) = (n, mem')"
  shows "0 \<le> n \<and> (n = 0 \<or> 0 \<le> off \<and> off + n \<le> w_len w) \<and> nat n \<le> length b \<and>
    (\<forall>a. mem' a = (if w_ptr w + nat off \<le> a \<and> a < w_ptr w + nat off + nat n
                  then b ! (a - (w_ptr w + nat off)) else mem a)) \<and>
    (\<forall>s. map uc s = b \<longrightarrow> sl_wire_put mem w off (Some s) = (n, mem'))"
proof -
  have eq: "sl_wire_put mem w off (Some s) = sl_wire_put_bytes mem w off (Some (map uc s))" for s
    by (auto simp: sl_wire_put_def sl_wire_put_bytes_def Let_def take_map)
  show ?thesis
    using assms eq
    by (auto simp: sl_wire_put_bytes_def Let_def memcpy_def fun_eq_iff split: if_splits)
qed

theorem sl_wire_put_contained_witness:
  "0 \<le> w_len \<lparr>w_ptr = 4, w_len = 3\<rparr> \<and>
   sl_wire_put_bytes (\<lambda>_. 0) \<lparr>w_ptr = 4, w_len = 3\<rparr> 1 (Some [7, 8, 9]) =
     (2, memcpy (\<lambda>_. 0) 5 [7, 8]) \<and> memcpy (\<lambda>_. 0) 5 [7, 8] 7 = 0 \<and>
   memcpy (\<lambda>_. 0) 5 [7, 8] 6 = 8"
proof -
  have e: "sl_wire_put_bytes (\<lambda>_. 0) \<lparr>w_ptr = 4, w_len = 3\<rparr> 1 (Some [7, 8, 9]) =
     (2, memcpy (\<lambda>_. 0) 5 [7, 8])"
    by (simp add: sl_wire_put_bytes_def Let_def numeral_eq_Suc)
  show ?thesis using sl_wire_put_contained [OF _ e] e by (simp add: memcpy_def)
qed

text \<open>Two peers print as the same text exactly when \<open>peer_eq\<close> holds of them, and the text always
  fits the buffer it is printed into.\<close>

theorem sl_str_from_peer_injective:
  "(sl_str_from_peer p = sl_str_from_peer q \<longleftrightarrow> sl_peer_eq p q) \<and>
   sl_str_from_peer p = peer_text p \<and> length (peer_text p) < 32"
proof -
  have stop: "\<not> is_digit (CHR ''.'')" "\<not> is_digit (CHR '':'')"
    by (simp_all add: char_class char_less_eq_code code_def)
  have "sl_peer_eq p q" if eq: "peer_text p = peer_text q"
  proof -
    let ?o = "\<lambda>k p. unat (drop_bit k (p_addr p) AND 255)"
    have "?o 24 p = ?o 24 q \<and> ?o 16 p = ?o 16 q \<and> ?o 8 p = ?o 8 q \<and> ?o 0 p = ?o 0 q \<and>
       unat (p_port p) = unat (p_port q)"
      using eq dec_split [of _ "[]" _ "[]"] stop unfolding peer_text_def Let_def
      by (force dest!: dec_split)
    then have o: "?o 24 p = ?o 24 q" "?o 16 p = ?o 16 q" "?o 8 p = ?o 8 q" "?o 0 p = ?o 0 q"
      and port: "p_port p = p_port q" by (simp_all only: word_unat_eq_iff)
    have "drop_bit k (p_addr p) AND 255 = drop_bit k (p_addr q) AND 255" if "k \<in> {0, 8, 16, 24}" for k
      using that o unfolding word_unat_eq_iff by blast
    then show ?thesis using octets_eq [of "p_addr p" "p_addr q"] port by (simp add: sl_peer_eq_def)
  qed
  then show ?thesis
    using length_peer_text [of p] by (auto simp: from_peer_text sl_peer_eq_def peer_text_def)
qed

end
