(* ===== verification/Sl_Arena.thy ===== *)
theory Sl_Arena
  imports Prelude
begin

text \<open>
  Arenas, \<open>runtime/sl_core.c\<close>: bump allocation out of one chunk, and the bounded free list that
  chunks come from and go back to. Sizes are \<open>size_t\<close>, kept at their 64 bits, because the bounds
  check of \<open>sl_arena_alloc\<close> is an addition that can wrap. \<open>malloc\<close> is a parameter: it answers
  an address or nothing. An address is that of a chunk's data.
\<close>

section \<open>Chunks and the free list\<close>

record sl_arena_chunk =
  ck_addr :: nat
  ck_cap :: u64

record arena_fl =
  fl :: "sl_arena_chunk list"
  fl_n :: nat
  fl_bytes :: u64

definition SL_ARENA_FL_MAX :: nat where
  "SL_ARENA_FL_MAX = 64"

definition SL_ARENA_FL_BYTES :: u64 where
  "SL_ARENA_FL_BYTES = 1024 * 1024"

text \<open>The walk over the free list: the first chunk that is large enough, and the list without it.\<close>

fun fl_take :: "sl_arena_chunk list \<Rightarrow> u64 \<Rightarrow> (sl_arena_chunk \<times> sl_arena_chunk list) option" where
  "fl_take [] n = None"
| "fl_take (it # rest) n =
     (if ck_cap it \<ge> n then Some (it, rest)
      else map_option (\<lambda>(c, r). (c, it # r)) (fl_take rest n))"

definition sl_arena_chunk_get ::
    "(u64 \<Rightarrow> nat option) \<Rightarrow> arena_fl \<Rightarrow> u64 \<Rightarrow> sl_arena_chunk option \<times> arena_fl" where
  "sl_arena_chunk_get malloc s n =
     (case fl_take (fl s) n of
        Some (c, rest) \<Rightarrow>
          (Some c, s\<lparr>fl := rest, fl_n := fl_n s - 1, fl_bytes := fl_bytes s - ck_cap c\<rparr>)
      | None \<Rightarrow>
          (case malloc n of
             None \<Rightarrow> (None, s)
           | Some p \<Rightarrow> (Some \<lparr>ck_addr = p, ck_cap = n\<rparr>, s)))"

text \<open>The boolean tells whether the chunk was freed.\<close>

definition sl_arena_chunk_put :: "arena_fl \<Rightarrow> sl_arena_chunk option \<Rightarrow> bool \<times> arena_fl" where
  "sl_arena_chunk_put s c =
     (case c of
        None \<Rightarrow> (False, s)
      | Some c \<Rightarrow>
          if fl_n s < SL_ARENA_FL_MAX \<and> fl_bytes s + ck_cap c \<le> SL_ARENA_FL_BYTES
          then (False, s\<lparr>fl := c # fl s, fl_n := fl_n s + 1, fl_bytes := fl_bytes s + ck_cap c\<rparr>)
          else (True, s))"

section \<open>Arenas\<close>

record sl_arena =
  a_base :: "sl_arena_chunk option"
  a_cap :: u64
  a_used :: u64

definition sl_arena_new ::
    "(u64 \<Rightarrow> nat option) \<Rightarrow> arena_fl \<Rightarrow> int \<Rightarrow> (sl_arena \<times> arena_fl) sl_panics" where
  "sl_arena_new malloc s cap =
     (if cap < 1 then Inl (Panic ''arena capacity must be positive'' cap 0)
      else
        (case sl_arena_chunk_get malloc s (word_of_int cap) of
           (None, s) \<Rightarrow> Inl (Panic ''arena allocation failed'' cap 0)
         | (Some c, s) \<Rightarrow> Inr (\<lparr>a_base = Some c, a_cap = word_of_int cap, a_used = 0\<rparr>, s)))"

text \<open>The result is the offset of the block from the base, and the arena after.\<close>

definition sl_arena_alloc :: "sl_arena option \<Rightarrow> u64 \<Rightarrow> u64 \<Rightarrow> (u64 \<times> sl_arena) sl_panics" where
  "sl_arena_alloc a n align =
     (case a of
        None \<Rightarrow> Inl (Panic ''use of an uninitialized arena'' 0 0)
      | Some a \<Rightarrow>
          if a_base a = None then Inl (Panic ''use of an uninitialized arena'' 0 0)
          else
            (let align = (if align < 1 then 1 else align);
                 pad = (align - a_used a mod align) mod align
             in if a_used a + pad + n > a_cap a
                then Inl (Panic ''arena out of memory'' (sint (a_used a + pad + n)) (sint (a_cap a)))
                else
                  (let a = a\<lparr>a_used := a_used a + pad\<rparr>;
                       p = a_used a
                   in Inr (p, a\<lparr>a_used := a_used a + n\<rparr>))))"

definition sl_arena_reset :: "sl_arena \<Rightarrow> sl_arena" where
  "sl_arena_reset a = a\<lparr>a_used := 0\<rparr>"

definition sl_arena_left :: "sl_arena option \<Rightarrow> int" where
  "sl_arena_left a =
     (case a of
        None \<Rightarrow> 0
      | Some a \<Rightarrow>
          if a_base a = None then 0
          else if a_used a \<ge> a_cap a then 0
          else sint (a_cap a - a_used a))"

definition sl_arena_free :: "arena_fl \<Rightarrow> sl_arena \<Rightarrow> sl_arena \<times> arena_fl" where
  "sl_arena_free s a =
     (case a_base a of
        None \<Rightarrow> (a, s)
      | Some c \<Rightarrow>
          (let (_, s) = sl_arena_chunk_put s (Some c)
           in (a\<lparr>a_base := None, a_cap := 0, a_used := 0\<rparr>, s)))"

section \<open>Allocation: lemmas\<close>

text \<open>The arena's own invariant, and the sizes for which the check cannot wrap: the capacity and
  the request are positive \<open>long long\<close> values and the alignment is small.\<close>

definition arena_inv :: "sl_arena \<Rightarrow> bool" where
  "arena_inv a \<longleftrightarrow> a_base a \<noteq> None \<and> unat (a_cap a) < 2 ^ 63 \<and> a_used a \<le> a_cap a"

definition pad_of :: "nat \<Rightarrow> nat \<Rightarrow> nat" where
  "pad_of used align = (align - used mod align) mod align"

lemma pad_of_less: "0 < align \<Longrightarrow> pad_of used align < align"
  by (simp add: pad_of_def)

lemma pad_of_aligned: "0 < align \<Longrightarrow> (used + pad_of used align) mod align = 0"
proof -
  assume "0 < align"
  then have "used mod align < align" by simp
  have "(used + pad_of used align) mod align = (used mod align + (align - used mod align)) mod align"
    by (simp add: pad_of_def mod_simps)
  also have "\<dots> = 0" using \<open>used mod align < align\<close> by simp
  finally show ?thesis .
qed

lemma pad_word:
  fixes used align :: u64
  assumes "0 < align"
  shows "unat ((align - used mod align) mod align) = pad_of (unat used) (unat align)"
proof -
  have "used mod align < align" using assms by (simp add: word_less_nat_alt unat_mod_distrib)
  then have "unat (align - used mod align) = unat align - unat used mod unat align"
    by (simp add: unat_sub less_imp_le unat_mod_distrib)
  then show ?thesis by (simp add: unat_mod_distrib pad_of_def)
qed

lemma word_of_nat_unat_id: "word_of_nat (unat (w :: u64)) = w"
  by simp

lemma alloc_words:
  fixes used pad n :: u64
  assumes "unat used + unat pad + unat n < 2 ^ 64"
  shows "unat (used + pad + n) = unat used + unat pad + unat n"
    and "unat (used + pad) = unat used + unat pad"
  using assms by (simp_all add: unat_word_ariths)

lemma alloc_ok:
  assumes inv: "arena_inv a" and align: "0 < align" "unat align < 2 ^ 62" and n: "unat n < 2 ^ 62"
  defines "off \<equiv> unat (a_used a) + pad_of (unat (a_used a)) (unat align)"
  shows "if off + unat n \<le> unat (a_cap a)
    then \<exists>a'. sl_arena_alloc (Some a) n align = Inr (word_of_nat off, a') \<and> arena_inv a' \<and>
      unat (a_used a') = off + unat n \<and> a_cap a' = a_cap a \<and> a_base a' = a_base a
    else \<exists>p. sl_arena_alloc (Some a) n align = Inl p"
proof -
  let ?pad = "(align - a_used a mod align) mod align"
  have pad: "unat ?pad = pad_of (unat (a_used a)) (unat align)" by (rule pad_word [OF align(1)])
  have "unat (a_used a) < 2 ^ 63" "a_base a \<noteq> None"
    using inv by (auto simp: arena_inv_def word_le_nat_alt)
  moreover have "unat ?pad < 2 ^ 62"
    using pad pad_of_less [of "unat align" "unat (a_used a)"] align by (simp add: word_less_nat_alt)
  ultimately have sum: "unat (a_used a) + unat ?pad + unat n < 2 ^ 64" using n by simp
  note w = alloc_words [OF sum]
  have al: "(if align < 1 then 1 else align) = align" using align(1) by (simp add: word_less_nat_alt)
  have guard: "a_used a + ?pad + n > a_cap a \<longleftrightarrow> \<not> off + unat n \<le> unat (a_cap a)"
    using w(1) pad by (simp add: word_less_nat_alt off_def not_le)
  have base: "(a_base a = None) = False" using \<open>a_base a \<noteq> None\<close> by simp
  have off: "a_used a + ?pad = word_of_nat off"
  proof -
    have "word_of_nat (unat (a_used a + ?pad)) = a_used a + ?pad" by (simp only: word_of_nat_unat_id)
    then show ?thesis using w(2) pad by (simp only: off_def)
  qed
  show ?thesis
  proof (cases "off + unat n \<le> unat (a_cap a)")
    case True
    have "unat (a_used a + ?pad + n) = off + unat n" using w(1) pad by (simp add: off_def)
    then show ?thesis using True guard inv off
      unfolding sl_arena_alloc_def option.case al Let_def base if_False
      by (simp add: arena_inv_def word_le_nat_alt)
  next
    case False
    then show ?thesis using guard
      unfolding sl_arena_alloc_def option.case al Let_def base if_False by simp
  qed
qed

text \<open>A run of allocations until one fails, with the blocks handed out.\<close>

fun arena_run :: "sl_arena \<Rightarrow> (u64 \<times> u64) list \<Rightarrow> (u64 \<times> u64 \<times> u64) list" where
  "arena_run a [] = []"
| "arena_run a ((n, align) # rs) =
     (case sl_arena_alloc (Some a) n align of
        Inl _ \<Rightarrow> []
      | Inr (p, a') \<Rightarrow> (p, n, align) # arena_run a' rs)"

definition request_ok :: "u64 \<times> u64 \<Rightarrow> bool" where
  "request_ok r \<longleftrightarrow> unat (fst r) < 2 ^ 62 \<and> 0 < snd r \<and> unat (snd r) < 2 ^ 62"

definition block_ok :: "sl_arena \<Rightarrow> u64 \<times> u64 \<times> u64 \<Rightarrow> bool" where
  "block_ok a b = (case b of (p, n, align) \<Rightarrow>
     a_used a \<le> p \<and> unat p + unat n \<le> unat (a_cap a) \<and> unat p mod unat align = 0)"

definition block_before :: "u64 \<times> u64 \<times> u64 \<Rightarrow> u64 \<times> u64 \<times> u64 \<Rightarrow> bool" where
  "block_before b c \<longleftrightarrow> unat (fst b) + unat (fst (snd b)) \<le> unat (fst c)"

lemma arena_run_ok:
  assumes "arena_inv a" and "list_all request_ok rs"
  shows "list_all (block_ok a) (arena_run a rs) \<and>
    sorted_wrt block_before (arena_run a rs)"
  using assms
proof (induction a rs rule: arena_run.induct)
  case (2 a n align rs)
  have req: "unat n < 2 ^ 62" "0 < align" "unat align < 2 ^ 62"
    using "2.prems"(2) by (simp_all add: request_ok_def)
  show ?case
  proof (cases "sl_arena_alloc (Some a) n align")
    case (Inr r)
    define off where "off = unat (a_used a) + pad_of (unat (a_used a)) (unat align)"
    from alloc_ok [OF "2.prems"(1) req(2,3,1)] Inr obtain a' where r: "r = (word_of_nat off, a')"
      "arena_inv a'" "unat (a_used a') = off + unat n" "a_cap a' = a_cap a" "off + unat n \<le> unat (a_cap a)"
      unfolding off_def by (auto split: if_splits)
    have uo: "unat (word_of_nat off :: u64) = off"
      using r(5) unsigned_less [of "a_cap a", where ?'a = nat] by (simp add: unat_of_nat take_bit_eq_mod)
    have "off mod unat align = 0"
      unfolding off_def using req(2) by (intro pad_of_aligned) (simp add: word_less_nat_alt)
    then have head: "block_ok a (word_of_nat off, n, align)"
      using r(5) by (simp add: block_ok_def uo word_le_nat_alt) (simp add: off_def)
    have rs: "list_all request_ok rs" using "2.prems"(2) by simp
    have IH: "list_all (block_ok a') (arena_run a' rs)"
      "sorted_wrt block_before (arena_run a' rs)"
      using "2.IH" [OF Inr r(1) [symmetric] r(2) rs] by blast+
    have later: "block_ok a b \<and> off + unat n \<le> unat (fst b)" if "b \<in> set (arena_run a' rs)" for b
      using that IH(1) r(3,4)
      by (auto simp: list_all_iff block_ok_def word_le_nat_alt off_def split: prod.splits dest!: bspec)
    have before: "block_before (word_of_nat off, n, align) b" if "b \<in> set (arena_run a' rs)" for b
      using later [OF that] by (simp add: block_before_def uo)
    have run: "arena_run a ((n, align) # rs) = (word_of_nat off, n, align) # arena_run a' rs"
      using Inr r(1) by simp
    show ?thesis unfolding run using head IH(2) later before by (auto simp: list_all_iff)
  qed simp
qed simp

section \<open>The free list: lemmas\<close>

definition fl_inv :: "arena_fl \<Rightarrow> bool" where
  "fl_inv s \<longleftrightarrow> fl_n s = length (fl s) \<and> unat (fl_bytes s) = sum_list (map (unat \<circ> ck_cap) (fl s)) \<and>
     fl_n s \<le> SL_ARENA_FL_MAX \<and> fl_bytes s \<le> SL_ARENA_FL_BYTES"

lemma fl_take_Some:
  "fl_take cs n = Some (c, rest) \<Longrightarrow> n \<le> ck_cap c \<and> length cs = Suc (length rest) \<and>
     sum_list (map (unat \<circ> ck_cap) cs) = unat (ck_cap c) + sum_list (map (unat \<circ> ck_cap) rest) \<and>
     set cs = insert c (set rest)"
  by (induction cs n arbitrary: rest rule: fl_take.induct) (auto split: if_splits)

lemma chunk_get_ok:
  assumes inv: "fl_inv s" and get: "sl_arena_chunk_get malloc s n = (r, s')"
  shows "fl_inv s' \<and> (\<forall>c. r = Some c \<longrightarrow> n \<le> ck_cap c)"
proof (cases "fl_take (fl s) n")
  case None
  then show ?thesis using assms by (auto simp: sl_arena_chunk_get_def split: option.splits)
next
  case (Some p)
  obtain c rest where p: "p = (c, rest)" by (cases p)
  note t = fl_take_Some [OF Some [unfolded p]]
  have s': "r = Some c" "s' = s\<lparr>fl := rest, fl_n := fl_n s - 1, fl_bytes := fl_bytes s - ck_cap c\<rparr>"
    using get Some p by (auto simp: sl_arena_chunk_get_def)
  have le: "ck_cap c \<le> fl_bytes s" using inv t by (simp add: fl_inv_def word_le_nat_alt)
  then have "unat (fl_bytes s - ck_cap c) = sum_list (map (unat \<circ> ck_cap) rest)"
    using inv t by (simp add: fl_inv_def unat_sub)
  then show ?thesis using inv t s' by (auto simp: fl_inv_def word_le_nat_alt)
qed

lemma chunk_put_ok:
  assumes inv: "fl_inv s" and cap: "unat (ck_cap c) < 2 ^ 63"
    and put: "sl_arena_chunk_put s (Some c) = (freed, s')"
  shows "fl_inv s'"
proof -
  have B: "unat SL_ARENA_FL_BYTES = 1048576" by (simp add: SL_ARENA_FL_BYTES_def)
  have "unat (fl_bytes s) \<le> 1048576" using inv B by (simp add: fl_inv_def word_le_nat_alt)
  then have "unat (fl_bytes s + ck_cap c) = unat (fl_bytes s) + unat (ck_cap c)"
    using cap by (simp add: unat_word_ariths)
  then show ?thesis using inv put
    by (auto simp: fl_inv_def sl_arena_chunk_put_def SL_ARENA_FL_MAX_def split: if_splits)
qed

section \<open>Properties\<close>

text \<open>C18: the blocks an arena hands out, however many and of whatever alignment, are aligned, lie
  inside the arena's capacity and never overlap, for requests of less than 2^62 bytes.\<close>

theorem sl_arena_blocks_disjoint:
  assumes "arena_inv a" and "list_all request_ok rs"
  shows "list_all (block_ok a) (arena_run a rs) \<and>
    sorted_wrt block_before (arena_run a rs)"
  by (rule arena_run_ok [OF assms])

theorem sl_arena_blocks_disjoint_witness:
  "arena_run \<lparr>a_base = Some \<lparr>ck_addr = 0, ck_cap = 64\<rparr>, a_cap = 64, a_used = 0\<rparr>
     [(3, 1), (8, 8), (1, 1), (60, 4), (1, 1)] = [(0, 3, 1), (8, 8, 8), (16, 1, 1)] \<and>
   sorted_wrt block_before
     (arena_run \<lparr>a_base = Some \<lparr>ck_addr = 0, ck_cap = 64\<rparr>, a_cap = 64, a_used = 0\<rparr>
       [(3, 1), (8, 8), (1, 1), (60, 4), (1, 1)])"
proof -
  let ?a = "\<lparr>a_base = Some \<lparr>ck_addr = 0, ck_cap = 64\<rparr>, a_cap = 64, a_used = 0\<rparr> :: sl_arena"
  have "arena_inv ?a" by (simp add: arena_inv_def)
  moreover have "list_all request_ok [(3, 1), (8, 8), (1, 1), (60, 4), (1, 1)]"
    by (simp add: request_ok_def)
  moreover have "arena_run ?a [(3, 1), (8, 8), (1, 1), (60, 4), (1, 1)] = [(0, 3, 1), (8, 8, 8), (16, 1, 1)]"
    by code_simp
  ultimately show ?thesis using sl_arena_blocks_disjoint by blast
qed

text \<open>\<open>left\<close> is the exact answer: an unaligned request succeeds precisely when it is no larger
  than what \<open>left\<close> reports, and takes precisely that much off it.\<close>

theorem sl_arena_left_exact:
  assumes "arena_inv a" and "unat n < 2 ^ 62"
  shows "((\<exists>r. sl_arena_alloc (Some a) n 1 = Inr r) \<longleftrightarrow> int (unat n) \<le> sl_arena_left (Some a)) \<and>
    (\<forall>p a'. sl_arena_alloc (Some a) n 1 = Inr (p, a') \<longrightarrow>
       p = a_used a \<and> sl_arena_left (Some a') = sl_arena_left (Some a) - int (unat n))"
proof -
  have left: "sl_arena_left (Some b) = int (unat (a_cap b)) - int (unat (a_used b))" if "arena_inv b" for b
  proof -
    have le: "a_used b \<le> a_cap b" and cap: "unat (a_cap b) < 2 ^ 63" and base: "a_base b \<noteq> None"
      using that by (auto simp: arena_inv_def)
    have d: "unat (a_cap b - a_used b) = unat (a_cap b) - unat (a_used b)" using le by (rule unat_sub)
    then have "int (unat (a_cap b - a_used b)) < int (2 ^ 63)" using cap by (simp only: of_nat_less_iff)
    then have "signed_take_bit 63 (int (unat (a_cap b - a_used b))) = int (unat (a_cap b - a_used b))"
      by (intro signed_take_bit_int_eq_self) (simp_all add: order_trans [of _ 0])
    then have "sint (a_cap b - a_used b) = int (unat (a_cap b - a_used b))"
      by (simp add: sint_uint)
    moreover have "unat (a_used b) \<le> unat (a_cap b)" using le by (simp add: word_le_nat_alt)
    ultimately show ?thesis using le d base
      by (cases "a_used b = a_cap b") (auto simp: sl_arena_left_def of_nat_diff)
  qed
  have al: "0 < (1 :: u64)" "unat (1 :: u64) < 2 ^ 62" by simp_all
  have pad: "pad_of (unat (a_used a)) (unat (1 :: u64)) = 0" by (simp add: pad_of_def)
  note ok = alloc_ok [OF assms(1) al assms(2), unfolded pad add_0_right]
  have int_le: "int (unat n) \<le> int (unat (a_cap a)) - int (unat (a_used a)) \<longleftrightarrow>
      unat (a_used a) + unat n \<le> unat (a_cap a)" by linarith
  show ?thesis
  proof (cases "unat (a_used a) + unat n \<le> unat (a_cap a)")
    case True
    then obtain a' where "sl_arena_alloc (Some a) n 1 = Inr (word_of_nat (unat (a_used a)), a')"
      "arena_inv a'" "unat (a_used a') = unat (a_used a) + unat n" "a_cap a' = a_cap a"
      using ok by (simp only: if_True) blast
    then show ?thesis using True left [OF assms(1)] left [of a'] int_le by simp
  next
    case False
    then obtain p where "sl_arena_alloc (Some a) n 1 = Inl p" using ok by (simp only: if_False) blast
    then show ?thesis using False left [OF assms(1)] int_le by simp
  qed
qed

theorem sl_arena_left_exact_witness:
  "sl_arena_left (Some \<lparr>a_base = Some \<lparr>ck_addr = 0, ck_cap = 8\<rparr>, a_cap = 8, a_used = 3\<rparr>) = 5 \<and>
   (\<exists>r. sl_arena_alloc (Some \<lparr>a_base = Some \<lparr>ck_addr = 0, ck_cap = 8\<rparr>, a_cap = 8, a_used = 3\<rparr>) 5 1 = Inr r) \<and>
   \<not> (\<exists>r. sl_arena_alloc (Some \<lparr>a_base = Some \<lparr>ck_addr = 0, ck_cap = 8\<rparr>, a_cap = 8, a_used = 3\<rparr>) 6 1 = Inr r)"
proof -
  let ?a = "\<lparr>a_base = Some \<lparr>ck_addr = 0, ck_cap = 8\<rparr>, a_cap = 8, a_used = 3\<rparr> :: sl_arena"
  have inv: "arena_inv ?a" by (simp add: arena_inv_def)
  have "sl_arena_left (Some ?a) = 5" by code_simp
  then show ?thesis
    using sl_arena_left_exact [OF inv, of 5] sl_arena_left_exact [OF inv, of 6] by simp
qed

text \<open>The free list stays within its two bounds (64 chunks, 1 MiB) through every arena that is
  made and freed, its counters stay exact, and a new arena's chunk is at least as large as the
  capacity the arena was given.\<close>

theorem sl_arena_free_list_bounded:
  assumes "fl_inv s" and "sl_arena_new malloc s cap = Inr (a, s1)" and "cap < 2 ^ 63"
    and "unat (ck_cap (the (a_base a))) < 2 ^ 63"
  shows "fl_inv s1 \<and> arena_inv a \<and> a_cap a \<le> ck_cap (the (a_base a)) \<and>
    fl_inv (snd (sl_arena_free s1 a)) \<and> a_base (fst (sl_arena_free s1 a)) = None"
proof -
  from assms(2) obtain c where c: "1 \<le> cap" "sl_arena_chunk_get malloc s (word_of_int cap) = (Some c, s1)"
    "a = \<lparr>a_base = Some c, a_cap = word_of_int cap, a_used = 0\<rparr>"
    by (auto simp: sl_arena_new_def not_less split: if_splits option.splits prod.splits)
  have get: "fl_inv s1" "word_of_int cap \<le> ck_cap c" using chunk_get_ok [OF assms(1) c(2)] by auto
  have "unat (word_of_int cap :: u64) < 2 ^ 63"
    using c(1) assms(3) by (simp add: unat_eq_nat_uint uint_word_of_int nat_less_iff)
  then have inv: "arena_inv a" using c(3) by (simp add: arena_inv_def)
  obtain freed s2 where put: "sl_arena_chunk_put s1 (Some c) = (freed, s2)" by fastforce
  have "fl_inv s2" using chunk_put_ok [OF get(1) _ put] assms(4) c(3) by simp
  then show ?thesis using get inv c(3) put by (simp add: sl_arena_free_def)
qed

theorem sl_arena_free_list_bounded_witness:
  "\<exists>a s1. sl_arena_new (\<lambda>_. Some 0) \<lparr>fl = [], fl_n = 0, fl_bytes = 0\<rparr> 100 = Inr (a, s1) \<and>
     fl_inv (snd (sl_arena_free s1 a))"
proof -
  let ?s = "\<lparr>fl = [], fl_n = 0, fl_bytes = 0\<rparr> :: arena_fl"
  let ?a = "\<lparr>a_base = Some \<lparr>ck_addr = 0, ck_cap = 100\<rparr>, a_cap = 100, a_used = 0\<rparr> :: sl_arena"
  have "fl_inv ?s" by (simp add: fl_inv_def)
  moreover have "sl_arena_new (\<lambda>_. Some 0) ?s 100 = Inr (?a, ?s)"
    by (simp add: sl_arena_new_def sl_arena_chunk_get_def)
  ultimately show ?thesis using sl_arena_free_list_bounded [of ?s "\<lambda>_. Some 0" 100 ?a ?s] by auto
qed

text \<open>C34: the capacity check wraps for a negative request, which \<open>wire(-m)\<close> and \<open>alloc_bytes(-m)\<close> pass
  on: an arena refuses \<open>-m\<close> bytes only while less than \<open>m\<close> bytes are in use. From then on the request
  is granted, moves the arena's mark back by \<open>m\<close>, and a next block of up to \<open>m\<close> bytes is handed out
  inside the bytes that were in use.\<close>

theorem sl_arena_alloc_negative_size:
  assumes inv: "arena_inv a" and m: "0 < m" "m < 2 ^ 62"
  shows "if m \<le> unat (a_used a)
    then sl_arena_alloc (Some a) (- word_of_nat m) 1 = Inr (a_used a, a\<lparr>a_used := a_used a - word_of_nat m\<rparr>) \<and>
      (\<forall>k. 0 < k \<and> k \<le> m \<longrightarrow> (\<exists>a'. sl_arena_alloc (Some (a\<lparr>a_used := a_used a - word_of_nat m\<rparr>)) (word_of_nat k) 1 =
         Inr (a_used a - word_of_nat m, a') \<and> unat (a_used a - word_of_nat m) + k \<le> unat (a_used a)))
    else \<exists>p. sl_arena_alloc (Some a) (- word_of_nat m) 1 = Inl p"
proof -
  let ?m = "word_of_nat m :: u64"
  have um: "unat ?m = m" using m(2) by (simp add: unat_of_nat take_bit_nat_eq_self)
  have base: "a_base a \<noteq> None" and cap: "unat (a_cap a) < 2 ^ 63" and le: "a_used a \<le> a_cap a"
    using inv by (simp_all add: arena_inv_def)
  have alloc: "sl_arena_alloc (Some a) (- ?m) 1 =
      (if a_used a - ?m > a_cap a then Inl (Panic ''arena out of memory'' (sint (a_used a - ?m)) (sint (a_cap a)))
       else Inr (a_used a, a\<lparr>a_used := a_used a - ?m\<rparr>))"
    using base by (simp add: sl_arena_alloc_def Let_def)
  show ?thesis
  proof (cases "m \<le> unat (a_used a)")
    case True
    have d: "unat (a_used a - ?m) = unat (a_used a) - m" using True um by (simp add: unat_sub word_le_nat_alt)
    have le': "a_used a - ?m \<le> a_cap a" using d le by (simp add: word_le_nat_alt)
    let ?a = "a\<lparr>a_used := a_used a - ?m\<rparr>"
    have inv': "arena_inv ?a" using inv le' by (simp add: arena_inv_def)
    have "\<exists>a'. sl_arena_alloc (Some ?a) (word_of_nat k) 1 = Inr (a_used a - ?m, a')" if k: "0 < k" "k \<le> m" for k
    proof -
      have uk: "unat (word_of_nat k :: u64) = k" using k m(2) by (simp add: unat_of_nat take_bit_nat_eq_self)
      have fits: "unat (a_used ?a) + pad_of (unat (a_used ?a)) (unat (1 :: u64)) + unat (word_of_nat k :: u64) \<le> unat (a_cap ?a)"
        using k d le True by (simp add: uk pad_of_def word_le_nat_alt)
      have w: "word_of_nat (unat (a_used ?a) + pad_of (unat (a_used ?a)) (unat (1 :: u64))) = a_used a - ?m"
        by (simp add: pad_of_def)
      show ?thesis
        using alloc_ok [OF inv', of 1 "word_of_nat k"] fits k m(2) uk unfolding w by auto
    qed
    moreover have "unat (a_used a - ?m) + k \<le> unat (a_used a)" if "k \<le> m" for k using d True that by simp
    ultimately show ?thesis using True alloc le' by (simp add: linorder_not_less)
  next
    case False
    have "a_used a - ?m > a_cap a"
    proof -
      have "unat (a_used a - ?m) = 2 ^ 64 + unat (a_used a) - m"
        using False um m(2) by (simp add: unat_sub_if_size word_size word_le_nat_alt)
      then show ?thesis using cap m(2) by (simp add: word_less_nat_alt)
    qed
    then show ?thesis using False alloc by simp
  qed
qed

theorem sl_arena_alloc_negative_size_witness:
  "arena_run \<lparr>a_base = Some \<lparr>ck_addr = 0, ck_cap = 16\<rparr>, a_cap = 16, a_used = 0\<rparr> [(8, 1), (- 3, 1), (2, 1)] =
     [(0, 8, 1), (8, - 3, 1), (5, 2, 1)] \<and>
   (\<exists>a'. sl_arena_alloc (Some \<lparr>a_base = Some \<lparr>ck_addr = 0, ck_cap = 16\<rparr>, a_cap = 16, a_used = 5\<rparr>) 2 1 = Inr (5, a'))"
proof -
  let ?a = "\<lparr>a_base = Some \<lparr>ck_addr = 0, ck_cap = 16\<rparr>, a_cap = 16, a_used = 8\<rparr> :: sl_arena"
  have inv: "arena_inv ?a" by (simp add: arena_inv_def)
  have m: "0 < (3 :: nat)" "(3 :: nat) < 2 ^ 62" by simp_all
  have "\<exists>a'. sl_arena_alloc (Some \<lparr>a_base = Some \<lparr>ck_addr = 0, ck_cap = 16\<rparr>, a_cap = 16, a_used = 5\<rparr>) (word_of_nat 2) 1 = Inr (5, a')"
    using sl_arena_alloc_negative_size [OF inv m] by (auto dest: spec [of _ 2])
  moreover have "arena_run \<lparr>a_base = Some \<lparr>ck_addr = 0, ck_cap = 16\<rparr>, a_cap = 16, a_used = 0\<rparr> [(8, 1), (- 3, 1), (2, 1)] =
     [(0, 8, 1), (8, - 3, 1), (5, 2, 1)]" by code_simp
  ultimately show ?thesis by simp
qed

end
