(* ===== verification/Sl_Gc_Obj.thy ===== *)
theory Sl_Gc_Obj
  imports Prelude
begin

text \<open>
  The collector as the containers meet it (\<open>runtime/sl_gc.c\<close>): the header fields the
  generational write barrier reads and writes, the barrier, the mark functions of a minor and a
  major collection, and the marking of one container slot. A container's record extends the
  header, as the object it models sits behind one. \<open>remember_in\<close> is the whole barrier, with the
  running task's remembered-set shard and its growth; the containers use its effect on the header
  alone, \<open>sl_gc_remember_obj\<close>, which is what it does whenever there is a running task whose shard
  has room or can grow (\<open>remember_in_ok\<close>), and not otherwise (\<open>remember_in_dropped\<close>). Marking is that of one marking thread: its work list,
  its count of first-survival objects, and the mark bits; the generation of an object does not
  change while a collection marks.
\<close>

section \<open>The header and the barrier\<close>

record sl_gc_obj =
  gen :: nat
  remembered :: bool

definition sl_gc_remember_obj :: "'a sl_gc_obj_scheme \<Rightarrow> 'a sl_gc_obj_scheme" where
  "sl_gc_remember_obj h = (if gen h \<noteq> 1 \<or> remembered h then h else h\<lparr>remembered := True\<rparr>)"

text \<open>The barrier with the running task's shard: \<open>gc_rem_buf\<close> holds the first \<open>gc_rem_n\<close> entries,
  \<open>None\<close> is no running task, \<open>ok\<close> says whether the \<open>malloc\<close> of a larger buffer succeeds, \<open>p\<close> is the
  address of the header.\<close>

record sl_rem_shard =
  gc_rem_buf :: "u64 list"
  gc_rem_cap :: nat

definition remember_in ::
    "bool \<Rightarrow> u64 \<Rightarrow> sl_rem_shard option \<Rightarrow> 'a sl_gc_obj_scheme \<Rightarrow> sl_rem_shard option \<times> 'a sl_gc_obj_scheme" where
  "remember_in ok p cur h =
     (if gen h \<noteq> 1 \<or> remembered h then (cur, h)
      else
        (case cur of
           None \<Rightarrow> (None, h)
         | Some t \<Rightarrow>
             (let full = (length (gc_rem_buf t) = gc_rem_cap t) in
              if full \<and> \<not> ok then (Some t, h)
              else
                (let t = (if full then t\<lparr>gc_rem_cap := (if gc_rem_cap t \<noteq> 0 then gc_rem_cap t * 2 else 16)\<rparr> else t)
                 in (Some (t\<lparr>gc_rem_buf := gc_rem_buf t @ [p]\<rparr>), h\<lparr>remembered := True\<rparr>)))))"

lemma remember_in_ok:
  assumes "length (gc_rem_buf t) \<le> gc_rem_cap t" and "length (gc_rem_buf t) < gc_rem_cap t \<or> ok"
  shows "\<exists>t'. remember_in ok p (Some t) h = (Some t', sl_gc_remember_obj h) \<and>
    length (gc_rem_buf t') \<le> gc_rem_cap t' \<and>
    gc_rem_buf t' = gc_rem_buf t @ (if gen h = 1 \<and> \<not> remembered h then [p] else [])"
  using assms by (auto simp: remember_in_def sl_gc_remember_obj_def Let_def)

lemma remember_in_dropped:
  assumes "gen h = 1" and "\<not> remembered h" and "length (gc_rem_buf t) = gc_rem_cap t"
  shows "remember_in False p (Some t) h = (Some t, h)" "remember_in ok p None h = (None, h)"
  using assms by (simp_all add: remember_in_def)

section \<open>Marking\<close>

text \<open>
  \<open>ms_gen\<close> gives the generation of the object at an address the collector knows, \<open>None\<close> for every
  other word (\<open>sl_gc_known\<close>).
\<close>

record sl_gc_marker =
  ms_gen :: "u64 \<Rightarrow> nat option"
  ms_marked :: "u64 \<Rightarrow> bool"
  ms_wl :: "u64 list"
  ms_gen0_seen :: nat

definition sl_gc_wl_push :: "sl_gc_marker \<Rightarrow> u64 \<Rightarrow> sl_gc_marker" where
  "sl_gc_wl_push ms ptr = ms\<lparr>ms_wl := ms_wl ms @ [ptr]\<rparr>"

definition sl_gc_claim :: "sl_gc_marker \<Rightarrow> u64 \<Rightarrow> bool \<times> sl_gc_marker" where
  "sl_gc_claim ms ptr =
     (if ms_marked ms ptr then (False, ms) else (True, ms\<lparr>ms_marked := (ms_marked ms)(ptr := True)\<rparr>))"

definition sl_gc_mark_into :: "u64 \<Rightarrow> sl_gc_marker \<Rightarrow> sl_gc_marker" where
  "sl_gc_mark_into ptr ms =
     (if ptr = 0 then ms
      else
        (case ms_gen ms ptr of
           None \<Rightarrow> ms
         | Some g \<Rightarrow> (let (claimed, ms) = sl_gc_claim ms ptr in if claimed then sl_gc_wl_push ms ptr else ms)))"

definition sl_gc_mark_minor_into :: "u64 \<Rightarrow> sl_gc_marker \<Rightarrow> sl_gc_marker" where
  "sl_gc_mark_minor_into ptr ms =
     (if ptr = 0 then ms
      else
        (case ms_gen ms ptr of
           None \<Rightarrow> ms
         | Some g \<Rightarrow>
             if g = 1 then ms
             else
               (let ms = (if g = 0 then ms\<lparr>ms_gen0_seen := ms_gen0_seen ms + 1\<rparr> else ms);
                    (claimed, ms) = sl_gc_claim ms ptr
                in if claimed then sl_gc_wl_push ms ptr else ms)))"

definition SL_ELEM_NOPTR :: nat where
  "SL_ELEM_NOPTR = 2"

text \<open>The pointer-sized words of a slot, from offset 0 while a whole word fits.\<close>

definition slot_words :: "sl_bytes \<Rightarrow> nat \<Rightarrow> u64 list" where
  "slot_words el sz = map (\<lambda>k. le_word (take 8 (drop (8 * k) el))) [0..<sz div 8]"

definition sl_gc_mark_slot :: "(u64 \<Rightarrow> 's \<Rightarrow> 's) \<Rightarrow> sl_bytes \<Rightarrow> nat \<Rightarrow> nat \<Rightarrow> 's \<Rightarrow> 's" where
  "sl_gc_mark_slot mark el sz is_ptr st =
     (if is_ptr = SL_ELEM_NOPTR then st
      else if is_ptr \<noteq> 0 \<and> sz = 8 then mark (le_word el) st
      else fold mark (slot_words el sz) st)"

text \<open>
  The loop of the minor tracers of lists and maps: one marking action per position, from
  position \<open>i\<close>; \<open>first\<close> is the first position at which the counter moved.
\<close>

fun minor_loop :: "('s \<Rightarrow> nat) \<Rightarrow> ('s \<Rightarrow> 's) list \<Rightarrow> nat \<Rightarrow> nat option \<Rightarrow> 's \<Rightarrow> nat option \<times> 's" where
  "minor_loop seen [] i first st = (first, st)"
| "minor_loop seen (act # acts) i first st =
     (let s0 = seen st; st = act st;
          first = (if first = None \<and> seen st \<noteq> s0 then Some i else first)
      in minor_loop seen acts (i + 1) first st)"

definition sl_gc_clean_at :: "nat \<Rightarrow> nat" where
  "sl_gc_clean_at n = (if n > 2 ^ 31 - 1 then 2 ^ 31 - 1 else n)"

section \<open>What the tracers rely on\<close>

text \<open>
  A mark function with a counter that moves exactly when it is shown a first-survival young
  object, which marking does not make or unmake. The tracers of lists and maps read the counter
  around each slot to learn whether the slot still holds such an object.
\<close>

definition slot_young :: "(u64 \<Rightarrow> bool) \<Rightarrow> sl_bytes \<Rightarrow> nat \<Rightarrow> nat \<Rightarrow> bool" where
  "slot_young yg el sz is_ptr \<longleftrightarrow> is_ptr \<noteq> SL_ELEM_NOPTR \<and>
     (if is_ptr \<noteq> 0 \<and> sz = 8 then yg (le_word el) else list_ex yg (slot_words el sz))"

text \<open>The first position from \<open>i\<close> on at which a predicate holds.\<close>

fun first_from :: "('a \<Rightarrow> bool) \<Rightarrow> nat \<Rightarrow> 'a list \<Rightarrow> nat option" where
  "first_from P i [] = None"
| "first_from P i (x # xs) = (if P x then Some i else first_from P (i + 1) xs)"

lemma first_from_None: "first_from P i xs = None \<longleftrightarrow> (\<forall>x\<in>set xs. \<not> P x)"
  by (induction xs arbitrary: i) auto

lemma first_from_Some:
  "first_from P i xs = Some k \<Longrightarrow> i \<le> k \<and> k < i + length xs \<and> P (xs ! (k - i)) \<and>
     (\<forall>j < k - i. \<not> P (xs ! j))"
proof (induction xs arbitrary: i)
  case (Cons x xs)
  show ?case
  proof (cases "P x")
    case False
    then have k: "Suc i \<le> k" "k < Suc i + length xs" "P (xs ! (k - Suc i))"
      "\<forall>j < k - Suc i. \<not> P (xs ! j)"
      using Cons.IH [of "Suc i"] Cons.prems by simp_all
    then have "\<not> P ((x # xs) ! j)" if "j < k - i" for j using False that by (cases j) auto
    moreover have "(x # xs) ! (k - i) = xs ! (k - Suc i)" using k(1) by (simp add: Suc_diff_Suc nth_Cons')
    ultimately show ?thesis using k by simp
  qed (use Cons in auto)
qed simp

locale counting_mark =
  fixes mark :: "u64 \<Rightarrow> 's \<Rightarrow> 's"
    and seen :: "'s \<Rightarrow> nat"
    and young :: "'s \<Rightarrow> u64 \<Rightarrow> bool"
  assumes seen_mark: "seen (mark p st) = seen st + (if young st p then 1 else 0)"
    and young_mark: "young (mark p st) = young st"
begin

lemma young_fold: "young (fold mark ps st) = young st"
  by (induction ps arbitrary: st) (simp_all add: young_mark)

lemma seen_fold: "seen (fold mark ps st) = seen st + length (filter (young st) ps)"
  by (induction ps arbitrary: st) (simp_all add: young_mark seen_mark)

lemma young_mark_slot: "young (sl_gc_mark_slot mark el sz is_ptr st) = young st"
  by (simp add: sl_gc_mark_slot_def young_mark young_fold)

text \<open>A position is a list of slots: one element, or a key and its value.\<close>

lemma young_mark_pos:
  "young (fold (\<lambda>(el, sz, ip). sl_gc_mark_slot mark el sz ip) slots st) = young st"
  by (induction slots arbitrary: st) (auto simp: young_mark_slot)

lemma seen_mark_slot_mono: "seen st \<le> seen (sl_gc_mark_slot mark el sz is_ptr st)"
  by (simp add: sl_gc_mark_slot_def seen_mark seen_fold)

lemma seen_mark_slot:
  "seen (sl_gc_mark_slot mark el sz is_ptr st) \<noteq> seen st \<longleftrightarrow> slot_young (young st) el sz is_ptr"
proof -
  have "length (filter P ps) \<noteq> 0 \<longleftrightarrow> list_ex P ps" for P :: "u64 \<Rightarrow> bool" and ps
    by (induction ps) auto
  then show ?thesis
    by (auto simp: sl_gc_mark_slot_def slot_young_def seen_mark seen_fold)
qed

lemma seen_mark_pos_mono:
  "seen st \<le> seen (fold (\<lambda>(el, sz, ip). sl_gc_mark_slot mark el sz ip) slots st)"
proof (induction slots arbitrary: st)
  case (Cons s slots)
  obtain el sz ip where s: "s = (el, sz, ip)" by (cases s)
  from seen_mark_slot_mono [of st el sz ip] Cons.IH [of "sl_gc_mark_slot mark el sz ip st"]
  show ?case by (simp add: s)
qed simp

lemma seen_mark_pos:
  "seen (fold (\<lambda>(el, sz, ip). sl_gc_mark_slot mark el sz ip) slots st) \<noteq> seen st \<longleftrightarrow>
     list_ex (\<lambda>(el, sz, ip). slot_young (young st) el sz ip) slots"
proof (induction slots arbitrary: st)
  case (Cons s slots)
  obtain el sz ip where s: "s = (el, sz, ip)" by (cases s)
  let ?st = "sl_gc_mark_slot mark el sz ip st"
  show ?case
    using Cons.IH [of ?st] seen_mark_slot [of el sz ip st] seen_mark_slot_mono [of st el sz ip]
      seen_mark_pos_mono [of ?st slots]
    by (simp add: s young_mark_slot) linarith
qed simp

lemma minor_loop_first:
  "fst (minor_loop seen (map (\<lambda>slots. fold (\<lambda>(el, sz, ip). sl_gc_mark_slot mark el sz ip) slots) ps) i first st) =
     (if first = None then first_from (list_ex (\<lambda>(el, sz, ip). slot_young (young st) el sz ip)) i ps else first)"
proof (induction ps arbitrary: i first st)
  case (Cons p ps)
  then show ?case using seen_mark_pos [of p st] by (simp add: young_mark_pos Let_def)
qed simp

end

definition gen0_at :: "sl_gc_marker \<Rightarrow> u64 \<Rightarrow> bool" where
  "gen0_at ms p \<longleftrightarrow> p \<noteq> 0 \<and> ms_gen ms p = Some 0"

interpretation minor: counting_mark sl_gc_mark_minor_into ms_gen0_seen gen0_at
proof
  fix p and st :: sl_gc_marker
  show "ms_gen0_seen (sl_gc_mark_minor_into p st) = ms_gen0_seen st + (if gen0_at st p then 1 else 0)"
    by (simp add: sl_gc_mark_minor_into_def gen0_at_def sl_gc_claim_def sl_gc_wl_push_def Let_def
        split: option.split)
  show "gen0_at (sl_gc_mark_minor_into p st) = gen0_at st"
    by (rule ext) (simp add: sl_gc_mark_minor_into_def gen0_at_def sl_gc_claim_def sl_gc_wl_push_def
        Let_def split: option.split)
qed

section \<open>Properties\<close>

lemma mark_minor_skip:
  "p = 0 \<or> ms_gen st p = None \<or> ms_gen st p = Some 1 \<Longrightarrow> sl_gc_mark_minor_into p st = st"
  by (auto simp: sl_gc_mark_minor_into_def split: option.split)

lemma mark_minor_fields:
  assumes "p \<noteq> 0" and "ms_gen st p = Some g" and "g \<noteq> 1"
  shows "ms_wl (sl_gc_mark_minor_into p st) = (if ms_marked st p then ms_wl st else ms_wl st @ [p])"
    and "ms_marked (sl_gc_mark_minor_into p st) = (ms_marked st)(p := True)"
    and "ms_gen (sl_gc_mark_minor_into p st) = ms_gen st"
  using assms by (auto simp: sl_gc_mark_minor_into_def sl_gc_claim_def sl_gc_wl_push_def Let_def fun_eq_iff)

definition mark_inv :: "sl_gc_marker \<Rightarrow> sl_gc_marker \<Rightarrow> bool" where
  "mark_inv ms st \<longleftrightarrow> distinct (ms_wl st) \<and> (\<forall>p. ms_marked st p \<longleftrightarrow> p \<in> set (ms_wl st)) \<and> ms_gen st = ms_gen ms"

definition minor_target :: "sl_gc_marker \<Rightarrow> u64 \<Rightarrow> bool" where
  "minor_target ms p \<longleftrightarrow> p \<noteq> 0 \<and> (\<exists>g. ms_gen ms p = Some g \<and> g \<noteq> 1)"

lemma mark_minor_step:
  assumes "mark_inv ms st"
  shows "mark_inv ms (sl_gc_mark_minor_into p st) \<and>
    set (ms_wl (sl_gc_mark_minor_into p st)) = set (ms_wl st) \<union> (if minor_target ms p then {p} else {})"
proof (cases "minor_target ms p")
  case True
  then obtain g where g: "p \<noteq> 0" "ms_gen st p = Some g" "g \<noteq> 1"
    using assms by (auto simp: minor_target_def mark_inv_def)
  show ?thesis using assms True unfolding mark_inv_def mark_minor_fields [OF g] by auto
next
  case False
  then have "sl_gc_mark_minor_into p st = st"
    using assms by (intro mark_minor_skip, cases "ms_gen st p") (auto simp: minor_target_def mark_inv_def)
  then show ?thesis using assms False by simp
qed

lemma mark_minor_fold:
  assumes "mark_inv ms st"
  shows "mark_inv ms (fold sl_gc_mark_minor_into ps st) \<and>
    set (ms_wl (fold sl_gc_mark_minor_into ps st)) = set (ms_wl st) \<union> {p \<in> set ps. minor_target ms p}"
  using assms
proof (induction ps arbitrary: st)
  case (Cons p ps)
  from mark_minor_step [OF Cons.prems, of p] Cons.IH [of "sl_gc_mark_minor_into p st"] show ?case
    by auto
qed simp

text \<open>C26: a minor collection's marking, shown any words in any order, puts on its work list each
  known object that is not old, once, and marks nothing else: no null, no word that is not an
  object, no old object.\<close>

theorem sl_gc_minor_mark_exact:
  assumes "\<forall>p. \<not> ms_marked ms p" and "ms_wl ms = []"
  shows "distinct (ms_wl (fold sl_gc_mark_minor_into ps ms)) \<and>
    set (ms_wl (fold sl_gc_mark_minor_into ps ms)) =
      {p \<in> set ps. p \<noteq> 0 \<and> (\<exists>g. ms_gen ms p = Some g \<and> g \<noteq> 1)} \<and>
    Collect (ms_marked (fold sl_gc_mark_minor_into ps ms)) = set (ms_wl (fold sl_gc_mark_minor_into ps ms)) \<and>
    ms_gen0_seen (fold sl_gc_mark_minor_into ps ms) = ms_gen0_seen ms + length (filter (gen0_at ms) ps)"
proof -
  have "mark_inv ms ms" using assms by (simp add: mark_inv_def)
  from mark_minor_fold [OF this, of ps] show ?thesis
    using assms(2) minor.seen_fold [of ps ms] by (auto simp: mark_inv_def minor_target_def)
qed

theorem sl_gc_minor_mark_exact_witness:
  "ms_wl (fold sl_gc_mark_minor_into [8, 16, 0, 8, 24, 32]
     \<lparr>ms_gen = (\<lambda>p. if p = 8 then Some 0 else if p = 16 then Some 1 else if p = 24 then Some 2 else None),
      ms_marked = (\<lambda>_. False), ms_wl = [], ms_gen0_seen = 0\<rparr>) = [8, 24] \<and>
   distinct (ms_wl (fold sl_gc_mark_minor_into [8, 16, 0, 8, 24, 32]
     \<lparr>ms_gen = (\<lambda>p. if p = 8 then Some 0 else if p = 16 then Some 1 else if p = 24 then Some 2 else None),
      ms_marked = (\<lambda>_. False), ms_wl = [], ms_gen0_seen = 0\<rparr>))"
proof -
  let ?ms = "\<lparr>ms_gen = (\<lambda>p. if p = 8 then Some 0 else if p = 16 then Some 1 else if p = 24 then Some 2 else None),
      ms_marked = (\<lambda>_. False), ms_wl = [], ms_gen0_seen = 0\<rparr> :: sl_gc_marker"
  have "\<forall>p. \<not> ms_marked ?ms p" "ms_wl ?ms = []" by simp_all
  note t = sl_gc_minor_mark_exact [OF this, of "[8, 16, 0, 8, 24, 32]"]
  show ?thesis
    by (intro conjI t [THEN conjunct1])
      (simp add: sl_gc_mark_minor_into_def sl_gc_claim_def sl_gc_wl_push_def)
qed

end
