(* ===== verification/Sl_Arr.thy ===== *)
theory Sl_Arr
  imports Sl_Gc_Obj Sl_Bytes
begin

text \<open>
  Lists, \<open>runtime/sl_containers.c\<close>: growable arrays with their elements stored inline, the write
  barrier that lowers \<open>gc_clean\<close>, and the list's tracers. An element is its \<open>esz\<close> bytes and the
  data buffer is the list of its \<open>cap\<close> elements; a pointer into the buffer is an element index.
  What a fresh part of the buffer holds is written as zeros and never read. Lengths and
  capacities are natural numbers: they stay far below the end of \<open>long long\<close>.
\<close>

section \<open>The operations\<close>

record sl_arr = sl_gc_obj +
  ar_len :: nat
  ar_cap :: nat
  ar_data :: "sl_bytes list"
  ar_esz :: nat
  ar_elem_is_ptr :: nat
  ar_gc_clean :: nat

definition sl_arr_remember_at :: "sl_arr \<Rightarrow> nat \<Rightarrow> sl_arr" where
  "sl_arr_remember_at a i =
     sl_gc_remember_obj (if i < ar_gc_clean a then a\<lparr>ar_gc_clean := i\<rparr> else a)"

definition sl_arr_new :: "nat \<Rightarrow> nat \<Rightarrow> sl_arr" where
  "sl_arr_new esz elem_is_ptr =
     \<lparr>gen = 0, remembered = False, ar_len = 0, ar_cap = 0, ar_data = [], ar_esz = esz,
      ar_elem_is_ptr = elem_is_ptr, ar_gc_clean = 0\<rparr>"

text \<open>\<open>while (cap < need) cap *= 2\<close>; the loop starts from a positive capacity.\<close>

function grow_cap :: "nat \<Rightarrow> nat \<Rightarrow> nat" where
  "grow_cap cap need = (if 0 < cap \<and> cap < need then grow_cap (cap * 2) need else cap)"
  by pat_completeness auto
termination
  by (relation "measure (\<lambda>(cap, need). need - cap)") auto

declare grow_cap.simps [simp del]

definition sl_arr_reserve :: "sl_arr \<Rightarrow> nat \<Rightarrow> sl_arr" where
  "sl_arr_reserve a need =
     (if need \<le> ar_cap a then a
      else
        (let cap = grow_cap (if ar_cap a \<noteq> 0 then ar_cap a else 8) need in
         sl_gc_remember_obj
           (a\<lparr>ar_data := ar_data a @ replicate (cap - ar_cap a) (replicate (ar_esz a) 0), ar_cap := cap\<rparr>)))"

definition size_mismatch :: "nat \<Rightarrow> sl_arr \<Rightarrow> panic" where
  "size_mismatch esz a = Panic ''internal: element size mismatch'' (int esz) (int (ar_esz a))"

definition sl_arr_get :: "sl_arr \<Rightarrow> int \<Rightarrow> nat \<Rightarrow> nat sl_panics" where
  "sl_arr_get a i esz =
     (if esz \<noteq> ar_esz a then Inl (size_mismatch esz a)
      else if i < 0 \<or> i \<ge> int (ar_len a)
      then Inl (Panic ''list index out of bounds'' i (int (ar_len a)))
      else Inr (nat i))"

definition sl_arr_push :: "sl_arr \<Rightarrow> sl_bytes \<Rightarrow> nat \<Rightarrow> sl_arr sl_panics" where
  "sl_arr_push a val esz =
     (if esz \<noteq> ar_esz a then Inl (size_mismatch esz a)
      else
        (let a = sl_arr_reserve a (ar_len a + 1);
             a = a\<lparr>ar_data := (ar_data a)[ar_len a := val]\<rparr>;
             a = a\<lparr>ar_len := ar_len a + 1\<rparr>
         in Inr (if ar_elem_is_ptr a = SL_ELEM_NOPTR then a
                 else sl_arr_remember_at a (ar_len a - 1))))"

definition sl_arr_pop :: "sl_arr \<Rightarrow> nat \<Rightarrow> (nat \<times> sl_arr) sl_panics" where
  "sl_arr_pop a esz =
     (if esz \<noteq> ar_esz a then Inl (size_mismatch esz a)
      else if ar_len a = 0 then Inl (Panic ''pop from empty list'' 0 0)
      else (let a = a\<lparr>ar_len := ar_len a - 1\<rparr> in Inr (ar_len a, a)))"

text \<open>\<open>memcpy\<close> of whole elements to element index \<open>i\<close>.\<close>

definition copy_elems :: "sl_bytes list \<Rightarrow> nat \<Rightarrow> sl_bytes list \<Rightarrow> sl_bytes list" where
  "copy_elems data i src = take i data @ src @ drop (i + length src) data"

definition sl_arr_from :: "sl_bytes list \<Rightarrow> nat \<Rightarrow> nat \<Rightarrow> sl_arr" where
  "sl_arr_from buf esz elem_is_ptr =
     (let n = length buf;
          a = sl_arr_reserve (sl_arr_new esz elem_is_ptr) n;
          a = (if n > 0 then a\<lparr>ar_data := copy_elems (ar_data a) 0 buf\<rparr> else a)
      in a\<lparr>ar_len := n\<rparr>)"

definition sl_arr_slice :: "sl_arr \<Rightarrow> int \<Rightarrow> int \<Rightarrow> sl_arr" where
  "sl_arr_slice a s e =
     (let s = clamp_lo s; e = clamp_hi (int (ar_len a)) s e;
          r = sl_arr_reserve (sl_arr_new (ar_esz a) (ar_elem_is_ptr a)) (nat (e - s));
          r = (if e > s
               then r\<lparr>ar_data := copy_elems (ar_data r) 0 (take (nat (e - s)) (drop (nat s) (ar_data a)))\<rparr>
               else r)
      in r\<lparr>ar_len := nat (e - s)\<rparr>)"

definition sl_arr_concat :: "sl_arr \<Rightarrow> sl_arr \<Rightarrow> sl_arr sl_panics" where
  "sl_arr_concat a b =
     (if ar_esz a \<noteq> ar_esz b
      then Inl (Panic ''cannot concatenate lists of different element types''
                  (int (ar_esz a)) (int (ar_esz b)))
      else
        (let r = sl_arr_reserve (sl_arr_new (ar_esz a) (ar_elem_is_ptr a)) (ar_len a + ar_len b);
             r = (if ar_len a \<noteq> 0
                  then r\<lparr>ar_data := copy_elems (ar_data r) 0 (take (ar_len a) (ar_data a))\<rparr> else r);
             r = (if ar_len b \<noteq> 0
                  then r\<lparr>ar_data := copy_elems (ar_data r) (ar_len a) (take (ar_len b) (ar_data b))\<rparr> else r)
         in Inr (r\<lparr>ar_len := ar_len a + ar_len b\<rparr>)))"

section \<open>The tracers\<close>

text \<open>
  \<open>data\<close> is the address of the buffer, which a list's record does not carry; 0 is \<open>NULL\<close>.
\<close>

definition sl_gc_trace_arr_range :: "(u64 \<Rightarrow> 's \<Rightarrow> 's) \<Rightarrow> sl_arr \<Rightarrow> nat \<Rightarrow> 's \<Rightarrow> 's" where
  "sl_gc_trace_arr_range mark a from st =
     (if ar_elem_is_ptr a = SL_ELEM_NOPTR \<or> ar_elem_is_ptr a = 0 \<and> ar_esz a < 8 then st
      else fold (\<lambda>i. sl_gc_mark_slot mark (ar_data a ! i) (ar_esz a) (ar_elem_is_ptr a)) [from..<ar_len a] st)"

definition sl_gc_trace_arr :: "(u64 \<Rightarrow> 's \<Rightarrow> 's) \<Rightarrow> u64 \<Rightarrow> sl_arr \<Rightarrow> 's \<Rightarrow> 's" where
  "sl_gc_trace_arr mark data a st =
     (if data = 0 then st else sl_gc_trace_arr_range mark a 0 (mark data st))"

definition sl_gc_trace_arr_minor ::
    "(u64 \<Rightarrow> 's \<Rightarrow> 's) \<Rightarrow> ('s \<Rightarrow> nat) \<Rightarrow> u64 \<Rightarrow> sl_arr \<Rightarrow> 's \<Rightarrow> bool \<times> sl_arr \<times> 's" where
  "sl_gc_trace_arr_minor mark seen data a st =
     (let (first, st) =
        (if data = 0 then (None, st)
         else
           (let st = mark data st;
                from = (if ar_elem_is_ptr a = SL_ELEM_NOPTR then ar_len a else ar_gc_clean a)
            in minor_loop seen
                 (map (\<lambda>i. sl_gc_mark_slot mark (ar_data a ! i) (ar_esz a) (ar_elem_is_ptr a)) [from..<ar_len a])
                 from None st))
      in (first \<noteq> None,
          a\<lparr>ar_gc_clean := sl_gc_clean_at (case first of Some i \<Rightarrow> i | None \<Rightarrow> ar_len a)\<rparr>, st))"

section \<open>The invariant\<close>

text \<open>What a list holds, and the invariant of a list between operations.\<close>

definition elems :: "sl_arr \<Rightarrow> sl_bytes list" where
  "elems a = take (ar_len a) (ar_data a)"

definition arr_inv :: "sl_arr \<Rightarrow> bool" where
  "arr_inv a \<longleftrightarrow> ar_len a \<le> ar_cap a \<and> length (ar_data a) = ar_cap a \<and>
     (\<forall>x\<in>set (ar_data a). length x = ar_esz a)"

lemma length_elems: "arr_inv a \<Longrightarrow> length (elems a) = ar_len a"
  by (simp add: elems_def arr_inv_def)

lemma remember_arr [simp]:
  "ar_len (sl_gc_remember_obj a) = ar_len a" "ar_cap (sl_gc_remember_obj a) = ar_cap a"
  "ar_data (sl_gc_remember_obj a) = ar_data a" "ar_esz (sl_gc_remember_obj a) = ar_esz a"
  "ar_elem_is_ptr (sl_gc_remember_obj a) = ar_elem_is_ptr a"
  "ar_gc_clean (sl_gc_remember_obj a) = ar_gc_clean a" "gen (sl_gc_remember_obj a) = gen a"
  by (simp_all add: sl_gc_remember_obj_def)

lemma remember_at_arr [simp]:
  "ar_len (sl_arr_remember_at a i) = ar_len a" "ar_cap (sl_arr_remember_at a i) = ar_cap a"
  "ar_data (sl_arr_remember_at a i) = ar_data a" "ar_esz (sl_arr_remember_at a i) = ar_esz a"
  "ar_elem_is_ptr (sl_arr_remember_at a i) = ar_elem_is_ptr a"
  "ar_gc_clean (sl_arr_remember_at a i) = min i (ar_gc_clean a)"
  "gen (sl_arr_remember_at a i) = gen a"
  by (simp_all add: sl_arr_remember_at_def)

lemma arr_new [simp]:
  "arr_inv (sl_arr_new esz p)" "ar_len (sl_arr_new esz p) = 0" "ar_cap (sl_arr_new esz p) = 0"
  "ar_esz (sl_arr_new esz p) = esz" "ar_elem_is_ptr (sl_arr_new esz p) = p"
  "elems (sl_arr_new esz p) = []" "ar_data (sl_arr_new esz p) = []" "ar_gc_clean (sl_arr_new esz p) = 0"
  by (simp_all add: sl_arr_new_def arr_inv_def elems_def)

section \<open>Growth\<close>

lemma grow_cap_ge: "0 < cap \<Longrightarrow> need \<le> grow_cap cap need \<and> cap \<le> grow_cap cap need"
proof (induction cap need rule: grow_cap.induct)
  case (1 cap need)
  then show ?case by (subst (1 2) grow_cap.simps) auto
qed

lemma grow_cap_less: "0 < cap \<Longrightarrow> cap < need \<Longrightarrow> grow_cap cap need < 2 * need"
proof (induction cap need rule: grow_cap.induct)
  case (1 cap need)
  then show ?case by (subst grow_cap.simps) (cases "cap * 2 < need"; simp add: grow_cap.simps [of "cap * 2"])
qed

lemma reserve_fields [simp]:
  "ar_len (sl_arr_reserve a n) = ar_len a" "ar_esz (sl_arr_reserve a n) = ar_esz a"
  "ar_elem_is_ptr (sl_arr_reserve a n) = ar_elem_is_ptr a"
  "ar_gc_clean (sl_arr_reserve a n) = ar_gc_clean a" "gen (sl_arr_reserve a n) = gen a"
  by (simp_all add: sl_arr_reserve_def Let_def)

lemma reserve_ok:
  assumes "arr_inv a"
  shows "arr_inv (sl_arr_reserve a n)" and "n \<le> ar_cap (sl_arr_reserve a n)"
    and "take (ar_cap a) (ar_data (sl_arr_reserve a n)) = ar_data a"
    and "elems (sl_arr_reserve a n) = elems a"
proof -
  define c where "c = (if ar_cap a \<noteq> 0 then ar_cap a else 8)"
  have g: "n \<le> grow_cap c n" "ar_cap a \<le> grow_cap c n"
    using grow_cap_ge [of c n] by (auto simp: c_def split: if_splits)
  have eq: "sl_arr_reserve a n = (if n \<le> ar_cap a then a else sl_gc_remember_obj
      (a\<lparr>ar_data := ar_data a @ replicate (grow_cap c n - ar_cap a) (replicate (ar_esz a) 0),
         ar_cap := grow_cap c n\<rparr>))"
    by (simp add: sl_arr_reserve_def Let_def c_def)
  show "arr_inv (sl_arr_reserve a n)" "n \<le> ar_cap (sl_arr_reserve a n)"
    "take (ar_cap a) (ar_data (sl_arr_reserve a n)) = ar_data a"
    "elems (sl_arr_reserve a n) = elems a"
    using assms g by (auto simp: eq arr_inv_def elems_def)
qed

section \<open>Refinement of lists: lemmas\<close>

lemma push_ok:
  assumes inv: "arr_inv a" and v: "length v = ar_esz a"
  shows "\<exists>a'. sl_arr_push a v (ar_esz a) = Inr a' \<and> arr_inv a' \<and> elems a' = elems a @ [v] \<and>
    ar_esz a' = ar_esz a \<and> ar_elem_is_ptr a' = ar_elem_is_ptr a \<and> gen a' = gen a \<and>
    ar_gc_clean a' = (if ar_elem_is_ptr a = SL_ELEM_NOPTR then ar_gc_clean a
                      else min (ar_len a) (ar_gc_clean a)) \<and>
    (gen a = 1 \<longrightarrow> ar_elem_is_ptr a \<noteq> SL_ELEM_NOPTR \<longrightarrow> remembered a')"
proof -
  let ?r = "sl_arr_reserve a (ar_len a + 1)"
  let ?a = "?r\<lparr>ar_data := (ar_data ?r)[ar_len a := v], ar_len := ar_len a + 1\<rparr>"
  note r = reserve_ok [OF inv, of "ar_len a + 1"]
  have len: "length (ar_data ?r) = ar_cap ?r" "ar_len a < ar_cap ?r"
    using r(1,2) by (auto simp: arr_inv_def)
  have inv': "arr_inv ?a"
    using r(1,2) v len set_update_subset_insert [of "ar_data ?r" "ar_len a" v]
    by (auto simp: arr_inv_def)
  have el: "elems ?a = elems a @ [v]"
    using r(4) len by (simp add: elems_def take_Suc_conv_app_nth take_update_cancel)
  show ?thesis
  proof (cases "ar_elem_is_ptr a = SL_ELEM_NOPTR")
    case True
    then have "sl_arr_push a v (ar_esz a) = Inr ?a" by (simp add: sl_arr_push_def Let_def)
    then show ?thesis using inv' el True by auto
  next
    case False
    then have push: "sl_arr_push a v (ar_esz a) = Inr (sl_arr_remember_at ?a (ar_len a))"
      by (simp add: sl_arr_push_def Let_def)
    moreover have "arr_inv (sl_arr_remember_at ?a (ar_len a))" using inv' by (simp add: arr_inv_def)
    moreover have "elems (sl_arr_remember_at ?a (ar_len a)) = elems a @ [v]" using el by (simp add: elems_def)
    moreover have "gen a = 1 \<longrightarrow> remembered (sl_arr_remember_at ?a (ar_len a))"
      by (simp add: sl_arr_remember_at_def sl_gc_remember_obj_def sl_arr_reserve_def Let_def)
    ultimately show ?thesis using False by auto
  qed
qed

lemma fresh_fill:
  assumes "n \<le> ar_cap r" and "arr_inv r" and "length src = n" and "\<forall>x\<in>set src. length x = ar_esz r"
  shows "arr_inv (r\<lparr>ar_data := copy_elems (ar_data r) 0 src, ar_len := n\<rparr>)"
    and "elems (r\<lparr>ar_data := copy_elems (ar_data r) 0 src, ar_len := n\<rparr>) = src"
  using assms by (auto simp: arr_inv_def copy_elems_def elems_def dest: in_set_dropD)

lemma set_elems: "arr_inv a \<Longrightarrow> x \<in> set (elems a) \<Longrightarrow> length x = ar_esz a"
  by (auto simp: elems_def arr_inv_def dest: in_set_takeD)

lemma from_ok:
  assumes "\<forall>x\<in>set buf. length x = esz"
  shows "arr_inv (sl_arr_from buf esz p)" and "elems (sl_arr_from buf esz p) = buf"
    and "ar_gc_clean (sl_arr_from buf esz p) = 0" and "ar_esz (sl_arr_from buf esz p) = esz"
proof -
  let ?r = "sl_arr_reserve (sl_arr_new esz p) (length buf)"
  have inv: "arr_inv (sl_arr_new esz p)" by simp
  have r: "arr_inv ?r" "length buf \<le> ar_cap ?r" by (rule reserve_ok [OF inv])+
  have e: "\<forall>x\<in>set buf. length x = ar_esz ?r" using assms by simp
  have eq: "sl_arr_from buf esz p = (?r\<lparr>ar_data := copy_elems (ar_data ?r) 0 buf, ar_len := length buf\<rparr>)"
    by (simp add: sl_arr_from_def Let_def copy_elems_def)
  show "arr_inv (sl_arr_from buf esz p)" "elems (sl_arr_from buf esz p) = buf"
    unfolding eq by (rule fresh_fill [OF r(2,1) refl e])+
  show "ar_gc_clean (sl_arr_from buf esz p) = 0" "ar_esz (sl_arr_from buf esz p) = esz"
    by (simp_all add: eq)
qed

lemma slice_ok:
  assumes "arr_inv a"
  shows "sl_arr_slice a s e =
    sl_arr_from (take (nat (clamp_hi (int (ar_len a)) (clamp_lo s) e - clamp_lo s))
      (drop (nat (clamp_lo s)) (elems a))) (ar_esz a) (ar_elem_is_ptr a)"
proof -
  let ?s = "clamp_lo s" and ?e = "clamp_hi (int (ar_len a)) (clamp_lo s) e"
  let ?src = "take (nat (?e - ?s)) (drop (nat ?s) (elems a))"
  have b: "0 \<le> ?s" "?s \<le> ?e" "?e > ?s \<longrightarrow> ?e \<le> int (ar_len a)"
    by (auto simp: clamp_lo_def clamp_hi_def Let_def)
  have src: "?src = take (nat (?e - ?s)) (drop (nat ?s) (ar_data a))" if "?e > ?s"
    using that b by (simp add: elems_def drop_take min_def)
  have len: "length ?src = nat (?e - ?s)"
  proof (cases "?e > ?s")
    case True
    then show ?thesis using b length_elems [OF assms] by simp
  qed simp
  show ?thesis unfolding sl_arr_slice_def sl_arr_from_def Let_def len using src by auto
qed

lemma concat_ok:
  assumes "arr_inv a" and "arr_inv b" and "ar_esz a = ar_esz b"
  shows "sl_arr_concat a b = Inr (sl_arr_from (elems a @ elems b) (ar_esz a) (ar_elem_is_ptr a))"
proof -
  let ?r = "sl_arr_reserve (sl_arr_new (ar_esz a) (ar_elem_is_ptr a)) (ar_len a + ar_len b)"
  have inv: "arr_inv (sl_arr_new (ar_esz a) (ar_elem_is_ptr a))" by simp
  have r: "arr_inv ?r" "ar_len a + ar_len b \<le> ar_cap ?r" by (rule reserve_ok [OF inv])+
  have len: "length (elems a) = ar_len a" "length (elems b) = ar_len b"
    "length (ar_data ?r) = ar_cap ?r" using assms r(1) length_elems by (auto simp: arr_inv_def)
  have two: "copy_elems (copy_elems (ar_data ?r) 0 (elems a)) (ar_len a) (elems b) =
      copy_elems (ar_data ?r) 0 (elems a @ elems b)"
    using len r(2) by (simp add: copy_elems_def add.commute)
  have nil: "copy_elems d i [] = d" for d and i by (simp add: copy_elems_def)
  have e: "elems a = [] \<longleftrightarrow> ar_len a = 0" "elems b = [] \<longleftrightarrow> ar_len b = 0"
    using len by (metis length_0_conv)+
  have t: "take (ar_len a) (ar_data a) = elems a" "take (ar_len b) (ar_data b) = elems b"
    by (simp_all add: elems_def)
  have ea: "elems a = []" if "ar_len a = 0" using that e(1) by simp
  have eb: "elems b = []" if "ar_len b = 0" using that e(2) by simp
  show ?thesis
    unfolding sl_arr_concat_def sl_arr_from_def Let_def t length_append len(1,2)
    using two nil ea eb assms(3) by (cases "ar_len a = 0"; cases "ar_len b = 0"; simp)
qed

section \<open>Clean positions: lemmas\<close>

text \<open>No position below \<open>gc_clean\<close> holds a pointer to an object \<open>yg\<close> calls young.\<close>

definition arr_clean :: "(u64 \<Rightarrow> bool) \<Rightarrow> sl_arr \<Rightarrow> bool" where
  "arr_clean yg a \<longleftrightarrow>
     (\<forall>x\<in>set (take (ar_gc_clean a) (elems a)). \<not> slot_young yg x (ar_esz a) (ar_elem_is_ptr a))"

lemma slot_young_noptr [simp]: "\<not> slot_young yg el sz SL_ELEM_NOPTR"
  by (simp add: slot_young_def)

lemma arr_clean_prefix:
  assumes "arr_clean yg a" and "ar_esz a' = ar_esz a" and "ar_elem_is_ptr a' = ar_elem_is_ptr a"
    and "ar_gc_clean a' \<le> ar_gc_clean a"
    and "take (ar_gc_clean a') (elems a') = take (ar_gc_clean a') (elems a)"
  shows "arr_clean yg a'"
proof -
  have "set (take (ar_gc_clean a') (elems a)) \<subseteq> set (take (ar_gc_clean a) (elems a))"
    by (rule set_take_subset_set_take [OF assms(4)])
  then show ?thesis using assms unfolding arr_clean_def by auto
qed

lemma push_clean:
  assumes "arr_inv a" and "length v = ar_esz a" and "arr_clean yg a"
    and "sl_arr_push a v (ar_esz a) = Inr a'"
  shows "arr_clean yg a'"
proof -
  note p = push_ok [OF assms(1,2)]
  show ?thesis
  proof (cases "ar_elem_is_ptr a = SL_ELEM_NOPTR")
    case True
    then show ?thesis using p assms(4) by (auto simp: arr_clean_def)
  next
    case False
    then show ?thesis
      using p assms(4) length_elems [OF assms(1)]
      by (intro arr_clean_prefix [OF assms(3)]) auto
  qed
qed

lemma pop_ok:
  assumes "arr_inv a" and "sl_arr_pop a (ar_esz a) = Inr (i, a')"
  shows "arr_inv a' \<and> elems a = elems a' @ [ar_data a ! i] \<and> i = ar_len a - 1 \<and>
    (arr_clean yg a \<longrightarrow> arr_clean yg a')"
proof -
  have a': "a' = a\<lparr>ar_len := ar_len a - 1\<rparr>" "i = ar_len a - 1" "0 < ar_len a"
    using assms(2) by (auto simp: sl_arr_pop_def Let_def split: if_splits)
  have "elems a = take (Suc (ar_len a - 1)) (ar_data a)" using a'(3) by (simp add: elems_def)
  also have "\<dots> = take (ar_len a - 1) (ar_data a) @ [ar_data a ! (ar_len a - 1)]"
    using a'(3) assms(1) by (intro take_Suc_conv_app_nth) (auto simp: arr_inv_def)
  also have "\<dots> = elems a' @ [ar_data a ! i]" using a' by (simp add: elems_def)
  finally have el: "elems a = elems a' @ [ar_data a ! i]" .
  have "arr_clean yg a'" if "arr_clean yg a"
  proof -
    have "set (take (ar_gc_clean a) (elems a')) \<subseteq> set (take (ar_gc_clean a) (elems a))"
      using el by auto
    then show ?thesis using that a'(1) unfolding arr_clean_def by auto
  qed
  then show ?thesis using a' assms(1) el by (auto simp: arr_inv_def)
qed

lemma trace_arr_minor_first:
  fixes a :: sl_arr
  assumes "data \<noteq> 0"
  defines "frm \<equiv> (if ar_elem_is_ptr a = SL_ELEM_NOPTR then ar_len a else ar_gc_clean a)"
  shows "\<exists>st'. sl_gc_trace_arr_minor sl_gc_mark_minor_into ms_gen0_seen data a st =
    (let first = first_from (\<lambda>i. slot_young (gen0_at st) (ar_data a ! i) (ar_esz a) (ar_elem_is_ptr a))
                   frm [frm..<ar_len a]
     in (first \<noteq> None, a\<lparr>ar_gc_clean := sl_gc_clean_at (case first of Some i \<Rightarrow> i | None \<Rightarrow> ar_len a)\<rparr>, st'))"
proof -
  let ?slots = "map (\<lambda>i. [(ar_data a ! i, ar_esz a, ar_elem_is_ptr a)]) [frm..<ar_len a]"
  let ?st = "sl_gc_mark_minor_into data st"
  have acts: "map (\<lambda>i. sl_gc_mark_slot sl_gc_mark_minor_into (ar_data a ! i) (ar_esz a) (ar_elem_is_ptr a))
      [frm..<ar_len a] =
    map (\<lambda>slots. fold (\<lambda>(el, sz, ip). sl_gc_mark_slot sl_gc_mark_minor_into el sz ip) slots) ?slots"
    by (simp add: fun_eq_iff)
  have ff: "first_from P i (map g xs) = first_from (\<lambda>x. P (g x)) i xs" for P :: "'b \<Rightarrow> bool" and g i and xs :: "nat list"
    by (induction xs arbitrary: i) auto
  obtain first st' where loop: "minor_loop ms_gen0_seen (map (\<lambda>i. sl_gc_mark_slot sl_gc_mark_minor_into (ar_data a ! i)
      (ar_esz a) (ar_elem_is_ptr a)) [frm..<ar_len a]) frm None ?st = (first, st')"
    by (cases "minor_loop ms_gen0_seen (map (\<lambda>i. sl_gc_mark_slot sl_gc_mark_minor_into (ar_data a ! i)
      (ar_esz a) (ar_elem_is_ptr a)) [frm..<ar_len a]) frm None ?st")
  have "first = first_from (\<lambda>i. slot_young (gen0_at st) (ar_data a ! i) (ar_esz a) (ar_elem_is_ptr a))
      frm [frm..<ar_len a]"
    using loop minor.minor_loop_first [of ?slots frm None ?st] unfolding acts
    by (simp add: ff minor.young_mark)
  then show ?thesis
    using assms(1) loop unfolding sl_gc_trace_arr_minor_def Let_def frm_def [symmetric] by auto
qed

lemma clean_at_le: "sl_gc_clean_at n \<le> n"
  by (simp add: sl_gc_clean_at_def)

lemma trace_minor_clean:
  assumes inv: "arr_inv a" and clean: "arr_clean (gen0_at st) a" and data: "data \<noteq> 0"
    and tr: "sl_gc_trace_arr_minor sl_gc_mark_minor_into ms_gen0_seen data a st = (keep, a', st')"
  shows "arr_clean (gen0_at st) a' \<and> elems a' = elems a \<and>
    (keep \<longleftrightarrow> list_ex (\<lambda>x. slot_young (gen0_at st) x (ar_esz a) (ar_elem_is_ptr a)) (elems a))"
proof -
  define from' where "from' = (if ar_elem_is_ptr a = SL_ELEM_NOPTR then ar_len a else ar_gc_clean a)"
  let ?Y = "\<lambda>x. slot_young (gen0_at st) x (ar_esz a) (ar_elem_is_ptr a)"
  define first where "first = first_from (\<lambda>i. ?Y (ar_data a ! i)) from' [from'..<ar_len a]"
  have a': "keep = (first \<noteq> None)"
    "a' = a\<lparr>ar_gc_clean := sl_gc_clean_at (case first of Some i \<Rightarrow> i | None \<Rightarrow> ar_len a)\<rparr>"
    using trace_arr_minor_first [OF data, of a st] tr by (auto simp: first_def from'_def Let_def)
  have el: "i < ar_len a \<Longrightarrow> elems a ! i = ar_data a ! i" for i by (simp add: elems_def)
  have low: "\<not> ?Y (ar_data a ! i)" if "i < from'" "i < ar_len a" for i
  proof (cases "ar_elem_is_ptr a = SL_ELEM_NOPTR")
    case False
    then have "i < ar_gc_clean a" using that by (simp add: from'_def)
    then have "elems a ! i \<in> set (take (ar_gc_clean a) (elems a))"
      using that length_elems [OF inv] by (auto simp: in_set_conv_nth intro!: exI [of _ i])
    then show ?thesis using clean that el by (auto simp: arr_clean_def)
  qed simp
  have below: "\<not> ?Y (elems a ! i)" if i: "i < (case first of Some i \<Rightarrow> i | None \<Rightarrow> ar_len a)" "i < ar_len a" for i
  proof (cases "i < from'")
    case True
    then show ?thesis using low i el by simp
  next
    case False
    show ?thesis
    proof (cases first)
      case None
      then have "\<not> ?Y (ar_data a ! i)" using False i by (simp add: first_def first_from_None)
      then show ?thesis using el i by simp
    next
      case (Some k)
      then have "\<forall>j < k - from'. \<not> ?Y (ar_data a ! ([from'..<ar_len a] ! j))"
        using first_from_Some [of "\<lambda>i. ?Y (ar_data a ! i)" from' "[from'..<ar_len a]" k]
        by (simp add: first_def)
      from this [rule_format, of "i - from'"] show ?thesis using False i Some el by simp
    qed
  qed
  have elem: "elems a' = elems a" using a'(2) by (simp add: elems_def)
  have keep: "keep \<longleftrightarrow> list_ex ?Y (elems a)"
  proof (cases first)
    case None
    then have "\<not> ?Y (elems a ! i)" if "i < ar_len a" for i using below that by simp
    then show ?thesis using None a'(1) length_elems [OF inv] by (auto simp: list_ex_iff in_set_conv_nth)
  next
    case (Some k)
    then have k: "from' \<le> k" "k < ar_len a" "?Y (ar_data a ! k)"
      using first_from_Some [of "\<lambda>i. ?Y (ar_data a ! i)" from' "[from'..<ar_len a]" k]
      by (auto simp: first_def)
    then have "?Y (elems a ! k)" using el by simp
    moreover have "elems a ! k \<in> set (elems a)" using k(2) length_elems [OF inv] by simp
    ultimately show ?thesis using Some a'(1) by (auto simp: list_ex_iff)
  qed
  have "\<not> ?Y x" if x: "x \<in> set (take (ar_gc_clean a') (elems a))" for x
  proof -
    obtain i where i: "i < ar_gc_clean a'" "i < length (elems a)" "x = elems a ! i"
      using x by (auto simp: in_set_conv_nth)
    have "ar_gc_clean a' \<le> (case first of Some i \<Rightarrow> i | None \<Rightarrow> ar_len a)"
      using a'(2) clean_at_le by simp
    with i(1) have "i < (case first of Some i \<Rightarrow> i | None \<Rightarrow> ar_len a)" by (rule less_le_trans)
    then show ?thesis using below i length_elems [OF inv] by simp
  qed
  then have "arr_clean (gen0_at st) a'" using a'(2) elem by (simp add: arr_clean_def)
  then show ?thesis using elem keep by blast
qed

section \<open>Properties\<close>

text \<open>C27: a list behaves as the sequence of its elements: \<open>push\<close> appends (growing the buffer when
  it is full) and never fails; an index within the length gives the slot of that element, any
  other the panic with the index and the length; \<open>pop\<close> gives the slot of the last element and
  takes it off, and on an empty list is the panic; an operation with another element size is
  refused.\<close>

theorem sl_arr_push_pop_get:
  assumes "arr_inv a" and "length v = ar_esz a"
  shows "(\<exists>a'. sl_arr_push a v (ar_esz a) = Inr a' \<and> arr_inv a' \<and> elems a' = elems a @ [v]) \<and>
    sl_arr_get a i (ar_esz a) =
      (if 0 \<le> i \<and> i < int (length (elems a)) then Inr (nat i)
       else Inl (Panic ''list index out of bounds'' i (int (length (elems a))))) \<and>
    (0 \<le> i \<and> i < int (length (elems a)) \<longrightarrow> ar_data a ! nat i = elems a ! nat i) \<and>
    (if elems a = [] then sl_arr_pop a (ar_esz a) = Inl (Panic ''pop from empty list'' 0 0)
     else \<exists>a'. sl_arr_pop a (ar_esz a) = Inr (length (elems a) - 1, a') \<and> ar_data a ! (length (elems a) - 1) = last (elems a) \<and>
            arr_inv a' \<and> elems a' = butlast (elems a)) \<and>
    (esz \<noteq> ar_esz a \<longrightarrow> sl_arr_push a v esz = Inl (size_mismatch esz a) \<and> sl_arr_get a i esz = Inl (size_mismatch esz a) \<and>
       sl_arr_pop a esz = Inl (size_mismatch esz a))"
proof -
  have len: "ar_len a = length (elems a)" using length_elems [OF assms(1)] by simp
  have pop: "\<exists>a'. sl_arr_pop a (ar_esz a) = Inr (length (elems a) - 1, a') \<and> ar_data a ! (length (elems a) - 1) = last (elems a) \<and>
      arr_inv a' \<and> elems a' = butlast (elems a)" if ne: "elems a \<noteq> []"
  proof -
    have "\<exists>r. sl_arr_pop a (ar_esz a) = Inr r" using ne len by (auto simp: sl_arr_pop_def Let_def)
    then obtain k a' where p: "sl_arr_pop a (ar_esz a) = Inr (k, a')" by (metis surj_pair)
    note ok = pop_ok [OF assms(1) p]
    have snoc: "elems a = elems a' @ [ar_data a ! k]" using ok by simp
    have k: "k = length (elems a) - 1" using conjunct1 [OF conjunct2 [OF conjunct2 [OF ok]]] len by simp
    have "ar_data a ! k = last (elems a)" "elems a' = butlast (elems a)" by (simp_all add: snoc)
    moreover have "arr_inv a'" using ok by simp
    ultimately show ?thesis using p unfolding k by metis
  qed
  have "sl_arr_get a i (ar_esz a) = (if 0 \<le> i \<and> i < int (length (elems a)) then Inr (nat i)
       else Inl (Panic ''list index out of bounds'' i (int (length (elems a)))))"
    using len by (auto simp: sl_arr_get_def)
  moreover have "ar_data a ! nat i = elems a ! nat i" if "0 \<le> i" "i < int (length (elems a))"
  proof -
    have "nat i < ar_len a" unfolding len using that by linarith
    then show ?thesis by (simp add: elems_def)
  qed
  moreover have "elems a = [] \<Longrightarrow> sl_arr_pop a (ar_esz a) = Inl (Panic ''pop from empty list'' 0 0)"
    using len by (simp add: sl_arr_pop_def)
  moreover have "esz \<noteq> ar_esz a \<Longrightarrow> sl_arr_push a v esz = Inl (size_mismatch esz a) \<and> sl_arr_get a i esz = Inl (size_mismatch esz a) \<and>
       sl_arr_pop a esz = Inl (size_mismatch esz a)"
    by (simp add: sl_arr_push_def sl_arr_get_def sl_arr_pop_def)
  ultimately show ?thesis using push_ok [OF assms] pop by auto
qed

theorem sl_arr_push_pop_get_witness:
  "arr_inv (sl_arr_from [[1, 2], [3, 4]] 2 0) \<and>
   sl_arr_get (sl_arr_from [[1, 2], [3, 4]] 2 0) 1 2 = Inr 1 \<and> ar_data (sl_arr_from [[1, 2], [3, 4]] 2 0) ! 1 = [3, 4] \<and>
   (\<exists>a'. sl_arr_push (sl_arr_from [[1, 2], [3, 4]] 2 0) [5, 6] 2 = Inr a' \<and> elems a' = [[1, 2], [3, 4], [5, 6]])"
proof -
  let ?a = "sl_arr_from [[1, 2], [3, 4 :: byte]] 2 0"
  note f = from_ok [of "[[1, 2], [3, 4]]" 2 0]
  have inv: "arr_inv ?a" and el: "elems ?a = [[1, 2], [3, 4]]" and esz: "ar_esz ?a = 2"
    using f by (simp_all add: sl_arr_from_def Let_def)
  have v: "length [5, 6 :: byte] = ar_esz ?a" by (simp add: esz)
  show ?thesis using sl_arr_push_pop_get [OF inv v, of 1 2] inv unfolding el esz by (simp, blast)
qed

text \<open>Growing keeps what the list holds and its \<open>gc_clean\<close>, makes room for what was asked,
  and at most doubles: the new capacity is below twice the need unless it is the first eight.\<close>

theorem sl_arr_reserve_amortised:
  assumes "arr_inv a"
  shows "elems (sl_arr_reserve a n) = elems a \<and> arr_inv (sl_arr_reserve a n) \<and>
    n \<le> ar_cap (sl_arr_reserve a n) \<and> ar_gc_clean (sl_arr_reserve a n) = ar_gc_clean a \<and>
    ar_cap (sl_arr_reserve a n) \<le> max (ar_cap a) (max 8 (2 * n))"
proof -
  define c where "c = (if ar_cap a \<noteq> 0 then ar_cap a else 8)"
  have "grow_cap c n \<le> max 8 (2 * n)" if "\<not> n \<le> ar_cap a"
  proof (cases "c < n")
    case True
    then show ?thesis using grow_cap_less [of c n] by (auto simp: c_def split: if_splits)
  next
    case False
    then have "c = 8" using that by (auto simp: c_def split: if_splits)
    then show ?thesis using False by (subst grow_cap.simps) simp
  qed
  then have "ar_cap (sl_arr_reserve a n) \<le> max (ar_cap a) (max 8 (2 * n))"
    by (auto simp: sl_arr_reserve_def Let_def c_def)
  then show ?thesis using reserve_ok [OF assms, of n] by simp
qed

theorem sl_arr_reserve_amortised_witness:
  "arr_inv (sl_arr_new 1 2) \<and> ar_cap (sl_arr_reserve (sl_arr_new 1 2) 9) = 16 \<and>
   elems (sl_arr_reserve (sl_arr_new 1 2) 9) = []"
proof -
  have inv: "arr_inv (sl_arr_new 1 2)" by simp
  have "ar_cap (sl_arr_reserve (sl_arr_new 1 2) 9) = 16" by code_simp
  then show ?thesis using sl_arr_reserve_amortised [OF inv, of 9] inv by simp
qed

text \<open>A slice holds exactly the elements between its clamped bounds and a concatenation the
  elements of both lists, in fresh lists that satisfy the invariant; a list cut anywhere and put
  together again is the same sequence.\<close>

theorem sl_arr_slice_concat:
  assumes "arr_inv a"
  shows "arr_inv (sl_arr_slice a s e) \<and>
    elems (sl_arr_slice a s e) = nths (elems a) {i. s \<le> int i \<and> int i < e} \<and>
    (\<exists>r. sl_arr_concat (sl_arr_slice a 0 k) (sl_arr_slice a k (int (ar_len a))) = Inr r \<and>
         (0 \<le> k \<longrightarrow> elems r = elems a))"
proof -
  have sub: "\<forall>x\<in>set (take m (drop n (elems a))). length x = ar_esz a" for m n
    using set_elems [OF assms] by (auto dest: in_set_takeD in_set_dropD)
  have sl: "arr_inv (sl_arr_slice a s e)" "ar_esz (sl_arr_slice a s e) = ar_esz a"
    "elems (sl_arr_slice a s e) = take (nat (clamp_hi (int (ar_len a)) (clamp_lo s) e - clamp_lo s))
      (drop (nat (clamp_lo s)) (elems a))" for s e
    unfolding slice_ok [OF assms] by (rule from_ok [OF sub])+
  have nth: "elems (sl_arr_slice a s e) = nths (elems a) {i. s \<le> int i \<and> int i < e}" for s e
  proof -
    have "{i. s \<le> int i \<and> int i < e} = {i. nat s \<le> i \<and> i < nat e}" by auto
    then have "nths (elems a) {i. s \<le> int i \<and> int i < e} = take (nat e - nat s) (drop (nat s) (elems a))"
      by (simp add: nths_interval)
    also have "\<dots> = elems (sl_arr_slice a s e)"
      unfolding sl(3) using length_elems [OF assms]
      by (auto simp: clamp_lo_def clamp_hi_def Let_def nat_diff_distrib split: if_splits)
    finally show ?thesis by simp
  qed
  let ?x = "sl_arr_slice a 0 k" and ?y = "sl_arr_slice a k (int (ar_len a))"
  have esz: "ar_esz ?x = ar_esz ?y" by (simp add: sl(2))
  define r where "r = sl_arr_from (elems ?x @ elems ?y) (ar_esz ?x) (ar_elem_is_ptr ?x)"
  have cat: "sl_arr_concat ?x ?y = Inr r" unfolding r_def by (rule concat_ok [OF sl(1) sl(1) esz])
  have "\<forall>z\<in>set (elems ?x @ elems ?y). length z = ar_esz ?x"
    using set_elems [OF sl(1)] by (auto simp: sl(2))
  then have er: "elems r = elems ?x @ elems ?y" unfolding r_def by (rule from_ok)
  have "elems r = elems a" if "0 \<le> k"
    unfolding er sl(3) using that length_elems [OF assms]
    by (auto simp: clamp_lo_def clamp_hi_def Let_def nat_diff_distrib)
  then show ?thesis using sl(1) nth cat by blast
qed

theorem sl_arr_slice_concat_witness:
  "arr_inv (sl_arr_from [[1], [2], [3]] 1 2) \<and>
   elems (sl_arr_slice (sl_arr_from [[1], [2], [3]] 1 2) (- 5) 2) = [[1], [2]] \<and>
   (\<exists>r. sl_arr_concat (sl_arr_slice (sl_arr_from [[1], [2], [3]] 1 2) 0 1)
          (sl_arr_slice (sl_arr_from [[1], [2], [3]] 1 2) 1 3) = Inr r \<and> elems r = [[1], [2], [3]])"
proof -
  let ?a = "sl_arr_from [[1], [2], [3]] 1 2"
  have inv: "arr_inv ?a" and el: "elems ?a = [[1], [2], [3]]" by (rule from_ok; simp)+
  have len: "ar_len ?a = 3" by (simp add: sl_arr_from_def Let_def)
  have "{i. - 5 \<le> int i \<and> int i < 2} = {i. (0 :: nat) \<le> i \<and> i < 2}" by auto
  then have "nths (elems ?a) {i. - 5 \<le> int i \<and> int i < 2} = [[1], [2]]"
    by (simp only: el nths_interval) simp
  then show ?thesis
    using sl_arr_slice_concat [OF inv, of "- 5" 2 1] inv by (simp add: el len del: One_nat_def)
qed

text \<open>C25: the contract of \<open>gc_clean\<close> on lists. If no position below \<open>gc_clean\<close> holds a young
  object, that is still so after a \<open>push\<close> of anything and after a \<open>pop\<close>, and an old list that was
  pushed to is remembered. A minor collection that traces the list leaves it so again, for the
  objects that stay young after it, keeps the elements, and keeps the list remembered exactly
  when some element still holds such an object.\<close>

theorem sl_arr_gc_clean_contract:
  assumes "arr_inv a" and "length v = ar_esz a" and "arr_clean (gen0_at ms) a" and "data \<noteq> 0"
  shows "(\<exists>a'. sl_arr_push a v (ar_esz a) = Inr a' \<and> arr_clean (gen0_at ms) a' \<and>
      (gen a = 1 \<and> ar_elem_is_ptr a \<noteq> SL_ELEM_NOPTR \<longrightarrow> remembered a')) \<and>
    (\<forall>i a'. sl_arr_pop a (ar_esz a) = Inr (i, a') \<longrightarrow> arr_clean (gen0_at ms) a') \<and>
    (\<exists>keep a' ms'. sl_gc_trace_arr_minor sl_gc_mark_minor_into ms_gen0_seen data a ms = (keep, a', ms') \<and>
      arr_clean (gen0_at ms) a' \<and> elems a' = elems a \<and>
      (keep \<longleftrightarrow> list_ex (\<lambda>x. slot_young (gen0_at ms) x (ar_esz a) (ar_elem_is_ptr a)) (elems a)))"
proof -
  from push_ok [OF assms(1,2)] obtain a1 where a1: "sl_arr_push a v (ar_esz a) = Inr a1"
    "gen a = 1 \<longrightarrow> ar_elem_is_ptr a \<noteq> SL_ELEM_NOPTR \<longrightarrow> remembered a1" by blast
  obtain keep a2 ms' where tr:
    "sl_gc_trace_arr_minor sl_gc_mark_minor_into ms_gen0_seen data a ms = (keep, a2, ms')"
    by (cases "sl_gc_trace_arr_minor sl_gc_mark_minor_into ms_gen0_seen data a ms")
  show ?thesis
    using a1 push_clean [OF assms(1-3) a1(1)] pop_ok [OF assms(1)] assms(3)
      tr trace_minor_clean [OF assms(1,3,4) tr] by blast
qed

theorem sl_arr_gc_clean_contract_witness:
  "\<exists>a'. sl_arr_push ((sl_arr_from [replicate 8 1] 8 1)\<lparr>gen := 1\<rparr>) (replicate 8 2) 8 = Inr a' \<and>
     remembered a'"
proof -
  let ?a = "(sl_arr_from [replicate 8 1] 8 1)\<lparr>gen := 1\<rparr>"
  let ?ms = "\<lparr>ms_gen = \<lambda>_. None, ms_marked = \<lambda>_. False, ms_wl = [], ms_gen0_seen = 0\<rparr> :: sl_gc_marker"
  note f = from_ok [of "[replicate 8 1]" 8 1]
  have inv: "arr_inv ?a" using f(1) by (simp add: arr_inv_def)
  have "arr_clean (gen0_at ?ms) ?a" using f(3) by (simp add: arr_clean_def)
  moreover have esz: "ar_esz ?a = 8" "ar_elem_is_ptr ?a = 1"
    using f(4) by (simp_all add: sl_arr_from_def Let_def)
  ultimately show ?thesis
    using sl_arr_gc_clean_contract [OF inv, of "replicate 8 2" ?ms 1] by (auto simp: SL_ELEM_NOPTR_def)
qed

end
