(* ===== verification/Sl_Map.thy ===== *)
theory Sl_Map
  imports Sl_Gc_Obj
begin

text \<open>
  \<open>map[K]V\<close>, \<open>runtime/sl_containers.c\<close>: the open-addressing hash table with linear probing,
  an order array that keeps insertion order, growth at three quarters load, and deletion by
  backward shift. A key is the list of its bytes: the \<open>ksz\<close> bytes of the slot, or, when
  \<open>kstr\<close> is set, the bytes of the string the slot points to; \<open>memcmp\<close> and \<open>strcmp\<close> are both
  equality of these lists. A value is its \<open>vsz\<close> bytes. The order array is its first \<open>count\<close>
  entries. Sizes are natural numbers: allocation does not fail and \<open>cap\<close> does not reach the
  end of \<open>long long\<close>.

  The probe and the backward shift are loops that end at an empty slot. Their fuel is the
  capacity: a loop that has seen every slot without an empty one would go round for ever, which
  is the value \<open>None\<close>. The properties show that no operation returns \<open>None\<close>.
\<close>

section \<open>The table and its operations\<close>

type_synonym sl_key = sl_bytes

record sl_map = sl_gc_obj +
  m_count :: nat
  m_cap :: nat
  m_ksz :: nat
  m_vsz :: nat
  m_kstr :: bool
  m_key_is_ptr :: nat
  m_val_is_ptr :: nat
  m_gc_clean :: nat
  m_keys :: "sl_key list"
  m_vals :: "sl_bytes list"
  m_state :: "bool list"
  m_order :: "nat list"

definition sl_hash_bytes :: "sl_bytes \<Rightarrow> u64" where
  "sl_hash_bytes p = fold (\<lambda>b h. (h XOR ucast b) * 1099511628211) p 1469598103934665603"

definition sl_hash_str :: "string \<Rightarrow> u64" where
  "sl_hash_str s = fold (\<lambda>c h. (h XOR ucast (uc c)) * 1099511628211) s 1469598103934665603"

text \<open>The hash every operation computes first.\<close>

definition map_hash :: "sl_map \<Rightarrow> sl_key \<Rightarrow> u64" where
  "map_hash m k = (if m_kstr m then sl_hash_str (map ch k) else sl_hash_bytes k)"

definition sl_map_new :: "nat \<Rightarrow> nat \<Rightarrow> bool \<Rightarrow> nat \<Rightarrow> nat \<Rightarrow> sl_map" where
  "sl_map_new ksz vsz kstr kp vp =
     \<lparr>gen = 0, remembered = False, m_count = 0, m_cap = 8, m_ksz = ksz, m_vsz = vsz,
      m_kstr = kstr, m_key_is_ptr = kp, m_val_is_ptr = vp, m_gc_clean = 0, m_keys = replicate 8 (replicate ksz 0),
      m_vals = replicate 8 (replicate vsz 0), m_state = replicate 8 False, m_order = []\<rparr>"

fun probe_loop :: "nat \<Rightarrow> sl_map \<Rightarrow> sl_key \<Rightarrow> nat \<Rightarrow> int option" where
  "probe_loop 0 m k i = None"
| "probe_loop (Suc fuel) m k i =
     (if \<not> m_state m ! i then Some (- int i - 1)
      else if m_keys m ! i = k then Some (int i)
      else probe_loop fuel m k ((i + 1) AND (m_cap m - 1)))"

definition sl_map_probe :: "sl_map \<Rightarrow> sl_key \<Rightarrow> u64 \<Rightarrow> int option" where
  "sl_map_probe m k h = probe_loop (m_cap m) m k (unat h AND (m_cap m - 1))"

text \<open>
  Storing a new entry in an empty slot, as \<open>sl_map_put\<close> and the reinsertion loop of
  \<open>sl_map_grow\<close> do: the two copies, the state byte, the order entry and the count.
\<close>

definition map_store :: "sl_map \<Rightarrow> nat \<Rightarrow> sl_key \<Rightarrow> sl_bytes \<Rightarrow> sl_map" where
  "map_store m s k v =
     m\<lparr>m_keys := (m_keys m)[s := k], m_vals := (m_vals m)[s := v],
       m_state := (m_state m)[s := True], m_order := m_order m @ [s], m_count := m_count m + 1\<rparr>"

text \<open>
  The reinsertion loop over the old order array. A probe that finds the key (it cannot, the
  keys of a table are distinct) would give a negative slot and an out-of-bounds write.
\<close>

fun grow_loop :: "nat list \<Rightarrow> sl_key list \<Rightarrow> sl_bytes list \<Rightarrow> sl_map \<Rightarrow> sl_map option" where
  "grow_loop [] ok ov m = Some m"
| "grow_loop (slot # rest) ok ov m =
     (let k = ok ! slot; v = ov ! slot in
      case sl_map_probe m k (map_hash m k) of
        None \<Rightarrow> None
      | Some p \<Rightarrow>
          if p \<ge> 0 then None
          else grow_loop rest ok ov (map_store m (nat (- p - 1)) k v))"

definition sl_map_grow :: "sl_map \<Rightarrow> sl_map option" where
  "sl_map_grow m =
     (let m0 = sl_gc_remember_obj m;
          cap = m_cap m * 2
      in grow_loop (take (m_count m) (m_order m)) (m_keys m) (m_vals m)
           (m0\<lparr>m_cap := cap, m_count := 0,
               m_keys := replicate cap (replicate (m_ksz m) 0),
               m_vals := replicate cap (replicate (m_vsz m) 0),
               m_state := replicate cap False, m_order := []\<rparr>))"

text \<open>The part of \<open>sl_map_put\<close> after the growth check: update in place, or store at the end.\<close>

definition map_put_at :: "sl_map \<Rightarrow> sl_key \<Rightarrow> sl_bytes \<Rightarrow> u64 \<Rightarrow> sl_map option" where
  "map_put_at m k v h =
     (case sl_map_probe m k h of
        None \<Rightarrow> None
      | Some s \<Rightarrow>
          if s \<ge> 0
          then Some (sl_gc_remember_obj
                 (m\<lparr>m_vals := (m_vals m)[nat s := v], m_gc_clean := 0\<rparr>))
          else
            (let gc = (if m_count m < m_gc_clean m then m_count m else m_gc_clean m) in
             Some (sl_gc_remember_obj
               (map_store (m\<lparr>m_gc_clean := gc\<rparr>) (nat (- s - 1)) k v))))"

definition sl_map_put :: "sl_map \<Rightarrow> sl_key \<Rightarrow> sl_bytes \<Rightarrow> sl_map option" where
  "sl_map_put m k v =
     (let h = map_hash m k in
      case (if (m_count m + 1) * 4 \<ge> m_cap m * 3 then sl_map_grow m else Some m) of
        None \<Rightarrow> None
      | Some m \<Rightarrow> map_put_at m k v h)"

text \<open>The outer option is termination, the inner one the \<open>NULL\<close> of a missing key.\<close>

definition sl_map_get :: "sl_map \<Rightarrow> sl_key \<Rightarrow> sl_bytes option option" where
  "sl_map_get m k =
     (case sl_map_probe m k (map_hash m k) of
        None \<Rightarrow> None
      | Some s \<Rightarrow> if s < 0 then Some None else Some (Some (m_vals m ! nat s)))"

definition sl_map_has :: "sl_map \<Rightarrow> sl_key \<Rightarrow> bool option" where
  "sl_map_has m k = map_option (\<lambda>r. r \<noteq> None) (sl_map_get m k)"

definition sl_map_home :: "sl_map \<Rightarrow> sl_key \<Rightarrow> nat" where
  "sl_map_home m k = unat (map_hash m k) AND (m_cap m - 1)"

text \<open>The first order entry naming \<open>slot\<close> now names \<open>to\<close>.\<close>

fun order_move :: "nat list \<Rightarrow> nat \<Rightarrow> nat \<Rightarrow> nat list" where
  "order_move [] slot to = []"
| "order_move (x # xs) slot to = (if x = slot then to # xs else x # order_move xs slot to)"

definition sl_map_order_move :: "sl_map \<Rightarrow> nat \<Rightarrow> nat \<Rightarrow> sl_map" where
  "sl_map_order_move m slot to = m\<lparr>m_order := order_move (m_order m) slot to\<rparr>"

definition del_stays :: "nat \<Rightarrow> nat \<Rightarrow> nat \<Rightarrow> bool" where
  "del_stays hole j home \<longleftrightarrow>
     (if hole \<le> j then hole < home \<and> home \<le> j else hole < home \<or> home \<le> j)"

text \<open>The backward shift from \<open>hole\<close>; the result clears the last hole's state.\<close>

fun del_loop :: "nat \<Rightarrow> sl_map \<Rightarrow> nat \<Rightarrow> nat \<Rightarrow> sl_map option" where
  "del_loop 0 m hole j = None"
| "del_loop (Suc fuel) m hole j =
     (let j = (j + 1) AND (m_cap m - 1) in
      if \<not> m_state m ! j then Some (m\<lparr>m_state := (m_state m)[hole := False]\<rparr>)
      else
        (let home = sl_map_home m (m_keys m ! j) in
         if del_stays hole j home then del_loop fuel m hole j
         else
           del_loop fuel
             (sl_map_order_move
               (m\<lparr>m_keys := (m_keys m)[hole := m_keys m ! j],
                  m_vals := (m_vals m)[hole := m_vals m ! j],
                  m_state := (m_state m)[hole := True]\<rparr>) j hole)
             j j))"

text \<open>The order position of a slot: the index of its first entry.\<close>

fun order_pos :: "nat list \<Rightarrow> nat \<Rightarrow> nat" where
  "order_pos [] s = 0"
| "order_pos (x # xs) s = (if x = s then 0 else Suc (order_pos xs s))"

definition sl_map_del :: "sl_map \<Rightarrow> sl_key \<Rightarrow> sl_map option" where
  "sl_map_del m k =
     (case sl_map_probe m k (map_hash m k) of
        None \<Rightarrow> None
      | Some s \<Rightarrow>
          if s < 0 then Some m
          else
            (let s = nat s; i = order_pos (m_order m) s;
                 m = (if i < m_count m
                      then m\<lparr>m_order := take i (m_order m) @ drop (Suc i) (m_order m),
                             m_gc_clean := (if i < m_gc_clean m then i else m_gc_clean m)\<rparr>
                      else m);
                 m = m\<lparr>m_count := m_count m - 1\<rparr>
             in del_loop (m_cap m) m s s))"


section \<open>The table invariant\<close>

text \<open>Slot \<open>i\<close> is reached from slot \<open>h\<close> over occupied slots only.\<close>

definition reach :: "bool list \<Rightarrow> nat \<Rightarrow> nat \<Rightarrow> nat \<Rightarrow> bool" where
  "reach st c h i \<longleftrightarrow> (\<forall>d < dist c h i. st ! ((h + d) mod c))"

definition live :: "sl_map \<Rightarrow> nat \<Rightarrow> bool" where
  "live m i \<longleftrightarrow> i < m_cap m \<and> m_state m ! i"

definition map_shape :: "sl_map \<Rightarrow> bool" where
  "map_shape m \<longleftrightarrow> (\<exists>n. m_cap m = 2 ^ n) \<and> length (m_keys m) = m_cap m \<and>
     length (m_vals m) = m_cap m \<and> length (m_state m) = m_cap m"

text \<open>
  The order array names every occupied slot once; keys are distinct; every key is reachable
  from its home slot.
\<close>

definition tab_inv :: "sl_map \<Rightarrow> bool" where
  "tab_inv m \<longleftrightarrow> map_shape m \<and> m_count m = length (m_order m) \<and> distinct (m_order m) \<and>
     set (m_order m) = Collect (live m) \<and>
     (\<forall>i j. live m i \<longrightarrow> live m j \<longrightarrow> m_keys m ! i = m_keys m ! j \<longrightarrow> i = j) \<and>
     (\<forall>i. live m i \<longrightarrow> reach (m_state m) (m_cap m) (sl_map_home m (m_keys m ! i)) i)"

text \<open>The invariant of a map between operations: at least one quarter of the slots is empty.\<close>

definition map_inv :: "sl_map \<Rightarrow> bool" where
  "map_inv m \<longleftrightarrow> tab_inv m \<and> 8 \<le> m_cap m \<and> m_count m * 4 < m_cap m * 3"

text \<open>What the table holds: its entries in insertion order.\<close>

definition entries :: "sl_map \<Rightarrow> (sl_key \<times> sl_bytes) list" where
  "entries m = map (\<lambda>s. (m_keys m ! s, m_vals m ! s)) (m_order m)"

lemma home_mod: "map_shape m \<Longrightarrow> sl_map_home m k = unat (map_hash m k) mod m_cap m"
  by (auto simp: map_shape_def sl_map_home_def and_mask_mod [simplified])

lemma shape_cap_pos: "map_shape m \<Longrightarrow> 0 < m_cap m"
  by (auto simp: map_shape_def)

lemma home_less: "map_shape m \<Longrightarrow> sl_map_home m k < m_cap m"
  by (simp add: home_mod shape_cap_pos)

lemma next_slot: "map_shape m \<Longrightarrow> (i + 1) AND (m_cap m - 1) = (i + 1) mod m_cap m"
  by (auto simp: map_shape_def and_mask_mod [simplified])

lemma tab_invD:
  assumes "tab_inv m"
  shows tab_shape: "map_shape m"
    and tab_count: "m_count m = length (m_order m)"
    and tab_distinct: "distinct (m_order m)"
    and tab_order: "set (m_order m) = Collect (live m)"
    and tab_inj: "live m i \<Longrightarrow> live m j \<Longrightarrow> m_keys m ! i = m_keys m ! j \<Longrightarrow> i = j"
    and tab_reach: "live m i \<Longrightarrow>
      reach (m_state m) (m_cap m) (sl_map_home m (m_keys m ! i)) i"
  using assms by (auto simp: tab_inv_def)

lemma key_in_entries: "tab_inv m \<Longrightarrow> k \<in> fst ` set (entries m) \<longleftrightarrow> (\<exists>i. live m i \<and> m_keys m ! i = k)"
  by (auto simp: entries_def tab_order image_iff)

lemma distinct_entries: "tab_inv m \<Longrightarrow> distinct (map fst (entries m))"
  by (auto simp: entries_def distinct_map o_def tab_distinct tab_order inj_on_def intro: tab_inj)

lemma map_of_entries:
  assumes "tab_inv m" and "live m i"
  shows "map_of (entries m) (m_keys m ! i) = Some (m_vals m ! i)"
proof -
  have "(m_keys m ! i, m_vals m ! i) \<in> set (entries m)"
    using assms by (auto simp: entries_def tab_order)
  then show ?thesis using distinct_entries [OF assms(1)] by simp
qed

lemma card_live: "tab_inv m \<Longrightarrow> card (Collect (live m)) = m_count m"
  by (metis distinct_card tab_count tab_distinct tab_order)

lemma empty_slot_exists:
  assumes "tab_inv m" and "m_count m < m_cap m"
  shows "\<exists>e < m_cap m. \<not> m_state m ! e"
proof (rule ccontr)
  assume "\<not> ?thesis"
  then have "Collect (live m) = {..<m_cap m}" by (auto simp: live_def)
  then show False using card_live [OF assms(1)] assms(2) by simp
qed

section \<open>Probing\<close>

lemma probe_skip:
  assumes "map_shape m" and "i < m_cap m" and "n \<le> fuel"
    and "\<And>d. d < n \<Longrightarrow> m_state m ! ((i + d) mod m_cap m) \<and> m_keys m ! ((i + d) mod m_cap m) \<noteq> k"
  shows "probe_loop fuel m k i = probe_loop (fuel - n) m k ((i + n) mod m_cap m)"
  using assms(3,4)
proof (induction n)
  case 0
  then show ?case using assms(2) by simp
next
  case (Suc n)
  then obtain f where f: "fuel - n = Suc f" by (cases "fuel - n") auto
  have "probe_loop fuel m k i = probe_loop (fuel - n) m k ((i + n) mod m_cap m)"
    using Suc by simp
  also have "\<dots> = probe_loop f m k (((i + n) mod m_cap m + 1) mod m_cap m)"
    using Suc.prems(2) [of n] f by (simp add: next_slot [OF assms(1), simplified])
  also have "((i + n) mod m_cap m + 1) mod m_cap m = (i + Suc n) mod m_cap m"
    by (simp add: mod_simps)
  finally show ?case using f by (metis Suc_diff_Suc Suc_le_lessD Suc.prems(1) diff_Suc_Suc old.nat.inject)
qed

lemma probe_found:
  assumes "tab_inv m" and "live m i" and "m_keys m ! i = k"
  shows "sl_map_probe m k (map_hash m k) = Some (int i)"
proof -
  let ?h = "sl_map_home m k" and ?c = "m_cap m"
  let ?d = "dist ?c ?h i"
  have h: "?h < ?c" and i: "i < ?c"
    using assms tab_shape home_less by (auto simp: live_def)
  have d: "?d < ?c" using i by (intro dist_less) simp
  have "m_state m ! ((?h + d') mod ?c) \<and> m_keys m ! ((?h + d') mod ?c) \<noteq> k" if "d' < ?d" for d'
  proof
    show st: "m_state m ! ((?h + d') mod ?c)"
      using tab_reach [OF assms(1,2)] that assms(3) by (simp add: reach_def)
    show "m_keys m ! ((?h + d') mod ?c) \<noteq> k"
    proof
      assume "m_keys m ! ((?h + d') mod ?c) = k"
      then have "(?h + d') mod ?c = i"
        using st assms i by (intro tab_inj [OF assms(1)]) (auto simp: live_def)
      then show False using ring_inj [OF h _ d, of d'] that d add_dist [OF h i] by simp
    qed
  qed
  then have "probe_loop ?c m k ?h = probe_loop (?c - ?d) m k ((?h + ?d) mod ?c)"
    using d by (intro probe_skip tab_shape [OF assms(1)] h) auto
  also have "(?h + ?d) mod ?c = i" by (rule add_dist [OF h i])
  also have "probe_loop (?c - ?d) m k i = Some (int i)"
    using d assms(2,3) by (cases "?c - ?d") (auto simp: live_def)
  finally show ?thesis by (simp add: sl_map_probe_def sl_map_home_def)
qed

lemma probe_absent:
  assumes "tab_inv m" and "m_count m < m_cap m" and "k \<notin> fst ` set (entries m)"
  obtains s where "s < m_cap m" and "\<not> m_state m ! s"
    and "reach (m_state m) (m_cap m) (sl_map_home m k) s"
    and "sl_map_probe m k (map_hash m k) = Some (- int s - 1)"
proof -
  let ?h = "sl_map_home m k" and ?c = "m_cap m"
  have h: "?h < ?c" by (rule home_less [OF tab_shape [OF assms(1)]])
  let ?P = "\<lambda>d. \<not> m_state m ! ((?h + d) mod ?c)"
  from empty_slot_exists [OF assms(1,2)] obtain e where e: "e < ?c" "\<not> m_state m ! e" by blast
  define d where "d = (LEAST d. ?P d)"
  have Pe: "?P (dist ?c ?h e)" using e h by (simp add: add_dist)
  have d: "?P d" unfolding d_def using Pe by (rule LeastI)
  have dc: "d < ?c"
    using Least_le [of ?P, OF Pe] dist_less [of ?c ?h e] h by (auto simp: d_def)
  have before: "m_state m ! ((?h + d') mod ?c)" if "d' < d" for d'
    using that not_less_Least unfolding d_def by blast
  let ?s = "(?h + d) mod ?c"
  have s: "?s < ?c" using h by simp
  have "m_keys m ! ((?h + d') mod ?c) \<noteq> k" if "d' < d" for d'
    using before [OF that] assms(3) key_in_entries [OF assms(1)] h by (auto simp: live_def)
  then have "probe_loop ?c m k ?h = probe_loop (?c - d) m k ?s"
    using dc before by (intro probe_skip tab_shape [OF assms(1)] h) auto
  also have "\<dots> = Some (- int ?s - 1)" using d dc by (cases "?c - d") auto
  finally have "sl_map_probe m k (map_hash m k) = Some (- int ?s - 1)"
    by (simp add: sl_map_probe_def sl_map_home_def)
  moreover have "reach (m_state m) ?c ?h ?s"
    using before dc h by (simp add: reach_def dist_add)
  ultimately show thesis using that s d by blast
qed


section \<open>Storing and growing\<close>

lemma map_hash_cong: "m_kstr m = m_kstr m' \<Longrightarrow> map_hash m k = map_hash m' k"
  by (simp add: map_hash_def)

lemma home_cong: "m_kstr m = m_kstr m' \<Longrightarrow> m_cap m = m_cap m' \<Longrightarrow> sl_map_home m k = sl_map_home m' k"
  by (simp add: sl_map_home_def map_hash_def)

lemma map_store_fields [simp]:
  "m_cap (map_store m s k v) = m_cap m" "m_kstr (map_store m s k v) = m_kstr m"
  "m_keys (map_store m s k v) = (m_keys m)[s := k]" "m_vals (map_store m s k v) = (m_vals m)[s := v]"
  "m_state (map_store m s k v) = (m_state m)[s := True]"
  "m_order (map_store m s k v) = m_order m @ [s]" "m_count (map_store m s k v) = m_count m + 1"
  "m_gc_clean (map_store m s k v) = m_gc_clean m"
  by (simp_all add: map_store_def)

lemma remember_fields [simp]:
  "m_cap (sl_gc_remember_obj m) = m_cap m" "m_kstr (sl_gc_remember_obj m) = m_kstr m"
  "m_keys (sl_gc_remember_obj m) = m_keys m" "m_vals (sl_gc_remember_obj m) = m_vals m"
  "m_state (sl_gc_remember_obj m) = m_state m" "m_order (sl_gc_remember_obj m) = m_order m"
  "m_count (sl_gc_remember_obj m) = m_count m" "m_gc_clean (sl_gc_remember_obj m) = m_gc_clean m"
  by (simp_all add: sl_gc_remember_obj_def)

lemma live_cong: "m_cap m = m_cap m' \<Longrightarrow> m_state m = m_state m' \<Longrightarrow> live m i = live m' i"
  by (simp add: live_def)

text \<open>The invariant and the entries depend on the table fields only.\<close>

lemma tab_inv_cong:
  assumes "m_cap m = m_cap m'" "m_kstr m = m_kstr m'" "m_keys m = m_keys m'"
    "length (m_vals m) = length (m_vals m')" "m_state m = m_state m'" "m_order m = m_order m'"
    "m_count m = m_count m'"
  shows "tab_inv m = tab_inv m'"
proof -
  have "live m = live m'" by (rule ext) (rule live_cong [OF assms(1,5)])
  then show ?thesis
    using assms home_cong [OF assms(2,1)] by (simp add: tab_inv_def map_shape_def)
qed

lemma entries_cong:
  "m_keys m = m_keys m' \<Longrightarrow> m_vals m = m_vals m' \<Longrightarrow> m_order m = m_order m' \<Longrightarrow>
     entries m = entries m'"
  by (simp add: entries_def)

lemma tab_inv_remember [simp]: "tab_inv (sl_gc_remember_obj m) = tab_inv m"
  by (rule tab_inv_cong) simp_all

lemma entries_remember [simp]: "entries (sl_gc_remember_obj m) = entries m"
  by (rule entries_cong) simp_all

lemma live_store:
  assumes "map_shape m" and "s < m_cap m"
  shows "live (map_store m s k v) i \<longleftrightarrow> live m i \<or> i = s"
  using assms by (auto simp: live_def map_shape_def nth_list_update)

lemma update_True: "st ! x \<Longrightarrow> (st[s := True]) ! x"
  by (metis list_update_beyond not_le nth_list_update_eq nth_list_update_neq)

lemma reach_store: "reach st c h i \<Longrightarrow> reach (st[s := True]) c h i"
  by (simp add: reach_def update_True)

lemma entries_store:
  assumes "tab_inv m" and "s < m_cap m" and "\<not> m_state m ! s"
  shows "entries (map_store m s k v) = entries m @ [(k, v)]"
proof -
  have "s \<notin> set (m_order m)" using tab_order [OF assms(1)] assms(3) by (auto simp: live_def)
  moreover have "length (m_keys m) = m_cap m" "length (m_vals m) = m_cap m"
    using tab_shape [OF assms(1)] by (auto simp: map_shape_def)
  ultimately show ?thesis
    using assms(2) by (auto simp: entries_def nth_list_update)
qed

lemma tab_inv_store:
  assumes inv: "tab_inv m" and s: "s < m_cap m" and empty: "\<not> m_state m ! s"
    and new: "k \<notin> fst ` set (entries m)"
    and reach: "reach (m_state m) (m_cap m) (sl_map_home m k) s"
  shows "tab_inv (map_store m s k v)"
proof -
  let ?m = "map_store m s k v"
  note shape = tab_shape [OF inv]
  have live: "live ?m i \<longleftrightarrow> live m i \<or> i = s" for i by (rule live_store [OF shape s])
  have home: "sl_map_home ?m x = sl_map_home m x" for x by (rule home_cong) simp_all
  have len: "length (m_keys m) = m_cap m" using shape by (simp add: map_shape_def)
  have ns: "i \<noteq> s" if "live m i" for i using that empty by (auto simp: live_def)
  have nk: "m_keys m ! i \<noteq> k" if "live m i" for i
    using that new key_in_entries [OF inv] by blast
  have "i = j" if "live ?m i" "live ?m j" "m_keys ?m ! i = m_keys ?m ! j" for i j
    using that tab_inj [OF inv] ns nk s len by (auto simp: live nth_list_update split: if_splits)
  moreover have "reach (m_state ?m) (m_cap ?m) (sl_map_home ?m (m_keys ?m ! i)) i" if "live ?m i" for i
    using that tab_reach [OF inv] ns reach s len reach_store
    by (auto simp: live home nth_list_update)
  moreover have "map_shape ?m" using shape by (auto simp: map_shape_def)
  moreover have "set (m_order ?m) = Collect (live ?m)" "distinct (m_order ?m)"
    using tab_order [OF inv] tab_distinct [OF inv] ns by (auto simp: live)
  ultimately show ?thesis using tab_count [OF inv] by (simp add: tab_inv_def)
qed

text \<open>A probe for a new key followed by a store is an append to the entries.\<close>

lemma probe_store:
  assumes "tab_inv m" and "m_count m < m_cap m" and "k \<notin> fst ` set (entries m)"
  obtains s where "s < m_cap m" and "\<not> m_state m ! s"
    and "sl_map_probe m k (map_hash m k) = Some (- int s - 1)"
    and "tab_inv (map_store m s k v)" and "entries (map_store m s k v) = entries m @ [(k, v)]"
proof -
  from probe_absent [OF assms] obtain s where s: "s < m_cap m" "\<not> m_state m ! s"
    "reach (m_state m) (m_cap m) (sl_map_home m k) s"
    "sl_map_probe m k (map_hash m k) = Some (- int s - 1)" .
  then show thesis
    using that tab_inv_store [OF assms(1) s(1,2) assms(3) s(3)] entries_store [OF assms(1) s(1,2)]
    by blast
qed

lemma grow_loop_ok:
  assumes "tab_inv m" and "m_count m + length slots < m_cap m"
    and "distinct (map (\<lambda>s. ok ! s) slots)"
    and "\<And>s. s \<in> set slots \<Longrightarrow> ok ! s \<notin> fst ` set (entries m)"
  shows "\<exists>m'. grow_loop slots ok ov m = Some m' \<and> tab_inv m' \<and> m_cap m' = m_cap m \<and>
    m_kstr m' = m_kstr m \<and> m_gc_clean m' = m_gc_clean m \<and> m_count m' = m_count m + length slots \<and>
    entries m' = entries m @ map (\<lambda>s. (ok ! s, ov ! s)) slots"
  using assms
proof (induction slots arbitrary: m)
  case (Cons slot slots)
  let ?k = "ok ! slot" and ?v = "ov ! slot"
  have "m_count m < m_cap m" using Cons.prems(2) by simp
  with Cons.prems(1) obtain s where s: "sl_map_probe m ?k (map_hash m ?k) = Some (- int s - 1)"
    "tab_inv (map_store m s ?k ?v)" "entries (map_store m s ?k ?v) = entries m @ [(?k, ?v)]"
    using Cons.prems(4) [of slot] by (metis list.set_intros(1) probe_store)
  have "nat (- (- int s - 1) - 1) = s" "- int s - 1 < 0" by simp_all
  then have step: "grow_loop (slot # slots) ok ov m = grow_loop slots ok ov (map_store m s ?k ?v)"
    using s(1) by (simp add: Let_def)
  have ne: "ok ! s' \<noteq> ?k" if "s' \<in> set slots" for s'
    using Cons.prems(3) that by (simp add: image_iff) metis
  have "\<exists>m'. grow_loop slots ok ov (map_store m s ?k ?v) = Some m' \<and> tab_inv m' \<and>
      m_cap m' = m_cap m \<and> m_kstr m' = m_kstr m \<and> m_gc_clean m' = m_gc_clean m \<and>
      m_count m' = m_count m + 1 + length slots \<and>
      entries m' = entries m @ [(?k, ?v)] @ map (\<lambda>s. (ok ! s, ov ! s)) slots"
    using Cons.IH [OF s(2)] Cons.prems(2-4) s(3) ne by (auto simp: image_iff)
  then show ?case unfolding step by simp
qed simp

lemma grow_ok:
  assumes "map_inv m"
  shows "\<exists>m'. sl_map_grow m = Some m' \<and> map_inv m' \<and> m_cap m' = m_cap m * 2 \<and>
    m_kstr m' = m_kstr m \<and> m_count m' = m_count m \<and> m_gc_clean m' = m_gc_clean m \<and>
    entries m' = entries m"
proof -
  have inv: "tab_inv m" and c: "8 \<le> m_cap m" and l: "m_count m * 4 < m_cap m * 3"
    using assms by (auto simp: map_inv_def)
  define m0 where "m0 = (sl_gc_remember_obj m)\<lparr>m_cap := m_cap m * 2, m_count := 0,
      m_keys := replicate (m_cap m * 2) (replicate (m_ksz m) 0),
      m_vals := replicate (m_cap m * 2) (replicate (m_vsz m) 0),
      m_state := replicate (m_cap m * 2) False, m_order := []\<rparr>"
  obtain n where "m_cap m = 2 ^ n" using tab_shape [OF inv] by (auto simp: map_shape_def)
  then have "map_shape m0" by (auto simp: map_shape_def m0_def intro!: exI [of _ "Suc n"])
  then have inv0: "tab_inv m0" by (auto simp: tab_inv_def m0_def live_def)
  have e0: "entries m0 = []" by (simp add: entries_def m0_def)
  have keys: "map (\<lambda>s. m_keys m ! s) (m_order m) = map fst (entries m)"
    by (simp add: entries_def o_def)
  have "m_count m0 + length (m_order m) < m_cap m0"
    using c l tab_count [OF inv] by (simp add: m0_def)
  moreover have "distinct (map (\<lambda>s. m_keys m ! s) (m_order m))"
    using distinct_entries [OF inv] keys by simp
  ultimately obtain m' where m': "grow_loop (m_order m) (m_keys m) (m_vals m) m0 = Some m'"
    "tab_inv m'" "m_cap m' = m_cap m0" "m_kstr m' = m_kstr m0" "m_gc_clean m' = m_gc_clean m0"
    "m_count m' = m_count m0 + length (m_order m)"
    "entries m' = entries m0 @ map (\<lambda>s. (m_keys m ! s, m_vals m ! s)) (m_order m)"
    using grow_loop_ok [OF inv0, of "m_order m" "m_keys m" "m_vals m"] e0 by auto
  have "sl_map_grow m = Some m'"
    using m'(1) tab_count [OF inv] by (simp add: sl_map_grow_def Let_def m0_def)
  moreover have "m_cap m' = m_cap m * 2" "m_kstr m' = m_kstr m" "m_count m' = m_count m"
    "m_gc_clean m' = m_gc_clean m"
    using m'(3-6) tab_count [OF inv] by (simp_all add: m0_def)
  moreover have "entries m' = entries m" using m'(7) e0 by (simp add: entries_def)
  ultimately show ?thesis using m'(2) c l by (simp add: map_inv_def)
qed


section \<open>Lookup and update\<close>

lemma get_ok:
  assumes "tab_inv m" and "m_count m < m_cap m"
  shows "sl_map_get m k = Some (map_of (entries m) k)"
proof (cases "k \<in> fst ` set (entries m)")
  case True
  then obtain i where i: "live m i" "m_keys m ! i = k" using key_in_entries [OF assms(1)] by blast
  show ?thesis
    using probe_found [OF assms(1) i] map_of_entries [OF assms(1) i(1)] i(2)
    by (simp add: sl_map_get_def)
next
  case False
  with probe_absent [OF assms] obtain s where
    "sl_map_probe m k (map_hash m k) = Some (- int s - 1)" by blast
  moreover have "map_of (entries m) k = None" using False by (simp add: map_of_eq_None_iff)
  ultimately show ?thesis by (simp add: sl_map_get_def)
qed

text \<open>The specification: updating a key keeps its place, a new key goes to the end.\<close>

definition upd_entries :: "'k \<Rightarrow> 'v \<Rightarrow> ('k \<times> 'v) list \<Rightarrow> ('k \<times> 'v) list" where
  "upd_entries k v es =
     (if k \<in> fst ` set es then map (\<lambda>(k', v'). (k', if k' = k then v else v')) es
      else es @ [(k, v)])"

lemma map_of_replace:
  "map_of (map (\<lambda>(k', v'). (k', if k' = k then v else v')) es) x =
     (if x = k \<and> k \<in> fst ` set es then Some v else map_of es x)"
proof (induction es)
  case (Cons e es)
  obtain a b where "e = (a, b)" by (cases e)
  with Cons show ?case by (cases "x = k"; cases "a = k"; cases "x = a"; simp)
qed simp

lemma map_of_upd_entries: "map_of (upd_entries k v es) = (map_of es)(k \<mapsto> v)"
proof (rule ext)
  fix x
  show "map_of (upd_entries k v es) x = ((map_of es)(k \<mapsto> v)) x"
  proof (cases "k \<in> fst ` set es")
    case True
    then show ?thesis by (simp add: upd_entries_def map_of_replace)
  next
    case False
    then have "map_of es k = None" by (simp add: map_of_eq_None_iff)
    with False show ?thesis
      by (auto simp: upd_entries_def map_add_def split: option.split)
  qed
qed

lemma put_found:
  fixes v :: sl_bytes
  assumes "tab_inv m" and "live m i" and "m_keys m ! i = k"
  defines "m' \<equiv> m\<lparr>m_vals := (m_vals m)[i := v], m_gc_clean := 0\<rparr>"
  shows "tab_inv m'" and "entries m' = upd_entries k v (entries m)"
proof -
  show "tab_inv m'" using assms(1) tab_inv_cong [of m' m] by (simp add: m'_def)
  have i: "i < length (m_vals m)"
    using assms(1,2) tab_shape by (auto simp: live_def map_shape_def)
  have "(m_vals m)[i := v] ! s = (if m_keys m ! s = k then v else m_vals m ! s)"
    if "s \<in> set (m_order m)" for s
  proof -
    have "live m s" using that tab_order [OF assms(1)] by simp
    then have "m_keys m ! s = k \<longleftrightarrow> s = i"
      using tab_inj [OF assms(1) \<open>live m s\<close> assms(2)] assms(3) by metis
    then show ?thesis using i by (cases "s = i") simp_all
  qed
  moreover have "k \<in> fst ` set (entries m)"
    using assms(2,3) key_in_entries [OF assms(1)] by blast
  ultimately show "entries m' = upd_entries k v (entries m)"
    by (simp add: upd_entries_def entries_def m'_def)
qed

lemma put_ready:
  assumes "tab_inv m" and "8 \<le> m_cap m" and "(m_count m + 1) * 4 < m_cap m * 3"
    and "h = map_hash m k"
  shows "\<exists>m'. map_put_at m k v h = Some m' \<and> map_inv m' \<and>
     entries m' = upd_entries k v (entries m) \<and>
     m_gc_clean m' = (if k \<in> fst ` set (entries m) then 0 else min (m_count m) (m_gc_clean m))"
proof (cases "k \<in> fst ` set (entries m)")
  case True
  then obtain i where i: "live m i" "m_keys m ! i = k" using key_in_entries [OF assms(1)] by blast
  let ?m = "m\<lparr>m_vals := (m_vals m)[i := v], m_gc_clean := 0\<rparr>"
  have "map_put_at m k v h = Some (sl_gc_remember_obj ?m)"
    using probe_found [OF assms(1) i] assms(4) by (simp add: map_put_at_def)
  with put_found [OF assms(1) i, of v] True assms(2,3) show ?thesis
    by (auto simp: map_inv_def)
next
  case False
  let ?m = "m\<lparr>m_gc_clean := min (m_count m) (m_gc_clean m)\<rparr>"
  have inv: "tab_inv ?m" using assms(1) tab_inv_cong [of ?m m] by simp
  have e: "entries ?m = entries m" by (simp add: entries_def)
  have count: "m_count ?m < m_cap ?m" using assms(3) by simp
  obtain s where s: "sl_map_probe ?m k (map_hash ?m k) = Some (- int s - 1)"
      "tab_inv (map_store ?m s k v)" "entries (map_store ?m s k v) = entries ?m @ [(k, v)]"
    using probe_store [OF inv count, of k v] False e by metis
  have probe: "probe_loop f ?m k i = probe_loop f m k i" for f i
    by (induction f m k i rule: probe_loop.induct) auto
  have "sl_map_probe m k h = Some (- int s - 1)"
    using s(1) assms(4) by (simp add: sl_map_probe_def probe map_hash_def)
  then have "map_put_at m k v h = Some (sl_gc_remember_obj (map_store ?m s k v))"
    by (simp add: map_put_at_def min_def)
  then show ?thesis
    using s(2,3) e False assms(2,3) by (auto simp: map_inv_def upd_entries_def)
qed

lemma put_ok:
  assumes "map_inv m"
  shows "\<exists>m'. sl_map_put m k v = Some m' \<and> map_inv m' \<and> entries m' = upd_entries k v (entries m) \<and>
    m_gc_clean m' = (if k \<in> fst ` set (entries m) then 0 else min (m_count m) (m_gc_clean m))"
proof (cases "(m_count m + 1) * 4 \<ge> m_cap m * 3")
  case True
  from grow_ok [OF assms] obtain m1 where m1: "sl_map_grow m = Some m1" "map_inv m1"
    "m_cap m1 = m_cap m * 2" "m_kstr m1 = m_kstr m" "m_count m1 = m_count m"
    "m_gc_clean m1 = m_gc_clean m" "entries m1 = entries m" by blast
  have "(m_count m1 + 1) * 4 < m_cap m1 * 3" "8 \<le> m_cap m1" "tab_inv m1"
    using m1 assms by (auto simp: map_inv_def)
  moreover have "map_hash m k = map_hash m1 k" using m1(4) by (simp add: map_hash_def)
  ultimately have "\<exists>m'. map_put_at m1 k v (map_hash m k) = Some m' \<and> map_inv m' \<and>
      entries m' = upd_entries k v (entries m1) \<and>
      m_gc_clean m' = (if k \<in> fst ` set (entries m1) then 0 else min (m_count m1) (m_gc_clean m1))"
    by (intro put_ready)
  moreover have "sl_map_put m k v = map_put_at m1 k v (map_hash m k)"
    using True m1(1) by (simp add: sl_map_put_def Let_def)
  ultimately show ?thesis by (simp only: m1(5-7))
next
  case False
  then show ?thesis
    using put_ready [of m "map_hash m k" k v] assms by (simp add: sl_map_put_def map_inv_def)
qed

lemma map_inv_new: "map_inv (sl_map_new ksz vsz kstr kp vp)"
proof -
  have "(8 :: nat) = 2 ^ 3" by simp
  then have "map_shape (sl_map_new ksz vsz kstr kp vp)"
    unfolding map_shape_def sl_map_new_def by (intro conjI exI [of _ 3]) simp_all
  moreover have "\<not> live (sl_map_new ksz vsz kstr kp vp) i" for i
    by (simp add: live_def sl_map_new_def)
  ultimately show ?thesis by (auto simp: map_inv_def tab_inv_def) (auto simp: sl_map_new_def)
qed

lemma entries_new: "entries (sl_map_new ksz vsz kstr kp vp) = []"
  by (simp add: entries_def sl_map_new_def)


section \<open>Deletion: coordinates from the empty slot\<close>

text \<open>
  The backward shift ends at the first empty slot \<open>e\<close> after the deleted one. Counted from
  \<open>e\<close>, slot \<open>r\<close> being \<open>(e + r) mod c\<close>, no probe path wraps round: it would cross \<open>e\<close>. So the
  ring becomes a line, and the cyclic test of the loop an ordinary comparison.
\<close>

lemma dist_coord:
  assumes "e < c" "x < c" "y < c"
  shows "dist c ((e + x) mod c) ((e + y) mod c) = (if x \<le> y then y - x else y + c - x)"
proof -
  let ?d = "if x \<le> y then y - x else y + c - x"
  have "((e + x) mod c + ?d) mod c = (e + x + ?d) mod c" by (simp add: mod_simps)
  also have "\<dots> = (e + y) mod c"
  proof (cases "x \<le> y")
    case False
    then have "e + x + (y + c - x) = (e + y) + c" using assms by linarith
    with False show ?thesis by (simp only: if_False mod_add_self2)
  qed simp
  finally have "(e + y) mod c = ((e + x) mod c + ?d) mod c" by simp
  moreover have "(e + x) mod c < c" "?d < c" using assms by auto
  ultimately show ?thesis by (simp only: dist_add)
qed

lemma reach_coord:
  assumes c: "e < c" "x < c" "y < c" and e: "\<not> st ! e" and y: "0 < y"
  shows "reach st c ((e + x) mod c) ((e + y) mod c) \<longleftrightarrow>
    x \<le> y \<and> (\<forall>q. x \<le> q \<and> q < y \<longrightarrow> st ! ((e + q) mod c))"
proof
  assume r: "reach st c ((e + x) mod c) ((e + y) mod c)"
  have path: "st ! ((e + x + d) mod c)" if "d < (if x \<le> y then y - x else y + c - x)" for d
    using r that unfolding reach_def dist_coord [OF c] by (simp add: mod_simps)
  have le: "x \<le> y"
  proof (rule ccontr)
    assume "\<not> x \<le> y"
    then have "st ! ((e + x + (c - x)) mod c)" using y c by (intro path) auto
    then show False using c e by simp
  qed
  moreover have "st ! ((e + q) mod c)" if "x \<le> q" "q < y" for q
    using path [of "q - x"] that le by auto
  ultimately show "x \<le> y \<and> (\<forall>q. x \<le> q \<and> q < y \<longrightarrow> st ! ((e + q) mod c))" by blast
next
  assume a: "x \<le> y \<and> (\<forall>q. x \<le> q \<and> q < y \<longrightarrow> st ! ((e + q) mod c))"
  have "st ! ((e + (x + d)) mod c)" if "d < y - x" for d using a that by auto
  with a show "reach st c ((e + x) mod c) ((e + y) mod c)"
    unfolding reach_def dist_coord [OF c] by (simp add: mod_simps add.assoc)
qed

lemma del_stays_coord:
  assumes "e < c" "a < c" "b < c" "x < c" "a < b"
  shows "del_stays ((e + a) mod c) ((e + b) mod c) ((e + x) mod c) \<longleftrightarrow> a < x \<and> x \<le> b"
  using assms unfolding del_stays_def
  by (simp only: add_mod_if) (auto split: if_splits)

section \<open>Deletion: the backward shift\<close>

lemma order_move_map:
  "distinct xs \<Longrightarrow> order_move xs slot to = map (\<lambda>x. if x = slot then to else x) xs"
  by (induction xs) (auto intro: map_idI [symmetric])

text \<open>
  The loop invariant, in the coordinates: the hole is slot \<open>a\<close>, the last slot inspected is
  \<open>b\<close>; from the hole to the end of the run all slots are occupied; every entry but the one in
  the hole is reachable from its home over occupied slots, and for the entries up to \<open>b\<close> that
  path does not use the hole.
\<close>

definition coord_home :: "sl_map \<Rightarrow> nat \<Rightarrow> nat \<Rightarrow> nat" where
  "coord_home m e r = dist (m_cap m) e (sl_map_home m (m_keys m ! ((e + r) mod m_cap m)))"

definition del_inv :: "sl_map \<Rightarrow> nat \<Rightarrow> nat \<Rightarrow> nat \<Rightarrow> bool" where
  "del_inv m e a b \<longleftrightarrow> map_shape m \<and> e < m_cap m \<and> \<not> m_state m ! e \<and>
     0 < a \<and> a \<le> b \<and> b < m_cap m \<and>
     (\<forall>r. a \<le> r \<and> r < m_cap m \<longrightarrow> m_state m ! ((e + r) mod m_cap m)) \<and>
     (\<forall>r < m_cap m. r \<noteq> a \<longrightarrow> m_state m ! ((e + r) mod m_cap m) \<longrightarrow>
        coord_home m e r \<le> r \<and>
        (\<forall>q. coord_home m e r \<le> q \<and> q < r \<longrightarrow> m_state m ! ((e + q) mod m_cap m)) \<and>
        (r \<le> b \<longrightarrow> \<not> (coord_home m e r \<le> a \<and> a < r))) \<and>
     m_count m = length (m_order m) \<and> distinct (m_order m) \<and>
     set (m_order m) = {i. live m i \<and> i \<noteq> (e + a) mod m_cap m} \<and>
     (\<forall>i j. live m i \<longrightarrow> live m j \<longrightarrow> i \<noteq> (e + a) mod m_cap m \<longrightarrow> j \<noteq> (e + a) mod m_cap m \<longrightarrow>
        m_keys m ! i = m_keys m ! j \<longrightarrow> i = j)"

lemma live_coord:
  assumes "e < m_cap m" and "live m i"
  obtains r where "r < m_cap m" and "i = (e + r) mod m_cap m"
proof
  have i: "i < m_cap m" using assms(2) by (simp add: live_def)
  show "dist (m_cap m) e i < m_cap m" using i by (intro dist_less) simp
  show "i = (e + dist (m_cap m) e i) mod m_cap m" by (rule add_dist [OF assms(1) i, symmetric])
qed

lemma home_coord:
  assumes "map_shape m" and "e < m_cap m"
  shows "sl_map_home m (m_keys m ! ((e + r) mod m_cap m)) = (e + coord_home m e r) mod m_cap m"
    and "coord_home m e r < m_cap m"
  unfolding coord_home_def
  by (rule add_dist [OF assms(2) home_less [OF assms(1)], symmetric],
      rule dist_less [OF shape_cap_pos [OF assms(1)]])

lemma del_invD:
  assumes "del_inv m e a b"
  shows del_shape: "map_shape m"
    and del_empty: "e < m_cap m" "\<not> m_state m ! e"
    and del_bounds: "0 < a" "a \<le> b" "b < m_cap m"
    and del_run: "a \<le> r \<Longrightarrow> r < m_cap m \<Longrightarrow> m_state m ! ((e + r) mod m_cap m)"
    and del_home: "r < m_cap m \<Longrightarrow> r \<noteq> a \<Longrightarrow> m_state m ! ((e + r) mod m_cap m) \<Longrightarrow>
      coord_home m e r \<le> r"
    and del_path: "r < m_cap m \<Longrightarrow> r \<noteq> a \<Longrightarrow> m_state m ! ((e + r) mod m_cap m) \<Longrightarrow>
      coord_home m e r \<le> q \<Longrightarrow> q < r \<Longrightarrow> m_state m ! ((e + q) mod m_cap m)"
    and del_avoid: "r < m_cap m \<Longrightarrow> r \<noteq> a \<Longrightarrow> m_state m ! ((e + r) mod m_cap m) \<Longrightarrow>
      r \<le> b \<Longrightarrow> \<not> (coord_home m e r \<le> a \<and> a < r)"
    and del_count: "m_count m = length (m_order m)"
    and del_distinct: "distinct (m_order m)"
    and del_order: "set (m_order m) = {i. live m i \<and> i \<noteq> (e + a) mod m_cap m}"
    and del_inj: "live m i \<Longrightarrow> live m j \<Longrightarrow> i \<noteq> (e + a) mod m_cap m \<Longrightarrow>
      j \<noteq> (e + a) mod m_cap m \<Longrightarrow> m_keys m ! i = m_keys m ! j \<Longrightarrow> i = j"
  using assms unfolding del_inv_def by blast+

lemma del_finish:
  assumes inv: "del_inv m e a b" and b: "Suc b = m_cap m"
  shows "tab_inv (m\<lparr>m_state := (m_state m)[(e + a) mod m_cap m := False]\<rparr>)"
proof -
  let ?c = "m_cap m" and ?hole = "(e + a) mod m_cap m"
  let ?m = "m\<lparr>m_state := (m_state m)[?hole := False]\<rparr>"
  have shape: "map_shape m" and e: "e < ?c" "\<not> m_state m ! e" and a: "0 < a" "a < ?c"
    using del_shape [OF inv] del_empty [OF inv] del_bounds [OF inv] by auto
  have len: "length (m_state m) = ?c" "?hole < ?c" using shape a by (auto simp: map_shape_def)
  have live: "live ?m i \<longleftrightarrow> live m i \<and> i \<noteq> ?hole" for i
    using len by (auto simp: live_def nth_list_update)
  have home: "sl_map_home ?m x = sl_map_home m x" for x by (rule home_cong) simp_all
  have "reach (m_state ?m) ?c (sl_map_home m (m_keys m ! i)) i" if i: "live ?m i" for i
  proof -
    from i live have "live m i" "i \<noteq> ?hole" by auto
    with live_coord [OF e(1)] obtain r where r: "r < ?c" "i = (e + r) mod ?c" by metis
    have "r \<noteq> 0" using r e \<open>live m i\<close> by (auto simp: live_def intro: ccontr)
    have "r \<noteq> a" using r \<open>i \<noteq> ?hole\<close> by auto
    have st: "m_state m ! ((e + r) mod ?c)" using r \<open>live m i\<close> by (simp add: live_def)
    note home_le = del_home [OF inv r(1) \<open>r \<noteq> a\<close> st]
    have path: "m_state m ! ((e + q) mod ?c) \<and> q \<noteq> a" if "coord_home m e r \<le> q" "q < r" for q
      using del_path [OF inv r(1) \<open>r \<noteq> a\<close> st that] del_avoid [OF inv r(1) \<open>r \<noteq> a\<close> st] that r(1) b
      by auto
    have "(m_state m)[?hole := False] ! ((e + q) mod ?c)"
      if "coord_home m e r \<le> q" "q < r" for q
    proof -
      have "(e + q) mod ?c \<noteq> ?hole"
        using path [OF that] ring_inj [OF e(1), of q a] that r(1) a by auto
      then show ?thesis using path [OF that] by simp
    qed
    moreover have "\<not> (m_state m)[?hole := False] ! e"
      using e len by (cases "e = ?hole") auto
    ultimately show ?thesis
      using home_le r e \<open>r \<noteq> 0\<close> home_coord [OF shape e(1), of r]
      by (simp add: reach_coord)
  qed
  moreover have "map_shape ?m" using shape by (auto simp: map_shape_def)
  moreover have "set (m_order m) = Collect (live ?m)" using live del_order [OF inv] by auto
  moreover have "i = j" if "live ?m i" "live ?m j" "m_keys m ! i = m_keys m ! j" for i j
    using del_inj [OF inv, of i j] that live by blast
  ultimately show ?thesis 
    using del_count [OF inv] del_distinct [OF inv] by (simp add: tab_inv_def home)
qed

text \<open>One turn of the loop that leaves the entry at \<open>b + 1\<close> where it is.\<close>

lemma del_inv_stay:
  assumes inv: "del_inv m e a b" and b: "Suc b < m_cap m" and x: "a < coord_home m e (Suc b)"
  shows "del_inv m e a (Suc b)"
proof -
  have "\<not> (coord_home m e r \<le> a \<and> a < r)"
    if "r < m_cap m" "r \<noteq> a" "m_state m ! ((e + r) mod m_cap m)" "r \<le> Suc b" for r
    using del_avoid [OF inv that(1-3)] that(4) x by (cases "r = Suc b") auto
  then show ?thesis using inv b unfolding del_inv_def by simp
qed

definition del_shift :: "sl_map \<Rightarrow> nat \<Rightarrow> nat \<Rightarrow> sl_map" where
  "del_shift m hole j = sl_map_order_move
     (m\<lparr>m_keys := (m_keys m)[hole := m_keys m ! j], m_vals := (m_vals m)[hole := m_vals m ! j],
        m_state := (m_state m)[hole := True]\<rparr>) j hole"

lemma del_shift_fields [simp]:
  "m_cap (del_shift m hole j) = m_cap m" "m_kstr (del_shift m hole j) = m_kstr m"
  "m_count (del_shift m hole j) = m_count m" "m_gc_clean (del_shift m hole j) = m_gc_clean m"
  "m_keys (del_shift m hole j) = (m_keys m)[hole := m_keys m ! j]"
  "m_vals (del_shift m hole j) = (m_vals m)[hole := m_vals m ! j]"
  "m_state (del_shift m hole j) = (m_state m)[hole := True]"
  "m_order (del_shift m hole j) = order_move (m_order m) j hole"
  "gen (del_shift m hole j) = gen m" "remembered (del_shift m hole j) = remembered m"
  by (simp_all add: del_shift_def sl_map_order_move_def)

lemma update_True_id: "st ! i \<Longrightarrow> st[i := True] = st"
  by (cases "i < length st") (simp_all add: list_update_same_conv list_update_beyond)

lemma entries_shift:
  assumes "distinct (m_order m)" and "hole \<notin> set (m_order m)"
    and "hole < length (m_keys m)" and "hole < length (m_vals m)"
  shows "entries (del_shift m hole j) = entries m"
  using assms by (auto simp: entries_def order_move_map nth_list_update)

text \<open>One turn that moves the entry at \<open>b + 1\<close> into the hole.\<close>

lemma del_inv_move:
  assumes inv: "del_inv m e a b" and b: "Suc b < m_cap m" and x: "coord_home m e (Suc b) \<le> a"
  defines "hole \<equiv> (e + a) mod m_cap m" and "j \<equiv> (e + Suc b) mod m_cap m"
  shows "del_inv (del_shift m hole j) e (Suc b) (Suc b)"
    and "entries (del_shift m hole j) = entries m"
proof -
  let ?c = "m_cap m" and ?m = "del_shift m hole j"
  note bounds = del_bounds [OF inv] and shape = del_shape [OF inv] and e = del_empty [OF inv]
  have a: "a < ?c" "a \<noteq> Suc b" using bounds by auto
  have hc: "hole < ?c" "j < ?c" using e(1) by (auto simp: hole_def j_def)
  have hj: "hole \<noteq> j" using ring_inj [OF e(1) a(1) b] a(2) by (auto simp: hole_def j_def)
  have len: "length (m_keys m) = ?c" "length (m_vals m) = ?c" "length (m_state m) = ?c"
    using shape by (auto simp: map_shape_def)
  have sth: "m_state m ! hole" and stj: "m_state m ! j"
    using del_run [OF inv, of a] del_run [OF inv, of "Suc b"] a b bounds
    by (auto simp: hole_def j_def)
  have st: "m_state ?m = m_state m" using update_True_id [OF sth] by simp
  have live: "live ?m i = live m i" for i by (rule live_cong) (simp, rule st)
  have nth: "m_keys ?m ! i = m_keys m ! (if i = hole then j else i)" for i
    using hc len by (simp add: nth_list_update)
  have home: "sl_map_home ?m k = sl_map_home m k" for k by (rule home_cong) simp_all
  have ch: "coord_home ?m e r = (if r = a then coord_home m e (Suc b) else coord_home m e r)"
    if "r < ?c" for r
    using ring_inj [OF e(1) that a(1)] unfolding coord_home_def home nth
    by (auto simp: hole_def j_def)
  have order: "m_order ?m = map (\<lambda>x. if x = j then hole else x) (m_order m)"
    using del_distinct [OF inv] by (simp add: order_move_map)
  have set: "set (m_order m) = {i. live m i \<and> i \<noteq> hole}"
    using del_order [OF inv] by (simp add: hole_def)
  have lj: "live m hole" "live m j" using hc sth stj by (simp_all add: live_def)
  show "entries ?m = entries m"
    using hc len set del_distinct [OF inv] by (intro entries_shift) auto
  have paths: "coord_home ?m e r \<le> r \<and>
      (\<forall>q. coord_home ?m e r \<le> q \<and> q < r \<longrightarrow> m_state m ! ((e + q) mod ?c))"
    if r: "r < ?c" "r \<noteq> Suc b" "m_state m ! ((e + r) mod ?c)" for r
  proof (cases "r = a")
    case True
    have "m_state m ! ((e + Suc b) mod ?c)" using stj by (simp add: j_def)
    from del_path [OF inv b a(2) [symmetric] this] have
      "m_state m ! ((e + q) mod ?c)" if "coord_home m e (Suc b) \<le> q" "q < a" for q
      using that bounds by simp
    then show ?thesis using True x ch [OF r(1)] by simp
  next
    case False
    then show ?thesis
      using del_home [OF inv r(1) False r(3)] del_path [OF inv r(1) False r(3)] ch [OF r(1)] by simp
  qed
  have dist: "distinct (m_order ?m)"
    unfolding order distinct_map using del_distinct [OF inv] set by (auto simp: inj_on_def)
  have set': "set (m_order ?m) = {i. live ?m i \<and> i \<noteq> j}"
    unfolding order using set lj hj by (auto simp: live)
  have inj: "i = i'" if "live m i" "live m i'" "i \<noteq> j" "i' \<noteq> j" "m_keys ?m ! i = m_keys ?m ! i'" for i i'
    using del_inj [OF inv, of "if i = hole then j else i" "if i' = hole then j else i'"] that lj hj
    unfolding nth by (auto simp: hole_def [symmetric] split: if_splits)
  have shape': "map_shape ?m" using shape by (simp add: map_shape_def)
  have run: "m_state m ! ((e + r) mod ?c)" if "Suc b \<le> r" "r < ?c" for r
    using del_run [OF inv _ that(2)] that bounds by simp
  show "del_inv ?m e (Suc b) (Suc b)"
    unfolding del_inv_def st del_shift_fields(1) j_def [symmetric]
  proof (intro conjI allI impI)
    show "m_count ?m = length (m_order ?m)" using del_count [OF inv] unfolding order by simp
    show "i = i'" if "live ?m i" "live ?m i'" "i \<noteq> j" "i' \<noteq> j" "m_keys ?m ! i = m_keys ?m ! i'"
      for i i' using inj that unfolding live by blast
    show "m_state m ! ((e + r) mod ?c)" if "Suc b \<le> r \<and> r < ?c" for r using run that by blast
    show "coord_home ?m e r \<le> r" "\<And>q. coord_home ?m e r \<le> q \<and> q < r \<Longrightarrow> m_state m ! ((e + q) mod ?c)"
      if "r < ?c" "r \<noteq> Suc b" "m_state m ! ((e + r) mod ?c)" for r
      using paths [OF that] by blast+
  qed (rule shape' e dist set' b zero_less_Suc le_refl | linarith)+
qed

lemma del_loop_ok:
  assumes "del_inv m e a b" and "m_cap m - b \<le> fuel"
  shows "\<exists>m'. del_loop fuel m ((e + a) mod m_cap m) ((e + b) mod m_cap m) = Some m' \<and>
    tab_inv m' \<and> entries m' = entries m \<and> m_count m' = m_count m \<and> m_cap m' = m_cap m \<and>
    m_gc_clean m' = m_gc_clean m \<and> gen m' = gen m \<and> remembered m' = remembered m"
  using assms
proof (induction fuel arbitrary: m a b)
  case 0
  then show ?case using del_bounds(3) [OF 0(1)] by simp
next
  case (Suc fuel)
  let ?c = "m_cap m" and ?hole = "(e + a) mod m_cap m"
  note inv = Suc.prems(1)
  note bounds = del_bounds [OF inv] and shape = del_shape [OF inv] and e = del_empty [OF inv]
  have j: "((e + b) mod ?c + 1) AND (?c - 1) = (e + Suc b) mod ?c"
    by (simp add: next_slot [OF shape, simplified] mod_simps)
  show ?case
  proof (cases "Suc b = ?c")
    case True
    then have "(e + Suc b) mod ?c = e" using e by simp
    then have "del_loop (Suc fuel) m ?hole ((e + b) mod ?c) =
        Some (m\<lparr>m_state := (m_state m)[?hole := False]\<rparr>)"
      unfolding del_loop.simps j Let_def using e by simp
    then show ?thesis using del_finish [OF inv True] by (simp add: entries_def)
  next
    case False
    then have b: "Suc b < ?c" using bounds by simp
    let ?j = "(e + Suc b) mod ?c" and ?x = "coord_home m e (Suc b)"
    have st: "m_state m ! ?j" using del_run [OF inv _ b] bounds by simp
    have x: "?x \<le> Suc b" using bounds by (intro del_home [OF inv b _ st]) simp
    have stays: "del_stays ?hole ?j (sl_map_home m (m_keys m ! ?j)) \<longleftrightarrow> a < ?x"
      using x del_stays_coord [OF e(1) _ b, of a ?x] bounds home_coord [OF shape e(1), of "Suc b"]
      by simp
    have step: "del_loop (Suc fuel) m ?hole ((e + b) mod ?c) =
        (if a < ?x then del_loop fuel m ?hole ?j else del_loop fuel (del_shift m ?hole ?j) ?j ?j)"
      unfolding del_loop.simps j Let_def stays del_shift_def [symmetric] using st by simp
    show ?thesis
    proof (cases "a < ?x")
      case True
      then show ?thesis
        using Suc.IH [OF del_inv_stay [OF inv b True]] Suc.prems(2) step by simp
    next
      case False
      then have le: "?x \<le> a" by simp
      have fuel: "m_cap (del_shift m ?hole ?j) - Suc b \<le> fuel" using Suc.prems(2) by simp
      show ?thesis
        using Suc.IH [OF del_inv_move(1) [OF inv b le] fuel] del_inv_move(2) [OF inv b le] False step
        by simp
    qed
  qed
qed

lemma order_pos_remove1:
  "s \<in> set xs \<Longrightarrow> order_pos xs s < length xs \<and>
     take (order_pos xs s) xs @ drop (Suc (order_pos xs s)) xs = remove1 s xs"
  by (induction xs) auto

lemma entries_remove1:
  assumes "tab_inv m" and "live m s"
  shows "map (\<lambda>i. (m_keys m ! i, m_vals m ! i)) (remove1 s (m_order m)) =
    filter (\<lambda>(k, v). k \<noteq> m_keys m ! s) (entries m)"
proof -
  have "m_keys m ! i = m_keys m ! s \<longleftrightarrow> i = s" if "i \<in> set (m_order m)" for i
    using that assms(2) tab_inj [OF assms(1), of i s] tab_order [OF assms(1)] by auto
  then have "filter (\<lambda>i. m_keys m ! i \<noteq> m_keys m ! s) (m_order m) = filter (\<lambda>i. i \<noteq> s) (m_order m)"
    by (intro filter_cong) auto
  then show ?thesis
    by (simp add: entries_def filter_map o_def distinct_remove1_removeAll tab_distinct [OF assms(1)]
        removeAll_filter_not_eq eq_commute)
qed

text \<open>The first empty slot after an occupied one.\<close>

lemma run_end:
  assumes "tab_inv m" and "m_count m < m_cap m" and "live m s"
  obtains e a where "e < m_cap m" and "\<not> m_state m ! e" and "0 < a" and "a < m_cap m"
    and "s = (e + a) mod m_cap m"
    and "\<And>r. a \<le> r \<Longrightarrow> r < m_cap m \<Longrightarrow> m_state m ! ((e + r) mod m_cap m)"
proof -
  let ?c = "m_cap m"
  let ?P = "\<lambda>d. \<not> m_state m ! ((s + d) mod ?c)"
  have s: "s < ?c" "m_state m ! s" using assms(3) by (auto simp: live_def)
  obtain e0 where e0: "e0 < ?c" "\<not> m_state m ! e0"
    using empty_slot_exists [OF assms(1,2)] by blast
  have P0: "?P (dist ?c s e0)" using e0 by (simp add: add_dist [OF s(1)])
  define d where "d = (LEAST d. ?P d)"
  have Pd: "?P d" unfolding d_def using P0 by (rule LeastI)
  have before: "m_state m ! ((s + d') mod ?c)" if "d' < d" for d'
    using that not_less_Least unfolding d_def by blast
  have "d \<le> dist ?c s e0" unfolding d_def by (rule Least_le) (rule P0)
  then have dc: "d < ?c" using dist_less [of ?c s e0] s by simp
  have d0: "0 < d" using Pd s by (cases "d = 0") auto
  show thesis
  proof (rule that [of "(s + d) mod ?c" "?c - d"])
    have "((s + d) mod ?c + r) mod ?c = (s + (d + r)) mod ?c" for r by (simp add: mod_simps add.assoc)
    note coord = this
    show "s = ((s + d) mod ?c + (?c - d)) mod ?c" unfolding coord using dc s by simp
    show "m_state m ! (((s + d) mod ?c + r) mod ?c)" if "?c - d \<le> r" "r < ?c" for r
    proof -
      have "s + (d + r) = s + (d + r - ?c) + ?c" using that dc by linarith
      then have "(s + (d + r)) mod ?c = (s + (d + r - ?c)) mod ?c" by (simp only: mod_add_self2)
      moreover have "d + r - ?c < d" using that dc d0 by linarith
      ultimately show ?thesis unfolding coord using before by simp
    qed
  qed (use Pd dc d0 s in auto)
qed

lemma del_start:
  assumes inv: "tab_inv m" and e: "e < m_cap m" "\<not> m_state m ! e" and a: "0 < a" "a < m_cap m"
    and run: "\<And>r. a \<le> r \<Longrightarrow> r < m_cap m \<Longrightarrow> m_state m ! ((e + r) mod m_cap m)"
  defines "s \<equiv> (e + a) mod m_cap m"
  assumes m1: "m_cap m1 = m_cap m" "m_kstr m1 = m_kstr m" "m_keys m1 = m_keys m"
    "length (m_vals m1) = length (m_vals m)" "m_state m1 = m_state m"
    "m_order m1 = remove1 s (m_order m)" "m_count m1 = m_count m - 1"
  shows "del_inv m1 e a a"
proof -
  let ?c = "m_cap m"
  note shape = tab_shape [OF inv]
  have live: "live m1 i = live m i" for i by (rule live_cong [OF m1(1,5)])
  have s: "s \<in> set (m_order m)"
    using run [of a] a tab_order [OF inv] by (simp add: s_def live_def)
  have home: "sl_map_home m1 k = sl_map_home m k" for k by (rule home_cong [OF m1(2,1)])
  have ch: "coord_home m1 e r = coord_home m e r" for r
    unfolding coord_home_def home m1 ..
  have path: "coord_home m e r \<le> r \<and>
      (\<forall>q. coord_home m e r \<le> q \<and> q < r \<longrightarrow> m_state m ! ((e + q) mod ?c))"
    if r: "r < ?c" "m_state m ! ((e + r) mod ?c)" for r
  proof -
    have "live m ((e + r) mod ?c)" using r e by (simp add: live_def)
    from tab_reach [OF inv this] have
      "reach (m_state m) ?c ((e + coord_home m e r) mod ?c) ((e + r) mod ?c)"
      by (simp only: home_coord(1) [OF shape e(1)])
    moreover have "0 < r" using r e by (cases "r = 0") auto
    ultimately show ?thesis
      using reach_coord [OF e(1) home_coord(2) [OF shape e(1)] r(1) e(2)] by blast
  qed
  show ?thesis unfolding del_inv_def m1(1,3,5) s_def [symmetric] ch live
  proof (intro conjI allI impI)
    show "m_count m1 = length (m_order m1)"
      using s tab_count [OF inv] by (simp add: m1 length_remove1)
    show "distinct (m_order m1)" using tab_distinct [OF inv] by (simp add: m1)
    show "set (m_order m1) = {i. live m i \<and> i \<noteq> s}"
      using tab_distinct [OF inv] tab_order [OF inv] by (auto simp: m1)
    show "map_shape m1" using shape by (simp add: map_shape_def m1)
    show "m_state m ! ((e + r) mod ?c)" if "a \<le> r \<and> r < ?c" for r using run that by blast
    show "coord_home m e r \<le> r"
      "\<And>q. coord_home m e r \<le> q \<and> q < r \<Longrightarrow> m_state m ! ((e + q) mod ?c)"
      if "r < ?c" "m_state m ! ((e + r) mod ?c)" for r
      using path [OF that] by blast+
    show "i = i'" if "live m i" "live m i'" "m_keys m ! i = m_keys m ! i'" for i i'
      using tab_inj [OF inv that] .
  qed (rule e a le_refl | linarith)+
qed

lemma order_pos_index: "s \<in> set xs \<Longrightarrow> xs ! order_pos xs s = s"
  by (induction xs) auto

lemma filter_absent: "k \<notin> fst ` set es \<Longrightarrow> filter (\<lambda>(k', v). k' \<noteq> k) es = es"
  by (rule filter_True) force

lemma del_found:
  assumes inv: "tab_inv m" and count: "m_count m < m_cap m" and s: "live m s" "m_keys m ! s = k"
  shows "\<exists>m'. sl_map_del m k = Some m' \<and> tab_inv m' \<and> m_cap m' = m_cap m \<and>
    m_count m' = m_count m - 1 \<and> gen m' = gen m \<and> remembered m' = remembered m \<and>
    entries m' = filter (\<lambda>(k', v). k' \<noteq> k) (entries m) \<and>
    m_gc_clean m' = min (order_pos (m_order m) s) (m_gc_clean m)"
proof -
  let ?i = "order_pos (m_order m) s"
  define m1 where "m1 = m\<lparr>m_order := remove1 s (m_order m), m_gc_clean := min ?i (m_gc_clean m),
    m_count := m_count m - 1\<rparr>"
  have so: "s \<in> set (m_order m)" using s tab_order [OF inv] by simp
  have "sl_map_del m k = del_loop (m_cap m) m1 s s"
    using probe_found [OF inv s] order_pos_remove1 [OF so] tab_count [OF inv]
    by (simp add: sl_map_del_def Let_def m1_def min_def)
  moreover from run_end [OF inv count s(1)] obtain e a where e: "e < m_cap m" "\<not> m_state m ! e"
    "0 < a" "a < m_cap m" "s = (e + a) mod m_cap m"
    "\<And>r. a \<le> r \<Longrightarrow> r < m_cap m \<Longrightarrow> m_state m ! ((e + r) mod m_cap m)" by blast
  have "del_inv m1 e a a" by (rule del_start [OF inv e(1-4,6)]) (simp_all add: m1_def e(5))
  from del_loop_ok [OF this, of "m_cap m"] obtain m' where
    "del_loop (m_cap m) m1 s s = Some m'" "tab_inv m'" "entries m' = entries m1"
    "m_count m' = m_count m1" "m_cap m' = m_cap m1" "m_gc_clean m' = m_gc_clean m1"
    "gen m' = gen m1" "remembered m' = remembered m1"
    by (auto simp: m1_def e(5))
  moreover have "entries m1 = filter (\<lambda>(k', v). k' \<noteq> k) (entries m)"
    using entries_remove1 [OF inv s(1)] s(2) by (simp add: entries_def m1_def)
  ultimately show ?thesis by (simp add: m1_def)
qed

lemma del_ok:
  assumes "map_inv m"
  shows "\<exists>m'. sl_map_del m k = Some m' \<and> map_inv m' \<and>
    entries m' = filter (\<lambda>(k', v). k' \<noteq> k) (entries m)"
proof (cases "k \<in> fst ` set (entries m)")
  case True
  have inv: "tab_inv m" "m_count m < m_cap m" using assms by (auto simp: map_inv_def)
  then obtain s where "live m s" "m_keys m ! s = k" using True key_in_entries by blast
  from del_found [OF inv this] assms show ?thesis by (auto simp: map_inv_def)
next
  case False
  have inv: "tab_inv m" "m_count m < m_cap m" using assms by (auto simp: map_inv_def)
  from probe_absent [OF inv False] obtain s where
    "sl_map_probe m k (map_hash m k) = Some (- int s - 1)" by blast
  then show ?thesis using assms False by (simp add: sl_map_del_def filter_absent)
qed

section \<open>The collector's view: clean positions\<close>

lemma gen_store [simp]: "gen (map_store m s k v) = gen m"
  by (simp add: map_store_def)

lemma gen_remember [simp]: "gen (sl_gc_remember_obj m) = gen m"
  by (simp add: sl_gc_remember_obj_def)

lemma gen_grow_loop: "grow_loop slots ok ov m = Some m' \<Longrightarrow> gen m' = gen m"
  by (induction slots ok ov m rule: grow_loop.induct) (auto simp: Let_def split: option.splits if_splits)

lemma put_remembered:
  "sl_map_put m k v = Some m' \<Longrightarrow> gen m' = gen m \<and> (gen m = 1 \<longrightarrow> remembered m')"
  unfolding sl_map_put_def map_put_at_def Let_def sl_map_grow_def
  by (auto simp: sl_gc_remember_obj_def map_store_def split: option.splits if_splits
      dest!: gen_grow_loop)

lemma filter_key_at:
  assumes "distinct (map fst es)" and "i < length es" and "fst (es ! i) = k"
  shows "filter (\<lambda>(k', v). k' \<noteq> k) es = take i es @ drop (Suc i) es"
proof -
  have split: "es = take i es @ es ! i # drop (Suc i) es" using assms(2) by (rule id_take_nth_drop)
  have "distinct (map fst (take i es @ es ! i # drop (Suc i) es))" using assms(1) split by simp
  then have "k \<notin> fst ` set (take i es)" "k \<notin> fst ` set (drop (Suc i) es)"
    using assms(3) by (auto simp: image_iff)
  then have "filter (\<lambda>(k', v). k' \<noteq> k) (take i es @ es ! i # drop (Suc i) es) =
      take i es @ drop (Suc i) es"
    using assms(3) by (simp add: filter_absent split_beta)
  then show ?thesis using split by simp
qed

lemma del_clean:
  assumes "tab_inv m" and "m_count m < m_cap m" and "sl_map_del m k = Some m'"
  shows "m_gc_clean m' \<le> m_gc_clean m \<and> take (m_gc_clean m') (entries m') = take (m_gc_clean m') (entries m) \<and>
    gen m' = gen m \<and> remembered m' = remembered m"
proof (cases "k \<in> fst ` set (entries m)")
  case True
  then obtain s where s: "live m s" "m_keys m ! s = k" using key_in_entries [OF assms(1)] by blast
  let ?i = "order_pos (m_order m) s"
  have so: "s \<in> set (m_order m)" using s tab_order [OF assms(1)] by simp
  have i: "?i < length (entries m)" "fst (entries m ! ?i) = k"
    using order_pos_remove1 [OF so] order_pos_index [OF so] s(2) by (simp_all add: entries_def)
  show ?thesis
    using del_found [OF assms(1,2) s] assms(3) filter_key_at [OF distinct_entries [OF assms(1)] i]
    by (auto simp: min_def)
next
  case False
  from probe_absent [OF assms(1,2) False] obtain s where
    "sl_map_probe m k (map_hash m k) = Some (- int s - 1)" by blast
  then show ?thesis using assms(3) by (simp add: sl_map_del_def)
qed

section \<open>The interface: an insertion-ordered map\<close>

text \<open>
  What a client of the table relies on. \<open>upd_entries\<close> and the filter of \<open>apply_op\<close> are the
  specification: an association list in insertion order.
\<close>

datatype ('k, 'v) map_op = Put 'k 'v | Del 'k

fun apply_op :: "('k, 'v) map_op \<Rightarrow> ('k \<times> 'v) list \<Rightarrow> ('k \<times> 'v) list" where
  "apply_op (Put k v) es = upd_entries k v es"
| "apply_op (Del k) es = filter (\<lambda>(k', v). k' \<noteq> k) es"

fun run_ops :: "('m \<Rightarrow> 'k \<Rightarrow> 'v \<Rightarrow> 'm option) \<Rightarrow> ('m \<Rightarrow> 'k \<Rightarrow> 'm option) \<Rightarrow>
    ('k, 'v) map_op list \<Rightarrow> 'm \<Rightarrow> 'm option" where
  "run_ops put del [] m = Some m"
| "run_ops put del (Put k v # ops) m = Option.bind (put m k v) (run_ops put del ops)"
| "run_ops put del (Del k # ops) m = Option.bind (del m k) (run_ops put del ops)"

lemma map_of_filter_key:
  "map_of (filter (\<lambda>(k', v). k' \<noteq> k) es) x = (if x = k then None else map_of es x)"
  by (induction es) auto

locale ordered_map =
  fixes inv :: "'m \<Rightarrow> bool"
    and ents :: "'m \<Rightarrow> ('k \<times> 'v) list"
    and get :: "'m \<Rightarrow> 'k \<Rightarrow> 'v option option"
    and put :: "'m \<Rightarrow> 'k \<Rightarrow> 'v \<Rightarrow> 'm option"
    and del :: "'m \<Rightarrow> 'k \<Rightarrow> 'm option"
  assumes get_law: "inv m \<Longrightarrow> get m k = Some (map_of (ents m) k)"
    and put_law: "inv m \<Longrightarrow> \<exists>m'. put m k v = Some m' \<and> inv m' \<and> ents m' = upd_entries k v (ents m)"
    and del_law: "inv m \<Longrightarrow>
      \<exists>m'. del m k = Some m' \<and> inv m' \<and> ents m' = filter (\<lambda>(k', v). k' \<noteq> k) (ents m)"
begin

lemma run_ops_ok:
  "inv m \<Longrightarrow> \<exists>m'. run_ops put del ops m = Some m' \<and> inv m' \<and> ents m' = fold apply_op ops (ents m)"
proof (induction ops arbitrary: m)
  case (Cons op ops)
  have "\<exists>m1. run_ops put del (op # ops) m = run_ops put del ops m1 \<and> inv m1 \<and>
      ents m1 = apply_op op (ents m)"
  proof (cases op)
    case (Put k v)
    with put_law [OF Cons.prems, of k v] show ?thesis by auto
  next
    case (Del k)
    with del_law [OF Cons.prems, of k] show ?thesis by auto
  qed
  with Cons.IH show ?case by fastforce
qed simp

lemma get_after_put:
  assumes "inv m" and "put m k v = Some m'"
  shows "get m' k' = (if k' = k then Some (Some v) else get m k')"
  using put_law [OF assms(1), of k v] assms get_law by (auto simp: map_of_upd_entries)

lemma get_after_del:
  assumes "inv m" and "del m k = Some m'"
  shows "get m' k' = (if k' = k then Some None else get m k')"
  using del_law [OF assms(1), of k] assms get_law by (auto simp: map_of_filter_key)

end

interpretation sl_map_iface: ordered_map map_inv entries sl_map_get sl_map_put sl_map_del
proof
  fix m k and v :: sl_bytes assume inv: "map_inv m"
  then have "tab_inv m" "m_count m < m_cap m" by (auto simp: map_inv_def)
  then show "sl_map_get m k = Some (map_of (entries m) k)" by (rule get_ok)
  show "\<exists>m'. sl_map_put m k v = Some m' \<and> map_inv m' \<and> entries m' = upd_entries k v (entries m)"
    using put_ok [OF inv, of k v] by blast
  show "\<exists>m'. sl_map_del m k = Some m' \<and> map_inv m' \<and>
      entries m' = filter (\<lambda>(k', v). k' \<noteq> k) (entries m)"
    by (rule del_ok [OF inv])
qed

section \<open>Properties\<close>

text \<open>C1: any sequence of insertions and deletions on a new map comes to an end, keeps the table
  invariant, and leaves the entries that the same sequence leaves in an insertion-ordered
  association list (an update keeps its place, a deleted key goes, the rest keep their order);
  \<open>sl_map_get\<close> and \<open>sl_map_has\<close> then answer for every key what that list holds.\<close>

theorem sl_map_refines_ordered_map:
  "\<exists>m. run_ops sl_map_put sl_map_del ops (sl_map_new ksz vsz kstr kp vp) = Some m \<and> map_inv m \<and>
     entries m = fold apply_op ops [] \<and>
     (\<forall>k. sl_map_get m k = Some (map_of (fold apply_op ops []) k) \<and>
          sl_map_has m k = Some (map_of (fold apply_op ops []) k \<noteq> None))"
proof -
  from sl_map_iface.run_ops_ok [OF map_inv_new, of ops ksz vsz kstr kp vp] obtain m where
    m: "run_ops sl_map_put sl_map_del ops (sl_map_new ksz vsz kstr kp vp) = Some m" "map_inv m"
      "entries m = fold apply_op ops []" by (auto simp: entries_new)
  then show ?thesis using sl_map_iface.get_law [OF m(2)] by (simp add: sl_map_has_def)
qed

text \<open>C12: \<open>sl_map_put\<close>, growth included, always returns; afterwards the key has the new value and
  every other key the value it had, the invariant holds, and at least a quarter of the slots is
  empty, which is what makes the probe loops end.\<close>

theorem sl_map_put_get:
  assumes "map_inv m"
  shows "\<exists>m'. sl_map_put m k v = Some m' \<and> map_inv m' \<and> m_count m' * 4 < m_cap m' * 3 \<and>
    (\<forall>k'. sl_map_get m' k' = (if k' = k then Some (Some v) else sl_map_get m k'))"
  using sl_map_iface.put_law [OF assms, of k v] sl_map_iface.get_after_put [OF assms, of k v]
  by (auto simp: map_inv_def)

theorem sl_map_put_get_witness:
  "map_inv (sl_map_new 1 1 False 0 0) \<and>
   (\<exists>m'. sl_map_put (sl_map_new 1 1 False 0 0) [7] [9] = Some m' \<and> sl_map_get m' [7] = Some (Some [9]))"
  using sl_map_put_get [OF map_inv_new, of 1 1 False 0 0 "[7]" "[9]"] map_inv_new by auto

text \<open>C11: \<open>sl_map_del\<close>, the backward shift included, always returns; afterwards the key is gone,
  every other key still answers its value, and the remaining entries are in the order they were.\<close>

theorem sl_map_del_get:
  assumes "map_inv m"
  shows "\<exists>m'. sl_map_del m k = Some m' \<and> map_inv m' \<and>
    entries m' = filter (\<lambda>(k', v). k' \<noteq> k) (entries m) \<and>
    (\<forall>k'. sl_map_get m' k' = (if k' = k then Some None else sl_map_get m k'))"
  using sl_map_iface.del_law [OF assms, of k] sl_map_iface.get_after_del [OF assms, of k] by auto

theorem sl_map_del_get_witness:
  "map_inv (the (sl_map_put (sl_map_new 1 1 False 0 0) [7] [9])) \<and>
   (\<exists>m'. sl_map_del (the (sl_map_put (sl_map_new 1 1 False 0 0) [7] [9])) [7] = Some m' \<and>
         sl_map_get m' [7] = Some None)"
proof -
  obtain m where m: "sl_map_put (sl_map_new 1 1 False 0 0) [7] [9] = Some m" "map_inv m"
    using put_ok [OF map_inv_new, of 1 1 False 0 0 "[7]" "[9]"] by blast
  then show ?thesis using sl_map_del_get [OF m(2), of "[7]"] by auto
qed


text \<open>C24: the contract of \<open>gc_clean\<close> with the minor collection: whatever \<open>sl_map_put\<close> or
  \<open>sl_map_del\<close> does (growth, update, append, shift), the entries at the order positions below
  the new \<open>gc_clean\<close> are the entries that were there before, and \<open>gc_clean\<close> is never raised. A put
  passes the barrier: an old map that was stored into has its remembered flag set, and all its
  other entries were there before. A delete has no barrier: it leaves the flag and the generation
  as they were, and needs none, since every entry it leaves was there before. (The flag is what
  the barrier sets when the running task's shard takes the entry, \<open>remember_in_ok\<close>.)\<close>

theorem sl_map_gc_clean_contract:
  assumes "map_inv m"
  shows "\<exists>m1 m2. sl_map_put m k v = Some m1 \<and> sl_map_del m k = Some m2 \<and>
    m_gc_clean m1 \<le> m_gc_clean m \<and> m_gc_clean m2 \<le> m_gc_clean m \<and>
    take (m_gc_clean m1) (entries m1) = take (m_gc_clean m1) (entries m) \<and>
    take (m_gc_clean m2) (entries m2) = take (m_gc_clean m2) (entries m) \<and>
    (gen m = 1 \<longrightarrow> remembered m1) \<and> set (entries m1) \<subseteq> insert (k, v) (set (entries m)) \<and>
    gen m2 = gen m \<and> remembered m2 = remembered m \<and> set (entries m2) \<subseteq> set (entries m)"
proof -
  have inv: "tab_inv m" "m_count m < m_cap m" using assms by (auto simp: map_inv_def)
  have len: "length (entries m) = m_count m" using tab_count [OF inv(1)] by (simp add: entries_def)
  from put_ok [OF assms, of k v] obtain m1 where m1: "sl_map_put m k v = Some m1"
    "entries m1 = upd_entries k v (entries m)"
    "m_gc_clean m1 = (if k \<in> fst ` set (entries m) then 0 else min (m_count m) (m_gc_clean m))"
    by blast
  from del_ok [OF assms, of k] obtain m2 where m2: "sl_map_del m k = Some m2"
    "entries m2 = filter (\<lambda>(k', v). k' \<noteq> k) (entries m)" by blast
  have sub: "set (entries m1) \<subseteq> insert (k, v) (set (entries m))" "set (entries m2) \<subseteq> set (entries m)"
    using m1(2) m2(2) by (auto simp: upd_entries_def split: if_splits)
  have "take (m_gc_clean m1) (entries m1) = take (m_gc_clean m1) (entries m)"
    using m1(2,3) len by (simp add: upd_entries_def)
  then show ?thesis
    using m1(1,3) m2(1) sub del_clean [OF inv m2(1)] put_remembered [OF m1(1)] by auto
qed

theorem sl_map_gc_clean_contract_witness:
  "map_inv ((sl_map_new 1 1 False 0 0)\<lparr>gen := 1\<rparr>) \<and>
   (\<exists>m1. sl_map_put ((sl_map_new 1 1 False 0 0)\<lparr>gen := 1\<rparr>) [7] [9] = Some m1 \<and> remembered m1)"
proof -
  have inv: "map_inv ((sl_map_new 1 1 False 0 0)\<lparr>gen := 1\<rparr>)"
    using map_inv_new [of 1 1 False 0 0] tab_inv_cong [of "(sl_map_new 1 1 False 0 0)\<lparr>gen := 1\<rparr>" "sl_map_new 1 1 False 0 0"]
    by (simp add: map_inv_def)
  then show ?thesis using sl_map_gc_clean_contract [OF inv, of "[7]" "[9]"] by auto
qed

end
