(* ===== verification/Sl_Chan.thy ===== *)
theory Sl_Chan
  imports Sl_Gc_Obj
begin

text \<open>
  Channels, mutexes, joins and \<open>select\<close>, \<open>runtime/sl_containers.c\<close>. A task is a number. Every
  operation holds the lock of the object it works on from its test to its effect, and gives it
  up only when it parks or returns; so one definition models the code between two such points,
  takes the object and the scheduler state, and returns them. A task that parks is on the wait
  list and runs the same operation again once a waker has put it on the run queue; the
  step relations at the end of the theory interleave such passes of any number of tasks.

  Wait lists are linked through stack nodes with a head and a tail pointer. They are modelled
  with their pointers first, and shown to implement sequences; the operations on channels then
  use sequences of waiters.
\<close>

section \<open>Wait lists\<close>

text \<open>A node is its address; \<open>links\<close> is the \<open>next\<close> field of every node.\<close>

type_synonym links = "nat \<Rightarrow> nat option"

record wlist =
  wl_head :: "nat option"
  wl_tail :: "nat option"

definition sl_wl_push :: "links \<times> wlist \<Rightarrow> nat \<Rightarrow> links \<times> wlist" where
  "sl_wl_push s w =
     (let (nx, l) = s; nx = nx(w := None) in
      case wl_tail l of
        Some t \<Rightarrow> (nx(t := Some w), l\<lparr>wl_tail := Some w\<rparr>)
      | None \<Rightarrow> (nx, l\<lparr>wl_head := Some w, wl_tail := Some w\<rparr>))"

definition sl_wl_pop :: "links \<times> wlist \<Rightarrow> nat option \<times> links \<times> wlist" where
  "sl_wl_pop s =
     (let (nx, l) = s in
      case wl_head l of
        None \<Rightarrow> (None, nx, l)
      | Some w \<Rightarrow>
          (let l = l\<lparr>wl_head := nx w\<rparr>;
               l = (if wl_head l = None then l\<lparr>wl_tail := None\<rparr> else l)
           in (Some w, nx(w := None), l)))"

text \<open>
  The walk of \<open>sl_wl_remove\<close>: \<open>pp\<close> is the head when \<open>prev\<close> is \<open>NULL\<close> and \<open>prev->next\<close>
  otherwise. A list that never ends would keep it going: fuel, and \<open>None\<close> when it runs out.
\<close>

fun wl_remove_loop :: "nat \<Rightarrow> links \<Rightarrow> wlist \<Rightarrow> nat \<Rightarrow> nat option \<Rightarrow> nat option \<Rightarrow> (links \<times> wlist) option" where
  "wl_remove_loop 0 nx l w prev cur = None"
| "wl_remove_loop (Suc fuel) nx l w prev cur =
     (case cur of
        None \<Rightarrow> Some (nx, l)
      | Some c \<Rightarrow>
          if c = w then
            (let (nx', l') = (case prev of
                   None \<Rightarrow> (nx, l\<lparr>wl_head := nx w\<rparr>)
                 | Some p \<Rightarrow> (nx(p := nx w), l));
                 l' = (if wl_tail l' = Some w then l'\<lparr>wl_tail := prev\<rparr> else l')
             in Some (nx'(w := None), l'))
          else wl_remove_loop fuel nx l w (Some c) (nx c))"

definition sl_wl_remove :: "nat \<Rightarrow> links \<times> wlist \<Rightarrow> nat \<Rightarrow> (links \<times> wlist) option" where
  "sl_wl_remove fuel s w = wl_remove_loop fuel (fst s) (snd s) w None (wl_head (snd s))"

section \<open>Waking\<close>

type_synonym task = nat

record sl_waiter =
  wt_node :: nat
  wt_task :: task
  wt_sel :: "nat option"

record sl_select =
  sel_woken :: bool
  sel_parked :: bool
  sel_task :: task

text \<open>The scheduler as the wakers use it: the selects in flight and the run queue.\<close>

record rt =
  rt_sels :: "nat \<Rightarrow> sl_select"
  rt_runq :: "task list"

definition sl_task_resume :: "task \<Rightarrow> rt \<Rightarrow> rt" where
  "sl_task_resume t rt = rt\<lparr>rt_runq := rt_runq rt @ [t]\<rparr>"

definition sl_waiter_wake :: "sl_waiter \<Rightarrow> rt \<Rightarrow> bool \<times> rt" where
  "sl_waiter_wake w rt =
     (case wt_sel w of
        None \<Rightarrow> (True, sl_task_resume (wt_task w) rt)
      | Some s \<Rightarrow>
          (let sel = rt_sels rt s in
           if sel_woken sel then (False, rt)
           else
             (let rt = rt\<lparr>rt_sels := (rt_sels rt)(s := sel\<lparr>sel_woken := True\<rparr>)\<rparr> in
              if \<not> sel_parked sel then (True, rt)
              else (True, sl_task_resume (sel_task sel) rt))))"

fun sl_wl_wake_one :: "sl_waiter list \<Rightarrow> rt \<Rightarrow> sl_waiter list \<times> rt" where
  "sl_wl_wake_one [] rt = ([], rt)"
| "sl_wl_wake_one (w # ws) rt =
     (let (ok, rt) = sl_waiter_wake w rt in
      if ok then (ws, rt) else sl_wl_wake_one ws rt)"

section \<open>Channels\<close>

record sl_chan = sl_gc_obj +
  c_buf :: "sl_bytes list"
  c_elemsz :: nat
  c_cap :: nat
  c_head :: nat
  c_count :: nat
  c_closed :: bool
  c_elem_is_ptr :: nat
  c_send_waiters :: "sl_waiter list"
  c_recv_waiters :: "sl_waiter list"

text \<open>
  The index \<open>(head + k) % cap\<close> of the ring, in 32-bit arithmetic: the sum wraps, and the remainder of a
  negative sum is not positive.
\<close>

definition ring_at :: "nat \<Rightarrow> nat \<Rightarrow> nat \<Rightarrow> int" where
  "ring_at head k cap =
     (let s = signed_take_bit 31 (int head + int k)
      in if s < 0 then - ((- s) mod int cap) else s mod int cap)"

text \<open>\<open>before\<close> is the memory in front of the buffer, where a negative index reads.\<close>

definition sl_gc_trace_chan :: "(int \<Rightarrow> sl_bytes) \<Rightarrow> (u64 \<Rightarrow> 's \<Rightarrow> 's) \<Rightarrow> u64 \<Rightarrow> sl_chan \<Rightarrow> 's \<Rightarrow> 's" where
  "sl_gc_trace_chan before mark buf c st =
     (if buf = 0 then st
      else fold (\<lambda>k. let i = ring_at (c_head c) k (c_cap c)
                     in sl_gc_mark_slot mark (if i < 0 then before i else c_buf c ! nat i) (c_elemsz c) (c_elem_is_ptr c))
             [0..<c_count c] (mark buf st))"

definition sl_chan_new :: "nat \<Rightarrow> 32 word \<Rightarrow> nat \<Rightarrow> sl_chan" where
  "sl_chan_new elemsz cap elem_is_ptr =
     (let cap = nat (if sint cap < 1 then 1 else sint cap) in
      \<lparr>gen = 0, remembered = False, c_buf = replicate cap (replicate elemsz 0), c_elemsz = elemsz,
       c_cap = cap, c_head = 0, c_count = 0, c_closed = False, c_elem_is_ptr = elem_is_ptr,
       c_send_waiters = [], c_recv_waiters = []\<rparr>)"

definition sl_chan_take :: "sl_chan \<Rightarrow> sl_bytes \<times> sl_chan" where
  "sl_chan_take c =
     (c_buf c ! c_head c,
      c\<lparr>c_buf := (c_buf c)[c_head c := replicate (c_elemsz c) 0],
        c_head := nat (ring_at (c_head c) 1 (c_cap c)), c_count := c_count c - 1\<rparr>)"

text \<open>The store of a send, in \<open>sl_chan_send\<close> and in a select's send arm, with its barrier. A store at a
  negative index falls outside the buffer.\<close>

definition chan_put :: "sl_chan \<Rightarrow> sl_bytes \<Rightarrow> sl_chan" where
  "chan_put c val =
     (let tail = ring_at (c_head c) (c_count c) (c_cap c) in
      sl_gc_remember_obj (c\<lparr>c_buf := (if tail < 0 then c_buf c else (c_buf c)[nat tail := val]),
                            c_count := c_count c + 1\<rparr>))"

definition wake_receiver :: "sl_chan \<Rightarrow> rt \<Rightarrow> sl_chan \<times> rt" where
  "wake_receiver c rt =
     (let (ws, rt) = sl_wl_wake_one (c_recv_waiters c) rt in (c\<lparr>c_recv_waiters := ws\<rparr>, rt))"

definition wake_sender :: "sl_chan \<Rightarrow> rt \<Rightarrow> sl_chan \<times> rt" where
  "wake_sender c rt =
     (let (ws, rt) = sl_wl_wake_one (c_send_waiters c) rt in (c\<lparr>c_send_waiters := ws\<rparr>, rt))"

text \<open>How a pass of a blocking operation ends.\<close>

datatype 'a pass = Parked | Returned 'a | Panicked panic

definition sl_chan_send :: "sl_waiter \<Rightarrow> sl_bytes \<Rightarrow> sl_chan \<Rightarrow> rt \<Rightarrow> unit pass \<times> sl_chan \<times> rt" where
  "sl_chan_send self val c rt =
     (if c_count c = c_cap c \<and> \<not> c_closed c
      then (Parked, c\<lparr>c_send_waiters := c_send_waiters c @ [self]\<rparr>, rt)
      else if c_closed c then (Panicked (Panic ''send on closed channel'' 0 0), c, rt)
      else (Returned (), wake_receiver (chan_put c val) rt))"

definition sl_chan_recv :: "sl_waiter \<Rightarrow> sl_chan \<Rightarrow> rt \<Rightarrow> sl_bytes option pass \<times> sl_chan \<times> rt" where
  "sl_chan_recv self c rt =
     (if c_count c = 0 \<and> \<not> c_closed c
      then (Parked, c\<lparr>c_recv_waiters := c_recv_waiters c @ [self]\<rparr>, rt)
      else if c_count c = 0 then (Returned None, c, rt)
      else (let (out, c) = sl_chan_take c in (Returned (Some out), wake_sender c rt)))"

definition wake_all :: "sl_waiter list \<Rightarrow> rt \<Rightarrow> rt" where
  "wake_all ws rt = fold (\<lambda>w rt. snd (sl_waiter_wake w rt)) ws rt"

definition sl_chan_close :: "sl_chan \<Rightarrow> rt \<Rightarrow> sl_chan \<times> rt" where
  "sl_chan_close c rt =
     (c\<lparr>c_closed := True, c_recv_waiters := [], c_send_waiters := []\<rparr>,
      wake_all (c_send_waiters c) (wake_all (c_recv_waiters c) rt))"

section \<open>Mutexes\<close>

record sl_mutex =
  mx_held :: bool
  mx_owner :: "task option"
  mx_waiters :: "sl_waiter list"

definition sl_mutex_new :: sl_mutex where
  "sl_mutex_new = \<lparr>mx_held = False, mx_owner = None, mx_waiters = []\<rparr>"

text \<open>
  A pass of \<open>sl_mutex_lock\<close> by task \<open>wt_task self\<close>; only the first pass of a call makes the test
  for the caller's own lock.
\<close>

definition sl_mutex_lock :: "bool \<Rightarrow> sl_waiter \<Rightarrow> sl_mutex \<Rightarrow> unit pass \<times> sl_mutex" where
  "sl_mutex_lock first self m =
     (if first \<and> mx_held m \<and> mx_owner m = Some (wt_task self)
      then (Panicked (Panic (''mutex_lock: this task already holds this mutex '' @
              ''(slang mutexes are not recursive)'') 0 0), m)
      else if mx_held m then (Parked, m\<lparr>mx_waiters := mx_waiters m @ [self]\<rparr>)
      else (Returned (), m\<lparr>mx_held := True, mx_owner := Some (wt_task self)\<rparr>))"

definition sl_mutex_trylock :: "task \<Rightarrow> sl_mutex \<Rightarrow> bool \<times> sl_mutex" where
  "sl_mutex_trylock t m =
     (if \<not> mx_held m then (True, m\<lparr>mx_held := True, mx_owner := Some t\<rparr>) else (False, m))"

definition sl_mutex_unlock :: "task \<Rightarrow> sl_mutex \<Rightarrow> rt \<Rightarrow> unit pass \<times> sl_mutex \<times> rt" where
  "sl_mutex_unlock t m rt =
     (if \<not> mx_held m then (Panicked (Panic ''mutex_unlock: this mutex is not locked'' 0 0), m, rt)
      else if mx_owner m \<noteq> Some t
      then (Panicked (Panic ''mutex_unlock: this task does not hold this mutex'' 0 0), m, rt)
      else
        (let m = m\<lparr>mx_held := False, mx_owner := None\<rparr> in
         case mx_waiters m of
           [] \<Rightarrow> (Returned (), m, rt)
         | w # ws \<Rightarrow> (Returned (), m\<lparr>mx_waiters := ws\<rparr>, snd (sl_waiter_wake w rt))))"

section \<open>Joins\<close>

record sl_join = sl_gc_obj +
  j_done :: bool
  j_panicked :: bool
  j_err :: "string option"
  j_val :: sl_bytes
  j_valsz :: nat
  j_val_is_ptr :: nat
  j_waiter :: "task option"

definition sl_join_new :: "nat \<Rightarrow> nat \<Rightarrow> sl_join" where
  "sl_join_new valsz val_is_ptr =
     \<lparr>gen = 0, remembered = False, j_done = False, j_panicked = False, j_err = None,
      j_val = replicate (if valsz > 0 then valsz else 1) 0, j_valsz = valsz,
      j_val_is_ptr = val_is_ptr, j_waiter = None\<rparr>"

definition sl_gc_trace_join :: "(u64 \<Rightarrow> 's \<Rightarrow> 's) \<Rightarrow> u64 \<Rightarrow> u64 \<Rightarrow> sl_join \<Rightarrow> 's \<Rightarrow> 's" where
  "sl_gc_trace_join mark err val j st =
     (let st = mark val (mark err st) in
      if \<not> j_done j \<or> j_panicked j then st
      else sl_gc_mark_slot mark (j_val j) (j_valsz j) (j_val_is_ptr j) st)"

definition sl_join_wake :: "sl_join \<Rightarrow> rt \<Rightarrow> sl_join \<times> rt" where
  "sl_join_wake j rt =
     (case j_waiter j of
        None \<Rightarrow> (j, rt)
      | Some w \<Rightarrow> (j\<lparr>j_waiter := None\<rparr>, sl_task_resume w rt))"

definition sl_join_finish :: "sl_join \<Rightarrow> sl_bytes option \<Rightarrow> rt \<Rightarrow> sl_join \<times> rt" where
  "sl_join_finish j val rt =
     (if \<not> j_done j then
        (let stored = (val \<noteq> None \<and> j_valsz j \<noteq> 0);
             j = (if stored then j\<lparr>j_val := take (j_valsz j) (the val) @ drop (j_valsz j) (j_val j)\<rparr> else j);
             (j, rt) = sl_join_wake (j\<lparr>j_done := True\<rparr>) rt
         in (if stored then sl_gc_remember_obj j else j, rt))
      else (j, rt))"

definition sl_join_fail :: "sl_join \<Rightarrow> string \<Rightarrow> rt \<Rightarrow> sl_join \<times> rt" where
  "sl_join_fail j msg rt =
     (if \<not> j_done j then
        (let (j, rt) = sl_join_wake (j\<lparr>j_panicked := True, j_err := Some msg, j_done := True\<rparr>) rt
         in (sl_gc_remember_obj j, rt))
      else (j, rt))"

text \<open>The result is the flag and what was copied out.\<close>

definition sl_join_wait :: "task \<Rightarrow> sl_join \<Rightarrow> (bool \<times> sl_bytes) pass \<times> sl_join" where
  "sl_join_wait t j =
     (if \<not> j_done j then (Parked, j\<lparr>j_waiter := Some t\<rparr>)
      else (Returned (\<not> j_panicked j, if \<not> j_panicked j then take (j_valsz j) (j_val j) else []), j))"

definition sl_join_err :: "sl_join \<Rightarrow> string" where
  "sl_join_err j = (case j_err j of Some e \<Rightarrow> e | None \<Rightarrow> ''task panicked'')"

section \<open>Select\<close>

record sl_sel_case =
  sc_ch :: nat
  sc_is_send :: bool
  sc_val :: sl_bytes
  sc_closed :: bool

text \<open>Everything an arm can touch: the channels, the scheduler, and the rotating start.\<close>

record world =
  wd_chans :: "nat \<Rightarrow> sl_chan"
  wd_rt :: rt
  wd_sel_rr :: "32 word"

definition sl_sel_try_locked :: "sl_sel_case \<Rightarrow> sl_chan \<Rightarrow> rt \<Rightarrow> int \<times> sl_sel_case \<times> sl_chan \<times> rt" where
  "sl_sel_try_locked sc c rt =
     (if sc_is_send sc then
        (if c_closed c then (- 1, sc, c, rt)
         else if c_count c = c_cap c then (0, sc, c, rt)
         else (1, sc, wake_receiver (chan_put c (sc_val sc)) rt))
      else if c_count c > 0 then
        (let (out, c) = sl_chan_take c in (1, sc\<lparr>sc_val := out, sc_closed := False\<rparr>, wake_sender c rt))
      else if c_closed c then (1, sc\<lparr>sc_closed := True\<rparr>, c, rt)
      else (0, sc, c, rt))"

text \<open>The arm polled at turn \<open>k\<close>: unsigned arithmetic, as in the source.\<close>

definition poll_index :: "32 word \<Rightarrow> nat \<Rightarrow> nat \<Rightarrow> nat" where
  "poll_index start n k = unat ((start + word_of_nat k) mod word_of_nat n)"

text \<open>
  The turns from \<open>k\<close> on; the result is the arm that fired or -1, and the bad-send flag. Each turn holds
  the lock of its own channel only: \<open>env k\<close> is what other tasks do before turn \<open>k\<close> takes its lock.
\<close>

function sel_poll_loop ::
    "(nat \<Rightarrow> world \<Rightarrow> world) \<Rightarrow> 32 word \<Rightarrow> nat \<Rightarrow> sl_sel_case list \<Rightarrow> world \<Rightarrow> int \<times> bool \<times> sl_sel_case list \<times> world" where
  "sel_poll_loop env start k cs w =
     (if k < length cs then
        (let w = env k w;
             i = poll_index start (length cs) k; sc = cs ! i;
             (r, sc', c, rt) = sl_sel_try_locked sc (wd_chans w (sc_ch sc)) (wd_rt w);
             cs' = cs[i := sc'];
             w' = w\<lparr>wd_chans := (wd_chans w)(sc_ch sc := c), wd_rt := rt\<rparr>
         in if r < 0 then (- 1, True, cs', w')
            else if r > 0 then (int i, False, cs', w')
            else sel_poll_loop env start (k + 1) cs' w')
      else (- 1, False, cs, w))"
  by pat_completeness auto
termination
  by (relation "measure (\<lambda>(env, start, k, cs, w). length cs - k)") auto

declare sel_poll_loop.simps [simp del]

definition sl_sel_poll ::
    "(nat \<Rightarrow> world \<Rightarrow> world) \<Rightarrow> sl_sel_case list \<Rightarrow> world \<Rightarrow> int \<times> bool \<times> sl_sel_case list \<times> world" where
  "sl_sel_poll env cs w =
     (let start = wd_sel_rr w in sel_poll_loop env start 0 cs (w\<lparr>wd_sel_rr := start + 1\<rparr>))"

definition arm_push :: "sl_sel_case \<Rightarrow> sl_waiter \<Rightarrow> world \<Rightarrow> world" where
  "arm_push sc node w =
     (let c = wd_chans w (sc_ch sc);
          c = (if sc_is_send sc then c\<lparr>c_send_waiters := c_send_waiters c @ [node]\<rparr>
               else c\<lparr>c_recv_waiters := c_recv_waiters c @ [node]\<rparr>)
      in w\<lparr>wd_chans := (wd_chans w)(sc_ch sc := c)\<rparr>)"

definition arm_remove :: "sl_sel_case \<Rightarrow> sl_waiter \<Rightarrow> world \<Rightarrow> world" where
  "arm_remove sc node w =
     (let c = wd_chans w (sc_ch sc);
          c = (if sc_is_send sc then c\<lparr>c_send_waiters := remove1 node (c_send_waiters c)\<rparr>
               else c\<lparr>c_recv_waiters := remove1 node (c_recv_waiters c)\<rparr>)
      in w\<lparr>wd_chans := (wd_chans w)(sc_ch sc := c)\<rparr>)"

text \<open>The nodes of a select: arm \<open>i\<close>'s node is at \<open>base + i\<close>.\<close>

definition sel_nodes :: "nat \<Rightarrow> nat \<Rightarrow> task \<Rightarrow> nat \<Rightarrow> sl_waiter list" where
  "sel_nodes base n t sel = map (\<lambda>i. \<lparr>wt_node = base + i, wt_task = t, wt_sel = Some sel\<rparr>) [0..<n]"

definition sl_sel_enqueue :: "sl_sel_case list \<Rightarrow> sl_waiter list \<Rightarrow> world \<Rightarrow> world" where
  "sl_sel_enqueue cs nodes w = fold (\<lambda>(sc, node). arm_push sc node) (zip cs nodes) w"

definition sl_sel_dequeue :: "sl_sel_case list \<Rightarrow> sl_waiter list \<Rightarrow> world \<Rightarrow> world" where
  "sl_sel_dequeue cs nodes w = fold (\<lambda>(sc, node). arm_remove sc node) (zip cs nodes) w"

text \<open>
  The parts of \<open>sl_select_run\<close> between its lock regions. A select begins with a clean record (0 is the
  null task); it puts its task into the record before it puts its nodes on the lists; after the
  second poll it parks unless it has been claimed; when it goes round again it takes its nodes off
  every list and resets the record.
\<close>

definition set_select :: "nat \<Rightarrow> sl_select \<Rightarrow> world \<Rightarrow> world" where
  "set_select sel s w = w\<lparr>wd_rt := (wd_rt w)\<lparr>rt_sels := (rt_sels (wd_rt w))(sel := s)\<rparr>\<rparr>"

definition select_begin :: "nat \<Rightarrow> world \<Rightarrow> world" where
  "select_begin sel w = set_select sel \<lparr>sel_woken = False, sel_parked = False, sel_task = 0\<rparr> w"

definition select_enqueue :: "nat \<Rightarrow> task \<Rightarrow> sl_sel_case list \<Rightarrow> sl_waiter list \<Rightarrow> world \<Rightarrow> world" where
  "select_enqueue sel t cs nodes w =
     sl_sel_enqueue cs nodes (set_select sel ((rt_sels (wd_rt w) sel)\<lparr>sel_task := t\<rparr>) w)"

definition select_park :: "nat \<Rightarrow> world \<Rightarrow> bool \<times> world" where
  "select_park sel w =
     (let s = rt_sels (wd_rt w) sel in
      if sel_woken s then (False, w) else (True, set_select sel (s\<lparr>sel_parked := True\<rparr>) w))"

definition select_reset :: "nat \<Rightarrow> sl_sel_case list \<Rightarrow> sl_waiter list \<Rightarrow> world \<Rightarrow> world" where
  "select_reset sel cs nodes w =
     (let w = sl_sel_dequeue cs nodes w
      in set_select sel ((rt_sels (wd_rt w) sel)\<lparr>sel_woken := False, sel_parked := False\<rparr>) w)"

text \<open>
  \<open>sl_select_run\<close> of task \<open>t\<close>, one step at a time: where it is, its arms and the world. A parked
  select goes on only when a waker has put its task on the run queue; \<open>None\<close> is a step that cannot
  be made.
\<close>

datatype sel_pc = SPoll | SEnqueue | SPoll2 | SPark | SParked | SReset | SFired nat | SDefault | SBad

record sel_sys =
  ss_pc :: sel_pc
  ss_cs :: "sl_sel_case list"
  ss_w :: world

definition sl_select_run_step ::
    "bool \<Rightarrow> nat \<Rightarrow> task \<Rightarrow> sl_waiter list \<Rightarrow> (nat \<Rightarrow> world \<Rightarrow> world) \<Rightarrow> sel_sys \<Rightarrow> sel_sys option" where
  "sl_select_run_step has_default sel t nodes env s =
     (let cs = ss_cs s; w = ss_w s
      in case ss_pc s of
           SPoll \<Rightarrow>
             (let (fired, bad, cs, w) = sl_sel_poll env cs w;
                  pc = (if bad then SBad else if fired \<ge> 0 then SFired (nat fired)
                        else if has_default then SDefault else SEnqueue)
              in Some \<lparr>ss_pc = pc, ss_cs = cs, ss_w = w\<rparr>)
         | SEnqueue \<Rightarrow> Some (s\<lparr>ss_pc := SPoll2, ss_w := select_enqueue sel t cs nodes w\<rparr>)
         | SPoll2 \<Rightarrow>
             (let (fired, bad, cs, w) = sl_sel_poll env cs w
              in if bad \<or> fired \<ge> 0
                 then Some \<lparr>ss_pc = (if bad then SBad else SFired (nat fired)), ss_cs = cs,
                            ss_w = sl_sel_dequeue cs nodes w\<rparr>
                 else Some \<lparr>ss_pc = SPark, ss_cs = cs, ss_w = w\<rparr>)
         | SPark \<Rightarrow>
             (let (parks, w) = select_park sel w
              in Some (s\<lparr>ss_pc := (if parks then SParked else SReset), ss_w := w\<rparr>))
         | SParked \<Rightarrow>
             (if t \<in> set (rt_runq (wd_rt w))
              then Some (s\<lparr>ss_pc := SReset,
                           ss_w := w\<lparr>wd_rt := (wd_rt w)\<lparr>rt_runq := remove1 t (rt_runq (wd_rt w))\<rparr>\<rparr>\<rparr>)
              else None)
         | SReset \<Rightarrow> Some (s\<lparr>ss_pc := SPoll, ss_w := select_reset sel cs nodes w\<rparr>)
         | _ \<Rightarrow> None)"

section \<open>Wait lists are sequences\<close>

fun chain :: "links \<Rightarrow> nat option \<Rightarrow> nat list \<Rightarrow> bool" where
  "chain nx h [] = (h = None)"
| "chain nx h (x # xs) = (h = Some x \<and> chain nx (nx x) xs)"

definition is_wl :: "links \<times> wlist \<Rightarrow> nat list \<Rightarrow> bool" where
  "is_wl s xs \<longleftrightarrow> distinct xs \<and> chain (fst s) (wl_head (snd s)) xs \<and>
     wl_tail (snd s) = (if xs = [] then None else Some (last xs))"

lemma chain_cong: "(\<And>x. x \<in> set xs \<Longrightarrow> nx' x = nx x) \<Longrightarrow> chain nx' h xs = chain nx h xs"
  by (induction xs arbitrary: h) auto

lemma chain_append:
  "distinct (xs @ [w]) \<Longrightarrow> xs \<noteq> [] \<Longrightarrow> chain nx h xs \<Longrightarrow>
     chain (nx(w := None, last xs := Some w)) h (xs @ [w])"
proof (induction xs arbitrary: h)
  case (Cons x xs)
  show ?case
  proof (cases "xs = []")
    case True
    then show ?thesis using Cons.prems by auto
  next
    case False
    then have "x \<noteq> last xs" using Cons.prems(1) by auto
    then show ?thesis using Cons False by auto
  qed
qed simp

lemma wl_push_ok:
  assumes "is_wl s xs" and "w \<notin> set xs"
  shows "is_wl (sl_wl_push s w) (xs @ [w])"
proof (cases "xs = []")
  case True
  then show ?thesis using assms by (auto simp: is_wl_def sl_wl_push_def split: prod.split)
next
  case False
  then show ?thesis
    using assms chain_append [of xs w "fst s" "wl_head (snd s)"]
    by (auto simp: is_wl_def sl_wl_push_def split: prod.split)
qed

lemma wl_pop_ok:
  assumes "is_wl s xs"
  shows "fst (sl_wl_pop s) = (case xs of [] \<Rightarrow> None | x # _ \<Rightarrow> Some x) \<and> is_wl (snd (sl_wl_pop s)) (tl xs)"
proof (cases xs)
  case Nil
  then show ?thesis using assms by (auto simp: is_wl_def sl_wl_pop_def split: prod.split)
next
  case (Cons x ys)
  then have "chain ((fst s)(x := None)) (fst s x) ys"
    using assms by (auto simp: is_wl_def intro: chain_cong [THEN iffD2, rotated])
  then show ?thesis
    using assms Cons by (cases ys) (auto simp: is_wl_def sl_wl_pop_def split: prod.split)
qed

lemma remove_loop_absent:
  "chain nx cur xs \<Longrightarrow> w \<notin> set xs \<Longrightarrow> length xs < fuel \<Longrightarrow>
     wl_remove_loop fuel nx l w prev cur = Some (nx, l)"
proof (induction xs arbitrary: fuel prev cur)
  case Nil
  then show ?case by (cases fuel) auto
next
  case (Cons x xs)
  then show ?case by (cases fuel) auto
qed

lemma chain_remove:
  "chain nx h (ps @ w # ys) \<Longrightarrow> distinct (ps @ w # ys) \<Longrightarrow> ps \<noteq> [] \<Longrightarrow>
     chain (nx(last ps := nx w, w := None)) h (ps @ ys)"
proof (induction ps arbitrary: h)
  case (Cons p ps)
  show ?case
  proof (cases "ps = []")
    case True
    let ?nx = "nx(last [p] := nx w, w := None)"
    have c: "h = Some p" "nx p = Some w" "chain nx (nx w) ys" "p \<noteq> w" "p \<notin> set ys" "w \<notin> set ys"
      using Cons.prems True by auto
    have "chain ?nx (nx w) ys" using c(3,5,6) by (subst chain_cong [of ys _ nx]) auto
    moreover have "?nx p = nx w" using c(4) by simp
    ultimately show ?thesis using True c(1) by (simp only: append.simps chain.simps)
  next
    case False
    then have "p \<noteq> last ps" "p \<noteq> w" using Cons.prems(2) by auto
    then show ?thesis using Cons False by auto
  qed
qed simp

lemma chain_next: "chain nx h (ps @ x # y # zs) \<Longrightarrow> nx x = Some y"
  by (induction ps arbitrary: h) auto

text \<open>From the node \<open>cur\<close> on, with the nodes \<open>ps\<close> behind it.\<close>

lemma remove_loop_present:
  assumes "is_wl (nx, l) (ps @ xs @ w # ys)" and "length xs < fuel"
  shows "\<exists>s'. wl_remove_loop fuel nx l w (if ps = [] then None else Some (last ps))
      (case xs of [] \<Rightarrow> Some w | x # _ \<Rightarrow> Some x) = Some s' \<and> is_wl s' (ps @ xs @ ys)"
  using assms
proof (induction xs arbitrary: fuel ps)
  case Nil
  then obtain f where f: "fuel = Suc f" by (cases fuel) auto
  have lw: "ys \<noteq> [] \<Longrightarrow> last ys \<noteq> w" using Nil(1) last_in_set [of ys] by (auto simp: is_wl_def)
  show ?case
  proof (cases "ps = []")
    case True
    have "chain (nx(w := None)) (nx w) ys"
      using Nil(1) True by (auto simp: is_wl_def intro: chain_cong [THEN iffD2, rotated])
    then show ?thesis using Nil(1) True f lw by (cases "ys = []") (auto simp: is_wl_def)
  next
    case False
    have "chain (nx(last ps := nx w, w := None)) (wl_head l) (ps @ ys)"
      using Nil(1) False by (intro chain_remove) (auto simp: is_wl_def)
    then show ?thesis using Nil(1) False f lw by (cases "ys = []") (auto simp: is_wl_def)
  qed
next
  case (Cons x xs)
  then obtain f where f: "fuel = Suc f" by (cases fuel) auto
  have nx: "nx x = (case xs of [] \<Rightarrow> Some w | y # _ \<Rightarrow> Some y)" "x \<noteq> w"
    using Cons.prems(1) chain_next [of nx "wl_head l" ps x] by (auto simp: is_wl_def split: list.split)
  show ?case using Cons.IH [of "ps @ [x]" f] Cons.prems f nx by simp
qed

lemma wl_remove_ok:
  assumes "is_wl s xs" and "length xs < fuel"
  shows "\<exists>s'. sl_wl_remove fuel s w = Some s' \<and> is_wl s' (remove1 w xs)"
proof (cases "w \<in> set xs")
  case True
  then obtain as bs where xs: "xs = as @ w # bs" "w \<notin> set as" by (meson split_list_first)
  then have "remove1 w xs = as @ bs" by (simp add: remove1_append)
  moreover have "wl_head (snd s) = (case as of [] \<Rightarrow> Some w | x # _ \<Rightarrow> Some x)"
    using assms(1) xs by (cases as) (auto simp: is_wl_def)
  ultimately show ?thesis
    using remove_loop_present [of "fst s" "snd s" "[]" as w bs fuel] assms xs
    by (simp add: sl_wl_remove_def)
next
  case False
  have "sl_wl_remove fuel s w = Some s"
    using assms False remove_loop_absent [of "fst s" "wl_head (snd s)" xs w fuel "snd s" None]
    by (simp add: sl_wl_remove_def is_wl_def)
  then show ?thesis using assms False by (simp add: remove1_idem)
qed

text \<open>The interface: a first-in first-out queue of distinct nodes.\<close>

locale fifo_queue =
  fixes rep :: "'q \<Rightarrow> 'a list \<Rightarrow> bool"
    and push :: "'q \<Rightarrow> 'a \<Rightarrow> 'q"
    and pop :: "'q \<Rightarrow> 'a option \<times> 'q"
    and empty :: 'q
  assumes rep_empty: "rep empty []"
    and push_law: "rep q xs \<Longrightarrow> x \<notin> set xs \<Longrightarrow> rep (push q x) (xs @ [x])"
    and pop_law: "rep q xs \<Longrightarrow>
      fst (pop q) = (case xs of [] \<Rightarrow> None | x # _ \<Rightarrow> Some x) \<and> rep (snd (pop q)) (tl xs)"
begin

lemma push_all: "rep q ys \<Longrightarrow> distinct (ys @ xs) \<Longrightarrow> rep (fold (\<lambda>x q. push q x) xs q) (ys @ xs)"
proof (induction xs arbitrary: q ys)
  case (Cons x xs)
  then have "rep (push q x) (ys @ [x])" by (intro push_law) auto
  with Cons.IH [of "push q x" "ys @ [x]"] Cons.prems show ?case by simp
qed simp

lemma pop_all:
  "rep q xs \<Longrightarrow> map (\<lambda>k. fst (pop (((\<lambda>q. snd (pop q)) ^^ k) q))) [0..<length xs] = map Some xs"
proof (induction xs arbitrary: q)
  case (Cons x xs)
  let ?q = "snd (pop q)"
  have "rep ?q xs" "fst (pop q) = Some x" using pop_law [OF Cons.prems] by simp_all
  moreover have "map (\<lambda>k. fst (pop (((\<lambda>q. snd (pop q)) ^^ k) q))) [0..<length (x # xs)] =
      fst (pop q) # map (\<lambda>k. fst (pop (((\<lambda>q. snd (pop q)) ^^ k) ?q))) [0..<length xs]"
  proof -
    have "[0..<length (x # xs)] = 0 # map Suc [0..<length xs]"
      by (simp add: upt_conv_Cons map_Suc_upt del: upt_Suc)
    then show ?thesis by (simp only: list.map map_map o_def funpow_Suc_right funpow_0)
  qed
  ultimately show ?case using Cons.IH by simp
qed simp

end

interpretation wait_list: fifo_queue is_wl sl_wl_push sl_wl_pop
  "(\<lambda>_. None, \<lparr>wl_head = None, wl_tail = None\<rparr>)"
  by unfold_locales (simp add: is_wl_def, (rule wl_push_ok; assumption), (rule wl_pop_ok, assumption))

section \<open>The ring is a queue\<close>

definition chan_queue :: "sl_chan \<Rightarrow> sl_bytes list" where
  "chan_queue c = map (\<lambda>k. c_buf c ! ((c_head c + k) mod c_cap c)) [0..<c_count c]"

lemma ring_at_eq:
  assumes "head + k < 2 ^ 31"
  shows "ring_at head k cap = int ((head + k) mod cap)"
proof -
  have "signed_take_bit 31 (int head + int k) = int (head + k)"
    using assms by (simp add: signed_take_bit_int_eq_self)
  then show ?thesis by (simp add: ring_at_def Let_def zmod_int)
qed

text \<open>Where the sum wraps, the index is not positive: in front of the buffer, or its first slot.\<close>

lemma ring_at_wraps:
  assumes "2 ^ 31 \<le> head + k" and "head < 2 ^ 31" and "k < 2 ^ 31" and "0 < cap"
  shows "ring_at head k cap = - ((2 ^ 32 - int head - int k) mod int cap)"
proof -
  define x where "x = int head + int k - 2147483648"
  have "0 \<le> x" "x < 4294967296" using assms(1-3) by (simp_all add: x_def)
  then have "(x + 4294967296) mod 4294967296 = x" by simp
  then have "(int head + int k + 2147483648) mod 4294967296 = int head + int k - 2147483648"
    by (simp add: x_def add.commute)
  then have s: "signed_take_bit 31 (int head + int k) = int head + int k - 2 ^ 32"
    by (simp add: signed_take_bit_eq_take_bit_shift take_bit_eq_mod)
  have "int head + int k - 2 ^ 32 < 0" "- (int head + int k - 2 ^ 32) = 2 ^ 32 - int head - int k" using assms(2,3) by simp_all
  then show ?thesis unfolding ring_at_def Let_def s by (simp only: if_True)
qed

text \<open>
  The invariant; its last line is what lets the tracer skip the slots outside the queue. In a
  channel of more than \<open>2 ^ 30\<close> slots the index of a send can wrap.
\<close>

definition chan_inv :: "sl_chan \<Rightarrow> bool" where
  "chan_inv c \<longleftrightarrow> 1 \<le> c_cap c \<and> c_cap c < 2 ^ 31 \<and> length (c_buf c) = c_cap c \<and> c_head c < c_cap c \<and>
     c_count c \<le> c_cap c \<and> (\<forall>x\<in>set (c_buf c). length x = c_elemsz c) \<and>
     (c_cap c \<le> 2 ^ 30 \<longrightarrow> (\<forall>k. c_count c \<le> k \<and> k < c_cap c \<longrightarrow>
        c_buf c ! ((c_head c + k) mod c_cap c) = replicate (c_elemsz c) 0))"

lemma chan_invD:
  assumes "chan_inv c"
  shows "0 < c_cap c" "length (c_buf c) = c_cap c" "c_head c < c_cap c" "c_count c \<le> c_cap c"
    "x \<in> set (c_buf c) \<Longrightarrow> length x = c_elemsz c"
    "c_cap c \<le> 2 ^ 30 \<Longrightarrow> c_count c \<le> k \<Longrightarrow> k < c_cap c \<Longrightarrow>
       c_buf c ! ((c_head c + k) mod c_cap c) = replicate (c_elemsz c) 0"
    "c_cap c < 2 ^ 31"
  using assms unfolding chan_inv_def by auto

lemma chan_ring:
  assumes "chan_inv c" and "c_cap c \<le> 2 ^ 30" and "k < c_cap c"
  shows "ring_at (c_head c) k (c_cap c) = int ((c_head c + k) mod c_cap c)"
proof (rule ring_at_eq)
  have "c_head c < 2 ^ 30" "k < 2 ^ 30" using assms chan_invD(3) [OF assms(1)] by linarith+
  then show "c_head c + k < 2 ^ 31" by simp
qed

lemma chan_next:
  assumes "chan_inv c"
  shows "nat (ring_at (c_head c) 1 (c_cap c)) = (c_head c + 1) mod c_cap c"
proof -
  have "c_head c + 1 < 2 ^ 31" using chan_invD(3,7) [OF assms] by linarith
  then show ?thesis by (simp only: ring_at_eq nat_int)
qed

lemma chan_new_ok: "chan_inv (sl_chan_new elemsz cap p)" "chan_queue (sl_chan_new elemsz cap p) = []"
proof -
  have "sint cap < 2 ^ 31" using sint_lt [of cap] by simp
  then show "chan_inv (sl_chan_new elemsz cap p)" by (auto simp: chan_inv_def sl_chan_new_def Let_def nat_less_iff)
qed (simp add: chan_queue_def sl_chan_new_def Let_def)

lemma queue_slot:
  assumes "chan_inv c" and "j < c_cap c" and "k < c_cap c"
  shows "(c_buf c)[(c_head c + k) mod c_cap c := v] ! ((c_head c + j) mod c_cap c) =
    (if j = k then v else c_buf c ! ((c_head c + j) mod c_cap c))"
  using ring_inj [OF chan_invD(3) [OF assms(1)] assms(2,3)] chan_invD(1,2) [OF assms(1)]
  by (auto simp: nth_list_update)

lemma length_queue [simp]: "length (chan_queue c) = c_count c"
  by (simp add: chan_queue_def)

lemma set_list_update_length:
  "\<forall>x\<in>set xs. length x = n \<Longrightarrow> length v = n \<Longrightarrow> x \<in> set (xs[i := v]) \<Longrightarrow> length x = n"
  using set_update_subset_insert [of xs i v] by auto

lemma remember_chan [simp]:
  "c_buf (sl_gc_remember_obj c) = c_buf c" "c_elemsz (sl_gc_remember_obj c) = c_elemsz c"
  "c_cap (sl_gc_remember_obj c) = c_cap c" "c_head (sl_gc_remember_obj c) = c_head c"
  "c_count (sl_gc_remember_obj c) = c_count c" "c_closed (sl_gc_remember_obj c) = c_closed c"
  "c_send_waiters (sl_gc_remember_obj c) = c_send_waiters c"
  "c_recv_waiters (sl_gc_remember_obj c) = c_recv_waiters c"
  by (simp_all add: sl_gc_remember_obj_def)

lemma put_fields [simp]:
  "c_elemsz (chan_put c v) = c_elemsz c" "c_cap (chan_put c v) = c_cap c"
  "c_head (chan_put c v) = c_head c" "c_count (chan_put c v) = c_count c + 1"
  "c_closed (chan_put c v) = c_closed c" "c_send_waiters (chan_put c v) = c_send_waiters c"
  "c_recv_waiters (chan_put c v) = c_recv_waiters c"
  by (simp_all add: chan_put_def Let_def)

lemma chan_put_buf:
  assumes "chan_inv c" and "c_cap c \<le> 2 ^ 30" and "c_count c < c_cap c"
  shows "c_buf (chan_put c v) = (c_buf c)[(c_head c + c_count c) mod c_cap c := v]"
  using chan_ring [OF assms] by (simp add: chan_put_def Let_def)

lemma chan_put_ok:
  assumes "chan_inv c" and "c_count c < c_cap c" and "length v = c_elemsz c"
  shows "chan_inv (chan_put c v)" and "c_cap c \<le> 2 ^ 30 \<Longrightarrow> chan_queue (chan_put c v) = chan_queue c @ [v]"
proof -
  note q = queue_slot [OF assms(1) _ assms(2), where v = v]
  have "length x = c_elemsz c" if "x \<in> set (c_buf (chan_put c v))" for x
    using that set_list_update_length [OF _ assms(3)] chan_invD(5) [OF assms(1)]
    by (auto simp: chan_put_def Let_def split: if_splits)
  moreover have "length (c_buf (chan_put c v)) = c_cap c"
    using chan_invD(2) [OF assms(1)] by (simp add: chan_put_def Let_def)
  moreover have "c_buf (chan_put c v) ! ((c_head c + k) mod c_cap c) = replicate (c_elemsz c) 0"
    if "c_cap c \<le> 2 ^ 30" "Suc (c_count c) \<le> k" "k < c_cap c" for k
    using q [of k] that chan_invD(6) [OF assms(1), of k] chan_put_buf [OF assms(1) that(1) assms(2)] by simp
  ultimately show "chan_inv (chan_put c v)"
    using assms chan_invD [OF assms(1)] by (simp add: chan_inv_def)
  show "chan_queue (chan_put c v) = chan_queue c @ [v]" if "c_cap c \<le> 2 ^ 30"
    using q assms(2) chan_put_buf [OF assms(1) that assms(2)] by (simp add: chan_queue_def)
qed

lemma take_fields [simp]:
  "c_elemsz (snd (sl_chan_take c)) = c_elemsz c" "c_cap (snd (sl_chan_take c)) = c_cap c"
  "c_closed (snd (sl_chan_take c)) = c_closed c" "c_count (snd (sl_chan_take c)) = c_count c - 1"
  "c_send_waiters (snd (sl_chan_take c)) = c_send_waiters c"
  "c_recv_waiters (snd (sl_chan_take c)) = c_recv_waiters c"
  by (simp_all add: sl_chan_take_def)

lemma take_ok:
  assumes "chan_inv c" and "0 < c_count c"
  shows "chan_inv (snd (sl_chan_take c))"
    and "chan_queue c = fst (sl_chan_take c) # chan_queue (snd (sl_chan_take c))"
proof -
  let ?z = "replicate (c_elemsz c) 0" and ?c = "c_cap c" and ?h = "c_head c"
  note d = chan_invD [OF assms(1)]
  have q: "(c_buf c)[?h := ?z] ! ((?h + j) mod ?c) = (if j = 0 then ?z else c_buf c ! ((?h + j) mod ?c))"
    if "j < ?c" for j
    using queue_slot [OF assms(1) that d(1), where v = ?z] d(3) by simp
  have shift: "((?h + 1) mod ?c + k) mod ?c = (?h + Suc k) mod ?c" for k by (simp add: mod_simps)
  have wrap: "(?h + ?c) mod ?c = ?h" using d(3) by simp
  have "length x = c_elemsz c" if "x \<in> set ((c_buf c)[?h := ?z])" for x
    using that set_list_update_length [of "c_buf c" "c_elemsz c" ?z] d(5) by auto
  moreover have "(c_buf c)[?h := ?z] ! (((?h + 1) mod ?c + k) mod ?c) = ?z"
    if "c_count c - 1 \<le> k" "k < ?c" "?c \<le> 2 ^ 30" for k
  proof (cases "Suc k = ?c")
    case True
    then have "(?h + Suc k) mod ?c = ?h" using wrap by simp
    then show ?thesis using d(2,3) unfolding shift by simp
  next
    case False
    then have "Suc k < ?c" using that by simp
    then show ?thesis unfolding shift using q [of "Suc k"] d(6) [of "Suc k"] that by simp
  qed
  ultimately show "chan_inv (snd (sl_chan_take c))"
    using d assms by (simp add: chan_inv_def sl_chan_take_def chan_next [OF assms(1)] del: One_nat_def)
  have qs: "(c_buf c)[?h := ?z] ! ((?h + Suc k) mod ?c) = c_buf c ! ((?h + Suc k) mod ?c)"
    if "k < c_count c - 1" for k using q [of "Suc k"] that d(4) by simp
  have "chan_queue (snd (sl_chan_take c)) =
      map (\<lambda>k. (c_buf c)[?h := ?z] ! (((?h + 1) mod ?c + k) mod ?c)) [0..<c_count c - 1]"
    by (simp add: chan_queue_def sl_chan_take_def chan_next [OF assms(1)] del: One_nat_def)
  also have "\<dots> = map (\<lambda>k. c_buf c ! ((?h + Suc k) mod ?c)) [0..<c_count c - 1]"
    unfolding shift using qs by (intro map_cong) auto
  finally have "chan_queue (snd (sl_chan_take c)) = map (\<lambda>k. c_buf c ! ((?h + Suc k) mod ?c)) [0..<c_count c - 1]" .
  moreover have "[0..<c_count c] = 0 # map Suc [0..<c_count c - 1]"
    using assms(2) by (simp add: upt_conv_Cons map_Suc_upt)
  ultimately show "chan_queue c = fst (sl_chan_take c) # chan_queue (snd (sl_chan_take c))"
    using d(3) by (simp add: chan_queue_def sl_chan_take_def)
qed

section \<open>Any number of tasks on one channel\<close>

text \<open>
  What a task is doing, and the system: the channel, the scheduler, every task, and the values
  whose send and whose receive have completed, in order.
\<close>

datatype ch_pc = Idle | Sending sl_bytes | Receiving | Dead

record chan_sys =
  sy_ch :: sl_chan
  sy_rt :: rt
  sy_pc :: "task \<Rightarrow> ch_pc"
  sy_sent :: "sl_bytes list"
  sy_rcvd :: "sl_bytes list"

definition plain_waiter :: "task \<Rightarrow> sl_waiter" where
  "plain_waiter t = \<lparr>wt_node = t, wt_task = t, wt_sel = None\<rparr>"

definition do_send :: "task \<Rightarrow> sl_bytes \<Rightarrow> chan_sys \<Rightarrow> chan_sys" where
  "do_send t v s =
     (let (r, c, rt) = sl_chan_send (plain_waiter t) v (sy_ch s) (sy_rt s);
          s = s\<lparr>sy_ch := c, sy_rt := rt\<rparr>
      in case r of
           Parked \<Rightarrow> s\<lparr>sy_pc := (sy_pc s)(t := Sending v)\<rparr>
         | Returned _ \<Rightarrow> s\<lparr>sy_pc := (sy_pc s)(t := Idle), sy_sent := sy_sent s @ [v]\<rparr>
         | Panicked _ \<Rightarrow> s\<lparr>sy_pc := (sy_pc s)(t := Dead)\<rparr>)"

definition do_recv :: "task \<Rightarrow> chan_sys \<Rightarrow> chan_sys" where
  "do_recv t s =
     (let (r, c, rt) = sl_chan_recv (plain_waiter t) (sy_ch s) (sy_rt s);
          s = s\<lparr>sy_ch := c, sy_rt := rt\<rparr>
      in case r of
           Parked \<Rightarrow> s\<lparr>sy_pc := (sy_pc s)(t := Receiving)\<rparr>
         | Returned (Some v) \<Rightarrow> s\<lparr>sy_pc := (sy_pc s)(t := Idle), sy_rcvd := sy_rcvd s @ [v]\<rparr>
         | Returned None \<Rightarrow> s\<lparr>sy_pc := (sy_pc s)(t := Idle)\<rparr>
         | Panicked _ \<Rightarrow> s\<lparr>sy_pc := (sy_pc s)(t := Dead)\<rparr>)"

definition do_close :: "chan_sys \<Rightarrow> chan_sys" where
  "do_close s = (let (c, rt) = sl_chan_close (sy_ch s) (sy_rt s) in s\<lparr>sy_ch := c, sy_rt := rt\<rparr>)"

definition dequeued :: "task \<Rightarrow> chan_sys \<Rightarrow> chan_sys" where
  "dequeued t s = s\<lparr>sy_rt := (sy_rt s)\<lparr>rt_runq := remove1 t (rt_runq (sy_rt s))\<rparr>\<rparr>"

text \<open>
  A step is one pass: a call by an idle task, the next pass of a task the scheduler runs again
  (any task on the run queue), or a close by anyone.
\<close>

inductive chan_step :: "chan_sys \<Rightarrow> chan_sys \<Rightarrow> bool" where
  call_send: "sy_pc s t = Idle \<Longrightarrow> length v = c_elemsz (sy_ch s) \<Longrightarrow> chan_step s (do_send t v s)"
| call_recv: "sy_pc s t = Idle \<Longrightarrow> chan_step s (do_recv t s)"
| resume_send: "t \<in> set (rt_runq (sy_rt s)) \<Longrightarrow> sy_pc s t = Sending v \<Longrightarrow>
    chan_step s (do_send t v (dequeued t s))"
| resume_recv: "t \<in> set (rt_runq (sy_rt s)) \<Longrightarrow> sy_pc s t = Receiving \<Longrightarrow>
    chan_step s (do_recv t (dequeued t s))"
| close: "chan_step s (do_close s)"

definition chan_start :: "nat \<Rightarrow> 32 word \<Rightarrow> nat \<Rightarrow> chan_sys" where
  "chan_start elemsz cap p =
     \<lparr>sy_ch = sl_chan_new elemsz cap p,
      sy_rt = \<lparr>rt_sels = \<lambda>_. \<lparr>sel_woken = False, sel_parked = False, sel_task = 0\<rparr>, rt_runq = []\<rparr>,
      sy_pc = \<lambda>_. Idle, sy_sent = [], sy_rcvd = []\<rparr>"

inductive chan_reachable :: "nat \<Rightarrow> 32 word \<Rightarrow> nat \<Rightarrow> chan_sys \<Rightarrow> bool" for elemsz cap p where
  start: "chan_reachable elemsz cap p (chan_start elemsz cap p)"
| step: "chan_reachable elemsz cap p s \<Longrightarrow> chan_step s s' \<Longrightarrow> chan_reachable elemsz cap p s'"

section \<open>The channel invariant\<close>

abbreviation S_tasks :: "chan_sys \<Rightarrow> task list" where
  "S_tasks s \<equiv> map wt_task (c_send_waiters (sy_ch s))"

abbreviation R_tasks :: "chan_sys \<Rightarrow> task list" where
  "R_tasks s \<equiv> map wt_task (c_recv_waiters (sy_ch s))"

abbreviation runq :: "chan_sys \<Rightarrow> task list" where
  "runq s \<equiv> rt_runq (sy_rt s)"

definition is_sending :: "ch_pc \<Rightarrow> bool" where
  "is_sending p = (case p of Sending _ \<Rightarrow> True | _ \<Rightarrow> False)"

definition woken_senders :: "chan_sys \<Rightarrow> nat" where
  "woken_senders s = length (filter (\<lambda>t. is_sending (sy_pc s t)) (runq s))"

definition woken_receivers :: "chan_sys \<Rightarrow> nat" where
  "woken_receivers s = length (filter (\<lambda>t. sy_pc s t = Receiving) (runq s))"

text \<open>Every blocked task is in exactly one place, and its waiter is a plain one.\<close>

definition places_ok :: "chan_sys \<Rightarrow> bool" where
  "places_ok s \<longleftrightarrow> distinct (S_tasks s @ R_tasks s @ runq s) \<and>
     (\<forall>w\<in>set (c_send_waiters (sy_ch s)) \<union> set (c_recv_waiters (sy_ch s)). wt_sel w = None) \<and>
     (\<forall>t\<in>set (S_tasks s). is_sending (sy_pc s t)) \<and>
     (\<forall>t\<in>set (R_tasks s). sy_pc s t = Receiving) \<and>
     (\<forall>t\<in>set (runq s). is_sending (sy_pc s t) \<or> sy_pc s t = Receiving) \<and>
     (\<forall>t. is_sending (sy_pc s t) \<or> sy_pc s t = Receiving \<longrightarrow>
        t \<in> set (S_tasks s @ R_tasks s @ runq s)) \<and>
     (\<forall>t v. sy_pc s t = Sending v \<longrightarrow> length v = c_elemsz (sy_ch s))"

text \<open>
  No wake-up is lost: while receivers wait, every queued value has a woken receiver on its way to
  it; while senders wait, so has every free slot. After a close nobody waits.
\<close>

definition wakeups_ok :: "chan_sys \<Rightarrow> bool" where
  "wakeups_ok s \<longleftrightarrow>
     (R_tasks s \<noteq> [] \<longrightarrow> c_count (sy_ch s) \<le> woken_receivers s) \<and>
     (S_tasks s \<noteq> [] \<longrightarrow> c_cap (sy_ch s) - c_count (sy_ch s) \<le> woken_senders s) \<and>
     (c_closed (sy_ch s) \<longrightarrow> S_tasks s = [] \<and> R_tasks s = [])"

definition sys_inv :: "chan_sys \<Rightarrow> bool" where
  "sys_inv s \<longleftrightarrow> chan_inv (sy_ch s) \<and> (c_cap (sy_ch s) \<le> 2 ^ 30 \<longrightarrow> sy_sent s = sy_rcvd s @ chan_queue (sy_ch s)) \<and>
     places_ok s \<and> wakeups_ok s"

text \<open>
  The state in which task \<open>t\<close> makes its pass: it is on no list, and when it comes from the run
  queue its wake-up has been used.
\<close>

definition places_hand :: "task \<Rightarrow> chan_sys \<Rightarrow> bool" where
  "places_hand t s \<longleftrightarrow> distinct (S_tasks s @ R_tasks s @ runq s) \<and>
     t \<notin> set (S_tasks s @ R_tasks s @ runq s) \<and>
     (\<forall>w\<in>set (c_send_waiters (sy_ch s)) \<union> set (c_recv_waiters (sy_ch s)). wt_sel w = None) \<and>
     (\<forall>t'\<in>set (S_tasks s). is_sending (sy_pc s t')) \<and>
     (\<forall>t'\<in>set (R_tasks s). sy_pc s t' = Receiving) \<and>
     (\<forall>t'\<in>set (runq s). is_sending (sy_pc s t') \<or> sy_pc s t' = Receiving) \<and>
     (\<forall>t'. t' \<noteq> t \<longrightarrow> is_sending (sy_pc s t') \<or> sy_pc s t' = Receiving \<longrightarrow>
        t' \<in> set (S_tasks s @ R_tasks s @ runq s)) \<and>
     (\<forall>t' v. t' \<noteq> t \<longrightarrow> sy_pc s t' = Sending v \<longrightarrow> length v = c_elemsz (sy_ch s))"

definition hand_inv :: "task \<Rightarrow> nat \<Rightarrow> nat \<Rightarrow> chan_sys \<Rightarrow> bool" where
  "hand_inv t ds dr s \<longleftrightarrow> chan_inv (sy_ch s) \<and> (c_cap (sy_ch s) \<le> 2 ^ 30 \<longrightarrow> sy_sent s = sy_rcvd s @ chan_queue (sy_ch s)) \<and>
     places_hand t s \<and>
     (R_tasks s \<noteq> [] \<longrightarrow> c_count (sy_ch s) \<le> woken_receivers s + dr) \<and>
     (S_tasks s \<noteq> [] \<longrightarrow> c_cap (sy_ch s) - c_count (sy_ch s) \<le> woken_senders s + ds) \<and>
     (c_closed (sy_ch s) \<longrightarrow> S_tasks s = [] \<and> R_tasks s = [])"

lemma wake_one_plain:
  "wt_sel w = None \<Longrightarrow> sl_wl_wake_one (w # ws) rt = (ws, sl_task_resume (wt_task w) rt)"
  by (simp add: sl_waiter_wake_def)

lemma filter_other:
  "t \<notin> set ts \<Longrightarrow> filter (\<lambda>x. P ((pc(t := p)) x)) ts = filter (\<lambda>x. P (pc x)) ts"
  by (rule filter_cong) auto

lemma is_sending_simps [simp]:
  "is_sending (Sending v)" "\<not> is_sending Idle" "\<not> is_sending Receiving" "\<not> is_sending Dead"
  by (simp_all add: is_sending_def)

lemma is_sendingE: "is_sending p \<Longrightarrow> (\<And>v. p = Sending v \<Longrightarrow> thesis) \<Longrightarrow> thesis"
  by (cases p) auto

lemma plain_waiter_fields [simp]: "wt_task (plain_waiter t) = t" "wt_sel (plain_waiter t) = None"
  by (simp_all add: plain_waiter_def)

lemma hand_idle:
  assumes "sys_inv s" and "sy_pc s t = Idle"
  shows "hand_inv t ds dr s"
proof -
  have t: "t \<notin> set (S_tasks s @ R_tasks s @ runq s)"
  proof
    assume "t \<in> set (S_tasks s @ R_tasks s @ runq s)"
    then have "is_sending (sy_pc s t) \<or> sy_pc s t = Receiving"
      using assms(1) unfolding sys_inv_def places_ok_def by (metis UnE set_append)
    then show False using assms(2) by simp
  qed
  then have "places_hand t s" using assms unfolding sys_inv_def places_ok_def places_hand_def by blast
  then show ?thesis using assms(1) by (simp add: sys_inv_def hand_inv_def wakeups_ok_def trans_le_add1)
qed

lemma hand_resumed:
  assumes inv: "sys_inv s" and t: "t \<in> set (runq s)"
  shows "hand_inv t (if is_sending (sy_pc s t) then 1 else 0) (if sy_pc s t = Receiving then 1 else 0)
    (dequeued t s)"
proof -
  have d: "distinct (runq s)" using inv by (simp add: sys_inv_def places_ok_def)
  have count: "length (filter P (runq s)) \<le> length (filter P (remove1 t (runq s))) + (if P t then 1 else 0)" for P
  proof -
    obtain xs ys where q: "runq s = xs @ t # ys" "t \<notin> set xs" using t by (meson split_list_first)
    then show ?thesis by (simp add: remove1_append)
  qed
  have "places_hand t (dequeued t s)"
    using inv d t by (auto simp: sys_inv_def places_ok_def places_hand_def dequeued_def)
  then show ?thesis
    using inv count [of "\<lambda>t. is_sending (sy_pc s t)"] count [of "\<lambda>t. sy_pc s t = Receiving"]
    by (auto simp: sys_inv_def hand_inv_def wakeups_ok_def dequeued_def woken_senders_def
        woken_receivers_def)
qed

lemma send_parked_ok:
  assumes inv: "hand_inv t 1 0 s" and v: "length v = c_elemsz (sy_ch s)"
    and full: "c_count (sy_ch s) = c_cap (sy_ch s)" "\<not> c_closed (sy_ch s)"
  shows "sys_inv (do_send t v s)"
proof -
  let ?c = "(sy_ch s)\<lparr>c_send_waiters := c_send_waiters (sy_ch s) @ [plain_waiter t]\<rparr>"
  have eq: "do_send t v s = s\<lparr>sy_ch := ?c, sy_pc := (sy_pc s)(t := Sending v)\<rparr>"
    using full by (simp add: do_send_def sl_chan_send_def)
  have t: "t \<notin> set (runq s)" using inv by (simp add: hand_inv_def places_hand_def)
  have "places_ok (do_send t v s)"
    using inv v unfolding eq by (auto simp: hand_inv_def places_hand_def places_ok_def)
  moreover have "wakeups_ok (do_send t v s)"
    using inv full filter_other [OF t, where P = "\<lambda>p. p = Receiving"] unfolding eq
    by (simp add: hand_inv_def wakeups_ok_def woken_receivers_def)
  moreover have "chan_inv ?c" "chan_queue ?c = chan_queue (sy_ch s)"
    using inv by (simp_all add: hand_inv_def chan_inv_def chan_queue_def)
  ultimately show ?thesis using inv unfolding sys_inv_def by (simp add: eq hand_inv_def)
qed

lemma dead_ok:
  assumes inv: "hand_inv t ds dr s" and closed: "c_closed (sy_ch s)" and p: "p = Idle \<or> p = Dead"
  shows "sys_inv (s\<lparr>sy_pc := (sy_pc s)(t := p)\<rparr>)"
proof -
  have lists: "c_send_waiters (sy_ch s) = []" "c_recv_waiters (sy_ch s) = []"
    using inv closed by (simp_all add: hand_inv_def)
  have "places_ok (s\<lparr>sy_pc := (sy_pc s)(t := p)\<rparr>)"
    using inv p lists by (auto simp: hand_inv_def places_hand_def places_ok_def)
  then show ?thesis using inv lists by (simp add: sys_inv_def hand_inv_def wakeups_ok_def)
qed

lemma chan_waiters_irrelevant [simp]:
  "chan_inv (c\<lparr>c_recv_waiters := ws\<rparr>) = chan_inv c" "chan_queue (c\<lparr>c_recv_waiters := ws\<rparr>) = chan_queue c"
  "chan_inv (c\<lparr>c_send_waiters := ws\<rparr>) = chan_inv c" "chan_queue (c\<lparr>c_send_waiters := ws\<rparr>) = chan_queue c"
  by (simp_all add: chan_inv_def chan_queue_def)

text \<open>A pass that succeeded ends by waking the first waiter of the other side, if there is one.\<close>

lemma wake_receiver_ok:
  assumes inv: "hand_inv t 0 1 s"
  shows "sys_inv (let (c, rt) = wake_receiver (sy_ch s) (sy_rt s)
                  in s\<lparr>sy_ch := c, sy_rt := rt, sy_pc := (sy_pc s)(t := Idle)\<rparr>)"
proof (cases "c_recv_waiters (sy_ch s)")
  case Nil
  then have wk: "wake_receiver (sy_ch s) (sy_rt s) = (sy_ch s, sy_rt s)" by (simp add: wake_receiver_def)
  have t: "t \<notin> set (runq s)" using inv by (simp add: hand_inv_def places_hand_def)
  let ?s = "s\<lparr>sy_pc := (sy_pc s)(t := Idle)\<rparr>"
  have "places_ok ?s" using inv by (auto simp: hand_inv_def places_hand_def places_ok_def)
  moreover have "wakeups_ok ?s"
    using inv Nil filter_other [OF t, where P = is_sending]
    by (simp add: hand_inv_def wakeups_ok_def woken_senders_def)
  ultimately show ?thesis using inv wk by (simp add: sys_inv_def hand_inv_def)
next
  case (Cons w ws)
  have ph: "places_hand t s" using inv by (simp add: hand_inv_def)
  have w: "wt_sel w = None" using ph Cons by (simp add: places_hand_def)
  let ?s = "s\<lparr>sy_ch := (sy_ch s)\<lparr>c_recv_waiters := ws\<rparr>, sy_rt := sl_task_resume (wt_task w) (sy_rt s),
      sy_pc := (sy_pc s)(t := Idle)\<rparr>"
  have wk: "wake_receiver (sy_ch s) (sy_rt s) =
      ((sy_ch s)\<lparr>c_recv_waiters := ws\<rparr>, sl_task_resume (wt_task w) (sy_rt s))"
    using Cons wake_one_plain [OF w] by (simp add: wake_receiver_def del: sl_wl_wake_one.simps)
  have t: "t \<notin> set (runq s)" "t \<noteq> wt_task w" using ph Cons by (auto simp: places_hand_def)
  have pcw: "sy_pc s (wt_task w) = Receiving" using ph Cons by (simp add: places_hand_def)
  have "places_ok ?s" using ph Cons by (auto simp: places_hand_def places_ok_def sl_task_resume_def)
  moreover have "woken_receivers ?s = woken_receivers s + 1" "woken_senders ?s = woken_senders s"
    using filter_other [OF t(1), where P = "\<lambda>p. p = Receiving"] filter_other [OF t(1), where P = is_sending]
      t(2) pcw
    by (simp_all add: woken_receivers_def woken_senders_def sl_task_resume_def)
  moreover have "c_closed (sy_ch s) = False" using inv Cons by (simp add: hand_inv_def)
  ultimately show ?thesis using inv wk Cons by (simp add: sys_inv_def hand_inv_def wakeups_ok_def)
qed

lemma wake_sender_ok:
  assumes inv: "hand_inv t 1 0 s"
  shows "sys_inv (let (c, rt) = wake_sender (sy_ch s) (sy_rt s)
                  in s\<lparr>sy_ch := c, sy_rt := rt, sy_pc := (sy_pc s)(t := Idle)\<rparr>)"
proof (cases "c_send_waiters (sy_ch s)")
  case Nil
  then have wk: "wake_sender (sy_ch s) (sy_rt s) = (sy_ch s, sy_rt s)" by (simp add: wake_sender_def)
  have t: "t \<notin> set (runq s)" using inv by (simp add: hand_inv_def places_hand_def)
  let ?s = "s\<lparr>sy_pc := (sy_pc s)(t := Idle)\<rparr>"
  have "places_ok ?s" using inv by (auto simp: hand_inv_def places_hand_def places_ok_def)
  moreover have "wakeups_ok ?s"
    using inv Nil filter_other [OF t, where P = "\<lambda>p. p = Receiving"]
    by (simp add: hand_inv_def wakeups_ok_def woken_receivers_def)
  ultimately show ?thesis using inv wk by (simp add: sys_inv_def hand_inv_def)
next
  case (Cons w ws)
  have ph: "places_hand t s" using inv by (simp add: hand_inv_def)
  have w: "wt_sel w = None" using ph Cons by (simp add: places_hand_def)
  let ?s = "s\<lparr>sy_ch := (sy_ch s)\<lparr>c_send_waiters := ws\<rparr>, sy_rt := sl_task_resume (wt_task w) (sy_rt s),
      sy_pc := (sy_pc s)(t := Idle)\<rparr>"
  have wk: "wake_sender (sy_ch s) (sy_rt s) =
      ((sy_ch s)\<lparr>c_send_waiters := ws\<rparr>, sl_task_resume (wt_task w) (sy_rt s))"
    using Cons wake_one_plain [OF w] by (simp add: wake_sender_def del: sl_wl_wake_one.simps)
  have t: "t \<notin> set (runq s)" "t \<noteq> wt_task w" using ph Cons by (auto simp: places_hand_def)
  have pcw: "is_sending (sy_pc s (wt_task w))" using ph Cons by (simp add: places_hand_def)
  then have pcw': "sy_pc s (wt_task w) \<noteq> Receiving" by auto
  have "places_ok ?s" using ph Cons by (auto simp: places_hand_def places_ok_def sl_task_resume_def)
  moreover have "woken_senders ?s = woken_senders s + 1" "woken_receivers ?s = woken_receivers s"
    using filter_other [OF t(1), where P = "\<lambda>p. p = Receiving"] filter_other [OF t(1), where P = is_sending]
      t(2) pcw pcw'
    by (simp_all add: woken_receivers_def woken_senders_def sl_task_resume_def)
  moreover have "c_closed (sy_ch s) = False" using inv Cons by (simp add: hand_inv_def)
  ultimately show ?thesis using inv wk Cons by (simp add: sys_inv_def hand_inv_def wakeups_ok_def)
qed

lemma do_send_ok:
  assumes inv: "hand_inv t 1 0 s" and v: "length v = c_elemsz (sy_ch s)"
  shows "sys_inv (do_send t v s)"
proof (cases "c_closed (sy_ch s)")
  case True
  then have "do_send t v s = s\<lparr>sy_pc := (sy_pc s)(t := Dead)\<rparr>"
    by (simp add: do_send_def sl_chan_send_def)
  then show ?thesis using dead_ok [OF inv True, of Dead] by simp
next
  case open_: False
  show ?thesis
  proof (cases "c_count (sy_ch s) = c_cap (sy_ch s)")
    case True
    then show ?thesis by (rule send_parked_ok [OF inv v _ open_])
  next
    case False
    let ?s = "s\<lparr>sy_ch := chan_put (sy_ch s) v, sy_sent := sy_sent s @ [v]\<rparr>"
    have ch: "chan_inv (sy_ch s)" using inv by (simp add: hand_inv_def)
    then have lt: "c_count (sy_ch s) < c_cap (sy_ch s)" using False chan_invD(4) by fastforce
    have "places_hand t ?s" using inv by (simp add: hand_inv_def places_hand_def)
    moreover have "woken_senders ?s = woken_senders s" "woken_receivers ?s = woken_receivers s"
      by (simp_all add: woken_senders_def woken_receivers_def)
    ultimately have "hand_inv t 0 1 ?s"
      using inv lt chan_put_ok [OF ch lt v] by (auto simp: hand_inv_def)
    from wake_receiver_ok [OF this] have
      "sys_inv (let (c, rt) = wake_receiver (chan_put (sy_ch s) v) (sy_rt s)
         in ?s\<lparr>sy_ch := c, sy_rt := rt, sy_pc := (sy_pc s)(t := Idle)\<rparr>)" by simp
    moreover have "do_send t v s = (let (c, rt) = wake_receiver (chan_put (sy_ch s) v) (sy_rt s)
         in ?s\<lparr>sy_ch := c, sy_rt := rt, sy_pc := (sy_pc s)(t := Idle)\<rparr>)"
      using False open_ by (simp add: do_send_def sl_chan_send_def split: prod.split)
    ultimately show ?thesis by simp
  qed
qed

lemma recv_parked_ok:
  assumes inv: "hand_inv t 0 1 s" and empty: "c_count (sy_ch s) = 0" "\<not> c_closed (sy_ch s)"
  shows "sys_inv (do_recv t s)"
proof -
  let ?c = "(sy_ch s)\<lparr>c_recv_waiters := c_recv_waiters (sy_ch s) @ [plain_waiter t]\<rparr>"
  have eq: "do_recv t s = s\<lparr>sy_ch := ?c, sy_pc := (sy_pc s)(t := Receiving)\<rparr>"
    using empty by (simp add: do_recv_def sl_chan_recv_def)
  have t: "t \<notin> set (runq s)" using inv by (simp add: hand_inv_def places_hand_def)
  have "places_ok (do_recv t s)"
    using inv unfolding eq by (auto simp: hand_inv_def places_hand_def places_ok_def)
  moreover have "wakeups_ok (do_recv t s)"
    using inv empty filter_other [OF t, where P = is_sending] unfolding eq
    by (simp add: hand_inv_def wakeups_ok_def woken_senders_def)
  ultimately show ?thesis using inv unfolding sys_inv_def by (simp add: eq hand_inv_def)
qed

lemma do_recv_ok:
  assumes inv: "hand_inv t 0 1 s"
  shows "sys_inv (do_recv t s)"
proof (cases "c_count (sy_ch s) = 0")
  case True
  show ?thesis
  proof (cases "c_closed (sy_ch s)")
    case closed: True
    then have "do_recv t s = s\<lparr>sy_pc := (sy_pc s)(t := Idle)\<rparr>"
      using True by (simp add: do_recv_def sl_chan_recv_def)
    then show ?thesis using dead_ok [OF inv closed, of Idle] by simp
  next
    case False
    then show ?thesis by (rule recv_parked_ok [OF inv True])
  qed
next
  case False
  obtain out c where tk: "sl_chan_take (sy_ch s) = (out, c)" by (cases "sl_chan_take (sy_ch s)")
  let ?s = "s\<lparr>sy_ch := c, sy_rcvd := sy_rcvd s @ [out]\<rparr>"
  have ch: "chan_inv (sy_ch s)" using inv by (simp add: hand_inv_def)
  have pos: "0 < c_count (sy_ch s)" using False by simp
  note f = take_fields [of "sy_ch s", unfolded tk snd_conv]
  have "places_hand t ?s" using inv by (simp add: hand_inv_def places_hand_def f)
  moreover have "woken_senders ?s = woken_senders s" "woken_receivers ?s = woken_receivers s"
    by (simp_all add: woken_senders_def woken_receivers_def)
  ultimately have "hand_inv t 1 0 ?s"
    using inv pos take_ok [OF ch pos] by (auto simp: hand_inv_def f tk)
  from wake_sender_ok [OF this] have
    "sys_inv (let (c, rt) = wake_sender c (sy_rt s)
       in ?s\<lparr>sy_ch := c, sy_rt := rt, sy_pc := (sy_pc s)(t := Idle)\<rparr>)" by simp
  moreover have "do_recv t s = (let (c, rt) = wake_sender c (sy_rt s)
       in ?s\<lparr>sy_ch := c, sy_rt := rt, sy_pc := (sy_pc s)(t := Idle)\<rparr>)"
    using False tk by (simp add: do_recv_def sl_chan_recv_def split: prod.split)
  ultimately show ?thesis by simp
qed

lemma wake_all_plain:
  "\<forall>w\<in>set ws. wt_sel w = None \<Longrightarrow> wake_all ws rt = rt\<lparr>rt_runq := rt_runq rt @ map wt_task ws\<rparr>"
  by (induction ws arbitrary: rt) (auto simp: wake_all_def sl_waiter_wake_def sl_task_resume_def)

lemma do_close_ok:
  assumes "sys_inv s"
  shows "sys_inv (do_close s)"
proof -
  have po: "places_ok s" using assms by (simp add: sys_inv_def)
  have wk: "wake_all (c_send_waiters (sy_ch s)) (wake_all (c_recv_waiters (sy_ch s)) (sy_rt s)) =
      (sy_rt s)\<lparr>rt_runq := runq s @ R_tasks s @ S_tasks s\<rparr>"
    using po by (simp add: places_ok_def wake_all_plain)
  have eq: "do_close s = s\<lparr>sy_ch := (sy_ch s)\<lparr>c_closed := True, c_recv_waiters := [], c_send_waiters := []\<rparr>,
      sy_rt := (sy_rt s)\<lparr>rt_runq := runq s @ R_tasks s @ S_tasks s\<rparr>\<rparr>"
    by (simp add: do_close_def sl_chan_close_def wk)
  have "places_ok (do_close s)" using po unfolding eq by (auto simp: places_ok_def)
  moreover have "chan_inv (sy_ch (do_close s))" "chan_queue (sy_ch (do_close s)) = chan_queue (sy_ch s)"
    using assms unfolding eq by (simp_all add: sys_inv_def chan_inv_def chan_queue_def)
  ultimately show ?thesis using assms by (simp add: sys_inv_def wakeups_ok_def) (simp add: eq)
qed

lemma chan_step_inv: "chan_step s s' \<Longrightarrow> sys_inv s \<Longrightarrow> sys_inv s'"
proof (induction rule: chan_step.induct)
  case (call_send s t v)
  then show ?case by (intro do_send_ok hand_idle)
next
  case (call_recv s t)
  then show ?case by (intro do_recv_ok hand_idle)
next
  case (resume_send t s v)
  then show ?case
    using hand_resumed [of s t] by (intro do_send_ok) (auto simp: sys_inv_def places_ok_def dequeued_def)
next
  case (resume_recv t s)
  then show ?case using hand_resumed [of s t] by (intro do_recv_ok) auto
next
  case (close s)
  then show ?case by (rule do_close_ok)
qed

lemma chan_step_cap: "chan_step s s' \<Longrightarrow> c_cap (sy_ch s') = c_cap (sy_ch s)"
  by (induction rule: chan_step.induct)
    (auto simp: do_send_def do_recv_def do_close_def dequeued_def sl_chan_send_def sl_chan_recv_def sl_chan_close_def
      wake_receiver_def wake_sender_def sl_chan_take_def Let_def split: prod.splits)

lemma chan_reachable_cap: "chan_reachable elemsz cap p s \<Longrightarrow> c_cap (sy_ch s) = nat (max 1 (sint cap))"
  by (induction rule: chan_reachable.induct) (auto simp: chan_start_def sl_chan_new_def Let_def chan_step_cap)

lemma chan_reachable_inv: "chan_reachable elemsz cap p s \<Longrightarrow> sys_inv s"
proof (induction rule: chan_reachable.induct)
  case start
  then show ?case
    using chan_new_ok [of elemsz cap p]
    by (simp add: sys_inv_def chan_start_def places_ok_def wakeups_ok_def)
      (simp add: sl_chan_new_def Let_def)
qed (rule chan_step_inv)

section \<open>Any number of tasks on one mutex\<close>

datatype mx_pc = MIdle | MLocking | MHolding | MDead

record mutex_sys =
  ms_mx :: sl_mutex
  ms_rt :: rt
  ms_pc :: "task \<Rightarrow> mx_pc"

definition do_lock :: "bool \<Rightarrow> task \<Rightarrow> mutex_sys \<Rightarrow> mutex_sys" where
  "do_lock first t s =
     (let (r, m) = sl_mutex_lock first (plain_waiter t) (ms_mx s);
          p = (case r of Parked \<Rightarrow> MLocking | Returned _ \<Rightarrow> MHolding | Panicked _ \<Rightarrow> MDead)
      in s\<lparr>ms_mx := m, ms_pc := (ms_pc s)(t := p)\<rparr>)"

definition do_trylock :: "task \<Rightarrow> mutex_sys \<Rightarrow> mutex_sys" where
  "do_trylock t s =
     (let (got, m) = sl_mutex_trylock t (ms_mx s)
      in s\<lparr>ms_mx := m, ms_pc := (ms_pc s)(t := if got then MHolding else MIdle)\<rparr>)"

definition do_unlock :: "task \<Rightarrow> mutex_sys \<Rightarrow> mutex_sys" where
  "do_unlock t s =
     (let (r, m, rt) = sl_mutex_unlock t (ms_mx s) (ms_rt s);
          p = (case r of Panicked _ \<Rightarrow> MDead | _ \<Rightarrow> MIdle)
      in s\<lparr>ms_mx := m, ms_rt := rt, ms_pc := (ms_pc s)(t := p)\<rparr>)"

text \<open>
  An idle task may lock, try, or unlock (which is refused); the holder may unlock or lock again
  (which is refused, and ends it with the lock held); a woken task makes its next pass.
\<close>

inductive mutex_step :: "mutex_sys \<Rightarrow> mutex_sys \<Rightarrow> bool" where
  lock: "ms_pc s t = MIdle \<Longrightarrow> mutex_step s (do_lock True t s)"
| relock: "ms_pc s t = MHolding \<Longrightarrow> mutex_step s (do_lock True t s)"
| trylock: "ms_pc s t = MIdle \<Longrightarrow> mutex_step s (do_trylock t s)"
| unlock: "ms_pc s t = MIdle \<or> ms_pc s t = MHolding \<Longrightarrow> mutex_step s (do_unlock t s)"
| resume: "t \<in> set (rt_runq (ms_rt s)) \<Longrightarrow>
    mutex_step s (do_lock False t
      (s\<lparr>ms_rt := (ms_rt s)\<lparr>rt_runq := remove1 t (rt_runq (ms_rt s))\<rparr>\<rparr>))"

inductive mutex_reachable :: "mutex_sys \<Rightarrow> bool" where
  start: "mutex_reachable \<lparr>ms_mx = sl_mutex_new,
    ms_rt = \<lparr>rt_sels = \<lambda>_. \<lparr>sel_woken = False, sel_parked = False, sel_task = 0\<rparr>, rt_runq = []\<rparr>,
    ms_pc = \<lambda>_. MIdle\<rparr>"
| step: "mutex_reachable s \<Longrightarrow> mutex_step s s' \<Longrightarrow> mutex_reachable s'"

definition owner_ok :: "(task \<Rightarrow> mx_pc) \<Rightarrow> bool \<Rightarrow> task option \<Rightarrow> bool" where
  "owner_ok pc held owner \<longleftrightarrow>
     (case owner of
        None \<Rightarrow> \<not> held \<and> (\<forall>t. pc t \<noteq> MHolding)
      | Some h \<Rightarrow> held \<and> (\<forall>t. t \<noteq> h \<longrightarrow> pc t \<noteq> MHolding) \<and> (pc h = MHolding \<or> pc h = MDead))"

definition mx_inv :: "mutex_sys \<Rightarrow> bool" where
  "mx_inv s \<longleftrightarrow> owner_ok (ms_pc s) (mx_held (ms_mx s)) (mx_owner (ms_mx s)) \<and>
     distinct (map wt_task (mx_waiters (ms_mx s)) @ rt_runq (ms_rt s)) \<and>
     (\<forall>w\<in>set (mx_waiters (ms_mx s)). wt_sel w = None) \<and>
     {t. ms_pc s t = MLocking} = set (map wt_task (mx_waiters (ms_mx s)) @ rt_runq (ms_rt s)) \<and>
     (mx_waiters (ms_mx s) \<noteq> [] \<longrightarrow> mx_held (ms_mx s) \<or> rt_runq (ms_rt s) \<noteq> [])"

lemma locking_upd:
  "{x. (pc(t := p)) x = MLocking} =
     (if p = MLocking then insert t {x. pc x = MLocking} else {x. pc x = MLocking} - {t})"
  by auto

lemma owner_ok_upd:
  assumes "owner_ok pc held owner"
  shows "pc t = MIdle \<or> pc t = MLocking \<Longrightarrow> p = MIdle \<or> p = MLocking \<or> p = MDead \<Longrightarrow> owner_ok (pc(t := p)) held owner"
    and "\<not> held \<Longrightarrow> owner_ok (pc(t := MHolding)) True (Some t)"
    and "owner = Some t \<Longrightarrow> owner_ok (pc(t := MDead)) held owner"
    and "owner = Some t \<Longrightarrow> owner_ok (pc(t := MIdle)) False None"
    and "pc t = MHolding \<Longrightarrow> held \<and> owner = Some t"
    and "pc t = MIdle \<or> pc t = MLocking \<Longrightarrow> owner \<noteq> Some t"
    and "owner \<noteq> None \<longleftrightarrow> held"
  using assms by (auto simp: owner_ok_def split: option.splits) metis+

lemma mx_invD:
  assumes "mx_inv s"
  shows "owner_ok (ms_pc s) (mx_held (ms_mx s)) (mx_owner (ms_mx s))"
    and "distinct (map wt_task (mx_waiters (ms_mx s)) @ rt_runq (ms_rt s))"
    and "{t. ms_pc s t = MLocking} = set (map wt_task (mx_waiters (ms_mx s)) @ rt_runq (ms_rt s))"
  using assms unfolding mx_inv_def by blast+

lemma mx_invD_place:
  assumes "mx_inv s"
  shows "set (map wt_task (mx_waiters (ms_mx s))) \<inter> set (rt_runq (ms_rt s)) = {}"
    and "ms_pc s t \<noteq> MLocking \<Longrightarrow> t \<notin> set (map wt_task (mx_waiters (ms_mx s))) \<and> t \<notin> set (rt_runq (ms_rt s))"
    and "t \<in> set (rt_runq (ms_rt s)) \<Longrightarrow> ms_pc s t = MLocking"
proof -
  show "set (map wt_task (mx_waiters (ms_mx s))) \<inter> set (rt_runq (ms_rt s)) = {}"
    using mx_invD(2) [OF assms] by (simp only: distinct_append)
  have "ms_pc s t = MLocking \<longleftrightarrow> t \<in> set (map wt_task (mx_waiters (ms_mx s)) @ rt_runq (ms_rt s))"
    using mx_invD(3) [OF assms] by blast
  then show "ms_pc s t \<noteq> MLocking \<Longrightarrow> t \<notin> set (map wt_task (mx_waiters (ms_mx s))) \<and> t \<notin> set (rt_runq (ms_rt s))"
    and "t \<in> set (rt_runq (ms_rt s)) \<Longrightarrow> ms_pc s t = MLocking" by simp_all
qed

text \<open>A pass of \<open>sl_mutex_lock\<close> by a task that is on no list.\<close>

lemma do_lock_ok:
  assumes inv: "mx_inv s" and pc: "ms_pc s t = MIdle"
  shows "mx_inv (do_lock True t s)"
proof -
  note o = owner_ok_upd [OF mx_invD(1) [OF inv]]
  have no: "mx_owner (ms_mx s) \<noteq> Some t" using o(6) pc by blast
  have t: "t \<notin> set (map wt_task (mx_waiters (ms_mx s))) \<and> t \<notin> set (rt_runq (ms_rt s))"
    using mx_invD_place(2) [OF inv] pc by simp
  show ?thesis
  proof (cases "mx_held (ms_mx s)")
    case True
    then have eq: "do_lock True t s = s\<lparr>ms_mx := (ms_mx s)\<lparr>mx_waiters := mx_waiters (ms_mx s) @ [plain_waiter t]\<rparr>,
        ms_pc := (ms_pc s)(t := MLocking)\<rparr>"
      using no by (simp add: do_lock_def sl_mutex_lock_def)
    have "owner_ok ((ms_pc s)(t := MLocking)) (mx_held (ms_mx s)) (mx_owner (ms_mx s))"
      using o(1) pc by blast
    then show ?thesis using inv t True unfolding eq mx_inv_def by (simp add: locking_upd del: fun_upd_apply; auto)
  next
    case False
    then have eq: "do_lock True t s = s\<lparr>ms_mx := (ms_mx s)\<lparr>mx_held := True, mx_owner := Some t\<rparr>,
        ms_pc := (ms_pc s)(t := MHolding)\<rparr>"
      by (simp add: do_lock_def sl_mutex_lock_def)
    show ?thesis
      using inv t o(2) [OF False] unfolding eq mx_inv_def by (simp add: locking_upd del: fun_upd_apply)
  qed
qed

lemma do_relock_ok:
  assumes inv: "mx_inv s" and pc: "ms_pc s t = MHolding"
  shows "mx_inv (do_lock True t s)"
proof -
  note o = owner_ok_upd [OF mx_invD(1) [OF inv]]
  have own: "mx_held (ms_mx s)" "mx_owner (ms_mx s) = Some t" using o(5) [OF pc] by auto
  then have eq: "do_lock True t s = s\<lparr>ms_pc := (ms_pc s)(t := MDead)\<rparr>"
    by (simp add: do_lock_def sl_mutex_lock_def)
  show ?thesis using inv o(3) [OF own(2)] own pc mx_invD_place(2) [OF inv, of t] unfolding eq mx_inv_def
    by (simp add: locking_upd del: fun_upd_apply)
qed

lemma do_trylock_ok:
  assumes inv: "mx_inv s" and pc: "ms_pc s t = MIdle"
  shows "mx_inv (do_trylock t s)"
proof -
  note o = owner_ok_upd [OF mx_invD(1) [OF inv]]
  have t: "t \<notin> set (map wt_task (mx_waiters (ms_mx s))) \<and> t \<notin> set (rt_runq (ms_rt s))"
    using mx_invD_place(2) [OF inv] pc by simp
  show ?thesis
  proof (cases "mx_held (ms_mx s)")
    case True
    then have eq: "do_trylock t s = s\<lparr>ms_pc := (ms_pc s)(t := MIdle)\<rparr>"
      by (simp add: do_trylock_def sl_mutex_trylock_def)
    show ?thesis using inv o(1) [of t MIdle] pc t unfolding eq mx_inv_def
      by (simp add: locking_upd del: fun_upd_apply)
  next
    case False
    then have eq: "do_trylock t s = s\<lparr>ms_mx := (ms_mx s)\<lparr>mx_held := True, mx_owner := Some t\<rparr>,
        ms_pc := (ms_pc s)(t := MHolding)\<rparr>"
      by (simp add: do_trylock_def sl_mutex_trylock_def)
    show ?thesis
      using inv t o(2) [OF False] unfolding eq mx_inv_def by (simp add: locking_upd del: fun_upd_apply)
  qed
qed

lemma do_unlock_ok:
  assumes inv: "mx_inv s" and pc: "ms_pc s t = MIdle \<or> ms_pc s t = MHolding"
  shows "mx_inv (do_unlock t s)"
proof -
  note o = owner_ok_upd [OF mx_invD(1) [OF inv]]
  have t: "t \<notin> set (map wt_task (mx_waiters (ms_mx s))) \<and> t \<notin> set (rt_runq (ms_rt s))"
    using mx_invD_place(2) [OF inv, of t] pc by auto
  show ?thesis
  proof (cases "mx_owner (ms_mx s) = Some t")
    case False
    then have idle: "ms_pc s t = MIdle" using o(5) [of t] pc by blast
    have eq: "do_unlock t s = s\<lparr>ms_pc := (ms_pc s)(t := MDead)\<rparr>"
      using False by (simp add: do_unlock_def sl_mutex_unlock_def)
    show ?thesis using inv o(1) [of t MDead] idle t unfolding eq mx_inv_def
      by (simp add: locking_upd del: fun_upd_apply)
  next
    case own: True
    then have held: "mx_held (ms_mx s)" using o(7) by simp
    show ?thesis
    proof (cases "mx_waiters (ms_mx s)")
      case Nil
      have eq: "do_unlock t s = s\<lparr>ms_mx := (ms_mx s)\<lparr>mx_held := False, mx_owner := None\<rparr>,
          ms_pc := (ms_pc s)(t := MIdle)\<rparr>"
        using own held Nil by (simp add: do_unlock_def sl_mutex_unlock_def)
      show ?thesis using inv o(4) [OF own] Nil t unfolding eq mx_inv_def
        by (simp add: locking_upd del: fun_upd_apply)
    next
      case (Cons w ws)
      then have "wt_sel w = None" using inv by (simp add: mx_inv_def)
      then have eq: "do_unlock t s = s\<lparr>ms_mx := (ms_mx s)\<lparr>mx_held := False, mx_owner := None, mx_waiters := ws\<rparr>,
          ms_rt := sl_task_resume (wt_task w) (ms_rt s), ms_pc := (ms_pc s)(t := MIdle)\<rparr>"
        using own held Cons by (simp add: do_unlock_def sl_mutex_unlock_def sl_waiter_wake_def)
      show ?thesis using inv o(4) [OF own] Cons t unfolding eq mx_inv_def
        by (simp add: locking_upd sl_task_resume_def del: fun_upd_apply; auto)
    qed
  qed
qed

lemma do_resume_ok:
  assumes inv: "mx_inv s" and run: "t \<in> set (rt_runq (ms_rt s))"
  shows "mx_inv (do_lock False t (s\<lparr>ms_rt := (ms_rt s)\<lparr>rt_runq := remove1 t (rt_runq (ms_rt s))\<rparr>\<rparr>))"
    (is "mx_inv (do_lock False t ?s)")
proof -
  note o = owner_ok_upd [OF mx_invD(1) [OF inv]]
  have pc: "ms_pc s t = MLocking" using mx_invD_place(3) [OF inv run] .
  have tw: "t \<notin> set (map wt_task (mx_waiters (ms_mx s)))" using mx_invD_place(1) [OF inv] run by blast
  show ?thesis
  proof (cases "mx_held (ms_mx s)")
    case True
    then have eq: "do_lock False t ?s = ?s\<lparr>ms_mx := (ms_mx s)\<lparr>mx_waiters := mx_waiters (ms_mx s) @ [plain_waiter t]\<rparr>,
        ms_pc := (ms_pc s)(t := MLocking)\<rparr>"
      by (simp add: do_lock_def sl_mutex_lock_def)
    show ?thesis using inv tw run True o(1) [of t MLocking] pc unfolding eq mx_inv_def
      by (simp add: locking_upd del: fun_upd_apply; auto)
  next
    case False
    then have eq: "do_lock False t ?s = ?s\<lparr>ms_mx := (ms_mx s)\<lparr>mx_held := True, mx_owner := Some t\<rparr>,
        ms_pc := (ms_pc s)(t := MHolding)\<rparr>"
      by (simp add: do_lock_def sl_mutex_lock_def)
    show ?thesis using inv tw run o(2) [OF False] unfolding eq mx_inv_def
      by (simp add: locking_upd del: fun_upd_apply; auto)
  qed
qed

lemma mutex_step_inv: "mutex_step s s' \<Longrightarrow> mx_inv s \<Longrightarrow> mx_inv s'"
  by (induction rule: mutex_step.induct)
    (auto intro: do_lock_ok do_relock_ok do_trylock_ok do_unlock_ok do_resume_ok)

lemma mutex_reachable_inv: "mutex_reachable s \<Longrightarrow> mx_inv s"
proof (induction rule: mutex_reachable.induct)
  case start
  then show ?case by (simp add: mx_inv_def owner_ok_def sl_mutex_new_def)
qed (rule mutex_step_inv)

section \<open>Polling the arms of a select\<close>

definition arm_ready :: "sl_sel_case \<Rightarrow> sl_chan \<Rightarrow> bool" where
  "arm_ready sc c \<longleftrightarrow> (if sc_is_send sc then c_closed c \<or> c_count c \<noteq> c_cap c else c_closed c \<or> c_count c \<noteq> 0)"

lemma try_not_ready:
  "fst (sl_sel_try_locked sc c rt) = 0 \<longleftrightarrow> \<not> arm_ready sc c"
  "\<not> arm_ready sc c \<Longrightarrow> sl_sel_try_locked sc c rt = (0, sc, c, rt)"
  by (cases "sc_is_send sc"; auto simp: sl_sel_try_locked_def arm_ready_def split: prod.splits)+

lemma poll_step_not_ready:
  assumes "k < length cs" and "i = poll_index start (length cs) k"
    and "\<not> arm_ready (cs ! i) (wd_chans (env k w) (sc_ch (cs ! i)))"
  shows "sel_poll_loop env start k cs w = sel_poll_loop env start (k + 1) cs (env k w)"
  using assms try_not_ready(2) [OF assms(3), of "wd_rt (env k w)"]
  by (subst sel_poll_loop.simps) (simp add: Let_def)

text \<open>
  What a poll should do once it meets a ready arm: nothing but report a send on a closed channel, and
  otherwise what the plain operation of the arm does.
\<close>

definition arm_result :: "sl_waiter \<Rightarrow> nat \<Rightarrow> sl_sel_case list \<Rightarrow> world \<Rightarrow> int \<times> bool \<times> sl_sel_case list \<times> world \<Rightarrow> bool" where
  "arm_result self i cs w r \<longleftrightarrow>
     (let sc = cs ! i; ch = sc_ch sc; c = wd_chans w ch;
          with = (\<lambda>c rt. w\<lparr>wd_chans := (wd_chans w)(ch := c), wd_rt := rt\<rparr>)
      in if sc_is_send sc
         then (if c_closed c then r = (- 1, True, cs, w)
               else \<exists>c' rt'. sl_chan_send self (sc_val sc) c (wd_rt w) = (Returned (), c', rt') \<and>
                      r = (int i, False, cs, with c' rt'))
         else \<exists>out c' rt'. sl_chan_recv self c (wd_rt w) = (Returned out, c', rt') \<and>
                r = (int i, False,
                     cs[i := (case out of Some v \<Rightarrow> sc\<lparr>sc_val := v, sc_closed := False\<rparr> | None \<Rightarrow> sc\<lparr>sc_closed := True\<rparr>)],
                     with c' rt'))"

lemma poll_step_ready:
  assumes k: "k < length cs" and i: "i = poll_index start (length cs) k"
    and ready: "arm_ready (cs ! i) (wd_chans (env k w) (sc_ch (cs ! i)))"
  shows "arm_result self i cs (env k w) (sel_poll_loop env start k cs w)"
proof (cases "sc_is_send (cs ! i)")
  case True
  then show ?thesis using k ready unfolding i
    by (subst sel_poll_loop.simps)
      (auto simp: arm_result_def arm_ready_def sl_sel_try_locked_def sl_chan_send_def Let_def list_update_id split: prod.splits)
next
  case False
  then show ?thesis using k ready unfolding i
    by (subst sel_poll_loop.simps)
      (auto simp: arm_result_def arm_ready_def sl_sel_try_locked_def sl_chan_recv_def sl_chan_take_def Let_def split: prod.splits)
qed

text \<open>The world turn \<open>k\<close> meets when no turn before it found its arm ready, and the arm it looks at.\<close>

definition poll_world :: "(nat \<Rightarrow> world \<Rightarrow> world) \<Rightarrow> world \<Rightarrow> nat \<Rightarrow> world" where
  "poll_world env w k = fold env [0..<Suc k] (w\<lparr>wd_sel_rr := wd_sel_rr w + 1\<rparr>)"

definition poll_arm :: "sl_sel_case list \<Rightarrow> world \<Rightarrow> nat \<Rightarrow> nat" where
  "poll_arm cs w k = (unat (wd_sel_rr w) + k) mod length cs"

definition turn_ready :: "(nat \<Rightarrow> world \<Rightarrow> world) \<Rightarrow> sl_sel_case list \<Rightarrow> world \<Rightarrow> nat \<Rightarrow> bool" where
  "turn_ready env cs w k \<longleftrightarrow> arm_ready (cs ! poll_arm cs w k) (wd_chans (poll_world env w k) (sc_ch (cs ! poll_arm cs w k)))"

lemma poll_index_nowrap:
  assumes "unat start + n \<le> 2 ^ 32" and "0 < n" and "k < n"
  shows "poll_index start n k = (unat start + k) mod n"
proof -
  have "unat start + k < 2 ^ 32" using assms by simp
  then have "unat (start + word_of_nat k) = unat start + k"
    by (simp add: unat_word_ariths unat_of_nat take_bit_eq_mod)
  moreover have "unat (word_of_nat n :: 32 word) = n \<or> n = 2 ^ 32 \<and> unat start = 0"
  proof (cases "n < 2 ^ 32")
    case True
    then show ?thesis by (simp add: unat_of_nat take_bit_eq_mod)
  qed (use assms in auto)
  ultimately show ?thesis
    using assms by (auto simp: poll_index_def unat_mod_distrib)
qed

lemma poll_index_surj:
  assumes "unat start + n \<le> 2 ^ 32" and "i < n"
  shows "\<exists>k < n. poll_index start n k = i"
proof -
  have n: "0 < n" using assms(2) by simp
  let ?s = "unat start mod n"
  define k where "k = (i + n - ?s) mod n"
  have "?s < n" using n by simp
  have "(unat start + k) mod n = (?s + (i + n - ?s)) mod n" by (simp add: k_def mod_simps)
  also have "?s + (i + n - ?s) = i + n" using \<open>?s < n\<close> by linarith
  also have "(i + n) mod n = i" using assms(2) by simp
  finally show ?thesis using poll_index_nowrap [OF assms(1) n] n by (intro exI [of _ k]) (simp add: k_def)
qed

lemma poll_skips:
  assumes w: "unat (wd_sel_rr w) + length cs \<le> 2 ^ 32" and "k \<le> length cs" and "\<And>j. j < k \<Longrightarrow> \<not> turn_ready env cs w j"
  shows "sl_sel_poll env cs w = sel_poll_loop env (wd_sel_rr w) k cs (fold env [0..<k] (w\<lparr>wd_sel_rr := wd_sel_rr w + 1\<rparr>))"
  using assms(2,3)
proof (induction k)
  case (Suc k)
  let ?w = "w\<lparr>wd_sel_rr := wd_sel_rr w + 1\<rparr>"
  have n: "0 < length cs" "k < length cs" using Suc.prems by auto
  have "\<not> arm_ready (cs ! poll_index (wd_sel_rr w) (length cs) k)
      (wd_chans (env k (fold env [0..<k] ?w)) (sc_ch (cs ! poll_index (wd_sel_rr w) (length cs) k)))"
    using Suc.prems(2) [of k] poll_index_nowrap [OF w n] by (simp add: turn_ready_def poll_world_def poll_arm_def)
  from poll_step_not_ready [where env = env, OF n(2) refl this] show ?case using Suc by simp
qed (simp add: sl_sel_poll_def Let_def)

section \<open>Properties\<close>

text \<open>C28: the wait lists, linked through nodes on the waiting tasks' stacks, are first-in first-out
  queues: \<open>sl_wl_push\<close> appends, \<open>sl_wl_pop\<close> takes the oldest, \<open>sl_wl_remove\<close> ends and takes out
  the given node wherever it is, or nothing when a waker was there first; head and tail stay
  right in every case.\<close>

theorem wait_list_refines_queue:
  assumes "is_wl s xs" and "w \<notin> set xs"
  shows "is_wl (sl_wl_push s w) (xs @ [w]) \<and>
    fst (sl_wl_pop s) = (case xs of [] \<Rightarrow> None | x # _ \<Rightarrow> Some x) \<and> is_wl (snd (sl_wl_pop s)) (tl xs) \<and>
    (\<forall>y. \<exists>s'. sl_wl_remove (Suc (length xs)) s y = Some s' \<and> is_wl s' (remove1 y xs))"
  using wait_list.push_law [OF assms] wait_list.pop_law [OF assms(1)]
    wl_remove_ok [OF assms(1), of "Suc (length xs)"] by blast

theorem wait_list_refines_queue_witness:
  "\<exists>s. is_wl s [3, 5, 4] \<and> (\<exists>s'. sl_wl_remove 4 s 4 = Some s' \<and> is_wl s' [3, 5] \<and> wl_tail (snd s') = Some 5)"
proof -
  have 0: "is_wl (\<lambda>_. None, \<lparr>wl_head = None, wl_tail = None\<rparr>) []" by (rule wait_list.rep_empty)
  obtain s where s: "is_wl s [3, 5, 4]"
    using wait_list.push_all [OF 0, of "[3, 5, 4]"] by auto
  have nin: "9 \<notin> set [3, 5, 4 :: nat]" by simp
  obtain s' where s': "sl_wl_remove (Suc (length [3, 5, 4 :: nat])) s 4 = Some s'"
    "is_wl s' (remove1 4 [3, 5, 4])"
    using wait_list_refines_queue [OF s nin] by blast
  have "Suc (length [3, 5, 4 :: nat]) = 4" "remove1 4 [3, 5, 4 :: nat] = [3, 5]" by simp_all
  with s' have "sl_wl_remove 4 s 4 = Some s'" "is_wl s' [3, 5]" by (simp_all only:)
  moreover from this(2) have "wl_tail (snd s') = Some 5" by (simp add: is_wl_def)
  ultimately show ?thesis using s by blast
qed

text \<open>C15: whatever number of tasks send, receive and close in whatever interleaving, a channel made with
  a capacity of at most \<open>2 ^ 30\<close> (at least 1 is taken) is a bounded first-in first-out queue: the values received so far, followed by those in the ring,
  are exactly the values whose sends completed, in order; none is lost, duplicated or reordered,
  and the ring never holds more than its capacity.\<close>

theorem sl_chan_fifo:
  assumes "chan_reachable elemsz cap p s" and "sint cap \<le> 2 ^ 30"
  shows "sy_sent s = sy_rcvd s @ chan_queue (sy_ch s) \<and>
    length (chan_queue (sy_ch s)) = c_count (sy_ch s) \<and> c_count (sy_ch s) \<le> c_cap (sy_ch s) \<and>
    c_cap (sy_ch s) = nat (max 1 (sint cap))"
proof -
  have cap: "c_cap (sy_ch s) = nat (max 1 (sint cap))" using chan_reachable_cap [OF assms(1)] .
  then have "c_cap (sy_ch s) \<le> 2 ^ 30" using assms(2) by simp
  then show ?thesis using cap chan_reachable_inv [OF assms(1)] chan_invD(4) [of "sy_ch s"] by (simp add: sys_inv_def)
qed

theorem sl_chan_fifo_witness:
  "\<exists>s. chan_reachable 1 2 2 s \<and> sy_sent s = [[7]] \<and> sy_sent s = sy_rcvd s @ chan_queue (sy_ch s)"
proof -
  let ?s0 = "chan_start 1 2 2"
  have "chan_step ?s0 (do_send 5 [7] ?s0)"
    by (rule chan_step.call_send) (simp_all add: chan_start_def sl_chan_new_def Let_def)
  then have r: "chan_reachable 1 2 2 (do_send 5 [7] ?s0)" by (rule chan_reachable.step [OF chan_reachable.start])
  have "sy_sent (do_send 5 [7] ?s0) = [[7]]"
    by (simp add: do_send_def sl_chan_send_def chan_start_def sl_chan_new_def wake_receiver_def Let_def)
  moreover have "sint (2 :: 32 word) \<le> 2 ^ 30" by simp
  ultimately show ?thesis using r sl_chan_fifo [OF r] by blast
qed

text \<open>C16: no wake-up is lost among plain senders and receivers. In every reachable state a task
  blocked in an operation is on one of the wait lists or already woken; while receivers wait,
  there are as many woken receivers as queued values, and while senders wait, as many woken
  senders as free slots. So when nobody is left to run, receivers wait only on an empty open
  channel, senders only on a full open one, and never both.\<close>

theorem sl_chan_no_lost_wakeup:
  assumes "chan_reachable elemsz cap p s"
  shows "(is_sending (sy_pc s t) \<or> sy_pc s t = Receiving \<longrightarrow>
      t \<in> set (map wt_task (c_send_waiters (sy_ch s)) @ map wt_task (c_recv_waiters (sy_ch s)) @ rt_runq (sy_rt s))) \<and>
    (c_recv_waiters (sy_ch s) \<noteq> [] \<longrightarrow> c_count (sy_ch s) \<le> woken_receivers s) \<and>
    (c_send_waiters (sy_ch s) \<noteq> [] \<longrightarrow> c_cap (sy_ch s) - c_count (sy_ch s) \<le> woken_senders s) \<and>
    (rt_runq (sy_rt s) = [] \<longrightarrow>
      (c_recv_waiters (sy_ch s) \<noteq> [] \<longrightarrow> c_count (sy_ch s) = 0 \<and> \<not> c_closed (sy_ch s)) \<and>
      (c_send_waiters (sy_ch s) \<noteq> [] \<longrightarrow> c_count (sy_ch s) = c_cap (sy_ch s) \<and> \<not> c_closed (sy_ch s)) \<and>
      (c_recv_waiters (sy_ch s) = [] \<or> c_send_waiters (sy_ch s) = []))"
proof -
  note inv = chan_reachable_inv [OF assms]
  have ch: "chan_inv (sy_ch s)" "wakeups_ok s" and po: "places_ok s" using inv by (simp_all add: sys_inv_def)
  have blocked: "is_sending (sy_pc s t) \<or> sy_pc s t = Receiving \<longrightarrow>
      t \<in> set (S_tasks s @ R_tasks s @ runq s)" using po unfolding places_ok_def by blast
  have w: "c_recv_waiters (sy_ch s) \<noteq> [] \<longrightarrow> c_count (sy_ch s) \<le> woken_receivers s"
    "c_send_waiters (sy_ch s) \<noteq> [] \<longrightarrow> c_cap (sy_ch s) - c_count (sy_ch s) \<le> woken_senders s"
    "c_closed (sy_ch s) \<longrightarrow> c_send_waiters (sy_ch s) = [] \<and> c_recv_waiters (sy_ch s) = []"
    using ch(2) by (simp_all add: wakeups_ok_def)
  have none: "woken_receivers s = 0" "woken_senders s = 0" if "rt_runq (sy_rt s) = []"
    using that by (simp_all add: woken_receivers_def woken_senders_def)
  show ?thesis using blocked w none chan_invD(1,4) [OF ch(1)] by auto
qed

theorem sl_chan_no_lost_wakeup_witness:
  "\<exists>s. chan_reachable 1 2 2 s \<and> c_recv_waiters (sy_ch s) = [plain_waiter 5] \<and> rt_runq (sy_rt s) = [] \<and>
     c_count (sy_ch s) = 0"
proof -
  let ?s0 = "chan_start 1 2 2"
  have "chan_step ?s0 (do_recv 5 ?s0)" by (rule chan_step.call_recv) (simp add: chan_start_def)
  then have r: "chan_reachable 1 2 2 (do_recv 5 ?s0)" by (rule chan_reachable.step [OF chan_reachable.start])
  have e: "c_recv_waiters (sy_ch (do_recv 5 ?s0)) = [plain_waiter 5]" "rt_runq (sy_rt (do_recv 5 ?s0)) = []"
    by (simp_all add: do_recv_def sl_chan_recv_def chan_start_def sl_chan_new_def Let_def)
  then show ?thesis using r sl_chan_no_lost_wakeup [OF r, of 5] by (metis list.distinct(1))
qed

text \<open>C19: at most one task holds a mutex, and it is the owner on record; a task that locks it again
  or unlocks another's is refused without disturbing it; and while tasks wait for a free mutex,
  one of them has been woken to take it.\<close>

theorem sl_mutex_exclusion:
  assumes "mutex_reachable s"
  shows "(ms_pc s t = MHolding \<and> ms_pc s u = MHolding \<longrightarrow> t = u) \<and>
    (ms_pc s t = MHolding \<longrightarrow> mx_held (ms_mx s) \<and> mx_owner (ms_mx s) = Some t) \<and>
    (mx_owner (ms_mx s) \<noteq> Some t \<longrightarrow> fst (snd (sl_mutex_unlock t (ms_mx s) (ms_rt s))) = ms_mx s) \<and>
    (ms_pc s t = MLocking \<longrightarrow> t \<in> set (map wt_task (mx_waiters (ms_mx s)) @ rt_runq (ms_rt s))) \<and>
    (mx_waiters (ms_mx s) \<noteq> [] \<longrightarrow> mx_held (ms_mx s) \<or> rt_runq (ms_rt s) \<noteq> [])"
proof -
  note inv = mutex_reachable_inv [OF assms]
  have hold: "mx_held (ms_mx s) \<and> mx_owner (ms_mx s) = Some t" if "ms_pc s t = MHolding" for t
    by (rule owner_ok_upd(5) [OF mx_invD(1) [OF inv] that])
  have "t = u" if "ms_pc s t = MHolding" "ms_pc s u = MHolding"
    using hold [OF that(1)] hold [OF that(2)] by simp
  moreover have "fst (snd (sl_mutex_unlock t (ms_mx s) (ms_rt s))) = ms_mx s" if "mx_owner (ms_mx s) \<noteq> Some t"
    using that by (simp add: sl_mutex_unlock_def)
  moreover have "mx_waiters (ms_mx s) \<noteq> [] \<longrightarrow> mx_held (ms_mx s) \<or> rt_runq (ms_rt s) \<noteq> []"
    using inv unfolding mx_inv_def by blast
  ultimately show ?thesis using hold mx_invD(3) [OF inv] by blast
qed

theorem sl_mutex_exclusion_witness:
  "\<exists>s. mutex_reachable s \<and> ms_pc s 3 = MHolding \<and> mx_owner (ms_mx s) = Some 3"
proof -
  let ?s0 = "\<lparr>ms_mx = sl_mutex_new,
    ms_rt = \<lparr>rt_sels = \<lambda>_. \<lparr>sel_woken = False, sel_parked = False, sel_task = 0\<rparr>, rt_runq = []\<rparr>,
    ms_pc = \<lambda>_. MIdle\<rparr> :: mutex_sys"
  have "mutex_step ?s0 (do_lock True 3 ?s0)" by (rule mutex_step.lock) simp
  then have r: "mutex_reachable (do_lock True 3 ?s0)" by (rule mutex_reachable.step [OF mutex_reachable.start])
  have "ms_pc (do_lock True 3 ?s0) 3 = MHolding" by (simp add: do_lock_def sl_mutex_lock_def sl_mutex_new_def)
  then show ?thesis using r sl_mutex_exclusion [OF r, of 3 3] by blast
qed

text \<open>C29: whatever other tasks do between the turns of a poll, the poll looks once at every arm, each
  under the lock of its channel, and the first that is ready when it is looked at decides: it
  fires, doing exactly what a plain send or receive does to the channel and to its waiters, or,
  for a send on a closed channel, is reported and changes nothing; when no arm is ready in its
  turn, the poll answers "none" and has changed nothing. This holds as long as the 32-bit rotating
  start does not wrap during the poll.\<close>

theorem sl_sel_poll_complete:
  assumes "unat (wd_sel_rr w) + length cs \<le> 2 ^ 32"
  shows "bij_betw (poll_arm cs w) {..<length cs} {..<length cs} \<and>
    (k < length cs \<and> turn_ready env cs w k \<and> (\<forall>j<k. \<not> turn_ready env cs w j) \<longrightarrow>
       arm_result self (poll_arm cs w k) cs (poll_world env w k) (sl_sel_poll env cs w)) \<and>
    ((\<forall>j<length cs. \<not> turn_ready env cs w j) \<longrightarrow>
       sl_sel_poll env cs w = (- 1, False, cs, fold env [0..<length cs] (w\<lparr>wd_sel_rr := wd_sel_rr w + 1\<rparr>)))"
proof (intro conjI impI)
  let ?n = "length cs" and ?s = "wd_sel_rr w"
  have idx: "poll_index ?s ?n k = poll_arm cs w k" if "k < ?n" for k
    using poll_index_nowrap [OF assms _ that] that by (cases "cs = []") (simp_all add: poll_arm_def)
  have sub: "poll_arm cs w ` {..<?n} \<subseteq> {..<?n}" by (cases "cs = []") (auto simp: poll_arm_def)
  have "{..<?n} \<subseteq> poll_arm cs w ` {..<?n}"
  proof
    fix i assume "i \<in> {..<?n}"
    then show "i \<in> poll_arm cs w ` {..<?n}" using poll_index_surj [OF assms, of i] idx by auto
  qed
  with sub have "poll_arm cs w ` {..<?n} = {..<?n}" by blast
  then show "bij_betw (poll_arm cs w) {..<?n} {..<?n}" by (simp add: bij_betw_def eq_card_imp_inj_on)
  assume k: "k < ?n \<and> turn_ready env cs w k \<and> (\<forall>j<k. \<not> turn_ready env cs w j)"
  let ?w = "fold env [0..<k] (w\<lparr>wd_sel_rr := ?s + 1\<rparr>)"
  have "sl_sel_poll env cs w = sel_poll_loop env ?s k cs ?w" by (rule poll_skips [OF assms]) (use k in auto)
  moreover have "poll_world env w k = env k ?w" by (simp add: poll_world_def)
  moreover have "arm_result self (poll_arm cs w k) cs (env k ?w) (sel_poll_loop env ?s k cs ?w)"
    by (rule poll_step_ready) (use k idx in \<open>auto simp: turn_ready_def poll_world_def\<close>)
  ultimately show "arm_result self (poll_arm cs w k) cs (poll_world env w k) (sl_sel_poll env cs w)" by simp
next
  assume "\<forall>j<length cs. \<not> turn_ready env cs w j"
  then have "sl_sel_poll env cs w = sel_poll_loop env (wd_sel_rr w) (length cs) cs (fold env [0..<length cs] (w\<lparr>wd_sel_rr := wd_sel_rr w + 1\<rparr>))"
    by (intro poll_skips [OF assms]) auto
  then show "sl_sel_poll env cs w = (- 1, False, cs, fold env [0..<length cs] (w\<lparr>wd_sel_rr := wd_sel_rr w + 1\<rparr>))"
    by (simp add: sel_poll_loop.simps)
qed

definition two_chans :: "32 word \<Rightarrow> world" where
  "two_chans rr = \<lparr>wd_chans = \<lambda>_. sl_chan_new 1 1 2,
     wd_rt = \<lparr>rt_sels = \<lambda>_. \<lparr>sel_woken = False, sel_parked = False, sel_task = 0\<rparr>, rt_runq = []\<rparr>, wd_sel_rr = rr\<rparr>"

definition recv_arm :: "nat \<Rightarrow> sl_sel_case" where
  "recv_arm i = \<lparr>sc_ch = i, sc_is_send = False, sc_val = [0], sc_closed = False\<rparr>"

definition world_send :: "task \<Rightarrow> nat \<Rightarrow> sl_bytes \<Rightarrow> world \<Rightarrow> world" where
  "world_send t i v w =
     (let (r, c, rt) = sl_chan_send (plain_waiter t) v (wd_chans w i) (wd_rt w)
      in w\<lparr>wd_chans := (wd_chans w)(i := c), wd_rt := rt\<rparr>)"

definition world_recv :: "task \<Rightarrow> nat \<Rightarrow> world \<Rightarrow> world" where
  "world_recv t i w =
     (let (r, c, rt) = sl_chan_recv (plain_waiter t) (wd_chans w i) (wd_rt w)
      in w\<lparr>wd_chans := (wd_chans w)(i := c), wd_rt := rt\<rparr>)"

theorem sl_sel_poll_complete_witness:
  "\<exists>w. unat (wd_sel_rr (two_chans 0)) + length [recv_arm 0, recv_arm 1] \<le> 2 ^ 32 \<and>
     sl_sel_poll (\<lambda>k. if k = 1 then world_send 3 1 [8] else id) [recv_arm 0, recv_arm 1] (two_chans 0) =
     (1, False, [recv_arm 0, (recv_arm 1)\<lparr>sc_val := [8], sc_closed := False\<rparr>], w)"
proof -
  let ?env = "\<lambda>k. if k = (1 :: nat) then world_send 3 1 [8] else id" and ?cs = "[recv_arm 0, recv_arm 1]"
  have le: "unat (wd_sel_rr (two_chans 0)) + length ?cs \<le> 2 ^ 32" by (simp add: two_chans_def)
  have a: "poll_arm ?cs (two_chans 0) 0 = 0" "poll_arm ?cs (two_chans 0) 1 = 1" by (simp_all add: poll_arm_def two_chans_def)
  have r: "\<not> turn_ready ?env ?cs (two_chans 0) 0" "turn_ready ?env ?cs (two_chans 0) 1"
    unfolding turn_ready_def a
    by (simp_all add: poll_world_def arm_ready_def recv_arm_def two_chans_def world_send_def sl_chan_new_def
        sl_chan_send_def wake_receiver_def Let_def)
  then have "arm_result (plain_waiter 1) 1 ?cs (poll_world ?env (two_chans 0) 1) (sl_sel_poll ?env ?cs (two_chans 0))"
    using sl_sel_poll_complete [OF le, of 1 ?env "plain_waiter 1"] a by simp
  then have "\<exists>w. sl_sel_poll ?env ?cs (two_chans 0) = (1, False, [recv_arm 0, (recv_arm 1)\<lparr>sc_val := [8], sc_closed := False\<rparr>], w)"
    by (auto simp: arm_result_def poll_world_def recv_arm_def two_chans_def world_send_def sl_chan_new_def sl_chan_recv_def
        sl_chan_send_def sl_chan_take_def chan_put_def wake_receiver_def wake_sender_def sl_gc_remember_obj_def
        ring_at_def Let_def)
  then show ?thesis using le by blast
qed

text \<open>When the rotating start wraps, the poll looks at one arm twice and at another not at all: with
  three arms and the counter at its last value, a value waiting on the third channel is not found.\<close>

lemma sl_sel_poll_wrap_misses_arm:
  "fst (sl_sel_poll (\<lambda>_. id) [recv_arm 0, recv_arm 1, recv_arm 2] (world_send 3 2 [8] (two_chans (- 1)))) = - 1 \<and>
   fst (sl_sel_poll (\<lambda>_. id) [recv_arm 0, recv_arm 1, recv_arm 2] (world_send 3 2 [8] (two_chans 0))) = 2"
  by code_simp

text \<open>
  Runs of task 1, which selects over two channels with record 0 and the nodes from 10 on, and of
  other tasks, which send and receive: a step of the select, or a call of a task that is neither
  waiting nor woken. \<open>None\<close> is a step that cannot be made.
\<close>

datatype sel_event = ESelect | ERecv task nat | ESend task nat sl_bytes

definition task_free :: "task \<Rightarrow> world \<Rightarrow> bool" where
  "task_free t w \<longleftrightarrow> t \<noteq> 1 \<and> t \<notin> set (rt_runq (wd_rt w)) \<and>
     list_all (\<lambda>i. t \<notin> set (map wt_task (c_send_waiters (wd_chans w i) @ c_recv_waiters (wd_chans w i)))) [0, 1]"

fun do_event :: "sel_event \<Rightarrow> sel_sys \<Rightarrow> sel_sys option" where
  "do_event ESelect s = sl_select_run_step False 0 1 (sel_nodes 10 (length (ss_cs s)) 1 0) (\<lambda>_. id) s"
| "do_event (ERecv t i) s = (if task_free t (ss_w s) then Some (s\<lparr>ss_w := world_recv t i (ss_w s)\<rparr>) else None)"
| "do_event (ESend t i v) s = (if task_free t (ss_w s) then Some (s\<lparr>ss_w := world_send t i v (ss_w s)\<rparr>) else None)"

fun sel_events :: "sel_event list \<Rightarrow> sel_sys \<Rightarrow> sel_sys option" where
  "sel_events [] s = Some s"
| "sel_events (e # es) s = (case do_event e s of None \<Rightarrow> None | Some s \<Rightarrow> sel_events es s)"

definition sel_start :: "32 word \<Rightarrow> sel_sys" where
  "sel_start rr = \<lparr>ss_pc = SPoll, ss_cs = [recv_arm 0, recv_arm 1], ss_w = select_begin 0 (two_chans rr)\<rparr>"

lemmas select_defs = sl_sel_poll_def sel_poll_loop.simps sl_sel_try_locked_def
  sl_chan_take_def chan_put_def wake_sender_def wake_receiver_def sl_waiter_wake_def sl_task_resume_def
  sl_sel_enqueue_def sl_sel_dequeue_def arm_push_def arm_remove_def sel_nodes_def select_begin_def
  select_enqueue_def set_select_def sl_select_run_step_def task_free_def
  select_park_def select_reset_def world_recv_def world_send_def sl_chan_send_def
  sl_chan_recv_def recv_arm_def plain_waiter_def sl_gc_remember_obj_def

lemma poll_index_two: "poll_index rr 2 k = (if even (rr + word_of_nat k) then 0 else 1)"
  by (simp add: poll_index_def mod2_eq_if)

lemma two_turns:
  "poll_index rr (Suc (Suc 0)) 0 = (if even rr then 0 else 1)"
  "poll_index rr (Suc (Suc 0)) (Suc 0) = (if even rr then 1 else 0)"
  unfolding numeral_2_eq_2 [symmetric] by (simp_all add: poll_index_two)

text \<open>
  C33: a select can swallow a wake-up that another task needed. From the start of a select over two
  empty channels, whatever the rotating start, other tasks can send any two values \<open>v\<close> and \<open>u\<close> such
  that the select returns, fired on one channel with \<open>u\<close>, and task 2 is parked in a receive on the
  other channel while \<open>v\<close> is in its buffer and nobody is on the run queue: the send of \<open>v\<close> woke the
  parked select instead of task 2, and the select found the other channel first when it ran again.
\<close>

theorem select_wakeup_lost:
  "\<exists>i es s. i < 2 \<and> sel_events es (sel_start rr) = Some s \<and> ss_pc s = SFired (1 - i) \<and>
     sc_val (ss_cs s ! (1 - i)) = u \<and> rt_runq (wd_rt (ss_w s)) = [] \<and>
     chan_queue (wd_chans (ss_w s) i) = [v] \<and> c_recv_waiters (wd_chans (ss_w s) i) = [plain_waiter 2]"
proof -
  let ?i = "if odd rr then 0 else 1 :: nat"
  let ?es = "[ESelect, ESelect, ESelect, ESelect, ERecv 2 ?i, ESend 3 ?i v, ESend 4 (1 - ?i) u, ESelect, ESelect, ESelect]"
  have "\<exists>s. sel_events ?es (sel_start rr) = Some s \<and> ss_pc s = SFired (1 - ?i) \<and>
     sc_val (ss_cs s ! (1 - ?i)) = u \<and> rt_runq (wd_rt (ss_w s)) = [] \<and>
     chan_queue (wd_chans (ss_w s) ?i) = [v] \<and> c_recv_waiters (wd_chans (ss_w s) ?i) = [plain_waiter 2]"
    by (cases "even rr")
      (simp_all add: select_defs two_turns sel_start_def two_chans_def sl_chan_new_def chan_queue_def ring_at_def Let_def)
  moreover have "?i < 2" by simp
  ultimately show ?thesis by blast
qed

text \<open>C30: a join has one outcome. Whichever of finish and fail comes first decides it, anything later
  changes nothing; a task that waited is woken exactly then, and a wait after it returns the
  value, or the failure with its message.\<close>

theorem sl_join_single_outcome:
  assumes "\<not> j_done j" and "length (j_val j) = (if j_valsz j > 0 then j_valsz j else 1)" and "length v = j_valsz j"
  shows "(let (j', rt') = sl_join_finish j (Some v) rt in
      sl_join_fail j' msg rt' = (j', rt') \<and> sl_join_finish j' u rt' = (j', rt') \<and>
      fst (sl_join_wait t j') = Returned (\<not> j_panicked j, if j_panicked j then [] else v) \<and>
      rt_runq rt' = rt_runq rt @ (case j_waiter j of None \<Rightarrow> [] | Some w \<Rightarrow> [w])) \<and>
    (let (j', rt') = sl_join_fail j msg rt in
      sl_join_fail j' msg' rt' = (j', rt') \<and> sl_join_finish j' u rt' = (j', rt') \<and>
      fst (sl_join_wait t j') = Returned (False, []) \<and> sl_join_err j' = msg \<and>
      rt_runq rt' = rt_runq rt @ (case j_waiter j of None \<Rightarrow> [] | Some w \<Rightarrow> [w]))"
  using assms
  by (auto simp: sl_join_finish_def sl_join_fail_def sl_join_wait_def sl_join_err_def sl_join_wake_def
      sl_gc_remember_obj_def sl_task_resume_def Let_def split: option.split)

theorem sl_join_single_outcome_witness:
  "let (p, j) = sl_join_wait 4 (sl_join_new 2 2);
       (j, rt) = sl_join_finish j (Some [5, 6]) \<lparr>rt_sels = \<lambda>_. \<lparr>sel_woken = False, sel_parked = False, sel_task = 0\<rparr>, rt_runq = []\<rparr>
   in p = Parked \<and> rt_runq rt = [4] \<and> fst (sl_join_wait 4 j) = Returned (True, [5, 6])"
proof -
  let ?rt = "\<lparr>rt_sels = \<lambda>_. \<lparr>sel_woken = False, sel_parked = False, sel_task = 0\<rparr>, rt_runq = []\<rparr> :: rt"
  let ?j = "snd (sl_join_wait 4 (sl_join_new 2 2))"
  have j: "\<not> j_done ?j" "length (j_val ?j) = (if j_valsz ?j > 0 then j_valsz ?j else 1)"
    "length [5, 6 :: byte] = j_valsz ?j" "j_waiter ?j = Some 4" "\<not> j_panicked ?j"
    by (simp_all add: sl_join_wait_def sl_join_new_def)
  have "fst (sl_join_wait 4 (sl_join_new 2 2)) = Parked" by (simp add: sl_join_wait_def sl_join_new_def)
  then show ?thesis
    using sl_join_single_outcome [OF j(1-3), of ?rt "''x''" None 4 "''y''"] j(4,5)
    by (auto simp: Let_def split: prod.splits)
qed

text \<open>Tracing a channel marks its buffer and exactly the queued values, oldest first, and a slot
  it skips holds no pointer: receiving a value clears its slot, so nothing received is kept
  alive by the ring.\<close>

theorem sl_chan_trace_queue:
  assumes "chan_inv c" and "buf \<noteq> 0" and "c_cap c \<le> 2 ^ 30"
  shows "sl_gc_trace_chan before mark buf c st =
      fold (\<lambda>el. sl_gc_mark_slot mark el (c_elemsz c) (c_elem_is_ptr c)) (chan_queue c) (mark buf st) \<and>
    (c_count c \<le> k \<and> k < c_cap c \<longrightarrow>
      slot_young yg (c_buf c ! ((c_head c + k) mod c_cap c)) (c_elemsz c) (c_elem_is_ptr c) \<longrightarrow> yg 0)"
proof -
  have i: "ring_at (c_head c) j (c_cap c) = int ((c_head c + j) mod c_cap c)" if "j < c_count c" for j
    using chan_ring [OF assms(1,3)] that chan_invD(4) [OF assms(1)] by simp
  have "fold (\<lambda>j. let i = ring_at (c_head c) j (c_cap c)
        in sl_gc_mark_slot mark (if i < 0 then before i else c_buf c ! nat i) (c_elemsz c) (c_elem_is_ptr c)) [0..<c_count c] st' =
      fold (\<lambda>el. sl_gc_mark_slot mark el (c_elemsz c) (c_elem_is_ptr c)) (chan_queue c) st'" for st'
    unfolding chan_queue_def fold_map o_def by (intro fold_cong) (auto simp: i Let_def)
  then have "sl_gc_trace_chan before mark buf c st =
      fold (\<lambda>el. sl_gc_mark_slot mark el (c_elemsz c) (c_elem_is_ptr c)) (chan_queue c) (mark buf st)"
    using assms(2) by (simp add: sl_gc_trace_chan_def)
  moreover have "yg 0" if k: "c_count c \<le> k" "k < c_cap c"
    and y: "slot_young yg (c_buf c ! ((c_head c + k) mod c_cap c)) (c_elemsz c) (c_elem_is_ptr c)"
  proof -
    have z: "c_buf c ! ((c_head c + k) mod c_cap c) = replicate (c_elemsz c) 0"
      by (rule chan_invD(6) [OF assms(1,3) k])
    have "le_word (replicate n 0) = 0" if "8 \<le> n" for n
      by (rule bit_word_eqI) (use that in \<open>auto simp: bit_le_word\<close>)
    moreover have "le_word (take 8 (drop (8 * i) (replicate n 0))) = 0" if "i < n div 8" for i n
    proof -
      have "take 8 (drop (8 * i) (replicate n (0 :: byte))) = replicate 8 0" using that by (simp add: min_def)
      then show ?thesis using calculation [of 8] by (simp only: order_refl)
    qed
    ultimately show ?thesis using y unfolding z
      by (auto simp: slot_young_def slot_words_def list_ex_iff split: if_splits)
  qed
  ultimately show ?thesis by blast
qed

theorem sl_chan_trace_queue_witness:
  "chan_inv (sl_chan_new 8 2 1) \<and> sl_gc_trace_chan (\<lambda>_. []) (\<lambda>p ps. ps @ [p]) 16 (sl_chan_new 8 2 1) [] = [16]"
proof -
  have b: "(16 :: u64) \<noteq> 0" and cap: "c_cap (sl_chan_new 8 2 1) \<le> 2 ^ 30" by (simp_all add: sl_chan_new_def)
  show ?thesis
    using sl_chan_trace_queue [OF chan_new_ok(1) [of 8 2 1] b cap, of "\<lambda>_. []" "\<lambda>p ps. ps @ [p]" "[]"] chan_new_ok
    by simp
qed

end
