(* ===== verification/Sl_Float.thy ===== *)
theory Sl_Float
  imports Prelude
begin

text \<open>
  Decimal text to \<open>double\<close>: the C function \<open>strtod\<close> as the correctly rounded conversion to a bit
  pattern. The lexer reads its float literals with it and the JSON package its numbers.
\<close>

text \<open>The byte at an offset of a C string: the terminator behind the last character.\<close>

definition char_at :: "string \<Rightarrow> nat \<Rightarrow> char" where
  "char_at s i = (if i < length s then s ! i else NUL)"

lemma char_at_Nil [simp]: "char_at [] i = NUL"
  by (simp add: char_at_def)

lemma char_at_Cons [simp]: "char_at (c # s) 0 = c" "char_at (c # s) (Suc i) = char_at s i"
  by (simp_all add: char_at_def)

text \<open>
  \<open>strtod\<close> of a text of digits with an optional fraction and exponent. Its exact value is
  \<open>n / d\<close>; the result is the nearest \<open>double\<close>, ties to even, as a bit pattern: with
  \<open>q * 2 ^ e\<close> the rounded value, \<open>(e + 1074) * 2 ^ 52 + q\<close> is the pattern of normal and subnormal
  numbers alike, and a carry out of the 53 bits of \<open>q\<close> moves to the next exponent.
\<close>

fun bitlen :: "nat \<Rightarrow> nat" where
  "bitlen n = (if n = 0 then 0 else Suc (bitlen (n div 2)))"

declare bitlen.simps [simp del]

definition div_pow2 :: "nat \<Rightarrow> nat \<Rightarrow> int \<Rightarrow> nat \<times> nat" where
  "div_pow2 n d e = (if 0 \<le> e then (n, d * 2 ^ nat e) else (n * 2 ^ nat (- e), d))"

definition round_even :: "nat \<Rightarrow> nat \<Rightarrow> nat" where
  "round_even n d =
     (let q = n div d; r = n mod d in
      if 2 * r > d \<or> 2 * r = d \<and> odd q then q + 1 else q)"

definition F64_INF :: nat where
  "F64_INF = 2047 * 2 ^ 52"

definition f64_exponent :: "nat \<Rightarrow> nat \<Rightarrow> int" where
  "f64_exponent n d =
     (let k = int (bitlen n) - int (bitlen d);
          (n', d') = div_pow2 n d k;
          k = (if n' < d' then k - 1 else k)
      in max (- 1074) (k - 52))"

definition f64_round :: "nat \<Rightarrow> nat \<Rightarrow> nat" where
  "f64_round n d =
     (let e = f64_exponent n d;
          (n', d') = div_pow2 n d e
      in min F64_INF (nat (e + 1074) * 2 ^ 52 + round_even n' d'))"

definition exp_part :: "string \<Rightarrow> int" where
  "exp_part s =
     (case s of
        [] \<Rightarrow> 0
      | _ # s \<Rightarrow>
          if char_at s 0 = CHR ''-'' then - int (dval 0 (tl s))
          else if char_at s 0 = CHR ''+'' then int (dval 0 (tl s))
          else int (dval 0 s))"

definition is_exp_char :: "char \<Rightarrow> bool" where
  "is_exp_char c \<longleftrightarrow> c = CHR ''e'' \<or> c = CHR ''E''"

definition dec_ratio :: "string \<Rightarrow> nat \<times> nat" where
  "dec_ratio s =
     (let m = takeWhile (\<lambda>c. \<not> is_exp_char c) s;
          k = exp_part (dropWhile (\<lambda>c. \<not> is_exp_char c) s) -
              int (length (tl (dropWhile (\<lambda>c. c \<noteq> CHR ''.'') m)));
          v = dval 0 (filter is_digit m)
      in if 0 \<le> k then (v * 10 ^ nat k, 1) else (v, 10 ^ nat (- k)))"

definition strtod :: "string \<Rightarrow> nat" where
  "strtod s = (case dec_ratio s of (n, d) \<Rightarrow> if n = 0 then 0 else f64_round n d)"

end
