(* ===== verification/Sl_Lexer.thy ===== *)
theory Sl_Lexer
  imports Sl_Float
begin

text \<open>
  The lexer of the compiler (\<open>src/src/lexer.c\<close>, \<open>lexer.h\<close>): white space and comments, integer and
  float literals, byte strings, identifiers and keywords, lifetimes, string literals with escapes
  and interpolations, operators, and the loop that reads a whole text into tokens, as
  \<open>parse_expr_source\<close>, the loader and the test driver have it.

  The state of a \<open>Lexer\<close> is the text from \<open>src + pos\<close> on and the line; what lies behind the last
  character is the terminator. \<open>lex_error\<close> ends the compiler: it is the value
  \<open>Inl (Lex_Error line msg)\<close>. A read behind the terminator is \<open>Inl Overrun\<close>. A \<open>double\<close> is its bit
  pattern, as in the encoding package, and \<open>strtod\<close> is the correctly rounded conversion.
\<close>

section \<open>Tokens\<close>

datatype (plugins only: size) TokenType =
    T_EOF | T_IDENT | T_INT | T_FLOAT | T_STRING | T_BYTES | T_KW_LET | T_KW_FN | T_KW_IF
  | T_KW_ELSE | T_KW_WHILE | T_KW_RETURN | T_KW_TRUE | T_KW_FALSE | T_KW_PUB | T_KW_IMPORT
  | T_KW_GUARD | T_KW_FOR | T_KW_IN | T_KW_AS | T_KW_STRUCT | T_KW_ENUM | T_KW_GC | T_KW_OWN
  | T_KW_MUT | T_KW_IMPL | T_KW_EXTERN | T_KW_LINK | T_KW_SPAWN | T_KW_BREAK | T_KW_CONTINUE
  | T_KW_UNSAFE | T_KW_SELECT | T_KW_SWITCH | T_KW_CASE | T_KW_DEFAULT | T_TY_INT | T_TY_FLOAT
  | T_TY_STR | T_TY_BOOL | T_TY_BYTES | T_TY_I8 | T_TY_I16 | T_TY_I32 | T_TY_I64 | T_TY_U8
  | T_TY_U16 | T_TY_U32 | T_TY_U64 | T_TY_F32 | T_TY_MAP | T_TY_OPT | T_TY_RESULT | T_TY_DURATION
  | T_TY_RAWPTR | T_TY_ARENA | T_TY_WIRE | T_TY_UNTIL | T_TY_FAULT | T_TY_PEER | T_TY_TRIP
  | T_TY_LINK | T_TY_CHAN | T_TY_JOIN | T_PLUS | T_MINUS | T_STAR | T_SLASH | T_PERCENT | T_EQEQ
  | T_BANGEQ | T_LT | T_GT | T_LTE | T_GTE | T_AMP | T_PIPE | T_CARET | T_TILDE | T_SHL | T_SHR
  | T_PLUSEQ | T_MINUSEQ | T_STAREQ | T_SLASHEQ | T_PERCENTEQ | T_AMPEQ | T_PIPEEQ | T_CARETEQ
  | T_SHLEQ | T_SHREQ | T_ANDAND | T_OROR | T_QQ | T_BANG | T_ASSIGN | T_LPAREN | T_RPAREN
  | T_LBRACE | T_RBRACE | T_COMMA | T_SEMI | T_COLON | T_LBRACKET | T_RBRACKET | T_DOT | T_DOTDOT
  | T_DOTDOTEQ | T_ARROW | T_LIFETIME

text \<open>
  \<open>int_val\<close> keeps the 64 bits of the literal; the buffer behind \<open>text\<close> is the list of its
  characters without the terminator that closes it.
\<close>

record Token =
  tk_type :: TokenType
  tk_text :: "string option"
  tk_int_val :: u64
  tk_big_u64 :: bool
  tk_float_val :: u64
  tk_byte_val :: "sl_bytes option"
  tk_byte_len :: int
  tk_line :: nat

record Lexer =
  lx_rest :: string
  lx_line :: nat

datatype lex_fault = Lex_Error nat string | Overrun

type_synonym 'a lexes = "lex_fault + 'a"

definition lexer_init :: "string \<Rightarrow> Lexer" where
  "lexer_init src = \<lparr>lx_rest = src, lx_line = 1\<rparr>"

definition make_token :: "TokenType \<Rightarrow> nat \<Rightarrow> Token" where
  "make_token t line =
     \<lparr>tk_type = t, tk_text = None, tk_int_val = 0, tk_big_u64 = False, tk_float_val = 0,
      tk_byte_val = None, tk_byte_len = 0, tk_line = line\<rparr>"

abbreviation NL :: char where "NL \<equiv> CHR 0x0A"
abbreviation QUOTE :: char where "QUOTE \<equiv> CHR 0x22"
abbreviation BACKSLASH :: char where "BACKSLASH \<equiv> CHR 0x5C"
abbreviation MARK :: char where "MARK \<equiv> CHR 0x01"

definition is_ident_start :: "char \<Rightarrow> bool" where
  "is_ident_start c \<longleftrightarrow> is_alpha c \<or> c = CHR ''_''"

definition is_ident_char :: "char \<Rightarrow> bool" where
  "is_ident_char c \<longleftrightarrow> is_alnum c \<or> c = CHR ''_''"

definition hexval :: "char \<Rightarrow> int" where
  "hexval c =
     (if CHR ''0'' \<le> c \<and> c \<le> CHR ''9'' then int (code c) - 48
      else if CHR ''a'' \<le> c \<and> c \<le> CHR ''f'' then int (code c) - 97 + 10
      else if CHR ''A'' \<le> c \<and> c \<le> CHR ''F'' then int (code c) - 65 + 10
      else - 1)"

lemma NUL_neq [simp]:
  "NL \<noteq> NUL" "QUOTE \<noteq> NUL" "BACKSLASH \<noteq> NUL" "CHR ''/'' \<noteq> NUL" "CHR '' '' \<noteq> NUL"
  "NUL \<noteq> NL" "NUL \<noteq> QUOTE" "NUL \<noteq> BACKSLASH" "NUL \<noteq> CHR ''/'' " "NUL \<noteq> CHR '' ''"
  by (simp_all add: NUL_def)

section \<open>White space and comments\<close>

fun skip_comment :: "string \<Rightarrow> string" where
  "skip_comment [] = []"
| "skip_comment (c # s) = (if c \<noteq> NUL \<and> c \<noteq> NL then skip_comment s else c # s)"

lemma skip_comment_le: "length (skip_comment s) \<le> length s"
  by (induction s) auto

lemma at_not_NUL: "char_at s 0 = c \<Longrightarrow> c \<noteq> NUL \<Longrightarrow> \<exists>s'. s = c # s'"
  by (cases s) auto

lemma tl_less: "char_at s 0 \<noteq> NUL \<Longrightarrow> length (tl s) < length s"
  by (cases s) auto

lemma skip_comment_less: "char_at s 0 = CHR ''/'' \<Longrightarrow> length (skip_comment s) < length s"
  using skip_comment_le [of "tl s"] by (cases s) (auto simp: NUL_def)

function skip_blanks :: "string \<Rightarrow> nat \<Rightarrow> string \<times> nat" where
  "skip_blanks s line =
     (let c = char_at s 0 in
      if c = NL then skip_blanks (tl s) (line + 1)
      else if c = CHR '' '' \<or> c = CHR 0x09 \<or> c = CHR 0x0D then skip_blanks (tl s) line
      else if c = CHR ''/'' \<and> char_at s 1 = CHR ''/'' then skip_blanks (skip_comment s) line
      else (s, line))"
  by pat_completeness auto

termination
proof (relation "measure (\<lambda>(s, _). length s)")
  fix s line and c
  assume c: "c = char_at s 0"
  show "c = NL \<Longrightarrow> ((tl s, line + 1), s, line) \<in> measure (\<lambda>(s, _). length s)"
    using tl_less [of s] by (simp only: c in_measure case_prod_conv) (simp add: NUL_def)
  show "c = CHR '' '' \<or> c = CHR 0x09 \<or> c = CHR 0x0D \<Longrightarrow> ((tl s, line), s, line) \<in> measure (\<lambda>(s, _). length s)"
    using tl_less [of s] c by (auto simp: NUL_def)
  show "c = CHR ''/'' \<and> char_at s 1 = CHR ''/'' \<Longrightarrow> ((skip_comment s, line), s, line) \<in> measure (\<lambda>(s, _). length s)"
    using skip_comment_less [of s] c by simp
qed simp

declare skip_blanks.simps [simp del]

section \<open>Numbers\<close>

text \<open>\<open>strtoull\<close> of digits of the base: the value, or \<open>ULLONG_MAX\<close> and \<open>ERANGE\<close>.\<close>

definition digits_val :: "nat \<Rightarrow> string \<Rightarrow> nat" where
  "digits_val base ds = foldl (\<lambda>v d. v * base + nat (hexval d)) 0 ds"

definition strtoull :: "nat \<Rightarrow> string \<Rightarrow> u64 \<times> bool" where
  "strtoull base ds =
     (let v = digits_val base ds in
      if v < 2 ^ 64 then (word_of_nat v, False) else (- 1, True))"

definition int_token :: "u64 \<Rightarrow> nat \<Rightarrow> Token" where
  "int_token uv line =
     (make_token T_INT line)\<lparr>tk_int_val := uv, tk_big_u64 := (uv > 9223372036854775807)\<rparr>"

text \<open>The loop over the digits of a hexadecimal or binary literal, with its 80 byte buffer.\<close>

definition radix_digit :: "nat \<Rightarrow> char \<Rightarrow> bool" where
  "radix_digit base d \<longleftrightarrow> (if base = 16 then is_xdigit d else d = CHR ''0'' \<or> d = CHR ''1'')"

fun radix_loop :: "nat \<Rightarrow> string \<Rightarrow> string \<Rightarrow> string \<times> string" where
  "radix_loop base [] digits = (digits, [])"
| "radix_loop base (d # s) digits =
     (if d = CHR ''_'' then radix_loop base s digits
      else if \<not> radix_digit base d then (digits, d # s)
      else radix_loop base s (if length digits + 1 < 80 then digits @ [d] else digits))"

definition lex_radix :: "nat \<Rightarrow> nat \<Rightarrow> string \<Rightarrow> (Token \<times> string) lexes" where
  "lex_radix line base s =
     (let (digits, r) = radix_loop base (drop 2 s) [] in
      if digits = []
      then Inl (Lex_Error line (if base = 16 then ''hex literal has no digits''
                                else ''binary literal has no digits''))
      else
        (let (uv, erange) = strtoull base digits in
         if erange \<or> length digits \<ge> 79
         then Inl (Lex_Error line (if base = 16 then ''hex literal does not fit in 64 bits''
                                   else ''binary literal does not fit in 64 bits''))
         else Inr (int_token uv line, r)))"

text \<open>Digits and separators; the exponent that makes a float of the digits before it.\<close>

definition digit_or_sep :: "char \<Rightarrow> bool" where
  "digit_or_sep c \<longleftrightarrow> is_digit c \<or> c = CHR ''_''"

definition lex_exponent :: "string \<Rightarrow> string option" where
  "lex_exponent p =
     (if is_exp_char (char_at p 0)
      then (let q = tl p;
                q = (if char_at q 0 = CHR ''+'' \<or> char_at q 0 = CHR ''-'' then tl q else q)
            in if is_digit (char_at q 0) then Some (dropWhile digit_or_sep q) else None)
      else None)"

definition lex_float :: "nat \<Rightarrow> string \<Rightarrow> string \<Rightarrow> (Token \<times> string) lexes" where
  "lex_float line lit q =
     (let s = filter (\<lambda>c. c \<noteq> CHR ''_'') lit;
          nonzero = list_ex (\<lambda>c. CHR ''1'' \<le> c \<and> c \<le> CHR ''9'')
                      (takeWhile (\<lambda>c. \<not> is_exp_char c) s)
      in if length s \<ge> 400 then Inl (Lex_Error line ''float literal is too long'')
         else
           (let v = strtod s in
            if v = F64_INF
            then Inl (Lex_Error line (''float literal '' @ s @
                   '' is too large for a float (the largest is about 1.8e308)''))
            else if v = 0 \<and> nonzero
            then Inl (Lex_Error line (''float literal '' @ s @
                   '' is too small for a float: it would be 0 (the smallest is about 4.9e-324)''))
            else Inr ((make_token T_FLOAT line)\<lparr>tk_float_val := word_of_nat v\<rparr>, q)))"

definition lex_decimal :: "nat \<Rightarrow> string \<Rightarrow> string \<Rightarrow> (Token \<times> string) lexes" where
  "lex_decimal line lit r =
     (let ds = filter (\<lambda>c. c \<noteq> CHR ''_'') lit;
          too_long = (length ds > 95);
          (uv, erange) = strtoull 10 (take 95 ds)
      in if too_long \<or> erange
         then Inl (Lex_Error line
                ''integer literal does not fit in 64 bits (maximum is 18446744073709551615)'')
         else Inr (int_token uv line, r))"

definition lex_number :: "nat \<Rightarrow> string \<Rightarrow> (Token \<times> string) lexes" where
  "lex_number line s =
     (let x = char_at s 1; hex = (x = CHR ''x'' \<or> x = CHR ''X''); bin = (x = CHR ''b'' \<or> x = CHR ''B'')
      in if char_at s 0 = CHR ''0'' \<and> (hex \<or> bin) \<and> \<not> (\<not> hex \<and> char_at s 2 = QUOTE)
         then lex_radix line (if hex then 16 else 2) s
         else
           (let r = dropWhile digit_or_sep s;
                has_frac = (char_at r 0 = CHR ''.'' \<and> is_digit (char_at r 1));
                p = (if has_frac then dropWhile digit_or_sep (tl r) else r)
            in case lex_exponent p of
                 Some q \<Rightarrow> lex_float line (take (length s - length q) s) q
               | None \<Rightarrow>
                   if has_frac then lex_float line (take (length s - length p) s) p
                   else lex_decimal line (takeWhile digit_or_sep s) r))"

section \<open>Byte strings\<close>

text \<open>The one-letter escapes, which string literals share.\<close>

definition escapes :: "(char \<times> char) list" where
  "escapes = [(CHR ''n'', CHR 0x0A), (CHR ''t'', CHR 0x09), (CHR ''r'', CHR 0x0D),
     (CHR ''0'', CHR 0x00), (QUOTE, QUOTE), (BACKSLASH, BACKSLASH)]"

text \<open>A hexadecimal escape reads two bytes behind its letter whatever the first of them is: where
  the text ends with the letter, the second lies behind the terminator.\<close>

fun lex_bytes_loop :: "nat \<Rightarrow> string \<Rightarrow> sl_bytes \<Rightarrow> (sl_bytes \<times> string) lexes" where
  "lex_bytes_loop line [] buf = Inl (Lex_Error line ''unterminated byte string literal'')"
| "lex_bytes_loop line (c # s) buf =
     (if c = NUL \<or> c = NL then Inl (Lex_Error line ''unterminated byte string literal'')
      else if c = QUOTE then Inr (buf, s)
      else if c = BACKSLASH then
        (case map_of escapes (char_at s 0) of
           Some b \<Rightarrow> lex_bytes_loop line (tl s) (buf @ [uc b])
         | None \<Rightarrow>
             if char_at s 0 = CHR ''x'' then
               (let hi = hexval (char_at s 1); lo = hexval (char_at s 2) in
                if length s < 2 then Inl Overrun
                else if hi < 0 \<or> lo < 0
                then Inl (Lex_Error line
                       (''invalid '' @ [BACKSLASH] @ ''xHH escape in byte string literal''))
                else lex_bytes_loop line (drop 3 s) (buf @ [word_of_int (hi * 16 + lo)]))
             else Inl (Lex_Error line ''unknown escape sequence in byte string literal''))
      else lex_bytes_loop line s (buf @ [uc c]))"

definition lex_bytes :: "nat \<Rightarrow> string \<Rightarrow> (Token \<times> string) lexes" where
  "lex_bytes line s =
     (case lex_bytes_loop line (drop 2 s) [] of
        Inl e \<Rightarrow> Inl e
      | Inr (buf, r) \<Rightarrow>
          Inr ((make_token T_BYTES line)\<lparr>tk_byte_val := Some buf, tk_byte_len := int (length buf)\<rparr>, r))"

section \<open>Identifiers, keywords, lifetimes\<close>

definition kw_table :: "(string \<times> TokenType) list" where
  "kw_table = [
    (''let'', T_KW_LET), (''fn'', T_KW_FN), (''if'', T_KW_IF), (''else'', T_KW_ELSE),
    (''while'', T_KW_WHILE), (''return'', T_KW_RETURN), (''true'', T_KW_TRUE),
    (''false'', T_KW_FALSE), (''pub'', T_KW_PUB), (''import'', T_KW_IMPORT),
    (''guard'', T_KW_GUARD), (''for'', T_KW_FOR), (''in'', T_KW_IN), (''as'', T_KW_AS),
    (''struct'', T_KW_STRUCT), (''enum'', T_KW_ENUM), (''gc'', T_KW_GC), (''own'', T_KW_OWN),
    (''mut'', T_KW_MUT), (''impl'', T_KW_IMPL), (''extern'', T_KW_EXTERN), (''link'', T_KW_LINK),
    (''spawn'', T_KW_SPAWN), (''break'', T_KW_BREAK), (''continue'', T_KW_CONTINUE),
    (''unsafe'', T_KW_UNSAFE), (''select'', T_KW_SELECT), (''switch'', T_KW_SWITCH),
    (''case'', T_KW_CASE), (''default'', T_KW_DEFAULT), (''int'', T_TY_INT),
    (''float'', T_TY_FLOAT), (''str'', T_TY_STR), (''bool'', T_TY_BOOL), (''bytes'', T_TY_BYTES),
    (''i8'', T_TY_I8), (''i16'', T_TY_I16), (''i32'', T_TY_I32), (''i64'', T_TY_I64),
    (''u8'', T_TY_U8), (''u16'', T_TY_U16), (''u32'', T_TY_U32), (''u64'', T_TY_U64),
    (''f32'', T_TY_F32), (''map'', T_TY_MAP), (''opt'', T_TY_OPT), (''result'', T_TY_RESULT),
    (''duration'', T_TY_DURATION), (''rawptr'', T_TY_RAWPTR), (''arena'', T_TY_ARENA),
    (''chan'', T_TY_CHAN), (''join'', T_TY_JOIN)]"

definition lex_ident :: "nat \<Rightarrow> string \<Rightarrow> (Token \<times> string)" where
  "lex_ident line s =
     (let name = takeWhile is_ident_char s;
          t = (case map_of kw_table name of Some tt \<Rightarrow> tt | None \<Rightarrow> T_IDENT)
      in ((make_token t line)\<lparr>tk_text := Some name\<rparr>, dropWhile is_ident_char s))"

definition lex_lifetime :: "nat \<Rightarrow> string \<Rightarrow> (Token \<times> string)" where
  "lex_lifetime line s =
     ((make_token T_LIFETIME line)\<lparr>tk_text := Some (takeWhile is_ident_char (tl s))\<rparr>,
      dropWhile is_ident_char (tl s))"

section \<open>String literals\<close>

text \<open>
  The first pass finds the closing quote: it steps over every escaped character unseen, so that
  a backslash before the terminator takes it behind the end of the text.
\<close>

fun string_scan :: "nat \<Rightarrow> string \<Rightarrow> string \<Rightarrow> (string \<times> string) lexes" where
  "string_scan line [] body = Inl (Lex_Error line ''unterminated string literal'')"
| "string_scan line (c # s) body =
     (if c = NUL \<or> c = NL then Inl (Lex_Error line ''unterminated string literal'')
      else if c = QUOTE then Inr (body, s)
      else if c = BACKSLASH then
        (case s of [] \<Rightarrow> Inl Overrun | e # s' \<Rightarrow> string_scan line s' (body @ [c, e]))
      else string_scan line s (body @ [c]))"

text \<open>The expression of an interpolation, copied up to the brace that closes it.\<close>

fun interp_copy :: "nat \<Rightarrow> string \<Rightarrow> string \<Rightarrow> (string \<times> string) option" where
  "interp_copy depth [] out = None"
| "interp_copy depth (c # s) out =
     (if c = CHR ''{'' then interp_copy (depth + 1) s (out @ [c])
      else if c = CHR ''}''
      then (if depth - 1 = 0 then Some (out, s) else interp_copy (depth - 1) s (out @ [c]))
      else interp_copy depth s (out @ [c]))"

lemma interp_copy_less:
  "interp_copy depth s out = Some (out', r) \<Longrightarrow> length r < length s"
  by (induction depth s out rule: interp_copy.induct) (auto split: if_splits)

function (sequential) decode_loop :: "nat \<Rightarrow> string \<Rightarrow> string \<Rightarrow> string lexes" where
  "decode_loop line [] out = Inr out"
| "decode_loop line (c # s) out =
     (if c = CHR ''$'' \<and> s \<noteq> [] \<and> char_at s 0 = CHR ''{'' then
        (case interp_copy 1 (tl s) (out @ [MARK]) of
           None \<Rightarrow> Inl (Lex_Error line ''unterminated interpolation'')
         | Some (out', r) \<Rightarrow> decode_loop line r (out' @ [MARK]))
      else if c = BACKSLASH then
        (if s = [] then Inl (Lex_Error line ''unterminated string literal'')
         else
           (if char_at s 0 = CHR ''{'' then
              (case interp_copy 1 (tl s) (out @ [MARK]) of
                 None \<Rightarrow> Inl (Lex_Error line ''unterminated interpolation'')
               | Some (out', r) \<Rightarrow> decode_loop line r (out' @ [MARK]))
            else
              (case map_of escapes (char_at s 0) of
                 Some b \<Rightarrow> decode_loop line (tl s) (out @ [b])
               | None \<Rightarrow> Inl (Lex_Error line ''unknown escape sequence in string literal''))))
      else decode_loop line s (out @ [c]))"
  by pat_completeness auto

termination
  by (relation "measure (\<lambda>(_, s, _). length s)") (auto dest!: interp_copy_less)

definition decode_string :: "nat \<Rightarrow> string \<Rightarrow> string lexes" where
  "decode_string line body = decode_loop line body []"

definition lex_string :: "nat \<Rightarrow> string \<Rightarrow> (Token \<times> string) lexes" where
  "lex_string line s =
     (case string_scan line (tl s) [] of
        Inl e \<Rightarrow> Inl e
      | Inr (body, r) \<Rightarrow>
          (case decode_string line body of
             Inl e \<Rightarrow> Inl e
           | Inr out \<Rightarrow> Inr ((make_token T_STRING line)\<lparr>tk_text := Some out\<rparr>, r)))"

section \<open>Operators and punctuation\<close>

definition ops3 :: "((char \<times> char \<times> char) \<times> TokenType) list" where
  "ops3 = [((CHR ''<'', CHR ''<'', CHR ''=''), T_SHLEQ), ((CHR ''>'', CHR ''>'', CHR ''=''), T_SHREQ)]"

definition ops2 :: "((char \<times> char) \<times> TokenType) list" where
  "ops2 = [
    ((CHR ''+'', CHR ''=''), T_PLUSEQ), ((CHR ''-'', CHR ''=''), T_MINUSEQ),
    ((CHR ''*'', CHR ''=''), T_STAREQ), ((CHR ''/'', CHR ''=''), T_SLASHEQ),
    ((CHR ''%'', CHR ''=''), T_PERCENTEQ), ((CHR ''&'', CHR ''=''), T_AMPEQ),
    ((CHR ''|'', CHR ''=''), T_PIPEEQ), ((CHR ''^'', CHR ''=''), T_CARETEQ),
    ((CHR ''='', CHR ''=''), T_EQEQ), ((CHR ''!'', CHR ''=''), T_BANGEQ),
    ((CHR ''<'', CHR ''=''), T_LTE), ((CHR ''>'', CHR ''=''), T_GTE),
    ((CHR ''&'', CHR ''&''), T_ANDAND), ((CHR ''|'', CHR ''|''), T_OROR),
    ((CHR ''?'', CHR ''?''), T_QQ), ((CHR ''-'', CHR ''>''), T_ARROW),
    ((CHR ''<'', CHR ''<''), T_SHL), ((CHR ''>'', CHR ''>''), T_SHR)]"

definition ops1 :: "(char \<times> TokenType) list" where
  "ops1 = [
    (CHR ''&'', T_AMP), (CHR ''|'', T_PIPE), (CHR ''^'', T_CARET), (CHR ''~'', T_TILDE),
    (CHR ''+'', T_PLUS), (CHR ''-'', T_MINUS), (CHR ''*'', T_STAR), (CHR ''/'', T_SLASH),
    (CHR ''%'', T_PERCENT), (CHR ''<'', T_LT), (CHR ''>'', T_GT), (CHR ''!'', T_BANG),
    (CHR ''='', T_ASSIGN), (CHR ''('', T_LPAREN), (CHR '')'', T_RPAREN), (CHR ''{'', T_LBRACE),
    (CHR ''}'', T_RBRACE), (CHR '','', T_COMMA), (CHR '';'', T_SEMI), (CHR '':'', T_COLON),
    (CHR ''['', T_LBRACKET), (CHR '']'', T_RBRACKET), (CHR ''.'', T_DOT)]"

definition lex_op :: "nat \<Rightarrow> string \<Rightarrow> (Token \<times> string) lexes" where
  "lex_op line s =
     (case map_of ops3 (char_at s 0, char_at s 1, char_at s 2) of
        Some t \<Rightarrow> Inr (make_token t line, drop 3 s)
      | None \<Rightarrow>
          (case map_of ops2 (char_at s 0, char_at s 1) of
             Some t \<Rightarrow> Inr (make_token t line, drop 2 s)
           | None \<Rightarrow>
               (case map_of ops1 (char_at s 0) of
                  Some t \<Rightarrow> Inr (make_token t line, drop 1 s)
                | None \<Rightarrow> Inl (Lex_Error line ''unexpected character''))))"

definition lex_range :: "nat \<Rightarrow> string \<Rightarrow> Token \<times> string" where
  "lex_range line s =
     (if char_at s 2 = CHR ''='' then (make_token T_DOTDOTEQ line, drop 3 s)
      else (make_token T_DOTDOT line, drop 2 s))"

section \<open>The next token, and all tokens\<close>

definition lex_token :: "nat \<Rightarrow> string \<Rightarrow> (Token \<times> string) lexes" where
  "lex_token line s =
     (let c = char_at s 0 in
      if is_digit c then lex_number line s
      else if c = CHR ''b'' \<and> char_at s 1 = QUOTE then lex_bytes line s
      else if is_ident_start c then Inr (lex_ident line s)
      else if c = CHR ''.'' \<and> char_at s 1 = CHR ''.'' then Inr (lex_range line s)
      else if c = CHR 0x27 \<and> is_ident_start (char_at s 1) then Inr (lex_lifetime line s)
      else if c = QUOTE then lex_string line s
      else lex_op line s)"

definition lexer_next :: "Lexer \<Rightarrow> (Token \<times> Lexer) lexes" where
  "lexer_next lx =
     (let (s, line) = skip_blanks (lx_rest lx) (lx_line lx) in
      if char_at s 0 = NUL then Inr (make_token T_EOF line, \<lparr>lx_rest = s, lx_line = line\<rparr>)
      else (case lex_token line s of
              Inl e \<Rightarrow> Inl e
            | Inr (t, r) \<Rightarrow> Inr (t, \<lparr>lx_rest = r, lx_line = line\<rparr>)))"

text \<open>
  The loop \<open>toks[n++] = lexer_next(&lx)\<close> up to and including the end of the file. The fuel is
  the number of rounds; one more than the length of the text is enough, as is shown below.
\<close>

fun lex_loop :: "nat \<Rightarrow> Lexer \<Rightarrow> Token list lexes option" where
  "lex_loop 0 lx = None"
| "lex_loop (Suc fuel) lx =
     (case lexer_next lx of
        Inl e \<Rightarrow> Some (Inl e)
      | Inr (t, lx') \<Rightarrow>
          if tk_type t = T_EOF then Some (Inr [t])
          else map_option (map_sum id (Cons t)) (lex_loop fuel lx'))"

definition lex_all :: "string \<Rightarrow> Token list lexes option" where
  "lex_all src = lex_loop (Suc (length src)) (lexer_init src)"

section \<open>Names of token types\<close>

text \<open>The names in single quotes.\<close>

definition quoted :: "string \<Rightarrow> string" where
  "quoted s = CHR 0x27 # s @ [CHR 0x27]"

definition token_names :: "(TokenType \<times> string) list" where
  "token_names = [
    (T_EOF, ''end of file''), (T_IDENT, ''identifier''), (T_INT, ''integer''),
    (T_FLOAT, ''float''), (T_STRING, ''string''), (T_BYTES, ''byte string''),
    (T_KW_LET, quoted ''let''), (T_KW_FN, quoted ''fn''), (T_KW_IF, quoted ''if''),
    (T_KW_ELSE, quoted ''else''), (T_KW_WHILE, quoted ''while''),
    (T_KW_RETURN, quoted ''return''), (T_KW_TRUE, quoted ''true''),
    (T_KW_FALSE, quoted ''false''), (T_KW_PUB, quoted ''pub''), (T_KW_IMPORT, quoted ''import''),
    (T_KW_GUARD, quoted ''guard''), (T_KW_FOR, quoted ''for''), (T_KW_IN, quoted ''in''),
    (T_KW_AS, quoted ''as''), (T_KW_STRUCT, quoted ''struct''), (T_KW_ENUM, quoted ''enum''),
    (T_KW_GC, quoted ''gc''), (T_KW_OWN, quoted ''own''), (T_KW_MUT, quoted ''mut''),
    (T_AMP, quoted ''&''), (T_PIPE, quoted ''|''), (T_CARET, quoted ''^''),
    (T_TILDE, quoted ''~''), (T_SHL, quoted ''<<''), (T_SHR, quoted ''>>''),
    (T_PLUSEQ, quoted ''+=''), (T_MINUSEQ, quoted ''-=''), (T_STAREQ, quoted ''*=''),
    (T_SLASHEQ, quoted ''/=''), (T_PERCENTEQ, quoted ''%=''), (T_AMPEQ, quoted ''&=''),
    (T_PIPEEQ, quoted ''|=''), (T_CARETEQ, quoted ''^=''), (T_SHLEQ, quoted ''<<=''),
    (T_SHREQ, quoted ''>>=''), (T_KW_IMPL, quoted ''impl''), (T_KW_EXTERN, quoted ''extern''),
    (T_KW_LINK, quoted ''link''), (T_KW_SPAWN, quoted ''spawn''), (T_KW_BREAK, quoted ''break''),
    (T_KW_CONTINUE, quoted ''continue''), (T_KW_UNSAFE, quoted ''unsafe''),
    (T_KW_SELECT, quoted ''select''), (T_KW_SWITCH, quoted ''switch''),
    (T_KW_CASE, quoted ''case''), (T_KW_DEFAULT, quoted ''default''), (T_TY_INT, quoted ''int''),
    (T_TY_FLOAT, quoted ''float''), (T_TY_STR, quoted ''str''), (T_TY_BOOL, quoted ''bool''),
    (T_TY_BYTES, quoted ''bytes''), (T_TY_I8, quoted ''i8''), (T_TY_I16, quoted ''i16''),
    (T_TY_I32, quoted ''i32''), (T_TY_I64, quoted ''i64''), (T_TY_U8, quoted ''u8''),
    (T_TY_U16, quoted ''u16''), (T_TY_U32, quoted ''u32''), (T_TY_U64, quoted ''u64''),
    (T_TY_F32, quoted ''f32''), (T_TY_MAP, quoted ''map''), (T_TY_OPT, quoted ''opt''),
    (T_TY_RESULT, quoted ''result''), (T_TY_DURATION, quoted ''duration''),
    (T_TY_RAWPTR, quoted ''rawptr''), (T_TY_ARENA, quoted ''arena''),
    (T_TY_WIRE, quoted ''wire''), (T_TY_UNTIL, quoted ''until''), (T_TY_FAULT, quoted ''fault''),
    (T_TY_PEER, quoted ''peer''), (T_TY_TRIP, quoted ''trip''), (T_TY_LINK, quoted ''link''),
    (T_TY_CHAN, quoted ''chan''), (T_TY_JOIN, quoted ''join''), (T_PLUS, quoted ''+''),
    (T_MINUS, quoted ''-''), (T_STAR, quoted ''*''), (T_SLASH, quoted ''/''),
    (T_PERCENT, quoted ''%''), (T_EQEQ, quoted ''==''), (T_BANGEQ, quoted ''!=''),
    (T_LT, quoted ''<''), (T_GT, quoted ''>''), (T_LTE, quoted ''<=''), (T_GTE, quoted ''>=''),
    (T_ANDAND, quoted ''&&''), (T_OROR, quoted ''||''), (T_QQ, quoted ''??''),
    (T_BANG, quoted ''!''), (T_ASSIGN, quoted ''=''), (T_LPAREN, quoted ''(''),
    (T_RPAREN, quoted '')''), (T_LBRACE, quoted ''{''), (T_RBRACE, quoted ''}''),
    (T_COMMA, quoted '',''), (T_SEMI, quoted '';''), (T_COLON, quoted '':''),
    (T_LBRACKET, quoted ''[''), (T_RBRACKET, quoted '']''), (T_DOT, quoted ''.''),
    (T_DOTDOT, quoted ''..''), (T_DOTDOTEQ, quoted ''..=''), (T_ARROW, quoted ''->''),
    (T_LIFETIME, ''lifetime'')]"

definition token_type_name :: "TokenType \<Rightarrow> string" where
  "token_type_name t = (case map_of token_names t of Some s \<Rightarrow> s | None \<Rightarrow> ''?'')"

section \<open>What a token consumes\<close>

text \<open>The line feeds in a text.\<close>

definition newlines :: "string \<Rightarrow> nat" where
  "newlines s = length (filter (\<lambda>c. c = NL) s)"

lemma newlines_simps [simp]:
  "newlines [] = 0" "newlines (c # s) = (if c = NL then Suc (newlines s) else newlines s)"
  "newlines (s @ t) = newlines s + newlines t"
  by (simp_all add: newlines_def)

lemma newlines_none: "NL \<notin> set s \<Longrightarrow> newlines s = 0"
  by (induction s) auto

lemma newlines_takeWhile: "\<not> P NL \<Longrightarrow> newlines (takeWhile P s) = 0"
  by (rule newlines_none) (auto dest: set_takeWhileD)

text \<open>
  \<open>eats k s r\<close>: \<open>r\<close> is what is left of \<open>s\<close> after some text with \<open>k\<close> line feeds. The text may hold
  more where a backslash stands before one: a string literal steps over it and does not count it.
\<close>

definition joined :: "string \<Rightarrow> bool" where
  "joined s \<longleftrightarrow> sublist [BACKSLASH, NL] s"

definition eats :: "nat \<Rightarrow> string \<Rightarrow> string \<Rightarrow> bool" where
  "eats k s r \<longleftrightarrow> (\<exists>used. s = used @ r \<and> (joined used \<or> newlines used = k))"

lemma joined_append: "joined s \<or> joined t \<Longrightarrow> joined (s @ t)"
  unfolding joined_def by (meson sublist_append_leftI sublist_append_rightI sublist_order.order.trans)

lemma joined_Cons: "joined s \<Longrightarrow> joined (c # s)"
  using joined_append [of "[c]" s] by simp

lemma joined_pair [simp]: "joined (BACKSLASH # NL # s)"
  unfolding joined_def by (metis append_Cons append_Nil sublist_append_rightI)

lemma eatsI: "newlines used = k \<Longrightarrow> eats k (used @ r) r"
  by (auto simp: eats_def)

lemma eats_refl [simp]: "eats 0 s s"
  by (auto simp: eats_def)

lemma eats_trans: "eats j s r \<Longrightarrow> eats k r q \<Longrightarrow> eats (j + k) s q"
  unfolding eats_def by (metis append.assoc newlines_simps(3) joined_append)

lemma eats_Cons: "c \<noteq> NL \<Longrightarrow> eats k s r \<Longrightarrow> eats k (c # s) r"
  using eats_trans [OF eatsI [of "[c]" 0 s]] by simp

lemma eats_length: "eats k s r \<Longrightarrow> length r \<le> length s"
  by (auto simp: eats_def)

lemma eats_dropWhile: "\<not> P NL \<Longrightarrow> eats 0 s (dropWhile P s)"
  using eatsI [of "takeWhile P s" 0 "dropWhile P s"] by (simp add: newlines_takeWhile)

lemma skip_comment_eats: "eats 0 s (skip_comment s)"
  by (induction s) (auto intro: eats_Cons)

lemma skip_blanks_Nil [simp]: "skip_blanks [] line = ([], line)"
  by (subst skip_blanks.simps) (simp add: NUL_def)

lemma skip_blanks_Cons:
  "skip_blanks (c # s) line =
     (if c = NL then skip_blanks s (line + 1)
      else if c = CHR '' '' \<or> c = CHR 0x09 \<or> c = CHR 0x0D then skip_blanks s line
      else if c = CHR ''/'' \<and> char_at s 0 = CHR ''/'' then skip_blanks (skip_comment s) line
      else (c # s, line))"
  by (subst skip_blanks.simps) (simp add: Let_def NUL_def)

lemma skip_blanks_eats:
  "skip_blanks s line = (r, line') \<Longrightarrow> \<exists>k. eats k s r \<and> line' = line + k"
proof (induction "length s" arbitrary: s line rule: less_induct)
  case less
  show ?case
  proof (cases s)
    case Nil
    then show ?thesis using less.prems by (auto intro: exI [of _ 0])
  next
    case (Cons c s')
    note step = less.prems [unfolded Cons skip_blanks_Cons]
    have short: "length (skip_comment s') < length s" "length s' < length s"
      using skip_comment_le [of s'] Cons by auto
    consider "c = NL" "skip_blanks s' (line + 1) = (r, line')"
      | "c \<noteq> NL" "skip_blanks s' line = (r, line')"
      | "c = CHR ''/''" "skip_blanks (skip_comment s') line = (r, line')"
      | "r = s" "line' = line"
    proof (cases "c = NL")
      case True
      with that(1) step show ?thesis by simp
    next
      case False
      with that(2-4) step Cons show ?thesis
        by (cases "c = CHR '' '' \<or> c = CHR 0x09 \<or> c = CHR 0x0D"; cases "c = CHR ''/'' \<and> char_at s' 0 = CHR ''/''") simp_all
    qed
    then show ?thesis
    proof cases
      case 1
      from less.hyps [OF short(2) 1(2)] obtain k where "eats k s' r" "line' = line + 1 + k" by auto
      moreover have "eats 1 s s'" using eatsI [of "[NL]" 1 s'] 1 Cons by simp
      ultimately show ?thesis using eats_trans by fastforce
    next
      case 2
      from less.hyps [OF short(2) 2(2)] 2(1) Cons show ?thesis by (auto intro: eats_Cons)
    next
      case 3
      from less.hyps [OF short(1) 3(2)] obtain k where "eats k (skip_comment s') r" "line' = line + k"
        by auto
      moreover have "eats 0 s (skip_comment s')" using 3 Cons skip_comment_eats eats_Cons by simp
      ultimately show ?thesis using eats_trans by fastforce
    next
      case 4
      then show ?thesis by (auto intro: exI [of _ 0])
    qed
  qed
qed

lemma skip_blanks_stops:
  "skip_blanks s line = (r, line') \<Longrightarrow> skip_blanks r line' = (r, line')"
proof (induction "length s" arbitrary: s line rule: less_induct)
  case less
  show ?case
  proof (cases s)
    case Nil
    then show ?thesis using less.prems by auto
  next
    case (Cons c s')
    have "length (skip_comment s') < length s" "length s' < length s"
      using skip_comment_le [of s'] Cons by auto
    then show ?thesis
      using less.prems less.hyps Cons by (auto simp: skip_blanks_Cons split: if_splits)
  qed
qed

section \<open>The parts of the lexer\<close>

lemma radix_loop_eats: "radix_loop base s ds = (ds', r) \<Longrightarrow> eats 0 s r"
proof (induction base s ds rule: radix_loop.induct)
  case (2 base d s digits)
  have "\<not> radix_digit base NL" by (simp add: radix_digit_def char_class less_eq_char_def)
  with 2 show ?case by (cases "d = NL") (auto split: if_splits intro: eats_Cons)
qed simp

lemma at_Suc_0: "char_at s (Suc i) = char_at (tl s) i"
  by (cases s) auto

lemma at_numeral: "char_at s (Suc 0) = char_at (tl s) 0" "char_at s 1 = char_at (tl s) 0" "char_at s 2 = char_at (tl (tl s)) 0"
  by (simp_all add: at_Suc_0 numeral_2_eq_2)

lemma eats_tl: "char_at s 0 \<noteq> NL \<Longrightarrow> eats 0 s (tl s)"
  by (cases s) (auto intro: eats_Cons)

lemma eats_tl_trans: "char_at s 0 \<noteq> NL \<Longrightarrow> eats 0 (tl s) r \<Longrightarrow> eats 0 s r"
  using eats_trans [OF eats_tl] by fastforce

lemma hexval_NL [simp]: "hexval NL = - 1"
  by (simp add: hexval_def less_eq_char_def)

lemma eats_hex_escape:
  assumes "\<not> hexval (char_at s 1) < 0" and "\<not> hexval (char_at s 2) < 0" and "char_at s 0 = CHR ''x''"
  shows "eats 0 s (drop 3 s)"
proof -
  have "char_at (tl s) 0 \<noteq> NL" "char_at (tl (tl s)) 0 \<noteq> NL" "char_at s 0 \<noteq> NL"
    using assms by (auto simp: at_numeral)
  moreover have "drop 3 s = tl (tl (tl s))" by (simp add: numeral_3_eq_3 drop_Suc)
  ultimately show ?thesis by (metis eats_tl eats_tl_trans)
qed

lemma escape_not_NL: "map_of escapes e = Some b \<Longrightarrow> e \<noteq> NL \<and> e \<noteq> NUL"
  by (auto simp: escapes_def NUL_def split: if_splits)

lemma bytes_loop_eats: "lex_bytes_loop line s buf = Inr (buf', r) \<Longrightarrow> eats 0 s r"
proof (induction line s buf rule: lex_bytes_loop.induct)
  case (2 line c s buf)
  show ?case
  proof (cases "c = BACKSLASH")
    case False
    with 2 show ?thesis by (auto split: if_splits intro: eats_Cons)
  next
    case True
    have "eats 0 s r"
    proof (cases "map_of escapes (char_at s 0)")
      case None
      with "2.prems" True have x: "char_at s 0 = CHR ''x''" "\<not> hexval (char_at s 1) < 0" "\<not> hexval (char_at s 2) < 0"
        and two: "\<not> length s < 2"
        and loop: "lex_bytes_loop line (drop 3 s) (buf @ [word_of_int (hexval (char_at s 1) * 16 + hexval (char_at s 2))]) = Inr (buf', r)"
        by (simp_all add: Let_def split: if_splits)
      have "eats 0 (drop 3 s) r"
        using "2.IH"(1) True None x two loop by simp
      then show ?thesis using eats_trans [OF eats_hex_escape [OF x(2,3,1)]] by simp
    next
      case (Some b)
      with "2.prems" True have "lex_bytes_loop line (tl s) (buf @ [uc b]) = Inr (buf', r)" by simp
      with "2.IH"(2) True Some have "eats 0 (tl s) r" by simp
      with escape_not_NL [OF Some] show ?thesis by (blast intro: eats_tl_trans)
    qed
    then show ?thesis using True by (simp add: eats_Cons)
  qed
qed simp

lemma string_scan_eats: "string_scan line s body = Inr (body', r) \<Longrightarrow> eats 0 s r"
proof (induction line s body rule: string_scan.induct)
  case (2 line c s body)
  show ?case
  proof (cases "c = BACKSLASH \<and> s \<noteq> []")
    case False
    with 2 show ?thesis by (auto split: if_splits list.splits intro: eats_Cons)
  next
    case True
    then obtain e s' where s: "s = e # s'" by (cases s) auto
    with 2 True have "eats 0 s' r" by auto
    moreover have "eats 0 (c # s) s'"
      unfolding eats_def using True s by (intro exI [of _ "[c, e]"]) auto
    ultimately show ?thesis using eats_trans by fastforce
  qed
qed simp

lemma lex_bytes_eats:
  assumes "lex_bytes line s = Inr (t, r)" and "char_at s 0 = CHR ''b''" and "char_at s 1 = QUOTE"
  shows "eats 0 s r \<and> length r < length s"
proof -
  obtain s' where s: "s = CHR ''b'' # QUOTE # s'"
    using assms(2,3) by (cases s; cases "tl s") (auto simp: NUL_def)
  with assms(1) obtain buf where "lex_bytes_loop line s' [] = Inr (buf, r)"
    by (auto simp: lex_bytes_def split: sum.splits)
  from bytes_loop_eats [OF this] s show ?thesis by (auto intro: eats_Cons dest: eats_length)
qed

lemma lex_string_eats:
  assumes "lex_string line s = Inr (t, r)" and "char_at s 0 = QUOTE"
  shows "eats 0 s r \<and> length r < length s"
proof -
  obtain s' where s: "s = QUOTE # s'" using assms(2) by (cases s) auto
  with assms(1) obtain body where "string_scan line s' [] = Inr (body, r)"
    by (auto simp: lex_string_def split: sum.splits)
  from string_scan_eats [OF this] s show ?thesis by (auto intro: eats_Cons dest: eats_length)
qed

lemma eats_dropWhile_less:
  "\<not> P NL \<Longrightarrow> P c \<Longrightarrow> eats 0 (c # s) (dropWhile P (c # s)) \<and> length (dropWhile P (c # s)) < Suc (length s)"
  using eats_dropWhile [of P "c # s"] length_dropWhile_le [of P s] by simp

lemma not_ident_NL [simp]: "\<not> is_ident_char NL" "\<not> digit_or_sep NL" "\<not> is_exp_char NL"
  by (simp_all add: is_ident_char_def digit_or_sep_def is_exp_char_def char_class less_eq_char_def)

lemma ident_start_char: "is_ident_start c \<Longrightarrow> is_ident_char c"
  by (auto simp: is_ident_start_def is_ident_char_def is_alnum_def)

lemma lex_ident_eats:
  assumes "is_ident_start (char_at s 0)"
  shows "eats 0 s (dropWhile is_ident_char s) \<and> length (dropWhile is_ident_char s) < length s"
proof (cases s)
  case Nil
  then show ?thesis using assms by (simp add: is_ident_start_def char_class less_eq_char_def NUL_def)
next
  case (Cons c s')
  then show ?thesis using assms eats_dropWhile_less [of is_ident_char c s'] ident_start_char by simp
qed

lemma lex_exponent_eats: "lex_exponent p = Some q \<Longrightarrow> eats 0 p q"
proof -
  assume q: "lex_exponent p = Some q"
  define p' where "p' = (if char_at (tl p) 0 = CHR ''+'' \<or> char_at (tl p) 0 = CHR ''-'' then tl (tl p) else tl p)"
  have "q = dropWhile digit_or_sep p'" "is_exp_char (char_at p 0)"
    using q by (auto simp: lex_exponent_def p'_def Let_def split: if_splits)
  then have "eats 0 p' q" "char_at p 0 \<noteq> NL" by (auto intro: eats_dropWhile)
  moreover have "eats 0 (tl p) p'" unfolding p'_def by (auto intro: eats_tl)
  ultimately have "eats 0 (tl p) q" using eats_trans by fastforce
  with \<open>char_at p 0 \<noteq> NL\<close> show ?thesis by (rule eats_tl_trans)
qed

lemma lex_number_eats:
  assumes "lex_number line s = Inr (t, r)" and "is_digit (char_at s 0)"
  shows "eats 0 s r \<and> length r < length s"
proof -
  obtain c s' where s: "s = c # s'" "is_digit c"
    using assms(2) by (cases s) (auto simp: char_class less_eq_char_def NUL_def)
  define r0 where "r0 = dropWhile digit_or_sep s"
  define p where "p = (if char_at r0 0 = CHR ''.'' \<and> is_digit (char_at r0 1) then dropWhile digit_or_sep (tl r0) else r0)"
  have r0: "eats 0 s r0" "length r0 < length s"
    using eats_dropWhile_less [of digit_or_sep c s'] s by (auto simp: r0_def digit_or_sep_def [of c])
  have "eats 0 (tl r0) p" if "char_at r0 0 = CHR ''.''" "is_digit (char_at r0 1)"
    using that by (simp add: p_def eats_dropWhile)
  then have "eats 0 r0 p" by (cases "char_at r0 0 = CHR ''.'' \<and> is_digit (char_at r0 1)") (auto simp: p_def intro: eats_tl_trans)
  with r0 have p: "eats 0 s p" "length p < length s"
    using eats_trans eats_length by fastforce+
  have radix: "eats 0 s r \<and> length r < length s"
    if "lex_radix line base s = Inr (t, r)" "char_at s 0 = CHR ''0''" "char_at s 1 \<noteq> NL" for base
  proof -
    from that obtain ds where "radix_loop base (drop 2 s) [] = (ds, r)"
      by (auto simp: lex_radix_def Let_def split: prod.splits if_splits)
    from radix_loop_eats [OF this] have "eats 0 (tl (tl s)) r" by (simp add: numeral_2_eq_2 drop_Suc)
    with that have "eats 0 s' r" "c \<noteq> NL" using s eats_tl_trans [of s' r] by (auto simp: at_numeral)
    then show ?thesis using s by (auto intro: eats_Cons dest: eats_length)
  qed
  from assms(1) consider base where "lex_radix line base s = Inr (t, r)" "char_at s 0 = CHR ''0''" "char_at s 1 \<noteq> NL"
    | "lex_exponent p = Some r" | "r = p" | "r = r0"
    unfolding lex_number_def Let_def r0_def [symmetric] p_def [symmetric]
    by (auto simp: lex_float_def lex_decimal_def Let_def split: if_splits option.splits prod.splits)
  then show ?thesis
  proof cases
    case 2
    then show ?thesis using p lex_exponent_eats eats_trans eats_length by fastforce
  qed (use radix p r0 in auto)
qed

lemma ops_not_NL:
  "map_of ops3 (a, b, c) = Some t \<Longrightarrow> a \<noteq> NL \<and> a \<noteq> NUL \<and> b \<noteq> NL \<and> c \<noteq> NL \<and> t \<noteq> T_EOF"
  "map_of ops2 (a, b) = Some t \<Longrightarrow> a \<noteq> NL \<and> a \<noteq> NUL \<and> b \<noteq> NL \<and> t \<noteq> T_EOF"
  "map_of ops1 a = Some t \<Longrightarrow> a \<noteq> NL \<and> a \<noteq> NUL \<and> t \<noteq> T_EOF"
  by (drule map_of_SomeD; auto simp: ops3_def ops2_def ops1_def NUL_def)+

lemma eats_drop:
  "char_at s 0 \<noteq> NL \<Longrightarrow> eats 0 s (drop 1 s)"
  "char_at s 0 \<noteq> NL \<Longrightarrow> char_at s 1 \<noteq> NL \<Longrightarrow> eats 0 s (drop 2 s)"
  "char_at s 0 \<noteq> NL \<Longrightarrow> char_at s 1 \<noteq> NL \<Longrightarrow> char_at s 2 \<noteq> NL \<Longrightarrow> eats 0 s (drop 3 s)"
  by (simp_all add: at_Suc_0 numeral_2_eq_2 numeral_3_eq_3 drop_Suc eats_tl_trans eats_tl)

lemma drop_less: "char_at s 0 \<noteq> NUL \<Longrightarrow> 0 < n \<Longrightarrow> length (drop n s) < length s"
  by (cases s) auto

lemma kw_not_EOF: "map_of kw_table s = Some t \<Longrightarrow> t \<noteq> T_EOF"
  by (drule map_of_SomeD) (auto simp: kw_table_def)

lemma make_token_fields [simp]:
  "tk_line (make_token t line) = line" "tk_type (make_token t line) = t"
  "tk_text (make_token t line) = None"
  by (simp_all add: make_token_def)

text \<open>One token takes characters off the text and stands on the line the text stood on.\<close>

lemma lex_token_eats:
  assumes "lex_token line s = Inr (t, r)"
  shows "eats 0 s r \<and> length r < length s"
proof -
  let ?c = "char_at s 0"
  consider (num) "is_digit ?c" "lex_number line s = Inr (t, r)"
    | (bytes) "?c = CHR ''b''" "char_at s 1 = QUOTE" "lex_bytes line s = Inr (t, r)"
    | (ident) "is_ident_start ?c" "lex_ident line s = (t, r)"
    | (range) "?c = CHR ''.''" "char_at s 1 = CHR ''.''" "lex_range line s = (t, r)"
    | (life) "?c = CHR 0x27" "is_ident_start (char_at s 1)" "lex_lifetime line s = (t, r)"
    | (str) "?c = QUOTE" "lex_string line s = Inr (t, r)"
    | (opr) "lex_op line s = Inr (t, r)"
    using assms by (auto simp: lex_token_def Let_def split: if_splits)
  then show ?thesis
  proof cases
    case ident
    then show ?thesis using lex_ident_eats [of s] by (auto simp: lex_ident_def Let_def)
  next
    case range
    then show ?thesis
      using eats_drop(2,3) [of s] drop_less [of s 2] drop_less [of s 3]
      by (auto simp: lex_range_def NUL_def split: if_splits)
  next
    case life
    then have "eats 0 s r" "length r < length (tl s)"
      using lex_ident_eats [of "tl s"] eats_tl_trans [of s r] by (auto simp: lex_lifetime_def at_numeral)
    then show ?thesis by auto
  next
    case opr
    then consider "\<exists>u. map_of ops3 (char_at s 0, char_at s 1, char_at s 2) = Some u" "r = drop 3 s"
      | "\<exists>u. map_of ops2 (char_at s 0, char_at s 1) = Some u" "r = drop 2 s"
      | "\<exists>u. map_of ops1 (char_at s 0) = Some u" "r = drop 1 s"
      by (auto simp: lex_op_def split: option.splits)
    then show ?thesis
      using eats_drop [of s] drop_less [of s] by cases (auto dest!: ops_not_NL)
  qed (use lex_number_eats lex_bytes_eats lex_string_eats in blast)+
qed

text \<open>The cases of \<open>lex_token\<close> on success.\<close>

lemma lex_token_cases:
  assumes "lex_token line s = Inr (t, r)"
  obtains (num) "lex_number line s = Inr (t, r)" | (bytes) "lex_bytes line s = Inr (t, r)"
    | (ident) "lex_ident line s = (t, r)" | (range) "lex_range line s = (t, r)"
    | (life) "lex_lifetime line s = (t, r)" | (str) "lex_string line s = Inr (t, r)"
    | (opr) "lex_op line s = Inr (t, r)"
  using assms by (auto simp: lex_token_def Let_def split: if_splits)

lemma lex_radix_fields: "lex_radix line base s = Inr (t, r) \<Longrightarrow> tk_line t = line \<and> tk_type t = T_INT"
  unfolding lex_radix_def Let_def int_token_def by (auto split: prod.splits if_splits)

lemma lex_float_fields: "lex_float line s q = Inr (t, r) \<Longrightarrow> tk_line t = line \<and> tk_type t = T_FLOAT \<and> r = q"
  unfolding lex_float_def Let_def by (simp split: if_splits) auto

lemma lex_decimal_fields: "lex_decimal line s q = Inr (t, r) \<Longrightarrow> tk_line t = line \<and> tk_type t = T_INT \<and> r = q"
  unfolding lex_decimal_def Let_def int_token_def by (auto split: prod.splits if_splits)

lemma lex_number_fields:
  "lex_number line s = Inr (t, r) \<Longrightarrow> tk_line t = line \<and> (tk_type t = T_INT \<or> tk_type t = T_FLOAT)"
  unfolding lex_number_def Let_def
  by (simp split: if_splits option.splits add: lex_radix_fields lex_float_fields lex_decimal_fields)

lemma lex_token_fields:
  assumes "lex_token line s = Inr (t, r)"
  shows "tk_line t = line \<and> tk_type t \<noteq> T_EOF"
  using assms
proof (cases rule: lex_token_cases)
  case num
  then show ?thesis using lex_number_fields by fastforce
next
  case bytes
  then show ?thesis by (auto simp: lex_bytes_def split: sum.splits)
next
  case ident
  then show ?thesis using kw_not_EOF by (auto simp: lex_ident_def Let_def split: option.splits)
next
  case range
  then show ?thesis by (auto simp: lex_range_def split: if_splits)
next
  case life
  then show ?thesis by (auto simp: lex_lifetime_def)
next
  case str
  then show ?thesis by (auto simp: lex_string_def split: sum.splits)
next
  case opr
  then show ?thesis using ops_not_NL by (auto simp: lex_op_def split: option.splits)
qed

section \<open>The whole text\<close>

lemma eats_exact: "eats k s r \<Longrightarrow> \<not> joined s \<Longrightarrow> \<exists>used. s = used @ r \<and> newlines used = k"
  unfolding eats_def by (metis joined_append)

lemma not_joined_rest: "eats k s r \<Longrightarrow> \<not> joined s \<Longrightarrow> \<not> joined r \<and> newlines s = k + newlines r"
  using eats_exact [of k s r] joined_append by fastforce

lemma lexer_next_cases:
  assumes "lexer_next lx = Inr (t, lx')"
  obtains (eof) s k where "eats k (lx_rest lx) s" "char_at s 0 = NUL"
      "t = make_token T_EOF (lx_line lx + k)" "lx' = \<lparr>lx_rest = s, lx_line = lx_line lx + k\<rparr>"
    | (tok) s k r where "eats k (lx_rest lx) s" "lex_token (lx_line lx + k) s = Inr (t, r)"
      "lx' = \<lparr>lx_rest = r, lx_line = lx_line lx + k\<rparr>"
proof -
  obtain s line where sp: "skip_blanks (lx_rest lx) (lx_line lx) = (s, line)" by force
  from skip_blanks_eats [OF sp] obtain k where k: "eats k (lx_rest lx) s" "line = lx_line lx + k" by blast
  show ?thesis
  proof (cases "char_at s 0 = NUL")
    case True
    with assms sp k eof show ?thesis by (simp add: lexer_next_def)
  next
    case False
    with assms sp k tok show ?thesis by (auto simp: lexer_next_def split: sum.splits)
  qed
qed

lemma lexer_next_step:
  assumes "lexer_next lx = Inr (t, lx')" and "tk_type t \<noteq> T_EOF"
  shows "\<exists>k. eats k (lx_rest lx) (lx_rest lx') \<and> length (lx_rest lx') < length (lx_rest lx) \<and>
    lx_line lx' = lx_line lx + k \<and> tk_line t = lx_line lx'"
  using assms(1)
proof (cases rule: lexer_next_cases)
  case (tok s k r)
  have "eats 0 s r" "length r < length s" "tk_line t = lx_line lx + k"
    using lex_token_eats [OF tok(2)] lex_token_fields [OF tok(2)] by auto
  then show ?thesis using tok(1,3) eats_trans [OF tok(1), of 0 r] eats_length [OF tok(1)]
    by (intro exI [of _ k]) auto
qed (use assms(2) in simp)

lemma lexer_next_EOF:
  assumes "lexer_next lx = Inr (t, lx')" and "tk_type t = T_EOF"
  shows "\<exists>s k. eats k (lx_rest lx) s \<and> char_at s 0 = NUL \<and> t = make_token T_EOF (lx_line lx + k)"
  using assms(1)
proof (cases rule: lexer_next_cases)
  case (tok s k r)
  then show ?thesis using lex_token_fields assms(2) by blast
qed blast

text \<open>What holds of the tokens read from a state on.\<close>

definition tokens_ok :: "Lexer \<Rightarrow> Token list \<Rightarrow> bool" where
  "tokens_ok lx ts \<longleftrightarrow>
     (\<exists>us e. ts = us @ [e] \<and> tk_type e = T_EOF \<and> (\<forall>t\<in>set us. tk_type t \<noteq> T_EOF) \<and>
        sorted (lx_line lx # map tk_line ts) \<and>
        (nul_free (lx_rest lx) \<and> \<not> joined (lx_rest lx) \<longrightarrow> tk_line e = lx_line lx + newlines (lx_rest lx)))"

lemma tokens_ok_EOF:
  assumes "lexer_next lx = Inr (t, lx')" and "tk_type t = T_EOF"
  shows "tokens_ok lx [t]"
proof -
  from lexer_next_EOF [OF assms] obtain s k
    where s: "eats k (lx_rest lx) s" "char_at s 0 = NUL" "t = make_token T_EOF (lx_line lx + k)" by blast
  have "newlines (lx_rest lx) = k" if "nul_free (lx_rest lx)" "\<not> joined (lx_rest lx)"
  proof -
    have "nul_free s" using s(1) that(1) by (auto simp: eats_def)
    then have "s = []" using s(2) by (cases s) (auto simp: nul_free_def)
    then show ?thesis using not_joined_rest [OF s(1) that(2)] by simp
  qed
  then show ?thesis using s(3) by (auto simp: tokens_ok_def intro!: exI [of _ "[]"])
qed

lemma tokens_ok_Cons:
  assumes "lexer_next lx = Inr (t, lx')" and "tk_type t \<noteq> T_EOF" and "tokens_ok lx' ts"
  shows "tokens_ok lx (t # ts)"
proof -
  from lexer_next_step [OF assms(1,2)] obtain k where k: "eats k (lx_rest lx) (lx_rest lx')"
    "lx_line lx' = lx_line lx + k" "tk_line t = lx_line lx'" by blast
  from assms(3) obtain us e where ts: "ts = us @ [e]" "tk_type e = T_EOF" "\<forall>t\<in>set us. tk_type t \<noteq> T_EOF"
      "sorted (lx_line lx' # map tk_line ts)"
      "nul_free (lx_rest lx') \<and> \<not> joined (lx_rest lx') \<longrightarrow> tk_line e = lx_line lx' + newlines (lx_rest lx')"
    unfolding tokens_ok_def by blast
  have "tk_line e = lx_line lx + newlines (lx_rest lx)" if "nul_free (lx_rest lx)" "\<not> joined (lx_rest lx)"
  proof -
    have "nul_free (lx_rest lx')" using k(1) that(1) by (auto simp: eats_def)
    with not_joined_rest [OF k(1) that(2)] ts(5) k(2) show ?thesis by simp
  qed
  moreover have "sorted (lx_line lx # map tk_line (t # ts))" using ts(4) k by auto
  ultimately show ?thesis
    unfolding tokens_ok_def using ts assms(2) by (intro exI [of _ "t # us"] exI [of _ e]) auto
qed

lemma lex_loop_total:
  "length (lx_rest lx) < fuel \<Longrightarrow>
    \<exists>res. lex_loop fuel lx = Some res \<and> (\<forall>ts. res = Inr ts \<longrightarrow> tokens_ok lx ts)"
proof (induction fuel arbitrary: lx)
  case (Suc fuel)
  show ?case
  proof (cases "lexer_next lx")
    case (Inr p)
    obtain t lx' where p: "lexer_next lx = Inr (t, lx')" using Inr by (cases p) auto
    show ?thesis
    proof (cases "tk_type t = T_EOF")
      case True
      with p tokens_ok_EOF show ?thesis by auto
    next
      case False
      with lexer_next_step [OF p] Suc.prems have "length (lx_rest lx') < fuel" by auto
      from Suc.IH [OF this] obtain res where
        res: "lex_loop fuel lx' = Some res" "\<forall>ts. res = Inr ts \<longrightarrow> tokens_ok lx' ts" by blast
      with p False tokens_ok_Cons show ?thesis by (cases res) auto
    qed
  qed auto
qed simp

section \<open>Reads behind the terminator\<close>

text \<open>
  What stands inside an open literal, piece by piece: a character that neither ends the literal
  nor starts an escape, or an escape. The first scan of a string literal takes any character
  behind a backslash; a byte string knows its escapes.
\<close>

definition body_char :: "char \<Rightarrow> bool" where
  "body_char c \<longleftrightarrow> c \<noteq> NUL \<and> c \<noteq> NL \<and> c \<noteq> QUOTE \<and> c \<noteq> BACKSLASH"

fun str_piece :: "string \<Rightarrow> bool" where
  "str_piece [c] = body_char c"
| "str_piece [c, e] = (c = BACKSLASH)"
| "str_piece _ = False"

fun byte_piece :: "string \<Rightarrow> bool" where
  "byte_piece [c] = body_char c"
| "byte_piece [c, e] = (c = BACKSLASH \<and> e \<in> {CHR ''n'', CHR ''t'', CHR ''r'', CHR ''0'', QUOTE, BACKSLASH})"
| "byte_piece [c, x, h, l] = (c = BACKSLASH \<and> x = CHR ''x'' \<and> is_xdigit h \<and> is_xdigit l)"
| "byte_piece _ = False"

text \<open>An open literal that the text breaks off in the middle of an escape.\<close>

definition open_at_end :: "string \<Rightarrow> bool" where
  "open_at_end s \<longleftrightarrow>
     (\<exists>ps. list_all str_piece ps \<and> s = QUOTE # concat ps @ [BACKSLASH]) \<or>
     (\<exists>ps. list_all byte_piece ps \<and> s = CHR ''b'' # QUOTE # concat ps @ [BACKSLASH, CHR ''x''])"

lemma str_piece_cases:
  assumes "str_piece p"
  obtains c where "p = [c]" "body_char c" | e where "p = [BACKSLASH, e]"
  using assms by (cases p rule: str_piece.cases) auto

lemma byte_piece_cases:
  assumes "byte_piece p"
  obtains c where "p = [c]" "body_char c"
    | e where "p = [BACKSLASH, e]" "map_of escapes e \<noteq> None"
    | h l where "p = [BACKSLASH, CHR ''x'', h, l]" "is_xdigit h" "is_xdigit l"
  using assms by (cases p rule: byte_piece.cases) (auto simp: escapes_def)

lemma escape_piece: "map_of escapes e = Some b \<Longrightarrow> byte_piece [BACKSLASH, e]"
  by (auto simp: escapes_def split: if_splits)

lemma hexval_xdigit: "0 \<le> hexval c \<longleftrightarrow> is_xdigit c"
  by (auto simp: hexval_def char_class char_less_eq_code)

text \<open>The string scan runs behind the end exactly on pieces with a backslash behind them.\<close>

lemma string_scan_overrun:
  "string_scan line s body = Inl Overrun \<Longrightarrow> \<exists>ps. list_all str_piece ps \<and> s = concat ps @ [BACKSLASH]"
proof (induction line s body rule: string_scan.induct)
  case (2 line c s body)
  consider (esc) "c = BACKSLASH" | (raw) "body_char c" using "2.prems" by (auto simp: body_char_def split: if_splits)
  then show ?case
  proof cases
    case esc
    show ?thesis
    proof (cases s)
      case Nil
      then show ?thesis using esc by (intro exI [of _ "[]"]) simp
    next
      case (Cons e s')
      with "2.prems" esc obtain ps where "list_all str_piece ps" "s' = concat ps @ [BACKSLASH]"
        using "2.IH"(1) by auto
      then show ?thesis using Cons esc by (intro exI [of _ "[c, e] # ps"]) simp
    qed
  next
    case raw
    with "2.prems" obtain ps where "list_all str_piece ps" "s = concat ps @ [BACKSLASH]"
      using "2.IH"(2) by (auto simp: body_char_def)
    then show ?thesis using raw by (intro exI [of _ "[c] # ps"]) simp
  qed
qed simp

lemma string_scan_open:
  "list_all str_piece ps \<Longrightarrow> string_scan line (concat ps @ [BACKSLASH]) body = Inl Overrun"
proof (induction ps arbitrary: body)
  case (Cons p ps)
  then have "str_piece p" by simp
  then show ?case using Cons by (cases rule: str_piece_cases) (auto simp: body_char_def)
qed simp

lemma bytes_overrun:
  "lex_bytes_loop line s buf = Inl Overrun \<Longrightarrow>
    \<exists>ps. list_all byte_piece ps \<and> s = concat ps @ [BACKSLASH, CHR ''x'']"
proof (induction line s buf rule: lex_bytes_loop.induct)
  case (2 line c s buf)
  consider (esc) e s' b where "c = BACKSLASH" "s = e # s'" "map_of escapes e = Some b"
    | (cut) "c = BACKSLASH" "s = ''x''"
    | (hex) h l s' where "c = BACKSLASH" "s = CHR ''x'' # h # l # s'" "is_xdigit h" "is_xdigit l"
    | (raw) "body_char c"
  proof (cases "c = BACKSLASH")
    case True
    show ?thesis
    proof (cases "map_of escapes (char_at s 0)")
      case (Some b)
      then show ?thesis using that(1) True by (cases s) (auto simp: escapes_def NUL_def)
    next
      case None
      then have x: "char_at s 0 = CHR ''x''" using "2.prems" True by (auto split: if_splits)
      then obtain s1 where s1: "s = CHR ''x'' # s1" by (cases s) (auto simp: NUL_def)
      show ?thesis
      proof (cases s1)
        case Nil
        then show ?thesis using that(2) True s1 by simp
      next
        case (Cons h s2)
        then have d: "0 \<le> hexval h" "0 \<le> hexval (char_at s2 0)"
          using "2.prems" True None s1 by (auto simp: numeral_2_eq_2 Let_def split: if_splits)
        then obtain l s3 where "s2 = l # s3" by (cases s2) (auto simp: hexval_def NUL_def less_eq_char_def)
        then show ?thesis using that(3) True s1 Cons d by (simp add: hexval_xdigit)
      qed
    qed
  next
    case False
    then show ?thesis using that(4) "2.prems" by (auto simp: body_char_def split: if_splits)
  qed
  then show ?case
  proof cases
    case esc
    with "2.prems" obtain ps where "list_all byte_piece ps" "s' = concat ps @ [BACKSLASH, CHR ''x'']"
      using "2.IH"(2) by auto
    then show ?thesis using esc escape_piece [OF esc(3)]
      by (intro exI [of _ "[BACKSLASH, e] # ps"]) (simp del: byte_piece.simps)
  next
    case cut
    then show ?thesis by (intro exI [of _ "[]"]) simp
  next
    case hex
    have none: "map_of escapes (CHR ''x'') = None" by (simp add: escapes_def)
    from "2.prems" hex none have "lex_bytes_loop line s' (buf @ [word_of_int (hexval h * 16 + hexval l)]) = Inl Overrun"
      using hexval_xdigit [of h] hexval_xdigit [of l] by (simp add: Let_def numeral_2_eq_2 numeral_3_eq_3 split: if_splits)
    then obtain ps where "list_all byte_piece ps" "s' = concat ps @ [BACKSLASH, CHR ''x'']"
      using "2.IH"(1) hex none hexval_xdigit [of h] hexval_xdigit [of l] by (auto simp: numeral_2_eq_2 numeral_3_eq_3)
    then show ?thesis using hex by (intro exI [of _ "[BACKSLASH, CHR ''x'', h, l] # ps"]) simp
  next
    case raw
    with "2.prems" obtain ps where "list_all byte_piece ps" "s = concat ps @ [BACKSLASH, CHR ''x'']"
      using "2.IH"(3) by (auto simp: body_char_def)
    then show ?thesis using raw by (intro exI [of _ "[c] # ps"]) simp
  qed
qed simp

lemma bytes_open:
  "list_all byte_piece ps \<Longrightarrow> lex_bytes_loop line (concat ps @ [BACKSLASH, CHR ''x'']) buf = Inl Overrun"
proof (induction ps arbitrary: buf)
  case Nil
  then show ?case by (simp add: escapes_def)
next
  case (Cons p ps)
  have none: "map_of escapes (CHR ''x'') = None" by (simp add: escapes_def)
  from Cons have "byte_piece p" by simp
  then show ?case
  proof (cases rule: byte_piece_cases)
    case (3 h l)
    then show ?thesis using Cons none hexval_xdigit [of h] hexval_xdigit [of l]
      by (auto simp: Let_def numeral_2_eq_2 numeral_3_eq_3)
  qed (use Cons in \<open>auto simp: body_char_def\<close>)
qed

lemma decode_no_overrun: "decode_loop line s out \<noteq> Inl Overrun"
proof (induction line s out rule: decode_loop.induct)
  case (2 line c s out)
  consider (i1) "c = CHR ''$'' \<and> s \<noteq> [] \<and> char_at s 0 = CHR ''{''"
    | (i2) "c = BACKSLASH" "s \<noteq> []" "char_at s 0 = CHR ''{''"
    | (esc) "c = BACKSLASH" "s = [] \<or> char_at s 0 \<noteq> CHR ''{''"
    | (raw) "\<not> (c = CHR ''$'' \<and> s \<noteq> [] \<and> char_at s 0 = CHR ''{'')" "c \<noteq> BACKSLASH" by fastforce
  then show ?case
  proof cases
    case i1
    then show ?thesis using "2.IH"(1) by (auto split: option.split)
  next
    case i2
    then show ?thesis using "2.IH"(2) by (auto split: option.split)
  next
    case esc
    then show ?thesis using "2.IH"(3) by (auto split: option.split)
  next
    case raw
    then show ?thesis using "2.IH"(4) by auto
  qed
qed simp

lemma number_parts_no_overrun:
  "lex_radix line base s \<noteq> Inl Overrun" "lex_float line s q \<noteq> Inl Overrun"
  "lex_decimal line s q \<noteq> Inl Overrun"
  unfolding lex_radix_def lex_float_def lex_decimal_def Let_def
  by (simp_all split: prod.split)

lemma lex_number_no_overrun: "lex_number line s \<noteq> Inl Overrun"
  unfolding lex_number_def Let_def
  by (simp add: number_parts_no_overrun split: option.split)

lemma lex_token_overrun: "lex_token line s = Inl Overrun \<longleftrightarrow> open_at_end s"
proof
  assume *: "lex_token line s = Inl Overrun"
  then consider (bytes) "char_at s 0 = CHR ''b''" "char_at s 1 = QUOTE" "lex_bytes line s = Inl Overrun"
    | (str) "char_at s 0 = QUOTE" "lex_string line s = Inl Overrun"
    using lex_number_no_overrun
    by (auto simp: lex_token_def Let_def lex_op_def split: if_splits option.splits)
  then show "open_at_end s"
  proof cases
    case bytes
    then obtain s' where s: "s = CHR ''b'' # QUOTE # s'" by (cases s; cases "tl s") (auto simp: NUL_def)
    with bytes(3) have "lex_bytes_loop line s' [] = Inl Overrun" by (auto simp: lex_bytes_def split: sum.splits)
    from bytes_overrun [OF this] s show ?thesis by (auto simp: open_at_end_def)
  next
    case str
    then obtain s' where s: "s = QUOTE # s'" by (cases s) (auto simp: NUL_def)
    with str(2) have "string_scan line s' [] = Inl Overrun"
      using decode_no_overrun by (auto simp: lex_string_def decode_string_def split: sum.splits)
    from string_scan_overrun [OF this] s show ?thesis by (auto simp: open_at_end_def)
  qed
next
  assume "open_at_end s"
  then consider (str) ps where "list_all str_piece ps" "s = QUOTE # concat ps @ [BACKSLASH]"
    | (bytes) ps where "list_all byte_piece ps" "s = CHR ''b'' # QUOTE # concat ps @ [BACKSLASH, CHR ''x'']"
    by (auto simp: open_at_end_def)
  then show "lex_token line s = Inl Overrun"
  proof cases
    case str
    then show ?thesis using string_scan_open [of ps line "[]"]
      by (simp add: lex_token_def lex_string_def is_ident_start_def char_class less_eq_char_def)
  next
    case bytes
    then show ?thesis using bytes_open [of ps line "[]"]
      by (simp add: lex_token_def char_class less_eq_char_def) (simp add: lex_bytes_def)
  qed
qed

text \<open>
  The places the lexer comes to: \<open>lex_at lx s\<close> when reading tokens from \<open>lx\<close> on, none of them the end
  of the file, the next token is looked for at the text \<open>s\<close>.
\<close>

inductive lex_at :: "Lexer \<Rightarrow> string \<Rightarrow> bool" where
  here: "skip_blanks (lx_rest lx) (lx_line lx) = (s, line) \<Longrightarrow> lex_at lx s"
| later: "lexer_next lx = Inr (t, lx') \<Longrightarrow> tk_type t \<noteq> T_EOF \<Longrightarrow> lex_at lx' s \<Longrightarrow> lex_at lx s"

lemma open_not_NUL: "open_at_end s \<Longrightarrow> char_at s 0 \<noteq> NUL"
  by (auto simp: open_at_end_def NUL_def)

lemma lexer_next_overrun:
  assumes "skip_blanks (lx_rest lx) (lx_line lx) = (s, line)"
  shows "lexer_next lx = Inl Overrun \<longleftrightarrow> open_at_end s"
  using assms lex_token_overrun [of line s] open_not_NUL [of s]
  by (auto simp: lexer_next_def split: sum.splits)

lemma map_sum_Inl_iff [simp]: "map_sum id f z = Inl x \<longleftrightarrow> z = Inl x"
  by (cases z) auto

lemma lex_loop_overrun:
  "length (lx_rest lx) < fuel \<Longrightarrow>
    lex_loop fuel lx = Some (Inl Overrun) \<longleftrightarrow> (\<exists>s. lex_at lx s \<and> open_at_end s)"
proof (induction fuel arbitrary: lx)
  case (Suc fuel)
  obtain s line where sp: "skip_blanks (lx_rest lx) (lx_line lx) = (s, line)" by force
  note next_iff = lexer_next_overrun [OF sp]
  have at: "lex_at lx s' \<longleftrightarrow> s' = s \<or> (\<exists>t lx'. lexer_next lx = Inr (t, lx') \<and> tk_type t \<noteq> T_EOF \<and> lex_at lx' s')" for s'
    using sp by (subst lex_at.simps) auto
  show ?case
  proof (cases "lexer_next lx")
    case (Inl e)
    then show ?thesis using next_iff at by auto
  next
    case (Inr p)
    obtain t lx' where p: "lexer_next lx = Inr (t, lx')" using Inr by (cases p) auto
    then have no: "\<not> open_at_end s" using next_iff by auto
    show ?thesis
    proof (cases "tk_type t = T_EOF")
      case True
      then show ?thesis using p no at by auto
    next
      case False
      have "length (lx_rest lx') < fuel" using lexer_next_step [OF p False] Suc.prems by auto
      from Suc.IH [OF this] show ?thesis using p no at False by auto
    qed
  qed
qed simp

lemma eats_suffix: "eats k s r \<Longrightarrow> suffix r s"
  by (auto simp: eats_def suffix_def)

lemma lex_at_suffix: "lex_at lx s \<Longrightarrow> suffix s (lx_rest lx)"
proof (induction rule: lex_at.induct)
  case (here lx s line)
  then show ?case using skip_blanks_eats eats_suffix by blast
next
  case (later lx t lx' s)
  then show ?case using lexer_next_step [OF later(1,2)] eats_suffix suffix_order.trans by blast
qed

lemma skip_blanks_open: "open_at_end s \<Longrightarrow> skip_blanks s line = (s, line)"
  by (auto simp: open_at_end_def skip_blanks_Cons)

lemma open_end: "open_at_end s \<Longrightarrow> suffix [BACKSLASH] s \<or> suffix [BACKSLASH, CHR ''x''] s"
  unfolding open_at_end_def suffix_def by (metis append_Cons)

section \<open>Properties\<close>

text \<open>C9: reading a text into tokens always comes to an end, with the tokens or with an error. The
  tokens end with the end of the file and nowhere else, their lines never go back, and the last
  line is one more than the line feeds of the text (for a text in which no backslash stands
  before a line feed: a string literal steps over such a pair without counting it).\<close>

theorem lexer_total:
  "\<exists>res. lex_all src = Some res \<and>
     (\<forall>ts. res = Inr ts \<longrightarrow>
        (\<exists>us e. ts = us @ [e] \<and> tk_type e = T_EOF \<and> (\<forall>t\<in>set us. tk_type t \<noteq> T_EOF) \<and>
           sorted (map tk_line ts) \<and>
           (nul_free src \<and> \<not> joined src \<longrightarrow> tk_line e = 1 + newlines src)))"
  using lex_loop_total [of "lexer_init src" "Suc (length src)"]
  unfolding lex_all_def tokens_ok_def by (auto simp: lexer_init_def)

theorem lexer_total_witness:
  "\<exists>us e. lex_all [NL, NL] = Some (Inr (us @ [e])) \<and> tk_type e = T_EOF \<and> tk_line e = 3"
proof -
  have "lex_all [NL, NL] = Some (Inr [make_token T_EOF 3])"
    by (simp add: lex_all_def lexer_init_def lexer_next_def skip_blanks_Cons numeral_3_eq_3)
  moreover have "nul_free [NL, NL]" "\<not> joined [NL, NL]"
    by (simp_all add: joined_def sublist_Cons_right)
  ultimately show ?thesis using lexer_total [of "[NL, NL]"] by force
qed

text \<open>C37: the lexer reads behind the terminator of its text exactly when, from token to token, it
  comes to a literal that the text breaks off in an escape: a string literal whose last byte is a
  backslash, or a byte string that ends in \<open>\x\<close>. So a text that ends in neither is never read behind
  its end, and every text that is such an open literal is.\<close>

theorem lexer_overrun:
  "(lex_all src = Some (Inl Overrun) \<longleftrightarrow> (\<exists>s. lex_at (lexer_init src) s \<and> open_at_end s)) \<and>
   (lex_all src = Some (Inl Overrun) \<longrightarrow> suffix [BACKSLASH] src \<or> suffix [BACKSLASH, CHR ''x''] src) \<and>
   (list_all str_piece ps \<longrightarrow> lex_all (QUOTE # concat ps @ [BACKSLASH]) = Some (Inl Overrun)) \<and>
   (list_all byte_piece qs \<longrightarrow>
      lex_all (CHR ''b'' # QUOTE # concat qs @ [BACKSLASH, CHR ''x'']) = Some (Inl Overrun))"
proof -
  have iff: "lex_all s = Some (Inl Overrun) \<longleftrightarrow> (\<exists>s'. lex_at (lexer_init s) s' \<and> open_at_end s')" for s
    unfolding lex_all_def by (rule lex_loop_overrun) (simp add: lexer_init_def)
  have "suffix [BACKSLASH] src \<or> suffix [BACKSLASH, CHR ''x''] src" if "lex_all src = Some (Inl Overrun)"
  proof -
    from that iff obtain s where s: "lex_at (lexer_init src) s" "open_at_end s" by blast
    have "suffix s src" using lex_at_suffix [OF s(1)] by (simp add: lexer_init_def)
    with open_end [OF s(2)] suffix_order.trans show ?thesis by blast
  qed
  moreover have "lex_all s = Some (Inl Overrun)" if "open_at_end s" for s
    using iff that lex_at.here [of "lexer_init s"] skip_blanks_open [OF that] by (auto simp: lexer_init_def)
  moreover have "list_all str_piece ps \<Longrightarrow> open_at_end (QUOTE # concat ps @ [BACKSLASH])"
    "list_all byte_piece qs \<Longrightarrow> open_at_end (CHR ''b'' # QUOTE # concat qs @ [BACKSLASH, CHR ''x''])"
    by (auto simp: open_at_end_def)
  ultimately show ?thesis using iff by blast
qed

theorem lexer_overrun_witness:
  "lex_all (QUOTE # ''a'' @ [BACKSLASH]) = Some (Inl Overrun) \<and>
   lex_all (CHR ''b'' # QUOTE # [BACKSLASH, CHR ''n''] @ [BACKSLASH, CHR ''x'']) = Some (Inl Overrun) \<and>
   lex_all ''1'' \<noteq> Some (Inl Overrun)"
proof -
  have "list_all str_piece [''a'']" "list_all byte_piece [[BACKSLASH, CHR ''n'']]"
    by (simp_all add: body_char_def NUL_def)
  then show ?thesis
    using lexer_overrun [of "''1''" "[''a'']" "[[BACKSLASH, CHR ''n'']]"] by (auto simp: suffix_def)
qed

end
