(* ===== verification/Sl_Lexer_Text.thy ===== *)
theory Sl_Lexer_Text
  imports Sl_Lexer
begin

text \<open>
  What the lexer makes of a text: the value of integer literals, the size of decoded
  string literals, the names of the keywords, and that a sequence of tokens, spelled out with
  blanks between them, is read back as that sequence.
\<close>

section \<open>Integer literals\<close>

lemma digits_val_dval: "list_all is_digit ds \<Longrightarrow> digits_val 10 ds = dval 0 ds"
proof -
  have "nat (hexval d) = code d - 48" if "is_digit d" for d
    using that by (simp add: hexval_def char_class)
  then have "foldl (\<lambda>v d. v * 10 + nat (hexval d)) a ds = dval a ds" if "list_all is_digit ds" for a
    using that by (induction ds arbitrary: a) auto
  then show "list_all is_digit ds \<Longrightarrow> digits_val 10 ds = dval 0 ds" by (simp add: digits_val_def)
qed

lemma strtoull_fits: "digits_val base ds < 2 ^ 64 \<Longrightarrow> strtoull base ds = (word_of_nat (digits_val base ds), False)"
  and strtoull_big: "2 ^ 64 \<le> digits_val base ds \<Longrightarrow> strtoull base ds = (- 1, True)"
  by (simp_all add: strtoull_def Let_def)

lemma takeWhile_stop: "list_all P l \<Longrightarrow> \<not> P (char_at s 0) \<or> s = [] \<Longrightarrow> takeWhile P (l @ s) = l"
  by (cases s) (auto simp: list_all_iff)

lemma dropWhile_stop: "list_all P l \<Longrightarrow> \<not> P (char_at s 0) \<or> s = [] \<Longrightarrow> dropWhile P (l @ s) = s"
  by (cases s) (auto simp: list_all_iff)

lemma not_ident_NUL [simp]: "\<not> is_ident_char NUL" "\<not> digit_or_sep NUL" "\<not> is_exp_char NUL" "\<not> is_digit NUL" "\<not> is_ident_start NUL"
  by (simp_all add: is_ident_char_def is_ident_start_def digit_or_sep_def is_exp_char_def char_class less_eq_char_def NUL_def)

lemma digit_ident: "digit_or_sep c \<Longrightarrow> is_ident_char c" "is_exp_char c \<Longrightarrow> is_ident_char c" "is_xdigit c \<Longrightarrow> is_ident_char c"
  "radix_digit base c \<Longrightarrow> is_ident_char c"
  by (auto simp: digit_or_sep_def is_exp_char_def is_ident_char_def radix_digit_def char_class char_less_eq_code code_def split: if_splits)

definition no_sep :: "string \<Rightarrow> string" where
  "no_sep s = filter (\<lambda>c. c \<noteq> CHR ''_'') s"

text \<open>The character behind a literal: no part of a name or number, and no dot.\<close>

definition ends_number :: "string \<Rightarrow> bool" where
  "ends_number r \<longleftrightarrow> \<not> is_ident_char (char_at r 0) \<and> char_at r 0 \<noteq> CHR ''.''"

lemma no_sep_digits: "list_all digit_or_sep lit \<Longrightarrow> list_all is_digit (no_sep lit)"
  by (auto simp: no_sep_def digit_or_sep_def list_all_iff)

lemma lex_number_decimal:
  assumes "list_all digit_or_sep (c # lit)" and "is_digit c" and "ends_number r"
  shows "lex_token line ((c # lit) @ r) = lex_decimal line (c # lit) r"
proof -
  let ?s = "(c # lit) @ r"
  have stop: "\<not> digit_or_sep (char_at r 0)" "\<not> is_exp_char (char_at r 0)" "char_at r 0 \<noteq> CHR ''.''"
    using assms(3) digit_ident by (auto simp: ends_number_def)
  have one: "\<not> (char_at ?s 1 = CHR ''x'' \<or> char_at ?s 1 = CHR ''X'' \<or> char_at ?s 1 = CHR ''b'' \<or> char_at ?s 1 = CHR ''B'')"
  proof (cases lit)
    case Nil
    then show ?thesis using assms(3)
      by (auto simp: ends_number_def is_ident_char_def char_class less_eq_char_def)
  next
    case (Cons d l)
    then show ?thesis using assms(1) by (auto simp: digit_or_sep_def char_class less_eq_char_def)
  qed
  have "lex_token line ?s = lex_number line ?s" using assms(2) by (simp add: lex_token_def)
  also have "\<dots> = lex_decimal line (c # lit) r"
    using one stop takeWhile_stop [OF assms(1), of r] dropWhile_stop [OF assms(1), of r]
    unfolding lex_number_def Let_def by (simp add: lex_exponent_def)
  finally show ?thesis .
qed

lemma int_token_fields:
  assumes "v < 2 ^ 64"
  shows "unat (tk_int_val (int_token (word_of_nat v) line)) = v"
    "tk_big_u64 (int_token (word_of_nat v) line) \<longleftrightarrow> 2 ^ 63 \<le> v"
proof -
  have "unat (word_of_nat v :: u64) = v" using assms by (simp add: unat_of_nat)
  then show "unat (tk_int_val (int_token (word_of_nat v) line)) = v" by (simp add: int_token_def)
  have "(9223372036854775807 :: u64) < word_of_nat v \<longleftrightarrow> 9223372036854775807 < v"
    using \<open>unat (word_of_nat v :: u64) = v\<close> by (subst word_less_nat_alt) simp
  also have "\<dots> \<longleftrightarrow> 2 ^ 63 \<le> v" by auto
  finally show "tk_big_u64 (int_token (word_of_nat v) line) \<longleftrightarrow> 2 ^ 63 \<le> v"
    by (simp only: int_token_def make_token_def Token.simps)
qed

lemma int_token_type [simp]: "tk_type (int_token u line) = T_INT"
  by (simp add: int_token_def)

lemma radix_loop_all:
  assumes "list_all (\<lambda>d. d = CHR ''_'' \<or> radix_digit base d) l" and "\<not> is_ident_char (char_at r 0)" and "length acc \<le> 79"
  shows "radix_loop base (l @ r) acc = (take 79 (acc @ no_sep l), r)"
  using assms
proof (induction l arbitrary: acc)
  case Nil
  have "radix_loop base r acc = (acc, r)"
    using Nil(2) digit_ident(4) [of base "char_at r 0"] by (cases r) (auto simp: is_ident_char_def)
  then show ?case using Nil by (simp add: no_sep_def)
next
  case (Cons d l)
  have "\<not> radix_digit base (CHR ''_'')" by (simp add: radix_digit_def char_class less_eq_char_def)
  with Cons show ?case by (auto simp: no_sep_def take_Cons' [of "79 - length acc"])
qed

lemma lex_decimal_eq:
  assumes "list_all digit_or_sep lit"
  shows "lex_decimal line lit r =
    (if 95 < length (no_sep lit) \<or> 2 ^ 64 \<le> dval 0 (no_sep lit)
     then Inl (Lex_Error line ''integer literal does not fit in 64 bits (maximum is 18446744073709551615)'')
     else Inr (int_token (word_of_nat (dval 0 (no_sep lit))) line, r))"
proof (cases "95 < length (no_sep lit)")
  case True
  then show ?thesis
    unfolding lex_decimal_def Let_def no_sep_def [symmetric] by (simp split: prod.split)
next
  case False
  then have "digits_val 10 (take 95 (no_sep lit)) = dval 0 (no_sep lit)"
    using digits_val_dval no_sep_digits assms by simp
  with False show ?thesis
    unfolding lex_decimal_def Let_def no_sep_def [symmetric]
    using strtoull_fits [of 10 "take 95 (no_sep lit)"] strtoull_big [of 10 "take 95 (no_sep lit)"]
    by (cases "2 ^ 64 \<le> dval 0 (no_sep lit)") simp_all
qed

definition radix_lit :: "nat \<Rightarrow> char \<Rightarrow> bool" where
  "radix_lit base x \<longleftrightarrow> base = 16 \<and> (x = CHR ''x'' \<or> x = CHR ''X'') \<or> base = 2 \<and> (x = CHR ''b'' \<or> x = CHR ''B'')"

lemma lex_number_radix:
  assumes "radix_lit base x" and "list_all (\<lambda>d. d = CHR ''_'' \<or> radix_digit base d) l" and "ends_number r"
    and "l \<noteq> []"
  shows "lex_token line (CHR ''0'' # x # l @ r) =
    (let ds = take 79 (no_sep l) in
     if ds = [] then Inl (Lex_Error line (if base = 16 then ''hex literal has no digits'' else ''binary literal has no digits''))
     else if digits_val base ds \<ge> 2 ^ 64 \<or> length ds \<ge> 79
     then Inl (Lex_Error line (if base = 16 then ''hex literal does not fit in 64 bits'' else ''binary literal does not fit in 64 bits''))
     else Inr (int_token (word_of_nat (digits_val base ds)) line, r))"
proof -
  let ?s = "CHR ''0'' # x # l @ r"
  have q: "char_at ?s 2 \<noteq> QUOTE"
    using assms(2,4) by (cases l) (auto simp: numeral_2_eq_2 radix_digit_def char_class less_eq_char_def split: if_splits)
  have "lex_token line ?s = lex_radix line base ?s"
    using assms(1) q by (auto simp: lex_token_def lex_number_def Let_def radix_lit_def char_class less_eq_char_def)
  moreover have "radix_loop base (l @ r) [] = (take 79 (no_sep l), r)"
    using radix_loop_all [OF assms(2), of r "[]"] assms(3) by (simp add: ends_number_def)
  ultimately show ?thesis
    using strtoull_fits [of base "take 79 (no_sep l)"] strtoull_big [of base "take 79 (no_sep l)"]
    by (cases "2 ^ 64 \<le> digits_val base (take 79 (no_sep l))") (simp_all add: lex_radix_def Let_def)
qed


section \<open>Spelling tokens\<close>

text \<open>
  How a token is written, and which token it then is: the spelling of the language, written out
  here and not taken from the lexer's tables. An identifier is any name that is no keyword; a text
  literal is written with an escape for the six characters that have one, a byte string with
  hexadecimal escapes except for letters and digits.
\<close>

datatype spelling =
  Name string | Key TokenType | Life string | Num u64 | Byte_Lit sl_bytes | Str_Lit string | Opr TokenType

definition keyword_texts :: "(TokenType \<times> string) list" where
  "keyword_texts = [
     (T_KW_LET, ''let''), (T_KW_FN, ''fn''), (T_KW_IF, ''if''), (T_KW_ELSE, ''else''),
     (T_KW_WHILE, ''while''), (T_KW_RETURN, ''return''), (T_KW_TRUE, ''true''),
     (T_KW_FALSE, ''false''), (T_KW_PUB, ''pub''), (T_KW_IMPORT, ''import''),
     (T_KW_GUARD, ''guard''), (T_KW_FOR, ''for''), (T_KW_IN, ''in''), (T_KW_AS, ''as''),
     (T_KW_STRUCT, ''struct''), (T_KW_ENUM, ''enum''), (T_KW_GC, ''gc''), (T_KW_OWN, ''own''),
     (T_KW_MUT, ''mut''), (T_KW_IMPL, ''impl''), (T_KW_EXTERN, ''extern''),
     (T_KW_LINK, ''link''), (T_KW_SPAWN, ''spawn''), (T_KW_BREAK, ''break''),
     (T_KW_CONTINUE, ''continue''), (T_KW_UNSAFE, ''unsafe''), (T_KW_SELECT, ''select''),
     (T_KW_SWITCH, ''switch''), (T_KW_CASE, ''case''), (T_KW_DEFAULT, ''default''),
     (T_TY_INT, ''int''), (T_TY_FLOAT, ''float''), (T_TY_STR, ''str''), (T_TY_BOOL, ''bool''),
     (T_TY_BYTES, ''bytes''), (T_TY_I8, ''i8''), (T_TY_I16, ''i16''), (T_TY_I32, ''i32''),
     (T_TY_I64, ''i64''), (T_TY_U8, ''u8''), (T_TY_U16, ''u16''), (T_TY_U32, ''u32''),
     (T_TY_U64, ''u64''), (T_TY_F32, ''f32''), (T_TY_MAP, ''map''), (T_TY_OPT, ''opt''),
     (T_TY_RESULT, ''result''), (T_TY_DURATION, ''duration''), (T_TY_RAWPTR, ''rawptr''),
     (T_TY_ARENA, ''arena''), (T_TY_CHAN, ''chan''), (T_TY_JOIN, ''join'')]"

definition op_spell :: "(TokenType \<times> string) list" where
  "op_spell = [
     (T_SHLEQ, ''<<=''), (T_SHREQ, ''>>=''), (T_PLUSEQ, ''+=''), (T_MINUSEQ, ''-=''),
     (T_STAREQ, ''*=''), (T_SLASHEQ, ''/=''), (T_PERCENTEQ, ''%=''), (T_AMPEQ, ''&=''),
     (T_PIPEEQ, ''|=''), (T_CARETEQ, ''^=''), (T_EQEQ, ''==''), (T_BANGEQ, ''!=''),
     (T_LTE, ''<=''), (T_GTE, ''>=''), (T_ANDAND, ''&&''), (T_OROR, ''||''), (T_QQ, ''??''),
     (T_ARROW, ''->''), (T_SHL, ''<<''), (T_SHR, ''>>''), (T_AMP, ''&''), (T_PIPE, ''|''),
     (T_CARET, ''^''), (T_TILDE, ''~''), (T_PLUS, ''+''), (T_MINUS, ''-''), (T_STAR, ''*''),
     (T_SLASH, ''/''), (T_PERCENT, ''%''), (T_LT, ''<''), (T_GT, ''>''), (T_BANG, ''!''),
     (T_ASSIGN, ''=''), (T_LPAREN, ''(''), (T_RPAREN, '')''), (T_LBRACE, ''{''),
     (T_RBRACE, ''}''), (T_COMMA, '',''), (T_SEMI, '';''), (T_COLON, '':''),
     (T_LBRACKET, ''[''), (T_RBRACKET, '']''), (T_DOT, ''.''), (T_DOTDOTEQ, ''..=''),
     (T_DOTDOT, ''..'')]"

definition hex_digit :: "nat \<Rightarrow> char" where
  "hex_digit n = char_of (if n < 10 then 48 + n else 87 + n)"

definition byte_spell :: "byte \<Rightarrow> string" where
  "byte_spell b = (if is_alnum (ch b) then [ch b]
     else [BACKSLASH, CHR ''x'', hex_digit (unat b div 16), hex_digit (unat b mod 16)])"

definition char_spell :: "char \<Rightarrow> string" where
  "char_spell c =
     (if c = CHR 0x0A then [BACKSLASH, CHR ''n'']
      else if c = CHR 0x09 then [BACKSLASH, CHR ''t'']
      else if c = CHR 0x0D then [BACKSLASH, CHR ''r'']
      else if c = CHR 0x00 then [BACKSLASH, CHR ''0'']
      else if c = QUOTE then [BACKSLASH, QUOTE]
      else if c = BACKSLASH then [BACKSLASH, BACKSLASH]
      else [c])"

fun spell :: "spelling \<Rightarrow> string" where
  "spell (Name s) = s"
| "spell (Key t) = the (map_of keyword_texts t)"
| "spell (Life s) = CHR 0x27 # s"
| "spell (Num v) = dec (unat v)"
| "spell (Byte_Lit b) = CHR ''b'' # QUOTE # concat (map byte_spell b) @ [QUOTE]"
| "spell (Str_Lit s) = QUOTE # concat (map char_spell s) @ [QUOTE]"
| "spell (Opr t) = the (map_of op_spell t)"

definition is_name :: "string \<Rightarrow> bool" where
  "is_name s \<longleftrightarrow> s \<noteq> [] \<and> is_ident_start (hd s) \<and> list_all is_ident_char s"

fun spell_ok :: "spelling \<Rightarrow> bool" where
  "spell_ok (Name s) = (is_name s \<and> s \<notin> snd ` set keyword_texts)"
| "spell_ok (Key t) = (t \<in> fst ` set keyword_texts)"
| "spell_ok (Life s) = is_name s"
| "spell_ok (Num v) = True"
| "spell_ok (Byte_Lit b) = True"
| "spell_ok (Str_Lit s) = (\<not> sublist ''${'' s)"
| "spell_ok (Opr t) = (t \<in> fst ` set op_spell)"

fun token_of :: "nat \<Rightarrow> spelling \<Rightarrow> Token" where
  "token_of line (Name s) = (make_token T_IDENT line)\<lparr>tk_text := Some s\<rparr>"
| "token_of line (Key t) = (make_token t line)\<lparr>tk_text := map_of keyword_texts t\<rparr>"
| "token_of line (Life s) = (make_token T_LIFETIME line)\<lparr>tk_text := Some s\<rparr>"
| "token_of line (Num v) = (make_token T_INT line)\<lparr>tk_int_val := v, tk_big_u64 := (2 ^ 63 \<le> unat v)\<rparr>"
| "token_of line (Byte_Lit b) =
     (make_token T_BYTES line)\<lparr>tk_byte_val := Some b, tk_byte_len := int (length b)\<rparr>"
| "token_of line (Str_Lit s) = (make_token T_STRING line)\<lparr>tk_text := Some s\<rparr>"
| "token_of line (Opr t) = make_token t line"

text \<open>The lexer's tables hold that spelling and nothing else.\<close>

lemma keyword_texts_table: "kw_table = map prod.swap keyword_texts"
  by (simp add: kw_table_def keyword_texts_def)

lemma op_spell_tables:
  "op_spell = map (\<lambda>((a, b, c), t). (t, [a, b, c])) ops3 @ map (\<lambda>((a, b), t). (t, [a, b])) ops2 @
     map (\<lambda>(a, t). (t, [a])) ops1 @ [(T_DOTDOTEQ, ''..=''), (T_DOTDOT, ''..'')]"
  by (simp add: op_spell_def ops3_def ops2_def ops1_def)

lemma char_spell_escapes:
  "char_spell c = (case map_of (map prod.swap escapes) c of Some e \<Rightarrow> [BACKSLASH, e] | None \<Rightarrow> [c])"
  by (simp add: char_spell_def escapes_def)

lemma keyword_distinct: "distinct (map fst kw_table)" "distinct (map snd kw_table)"
  by (simp_all add: kw_table_def)

lemma keyword_chars: "list_all (\<lambda>(s, t). s \<noteq> [] \<and> is_ident_start (hd s) \<and> list_all is_ident_char s) kw_table"
  by (simp add: kw_table_def is_ident_start_def is_ident_char_def char_class less_eq_char_def)

lemma keyword_text:
  assumes "map_of keyword_texts t = Some s"
  shows "map_of kw_table s = Some t" "is_name s"
proof -
  have "(s, t) \<in> set kw_table" using map_of_SomeD [OF assms] by (force simp: keyword_texts_table)
  then show "map_of kw_table s = Some t" "is_name s"
    using keyword_distinct(1) keyword_chars by (auto simp: list_all_iff is_name_def)
qed

lemma no_keyword: "s \<notin> snd ` set keyword_texts \<Longrightarrow> map_of kw_table s = None"
  by (force simp: keyword_texts_table map_of_eq_None_iff)

definition is_blank :: "char \<Rightarrow> bool" where
  "is_blank c \<longleftrightarrow> c = CHR '' '' \<or> c = CHR 0x09 \<or> c = CHR 0x0D \<or> c = NL"

lemma blank_stops: "is_blank c \<Longrightarrow> \<not> is_ident_char c \<and> c \<noteq> CHR ''.'' \<and> c \<noteq> QUOTE \<and> c \<noteq> CHR ''/'' \<and> c \<noteq> CHR ''=''"
  by (auto simp: is_blank_def is_ident_char_def char_class less_eq_char_def)

lemma takeWhile_name:
  "list_all is_ident_char s \<Longrightarrow> is_blank c \<Longrightarrow> takeWhile is_ident_char (s @ c # r) = s \<and> dropWhile is_ident_char (s @ c # r) = c # r"
  using takeWhile_stop [of is_ident_char s "c # r"] dropWhile_stop [of is_ident_char s "c # r"] blank_stops by simp

lemma ident_start_not_digit: "is_ident_start c \<Longrightarrow> \<not> is_digit c"
  by (auto simp: is_ident_start_def char_class char_less_eq_code code_def)

lemma lex_name_ident:
  assumes "is_name s" and "is_blank c"
  shows "lex_token line (s @ c # r) =
    Inr ((make_token (case map_of kw_table s of Some t \<Rightarrow> t | None \<Rightarrow> T_IDENT) line)\<lparr>tk_text := Some s\<rparr>, c # r)"
proof -
  obtain a l where s: "s = a # l" "is_ident_start a" "list_all is_ident_char s"
    using assms(1) by (cases s) (auto simp: is_name_def)
  have "\<not> (a = CHR ''b'' \<and> char_at (l @ c # r) 0 = QUOTE)"
    using s blank_stops [OF assms(2)] by (cases l) (auto simp: is_ident_char_def char_class less_eq_char_def)
  then have "lex_token line (s @ c # r) = Inr (lex_ident line (s @ c # r))"
    using s ident_start_not_digit by (auto simp: lex_token_def)
  then show ?thesis using takeWhile_name [OF s(3) assms(2)] by (simp add: lex_ident_def)
qed

lemma lex_Name:
  assumes "spell_ok (Name s)" and "is_blank c"
  shows "lex_token line (spell (Name s) @ c # r) = Inr (token_of line (Name s), c # r)"
  using lex_name_ident [of s c line r] no_keyword [of s] assms by simp

lemma lex_Key:
  assumes "spell_ok (Key t)" and "is_blank c"
  shows "lex_token line (spell (Key t) @ c # r) = Inr (token_of line (Key t), c # r)"
proof -
  obtain s where s: "map_of keyword_texts t = Some s"
    using assms(1) by (metis domIff dom_map_of_conv_image_fst not_None_eq spell_ok.simps(2))
  show ?thesis using lex_name_ident [OF keyword_text(2) [OF s] assms(2), of line r] keyword_text(1) [OF s] s by simp
qed

lemma lex_Life:
  assumes "is_name s" and "is_blank c"
  shows "lex_token line (spell (Life s) @ c # r) = Inr (token_of line (Life s), c # r)"
proof -
  obtain a l where s: "s = a # l" "is_ident_start a" "list_all is_ident_char s"
    using assms(1) by (cases s) (auto simp: is_name_def)
  have "lex_token line (spell (Life s) @ c # r) = Inr (lex_lifetime line (CHR 0x27 # s @ c # r))"
    using s by (simp add: lex_token_def) (simp add: is_ident_start_def char_class less_eq_char_def)
  then show ?thesis using takeWhile_name [OF s(3) assms(2)] by (simp add: lex_lifetime_def)
qed

lemma lex_Num:
  assumes "is_blank c"
  shows "lex_token line (spell (Num v) @ c # r) = Inr (token_of line (Num v), c # r)"
proof -
  have digits: "list_all is_digit (dec (unat v))" using dec_digits by (auto simp: list_all_iff)
  then have "list_all digit_or_sep (dec (unat v))" by (auto simp: list_all_iff digit_or_sep_def)
  moreover obtain d l where d: "dec (unat v) = d # l" "is_digit d"
    using digits dec_not_Nil by (cases "dec (unat v)") auto
  moreover have "ends_number (c # r)" using blank_stops [OF assms] by (simp add: ends_number_def)
  ultimately have "lex_token line (dec (unat v) @ c # r) = lex_decimal line (dec (unat v)) (c # r)"
    using lex_number_decimal by metis
  moreover have "no_sep (dec (unat v)) = dec (unat v)"
    using digits unfolding no_sep_def by (intro filter_True) (auto simp: list_all_iff char_class less_eq_char_def)
  moreover have "unat v < 2 ^ 64" using unsigned_less [of v] by simp
  moreover have "length (dec (unat v)) \<le> Suc 19" using \<open>unat v < 2 ^ 64\<close> by (intro length_dec) simp
  moreover have "int_token v line = token_of line (Num v)"
    using int_token_fields(2) [OF \<open>unat v < 2 ^ 64\<close>, of line] by (simp add: int_token_def)
  ultimately show ?thesis
    using lex_decimal_eq [OF \<open>list_all digit_or_sep (dec (unat v))\<close>, of line "c # r"] by (simp add: dval_dec)
qed

lemma hex_digit_simps: "n < 16 \<Longrightarrow> hexval (hex_digit n) = int n"
proof -
  assume n: "n < 16"
  show ?thesis
  proof (cases "n < 10")
    case True
    then show ?thesis by (simp add: hex_digit_def hexval_def char_less_eq_code)
  next
    case False
    then have "code (char_of (87 + n)) = 87 + n" using n by simp
    with False n show ?thesis by (simp add: hex_digit_def hexval_def char_less_eq_code del: code_char_of)
  qed
qed

lemma byte_spell_loop:
  "lex_bytes_loop line (byte_spell b @ s) buf = lex_bytes_loop line s (buf @ [b])"
proof (cases "is_alnum (ch b)")
  case True
  then have "ch b \<noteq> NUL \<and> ch b \<noteq> NL \<and> ch b \<noteq> QUOTE \<and> ch b \<noteq> BACKSLASH"
    by (auto simp: char_class less_eq_char_def NUL_def)
  with True show ?thesis by (simp add: byte_spell_def)
next
  case False
  have "map_of escapes (CHR ''x'') = None" by (simp add: escapes_def)
  moreover have "unat b div 16 < 16" using unat_byte_less [of b] by (simp add: less_mult_imp_div_less)
  moreover have "word_of_int (int (unat b div 16) * 16 + int (unat b mod 16)) = b"
  proof -
    have "int (unat b div 16) * 16 + int (unat b mod 16) = int (unat b)"
      by (metis div_mult_mod_eq of_nat_add of_nat_mult of_nat_numeral)
    then show ?thesis by (simp del: of_int_add of_int_mult)
  qed
  ultimately show ?thesis using False
    by (simp add: byte_spell_def hex_digit_simps numeral_2_eq_2 del: of_int_add of_int_mult)
qed

lemma bytes_loop_spell:
  "lex_bytes_loop line (concat (map byte_spell b) @ QUOTE # s) buf = Inr (buf @ b, s)"
  by (induction b arbitrary: buf) (simp_all add: byte_spell_loop)

lemma lex_Byte_Lit:
  "lex_token line (spell (Byte_Lit b) @ r) = Inr (token_of line (Byte_Lit b), r)"
  using bytes_loop_spell [of line b r "[]"]
  by (simp add: lex_token_def char_class less_eq_char_def) (simp add: lex_bytes_def)

text \<open>The body of a text literal: the scan to the closing quote keeps it, the decoder undoes it.\<close>

lemma swap_escapes: "map_of (map prod.swap escapes) c = Some e \<Longrightarrow> map_of escapes e = Some c \<and> e \<noteq> CHR ''{''"
  by (auto simp: escapes_def split: if_splits)

lemma no_escape: "map_of (map prod.swap escapes) c = None \<Longrightarrow> c \<noteq> NUL \<and> c \<noteq> NL \<and> c \<noteq> QUOTE \<and> c \<noteq> BACKSLASH"
  by (auto simp: escapes_def NUL_def split: if_splits)

lemma scan_char_spell:
  "string_scan line (char_spell c @ s) body = string_scan line s (body @ char_spell c)"
  by (cases "map_of (map prod.swap escapes) c") (auto simp: char_spell_escapes dest: no_escape)

lemma scan_spell:
  "string_scan line (concat (map char_spell l) @ QUOTE # s) body = Inr (body @ concat (map char_spell l), s)"
  by (induction l arbitrary: body) (simp_all add: scan_char_spell)

lemma char_spell_hd: "char_at (concat (map char_spell l)) 0 = CHR ''{'' \<Longrightarrow> \<exists>l'. l = CHR ''{'' # l'"
  by (cases l) (auto simp: char_spell_def NUL_def split: if_splits)

lemma decode_spell:
  "\<not> sublist ''${'' l \<Longrightarrow> decode_loop line (concat (map char_spell l)) out = Inr (out @ l)"
proof (induction l arbitrary: out)
  case (Cons c l)
  have l: "\<not> sublist ''${'' l" using Cons.prems by (auto simp: sublist_Cons_right)
  show ?case
  proof (cases "map_of (map prod.swap escapes) c")
    case (Some e)
    with swap_escapes [OF this] Cons.IH [OF l] show ?thesis by (simp add: char_spell_escapes)
  next
    case None
    have "\<not> (c = CHR ''$'' \<and> char_at (concat (map char_spell l)) 0 = CHR ''{'')"
      using Cons.prems char_spell_hd [of l] by (fastforce simp: sublist_Cons_right)
    moreover have "char_spell c = [c]" using None by (simp add: char_spell_escapes)
    ultimately show ?thesis using no_escape [OF None] Cons.IH [OF l] by auto
  qed
qed simp

lemma lex_Str_Lit:
  assumes "\<not> sublist ''${'' l"
  shows "lex_token line (spell (Str_Lit l) @ r) = Inr (token_of line (Str_Lit l), r)"
proof -
  have "lex_token line (spell (Str_Lit l) @ r) = lex_string line (spell (Str_Lit l) @ r)"
    by (simp add: lex_token_def Let_def is_ident_start_def char_class less_eq_char_def)
  then show ?thesis
    using scan_spell [of line l r "[]"] decode_spell [OF assms, of line "[]"]
    by (simp add: lex_string_def decode_string_def)
qed

text \<open>Operators: what the tables hold, and that a blank behind an operator belongs to none.\<close>

definition op_char :: "char \<Rightarrow> bool" where
  "op_char c \<longleftrightarrow> \<not> is_digit c \<and> \<not> is_ident_start c \<and> c \<noteq> CHR 0x27 \<and> c \<noteq> QUOTE \<and> c \<noteq> CHR ''b'' \<and> \<not> is_blank c \<and> c \<noteq> NUL"

lemma ops_chars:
  "list_all (\<lambda>((a, b, c), t). op_char a \<and> a \<noteq> CHR ''.'' \<and> \<not> is_blank b \<and> \<not> is_blank c) ops3"
  "list_all (\<lambda>((a, b), t). op_char a \<and> a \<noteq> CHR ''.'' \<and> \<not> is_blank b) ops2"
  "list_all (\<lambda>(a, t). op_char a) ops1"
  by (simp_all add: ops3_def ops2_def ops1_def op_char_def is_blank_def is_ident_start_def char_class less_eq_char_def NUL_def)

lemma ops_distinct: "distinct (map fst ops3)" "distinct (map fst ops2)" "distinct (map fst ops1)"
  by (simp_all add: ops3_def ops2_def ops1_def)

lemma ops_blank:
  assumes "is_blank c"
  shows "map_of ops2 (a, c) = None" "map_of ops3 (a, b, c) = None" "map_of ops3 (a, c, b) = None"
  using ops_chars(1,2) assms unfolding map_of_eq_None_iff list_all_iff by fastforce+

lemma lex_token_op:
  "op_char (char_at s 0) \<Longrightarrow> char_at s 0 \<noteq> CHR ''.'' \<or> char_at s 1 \<noteq> CHR ''.'' \<Longrightarrow> lex_token line s = lex_op line s"
  by (auto simp: lex_token_def Let_def op_char_def)

lemma lex_op1:
  assumes "(a, t) \<in> set ops1" and "is_blank c"
  shows "lex_token line (a # c # r) = Inr (make_token t line, c # r)"
proof -
  have "op_char a" using assms(1) ops_chars(3) by (auto simp: list_all_iff)
  then have "lex_token line (a # c # r) = lex_op line (a # c # r)"
    using blank_stops [OF assms(2)] by (intro lex_token_op) auto
  moreover have "map_of ops1 a = Some t" using assms(1) ops_distinct(3) by simp
  ultimately show ?thesis using ops_blank [OF assms(2)] by (simp add: lex_op_def)
qed

lemma lex_op2:
  assumes "((a, b), t) \<in> set ops2" and "is_blank c"
  shows "lex_token line (a # b # c # r) = Inr (make_token t line, c # r)"
proof -
  have "op_char a" "a \<noteq> CHR ''.''" using assms(1) ops_chars(2) by (auto simp: list_all_iff)
  then have "lex_token line (a # b # c # r) = lex_op line (a # b # c # r)"
    by (intro lex_token_op) auto
  moreover have "map_of ops2 (a, b) = Some t" using assms(1) ops_distinct(2) by simp
  ultimately show ?thesis using ops_blank [OF assms(2)] by (simp add: lex_op_def numeral_2_eq_2)
qed

lemma lex_op3:
  assumes "((a, b, c), t) \<in> set ops3"
  shows "lex_token line (a # b # c # r) = Inr (make_token t line, r)"
proof -
  have "op_char a" "a \<noteq> CHR ''.''" using assms(1) ops_chars(1) by (auto simp: list_all_iff)
  then have "lex_token line (a # b # c # r) = lex_op line (a # b # c # r)"
    by (intro lex_token_op) auto
  moreover have "map_of ops3 (a, b, c) = Some t" using assms(1) ops_distinct(1) by simp
  ultimately show ?thesis by (simp add: lex_op_def numeral_2_eq_2)
qed

lemma lex_range_spell:
  assumes "is_blank c"
  shows "lex_token line (''..='' @ c # r) = Inr (make_token T_DOTDOTEQ line, c # r)"
    "lex_token line (''..'' @ c # r) = Inr (make_token T_DOTDOT line, c # r)"
  using blank_stops [OF assms]
  by (simp_all add: lex_token_def Let_def lex_range_def is_ident_start_def char_class less_eq_char_def numeral_2_eq_2)

lemma lex_Opr:
  assumes "t \<in> fst ` set op_spell" and "is_blank c"
  shows "lex_token line (spell (Opr t) @ c # r) = Inr (make_token t line, c # r)"
proof -
  obtain s where "map_of op_spell t = Some s"
    using assms(1) by (metis domIff dom_map_of_conv_image_fst not_None_eq)
  moreover have "lex_token line (s @ c # r) = Inr (make_token t line, c # r)"
  proof -
    consider a where "(a, t) \<in> set ops1" "s = [a]" | a b where "((a, b), t) \<in> set ops2" "s = [a, b]"
      | a b d where "((a, b, d), t) \<in> set ops3" "s = [a, b, d]"
      | "t = T_DOTDOTEQ" "s = ''..=''" | "t = T_DOTDOT" "s = ''..''"
      using map_of_SomeD [OF \<open>map_of op_spell t = Some s\<close>] unfolding op_spell_tables by auto
    then show ?thesis
      using lex_op1 [OF _ assms(2)] lex_op2 [OF _ assms(2)] lex_op3 lex_range_spell [OF assms(2)]
      by cases simp_all
  qed
  ultimately show ?thesis by simp
qed

section \<open>Reading back what was spelled\<close>

text \<open>A text of spelled tokens, each followed by blanks, and the tokens it stands for.\<close>

definition unlex :: "(spelling \<times> string) list \<Rightarrow> string" where
  "unlex xs = concat (map (\<lambda>(sp, gap). spell sp @ gap) xs)"

fun tokens_of :: "nat \<Rightarrow> (spelling \<times> string) list \<Rightarrow> Token list" where
  "tokens_of line [] = [make_token T_EOF line]"
| "tokens_of line ((sp, gap) # xs) = token_of line sp # tokens_of (line + newlines gap) xs"

definition spaced :: "spelling \<times> string \<Rightarrow> bool" where
  "spaced x \<longleftrightarrow> spell_ok (fst x) \<and> snd x \<noteq> [] \<and> list_all is_blank (snd x)"

lemma lex_spelled:
  assumes "spell_ok sp" and "is_blank c"
  shows "lex_token line (spell sp @ c # r) = Inr (token_of line sp, c # r)"
  using assms lex_Byte_Lit [of line _ "c # r"] lex_Str_Lit [of _ line "c # r"]
  by (cases sp) (simp_all add: lex_Name lex_Key lex_Life lex_Num lex_Opr del: spell.simps)

lemma skip_blanks_text:
  "list_all is_blank w \<Longrightarrow> skip_blanks (w @ s) line = skip_blanks s (line + newlines w)"
  by (induction w arbitrary: line) (auto simp: skip_blanks_Cons is_blank_def)

text \<open>A token starts with neither a blank nor a comment, so that nothing of it is skipped.\<close>

lemma skip_none: "\<not> is_blank c \<Longrightarrow> c \<noteq> CHR ''/'' \<or> char_at s 0 \<noteq> CHR ''/'' \<Longrightarrow> skip_blanks (c # s) line = (c # s, line)"
  by (auto simp: skip_blanks_Cons is_blank_def)

lemma not_blank: "is_digit c \<or> is_ident_start c \<Longrightarrow> \<not> is_blank c \<and> c \<noteq> CHR ''/'' \<and> c \<noteq> NUL"
  by (auto simp: is_blank_def is_ident_start_def char_class less_eq_char_def NUL_def)

lemma op_spell_start:
  "list_all (\<lambda>(t, s). s \<noteq> [] \<and> \<not> is_blank (hd s) \<and> hd s \<noteq> NUL \<and> (hd s \<noteq> CHR ''/'' \<or> char_at (tl s) 0 \<noteq> CHR ''/'')) op_spell"
  by (simp add: op_spell_def is_blank_def NUL_def)

lemma spell_start:
  assumes "spell_ok sp"
  shows "\<exists>a l. spell sp = a # l \<and> \<not> is_blank a \<and> a \<noteq> NUL \<and> (a \<noteq> CHR ''/'' \<or> l = [] \<or> char_at l 0 \<noteq> CHR ''/'')"
proof (cases sp)
  case (Name s)
  then show ?thesis using assms not_blank by (cases s) (auto simp: is_name_def)
next
  case (Key t)
  then obtain s where "map_of keyword_texts t = Some s"
    using assms by (metis domIff dom_map_of_conv_image_fst not_None_eq spell_ok.simps(2))
  with keyword_text(2) [OF this] Key not_blank show ?thesis by (cases s) (auto simp: is_name_def)
next
  case (Num v)
  then show ?thesis
    using dec_digits [of _ "unat v"] dec_not_Nil [of "unat v"] not_blank by (cases "dec (unat v)") auto
next
  case (Opr t)
  then obtain s where "map_of op_spell t = Some s"
    using assms by (metis domIff dom_map_of_conv_image_fst not_None_eq spell_ok.simps(7))
  with op_spell_start map_of_SomeD [OF this] Opr show ?thesis by (cases s) (auto simp: list_all_iff)
qed (simp_all add: is_blank_def NUL_def)

lemma skip_spelled:
  assumes "spell_ok sp" and "is_blank c"
  shows "skip_blanks (spell sp @ c # r) line = (spell sp @ c # r, line)" "char_at (spell sp @ c # r) 0 \<noteq> NUL"
proof -
  obtain a l where l: "spell sp = a # l" "\<not> is_blank a" "a \<noteq> NUL" "a \<noteq> CHR ''/'' \<or> l = [] \<or> char_at l 0 \<noteq> CHR ''/''"
    using spell_start [OF assms(1)] by blast
  then have "a \<noteq> CHR ''/'' \<or> char_at (l @ c # r) 0 \<noteq> CHR ''/''"
    using blank_stops [OF assms(2)] by (cases l) auto
  with l show "skip_blanks (spell sp @ c # r) line = (spell sp @ c # r, line)" by (simp add: skip_none)
  show "char_at (spell sp @ c # r) 0 \<noteq> NUL" using l by simp
qed

lemma token_of_not_EOF: "spell_ok sp \<Longrightarrow> tk_type (token_of line sp) \<noteq> T_EOF"
  using lex_spelled [of sp "CHR '' ''" line "[]"] lex_token_fields by (simp add: is_blank_def)

lemma lex_loop_spelled:
  assumes "list_all spaced xs" and "list_all is_blank w" and "length (w @ unlex xs) < fuel"
  shows "lex_loop fuel \<lparr>lx_rest = w @ unlex xs, lx_line = line\<rparr> = Some (Inr (tokens_of (line + newlines w) xs))"
  using assms
proof (induction xs arbitrary: w fuel line)
  case Nil
  then show ?case using skip_blanks_text [of w "[]" line] by (cases fuel) (simp_all add: unlex_def lexer_next_def)
next
  case (Cons x xs)
  obtain sp gap where x: "x = (sp, gap)" by (cases x)
  then obtain c g where gap: "gap = c # g" "is_blank c" "spell_ok sp" "list_all is_blank gap"
    using Cons.prems(1) by (cases gap) (auto simp: spaced_def)
  obtain fuel' where fuel: "fuel = Suc fuel'" using Cons.prems(3) by (cases fuel) auto
  have text_eq: "unlex (x # xs) = spell sp @ c # g @ unlex xs" using x gap by (simp add: unlex_def)
  let ?line = "line + newlines w"
  have "lexer_next \<lparr>lx_rest = w @ unlex (x # xs), lx_line = line\<rparr> =
      Inr (token_of ?line sp, \<lparr>lx_rest = gap @ unlex xs, lx_line = ?line\<rparr>)"
    using Cons.prems(2) skip_spelled [OF gap(3,2)] lex_spelled [OF gap(3,2)] gap(1)
    by (simp add: lexer_next_def text_eq skip_blanks_text)
  moreover have "lex_loop fuel' \<lparr>lx_rest = gap @ unlex xs, lx_line = ?line\<rparr> =
      Some (Inr (tokens_of (?line + newlines gap) xs))"
  proof (rule Cons.IH)
    obtain a l where "spell sp = a # l" using spell_start [OF gap(3)] by blast
    then show "length (gap @ unlex xs) < fuel'" using Cons.prems(3) fuel gap(1) by (simp add: text_eq)
  qed (use Cons.prems(1) gap in auto)
  ultimately show ?case using token_of_not_EOF [OF gap(3)] x by (simp add: fuel)
qed


section \<open>Bounds and names\<close>

lemma interp_copy_length: "interp_copy depth s out = Some (out', r) \<Longrightarrow> length out' + length r < length out + length s"
  by (induction depth s out rule: interp_copy.induct) (auto split: if_splits)

lemma decode_loop_length: "decode_loop line s out = Inr out' \<Longrightarrow> length out' \<le> length out + length s"
proof (induction line s out rule: decode_loop.induct)
  case (2 line c s out)
  have copied: "length out' \<le> length out + length (c # s)"
    if "interp_copy 1 (tl s) (out @ [MARK]) = Some (o1, r)" "length out' \<le> length (o1 @ [MARK]) + length r" "s \<noteq> []" for o1 r
    using interp_copy_length [OF that(1)] that(2,3) by (cases s) auto
  consider (i1) "c = CHR ''$'' \<and> s \<noteq> [] \<and> char_at s 0 = CHR ''{''"
    | (i2) "c = BACKSLASH" "s \<noteq> []" "char_at s 0 = CHR ''{''"
    | (esc) "c = BACKSLASH" "s = [] \<or> char_at s 0 \<noteq> CHR ''{''"
    | (raw) "\<not> (c = CHR ''$'' \<and> s \<noteq> [] \<and> char_at s 0 = CHR ''{'')" "c \<noteq> BACKSLASH" by fastforce
  then show ?case
  proof cases
    case i1
    with "2.prems" obtain o1 r where c: "interp_copy 1 (tl s) (out @ [MARK]) = Some (o1, r)"
      "decode_loop line r (o1 @ [MARK]) = Inr out'" by (auto split: option.splits)
    then show ?thesis using "2.IH"(1) [OF i1 c(1) refl c(2)] copied [OF c(1)] i1 by simp
  next
    case i2
    with "2.prems" obtain o1 r where c: "interp_copy 1 (tl s) (out @ [MARK]) = Some (o1, r)"
      "decode_loop line r (o1 @ [MARK]) = Inr out'" by (auto split: option.splits)
    then show ?thesis using "2.IH"(2) [OF _ i2(1,2,3) c(1) refl c(2)] copied [OF c(1)] i2 by simp
  next
    case esc
    with "2.prems" obtain b where b: "s \<noteq> []" "map_of escapes (char_at s 0) = Some b"
      "decode_loop line (tl s) (out @ [b]) = Inr out'" by (auto split: option.splits if_splits)
    then have "length out' \<le> length (out @ [b]) + length (tl s)"
      using esc by (intro "2.IH"(3)) auto
    then show ?thesis using b(1) by (cases s) auto
  next
    case raw
    then have "decode_loop line s (out @ [c]) = Inr out'" using "2.prems" by auto
    then show ?thesis using "2.IH"(4) raw by auto
  qed
qed simp

lemma token_names_distinct: "distinct (map fst token_names)"
  by (simp add: token_names_def)

lemma keyword_names_in: "list_all (\<lambda>(s, t). (t, quoted s) \<in> set token_names) kw_table"
  unfolding kw_table_def token_names_def list.pred_inject prod.case list.set
  by (intro conjI list.pred_inject(1); (rule insertI1 | rule insertI2)+)

lemma keyword_names: "map_of kw_table s = Some t \<Longrightarrow> token_type_name t = quoted s"
  using keyword_names_in map_of_SomeD [of kw_table s t] map_of_is_SomeI [OF token_names_distinct, of t "quoted s"]
  by (auto simp: list_all_iff token_type_name_def)

section \<open>Properties\<close>

text \<open>C10: a sequence of identifiers, keywords, lifetimes, decimal integers, byte strings, text literals
  (without interpolation) and operators, each spelled as the language spells it and followed by
  blanks, is read back as exactly those tokens, on the right lines: no operator is split or joined
  with another, every keyword and no other name is recognised, and every escape is undone. Float
  literals are left to \<open>Sl_Lexer_Float\<close>.\<close>

theorem lexer_reads_spelling:
  assumes "list_all spaced xs"
  shows "lex_all (unlex xs) = Some (Inr (tokens_of 1 xs))"
  using lex_loop_spelled [OF assms, of "[]" "Suc (length (unlex xs))" 1]
  by (simp add: lex_all_def lexer_init_def)

theorem lexer_reads_spelling_witness:
  "lex_all (unlex [(Key T_KW_LET, '' ''), (Name ''x'', '' ''), (Opr T_SHLEQ, '' ''), (Num 42, [NL]), (Str_Lit ''$'', '' '')]) =
    Some (Inr (tokens_of 1 [(Key T_KW_LET, '' ''), (Name ''x'', '' ''), (Opr T_SHLEQ, '' ''), (Num 42, [NL]), (Str_Lit ''$'', '' '')]))"
  by (rule lexer_reads_spelling)
    (simp add: spaced_def is_blank_def is_name_def is_ident_start_def is_ident_char_def char_class less_eq_char_def
      op_spell_def keyword_texts_def sublist_Cons_right)

text \<open>C35: an integer literal, decimal, hexadecimal or binary, with separators anywhere, is the number
  its digits stand for, with the flag for values above the signed range, or an error exactly
  when the number does not fit 64 bits or has more digits than the buffer.\<close>

theorem lex_int_literal_exact:
  assumes "ends_number r"
  shows "(list_all digit_or_sep (c # lit) \<and> is_digit c \<longrightarrow>
      (case lex_token line ((c # lit) @ r) of
         Inl e \<Rightarrow> 2 ^ 64 \<le> dval 0 (no_sep (c # lit)) \<or> 95 < length (no_sep (c # lit))
       | Inr (t, r') \<Rightarrow> r' = r \<and> tk_type t = T_INT \<and> unat (tk_int_val t) = dval 0 (no_sep (c # lit)) \<and>
           (tk_big_u64 t \<longleftrightarrow> 2 ^ 63 \<le> dval 0 (no_sep (c # lit))))) \<and>
    (radix_lit base x \<and> lit \<noteq> [] \<and> list_all (\<lambda>d. d = CHR ''_'' \<or> radix_digit base d) lit \<longrightarrow>
      (case lex_token line (CHR ''0'' # x # lit @ r) of
         Inl e \<Rightarrow> no_sep lit = [] \<or> 2 ^ 64 \<le> digits_val base (no_sep lit) \<or> 78 < length (no_sep lit)
       | Inr (t, r') \<Rightarrow> r' = r \<and> tk_type t = T_INT \<and> unat (tk_int_val t) = digits_val base (no_sep lit) \<and>
           (tk_big_u64 t \<longleftrightarrow> 2 ^ 63 \<le> digits_val base (no_sep lit))))"
  (is "?dec \<and> ?radix")
proof
  show ?dec
  proof
    assume lit: "list_all digit_or_sep (c # lit) \<and> is_digit c"
    have eq: "lex_token line ((c # lit) @ r) = lex_decimal line (c # lit) r"
      using lit assms by (intro lex_number_decimal) auto
    show "case lex_token line ((c # lit) @ r) of
         Inl e \<Rightarrow> 2 ^ 64 \<le> dval 0 (no_sep (c # lit)) \<or> 95 < length (no_sep (c # lit))
       | Inr (t, r') \<Rightarrow> r' = r \<and> tk_type t = T_INT \<and> unat (tk_int_val t) = dval 0 (no_sep (c # lit)) \<and>
           (tk_big_u64 t \<longleftrightarrow> 2 ^ 63 \<le> dval 0 (no_sep (c # lit)))"
      using lit int_token_fields [of "dval 0 (no_sep (c # lit))" line]
      unfolding eq by (subst lex_decimal_eq) (auto simp del: dval_simps)
  qed
  show ?radix
  proof
    assume lit: "radix_lit base x \<and> lit \<noteq> [] \<and> list_all (\<lambda>d. d = CHR ''_'' \<or> radix_digit base d) lit"
    show "case lex_token line (CHR ''0'' # x # lit @ r) of
         Inl e \<Rightarrow> no_sep lit = [] \<or> 2 ^ 64 \<le> digits_val base (no_sep lit) \<or> 78 < length (no_sep lit)
       | Inr (t, r') \<Rightarrow> r' = r \<and> tk_type t = T_INT \<and> unat (tk_int_val t) = digits_val base (no_sep lit) \<and>
           (tk_big_u64 t \<longleftrightarrow> 2 ^ 63 \<le> digits_val base (no_sep lit))"
      using lex_number_radix [of base x lit r line] lit assms int_token_fields [of "digits_val base (no_sep lit)" line]
      by (auto simp: Let_def not_le not_less split: if_splits)
  qed
qed

theorem lex_int_literal_exact_witness:
  "(case lex_token 7 ((CHR ''1'' # ''_6'') @ []) of
      Inl e \<Rightarrow> False
    | Inr (t, r') \<Rightarrow> r' = [] \<and> tk_type t = T_INT \<and> unat (tk_int_val t) = 16 \<and> \<not> tk_big_u64 t)"
proof -
  have "dval 0 (no_sep (CHR ''1'' # ''_6'')) = 16" "length (no_sep (CHR ''1'' # ''_6'')) = 2"
    by (simp_all add: no_sep_def code_def)
  moreover have "list_all digit_or_sep (CHR ''1'' # ''_6'') \<and> is_digit (CHR ''1'')" "ends_number []"
    by (simp_all add: digit_or_sep_def char_class less_eq_char_def ends_number_def NUL_def is_ident_char_def)
  ultimately show ?thesis
    using lex_int_literal_exact [of "[]" "CHR ''1''" "''_6''" 7 16 "CHR ''x''"]
    by (auto split: sum.splits)
qed

text \<open>Decoding a string literal never writes more than the literal's own length, so that the
  buffer, of twice that and four, also holds the terminator.\<close>

theorem decode_string_fits:
  assumes "decode_string line body = Inr out"
  shows "length out + 1 \<le> 2 * length body + 4 \<and> length out \<le> length body"
  using decode_loop_length [of line body "[]" out] assms by (simp add: decode_string_def)

theorem decode_string_fits_witness:
  "decode_string 1 (''a${b}'') = Inr [CHR ''a'', MARK, CHR ''b'', MARK] \<and>
   length [CHR ''a'', MARK, CHR ''b'', MARK] \<le> length ''a${b}''"
proof -
  have "decode_string 1 (''a${b}'') = Inr [CHR ''a'', MARK, CHR ''b'', MARK]"
    by (simp add: decode_string_def)
  from this decode_string_fits [OF this] show ?thesis by blast
qed


end
