(* ===== verification/Sl_Lexer_Float.thy ===== *)
theory Sl_Lexer_Float
  imports Complex_Main Sl_Lexer_Text
begin

text \<open>
  The value of float literals: which rational number the text of a literal stands for, that the
  lexer converts exactly that text, and that the conversion gives the \<open>double\<close> nearest to it.
\<close>

section \<open>Rounding: exponent and mantissa\<close>

lemma bitlen_bounds: "0 < n \<Longrightarrow> 2 ^ (bitlen n - 1) \<le> n \<and> n < 2 ^ bitlen n \<and> 0 < bitlen n"
proof (induction n rule: bitlen.induct)
  case (1 n)
  show ?case
  proof (cases "n div 2 = 0")
    case True
    then have "n = 1" using 1(2) by auto
    then show ?thesis by (simp add: bitlen.simps)
  next
    case False
    with 1 have ih: "2 ^ (bitlen (n div 2) - 1) \<le> n div 2" "n div 2 < 2 ^ bitlen (n div 2)" "0 < bitlen (n div 2)" by auto
    have b: "bitlen n = Suc (bitlen (n div 2))" using 1(2) by (subst bitlen.simps) simp
    obtain k where k: "bitlen (n div 2) = Suc k" using ih(3) by (cases "bitlen (n div 2)") auto
    show ?thesis using ih b k by simp linarith
  qed
qed

text \<open>The quotient \<open>n / d\<close> scaled by a power of two, as a real number.\<close>

definition ratio :: "nat \<times> nat \<Rightarrow> real" where
  "ratio p = real (fst p) / real (snd p)"

lemma ratio_div_pow2: "ratio (div_pow2 n d e) = ratio (n, d) / 2 powi e"
  by (auto simp: ratio_def div_pow2_def power_int_def field_simps power_inverse)

lemma bitlen_real:
  assumes "0 < n"
  shows "2 powi (int (bitlen n) - 1) \<le> real n" "real n < 2 powi int (bitlen n)"
proof -
  have b: "2 ^ (bitlen n - 1) \<le> n" "n < 2 ^ bitlen n" "0 < bitlen n" using bitlen_bounds [OF assms] by auto
  have "int (bitlen n) - 1 = int (bitlen n - 1)" using b(3) by simp
  then have "2 powi (int (bitlen n) - 1) = real (2 ^ (bitlen n - 1))" by (simp only: power_int_of_nat of_nat_power) simp
  then show "2 powi (int (bitlen n) - 1) \<le> real n" using b(1) by (simp only: of_nat_le_iff)
  have "2 powi int (bitlen n) = real (2 ^ bitlen n)" by simp
  then show "real n < 2 powi int (bitlen n)" using b(2) by (simp only: of_nat_less_iff)
qed

lemma ratio_exponent_cand:
  assumes "0 < n" and "0 < d"
  defines "k \<equiv> int (bitlen n) - int (bitlen d)"
  shows "2 powi (k - 1) \<le> ratio (n, d)" "ratio (n, d) < 2 powi (k + 1)"
proof -
  have p: "0 < real n" "0 < real d" "(0 :: real) < 2 powi int (bitlen d)" using assms by auto
  have "2 powi (k - 1) * real d \<le> 2 powi (k - 1) * 2 powi int (bitlen d)"
    using bitlen_real(2) [OF assms(2)] by (intro mult_left_mono) auto
  also have "\<dots> = 2 powi (k - 1 + int (bitlen d))" by (rule power_int_add [symmetric]) simp
  also have "\<dots> = 2 powi (int (bitlen n) - 1)" by (simp add: k_def)
  also have "\<dots> \<le> real n" by (rule bitlen_real(1) [OF assms(1)])
  finally show "2 powi (k - 1) \<le> ratio (n, d)" using p by (simp add: ratio_def field_simps)
  have "real n < 2 powi int (bitlen n)" by (rule bitlen_real(2) [OF assms(1)])
  also have "\<dots> = 2 powi ((k + 1) + (int (bitlen d) - 1))" by (simp add: k_def)
  also have "\<dots> = 2 powi (k + 1) * 2 powi (int (bitlen d) - 1)" by (rule power_int_add) simp
  also have "\<dots> \<le> 2 powi (k + 1) * real d"
    using bitlen_real(1) [OF assms(2)] by (intro mult_left_mono) auto
  finally show "ratio (n, d) < 2 powi (k + 1)" using p by (simp add: ratio_def field_simps)
qed

lemma f64_exponent_bounds:
  assumes "0 < n" and "0 < d"
  obtains k where "f64_exponent n d = max (- 1074) (k - 52)" "2 powi k \<le> ratio (n, d)" "ratio (n, d) < 2 powi (k + 1)"
proof -
  define k0 where "k0 = int (bitlen n) - int (bitlen d)"
  obtain n' d' where nd: "div_pow2 n d k0 = (n', d')" by force
  have "0 < d'" using nd assms(2) by (auto simp: div_pow2_def split: if_splits)
  then have less: "n' < d' \<longleftrightarrow> ratio (n, d) < 2 powi k0"
  proof -
    have "ratio (n, d) = real n' / real d' * 2 powi k0"
      using ratio_div_pow2 [of n d k0] by (simp add: nd ratio_def [of "(n', d')"])
    moreover have "real n' / real d' * 2 powi k0 < 1 * 2 powi k0 \<longleftrightarrow> real n' / real d' < 1"
      by (rule mult_less_cancel_right_pos) simp
    ultimately show ?thesis using \<open>0 < d'\<close> by simp
  qed
  have e: "f64_exponent n d = max (- 1074) ((if n' < d' then k0 - 1 else k0) - 52)"
    unfolding f64_exponent_def Let_def k0_def [symmetric] nd by simp
  have "2 powi (k0 - 1) \<le> ratio (n, d)" "ratio (n, d) < 2 powi (k0 + 1)"
    unfolding k0_def by (rule ratio_exponent_cand [OF assms])+
  with that [of k0] that [of "k0 - 1"] e less show ?thesis by (cases "n' < d'") auto
qed

lemma round_even_ge:
  assumes "0 < d" and "even m" and "0 < m"
  shows "m \<le> round_even n d \<longleftrightarrow> real m - 1 / 2 \<le> ratio (n, d)"
proof -
  define q r where "q = n div d" and "r = n mod d"
  have n: "n = q * d + r" "r < d" using assms(1) by (simp_all add: q_def r_def)
  have "real m - 1 / 2 \<le> ratio (n, d) \<longleftrightarrow> (2 * real m - 1) * real d \<le> 2 * real n"
    using assms(1) by (simp add: ratio_def field_simps)
  also have "\<dots> \<longleftrightarrow> real ((2 * m - 1) * d) \<le> real (2 * n)"
    using assms(3) by (simp add: of_nat_diff)
  also have "\<dots> \<longleftrightarrow> (2 * m - 1) * d \<le> 2 * n" by (simp only: of_nat_le_iff)
  also have "\<dots> \<longleftrightarrow> m \<le> round_even n d"
  proof -
    consider "m \<le> q" | "m = q + 1" | "q + 2 \<le> m" by linarith
    then show ?thesis
    proof cases
      case 1
      then have "(2 * m - 1) * d \<le> (2 * q) * d" by (intro mult_right_mono) auto
      moreover have "2 * q * d \<le> 2 * n" using n(1) by simp
      moreover have "q \<le> round_even n d" by (simp add: round_even_def q_def Let_def)
      ultimately show ?thesis using 1 by linarith
    next
      case 2
      then have "odd q" using assms(2) by simp
      have "(2 * m - 1) * d = 2 * (q * d) + d" using 2 by (simp add: algebra_simps)
      then have "(2 * m - 1) * d \<le> 2 * n \<longleftrightarrow> d \<le> 2 * r" using n(1) by linarith
      moreover have "m \<le> round_even n d \<longleftrightarrow> d \<le> 2 * r" using 2 \<open>odd q\<close>
        unfolding round_even_def Let_def q_def [symmetric] r_def [symmetric] by auto
      ultimately show ?thesis by simp
    next
      case 3
      then have "(2 * q + 3) * d \<le> (2 * m - 1) * d" by (intro mult_right_mono) auto
      then have "\<not> (2 * m - 1) * d \<le> 2 * n" using n by (simp add: algebra_simps)
      moreover have "round_even n d \<le> q + 1" by (simp add: round_even_def q_def Let_def)
      ultimately show ?thesis using 3 by simp
    qed
  qed
  finally show ?thesis by simp
qed

lemma round_even_0:
  assumes "0 < d"
  shows "round_even n d = 0 \<longleftrightarrow> ratio (n, d) \<le> 1 / 2"
proof -
  define q r where "q = n div d" and "r = n mod d"
  have n: "n = q * d + r" "r < d" using assms(1) by (simp_all add: q_def r_def)
  have "ratio (n, d) \<le> 1 / 2 \<longleftrightarrow> real (2 * n) \<le> real d" using assms by (simp add: ratio_def field_simps)
  also have "\<dots> \<longleftrightarrow> 2 * n \<le> d" by (simp only: of_nat_le_iff)
  also have "\<dots> \<longleftrightarrow> round_even n d = 0"
  proof (cases q)
    case 0
    then show ?thesis using n
      unfolding round_even_def Let_def q_def [symmetric] r_def [symmetric] by auto
  next
    case (Suc k)
    then have "d \<le> n" using n by simp
    then show ?thesis using Suc assms
      unfolding round_even_def Let_def q_def [symmetric] r_def [symmetric] by auto
  qed
  finally show ?thesis by simp
qed

lemma round_even_le:
  assumes "0 < d" and "ratio (n, d) < real m"
  shows "round_even n d \<le> m"
proof -
  have "real n < real (m * d)" using assms by (simp add: ratio_def field_simps)
  then have "n < m * d" by (simp only: of_nat_less_iff)
  then have "n div d < m" using assms(1) by (simp add: less_mult_imp_div_less)
  then show ?thesis by (simp add: round_even_def Let_def)
qed


text \<open>The rounding of a positive quotient: which exponent and mantissa it is made of.\<close>

lemma f64_round_parts:
  assumes "0 < n" and "0 < d"
  obtains e q k where "f64_round n d = min F64_INF (nat (e + 1074) * 2 ^ 52 + q)" "e = max (- 1074) (k - 52)"
    "2 powi k \<le> ratio (n, d)" "ratio (n, d) < 2 powi (k + 1)"
    "\<And>m. even m \<Longrightarrow> 0 < m \<Longrightarrow> m \<le> q \<longleftrightarrow> (real m - 1 / 2) * 2 powi e \<le> ratio (n, d)"
    "q = 0 \<longleftrightarrow> ratio (n, d) \<le> 2 powi (e - 1)"
    "q \<le> 2 ^ 53"
proof -
  obtain k where k: "f64_exponent n d = max (- 1074) (k - 52)" "2 powi k \<le> ratio (n, d)" "ratio (n, d) < 2 powi (k + 1)"
    using f64_exponent_bounds [OF assms] by blast
  define e where "e = f64_exponent n d"
  obtain n' d' where nd: "div_pow2 n d e = (n', d')" by force
  have d': "0 < d'" using nd assms(2) by (auto simp: div_pow2_def split: if_splits)
  have r: "ratio (n', d') = ratio (n, d) / 2 powi e" using ratio_div_pow2 [of n d e] nd by simp
  have round: "f64_round n d = min F64_INF (nat (e + 1074) * 2 ^ 52 + round_even n' d')"
    by (simp add: f64_round_def Let_def nd flip: e_def)
  have ge: "m \<le> round_even n' d' \<longleftrightarrow> (real m - 1 / 2) * 2 powi e \<le> ratio (n, d)" if "even m" "0 < m" for m
    using round_even_ge [OF d' that] by (simp add: r pos_le_divide_eq)
  have "(2 :: real) powi (e - 1) = 1 / 2 * 2 powi e" by (simp add: power_int_diff)
  then have zero: "round_even n' d' = 0 \<longleftrightarrow> ratio (n, d) \<le> 2 powi (e - 1)"
    using round_even_0 [OF d', of n'] by (simp add: r pos_divide_le_eq) linarith
  have "(2 :: real) powi (k + 1) \<le> 2 powi (53 + e)"
    using k(1) by (intro power_int_increasing) (auto simp: e_def)
  also have "\<dots> = 2 ^ 53 * 2 powi e" by (simp add: power_int_add)
  finally have "ratio (n', d') < real (2 ^ 53)" using k(3) by (simp add: r pos_divide_less_eq)
  then have "round_even n' d' \<le> 2 ^ 53" by (rule round_even_le [OF d'])
  with that [OF round _ k(2,3) ge zero] k(1) show ?thesis by (simp add: e_def)
qed

lemma f64_round_zero:
  assumes "0 < n" and "0 < d"
  shows "f64_round n d = 0 \<longleftrightarrow> ratio (n, d) \<le> 2 powi - 1075"
proof -
  from f64_round_parts [OF assms] obtain e q k where
    p: "f64_round n d = min F64_INF (nat (e + 1074) * 2 ^ 52 + q)" "e = max (- 1074) (k - 52)"
      "2 powi k \<le> ratio (n, d)" "q = 0 \<longleftrightarrow> ratio (n, d) \<le> 2 powi (e - 1)" by metis
  show ?thesis
  proof (cases "e = - 1074")
    case True
    then show ?thesis using p by (auto simp: F64_INF_def min_def)
  next
    case False
    then have "- 1074 < e" "e = k - 52" using p(2) by auto
    then have "(2 :: real) powi - 1075 < 2 powi k" by (intro power_int_strict_increasing) auto
    moreover have "0 < nat (e + 1074) * 2 ^ 52" using \<open>- 1074 < e\<close> by simp
    ultimately show ?thesis using p(1,3) by (auto simp: F64_INF_def min_def)
  qed
qed

lemma powi_shift: "(2 :: real) powi (int k + e) = 2 ^ k * 2 powi e"
  by (simp add: power_int_add)

lemma f64_round_inf:
  assumes "0 < n" and "0 < d"
  shows "f64_round n d = F64_INF \<longleftrightarrow> (2 ^ 53 - 1 / 2) * 2 powi 971 \<le> ratio (n, d)"
proof -
  from f64_round_parts [OF assms] obtain e q k where
    p: "f64_round n d = min F64_INF (nat (e + 1074) * 2 ^ 52 + q)" "e = max (- 1074) (k - 52)"
      "2 powi k \<le> ratio (n, d)" "ratio (n, d) < 2 powi (k + 1)"
      and ge: "\<And>m. even m \<Longrightarrow> 0 < m \<Longrightarrow> m \<le> q \<longleftrightarrow> (real m - 1 / 2) * 2 powi e \<le> ratio (n, d)"
      and q: "q \<le> 2 ^ 53" by metis
  have inf: "f64_round n d = F64_INF \<longleftrightarrow> 2047 * 2 ^ 52 \<le> nat (e + 1074) * 2 ^ 52 + q"
    by (auto simp: p(1) F64_INF_def min_def)
  define P where "P = (2 :: real) powi 971"
  have P: "0 < P" by (simp add: P_def)
  consider "e < 971" | "e = 971" | "971 < e" by linarith
  then show ?thesis
  proof cases
    case 1
    then have "nat (e + 1074) \<le> 2044" by simp
    then have "nat (e + 1074) * 2 ^ 52 \<le> 2044 * 2 ^ 52" by (rule mult_right_mono) simp
    then have "\<not> 2047 * 2 ^ 52 \<le> nat (e + 1074) * 2 ^ 52 + q" using q by simp
    moreover have "(2 :: real) powi (k + 1) \<le> 2 powi (int 52 + 971)"
      using 1 p(2) by (intro power_int_increasing) auto
    then have "ratio (n, d) < 2 ^ 52 * P" using p(4) unfolding powi_shift P_def by linarith
    moreover have "2 ^ 52 * P \<le> (2 ^ 53 - 1 / 2) * P" using P by (intro mult_right_mono) auto
    ultimately show ?thesis using inf unfolding P_def [symmetric] by linarith
  next
    case 2
    have "f64_round n d = F64_INF \<longleftrightarrow> 2 ^ 53 \<le> q" using inf 2 by simp
    also have "\<dots> \<longleftrightarrow> (real (2 ^ 53) - 1 / 2) * 2 powi e \<le> ratio (n, d)" by (rule ge) auto
    finally show ?thesis unfolding 2 by simp
  next
    case 3
    then have e: "k = int 52 + e" using p(2) by simp
    have "(2 :: real) powi (int 53 + 971) \<le> 2 powi k" using 3 e by (intro power_int_increasing) auto
    then have "2 ^ 53 * P \<le> ratio (n, d)" using p(3) unfolding powi_shift P_def by linarith
    moreover have "(2 ^ 53 - 1 / 2) * P \<le> 2 ^ 53 * P" using P by (intro mult_right_mono) auto
    ultimately have big: "(2 ^ 53 - 1 / 2) * P \<le> ratio (n, d)" by linarith
    have "(real (2 ^ 52) - 1 / 2) * 2 powi e \<le> 2 ^ 52 * 2 powi e" by (intro mult_right_mono) auto
    then have "(real (2 ^ 52) - 1 / 2) * 2 powi e \<le> ratio (n, d)"
      using p(3) unfolding e powi_shift by linarith
    then have "2 ^ 52 \<le> q" using ge [of "2 ^ 52"] by simp
    moreover have "2046 \<le> nat (e + 1074)" using 3 by simp
    then have "2046 * 2 ^ 52 \<le> nat (e + 1074) * 2 ^ 52" by (rule mult_right_mono) simp
    ultimately have "2047 * 2 ^ 52 \<le> nat (e + 1074) * 2 ^ 52 + q" by simp
    then show ?thesis using inf big unfolding P_def by blast
  qed
qed

lemma dval_pos: "0 < dval a (filter is_digit m) \<longleftrightarrow> 0 < a \<or> list_ex (\<lambda>c. CHR ''1'' \<le> c \<and> c \<le> CHR ''9'') m"
proof (induction m arbitrary: a)
  case (Cons c m)
  have "is_digit c \<Longrightarrow> 0 < code c - 48 \<longleftrightarrow> CHR ''1'' \<le> c \<and> c \<le> CHR ''9''"
    by (auto simp: char_class char_less_eq_code) (auto simp: code_def)
  moreover have "CHR ''1'' \<le> c \<and> c \<le> CHR ''9'' \<Longrightarrow> is_digit c"
    by (auto simp: char_class char_less_eq_code code_def)
  ultimately show ?case using Cons.IH by auto
qed simp

lemma dec_ratio_pos: "0 < snd (dec_ratio s)"
  "0 < fst (dec_ratio s) \<longleftrightarrow> list_ex (\<lambda>c. CHR ''1'' \<le> c \<and> c \<le> CHR ''9'') (takeWhile (\<lambda>c. \<not> is_exp_char c) s)"
  using dval_pos [of 0] by (auto simp: dec_ratio_def Let_def)

section \<open>The nearest double\<close>

text \<open>
  The value of the bit pattern of a finite \<open>double\<close> that is not negative: 11 bits of exponent over
  52 bits of fraction, the subnormal numbers with exponent field 0. \<open>nearest_even x b\<close>: no finite
  \<open>double\<close> is nearer to \<open>x\<close> than the one with pattern \<open>b\<close>, and where another one is as near, the last
  bit of \<open>b\<close> is 0.
\<close>

definition f64_val :: "nat \<Rightarrow> real" where
  "f64_val b =
     (let ex = b div 2 ^ 52; frac = b mod 2 ^ 52 in
      if ex = 0 then real frac * 2 powi - 1074
      else real (2 ^ 52 + frac) * 2 powi (int ex - 1075))"

definition nearest_even :: "real \<Rightarrow> nat \<Rightarrow> bool" where
  "nearest_even x b \<longleftrightarrow>
     b < F64_INF \<and>
     (\<forall>b' < F64_INF. \<bar>f64_val b - x\<bar> \<le> \<bar>f64_val b' - x\<bar> \<and>
        (\<bar>f64_val b - x\<bar> = \<bar>f64_val b' - x\<bar> \<and> f64_val b' \<noteq> f64_val b \<longrightarrow> even b))"

lemma round_even_near:
  assumes "0 < d"
  shows "\<bar>real (round_even n d) - ratio (n, d)\<bar> \<le> 1 / 2"
    "\<bar>real (round_even n d) - ratio (n, d)\<bar> = 1 / 2 \<Longrightarrow> even (round_even n d)"
proof -
  define q r where "q = n div d" and "r = n mod d"
  have n: "n = q * d + r" "r < d" using assms by (simp_all add: q_def r_def)
  have x: "ratio (n, d) = real q + real r / real d" using assms by (simp add: ratio_def n(1) add_divide_distrib)
  have round: "round_even n d = (if 2 * r > d \<or> 2 * r = d \<and> odd q then q + 1 else q)"
    by (simp add: round_even_def q_def r_def Let_def)
  have half: "real r / real d \<le> 1 / 2 \<longleftrightarrow> 2 * r \<le> d" "real r / real d = 1 / 2 \<longleftrightarrow> 2 * r = d"
    "0 \<le> real r / real d" "real r / real d < 1"
    using assms n(2) by (auto simp: field_simps) 
  define y where "y = real r / real d"
  note half = half [folded y_def]
  have dist: "\<bar>real (round_even n d) - ratio (n, d)\<bar> = (if 2 * r > d \<or> 2 * r = d \<and> odd q then 1 - y else y)"
    unfolding x round y_def [symmetric] using half by auto
  show "\<bar>real (round_even n d) - ratio (n, d)\<bar> \<le> 1 / 2"
    unfolding dist using half by auto
  show "even (round_even n d)" if "\<bar>real (round_even n d) - ratio (n, d)\<bar> = 1 / 2"
    using that half unfolding dist by (auto simp: round split: if_splits)
qed

text \<open>A pattern put together from an exponent and a mantissa of up to 53 bits, the carry included.\<close>

lemma f64_val_parts:
  assumes "- 1074 \<le> e" and "q \<le> 2 ^ 53" and "e = - 1074 \<or> 2 ^ 52 \<le> q"
  shows "f64_val (nat (e + 1074) * 2 ^ 52 + q) = real q * 2 powi e"
proof -
  define E where "E = nat (e + 1074)"
  have e: "e = int E - 1074" using assms(1) by (simp add: E_def)
  consider "q < 2 ^ 52" | "2 ^ 52 \<le> q" "q < 2 ^ 53" | "q = 2 ^ 53" using assms(2) by linarith
  then show ?thesis
  proof cases
    case 1
    then have "E = 0" using assms(3) e by simp
    then show ?thesis using 1 unfolding E_def [symmetric] by (simp add: f64_val_def e)
  next
    case 2
    then obtain f where f: "q = 2 ^ 52 + f" "f < 2 ^ 52" using le_iff_add [of "2 ^ 52" q] by auto
    have "E * 2 ^ 52 + q = (E + 1) * 2 ^ 52 + f" using f(1) by simp
    moreover have "((E + 1) * 2 ^ 52 + f) div 2 ^ 52 = E + 1 + f div 2 ^ 52" "((E + 1) * 2 ^ 52 + f) mod 2 ^ 52 = f mod 2 ^ 52"
      by (rule div_mult_self3, simp) (rule mod_mult_self3)
    moreover have "f div 2 ^ 52 = 0" "f mod 2 ^ 52 = f" using f(2) by simp_all
    ultimately have "f64_val (E * 2 ^ 52 + q) = real (2 ^ 52 + f) * 2 powi (int (E + 1) - 1075)"
      by (simp only: f64_val_def Let_def) simp
    then show ?thesis unfolding E_def [symmetric] f(1) e by simp
  next
    case 3
    have "E * 2 ^ 52 + q = (E + 2) * 2 ^ 52 + 0" using 3 by simp
    moreover have "((E + 2) * 2 ^ 52 + 0) div 2 ^ 52 = E + 2 + 0 div 2 ^ 52" "((E + 2) * 2 ^ 52 + 0) mod 2 ^ 52 = (0 mod 2 ^ 52 :: nat)"
      by (rule div_mult_self3, simp) (rule mod_mult_self3)
    ultimately have "f64_val (E * 2 ^ 52 + q) = real (2 ^ 52 + 0) * 2 powi (int (E + 2) - 1075)"
      by (simp only: f64_val_def Let_def) simp
    also have "int (E + 2) - 1075 = 1 + e" by (simp add: e)
    finally show ?thesis unfolding E_def [symmetric] 3 by (simp add: power_int_add)
  qed
qed

text \<open>Every finite \<open>double\<close> is a multiple of \<open>2 powi e\<close>, or below the 53 bit mantissas of that exponent.\<close>

lemma f64_val_grid:
  assumes "- 1074 \<le> e"
  shows "(\<exists>j :: nat. f64_val b = real j * 2 powi e) \<or> - 1074 < e \<and> f64_val b < 2 ^ 52 * 2 powi e"
proof -
  obtain u m :: nat where um: "f64_val b = real m * 2 powi (int u - 1074)" "m < 2 ^ 53"
  proof (cases "b div 2 ^ 52")
    case 0
    then show ?thesis using that [of "b mod 2 ^ 52" 0] by (simp add: f64_val_def Let_def)
  next
    case (Suc k)
    have "b mod 2 ^ 52 < 2 ^ 52" by simp
    then have "2 ^ 52 + b mod 2 ^ 52 < 2 ^ 53" by simp
    moreover have "f64_val b = real (2 ^ 52 + b mod 2 ^ 52) * 2 powi (int k - 1074)"
      unfolding f64_val_def Let_def Suc by simp
    ultimately show ?thesis using that by blast
  qed
  show ?thesis
  proof (cases "e \<le> int u - 1074")
    case True
    define i where "i = nat (int u - 1074 - e)"
    have "int u - 1074 = int i + e" using True by (simp add: i_def)
    then have "f64_val b = real (m * 2 ^ i) * 2 powi e" using um(1) by (simp add: power_int_add)
    then show ?thesis by blast
  next
    case False
    have "real m < real (2 ^ 53)" using um(2) by (simp only: of_nat_less_iff)
    then have "f64_val b < 2 ^ 53 * 2 powi (int u - 1074)" using um(1) by simp
    also have "\<dots> = 2 powi (int 53 + (int u - 1074))" by (rule powi_shift [symmetric])
    also have "\<dots> \<le> 2 powi (int 52 + e)" using False by (intro power_int_increasing) auto
    finally have "f64_val b < 2 ^ 52 * 2 powi e" unfolding powi_shift .
    then show ?thesis using False by auto
  qed
qed

text \<open>Among the multiples of one unit, rounding to the nearest integer is nearest.\<close>

lemma near_multiple:
  fixes x u :: real and q j :: nat
  assumes "0 < u" and "\<bar>real q - x / u\<bar> \<le> 1 / 2"
  shows "\<bar>real q * u - x\<bar> \<le> \<bar>real j * u - x\<bar>"
    "\<bar>real q * u - x\<bar> = \<bar>real j * u - x\<bar> \<Longrightarrow> j \<noteq> q \<Longrightarrow> \<bar>real q - x / u\<bar> = 1 / 2"
proof -
  have scale: "\<bar>real i * u - x\<bar> = \<bar>real i - x / u\<bar> * u" for i
  proof -
    have "real i * u - x = (real i - x / u) * u" using assms(1) by (simp add: left_diff_distrib)
    then show ?thesis using assms(1) by (simp add: abs_mult)
  qed
  have far: "1 / 2 \<le> \<bar>real j - x / u\<bar>" if "j \<noteq> q"
  proof -
    have "1 \<le> \<bar>real j - real q\<bar>" using that by (cases j q rule: linorder_cases) auto
    then show ?thesis using assms(2) by linarith
  qed
  show "\<bar>real q * u - x\<bar> \<le> \<bar>real j * u - x\<bar>"
    unfolding scale using assms far by (cases "j = q") (auto intro: mult_right_mono)
  show "\<bar>real q - x / u\<bar> = 1 / 2" if "\<bar>real q * u - x\<bar> = \<bar>real j * u - x\<bar>" "j \<noteq> q"
    using that(1) far [OF that(2)] assms unfolding scale by simp
qed

lemma f64_round_nearest:
  assumes "0 < n" and "0 < d" and "f64_round n d < F64_INF"
  shows "nearest_even (ratio (n, d)) (f64_round n d)"
proof -
  define x where "x = ratio (n, d)"
  define e where "e = f64_exponent n d"
  obtain k where k: "e = max (- 1074) (k - 52)" "2 powi k \<le> x" "x < 2 powi (k + 1)"
    using f64_exponent_bounds [OF assms(1,2)] by (metis e_def x_def)
  obtain n' d' where nd: "div_pow2 n d e = (n', d')" by force
  have d': "0 < d'" using nd assms(2) by (auto simp: div_pow2_def split: if_splits)
  define q u where "q = round_even n' d'" and "u = (2 :: real) powi e"
  have u: "0 < u" by (simp add: u_def)
  have r: "ratio (n', d') = x / u" using ratio_div_pow2 [of n d e] nd by (simp add: x_def u_def)
  have b: "f64_round n d = nat (e + 1074) * 2 ^ 52 + q"
    using assms(3) by (simp add: f64_round_def Let_def nd q_def flip: e_def)
  have low: "2 ^ 52 * u \<le> x" if "- 1074 < e"
  proof -
    have "k = int 52 + e" using that k(1) by simp
    then show ?thesis using k(2) unfolding u_def powi_shift [symmetric] by simp
  qed
  have near: "\<bar>real q - x / u\<bar> \<le> 1 / 2" "\<bar>real q - x / u\<bar> = 1 / 2 \<Longrightarrow> even q"
    using round_even_near [OF d', of n'] by (simp_all add: q_def r)
  have "x < 2 ^ 53 * u"
  proof -
    have "(2 :: real) powi (k + 1) \<le> 2 powi (int 53 + e)" using k(1) by (intro power_int_increasing) auto
    then show ?thesis using k(3) unfolding u_def powi_shift [symmetric] by simp
  qed
  then have q53: "q \<le> 2 ^ 53" unfolding q_def using u by (intro round_even_le [OF d']) (simp add: r pos_divide_less_eq)
  have q52: "e = - 1074 \<or> 2 ^ 52 \<le> q"
  proof (cases "- 1074 < e")
    case True
    then have "2 ^ 52 \<le> x / u" using low u by (simp add: pos_le_divide_eq)
    moreover have "real (2 ^ 52) - 1 / 2 \<le> 2 ^ 52" by simp
    ultimately have "real (2 ^ 52) - 1 / 2 \<le> ratio (n', d')" unfolding r by (rule order_trans [rotated])
    then show ?thesis using round_even_ge [OF d', of "2 ^ 52" n'] by (simp add: q_def)
  qed (use k(1) in auto)
  have val: "f64_val (f64_round n d) = real q * u"
    unfolding b u_def using q53 q52 k(1) by (intro f64_val_parts) auto
  have best: "\<bar>real q * u - x\<bar> \<le> \<bar>f64_val b' - x\<bar> \<and>
      (\<bar>real q * u - x\<bar> = \<bar>f64_val b' - x\<bar> \<and> f64_val b' \<noteq> real q * u \<longrightarrow> even q)" for b'
  proof -
    have "- 1074 \<le> e" using k(1) by simp
    from f64_val_grid [OF this, of b'] consider j :: nat where "f64_val b' = real j * u"
      | "- 1074 < e" "f64_val b' < 2 ^ 52 * u" unfolding u_def by blast
    then show ?thesis
    proof cases
      case 1
      then show ?thesis using near_multiple [OF u near(1), of j] near(2) by auto
    next
      case 2
      have "\<bar>real q * u - x\<bar> \<le> \<bar>real (2 ^ 52) * u - x\<bar>" by (rule near_multiple(1) [OF u near(1)])
      also have "\<dots> < \<bar>f64_val b' - x\<bar>" using 2 low by simp
      finally show ?thesis by simp
    qed
  qed
  have "even (f64_round n d) \<longleftrightarrow> even q" by (simp add: b)
  then show ?thesis using best assms(3) unfolding nearest_even_def val x_def [symmetric] by blast
qed

section \<open>The text of a literal and its value\<close>

text \<open>
  A literal is a run of digits, then a fraction, an exponent, or both. A run starts with a digit and
  may hold separators behind it.
\<close>

definition digit_run :: "string \<Rightarrow> bool" where
  "digit_run l \<longleftrightarrow> l \<noteq> [] \<and> is_digit (hd l) \<and> list_all digit_or_sep l"

record float_lit =
  fl_int :: string
  fl_frac :: "string option"
  fl_exp :: "(char \<times> string \<times> string) option"

definition frac_text :: "string option \<Rightarrow> string" where
  "frac_text fp = (case fp of None \<Rightarrow> [] | Some f \<Rightarrow> CHR ''.'' # f)"

definition exp_text :: "(char \<times> string \<times> string) option \<Rightarrow> string" where
  "exp_text ex = (case ex of None \<Rightarrow> [] | Some (c, sign, ds) \<Rightarrow> c # sign @ ds)"

definition float_text :: "float_lit \<Rightarrow> string" where
  "float_text l = fl_int l @ frac_text (fl_frac l) @ exp_text (fl_exp l)"

definition float_lit_ok :: "float_lit \<Rightarrow> bool" where
  "float_lit_ok l \<longleftrightarrow>
     digit_run (fl_int l) \<and> (\<forall>f. fl_frac l = Some f \<longrightarrow> digit_run f) \<and>
     (\<forall>c sign ds. fl_exp l = Some (c, sign, ds) \<longrightarrow>
        (c = CHR ''e'' \<or> c = CHR ''E'') \<and> sign \<in> {[], ''+'', ''-''} \<and> digit_run ds) \<and>
     (fl_frac l \<noteq> None \<or> fl_exp l \<noteq> None)"

definition float_value :: "float_lit \<Rightarrow> real" where
  "float_value l =
     (real (dval 0 (no_sep (fl_int l))) +
        (case fl_frac l of None \<Rightarrow> 0 | Some f \<Rightarrow> real (dval 0 (no_sep f)) / 10 ^ length (no_sep f))) *
     (case fl_exp l of
        None \<Rightarrow> 1
      | Some (c, sign, ds) \<Rightarrow>
          if sign = ''-'' then 1 / 10 ^ dval 0 (no_sep ds) else 10 ^ dval 0 (no_sep ds))"

section \<open>The literal the lexer converts\<close>

lemma digit_run_facts:
  assumes "digit_run l"
  shows "list_all digit_or_sep l" "is_digit (char_at (l @ s) 0)" "l \<noteq> []"
  using assms by (cases l; simp add: digit_run_def)+

lemma not_digit_or_sep: "\<not> digit_or_sep (CHR ''.'')" "\<not> is_digit (CHR ''+'')" "\<not> is_digit (CHR ''-'')"
  "is_exp_char c \<Longrightarrow> \<not> digit_or_sep c \<and> c \<noteq> CHR ''.''"
  by (auto simp: digit_or_sep_def is_exp_char_def char_class less_eq_char_def)

lemma exp_text_head:
  assumes "float_lit_ok l" and "\<not> is_ident_char (char_at r 0)"
  shows "\<not> digit_or_sep (char_at (exp_text (fl_exp l) @ r) 0)"
    "fl_frac l = None \<Longrightarrow> char_at (exp_text (fl_exp l) @ r) 0 \<noteq> CHR ''.''"
proof -
  have "\<not> digit_or_sep (char_at r 0)" using assms(2) digit_ident by blast
  then show "\<not> digit_or_sep (char_at (exp_text (fl_exp l) @ r) 0)"
    using assms(1) by (auto simp: exp_text_def float_lit_ok_def digit_or_sep_def char_class less_eq_char_def split: option.splits)
  show "char_at (exp_text (fl_exp l) @ r) 0 \<noteq> CHR ''.''" if "fl_frac l = None"
    using assms(1) that by (auto simp: exp_text_def float_lit_ok_def split: option.splits)
qed

lemma lex_exponent_text:
  assumes "float_lit_ok l" and "\<not> is_ident_char (char_at r 0)"
  shows "lex_exponent (exp_text (fl_exp l) @ r) = (if fl_exp l = None then None else Some r)"
proof (cases "fl_exp l")
  case None
  then show ?thesis using assms(2) digit_ident(2) [of "char_at r 0"] by (auto simp: exp_text_def lex_exponent_def)
next
  case (Some x)
  obtain c sign ds where x: "x = (c, sign, ds)" by (cases x)
  then have ok: "is_exp_char c" "sign \<in> {[], ''+'', ''-''}" "digit_run ds"
    using assms(1) Some by (auto simp: float_lit_ok_def is_exp_char_def)
  have q: "(if char_at (sign @ ds @ r) 0 = CHR ''+'' \<or> char_at (sign @ ds @ r) 0 = CHR ''-'' then tl (sign @ ds @ r)
       else sign @ ds @ r) = ds @ r"
    using ok(2) digit_run_facts(2) [OF ok(3), of r] not_digit_or_sep by auto
  have "dropWhile digit_or_sep (ds @ r) = r"
    using assms(2) digit_ident by (intro dropWhile_stop digit_run_facts(1) [OF ok(3)]) blast
  then show ?thesis
    using Some x ok(1) q digit_run_facts(2) [OF ok(3), of r] by (simp add: exp_text_def lex_exponent_def Let_def)
qed

lemma lex_token_float:
  assumes "float_lit_ok l" and "\<not> is_ident_char (char_at r 0)"
  shows "lex_token line (float_text l @ r) = lex_float line (float_text l) r"
proof -
  let ?s = "float_text l @ r" and ?x = "exp_text (fl_exp l) @ r"
  have ip: "digit_run (fl_int l)" using assms(1) by (simp add: float_lit_ok_def)
  note xh = exp_text_head [OF assms]
  have r0: "dropWhile digit_or_sep ?s = frac_text (fl_frac l) @ ?x"
    unfolding float_text_def append_assoc
    using xh(1) not_digit_or_sep(1)
    by (intro dropWhile_stop digit_run_facts(1) [OF ip]) (auto simp: frac_text_def split: option.splits)
  have frac: "(char_at (frac_text (fl_frac l) @ ?x) 0 = CHR ''.'' \<and> is_digit (char_at (frac_text (fl_frac l) @ ?x) 1)) \<longleftrightarrow>
      fl_frac l \<noteq> None"
    using xh(2) assms(1) digit_run_facts(2) by (auto simp: frac_text_def float_lit_ok_def split: option.splits)
  have p: "(if fl_frac l \<noteq> None then dropWhile digit_or_sep (tl (frac_text (fl_frac l) @ ?x))
      else frac_text (fl_frac l) @ ?x) = ?x"
  proof (cases "fl_frac l")
    case (Some f)
    then have "digit_run f" using assms(1) by (simp add: float_lit_ok_def)
    then have "dropWhile digit_or_sep (f @ ?x) = ?x" using xh(1) by (intro dropWhile_stop digit_run_facts(1)) auto
    then show ?thesis using Some by (simp add: frac_text_def)
  qed (simp add: frac_text_def)
  have radix: "\<not> (char_at ?s 1 = CHR ''x'' \<or> char_at ?s 1 = CHR ''X'' \<or> char_at ?s 1 = CHR ''b'' \<or> char_at ?s 1 = CHR ''B'')"
  proof -
    obtain a t where t: "fl_int l = a # t" "list_all digit_or_sep t" using ip by (cases "fl_int l") (auto simp: digit_run_def)
    have no: "\<not> digit_or_sep c" if "c \<in> {CHR ''x'', CHR ''X'', CHR ''b'', CHR ''B''}" for c
      using that by (auto simp: digit_or_sep_def char_class less_eq_char_def)
    show ?thesis
    proof (cases t)
      case Nil
      then show ?thesis using t(1) assms(1)
        by (auto simp: float_text_def frac_text_def exp_text_def float_lit_ok_def split: option.splits)
    next
      case (Cons c t')
      then show ?thesis using t no by (auto simp: float_text_def)
    qed
  qed
  have "lex_token line ?s = lex_number line ?s"
    using digit_run_facts(2) [OF ip] by (simp add: lex_token_def float_text_def)
  also have "\<dots> = lex_float line (float_text l) r"
  proof (cases "fl_exp l")
    case None
    then have "fl_frac l \<noteq> None" "?x = r" using assms(1) by (auto simp: float_lit_ok_def exp_text_def)
    then show ?thesis
      using radix frac p lex_exponent_text [OF assms] None unfolding lex_number_def Let_def r0 by auto
  next
    case (Some y)
    then show ?thesis
      using radix lex_exponent_text [OF assms] p unfolding lex_number_def Let_def r0 frac p by auto
  qed
  finally show ?thesis .
qed

section \<open>The value of the text\<close>

definition frac_digits :: "string option \<Rightarrow> string" where
  "frac_digits fp = (case fp of None \<Rightarrow> [] | Some f \<Rightarrow> no_sep f)"

definition exp_value :: "(char \<times> string \<times> string) option \<Rightarrow> int" where
  "exp_value ex =
     (case ex of
        None \<Rightarrow> 0
      | Some (c, sign, ds) \<Rightarrow> (if sign = ''-'' then - 1 else 1) * int (dval 0 (no_sep ds)))"

lemma no_sep_append: "no_sep (s @ t) = no_sep s @ no_sep t"
  by (simp add: no_sep_def)

lemma digits_stop:
  assumes "list_all is_digit l"
  shows "list_all (\<lambda>c. \<not> is_exp_char c) l" "list_all (\<lambda>c. c \<noteq> CHR ''.'') l" "filter is_digit l = l"
  using assms by (auto simp: list_all_iff is_exp_char_def char_class less_eq_char_def intro: filter_True)

lemma run_digits: "digit_run l \<Longrightarrow> list_all is_digit (no_sep l) \<and> no_sep l \<noteq> [] \<and> is_digit (hd (no_sep l))"
  by (cases l) (auto simp: digit_run_def no_sep_digits no_sep_def list_all_iff digit_or_sep_def char_class less_eq_char_def)

lemma mantissa_parts:
  assumes "float_lit_ok l"
  defines "m \<equiv> no_sep (fl_int l @ frac_text (fl_frac l))"
  shows "list_all (\<lambda>c. \<not> is_exp_char c) m"
    "tl (dropWhile (\<lambda>c. c \<noteq> CHR ''.'') m) = frac_digits (fl_frac l)"
    "filter is_digit m = no_sep (fl_int l) @ frac_digits (fl_frac l)"
proof -
  have i: "list_all is_digit (no_sep (fl_int l))" using assms(1) run_digits by (auto simp: float_lit_ok_def)
  note i' = digits_stop [OF i]
  have dot: "\<not> is_exp_char (CHR ''.'')" "\<not> is_digit (CHR ''.'')" by (simp_all add: is_exp_char_def char_class less_eq_char_def)
  have "list_all (\<lambda>c. \<not> is_exp_char c) m \<and> tl (dropWhile (\<lambda>c. c \<noteq> CHR ''.'') m) = frac_digits (fl_frac l) \<and>
    filter is_digit m = no_sep (fl_int l) @ frac_digits (fl_frac l)"
  proof (cases "fl_frac l")
    case None
    have "dropWhile (\<lambda>c. c \<noteq> CHR ''.'') (no_sep (fl_int l) @ []) = []" by (rule dropWhile_stop) (use i' in auto)
    then have "tl (dropWhile (\<lambda>c. c \<noteq> CHR ''.'') (no_sep (fl_int l))) = []" by (simp only: append_Nil2 list.sel(2))
    then show ?thesis using None i' by (simp add: m_def frac_text_def frac_digits_def)
  next
    case (Some f)
    then have "list_all is_digit (no_sep f)" using assms(1) run_digits by (auto simp: float_lit_ok_def)
    note f = digits_stop [OF this]
    have m: "m = no_sep (fl_int l) @ CHR ''.'' # no_sep f"
      using Some by (simp add: m_def frac_text_def no_sep_append) (simp add: no_sep_def)
    have "dropWhile (\<lambda>c. c \<noteq> CHR ''.'') m = CHR ''.'' # no_sep f"
      unfolding m by (rule dropWhile_stop) (use i' in auto)
    then show ?thesis using Some i' f dot m by (simp add: frac_digits_def)
  qed
  then show "list_all (\<lambda>c. \<not> is_exp_char c) m" "tl (dropWhile (\<lambda>c. c \<noteq> CHR ''.'') m) = frac_digits (fl_frac l)"
    "filter is_digit m = no_sep (fl_int l) @ frac_digits (fl_frac l)" by auto
qed

lemma exp_parts:
  assumes "float_lit_ok l"
  shows "exp_part (no_sep (exp_text (fl_exp l))) = exp_value (fl_exp l)"
    "is_exp_char (char_at (no_sep (exp_text (fl_exp l))) 0) \<or> no_sep (exp_text (fl_exp l)) = []"
proof -
  have "exp_part (no_sep (exp_text (fl_exp l))) = exp_value (fl_exp l) \<and>
    (is_exp_char (char_at (no_sep (exp_text (fl_exp l))) 0) \<or> no_sep (exp_text (fl_exp l)) = [])"
  proof (cases "fl_exp l")
    case None
    then show ?thesis by (simp add: exp_text_def exp_value_def exp_part_def no_sep_def)
  next
    case (Some x)
    obtain c sign ds where x: "x = (c, sign, ds)" by (cases x)
    then have ok: "is_exp_char c" "sign \<in> {[], ''+'', ''-''}" "digit_run ds"
      using assms(1) Some by (auto simp: float_lit_ok_def is_exp_char_def)
    have c: "c \<noteq> CHR ''_''" using ok(1) by (auto simp: is_exp_char_def)
    obtain d t where d: "no_sep ds = d # t" "is_digit d" using run_digits [OF ok(3)] by (cases "no_sep ds") auto
    then have "d \<noteq> CHR ''-''" "d \<noteq> CHR ''+''" using not_digit_or_sep by auto
    moreover have "no_sep (exp_text (fl_exp l)) = c # sign @ no_sep ds"
      using Some x ok(2) c by (auto simp: exp_text_def no_sep_def)
    ultimately show ?thesis using Some x ok(1,2) d(1) by (auto simp: exp_part_def exp_value_def)
  qed
  then show "exp_part (no_sep (exp_text (fl_exp l))) = exp_value (fl_exp l)"
    "is_exp_char (char_at (no_sep (exp_text (fl_exp l))) 0) \<or> no_sep (exp_text (fl_exp l)) = []" by auto
qed

lemma ratio_scaled: "ratio (if 0 \<le> k then (v * 10 ^ nat k, 1) else (v, 10 ^ nat (- k))) = real v * 10 powi k"
  by (simp add: ratio_def power_int_def field_simps)

lemma dec_ratio_value:
  assumes "float_lit_ok l"
  shows "ratio (dec_ratio (no_sep (float_text l))) = float_value l"
proof -
  let ?m = "no_sep (fl_int l @ frac_text (fl_frac l))" and ?x = "no_sep (exp_text (fl_exp l))"
  let ?i = "no_sep (fl_int l)" and ?f = "frac_digits (fl_frac l)"
  have s: "no_sep (float_text l) = ?m @ ?x" by (simp add: float_text_def no_sep_append)
  have stop: "\<not> (\<not> is_exp_char (char_at ?x 0)) \<or> ?x = []" using exp_parts(2) [OF assms] by simp
  have tw: "takeWhile (\<lambda>c. \<not> is_exp_char c) (?m @ ?x) = ?m" "dropWhile (\<lambda>c. \<not> is_exp_char c) (?m @ ?x) = ?x"
    using takeWhile_stop [OF mantissa_parts(1) [OF assms] stop] dropWhile_stop [OF mantissa_parts(1) [OF assms] stop] .
  have "ratio (dec_ratio (no_sep (float_text l))) =
      real (dval 0 (?i @ ?f)) * 10 powi (exp_value (fl_exp l) - int (length ?f))"
    unfolding dec_ratio_def s tw mantissa_parts(2,3) [OF assms] exp_parts(1) [OF assms] Let_def by (rule ratio_scaled)
  also have "\<dots> = real (dval 0 (?i @ ?f)) / 10 ^ length ?f * 10 powi exp_value (fl_exp l)"
    by (simp add: power_int_diff)
  also have "real (dval 0 (?i @ ?f)) / 10 ^ length ?f = real (dval 0 ?i) + real (dval 0 ?f) / 10 ^ length ?f"
    using dval_shift [of "dval 0 ?i" ?f] by (simp add: add_divide_distrib)
  also have "real (dval 0 ?f) / 10 ^ length ?f =
      (case fl_frac l of None \<Rightarrow> 0 | Some f \<Rightarrow> real (dval 0 (no_sep f)) / 10 ^ length (no_sep f))"
    by (simp add: frac_digits_def split: option.split)
  also have "10 powi exp_value (fl_exp l) =
      (case fl_exp l of None \<Rightarrow> 1 | Some (c, sign, ds) \<Rightarrow>
          (if sign = ''-'' then 1 / 10 ^ dval 0 (no_sep ds) else 10 ^ dval 0 (no_sep ds) :: real))"
    by (simp add: exp_value_def power_int_minus divide_inverse split: option.split)
  finally show ?thesis by (simp add: float_value_def)
qed

section \<open>Properties\<close>

text \<open>The range of the literals: what rounds neither to zero, unless it is zero, nor to infinity.\<close>

definition float_in_range :: "real \<Rightarrow> bool" where
  "float_in_range x \<longleftrightarrow> x = 0 \<or> 2 powi - 1075 < x \<and> x < (2 ^ 53 - 1 / 2) * 2 powi 971"

lemma strtod_range:
  assumes "dec_ratio s = (n, d)"
  defines "nonzero \<equiv> list_ex (\<lambda>c. CHR ''1'' \<le> c \<and> c \<le> CHR ''9'') (takeWhile (\<lambda>c. \<not> is_exp_char c) s)"
  shows "float_in_range (ratio (n, d)) \<longleftrightarrow> strtod s \<noteq> F64_INF \<and> \<not> (strtod s = 0 \<and> nonzero)"
    "strtod s \<noteq> F64_INF \<Longrightarrow> nearest_even (ratio (n, d)) (strtod s)"
proof -
  have d: "0 < d" and nz: "0 < n \<longleftrightarrow> nonzero" using dec_ratio_pos [of s] by (auto simp: assms)
  have v: "strtod s = (if n = 0 then 0 else f64_round n d)" by (simp add: strtod_def assms(1))
  show "float_in_range (ratio (n, d)) \<longleftrightarrow> strtod s \<noteq> F64_INF \<and> \<not> (strtod s = 0 \<and> nonzero)"
  proof (cases "n = 0")
    case True
    then show ?thesis using nz v by (simp add: float_in_range_def ratio_def F64_INF_def)
  next
    case False
    then have "ratio (n, d) \<noteq> 0" using d by (simp add: ratio_def)
    then show ?thesis
      using False nz v f64_round_zero [of n d] f64_round_inf [of n d] d
      unfolding float_in_range_def by (auto simp: not_le)
  qed
  show "nearest_even (ratio (n, d)) (strtod s)" if inf: "strtod s \<noteq> F64_INF"
  proof (cases "n = 0")
    case True
    then show ?thesis using v by (auto simp: nearest_even_def ratio_def f64_val_def F64_INF_def)
  next
    case False
    have "f64_round n d \<le> F64_INF" by (simp add: f64_round_def Let_def split: prod.split)
    then have "f64_round n d < F64_INF" using inf v False by simp
    then show ?thesis using f64_round_nearest [of n d] False d v by simp
  qed
qed

text \<open>C36: a float literal (digits, then a fraction, an exponent or both, with separators inside the
  digits) is read as the \<open>double\<close> nearest to the number it stands for, exponent included, ties to
  even, and the lexer goes on right behind it. It is an error exactly when it is 400 characters
  or longer without its separators, or the number is not zero and rounds to zero or to infinity.\<close>

theorem lex_float_exact:
  assumes "float_lit_ok l" and "\<not> is_ident_char (char_at r 0)"
  shows "if length (no_sep (float_text l)) < 400 \<and> float_in_range (float_value l)
    then \<exists>t. lex_token line (float_text l @ r) = Inr (t, r) \<and> tk_type t = T_FLOAT \<and> tk_line t = line \<and>
           nearest_even (float_value l) (unat (tk_float_val t))
    else \<exists>msg. lex_token line (float_text l @ r) = Inl (Lex_Error line msg)"
proof -
  define s where "s = no_sep (float_text l)"
  obtain n d where nd: "dec_ratio s = (n, d)" by force
  have x: "float_value l = ratio (n, d)" using dec_ratio_value [OF assms(1)] by (simp add: nd flip: s_def)
  note range = strtod_range [OF nd]
  have unat: "unat (word_of_nat (strtod s) :: u64) = strtod s" if "nearest_even (ratio (n, d)) (strtod s)"
  proof -
    have "strtod s < 2 ^ 64" using that by (simp add: nearest_even_def F64_INF_def)
    then show ?thesis by (simp add: unat_of_nat)
  qed
  show ?thesis
    unfolding lex_token_float [OF assms] x lex_float_def Let_def no_sep_def [symmetric] s_def [symmetric]
    using range unat by auto
qed

theorem lex_float_exact_witness:
  "\<exists>t. lex_token 1 ''1_0.5e-1;'' = Inr (t, '';'') \<and> tk_type t = T_FLOAT \<and>
     nearest_even (105 / 100) (unat (tk_float_val t))"
proof -
  let ?l = "\<lparr>fl_int = ''1_0'', fl_frac = Some ''5'', fl_exp = Some (CHR ''e'', ''-'', ''1'')\<rparr>"
  have ok: "float_lit_ok ?l"
    by (simp add: float_lit_ok_def digit_run_def digit_or_sep_def char_class less_eq_char_def)
  have end': "\<not> is_ident_char (char_at '';'' 0)"
    by (simp add: is_ident_char_def char_class less_eq_char_def)
  have text_eq: "float_text ?l = ''1_0.5e-1''" by (simp add: float_text_def frac_text_def exp_text_def)
  have val: "float_value ?l = 105 / 100" by (simp add: float_value_def no_sep_def code_def)
  have "(2 :: real) powi - 1075 \<le> 2 powi 0" "(2 :: real) powi 0 \<le> 2 powi 971"
    by (rule power_int_increasing; simp)+
  then have "float_in_range (105 / 100)" unfolding float_in_range_def by (simp del: power_int_minus)
  moreover have "length (no_sep ''1_0.5e-1'') < 400" by (simp add: no_sep_def)
  ultimately show ?thesis using lex_float_exact [OF ok end', of 1] unfolding text_eq val by auto
qed

end
