(* ===== verification/Sl_Regex.thy ===== *)
theory Sl_Regex
  imports Prelude
begin

text \<open>
  The \<open>regex\<close> package (\<open>src/runtime/sl_regex.c\<close>): byte classes, the parser from pattern to tree,
  the emitter from tree to program, the Pike machine that runs a program over a subject, the
  first-byte filter, and the entry points.

  A node of the tree is a datatype value instead of a tagged struct. A parse error is the message
  with its offset. Allocation succeeds; the scratch block that a match claims is uninitialised
  memory, which the model passes in as arbitrary contents. Offsets, which the code keeps in
  \<open>int\<close>, are integers.
\<close>

section \<open>Limits, instructions, programs\<close>

definition SL_RX_MAX_INSTS :: nat where "SL_RX_MAX_INSTS = 4096"
definition SL_RX_MAX_DEPTH :: nat where "SL_RX_MAX_DEPTH = 100"
definition SL_RX_MAX_GROUPS :: nat where "SL_RX_MAX_GROUPS = 32"
definition SL_RX_MAX_REPEAT :: nat where "SL_RX_MAX_REPEAT = 1000"

datatype rx_op = RX_BYTE | RX_CLASS | RX_ANY | RX_ANYNL | RX_SPLIT | RX_JMP | RX_SAVE | RX_ASSERT | RX_MATCH

datatype rx_assert = RXA_BOL | RXA_EOL | RXA_BOT | RXA_EOT | RXA_WORDB | RXA_NWORDB

text \<open>The operand \<open>arg\<close> is a byte value, a save slot or an assertion, by the operation.\<close>

datatype rx_arg = Arg nat | Arg_Assert rx_assert

record sl_rx_inst =
  in_op :: rx_op
  in_arg :: rx_arg
  in_cls :: int
  in_x :: int
  in_y :: int

type_synonym sl_rx_class = "byte list"

record sl_rx =
  re_prog :: "sl_rx_inst list"
  re_classes :: "sl_rx_class list"
  re_ngroups :: nat
  re_nslots :: nat
  re_has_first :: bool
  re_first :: sl_rx_class
  re_anchored_start :: bool

section \<open>Byte classes\<close>

definition cls_empty :: sl_rx_class where
  "cls_empty = replicate 32 0"

definition sl_rx_cls_set :: "sl_rx_class \<Rightarrow> nat \<Rightarrow> sl_rx_class" where
  "sl_rx_cls_set c b =
     (let i = drop_bit 3 (b AND 0xff) in c[i := (c ! i) OR push_bit (b AND 7) 1])"

definition sl_rx_cls_has :: "sl_rx_class \<Rightarrow> nat \<Rightarrow> bool" where
  "sl_rx_cls_has c b \<longleftrightarrow> drop_bit (b AND 7) (c ! drop_bit 3 (b AND 0xff)) AND 1 = 1"

definition sl_rx_cls_negate :: "sl_rx_class \<Rightarrow> sl_rx_class" where
  "sl_rx_cls_negate c = map (\<lambda>b. NOT b) c"

definition sl_rx_is_word :: "nat \<Rightarrow> bool" where
  "sl_rx_is_word b \<longleftrightarrow> 97 \<le> b \<and> b \<le> 122 \<or> 65 \<le> b \<and> b \<le> 90 \<or> 48 \<le> b \<and> b \<le> 57 \<or> b = 95"

text \<open>The loops \<open>for (b ...) if (...) sl_rx_cls_set(&k, b)\<close>.\<close>

definition cls_add :: "sl_rx_class \<Rightarrow> nat list \<Rightarrow> sl_rx_class" where
  "cls_add c bs = fold (\<lambda>b c. sl_rx_cls_set c b) bs c"

definition is_space_byte :: "nat \<Rightarrow> bool" where
  "is_space_byte b \<longleftrightarrow> b = 32 \<or> b = 9 \<or> b = 10 \<or> b = 13 \<or> b = 12 \<or> b = 11"

text \<open>\<open>\d\<close>, \<open>\w\<close>, \<open>\s\<close> and their complements.\<close>

definition perl_class :: "char \<Rightarrow> sl_rx_class option" where
  "perl_class c =
     (if c = CHR ''d'' then Some (cls_add cls_empty [48..<58])
      else if c = CHR ''D'' then Some (sl_rx_cls_negate (cls_add cls_empty [48..<58]))
      else if c = CHR ''w'' then Some (cls_add cls_empty (filter sl_rx_is_word [0..<256]))
      else if c = CHR ''W'' then Some (sl_rx_cls_negate (cls_add cls_empty (filter sl_rx_is_word [0..<256])))
      else if c = CHR ''s'' then Some (cls_add cls_empty [32, 9, 10, 13, 12, 11])
      else if c = CHR ''S'' then Some (sl_rx_cls_negate (cls_add cls_empty [32, 9, 10, 13, 12, 11]))
      else None)"

section \<open>The parser\<close>

datatype sl_rx_node =
    N_EMPTY | N_BYTE nat | N_CLASS nat | N_ANY | N_ANYNL | N_CAT sl_rx_node sl_rx_node
  | N_ALT sl_rx_node sl_rx_node | N_STAR sl_rx_node bool | N_PLUS sl_rx_node bool
  | N_QUEST sl_rx_node bool | N_REP sl_rx_node nat "nat option" bool | N_GROUP nat sl_rx_node
  | N_ASSERT rx_assert

record sl_rx_parser =
  ps_i :: nat
  ps_depth :: nat
  ps_ngroups :: nat
  ps_cls :: "sl_rx_class list"

text \<open>A parse ends in an error, or in a value and the state of the parser.\<close>

type_synonym 'a rx_parse = "string + ('a \<times> sl_rx_parser)"

definition sl_rx_fail :: "nat \<Rightarrow> string \<Rightarrow> string" where
  "sl_rx_fail i msg = snprintf 160 (msg @ '' at offset '' @ dec i)"

definition class_node :: "sl_rx_class \<Rightarrow> sl_rx_parser \<Rightarrow> sl_rx_node \<times> sl_rx_parser" where
  "class_node k ps = (N_CLASS (length (ps_cls ps)), ps\<lparr>ps_cls := ps_cls ps @ [k]\<rparr>)"

definition hex_val :: "char \<Rightarrow> nat option" where
  "hex_val d =
     (if CHR ''0'' \<le> d \<and> d \<le> CHR ''9'' then Some (code d - 48)
      else if CHR ''a'' \<le> d \<and> d \<le> CHR ''f'' then Some (code d - 97 + 10)
      else if CHR ''A'' \<le> d \<and> d \<le> CHR ''F'' then Some (code d - 65 + 10)
      else None)"

text \<open>The escapes that stand for one byte, in a pattern and in a class alike.\<close>

definition byte_escape :: "char \<Rightarrow> nat option" where
  "byte_escape c = map_of [(CHR ''n'', 10), (CHR ''r'', 13), (CHR ''t'', 9), (CHR ''f'', 12),
     (CHR ''v'', 11), (CHR ''0'', 0)] c"

definition sl_rx_escape :: "string \<Rightarrow> sl_rx_parser \<Rightarrow> sl_rx_node rx_parse" where
  "sl_rx_escape p ps =
     (let i = ps_i ps in
      if i \<ge> length p then Inl (sl_rx_fail i ''trailing backslash'')
      else
        (let c = p ! i; i = i + 1; ps = ps\<lparr>ps_i := i\<rparr> in
         case perl_class c of
           Some k \<Rightarrow> Inr (class_node k ps)
         | None \<Rightarrow>
             if c = CHR ''b'' then Inr (N_ASSERT RXA_WORDB, ps)
             else if c = CHR ''B'' then Inr (N_ASSERT RXA_NWORDB, ps)
             else if c = CHR ''A'' then Inr (N_ASSERT RXA_BOT, ps)
             else if c = CHR ''z'' then Inr (N_ASSERT RXA_EOT, ps)
             else
               (case byte_escape c of
                  Some v \<Rightarrow> Inr (N_BYTE v, ps)
                | None \<Rightarrow>
                    if c = CHR ''x'' then
                      (if i + 1 \<ge> length p then Inl (sl_rx_fail i (''truncated '' @ [CHR 0x5C] @ ''x escape''))
                       else
                         (case (hex_val (p ! i), hex_val (p ! (i + 1))) of
                            (Some h, Some l) \<Rightarrow> Inr (N_BYTE (h * 16 + l), ps\<lparr>ps_i := i + 2\<rparr>)
                          | _ \<Rightarrow> Inl (sl_rx_fail i (''bad hex in '' @ [CHR 0x5C] @ ''x escape''))))
                    else if is_alpha c then Inl (sl_rx_fail i ''unsupported escape'')
                    else Inr (N_BYTE (code c), ps))))"

text \<open>The named classes inside brackets, tested by name in the order of the code.\<close>

definition posix_class :: "string \<Rightarrow> (nat \<Rightarrow> bool) option" where
  "posix_class nm =
     (let lower = (\<lambda>b. 97 \<le> b \<and> b \<le> 122); upper = (\<lambda>b. 65 \<le> b \<and> b \<le> 90); digit = (\<lambda>b. 48 \<le> b \<and> b \<le> 57)
      in if nm = ''digit'' then Some digit
         else if nm = ''alpha'' then Some (\<lambda>b. lower b \<or> upper b)
         else if nm = ''alnum'' then Some (\<lambda>b. lower b \<or> upper b \<or> digit b)
         else if nm = ''space'' then Some is_space_byte
         else if nm = ''upper'' then Some upper
         else if nm = ''lower'' then Some lower
         else if nm = ''punct'' then Some (\<lambda>b. 33 < b \<and> b < 127 \<and> \<not> (lower b \<or> upper b \<or> digit b))
         else if nm = ''xdigit'' then Some (\<lambda>b. digit b \<or> 97 \<le> b \<and> b \<le> 102 \<or> 65 \<le> b \<and> b \<le> 70)
         else None)"

text \<open>
  One round of the loop over a bracket: a named class, an escaped class, or a byte or range. The
  result is the new cursor and the class so far.
\<close>

definition bracket_named :: "string \<Rightarrow> nat \<Rightarrow> sl_rx_class \<Rightarrow> (string + nat \<times> sl_rx_class) option" where
  "bracket_named p i k =
     (if p ! i = CHR ''['' \<and> i + 1 < length p \<and> p ! (i + 1) = CHR '':''
      then (case strstr (drop (i + 2) p) '':]'' of
              None \<Rightarrow> None
            | Some len \<Rightarrow>
                if len < 16
                then Some (case posix_class (take len (drop (i + 2) p)) of
                       None \<Rightarrow> Inl (sl_rx_fail i ''unknown POSIX class'')
                     | Some f \<Rightarrow> Inr (i + 2 + len + 2, cls_add k (filter f [0..<256])))
                else None)
      else None)"

text \<open>The lower end of a range or a byte alone: the value and the cursor behind it.\<close>

definition bracket_byte :: "string \<Rightarrow> nat \<Rightarrow> string + nat \<times> nat" where
  "bracket_byte p i =
     (if p ! i = CHR 0x5C then
        (let i = i + 1 in
         if i \<ge> length p then Inl (sl_rx_fail i ''trailing backslash in class'')
         else
           (case byte_escape (p ! i) of
              Some v \<Rightarrow> Inr (v, i + 1)
            | None \<Rightarrow>
                if p ! i = CHR ''x'' then
                  (if i + 2 \<ge> length p then Inl (sl_rx_fail i (''truncated '' @ [CHR 0x5C] @ ''x escape''))
                   else
                     (case (hex_val (p ! (i + 1)), hex_val (p ! (i + 2))) of
                        (Some h, Some l) \<Rightarrow> Inr (h * 16 + l, i + 3)
                      | _ \<Rightarrow> Inl (sl_rx_fail i (''bad hex in '' @ [CHR 0x5C] @ ''x escape''))))
                else Inr (code (p ! i), i + 1)))
      else Inr (code (p ! i), i + 1))"

definition bracket_range :: "string \<Rightarrow> nat \<Rightarrow> nat \<Rightarrow> sl_rx_class \<Rightarrow> string + nat \<times> sl_rx_class" where
  "bracket_range p lo i k =
     (if i + 1 < length p \<and> p ! i = CHR ''-'' \<and> p ! (i + 1) \<noteq> CHR '']''
      then
        (let i = i + 1;
             j = (if p ! i = CHR 0x5C then i + 1 else i)
         in if j \<ge> length p then Inl (sl_rx_fail j ''trailing backslash in class'')
            else if code (p ! j) < lo then Inl (sl_rx_fail (j + 1) ''reversed range in class'')
            else Inr (j + 1, cls_add k [lo..<code (p ! j) + 1]))
      else Inr (i, sl_rx_cls_set k lo))"

definition bracket_item :: "string \<Rightarrow> nat \<Rightarrow> sl_rx_class \<Rightarrow> string + nat \<times> sl_rx_class" where
  "bracket_item p i k =
     (case bracket_named p i k of
        Some r \<Rightarrow> r
      | None \<Rightarrow>
          (case (if p ! i = CHR 0x5C \<and> i + 1 < length p then perl_class (p ! (i + 1)) else None) of
             Some sub \<Rightarrow> Inr (i + 2, cls_add k (filter (sl_rx_cls_has sub) [0..<256]))
           | None \<Rightarrow>
               (case bracket_byte p i of
                  Inl e \<Rightarrow> Inl e
                | Inr (lo, j) \<Rightarrow> bracket_range p lo j k)))"

lemma bracket_byte_less: "bracket_byte p i = Inr (lo, j) \<Longrightarrow> i < j"
  by (auto simp: bracket_byte_def Let_def split: if_splits option.splits)

lemma bracket_range_le: "bracket_range p lo i k = Inr (j, k') \<Longrightarrow> i \<le> j"
  by (auto simp: bracket_range_def Let_def split: if_splits)

lemma bracket_item_less: "bracket_item p i k = Inr (j, k') \<Longrightarrow> i < j"
  by (auto simp: bracket_item_def bracket_named_def
      dest!: bracket_byte_less bracket_range_le split: option.splits sum.splits if_splits)

function bracket_loop :: "string \<Rightarrow> nat \<Rightarrow> bool \<Rightarrow> bool \<Rightarrow> sl_rx_class \<Rightarrow> string + nat \<times> bool \<times> sl_rx_class" where
  "bracket_loop p i first any k =
     (if i < length p \<and> (p ! i \<noteq> CHR '']'' \<or> first)
      then (case bracket_item p i k of
              Inl e \<Rightarrow> Inl e
            | Inr (j, k') \<Rightarrow> bracket_loop p j False True k')
      else Inr (i, any, k))"
  by pat_completeness auto

termination
  by (relation "measure (\<lambda>(p, i, _). length p - i)") (auto dest: bracket_item_less)

declare bracket_loop.simps [simp del]

definition sl_rx_bracket :: "string \<Rightarrow> sl_rx_parser \<Rightarrow> sl_rx_node rx_parse" where
  "sl_rx_bracket p ps =
     (let i = ps_i ps;
          neg = (i < length p \<and> p ! i = CHR ''^'')
      in case bracket_loop p (if neg then i + 1 else i) True False cls_empty of
           Inl e \<Rightarrow> Inl e
         | Inr (i, any, k) \<Rightarrow>
             if i \<ge> length p \<or> p ! i \<noteq> CHR '']'' then Inl (sl_rx_fail i ''missing ]'')
             else if \<not> any then Inl (sl_rx_fail (i + 1) ''empty character class'')
             else Inr (class_node (if neg then sl_rx_cls_negate k else k) (ps\<lparr>ps_i := i + 1\<rparr>)))"

text \<open>The digits of a repetition count: the loop stops when the count passes the limit.\<close>

function count_digits :: "string \<Rightarrow> nat \<Rightarrow> nat \<Rightarrow> bool \<Rightarrow> nat \<times> nat \<times> bool" where
  "count_digits p j lo saw =
     (if j < length p \<and> CHR ''0'' \<le> p ! j \<and> p ! j \<le> CHR ''9''
      then (let lo = lo * 10 + (code (p ! j) - 48) in
            if lo > SL_RX_MAX_REPEAT then (j + 1, lo, True) else count_digits p (j + 1) lo True)
      else (j, lo, saw))"
  by pat_completeness auto

termination
  by (relation "measure (\<lambda>(p, j, _). length p - j)") auto

declare count_digits.simps [simp del]

text \<open>A quantifier at the cursor: none, an error, or its node and the cursor behind it.\<close>

definition rx_braces :: "string \<Rightarrow> nat \<Rightarrow> (string + (nat \<times> nat option) \<times> nat) option" where
  "rx_braces p i =
     (let (j, lo, sawlo) = count_digits p (i + 1) 0 False;
          sawcomma = (j < length p \<and> p ! j = CHR '','');
          (j, h, sawhi) = (if sawcomma then count_digits p (j + 1) 0 False else (j, 0, False))
      in if \<not> sawlo \<or> j \<ge> length p \<or> p ! j \<noteq> CHR ''}'' then None
         else if lo > SL_RX_MAX_REPEAT \<or> sawhi \<and> h > SL_RX_MAX_REPEAT
         then Some (Inl (sl_rx_fail i ''repetition count too large''))
         else if sawcomma \<and> sawhi \<and> h < lo then Some (Inl (sl_rx_fail i ''reversed repetition range''))
         else Some (Inr ((lo, if sawcomma then (if sawhi then Some h else None) else Some lo), j + 1)))"

definition rx_quantifier :: "string \<Rightarrow> nat \<Rightarrow> (string + (sl_rx_node \<Rightarrow> bool \<Rightarrow> sl_rx_node) \<times> nat) option" where
  "rx_quantifier p i =
     (let c = p ! i in
      if c = CHR ''*'' then Some (Inr (N_STAR, i + 1))
      else if c = CHR ''+'' then Some (Inr (N_PLUS, i + 1))
      else if c = CHR ''?'' then Some (Inr (N_QUEST, i + 1))
      else if c = CHR ''{'' then
        (case rx_braces p i of
           None \<Rightarrow> None
         | Some (Inl e) \<Rightarrow> Some (Inl e)
         | Some (Inr ((lo, hi), j)) \<Rightarrow> Some (Inr (\<lambda>a g. N_REP a lo hi g, j)))
      else None)"

lemma count_digits_le: "count_digits p j lo saw = (j', lo', saw') \<Longrightarrow> j \<le> j'"
proof (induction p j lo saw rule: count_digits.induct)
  case (1 p j lo saw)
  then show ?case
    by (subst (asm) count_digits.simps [of p j lo saw]) (auto simp: Let_def split: if_splits dest: Suc_leD)
qed

lemma rx_quantifier_less: "rx_quantifier p i = Some (Inr (f, j)) \<Longrightarrow> i < j"
  by (auto simp: rx_quantifier_def rx_braces_def Let_def
      dest!: count_digits_le split: if_splits option.splits sum.splits prod.splits)

function repeat_loop :: "string \<Rightarrow> sl_rx_node \<Rightarrow> sl_rx_parser \<Rightarrow> sl_rx_node rx_parse" where
  "repeat_loop p a ps =
     (if ps_i ps \<ge> length p then Inr (a, ps)
      else
        (case rx_quantifier p (ps_i ps) of
           None \<Rightarrow> Inr (a, ps)
         | Some (Inl e) \<Rightarrow> Inl e
         | Some (Inr (f, j)) \<Rightarrow>
             if (case a of N_ASSERT _ \<Rightarrow> True | _ \<Rightarrow> False)
             then Inl (sl_rx_fail j ''cannot repeat a zero-width assertion'')
             else
               (let lazy = (j < length p \<and> p ! j = CHR ''?'')
                in repeat_loop p (f a (\<not> lazy)) (ps\<lparr>ps_i := (if lazy then j + 1 else j)\<rparr>))))"
  by pat_completeness auto

termination
  by (relation "measure (\<lambda>(p, _, ps). length p - ps_i ps)") (auto dest!: rx_quantifier_less)

declare repeat_loop.simps [simp del]

text \<open>The right-deep spines of concatenations and alternatives.\<close>

fun fold_right :: "(sl_rx_node \<Rightarrow> sl_rx_node \<Rightarrow> sl_rx_node) \<Rightarrow> sl_rx_node list \<Rightarrow> sl_rx_node" where
  "fold_right f [] = N_EMPTY"
| "fold_right f [x] = x"
| "fold_right f (x # y # xs) = f x (fold_right f (y # xs))"

text \<open>
  The four functions call each other only through the group of an atom, so each is written over
  the function that parses the inside of a group. The loops over alternatives and over items have
  as fuel the number of their rounds, one more than the length of the pattern; the fuel of
  \<open>sl_rx_parse_alt\<close> is the depth of its recursion, which \<open>SL_RX_MAX_DEPTH\<close> bounds.
\<close>

definition sl_rx_parse_atom ::
  "(sl_rx_parser \<Rightarrow> sl_rx_node rx_parse option) \<Rightarrow> string \<Rightarrow> sl_rx_parser \<Rightarrow> sl_rx_node rx_parse option" where
  "sl_rx_parse_atom alt p ps =
     (let i = ps_i ps in
      if i \<ge> length p then Some (Inr (N_EMPTY, ps))
      else
        (let c = p ! i; next = ps\<lparr>ps_i := i + 1\<rparr> in
         if c = CHR ''('' then
           (let capturing = (\<not> (i + 2 < length p \<and> p ! (i + 1) = CHR ''?'' \<and> p ! (i + 2) = CHR '':''))
            in if capturing \<and> i + 1 < length p \<and> p ! (i + 1) = CHR ''?''
               then Some (Inl (sl_rx_fail (i + 1) (''unsupported group syntax (only (?:...) is allowed; '' @
                      ''lookaround is not supported by this engine)'')))
               else if capturing \<and> ps_ngroups ps \<ge> SL_RX_MAX_GROUPS
               then Some (Inl (sl_rx_fail (i + 1) ''too many capture groups''))
               else
                 (let gnum = (if capturing then ps_ngroups ps + 1 else ps_ngroups ps);
                      ps = ps\<lparr>ps_i := (if capturing then i + 1 else i + 3), ps_ngroups := gnum,
                              ps_depth := ps_depth ps + 1\<rparr>
                  in if ps_depth ps > SL_RX_MAX_DEPTH
                     then Some (Inl (sl_rx_fail (ps_i ps) ''pattern nested too deeply''))
                     else
                       (case alt ps of
                          None \<Rightarrow> None
                        | Some (Inl e) \<Rightarrow> Some (Inl e)
                        | Some (Inr (inner, ps)) \<Rightarrow>
                            if ps_i ps \<ge> length p \<or> p ! ps_i ps \<noteq> CHR '')''
                            then Some (Inl (sl_rx_fail (ps_i ps) ''missing )''))
                            else Some (Inr (if capturing then N_GROUP gnum inner else inner,
                                            ps\<lparr>ps_i := ps_i ps + 1, ps_depth := ps_depth ps - 1\<rparr>)))))
         else if c = CHR ''['' then Some (sl_rx_bracket p next)
         else if c = CHR ''.'' then Some (Inr (N_ANY, next))
         else if c = CHR ''^'' then Some (Inr (N_ASSERT RXA_BOL, next))
         else if c = CHR ''$'' then Some (Inr (N_ASSERT RXA_EOL, next))
         else if c = CHR 0x5C then Some (sl_rx_escape p next)
         else if c = CHR '')'' then Some (Inr (N_EMPTY, ps))
         else if c = CHR ''*'' \<or> c = CHR ''+'' \<or> c = CHR ''?''
         then Some (Inl (sl_rx_fail i ''nothing to repeat''))
         else Some (Inr (N_BYTE (code c), next))))"

definition sl_rx_parse_repeat ::
  "(sl_rx_parser \<Rightarrow> sl_rx_node rx_parse option) \<Rightarrow> string \<Rightarrow> sl_rx_parser \<Rightarrow> sl_rx_node rx_parse option" where
  "sl_rx_parse_repeat alt p ps =
     (case sl_rx_parse_atom alt p ps of
        None \<Rightarrow> None
      | Some (Inl e) \<Rightarrow> Some (Inl e)
      | Some (Inr (a, ps)) \<Rightarrow> Some (repeat_loop p a ps))"

fun cat_items ::
  "(sl_rx_parser \<Rightarrow> sl_rx_node rx_parse option) \<Rightarrow> string \<Rightarrow> nat \<Rightarrow> sl_rx_parser \<Rightarrow> sl_rx_node list rx_parse option" where
  "cat_items alt p 0 ps = None"
| "cat_items alt p (Suc rounds) ps =
     (if ps_i ps < length p \<and> p ! ps_i ps \<noteq> CHR ''|'' \<and> p ! ps_i ps \<noteq> CHR '')''
      then (case sl_rx_parse_repeat alt p ps of
              None \<Rightarrow> None
            | Some (Inl e) \<Rightarrow> Some (Inl e)
            | Some (Inr (r, ps)) \<Rightarrow> map_option (map_sum id (map_prod (Cons r) id)) (cat_items alt p rounds ps))
      else Some (Inr ([], ps)))"

definition sl_rx_parse_cat ::
  "(sl_rx_parser \<Rightarrow> sl_rx_node rx_parse option) \<Rightarrow> string \<Rightarrow> sl_rx_parser \<Rightarrow> sl_rx_node rx_parse option" where
  "sl_rx_parse_cat alt p ps =
     map_option (map_sum id (map_prod (fold_right N_CAT) id)) (cat_items alt p (Suc (length p)) ps)"

fun alt_items ::
  "(sl_rx_parser \<Rightarrow> sl_rx_node rx_parse option) \<Rightarrow> string \<Rightarrow> nat \<Rightarrow> sl_rx_parser \<Rightarrow> sl_rx_node list rx_parse option" where
  "alt_items alt p 0 ps = None"
| "alt_items alt p (Suc rounds) ps =
     (case sl_rx_parse_cat alt p ps of
        None \<Rightarrow> None
      | Some (Inl e) \<Rightarrow> Some (Inl e)
      | Some (Inr (c, ps)) \<Rightarrow>
          if ps_i ps < length p \<and> p ! ps_i ps = CHR ''|''
          then map_option (map_sum id (map_prod (Cons c) id)) (alt_items alt p rounds (ps\<lparr>ps_i := ps_i ps + 1\<rparr>))
          else Some (Inr ([c], ps)))"

fun sl_rx_parse_alt :: "nat \<Rightarrow> string \<Rightarrow> sl_rx_parser \<Rightarrow> sl_rx_node rx_parse option" where
  "sl_rx_parse_alt 0 p ps = None"
| "sl_rx_parse_alt (Suc depth) p ps =
     map_option (map_sum id (map_prod (fold_right N_ALT) id))
       (alt_items (\<lambda>ps. sl_rx_parse_alt depth p ps) p (Suc (length p)) ps)"

section \<open>The emitter\<close>

record sl_rx_emit_ctx =
  ec_prog :: "sl_rx_inst list"
  ec_failed :: bool

text \<open>\<open>emit1\<close> answers the index of the new instruction, and 0 once it has failed.\<close>

definition new_inst :: "rx_op \<Rightarrow> rx_arg \<Rightarrow> int \<Rightarrow> sl_rx_inst" where
  "new_inst opc arg cls = \<lparr>in_op = opc, in_arg = arg, in_cls = cls, in_x = - 1, in_y = - 1\<rparr>"

definition sl_rx_emit1 :: "rx_op \<Rightarrow> rx_arg \<Rightarrow> int \<Rightarrow> sl_rx_emit_ctx \<Rightarrow> nat \<times> sl_rx_emit_ctx" where
  "sl_rx_emit1 opc arg cls ec =
     (if ec_failed ec then (0, ec)
      else if length (ec_prog ec) \<ge> SL_RX_MAX_INSTS then (0, ec\<lparr>ec_failed := True\<rparr>)
      else (length (ec_prog ec), ec\<lparr>ec_prog := ec_prog ec @ [new_inst opc arg cls]\<rparr>))"

text \<open>\<open>ec->prog[i].x = v\<close> and \<open>.y = v\<close>; \<open>ec->n\<close>.\<close>

definition patch_x :: "nat \<Rightarrow> int \<Rightarrow> sl_rx_emit_ctx \<Rightarrow> sl_rx_emit_ctx" where
  "patch_x i v ec = ec\<lparr>ec_prog := (ec_prog ec)[i := (ec_prog ec ! i)\<lparr>in_x := v\<rparr>]\<rparr>"

definition patch_y :: "nat \<Rightarrow> int \<Rightarrow> sl_rx_emit_ctx \<Rightarrow> sl_rx_emit_ctx" where
  "patch_y i v ec = ec\<lparr>ec_prog := (ec_prog ec)[i := (ec_prog ec ! i)\<lparr>in_y := v\<rparr>]\<rparr>"

definition ec_n :: "sl_rx_emit_ctx \<Rightarrow> int" where
  "ec_n ec = int (length (ec_prog ec))"

definition patch_split :: "nat \<Rightarrow> bool \<Rightarrow> int \<Rightarrow> sl_rx_emit_ctx \<Rightarrow> sl_rx_emit_ctx" where
  "patch_split sp greedy start ec =
     (if greedy then patch_y sp (ec_n ec) (patch_x sp start ec)
      else patch_y sp start (patch_x sp (ec_n ec) ec))"

text \<open>One star over a subtree, whose emitter is given.\<close>

definition sl_rx_emit_star :: "(sl_rx_emit_ctx \<Rightarrow> sl_rx_emit_ctx) \<Rightarrow> bool \<Rightarrow> sl_rx_emit_ctx \<Rightarrow> sl_rx_emit_ctx" where
  "sl_rx_emit_star body greedy ec =
     (let (sp, ec) = sl_rx_emit1 RX_SPLIT (Arg 0) (- 1) ec;
          start = ec_n ec;
          ec = body ec;
          (_, ec) = sl_rx_emit1 RX_JMP (Arg 0) (- 1) ec
      in if ec_failed ec then ec
         else patch_split sp greedy start (patch_x (length (ec_prog ec) - 1) (int sp) ec))"

text \<open>The optional copies of \<open>{n,m}\<close>: their splits are collected, and patched at the end.\<close>

fun rep_opts :: "(sl_rx_emit_ctx \<Rightarrow> sl_rx_emit_ctx) \<Rightarrow> nat \<Rightarrow> sl_rx_emit_ctx \<Rightarrow> nat list \<times> sl_rx_emit_ctx" where
  "rep_opts body 0 ec = ([], ec)"
| "rep_opts body (Suc k) ec =
     (if ec_failed ec then ([], ec)
      else
        (let (sp, ec) = sl_rx_emit1 RX_SPLIT (Arg 0) (- 1) ec in
         if ec_failed ec then ([], ec)
         else
           (let ec = body (patch_x sp (ec_n ec) ec);
                (sps, ec) = rep_opts body k ec
            in (sp # sps, ec))))"

definition patch_opt :: "bool \<Rightarrow> nat \<Rightarrow> sl_rx_emit_ctx \<Rightarrow> sl_rx_emit_ctx" where
  "patch_opt greedy sp ec =
     (if greedy then patch_y sp (ec_n ec) ec
      else patch_x sp (ec_n ec) (patch_y sp (in_x (ec_prog ec ! sp)) ec))"

fun rep_copies :: "(sl_rx_emit_ctx \<Rightarrow> sl_rx_emit_ctx) \<Rightarrow> nat \<Rightarrow> sl_rx_emit_ctx \<Rightarrow> sl_rx_emit_ctx" where
  "rep_copies body 0 ec = ec"
| "rep_copies body (Suc k) ec = (if ec_failed ec then ec else rep_copies body k (body ec))"

definition emit_rep :: "(sl_rx_emit_ctx \<Rightarrow> sl_rx_emit_ctx) \<Rightarrow> nat \<Rightarrow> nat option \<Rightarrow> bool \<Rightarrow> sl_rx_emit_ctx \<Rightarrow> sl_rx_emit_ctx" where
  "emit_rep body rmin rmax greedy ec =
     (let ec = rep_copies body rmin ec in
      case rmax of
        None \<Rightarrow> sl_rx_emit_star body greedy ec
      | Some m \<Rightarrow>
          (let (sps, ec) = rep_opts body (m - rmin) ec
           in if ec_failed ec then ec else fold (patch_opt greedy) sps ec))"

function (sequential) sl_rx_emit :: "sl_rx_node \<Rightarrow> sl_rx_emit_ctx \<Rightarrow> sl_rx_emit_ctx"
and emit_alts :: "sl_rx_node \<Rightarrow> sl_rx_emit_ctx \<Rightarrow> nat list \<times> sl_rx_emit_ctx"
where
  "sl_rx_emit N_EMPTY ec = ec"
| "sl_rx_emit (N_BYTE v) ec = snd (sl_rx_emit1 RX_BYTE (Arg (v mod 256)) (- 1) ec)"
| "sl_rx_emit (N_CLASS i) ec = snd (sl_rx_emit1 RX_CLASS (Arg 0) (int i) ec)"
| "sl_rx_emit N_ANY ec = snd (sl_rx_emit1 RX_ANY (Arg 0) (- 1) ec)"
| "sl_rx_emit N_ANYNL ec = snd (sl_rx_emit1 RX_ANYNL (Arg 0) (- 1) ec)"
| "sl_rx_emit (N_ASSERT k) ec = snd (sl_rx_emit1 RX_ASSERT (Arg_Assert k) (- 1) ec)"
| "sl_rx_emit (N_GROUP g a) ec =
     (let ec = snd (sl_rx_emit1 RX_SAVE (Arg (2 * g mod 256)) (- 1) ec);
          ec = sl_rx_emit a ec
      in snd (sl_rx_emit1 RX_SAVE (Arg ((2 * g + 1) mod 256)) (- 1) ec))"
| "sl_rx_emit (N_CAT a b) ec = sl_rx_emit b (sl_rx_emit a ec)"
| "sl_rx_emit (N_ALT a b) ec =
     (let (ends, ec) = emit_alts (N_ALT a b) ec
      in if ec_failed ec then ec else fold (\<lambda>j ec. patch_x j (ec_n ec) ec) ends ec)"
| "sl_rx_emit (N_QUEST a greedy) ec =
     (let (sp, ec) = sl_rx_emit1 RX_SPLIT (Arg 0) (- 1) ec;
          start = ec_n ec;
          ec = sl_rx_emit a ec
      in if ec_failed ec then ec else patch_split sp greedy start ec)"
| "sl_rx_emit (N_STAR a greedy) ec = sl_rx_emit_star (\<lambda>ec. sl_rx_emit a ec) greedy ec"
| "sl_rx_emit (N_PLUS a greedy) ec =
     (let start = ec_n ec;
          ec = sl_rx_emit a ec;
          (sp, ec) = sl_rx_emit1 RX_SPLIT (Arg 0) (- 1) ec
      in if ec_failed ec then ec else patch_split sp greedy start ec)"
| "sl_rx_emit (N_REP a rmin rmax greedy) ec = emit_rep (\<lambda>ec. sl_rx_emit a ec) rmin rmax greedy ec"
| "emit_alts (N_ALT a b) ec =
     (if ec_failed ec then ([], ec)
      else
        (let (sp, ec) = sl_rx_emit1 RX_SPLIT (Arg 0) (- 1) ec in
         if ec_failed ec then ([], ec)
         else
           (let ec = sl_rx_emit a (patch_x sp (ec_n ec) ec);
                (j, ec) = sl_rx_emit1 RX_JMP (Arg 0) (- 1) ec
            in if ec_failed ec then ([], ec)
               else
                 (let (ends, ec) = emit_alts b (patch_y sp (ec_n ec) ec)
                  in (j # ends, ec)))))"
| "emit_alts nd ec = ([], sl_rx_emit nd ec)"
  by pat_completeness auto

termination
  by (relation "measure (\<lambda>x. case x of
        Inl (nd, _) \<Rightarrow> 3 * size nd + (case nd of N_ALT _ _ \<Rightarrow> 2 | _ \<Rightarrow> 0)
      | Inr (nd, _) \<Rightarrow> 3 * size nd + 1)")
    (auto split: sl_rx_node.split)

section \<open>The machine\<close>

text \<open>
  A list of threads: the sparse set over program counters (\<open>sparse\<close> is never cleared and starts
  as whatever memory held), the capture slots parallel to \<open>dense\<close>, and the indices into \<open>dense\<close>
  of the threads that can consume a byte or match. The list \<open>dense\<close> stands for the array up to
  \<open>ndense\<close>, which is all the code reads of it.
\<close>

record sl_rx_list =
  rl_sparse :: "nat \<Rightarrow> int"
  rl_dense :: "nat list"
  rl_caps :: "nat \<Rightarrow> int list"
  rl_tl :: "nat list"

datatype sl_rx_work = RXW_VISIT int | RXW_RESTORE nat int

definition rl_reset :: "sl_rx_list \<Rightarrow> sl_rx_list" where
  "rl_reset l = l\<lparr>rl_dense := [], rl_tl := []\<rparr>"

definition rl_has :: "sl_rx_list \<Rightarrow> nat \<Rightarrow> bool" where
  "rl_has l pc \<longleftrightarrow>
     (let si = rl_sparse l pc in
      0 \<le> si \<and> si < int (length (rl_dense l)) \<and> rl_dense l ! nat si = pc)"

definition rl_add :: "sl_rx_list \<Rightarrow> nat \<Rightarrow> sl_rx_list" where
  "rl_add l pc =
     l\<lparr>rl_sparse := (rl_sparse l)(pc := int (length (rl_dense l))), rl_dense := rl_dense l @ [pc]\<rparr>"

definition sl_rx_assert_ok :: "rx_assert \<Rightarrow> sl_bytes \<Rightarrow> nat \<Rightarrow> bool" where
  "sl_rx_assert_ok kind s pos =
     (let prv = (if 0 < pos then Some (unat (s ! (pos - 1))) else None);
          nxt = (if pos < length s then Some (unat (s ! pos)) else None);
          word = (\<lambda>b. case b of None \<Rightarrow> False | Some b \<Rightarrow> sl_rx_is_word b)
      in case kind of
           RXA_BOT \<Rightarrow> pos = 0
         | RXA_EOT \<Rightarrow> pos = length s
         | RXA_BOL \<Rightarrow> pos = 0 \<or> prv = Some 10
         | RXA_EOL \<Rightarrow> pos = length s \<or> nxt = Some 10
         | RXA_WORDB \<Rightarrow> word prv \<noteq> word nxt
         | RXA_NWORDB \<Rightarrow> word prv = word nxt)"

text \<open>A push of entries, the next to be popped first, is dropped when the stack has no room.\<close>

definition rx_push :: "nat \<Rightarrow> sl_rx_work list \<Rightarrow> sl_rx_work list \<Rightarrow> sl_rx_work list" where
  "rx_push maxstk ws stk = (if length stk + length ws > maxstk then stk else ws @ stk)"

definition arg_nat :: "rx_arg \<Rightarrow> nat" where
  "arg_nat a = (case a of Arg n \<Rightarrow> n | Arg_Assert _ \<Rightarrow> 0)"

definition arg_assert :: "rx_arg \<Rightarrow> rx_assert" where
  "arg_assert a = (case a of Arg_Assert k \<Rightarrow> k | Arg _ \<Rightarrow> RXA_BOL)"

text \<open>The conversion \<open>(int)pos\<close> of an offset: the offset itself below \<open>2 ^ 31\<close>, wrapped from there on.\<close>

definition rx_int :: "nat \<Rightarrow> int" where
  "rx_int pos = signed_take_bit 31 (int pos)"

text \<open>What a visit to the instruction at \<open>pc\<close>, just added to the list, does.\<close>

definition rx_visit ::
  "sl_rx \<Rightarrow> nat \<Rightarrow> sl_bytes \<Rightarrow> nat \<Rightarrow> nat \<Rightarrow> sl_rx_list \<Rightarrow> int list \<Rightarrow> sl_rx_work list \<Rightarrow> sl_rx_list \<times> int list \<times> sl_rx_work list" where
  "rx_visit re nslots s pos pc l w stk =
     (let ins = re_prog re ! pc;
          maxstk = 2 * length (re_prog re) + 8;
          go = (l, w, rx_push maxstk [RXW_VISIT (int pc + 1)] stk)
      in case in_op ins of
           RX_JMP \<Rightarrow> (l, w, rx_push maxstk [RXW_VISIT (in_x ins)] stk)
         | RX_SPLIT \<Rightarrow> (l, w, rx_push maxstk [RXW_VISIT (in_x ins), RXW_VISIT (in_y ins)] stk)
         | RX_SAVE \<Rightarrow>
             (let sl = arg_nat (in_arg ins) in
              if nslots = 0 then go
              else if sl < nslots
              then (if length stk + 2 > maxstk then (l, w, stk)
                    else (l, w[sl := rx_int pos], [RXW_VISIT (int pc + 1), RXW_RESTORE sl (w ! sl)] @ stk))
              else go)
         | RX_ASSERT \<Rightarrow> if sl_rx_assert_ok (arg_assert (in_arg ins)) s pos then go else (l, w, stk)
         | _ \<Rightarrow>
             (let idx = length (rl_dense l) - 1;
                  l = (if nslots = 0 then l else l\<lparr>rl_caps := (rl_caps l)(idx := w)\<rparr>)
              in (l\<lparr>rl_tl := rl_tl l @ [idx]\<rparr>, w, stk)))"

definition addthread_step ::
  "sl_rx \<Rightarrow> nat \<Rightarrow> sl_bytes \<Rightarrow> nat \<Rightarrow> sl_rx_work \<Rightarrow> sl_rx_list \<Rightarrow> int list \<Rightarrow> sl_rx_work list \<Rightarrow> sl_rx_list \<times> int list \<times> sl_rx_work list" where
  "addthread_step re nslots s pos e l w stk =
     (case e of
        RXW_RESTORE slot old \<Rightarrow> (l, w[slot := old], stk)
      | RXW_VISIT pc \<Rightarrow>
          if pc < 0 \<or> pc \<ge> int (length (re_prog re)) then (l, w, stk)
          else if rl_has l (nat pc) then (l, w, stk)
          else rx_visit re nslots s pos (nat pc) (rl_add l (nat pc)) w stk)"

text \<open>
  The closure loop. The fuel is a count of its rounds, handed from call to call, so that the
  fuel a whole match needs is the work it does.
\<close>

fun addthread_loop ::
  "sl_rx \<Rightarrow> nat \<Rightarrow> sl_bytes \<Rightarrow> nat \<Rightarrow> nat \<Rightarrow> sl_rx_list \<Rightarrow> int list \<Rightarrow> sl_rx_work list \<Rightarrow> (nat \<times> sl_rx_list \<times> int list) option" where
  "addthread_loop re nslots s pos fuel l w [] = Some (fuel, l, w)"
| "addthread_loop re nslots s pos 0 l w (e # stk) = None"
| "addthread_loop re nslots s pos (Suc fuel) l w (e # stk) =
     (case addthread_step re nslots s pos e l w stk of
        (l, w, stk) \<Rightarrow> addthread_loop re nslots s pos fuel l w stk)"

definition sl_rx_addthread ::
  "sl_rx \<Rightarrow> nat \<Rightarrow> sl_bytes \<Rightarrow> nat \<Rightarrow> nat \<Rightarrow> sl_rx_list \<Rightarrow> int list \<Rightarrow> nat \<Rightarrow> (nat \<times> sl_rx_list \<times> int list) option" where
  "sl_rx_addthread re nslots s pos fuel l w pc0 =
     addthread_loop re nslots s pos fuel l w [RXW_VISIT (int pc0)]"

text \<open>Does the instruction take the byte at \<open>pos\<close>, if there is one?\<close>

definition rx_takes :: "sl_rx \<Rightarrow> sl_bytes \<Rightarrow> nat \<Rightarrow> sl_rx_inst \<Rightarrow> bool" where
  "rx_takes re s pos ins =
     (pos < length s \<and>
      (let c = unat (s ! pos) in
       case in_op ins of
         RX_BYTE \<Rightarrow> c = arg_nat (in_arg ins)
       | RX_CLASS \<Rightarrow> sl_rx_cls_has (re_classes re ! nat (in_cls ins)) c
       | RX_ANY \<Rightarrow> c \<noteq> 10
       | RX_ANYNL \<Rightarrow> True
       | _ \<Rightarrow> False))"

text \<open>The threads at one position, in order of priority, up to the first that matches.\<close>

fun rx_step ::
  "sl_rx \<Rightarrow> nat \<Rightarrow> sl_bytes \<Rightarrow> nat \<Rightarrow> sl_rx_list \<Rightarrow> nat list \<Rightarrow> nat \<Rightarrow> sl_rx_list \<Rightarrow> int list \<Rightarrow> (nat \<times> sl_rx_list \<times> int list \<times> int list option) option" where
  "rx_step re nslots s pos cl [] fuel nl w = Some (fuel, nl, w, None)"
| "rx_step re nslots s pos cl (t # ts) fuel nl w =
     (let pc = rl_dense cl ! t; ins = re_prog re ! pc; caps = rl_caps cl t in
      if in_op ins = RX_MATCH then Some (fuel, nl, w, Some caps)
      else if rx_takes re s pos ins
      then (case sl_rx_addthread re nslots s (pos + 1) fuel nl (if nslots = 0 then w else caps) (pc + 1) of
              None \<Rightarrow> None
            | Some (fuel, nl, w) \<Rightarrow> rx_step re nslots s pos cl ts fuel nl w)
      else rx_step re nslots s pos cl ts fuel nl w)"

text \<open>A new thread from the start of the program, unless anchored elsewhere or already matched.\<close>

definition rx_seed ::
  "sl_rx \<Rightarrow> nat \<Rightarrow> sl_bytes \<Rightarrow> nat \<Rightarrow> nat \<Rightarrow> bool \<Rightarrow> nat \<Rightarrow> sl_rx_list \<Rightarrow> int list \<Rightarrow> (nat \<times> sl_rx_list \<times> int list) option" where
  "rx_seed re nslots s start pos matched fuel cl w =
     (if \<not> matched \<and> (\<not> re_anchored_start re \<or> pos = start)
      then (let w = replicate nslots (- 1);
                w = (if nslots = 0 then w else w[0 := rx_int pos])
            in sl_rx_addthread re nslots s pos fuel cl w 0)
      else Some (fuel, cl, w))"

definition rx_out :: "bool \<Rightarrow> nat \<Rightarrow> int list option \<Rightarrow> int list \<Rightarrow> int list" where
  "rx_out want_caps pos m out =
     (case m of Some caps \<Rightarrow> if want_caps then caps[1 := rx_int pos] else out | None \<Rightarrow> out)"

function rx_loop ::
  "sl_rx \<Rightarrow> nat \<Rightarrow> bool \<Rightarrow> sl_bytes \<Rightarrow> nat \<Rightarrow> nat \<Rightarrow> nat \<Rightarrow> sl_rx_list \<Rightarrow> sl_rx_list \<Rightarrow> int list \<Rightarrow> bool \<Rightarrow> int list \<Rightarrow> (nat \<times> bool \<times> int list) option" where
  "rx_loop re nslots want_caps s start pos fuel cl nl w matched out =
     (if rl_tl cl = [] \<and> matched then Some (fuel, matched, out)
      else
        (case rx_seed re nslots s start pos matched fuel cl w of
           None \<Rightarrow> None
         | Some (fuel, cl, w) \<Rightarrow>
             if rl_tl cl = []
             then (if pos \<ge> length s then Some (fuel, matched, out)
                   else rx_loop re nslots want_caps s start (pos + 1) fuel cl nl w matched out)
             else
               (case rx_step re nslots s pos cl (rl_tl cl) fuel (rl_reset nl) w of
                  None \<Rightarrow> None
                | Some (fuel, nl, w, m) \<Rightarrow>
                    (let matched = (matched \<or> m \<noteq> None); out = rx_out want_caps pos m out in
                     if pos \<ge> length s then Some (fuel, matched, out)
                     else rx_loop re nslots want_caps s start (pos + 1) fuel nl cl w matched out))))"
  by pat_completeness auto

termination
  by (relation "measure (\<lambda>(re, nslots, want, s, start, pos, _). Suc (length s) - pos)") auto

declare rx_loop.simps [simp del]

definition sl_rx_run ::
  "sl_rx \<Rightarrow> nat \<Rightarrow> bool \<Rightarrow> sl_bytes \<Rightarrow> nat \<Rightarrow> nat \<Rightarrow> sl_rx_list \<times> sl_rx_list \<Rightarrow> int list \<Rightarrow> (nat \<times> bool \<times> int list) option" where
  "sl_rx_run re nslots want_caps s start fuel mem out =
     rx_loop re nslots want_caps s start start fuel (rl_reset (fst mem)) (rl_reset (snd mem))
       (replicate nslots (- 1)) False out"

section \<open>Compiling\<close>

text \<open>
  The loop of the first-byte filter: the instructions seen, the stack of those to look at, the
  set so far. A stack without room drops a jump and gives up on a split. Where the filter gives
  up, the set is of no account.
\<close>

definition first_visit ::
  "sl_rx \<Rightarrow> nat \<Rightarrow> int list \<Rightarrow> sl_rx_class \<Rightarrow> (int list \<times> sl_rx_class) option" where
  "first_visit re pc stk first =
     (let ins = re_prog re ! pc; n = length (re_prog re) in
      case in_op ins of
        RX_JMP \<Rightarrow> Some (if length stk < n then in_x ins # stk else stk, first)
      | RX_SAVE \<Rightarrow> Some (if length stk < n then (int pc + 1) # stk else stk, first)
      | RX_SPLIT \<Rightarrow> if length stk + 1 < n then Some (in_y ins # in_x ins # stk, first) else None
      | RX_BYTE \<Rightarrow> Some (stk, sl_rx_cls_set first (arg_nat (in_arg ins)))
      | RX_CLASS \<Rightarrow>
          Some (stk, cls_add first (filter (sl_rx_cls_has (re_classes re ! nat (in_cls ins))) [0..<256]))
      | _ \<Rightarrow> None)"

lemma unseen_less:
  "pc < length seen \<Longrightarrow> \<not> seen ! pc \<Longrightarrow>
    length (filter Not (seen[pc := True])) < length (filter Not seen)"
proof (induction seen arbitrary: pc)
  case (Cons b seen)
  then show ?case by (cases pc) auto
qed simp

function first_loop :: "sl_rx \<Rightarrow> bool list \<Rightarrow> int list \<Rightarrow> sl_rx_class \<Rightarrow> sl_rx_class option" where
  "first_loop re seen [] first = Some first"
| "first_loop re seen (pc # stk) first =
     (if pc < 0 \<or> pc \<ge> int (length seen) \<or> seen ! nat pc then first_loop re seen stk first
      else
        (case first_visit re (nat pc) stk first of
           None \<Rightarrow> None
         | Some (stk', first') \<Rightarrow> first_loop re (seen[nat pc := True]) stk' first'))"
  by pat_completeness auto

termination
  by (relation "measures [\<lambda>(re, seen, stk, first). length (filter Not seen), \<lambda>(re, seen, stk, first). length stk]")
    (auto simp: unseen_less not_le nat_less_iff)

definition sl_rx_compute_first :: "sl_rx \<Rightarrow> bool \<times> sl_rx_class" where
  "sl_rx_compute_first re =
     (case first_loop re (replicate (length (re_prog re)) False) [0] cls_empty of
        None \<Rightarrow> (False, cls_empty)
      | Some first \<Rightarrow>
          (let count = length (filter (sl_rx_cls_has first) [0..<256])
           in (0 < count \<and> count < 200, first)))"

text \<open>The parser over a whole pattern, from its initial state.\<close>

definition parse_pattern :: "string \<Rightarrow> sl_rx_node rx_parse option" where
  "parse_pattern pat =
     sl_rx_parse_alt (SL_RX_MAX_DEPTH + 1) pat \<lparr>ps_i = 0, ps_depth = 0, ps_ngroups = 0, ps_cls = []\<rparr>"

definition sl_rx_compile :: "string \<Rightarrow> sl_rx sl_result option" where
  "sl_rx_compile pat =
     (case parse_pattern pat of
        None \<Rightarrow> None
      | Some (Inl e) \<Rightarrow> Some (Inl e)
      | Some (Inr (root, ps)) \<Rightarrow> Some
          (if ps_i ps \<noteq> length pat then Inl (''unmatched ) at offset '' @ dec (ps_i ps))
           else
             (let ec = \<lparr>ec_prog = [], ec_failed = False\<rparr>;
                  ec = snd (sl_rx_emit1 RX_SAVE (Arg 0) (- 1) ec);
                  ec = sl_rx_emit root ec;
                  ec = snd (sl_rx_emit1 RX_SAVE (Arg 1) (- 1) ec);
                  ec = snd (sl_rx_emit1 RX_MATCH (Arg 0) (- 1) ec)
              in if ec_failed ec then Inl ''pattern too complex (exceeds 4096 instructions)''
                 else
                   (let prog = ec_prog ec;
                        anchored = (length prog > 1 \<and> in_op (prog ! 1) = RX_ASSERT \<and>
                          (arg_assert (in_arg (prog ! 1)) = RXA_BOL \<or> arg_assert (in_arg (prog ! 1)) = RXA_BOT));
                        re = \<lparr>re_prog = prog, re_classes = ps_cls ps, re_ngroups = ps_ngroups ps,
                              re_nslots = 2 * (ps_ngroups ps + 1), re_has_first = False,
                              re_first = cls_empty, re_anchored_start = anchored\<rparr>;
                        (has, first) = sl_rx_compute_first re
                    in Inr (re\<lparr>re_has_first := has, re_first := first\<rparr>)))))"

definition sl_regex_compile :: "cstr \<Rightarrow> sl_rx sl_result option" where
  "sl_regex_compile pat = (case pat of None \<Rightarrow> Some (Inl ''nil pattern'') | Some p \<Rightarrow> sl_rx_compile p)"

section \<open>Matching\<close>

text \<open>The first position from \<open>p\<close> on whose byte passes the filter, or the length of the subject.\<close>

function first_skip :: "sl_rx_class \<Rightarrow> sl_bytes \<Rightarrow> nat \<Rightarrow> nat" where
  "first_skip first s p =
     (if p < length s \<and> \<not> sl_rx_cls_has first (unat (s ! p)) then first_skip first s (p + 1) else p)"
  by pat_completeness auto

termination
  by (relation "measure (\<lambda>(first, s, p). length s - p)") auto

declare first_skip.simps [simp del]

definition sl_rx_match_core ::
  "sl_rx \<Rightarrow> sl_bytes \<Rightarrow> nat \<Rightarrow> nat \<Rightarrow> sl_rx_list \<times> sl_rx_list \<Rightarrow> int list \<Rightarrow> bool \<Rightarrow> (nat \<times> bool \<times> int list) option" where
  "sl_rx_match_core re s start fuel mem out want_caps =
     (if start > length s then Some (fuel, False, out)
      else
        (let filtered = (re_has_first re \<and> \<not> re_anchored_start re);
             p = (if filtered then first_skip (re_first re) s start else start)
         in if filtered \<and> p \<ge> length s then Some (fuel, False, out)
            else sl_rx_run re (if want_caps then re_nslots re else 0) want_caps s p fuel mem out))"

text \<open>The work a match may need: a bound on the rounds of the closure loops.\<close>

definition rx_budget :: "sl_rx \<Rightarrow> sl_bytes \<Rightarrow> nat" where
  "rx_budget re s = (length s + 1) * (5 * length (re_prog re) + 1)"

definition sl_regex_is_match_bytes :: "sl_rx_list \<times> sl_rx_list \<Rightarrow> sl_rx option \<Rightarrow> sl_bytes option \<Rightarrow> bool option" where
  "sl_regex_is_match_bytes mem re b =
     (case (re, b) of
        (Some re, Some b) \<Rightarrow>
          map_option (\<lambda>(fuel, m, out). m) (sl_rx_match_core re b 0 (rx_budget re b) mem [0, 0] False)
      | _ \<Rightarrow> Some False)"

definition sl_regex_is_match :: "sl_rx_list \<times> sl_rx_list \<Rightarrow> sl_rx option \<Rightarrow> cstr \<Rightarrow> bool option" where
  "sl_regex_is_match mem re s = sl_regex_is_match_bytes mem re (map_option (map uc) s)"

definition sl_regex_find_core :: "sl_rx_list \<times> sl_rx_list \<Rightarrow> sl_rx option \<Rightarrow> sl_bytes \<Rightarrow> int \<Rightarrow> int list option" where
  "sl_regex_find_core mem re s start =
     (case re of
        None \<Rightarrow> Some []
      | Some re \<Rightarrow>
          if start < 0 \<or> start > int (length s) then Some []
          else map_option (\<lambda>(fuel, m, out). if m then out else [])
                 (sl_rx_match_core re s (nat start) (rx_budget re s) mem (replicate (re_nslots re) 0) True))"

definition sl_regex_find :: "sl_rx_list \<times> sl_rx_list \<Rightarrow> sl_rx option \<Rightarrow> cstr \<Rightarrow> int list option" where
  "sl_regex_find mem re s =
     (case s of None \<Rightarrow> Some [] | Some s \<Rightarrow> sl_regex_find_core mem re (map uc s) 0)"

definition sl_regex_find_at :: "sl_rx_list \<times> sl_rx_list \<Rightarrow> sl_rx option \<Rightarrow> cstr \<Rightarrow> int \<Rightarrow> int list option" where
  "sl_regex_find_at mem re s start =
     (case s of None \<Rightarrow> Some [] | Some s \<Rightarrow> sl_regex_find_core mem re (map uc s) start)"

definition sl_regex_find_bytes :: "sl_rx_list \<times> sl_rx_list \<Rightarrow> sl_rx option \<Rightarrow> sl_bytes option \<Rightarrow> int list option" where
  "sl_regex_find_bytes mem re b =
     (case b of None \<Rightarrow> Some [] | Some b \<Rightarrow> sl_regex_find_core mem re b 0)"

definition sl_regex_find_bytes_at :: "sl_rx_list \<times> sl_rx_list \<Rightarrow> sl_rx option \<Rightarrow> sl_bytes option \<Rightarrow> int \<Rightarrow> int list option" where
  "sl_regex_find_bytes_at mem re b start =
     (case b of None \<Rightarrow> Some [] | Some b \<Rightarrow> sl_regex_find_core mem re b start)"

definition sl_regex_groups :: "sl_rx option \<Rightarrow> int" where
  "sl_regex_groups re = (case re of None \<Rightarrow> 0 | Some re \<Rightarrow> int (re_ngroups re))"

end
