(* ===== verification/Sl_Regex_Machine.thy ===== *)
theory Sl_Regex_Machine
  imports Sl_Regex
begin

text \<open>
  The Pike machine of \<open>Sl_Regex\<close> against the moves of the program it runs. The sparse set of
  program counters works from any initial memory; the closure loop visits each instruction at
  most once, with room on its stack; a round takes the threads of one position to the next; and
  a whole run answers within its budget, truly when it answers true, and completely where the
  program is steady.
\<close>

section \<open>The sparse set\<close>

text \<open>
  The set is in order when \<open>sparse\<close> locates every member of \<open>dense\<close>, whatever it holds elsewhere;
  a list of threads is, when \<open>tl\<close> also names the members that are threads.
\<close>

definition is_thread :: "sl_rx \<Rightarrow> nat \<Rightarrow> bool" where
  "is_thread re pc \<longleftrightarrow> in_op (re_prog re ! pc) \<in> {RX_BYTE, RX_CLASS, RX_ANY, RX_ANYNL, RX_MATCH}"

text \<open>
  The interface the machine uses: a set of program counters that is cleared in one step, with a
  membership test, kept with the order of insertion.
\<close>

locale pc_set =
  fixes inv :: "'s \<Rightarrow> bool" and members :: "'s \<Rightarrow> nat list"
    and has :: "'s \<Rightarrow> nat \<Rightarrow> bool" and add :: "'s \<Rightarrow> nat \<Rightarrow> 's" and clear :: "'s \<Rightarrow> 's"
  assumes clear_inv: "inv (clear s)" and clear_members: "members (clear s) = []"
    and has_iff: "inv s \<Longrightarrow> has s x \<longleftrightarrow> x \<in> set (members s)"
    and add_members: "members (add s x) = members s @ [x]"
    and add_inv: "inv s \<Longrightarrow> x \<notin> set (members s) \<Longrightarrow> inv (add s x)"
    and members_distinct: "inv s \<Longrightarrow> distinct (members s)"
begin

lemma members_bounded: "inv s \<Longrightarrow> set (members s) \<subseteq> {..<n} \<Longrightarrow> length (members s) \<le> n"
  using distinct_card [OF members_distinct, of s] card_mono [of "{..<n}" "set (members s)"] by simp

lemma members_room: "inv s \<Longrightarrow> x \<notin> set (members s) \<Longrightarrow> insert x (set (members s)) \<subseteq> {..<n} \<Longrightarrow> length (members s) < n"
  using members_bounded [OF add_inv, of s x n] by (simp add: add_members)

lemma add_has: "inv s \<Longrightarrow> x \<notin> set (members s) \<Longrightarrow> has (add s x) y \<longleftrightarrow> y = x \<or> has s y"
  by (auto simp: has_iff add_inv add_members)

end

definition rl_set_inv :: "sl_rx_list \<Rightarrow> bool" where
  "rl_set_inv l \<longleftrightarrow> distinct (rl_dense l) \<and> (\<forall>i<length (rl_dense l). rl_sparse l (rl_dense l ! i) = int i)"

interpretation rl: pc_set rl_set_inv rl_dense rl_has rl_add rl_reset
proof unfold_locales
  fix l :: sl_rx_list and pc
  show "rl_set_inv (rl_reset l)" "rl_dense (rl_reset l) = []" by (simp_all add: rl_set_inv_def rl_reset_def)
  show "rl_dense (rl_add l pc) = rl_dense l @ [pc]" by (simp add: rl_add_def)
  assume inv: "rl_set_inv l"
  show "distinct (rl_dense l)" using inv by (simp add: rl_set_inv_def)
  show "rl_set_inv (rl_add l pc)" if "pc \<notin> set (rl_dense l)"
    using inv that by (auto simp: rl_set_inv_def rl_add_def nth_append less_Suc_eq)
  show "rl_has l pc \<longleftrightarrow> pc \<in> set (rl_dense l)"
  proof
    assume "rl_has l pc"
    then show "pc \<in> set (rl_dense l)"
      by (auto simp: rl_has_def Let_def in_set_conv_nth intro!: exI [of _ "nat (rl_sparse l pc)"])
  next
    assume "pc \<in> set (rl_dense l)"
    then obtain i where "i < length (rl_dense l)" "rl_dense l ! i = pc" by (auto simp: in_set_conv_nth)
    then show "rl_has l pc" using inv by (auto simp: rl_has_def rl_set_inv_def)
  qed
qed

definition rl_inv :: "sl_rx \<Rightarrow> sl_rx_list \<Rightarrow> bool" where
  "rl_inv re l \<longleftrightarrow> rl_set_inv l \<and> set (rl_dense l) \<subseteq> {..<length (re_prog re)} \<and>
     (\<forall>t\<in>set (rl_tl l). t < length (rl_dense l)) \<and>
     distinct (rl_tl l) \<and>
     (\<forall>t<length (rl_dense l). t \<in> set (rl_tl l) \<longleftrightarrow> is_thread re (rl_dense l ! t))"

lemma rl_invD:
  assumes "rl_inv re l"
  shows "distinct (rl_dense l)" "set (rl_dense l) \<subseteq> {..<length (re_prog re)}" "rl_set_inv l"
    "t \<in> set (rl_tl l) \<Longrightarrow> t < length (rl_dense l)" "distinct (rl_tl l)"
    "t < length (rl_dense l) \<Longrightarrow> t \<in> set (rl_tl l) \<longleftrightarrow> is_thread re (rl_dense l ! t)"
  using assms by (auto simp: rl_inv_def rl.members_distinct)

lemma rl_inv_reset: "rl_inv re (rl_reset l)"
  using rl.clear_inv by (simp add: rl_inv_def rl_reset_def)

lemma rl_has_iff: "rl_inv re l \<Longrightarrow> rl_has l pc \<longleftrightarrow> pc \<in> set (rl_dense l)"
  by (rule rl.has_iff) (rule rl_invD(3))

lemma rl_dense_bound:
  assumes "rl_inv re l"
  shows "length (rl_dense l) \<le> length (re_prog re)" "length (rl_tl l) \<le> length (rl_dense l)"
proof -
  show "length (rl_dense l) \<le> length (re_prog re)" by (rule rl.members_bounded [OF rl_invD(3,2) [OF assms]])
  have "card (set (rl_tl l)) \<le> card {..<length (rl_dense l)}"
    using rl_invD(4) [OF assms] by (intro card_mono) auto
  then show "length (rl_tl l) \<le> length (rl_dense l)"
    using distinct_card [OF rl_invD(5) [OF assms]] by simp
qed

text \<open>A visit to a program counter that is not yet a member.\<close>

definition with_thread :: "sl_rx \<Rightarrow> nat \<Rightarrow> sl_rx_list \<Rightarrow> nat \<Rightarrow> int list \<Rightarrow> sl_rx_list" where
  "with_thread re nslots l pc w =
     (if is_thread re pc
      then (rl_add l pc)\<lparr>rl_tl := rl_tl l @ [length (rl_dense l)],
             rl_caps := (if nslots = 0 then rl_caps l else (rl_caps l)(length (rl_dense l) := w))\<rparr>
      else rl_add l pc)"

lemma with_thread_fields [simp]:
  "rl_dense (with_thread re ns l pc w) = rl_dense l @ [pc]"
  "rl_tl (with_thread re ns l pc w) = rl_tl l @ (if is_thread re pc then [length (rl_dense l)] else [])"
  by (simp_all add: with_thread_def rl_add_def)

lemma with_thread_inv:
  assumes "rl_inv re l" and "pc \<notin> set (rl_dense l)" and "pc < length (re_prog re)"
  shows "rl_inv re (with_thread re ns l pc w)"
proof -
  have "rl_set_inv (with_thread re ns l pc w) = rl_set_inv (rl_add l pc)"
    by (simp add: rl_set_inv_def with_thread_def rl_add_def)
  then have "rl_set_inv (with_thread re ns l pc w)" using rl.add_inv [OF rl_invD(3) [OF assms(1)] assms(2)] by simp
  then show ?thesis
    using rl_invD(2,4-6) [OF assms(1)] assms(2,3) unfolding rl_inv_def
    by (auto simp: nth_append less_Suc_eq dest: rl_invD(4) [OF assms(1)])
qed

section \<open>One visit\<close>

text \<open>The program counters an instruction leads to without consuming a byte, and those it jumps to.\<close>

definition eps_to :: "sl_rx \<Rightarrow> sl_bytes \<Rightarrow> nat \<Rightarrow> nat \<Rightarrow> int list" where
  "eps_to re s pos pc =
     (let ins = re_prog re ! pc in
      case in_op ins of
        RX_JMP \<Rightarrow> [in_x ins]
      | RX_SPLIT \<Rightarrow> [in_x ins, in_y ins]
      | RX_SAVE \<Rightarrow> [int pc + 1]
      | RX_ASSERT \<Rightarrow> if sl_rx_assert_ok (arg_assert (in_arg ins)) s pos then [int pc + 1] else []
      | _ \<Rightarrow> [])"

text \<open>The visits that are pending on a stack.\<close>

definition visits :: "sl_rx_work list \<Rightarrow> int list" where
  "visits stk = concat (map (\<lambda>e. case e of RXW_VISIT pc \<Rightarrow> [pc] | RXW_RESTORE _ _ \<Rightarrow> []) stk)"

lemma visits_simps [simp]:
  "visits [] = []" "visits (RXW_VISIT pc # stk) = pc # visits stk"
  "visits (RXW_RESTORE sl v # stk) = visits stk" "visits (a @ b) = visits a @ visits b"
  by (simp_all add: visits_def)

text \<open>
  With room on the stack, a visit adds the program counter to the list and its successors to the
  stack, at most two entries in all.
\<close>

lemma rx_visit_ok:
  assumes "length stk + 2 \<le> 2 * length (re_prog re) + 8"
  shows "\<exists>w' ws. rx_visit re ns s pos pc (rl_add l pc) w stk = (with_thread re ns l pc w, w', ws @ stk) \<and>
    visits ws = eps_to re s pos pc \<and> length ws \<le> 2"
proof (cases "in_op (re_prog re ! pc)")
  case RX_SAVE
  then show ?thesis using assms
    by (auto simp: rx_visit_def rx_push_def with_thread_def is_thread_def eps_to_def Let_def)
qed (use assms in \<open>auto simp: rx_visit_def rx_push_def with_thread_def is_thread_def eps_to_def rl_add_def Let_def
    intro!: exI [of _ "[]"]\<close>)

section \<open>The closure\<close>

definition eps :: "sl_rx \<Rightarrow> sl_bytes \<Rightarrow> nat \<Rightarrow> (nat \<times> nat) set" where
  "eps re s pos = {(pc, q). pc < length (re_prog re) \<and> q < length (re_prog re) \<and> int q \<in> set (eps_to re s pos pc)}"

text \<open>Every successor of a member is a member, or pending on the stack.\<close>

definition covered :: "sl_rx \<Rightarrow> sl_bytes \<Rightarrow> nat \<Rightarrow> sl_rx_list \<Rightarrow> int list \<Rightarrow> bool" where
  "covered re s pos l pend \<longleftrightarrow>
     (\<forall>pc\<in>set (rl_dense l). \<forall>q. (pc, q) \<in> eps re s pos \<longrightarrow> q \<in> set (rl_dense l) \<or> int q \<in> set pend)"

lemma coveredD:
  "covered re s pos l pend \<Longrightarrow> pc \<in> set (rl_dense l) \<Longrightarrow> (pc, q) \<in> eps re s pos \<Longrightarrow>
     q \<in> set (rl_dense l) \<or> int q \<in> set pend"
  unfolding covered_def by blast

lemma covered_eps_star:
  assumes "covered re s pos l []" and "(pc, q) \<in> (eps re s pos)\<^sup>*" and "pc \<in> set (rl_dense l)"
  shows "q \<in> set (rl_dense l)"
  using assms(2,3) by (induction rule: rtrancl_induct) (use coveredD [OF assms(1)] in auto)

lemma covered_visit:
  assumes "covered re s pos l (int pc # pend)" and "visits ws = eps_to re s pos pc"
  shows "covered re s pos (with_thread re ns l pc w) (visits ws @ pend)"
  using assms unfolding covered_def by (auto simp: eps_def)

lemma covered_member:
  assumes "covered re s pos l (pc # pend)" and "pc < 0 \<or> pc \<ge> int (length (re_prog re)) \<or> nat pc \<in> set (rl_dense l)"
  shows "covered re s pos l pend"
proof -
  have "q \<in> set (rl_dense l)" if "int q = pc" "q < length (re_prog re)" for q
    using assms(2) that by auto
  then show ?thesis using assms(1) unfolding covered_def by (auto simp: eps_def)
qed

text \<open>
  What the closure loop leaves: it ends within the fuel, having spent one round for each entry
  on the stack and at most two for each new member; the list is in order and keeps what it had;
  new members are reached from the pending visits, which are members; and what was covered is.
\<close>

definition closure_post ::
  "sl_rx \<Rightarrow> sl_bytes \<Rightarrow> nat \<Rightarrow> nat \<Rightarrow> sl_rx_list \<Rightarrow> sl_rx_work list \<Rightarrow> nat \<Rightarrow> sl_rx_list \<Rightarrow> bool" where
  "closure_post re s pos fuel l stk fuel' l' \<longleftrightarrow>
     rl_inv re l' \<and> prefix (rl_dense l) (rl_dense l') \<and> prefix (rl_tl l) (rl_tl l') \<and>
     fuel + 2 * length (rl_dense l) \<le> fuel' + length stk + 2 * length (rl_dense l') \<and>
     (\<forall>pc\<in>set (rl_dense l'). pc \<in> set (rl_dense l) \<or>
        (\<exists>q. int q \<in> set (visits stk) \<and> (q, pc) \<in> (eps re s pos)\<^sup>*)) \<and>
     (\<forall>q. int q \<in> set (visits stk) \<and> q < length (re_prog re) \<longrightarrow> q \<in> set (rl_dense l')) \<and>
     (covered re s pos l (visits stk) \<longrightarrow> covered re s pos l' [])"

lemma closure_post_skip:
  assumes "closure_post re s pos fuel l stk fuel' l'"
    and "\<And>pc. e = RXW_VISIT pc \<Longrightarrow> pc < 0 \<or> pc \<ge> int (length (re_prog re)) \<or> nat pc \<in> set (rl_dense l)"
  shows "closure_post re s pos (Suc fuel) l (e # stk) fuel' l'"
proof (cases e)
  case (RXW_RESTORE sl v)
  then show ?thesis using assms(1) by (auto simp: closure_post_def)
next
  case (RXW_VISIT pc)
  have "q \<in> set (rl_dense l')" if "int q = pc" "q < length (re_prog re)" for q
    using assms that RXW_VISIT by (auto simp: closure_post_def dest!: set_mono_prefix)
  then show ?thesis
    using assms RXW_VISIT covered_member [of re s pos l pc "visits stk"] unfolding closure_post_def by auto
qed

lemma closure_post_visit:
  assumes post: "closure_post re s pos fuel (with_thread re ns l pc w) (ws @ stk) fuel' l'"
    and ws: "visits ws = eps_to re s pos pc" "length ws \<le> 2" and pc: "pc < length (re_prog re)"
  shows "closure_post re s pos (Suc fuel) l (RXW_VISIT (int pc) # stk) fuel' l'"
proof -
  let ?l = "with_thread re ns l pc w"
  have dense: "prefix (rl_dense l @ [pc]) (rl_dense l')" using post by (simp add: closure_post_def)
  then have mem: "pc \<in> set (rl_dense l')" "prefix (rl_dense l) (rl_dense l')"
    by (auto dest: set_mono_prefix append_prefixD)
  moreover have "prefix (rl_tl l) (rl_tl l')"
    using post by (auto simp: closure_post_def dest: append_prefixD)
  moreover have "p \<in> set (rl_dense l) \<or> (\<exists>q. int q \<in> set (visits (RXW_VISIT (int pc) # stk)) \<and> (q, p) \<in> (eps re s pos)\<^sup>*)"
    if p: "p \<in> set (rl_dense l')" for p
  proof -
    have "p \<in> set (rl_dense l) \<or> p = pc \<or> (\<exists>q. int q \<in> set (eps_to re s pos pc) \<union> set (visits stk) \<and> (q, p) \<in> (eps re s pos)\<^sup>*)"
      using post p ws(1) by (auto simp: closure_post_def)
    moreover have "(pc, p) \<in> (eps re s pos)\<^sup>*" if q: "int q \<in> set (eps_to re s pos pc)" "(q, p) \<in> (eps re s pos)\<^sup>*" for q
    proof (cases "q < length (re_prog re)")
      case True
      then have "(pc, q) \<in> eps re s pos" using q pc by (simp add: eps_def)
      then show ?thesis using q(2) by (rule converse_rtrancl_into_rtrancl)
    next
      case False
      then have "q = p" using q(2) by (auto elim: converse_rtranclE simp: eps_def)
      moreover have "p < length (re_prog re)"
        using p post rl_invD(2) by (auto simp: closure_post_def)
      ultimately show ?thesis using False by simp
    qed
    ultimately show ?thesis by auto
  qed
  moreover have "q \<in> set (rl_dense l')" if "int q \<in> set (visits (RXW_VISIT (int pc) # stk))" "q < length (re_prog re)" for q
    using that post mem(1) by (auto simp: closure_post_def)
  ultimately show ?thesis
    using post ws covered_visit [OF _ ws(1), of l "visits stk" ns w] unfolding closure_post_def by auto
qed

lemma addthread_loop_ok:
  assumes "rl_inv re l" and "length stk + 2 * (length (re_prog re) - length (rl_dense l)) \<le> fuel"
    and "length stk \<le> 2 * length (rl_dense l) + 1"
  shows "\<exists>fuel' l' w'. addthread_loop re ns s pos fuel l w stk = Some (fuel', l', w') \<and>
    closure_post re s pos fuel l stk fuel' l'"
  using assms
proof (induction fuel arbitrary: l w stk)
  case 0
  then show ?case by (auto simp: closure_post_def)
next
  case (Suc fuel)
  show ?case
  proof (cases stk)
    case Nil
    then show ?thesis using Suc.prems by (auto simp: closure_post_def)
  next
    case (Cons e stk')
    have skip: ?thesis
      if step: "addthread_step re ns s pos e l w stk' = (l, w1, stk')"
        and e: "\<And>pc. e = RXW_VISIT pc \<Longrightarrow> pc < 0 \<or> pc \<ge> int (length (re_prog re)) \<or> nat pc \<in> set (rl_dense l)" for w1
    proof -
      obtain fuel' l' w' where "addthread_loop re ns s pos fuel l w1 stk' = Some (fuel', l', w')"
        "closure_post re s pos fuel l stk' fuel' l'"
        using Suc.IH [of l stk' w1] Suc.prems Cons by auto
      then show ?thesis using closure_post_skip [OF _ e] step Cons by auto
    qed
    show ?thesis
    proof (cases e)
      case (RXW_RESTORE sl v)
      then show ?thesis by (intro skip) (auto simp: addthread_step_def)
    next
      case (RXW_VISIT pc)
      show ?thesis
      proof (cases "pc < 0 \<or> pc \<ge> int (length (re_prog re)) \<or> nat pc \<in> set (rl_dense l)")
        case True
        then show ?thesis using RXW_VISIT rl_has_iff [OF Suc.prems(1)]
          by (intro skip) (auto simp: addthread_step_def)
      next
        case False
        define p where "p = nat pc"
        have p: "pc = int p" "p < length (re_prog re)" "p \<notin> set (rl_dense l)" using False by (auto simp: p_def)
        have inv: "rl_inv re (with_thread re ns l p w)" by (rule with_thread_inv [OF Suc.prems(1) p(3,2)])
        have bound: "length (rl_dense l) < length (re_prog re)"
          using rl_dense_bound(1) [OF inv] by simp
        have "length stk' + 2 \<le> 2 * length (re_prog re) + 8" using Suc.prems(3) Cons bound by simp
        from rx_visit_ok [OF this] obtain w' ws where ws:
          "rx_visit re ns s pos p (rl_add l p) w stk' = (with_thread re ns l p w, w', ws @ stk')"
          "visits ws = eps_to re s pos p" "length ws \<le> 2" by blast
        have "addthread_step re ns s pos e l w stk' = (with_thread re ns l p w, w', ws @ stk')"
          using RXW_VISIT p ws(1) rl_has_iff [OF Suc.prems(1)] by (simp add: addthread_step_def)
        moreover have "length (ws @ stk') + 2 * (length (re_prog re) - length (rl_dense (with_thread re ns l p w))) \<le> fuel"
          "length (ws @ stk') \<le> 2 * length (rl_dense (with_thread re ns l p w)) + 1"
          using Suc.prems(2,3) Cons ws(3) bound by auto
        moreover obtain fuel' l' w'' where
          "addthread_loop re ns s pos fuel (with_thread re ns l p w) w' (ws @ stk') = Some (fuel', l', w'')"
          "closure_post re s pos fuel (with_thread re ns l p w) (ws @ stk') fuel' l'"
          using Suc.IH [OF inv calculation(2,3), of w'] by blast
        ultimately show ?thesis using closure_post_visit [OF _ ws(2,3) p(2)] Cons RXW_VISIT p(1) by auto
      qed
    qed
  qed
qed

section \<open>The moves of a program\<close>

text \<open>
  The machine the program describes: a program counter and a position in the subject. It accepts
  from a position when it can move from the first instruction there to a match.
\<close>

definition rx_move :: "sl_rx \<Rightarrow> sl_bytes \<Rightarrow> ((nat \<times> nat) \<times> (nat \<times> nat)) set" where
  "rx_move re s = {((pc, i), (q, j)). i = j \<and> (pc, q) \<in> eps re s i \<or>
     j = i + 1 \<and> q = pc + 1 \<and> q < length (re_prog re) \<and> rx_takes re s i (re_prog re ! pc)}"

definition rx_matches_at :: "sl_rx \<Rightarrow> nat \<Rightarrow> bool" where
  "rx_matches_at re pc \<longleftrightarrow> pc < length (re_prog re) \<and> in_op (re_prog re ! pc) = RX_MATCH"

definition rx_accepts :: "sl_rx \<Rightarrow> sl_bytes \<Rightarrow> nat \<Rightarrow> bool" where
  "rx_accepts re s i \<longleftrightarrow> (\<exists>pc j. ((0, i), (pc, j)) \<in> (rx_move re s)\<^sup>* \<and> rx_matches_at re pc)"

lemma eps_move: "(p, q) \<in> (eps re s i)\<^sup>* \<Longrightarrow> ((p, i), (q, i)) \<in> (rx_move re s)\<^sup>*"
proof (induction rule: rtrancl_induct)
  case (step q r)
  from step(2) have "((q, i), (r, i)) \<in> rx_move re s" by (simp add: rx_move_def)
  with step(3) show ?case by (rule rtrancl_into_rtrancl)
qed simp

lemma eps_star_bound: "(p, q) \<in> (eps re s i)\<^sup>* \<Longrightarrow> p < length (re_prog re) \<Longrightarrow> q < length (re_prog re)"
  by (induction rule: rtrancl_induct) (auto simp: eps_def)

lemma move_mono: "((p, i), (q, j)) \<in> (rx_move re s)\<^sup>* \<Longrightarrow> i \<le> j"
  by (induction "(q, j)" arbitrary: q j rule: rtrancl_induct) (force simp: rx_move_def)+

lemma move_in_prog: "((p, i), (q, j)) \<in> (rx_move re s)\<^sup>* \<Longrightarrow> p < length (re_prog re) \<Longrightarrow> q < length (re_prog re)"
  by (induction "(q, j)" arbitrary: q j rule: rtrancl_induct) (force simp: rx_move_def eps_def)+

lemma move_in_subject: "((p, i), (q, j)) \<in> (rx_move re s)\<^sup>* \<Longrightarrow> i \<le> length s \<Longrightarrow> j \<le> length s"
  by (induction "(q, j)" arbitrary: q j rule: rtrancl_induct) (force simp: rx_move_def rx_takes_def)+

text \<open>A path that consumes no byte, and the last byte of one that does.\<close>

lemma move_last:
  assumes "((p, i), (q, j)) \<in> (rx_move re s)\<^sup>*"
  shows "i = j \<and> (p, q) \<in> (eps re s i)\<^sup>* \<or>
    (\<exists>k r. j = Suc k \<and> i \<le> k \<and> ((p, i), (r, k)) \<in> (rx_move re s)\<^sup>* \<and> rx_takes re s k (re_prog re ! r) \<and>
      r + 1 < length (re_prog re) \<and> (r + 1, q) \<in> (eps re s j)\<^sup>*)"
  using assms
proof (induction "(q, j)" arbitrary: q j rule: rtrancl_induct)
  case (step y)
  obtain r k where y: "y = (r, k)" by (cases y)
  from step(2) consider "k = j" "(r, q) \<in> eps re s k"
    | "j = Suc k" "q = r + 1" "q < length (re_prog re)" "rx_takes re s k (re_prog re ! r)"
    by (auto simp: rx_move_def y)
  then show ?case
  proof cases
    case 1
    with step(3) [OF y] show ?thesis by (blast intro: rtrancl_into_rtrancl)
  next
    case 2
    then show ?thesis using step(1) move_mono [of p i r k re s] y by auto
  qed
qed simp

corollary move_stay: "((p, i), (q, i)) \<in> (rx_move re s)\<^sup>* \<Longrightarrow> (p, q) \<in> (eps re s i)\<^sup>*"
  using move_last [of p i q i re s] by auto

lemma move_take:
  assumes "((p, i), (r, k)) \<in> (rx_move re s)\<^sup>*" and "rx_takes re s k (re_prog re ! r)"
    and "r + 1 < length (re_prog re)" and "(r + 1, q) \<in> (eps re s (Suc k))\<^sup>*"
  shows "((p, i), (q, Suc k)) \<in> (rx_move re s)\<^sup>*"
proof -
  have "((r, k), (r + 1, Suc k)) \<in> rx_move re s" using assms(2,3) by (simp add: rx_move_def)
  with assms(1) have "((p, i), (r + 1, Suc k)) \<in> (rx_move re s)\<^sup>*" by (rule rtrancl_into_rtrancl)
  then show ?thesis using eps_move [OF assms(4)] by (rule rtrancl_trans)
qed

text \<open>Where no path takes the byte, none goes beyond.\<close>

lemma move_stuck:
  assumes "\<And>r. ((p, i), (r, k)) \<in> (rx_move re s)\<^sup>* \<Longrightarrow> \<not> rx_takes re s k (re_prog re ! r)" and "i \<le> k"
    and "((p, i), (q, j)) \<in> (rx_move re s)\<^sup>*"
  shows "j \<le> k"
  using assms(3)
proof (induction "(q, j)" arbitrary: q j rule: rtrancl_induct)
  case (step y)
  obtain r l where y: "y = (r, l)" by (cases y)
  with step(3) have "l \<le> k" by simp
  then show ?case using step(1,2) assms(1) [of r] y by (cases "l = k") (auto simp: rx_move_def)
qed (use assms(2) in simp)

section \<open>One round of the machine\<close>

lemma sl_rx_addthread_ok:
  assumes "rl_inv re l" and "1 + 2 * (length (re_prog re) - length (rl_dense l)) \<le> fuel"
  shows "\<exists>fuel' l' w'. sl_rx_addthread re ns s pos fuel l w pc0 = Some (fuel', l', w') \<and>
    closure_post re s pos fuel l [RXW_VISIT (int pc0)] fuel' l'"
  unfolding sl_rx_addthread_def by (rule addthread_loop_ok) (use assms in auto)

lemma closure_postD:
  assumes "closure_post re s pos fuel l [RXW_VISIT (int pc0)] fuel' l'"
  shows "rl_inv re l'" "set (rl_dense l) \<subseteq> set (rl_dense l')"
    "fuel + 2 * length (rl_dense l) \<le> fuel' + 1 + 2 * length (rl_dense l')"
    "pc \<in> set (rl_dense l') \<Longrightarrow> pc \<in> set (rl_dense l) \<or> (pc0, pc) \<in> (eps re s pos)\<^sup>*"
    "pc0 < length (re_prog re) \<Longrightarrow> pc0 \<in> set (rl_dense l')"
    "covered re s pos l [] \<Longrightarrow> covered re s pos l' []"
  using assms by (auto simp: closure_post_def covered_def dest: set_mono_prefix)

text \<open>What a round over the threads \<open>ts\<close> of \<open>cl\<close> leaves in the list of the next position.\<close>

definition step_post ::
  "sl_rx \<Rightarrow> sl_bytes \<Rightarrow> nat \<Rightarrow> sl_rx_list \<Rightarrow> nat list \<Rightarrow> nat \<Rightarrow> sl_rx_list \<Rightarrow> nat \<Rightarrow> sl_rx_list \<Rightarrow> bool \<Rightarrow> bool" where
  "step_post re s pos cl ts fuel nl fuel' nl' m \<longleftrightarrow>
     rl_inv re nl' \<and> fuel + 2 * length (rl_dense nl) \<le> fuel' + length ts + 2 * length (rl_dense nl') \<and>
     (covered re s (Suc pos) nl [] \<longrightarrow> covered re s (Suc pos) nl' []) \<and>
     (\<forall>pc\<in>set (rl_dense nl'). pc \<in> set (rl_dense nl) \<or>
        (\<exists>t\<in>set ts. rx_takes re s pos (re_prog re ! (rl_dense cl ! t)) \<and> (rl_dense cl ! t + 1, pc) \<in> (eps re s (Suc pos))\<^sup>*)) \<and>
     (m \<longrightarrow> (\<exists>t\<in>set ts. in_op (re_prog re ! (rl_dense cl ! t)) = RX_MATCH)) \<and>
     (\<not> m \<longrightarrow> (\<forall>t\<in>set ts. in_op (re_prog re ! (rl_dense cl ! t)) \<noteq> RX_MATCH \<and>
        (rx_takes re s pos (re_prog re ! (rl_dense cl ! t)) \<longrightarrow> rl_dense cl ! t + 1 < length (re_prog re) \<longrightarrow>
           rl_dense cl ! t + 1 \<in> set (rl_dense nl')))) \<and>
     set (rl_dense nl) \<subseteq> set (rl_dense nl')"

lemma step_postD:
  assumes "step_post re s pos cl ts fuel nl fuel' nl' m"
  shows "rl_inv re nl'" "fuel + 2 * length (rl_dense nl) \<le> fuel' + length ts + 2 * length (rl_dense nl')"
    "covered re s (Suc pos) nl [] \<Longrightarrow> covered re s (Suc pos) nl' []"
    "pc \<in> set (rl_dense nl') \<Longrightarrow> pc \<in> set (rl_dense nl) \<or>
        (\<exists>t\<in>set ts. rx_takes re s pos (re_prog re ! (rl_dense cl ! t)) \<and> (rl_dense cl ! t + 1, pc) \<in> (eps re s (Suc pos))\<^sup>*)"
    "m \<Longrightarrow> \<exists>t\<in>set ts. in_op (re_prog re ! (rl_dense cl ! t)) = RX_MATCH"
    "\<not> m \<Longrightarrow> t \<in> set ts \<Longrightarrow> in_op (re_prog re ! (rl_dense cl ! t)) \<noteq> RX_MATCH"
    "\<not> m \<Longrightarrow> t \<in> set ts \<Longrightarrow> rx_takes re s pos (re_prog re ! (rl_dense cl ! t)) \<Longrightarrow>
       rl_dense cl ! t + 1 < length (re_prog re) \<Longrightarrow> rl_dense cl ! t + 1 \<in> set (rl_dense nl')"
    "set (rl_dense nl) \<subseteq> set (rl_dense nl')"
  using assms unfolding step_post_def by blast+

lemma step_post_take:
  assumes post: "closure_post re s (Suc pos) fuel nl [RXW_VISIT (int (rl_dense cl ! t + 1))] fuel1 nl1"
    and rest: "step_post re s pos cl ts fuel1 nl1 fuel' nl' m"
    and t: "in_op (re_prog re ! (rl_dense cl ! t)) \<noteq> RX_MATCH" "rx_takes re s pos (re_prog re ! (rl_dense cl ! t))"
  shows "step_post re s pos cl (t # ts) fuel nl fuel' nl' m"
proof -
  note post = closure_postD [OF post] and rest = step_postD [OF rest]
  have new: "pc \<in> set (rl_dense nl) \<or> (\<exists>u\<in>set (t # ts). rx_takes re s pos (re_prog re ! (rl_dense cl ! u)) \<and>
      (rl_dense cl ! u + 1, pc) \<in> (eps re s (Suc pos))\<^sup>*)" if "pc \<in> set (rl_dense nl')" for pc
    using rest(4) [OF that] post(4) [of pc] t(2) by auto
  have keep: "set (rl_dense nl) \<subseteq> set (rl_dense nl')" using post(2) rest(8) by blast
  have "rl_dense cl ! t + 1 \<in> set (rl_dense nl')" if "rl_dense cl ! t + 1 < length (re_prog re)"
    using post(5) that rest(8) by blast
  then show ?thesis
    unfolding step_post_def using new keep rest(1,2,3) post(3,6) rest(5,6,7) t(1) by simp
qed

lemma rx_step_ok:
  assumes "rl_inv re nl" and "length ts + 2 * (length (re_prog re) - length (rl_dense nl)) \<le> fuel"
  shows "\<exists>fuel' nl' w' m. rx_step re ns s pos cl ts fuel nl w = Some (fuel', nl', w', m) \<and>
    step_post re s pos cl ts fuel nl fuel' nl' (m \<noteq> None)"
  using assms
proof (induction ts arbitrary: fuel nl w)
  case Nil
  then show ?case by (simp add: step_post_def)
next
  case (Cons t ts)
  let ?pc = "rl_dense cl ! t"
  consider "in_op (re_prog re ! ?pc) = RX_MATCH"
    | "in_op (re_prog re ! ?pc) \<noteq> RX_MATCH" "rx_takes re s pos (re_prog re ! ?pc)"
    | "in_op (re_prog re ! ?pc) \<noteq> RX_MATCH" "\<not> rx_takes re s pos (re_prog re ! ?pc)" by blast
  then show ?case
  proof cases
    case 1
    then show ?thesis using Cons.prems by (simp add: step_post_def)
  next
    case 2
    obtain fuel1 nl1 w1 where add:
      "sl_rx_addthread re ns s (pos + 1) fuel nl (if ns = 0 then w else rl_caps cl t) (?pc + 1) = Some (fuel1, nl1, w1)"
      "closure_post re s (Suc pos) fuel nl [RXW_VISIT (int (?pc + 1))] fuel1 nl1"
      using sl_rx_addthread_ok [OF Cons.prems(1), of fuel ns s "pos + 1" _ "?pc + 1"] Cons.prems(2) by fastforce
    note post = closure_postD [OF add(2)]
    have "length ts + 2 * (length (re_prog re) - length (rl_dense nl1)) \<le> fuel1"
      using Cons.prems(2) post(3) rl_dense_bound(1) [OF post(1)] rl_dense_bound(1) [OF Cons.prems(1)] by simp
    from Cons.IH [OF post(1) this, of w1] obtain fuel' nl' w' m where step:
      "rx_step re ns s pos cl ts fuel1 nl1 w1 = Some (fuel', nl', w', m)"
      "step_post re s pos cl ts fuel1 nl1 fuel' nl' (m \<noteq> None)" by blast
    have "rx_step re ns s pos cl (t # ts) fuel nl w = Some (fuel', nl', w', m)"
      using 2 add(1) step(1) by (simp add: Let_def)
    moreover have "step_post re s pos cl (t # ts) fuel nl fuel' nl' (m \<noteq> None)"
      by (rule step_post_take [OF add(2) step(2) 2])
    ultimately show ?thesis by blast
  next
    case 3
    from Cons.IH [OF Cons.prems(1), of fuel w] Cons.prems(2) obtain fuel' nl' w' m where step:
      "rx_step re ns s pos cl ts fuel nl w = Some (fuel', nl', w', m)"
      "step_post re s pos cl ts fuel nl fuel' nl' (m \<noteq> None)" by auto
    then show ?thesis using 3 by (auto simp: step_post_def Let_def)
  qed
qed

section \<open>The whole run\<close>

text \<open>
  The positions a run from \<open>start\<close> seeds a thread at; what a list of threads may hold at a position
  (a list with no thread left keeps the members of an earlier position, and takes no seed again);
  what it must hold as long as nothing has matched.
\<close>

definition seeded :: "sl_rx \<Rightarrow> sl_bytes \<Rightarrow> nat \<Rightarrow> nat \<Rightarrow> bool" where
  "seeded re s start i \<longleftrightarrow> start \<le> i \<and> i \<le> length s \<and> (re_anchored_start re \<longrightarrow> i = start)"

definition sound_list :: "sl_rx \<Rightarrow> sl_bytes \<Rightarrow> nat \<Rightarrow> nat \<Rightarrow> sl_rx_list \<Rightarrow> bool" where
  "sound_list re s start pos l \<longleftrightarrow>
     (\<forall>pc\<in>set (rl_dense l). \<exists>i\<le>pos. seeded re s start i \<and> ((0, i), (pc, pos)) \<in> (rx_move re s)\<^sup>*) \<or>
     rl_tl l = [] \<and> (0 \<in> set (rl_dense l) \<or> re_anchored_start re \<and> start < pos)"

definition complete_list :: "sl_rx \<Rightarrow> sl_bytes \<Rightarrow> nat \<Rightarrow> nat \<Rightarrow> nat \<Rightarrow> sl_rx_list \<Rightarrow> bool" where
  "complete_list re s start lim pos l \<longleftrightarrow>
     (\<forall>i. seeded re s start i \<longrightarrow> \<not> rx_accepts re s i) \<or>
     covered re s pos l [] \<and>
     (\<forall>i pc. seeded re s start i \<longrightarrow> i < lim \<longrightarrow> ((0, i), (pc, pos)) \<in> (rx_move re s)\<^sup>* \<longrightarrow> pc \<in> set (rl_dense l)) \<and>
     (\<forall>i pc j. seeded re s start i \<longrightarrow> j < pos \<longrightarrow> ((0, i), (pc, j)) \<in> (rx_move re s)\<^sup>* \<longrightarrow> \<not> rx_matches_at re pc)"

text \<open>
  Whether a fresh thread is ever alive must not depend on the position. Where an assertion can
  kill it at one position and not at another, the list that keeps its members loses matches.
\<close>

definition alive_at :: "sl_rx \<Rightarrow> sl_bytes \<Rightarrow> nat \<Rightarrow> bool" where
  "alive_at re s pos \<longleftrightarrow> (\<exists>pc. (0, pc) \<in> (eps re s pos)\<^sup>* \<and> pc < length (re_prog re) \<and> is_thread re pc)"

definition rx_steady :: "sl_rx \<Rightarrow> sl_bytes \<Rightarrow> bool" where
  "rx_steady re s \<longleftrightarrow> re_anchored_start re \<or> (\<forall>i j. alive_at re s i \<longrightarrow> alive_at re s j)"

lemma rx_seed_ok:
  assumes "rl_inv re cl" and "1 + 2 * length (re_prog re) \<le> fuel"
  shows "\<exists>fuel' cl' w'. rx_seed re ns s start pos matched fuel cl w = Some (fuel', cl', w') \<and>
    rl_inv re cl' \<and> fuel \<le> fuel' + 1 + 2 * length (re_prog re) \<and>
    (if \<not> matched \<and> (re_anchored_start re \<longrightarrow> pos = start)
     then closure_post re s pos fuel cl [RXW_VISIT (int 0)] fuel' cl' else cl' = cl)"
proof (cases "\<not> matched \<and> (re_anchored_start re \<longrightarrow> pos = start)")
  case True
  have fuel: "1 + 2 * (length (re_prog re) - length (rl_dense cl)) \<le> fuel" using assms(2) by simp
  obtain fuel' cl' w' where
    "rx_seed re ns s start pos matched fuel cl w = Some (fuel', cl', w')"
    "closure_post re s pos fuel cl [RXW_VISIT (int 0)] fuel' cl'"
    using sl_rx_addthread_ok [OF assms(1) fuel, of ns s pos _ 0] True
    by (fastforce simp: rx_seed_def Let_def)
  with closure_postD(1,3) [OF this(2)] rl_dense_bound(1) show ?thesis
    using True by (fastforce intro!: exI)
next
  case False
  then show ?thesis using assms by (auto simp: rx_seed_def)
qed

text \<open>A list without threads is left as it is when it has the first instruction.\<close>

lemma rx_seed_stale:
  assumes "rl_inv re cl" and "0 \<in> set (rl_dense cl)" and "0 < fuel"
    and "rx_seed re ns s start pos matched fuel cl w = Some (fuel', cl', w')"
  shows "cl' = cl"
proof -
  obtain f where "fuel = Suc f" using assms(3) by (cases fuel) auto
  then show ?thesis using assms rl_has_iff [OF assms(1), of 0]
    by (auto simp: rx_seed_def sl_rx_addthread_def addthread_step_def Let_def split: if_splits)
qed

lemma sound_seed:
  assumes inv: "rl_inv re cl" and snd: "sound_list re s start pos cl" and pos: "start \<le> pos" "pos \<le> length s"
    and fuel: "0 < fuel" and seed: "rx_seed re ns s start pos matched fuel cl w = Some (fuel', cl', w')"
    and post: "if \<not> matched \<and> (re_anchored_start re \<longrightarrow> pos = start)
      then closure_post re s pos fuel cl [RXW_VISIT (int 0)] fuel' cl' else cl' = cl"
  shows "sound_list re s start pos cl'"
proof (cases "\<not> matched \<and> (re_anchored_start re \<longrightarrow> pos = start)")
  case True
  from snd consider "\<forall>pc\<in>set (rl_dense cl). \<exists>i\<le>pos. seeded re s start i \<and> ((0, i), (pc, pos)) \<in> (rx_move re s)\<^sup>*"
    | "rl_tl cl = []" "0 \<in> set (rl_dense cl)" using True by (auto simp: sound_list_def)
  then show ?thesis
  proof cases
    case 1
    have "closure_post re s pos fuel cl [RXW_VISIT (int 0)] fuel' cl'" using post True by presburger
    note new = closure_postD(4) [OF this]
    have "seeded re s start pos" using True pos by (auto simp: seeded_def)
    then show ?thesis unfolding sound_list_def using new 1 eps_move by blast
  next
    case 2
    then show ?thesis using rx_seed_stale [OF inv 2(2) fuel seed] snd by simp
  qed
next
  case False
  then show ?thesis using snd post by presburger
qed

lemma complete_seed:
  assumes cmp: "complete_list re s start pos pos cl" and pos: "start \<le> pos" "pos \<le> length s"
    and post: "if re_anchored_start re \<longrightarrow> pos = start
      then closure_post re s pos fuel cl [RXW_VISIT (int 0)] fuel' cl' else cl' = cl"
    and prog: "0 < length (re_prog re)"
  shows "complete_list re s start (Suc pos) pos cl'"
proof (cases "re_anchored_start re \<longrightarrow> pos = start")
  case True
  have "closure_post re s pos fuel cl [RXW_VISIT (int 0)] fuel' cl'" using post True by presburger
  note new = closure_postD [OF this]
  have "pc \<in> set (rl_dense cl')" if "covered re s pos cl []" "((0, pos), (pc, pos)) \<in> (rx_move re s)\<^sup>*" for pc
    using covered_eps_star [OF new(6) [OF that(1)] move_stay [OF that(2)]] new(5) [OF prog] by simp
  then show ?thesis using cmp new(2,6) unfolding complete_list_def less_Suc_eq by blast
next
  case False
  then have "\<not> seeded re s start pos" by (auto simp: seeded_def)
  then show ?thesis using False cmp post unfolding complete_list_def less_Suc_eq by metis
qed

lemma tl_empty_no_thread:
  assumes "rl_inv re l" and "rl_tl l = []" and "pc \<in> set (rl_dense l)"
  shows "\<not> is_thread re pc"
  using assms rl_invD(6) [OF assms(1)] by (metis in_set_conv_nth list.set(1) empty_iff)

lemma takes_thread: "rx_takes re s pos (re_prog re ! pc) \<Longrightarrow> is_thread re pc"
  by (auto simp: rx_takes_def is_thread_def Let_def split: rx_op.splits)

lemma matches_thread: "rx_matches_at re pc \<Longrightarrow> is_thread re pc"
  by (simp add: rx_matches_at_def is_thread_def)

lemma not_alive_not_accepts:
  assumes "\<not> alive_at re s i" and "0 < length (re_prog re)"
  shows "\<not> rx_accepts re s i"
proof
  assume "rx_accepts re s i"
  then obtain pc j where acc: "((0, i), (pc, j)) \<in> (rx_move re s)\<^sup>*" "rx_matches_at re pc" by (auto simp: rx_accepts_def)
  have stay: "\<not> is_thread re r" if "((0, i), (r, i)) \<in> (rx_move re s)\<^sup>*" for r
    using move_stay [OF that] move_in_prog [OF that assms(2)] assms(1) unfolding alive_at_def by blast
  then have "j \<le> i" using move_stuck [OF _ order_refl acc(1)] takes_thread by blast
  then have "j = i" using move_mono [OF acc(1)] by simp
  then show False using stay acc matches_thread by blast
qed

text \<open>A position at which no thread is left ends the search, where the program is steady.\<close>

lemma complete_stuck:
  assumes inv: "rl_inv re cl" "rl_tl cl = []" and cmp: "complete_list re s start (Suc pos) pos cl"
    and pos: "start \<le> pos" "pos \<le> length s" and st: "rx_steady re s" and prog: "0 < length (re_prog re)"
  shows "\<forall>i. seeded re s start i \<longrightarrow> \<not> rx_accepts re s i"
proof (cases "\<forall>i. seeded re s start i \<longrightarrow> \<not> rx_accepts re s i")
  case False
  have mem: "pc \<in> set (rl_dense cl)" if "seeded re s start i" "i \<le> pos" "((0, i), (pc, pos)) \<in> (rx_move re s)\<^sup>*" for i pc
    using cmp False that unfolding complete_list_def by auto
  have no: "\<not> rx_accepts re s i" if i: "seeded re s start i" "i \<le> pos" for i
  proof
    assume "rx_accepts re s i"
    then obtain pc j where acc: "((0, i), (pc, j)) \<in> (rx_move re s)\<^sup>*" "rx_matches_at re pc" by (auto simp: rx_accepts_def)
    have "j \<le> pos" by (rule move_stuck [OF _ i(2) acc(1)]) (use mem i tl_empty_no_thread [OF inv] takes_thread in blast)
    moreover have "\<not> j < pos" using cmp False i acc unfolding complete_list_def by blast
    ultimately show False using mem [OF i] acc tl_empty_no_thread [OF inv] matches_thread by (metis le_neq_implies_less)
  qed
  show ?thesis
  proof (cases "re_anchored_start re")
    case True
    then show ?thesis using no pos by (auto simp: seeded_def)
  next
    case False
    then have "seeded re s start pos" using pos by (simp add: seeded_def)
    then have "\<not> alive_at re s pos"
      using mem [of pos] eps_move tl_empty_no_thread [OF inv] unfolding alive_at_def by blast
    then show ?thesis using st False not_alive_not_accepts [OF _ prog] unfolding rx_steady_def by blast
  qed
qed blast

lemma sound_step:
  assumes snd: "sound_list re s start pos cl" "rl_tl cl \<noteq> []" and inv: "rl_inv re cl"
    and post: "step_post re s pos cl (rl_tl cl) fuel (rl_reset nl) fuel' nl' m"
    and pos: "start \<le> pos"
  shows "sound_list re s start (Suc pos) nl'" "m \<Longrightarrow> \<exists>i. seeded re s start i \<and> rx_accepts re s i"
proof -
  have reach: "\<exists>i\<le>pos. seeded re s start i \<and> ((0, i), (rl_dense cl ! t, pos)) \<in> (rx_move re s)\<^sup>* \<and>
      rl_dense cl ! t < length (re_prog re)" if "t \<in> set (rl_tl cl)" for t
    using snd rl_invD(2) [OF inv] rl_invD(4) [OF inv that] unfolding sound_list_def by (meson nth_mem subsetD lessThan_iff)
  note post = step_postD [OF post]
  have "\<exists>i\<le>Suc pos. seeded re s start i \<and> ((0, i), (pc, Suc pos)) \<in> (rx_move re s)\<^sup>*" if pc: "pc \<in> set (rl_dense nl')" for pc
  proof -
    obtain t where t: "t \<in> set (rl_tl cl)" "rx_takes re s pos (re_prog re ! (rl_dense cl ! t))"
      "(rl_dense cl ! t + 1, pc) \<in> (eps re s (Suc pos))\<^sup>*"
      using post(4) [OF pc] by (auto simp: rl_reset_def)
    obtain i where i: "i \<le> pos" "seeded re s start i" "((0, i), (rl_dense cl ! t, pos)) \<in> (rx_move re s)\<^sup>*"
      using reach [OF t(1)] by blast
    have "rl_dense cl ! t + 1 < length (re_prog re)"
    proof (rule ccontr)
      assume not: "\<not> rl_dense cl ! t + 1 < length (re_prog re)"
      then have "pc = rl_dense cl ! t + 1" using t(3) by (auto elim: converse_rtranclE simp: eps_def)
      then show False using not pc rl_invD(2) [OF post(1)] by auto
    qed
    then show ?thesis using move_take [OF i(3) t(2) _ t(3)] i(1,2) by (meson le_SucI)
  qed
  then show "sound_list re s start (Suc pos) nl'" by (simp add: sound_list_def)
  show "\<exists>i. seeded re s start i \<and> rx_accepts re s i" if m
    using post(5) [OF that] reach unfolding rx_accepts_def rx_matches_at_def by blast
qed

lemma complete_step:
  assumes cmp: "complete_list re s start (Suc pos) pos cl" and inv: "rl_inv re cl"
    and post: "step_post re s pos cl (rl_tl cl) fuel (rl_reset nl) fuel' nl' False"
  shows "complete_list re s start (Suc pos) (Suc pos) nl'"
proof (cases "\<forall>i. seeded re s start i \<longrightarrow> \<not> rx_accepts re s i")
  case False
  note post = step_postD [OF post]
  have cov: "covered re s (Suc pos) nl' []" by (rule post(3)) (simp add: covered_def rl_reset_def)
  have mem: "pc \<in> set (rl_dense cl)" if "seeded re s start i" "i \<le> pos" "((0, i), (pc, pos)) \<in> (rx_move re s)\<^sup>*" for i pc
    using cmp False that unfolding complete_list_def by auto
  have thread: "\<exists>t\<in>set (rl_tl cl). rl_dense cl ! t = pc" if "pc \<in> set (rl_dense cl)" "is_thread re pc" for pc
    using that rl_invD(6) [OF inv] by (metis in_set_conv_nth)
  have "pc \<in> set (rl_dense nl')" if i: "seeded re s start i" "i < Suc pos" "((0, i), (pc, Suc pos)) \<in> (rx_move re s)\<^sup>*" for i pc
  proof -
    obtain r where r: "((0, i), (r, pos)) \<in> (rx_move re s)\<^sup>*" "rx_takes re s pos (re_prog re ! r)"
      "r + 1 < length (re_prog re)" "(r + 1, pc) \<in> (eps re s (Suc pos))\<^sup>*"
      using move_last [OF i(3)] i(2) by auto
    obtain t where "t \<in> set (rl_tl cl)" "rl_dense cl ! t = r"
      using thread [OF mem [OF i(1) _ r(1)] takes_thread [OF r(2)]] i(2) by auto
    then have "r + 1 \<in> set (rl_dense nl')" using post(7) [of t] r(2,3) by simp
    then show ?thesis by (rule covered_eps_star [OF cov r(4)])
  qed
  moreover have "\<not> rx_matches_at re pc" if i: "seeded re s start i" "j < Suc pos" "((0, i), (pc, j)) \<in> (rx_move re s)\<^sup>*" for i pc j
  proof (cases "j = pos")
    case True
    then show ?thesis using mem [of i pc] i move_mono [OF i(3)] thread [of pc] matches_thread post(6)
      unfolding rx_matches_at_def by blast
  next
    case False2: False
    then have "j < pos" using i(2) by simp
    then show ?thesis using cmp False i unfolding complete_list_def by blast
  qed
  ultimately show ?thesis using cov unfolding complete_list_def by blast
qed (auto simp: complete_list_def)

text \<open>What the loop answers, from any lists it can have at a position.\<close>

definition run_answer :: "sl_rx \<Rightarrow> sl_bytes \<Rightarrow> nat \<Rightarrow> bool \<Rightarrow> bool" where
  "run_answer re s start m \<longleftrightarrow> (m \<longrightarrow> (\<exists>i. seeded re s start i \<and> rx_accepts re s i)) \<and>
     (rx_steady re s \<longrightarrow> (\<exists>i. seeded re s start i \<and> rx_accepts re s i) \<longrightarrow> m)"

lemma complete_end:
  assumes "complete_list re s start (Suc pos) (Suc pos) l" and "length s \<le> pos" and "seeded re s start i"
  shows "\<not> rx_accepts re s i"
proof
  assume acc: "rx_accepts re s i"
  then obtain pc j where pc: "((0, i), (pc, j)) \<in> (rx_move re s)\<^sup>*" "rx_matches_at re pc" by (auto simp: rx_accepts_def)
  have "j \<le> length s" using move_in_subject [OF pc(1)] assms(3) by (simp add: seeded_def)
  then show False using assms acc pc unfolding complete_list_def by (metis le_imp_less_Suc le_trans)
qed

lemma rx_loop_ok:
  assumes "rl_inv re cl" and "sound_list re s start pos cl"
    and "rx_steady re s \<Longrightarrow> \<not> matched \<Longrightarrow> complete_list re s start pos pos cl"
    and "matched \<Longrightarrow> \<exists>i. seeded re s start i \<and> rx_accepts re s i"
    and "start \<le> pos" "pos \<le> length s" and prog: "0 < length (re_prog re)"
    and "(Suc (length s) - pos) * (5 * length (re_prog re) + 1) \<le> fuel"
  shows "\<exists>fuel' m out'. rx_loop re ns want s start pos fuel cl nl w matched out = Some (fuel', m, out') \<and>
    run_answer re s start m"
  using assms
proof (induction "Suc (length s) - pos" arbitrary: pos fuel cl nl w matched out rule: less_induct)
  case less
  let ?N = "length (re_prog re)"
  note prems = less.prems
  show ?case
  proof (cases "rl_tl cl = [] \<and> matched")
    case True
    then show ?thesis using prems(4) by (subst rx_loop.simps) (auto simp: run_answer_def)
  next
    case False
    define rounds where "rounds = length s - pos"
    have "Suc (length s) - pos = Suc rounds" using prems(6) by (simp add: rounds_def)
    then have fuel: "rounds * (5 * ?N + 1) + (5 * ?N + 1) \<le> fuel" using prems(8) by simp
    then have fuel1: "1 + 2 * ?N \<le> fuel" "0 < fuel" by auto
    obtain fuel1 cl1 w1 where seed: "rx_seed re ns s start pos matched fuel cl w = Some (fuel1, cl1, w1)"
      "rl_inv re cl1" "fuel \<le> fuel1 + 1 + 2 * ?N"
      and seed_post: "if \<not> matched \<and> (re_anchored_start re \<longrightarrow> pos = start)
        then closure_post re s pos fuel cl [RXW_VISIT (int 0)] fuel1 cl1 else cl1 = cl"
      using rx_seed_ok [OF prems(1) fuel1(1)] by blast
    have snd1: "sound_list re s start pos cl1"
      by (rule sound_seed [OF prems(1,2,5,6) fuel1(2) seed(1) seed_post])
    have cmp1: "complete_list re s start (Suc pos) pos cl1" if "rx_steady re s" "\<not> matched"
      by (rule complete_seed [OF prems(3) [OF that] prems(5,6) _ prog]) (use seed_post that in simp)
    have fuel2: "3 * ?N + rounds * (5 * ?N + 1) \<le> fuel1" using fuel seed(3) by linarith
    show ?thesis
    proof (cases "rl_tl cl1 = []")
      case True
      have none: "\<forall>i. seeded re s start i \<longrightarrow> \<not> rx_accepts re s i" if "rx_steady re s" "\<not> matched"
        by (rule complete_stuck [OF seed(2) True cmp1 [OF that] prems(5,6) that(1) prog])
      show ?thesis
      proof (cases "length s \<le> pos")
        case fin: True
        then show ?thesis using False True seed(1) prems(4) none
          by (subst rx_loop.simps) (auto simp: run_answer_def)
      next
        case fin: False
        have "sound_list re s start (Suc pos) cl1"
        proof (cases "\<not> matched \<and> (re_anchored_start re \<longrightarrow> pos = start)")
          case seeded: True
          then have "0 \<in> set (rl_dense cl1)" using closure_postD(5) [of re s pos fuel cl 0 fuel1 cl1] seed_post prog by auto
          then show ?thesis using True by (simp add: sound_list_def)
        next
          case unseeded: False
          then have "cl1 = cl" using seed_post by presburger
          with unseeded False True prems(5) show ?thesis by (auto simp: sound_list_def)
        qed
        then have "\<exists>fuel' m out'. rx_loop re ns want s start (pos + 1) fuel1 cl1 nl w1 matched out = Some (fuel', m, out') \<and>
          run_answer re s start m"
          using fin prems(4,5) none fuel2 seed(2)
          by (intro less.hyps) (use prog in \<open>auto simp: complete_list_def rounds_def\<close>)
        then show ?thesis using False True fin seed(1) by (subst rx_loop.simps) auto
      qed
    next
      case tl: False
      have "length (rl_tl cl1) + 2 * (?N - length (rl_dense (rl_reset nl))) \<le> fuel1"
        using rl_dense_bound [OF seed(2)] fuel2 by simp
      from rx_step_ok [OF rl_inv_reset this, of ns s pos cl1 w1] obtain fuel' nl' w' m where step:
        "rx_step re ns s pos cl1 (rl_tl cl1) fuel1 (rl_reset nl) w1 = Some (fuel', nl', w', m)"
        "step_post re s pos cl1 (rl_tl cl1) fuel1 (rl_reset nl) fuel' nl' (m \<noteq> None)" by blast
      note sstep = sound_step [OF snd1 tl seed(2) step(2) prems(5)]
      have mat: "\<exists>i. seeded re s start i \<and> rx_accepts re s i" if "matched \<or> m \<noteq> None"
        using that sstep(2) prems(4) by blast
      have cmp2: "complete_list re s start (Suc pos) (Suc pos) nl'" if "rx_steady re s" "\<not> matched" "m = None"
        using complete_step [OF cmp1 [OF that(1,2)] seed(2)] step(2) that(3) by simp
      show ?thesis
      proof (cases "length s \<le> pos")
        case fin: True
        have "run_answer re s start (matched \<or> m \<noteq> None)"
          using mat complete_end [OF cmp2 fin] unfolding run_answer_def by blast
        then show ?thesis using False tl fin seed(1) step(1) by (subst rx_loop.simps) (auto simp: Let_def)
      next
        case fin: False
        have "rounds * (5 * ?N + 1) \<le> fuel'"
          using step_postD(2) [OF step(2)] rl_dense_bound [OF step_postD(1) [OF step(2)]] rl_dense_bound [OF seed(2)] fuel2
          by (simp add: rl_reset_def)
        then have "\<exists>fuel'' m' out'. rx_loop re ns want s start (pos + 1) fuel' nl' cl1 w' (matched \<or> m \<noteq> None)
            (rx_out want pos m out) = Some (fuel'', m', out') \<and> run_answer re s start m'"
          using fin prems(5) mat cmp2 sstep(1) step_postD(1) [OF step(2)]
          by (intro less.hyps) (use prog in \<open>auto simp: rounds_def\<close>)
        then show ?thesis using False tl fin seed(1) step(1) by (subst rx_loop.simps) (auto simp: Let_def)
      qed
    qed
  qed
qed

end
