(* ===== verification/Sl_Regex_Filter.thy ===== *)
theory Sl_Regex_Filter
  imports Sl_Regex_Machine
begin

text \<open>
  Byte classes as sets of bytes, the first-byte filter (what it excludes cannot begin a match),
  and the match core that skips by it.
\<close>

unbundle bit_operations_syntax

section \<open>Byte classes as sets\<close>

definition cls_ok :: "sl_rx_class \<Rightarrow> bool" where
  "cls_ok c \<longleftrightarrow> length c = 32"

definition cls_bytes :: "sl_rx_class \<Rightarrow> nat set" where
  "cls_bytes c = {b. b < 256 \<and> sl_rx_cls_has c b}"

lemma byte_index: "b AND 0xff = b mod 256" "b AND 7 = b mod 8" "drop_bit 3 (b AND 0xff) = b mod 256 div 8" for b :: nat
proof -
  have "b AND 0xff = take_bit 8 b" "b AND 7 = take_bit 3 b"
    using take_bit_eq_mask [of 8 b] take_bit_eq_mask [of 3 b] by (simp_all add: mask_eq_exp_minus_1)
  then show "b AND 0xff = b mod 256" "b AND 7 = b mod 8" by (simp_all add: take_bit_eq_mod)
  then show "drop_bit 3 (b AND 0xff) = b mod 256 div 8" by (simp add: drop_bit_eq_div)
qed

lemma cls_has_bit: "sl_rx_cls_has c b \<longleftrightarrow> bit (c ! (b mod 256 div 8)) (b mod 8)"
  unfolding sl_rx_cls_has_def byte_index(3) byte_index(2)
  by (simp add: and_one_eq bit_iff_odd_drop_bit odd_iff_mod_2_eq_one)

lemma cls_set_has:
  assumes "cls_ok c" and "b < 256" and "b' < 256"
  shows "sl_rx_cls_has (sl_rx_cls_set c b) b' \<longleftrightarrow> b' = b \<or> sl_rx_cls_has c b'"
proof -
  have "b div 8 < 32" "b' div 8 < 32" using assms by auto
  moreover have "b' = b \<longleftrightarrow> b' div 8 = b div 8 \<and> b' mod 8 = b mod 8" by (metis div_mult_mod_eq)
  moreover have "bit (push_bit (b mod 8) (1 :: byte)) (b' mod 8) \<longleftrightarrow> b' mod 8 = b mod 8"
    using mod_less_divisor [of 8 b'] by (auto simp: bit_simps)
  ultimately show ?thesis using assms unfolding cls_has_bit sl_rx_cls_set_def byte_index(3) byte_index(2)
    by (auto simp: cls_ok_def Let_def bit_or_iff nth_list_update)
qed

lemma cls_ok_simps [simp]:
  "cls_ok cls_empty" "cls_ok (sl_rx_cls_set c b) = cls_ok c" "cls_ok (sl_rx_cls_negate c) = cls_ok c"
  by (simp_all add: cls_ok_def cls_empty_def sl_rx_cls_set_def sl_rx_cls_negate_def Let_def)

lemma cls_ok_add [simp]: "cls_ok (cls_add c bs) = cls_ok c"
  unfolding cls_add_def by (induction bs arbitrary: c) auto

lemma cls_bytes_empty [simp]: "cls_bytes cls_empty = {}"
  by (auto simp: cls_bytes_def cls_has_bit cls_empty_def)

lemma cls_bytes_set: "cls_ok c \<Longrightarrow> b < 256 \<Longrightarrow> cls_bytes (sl_rx_cls_set c b) = insert b (cls_bytes c)"
  by (auto simp: cls_bytes_def cls_set_has)

lemma cls_bytes_add: "cls_ok c \<Longrightarrow> \<forall>b\<in>set bs. b < 256 \<Longrightarrow> cls_bytes (cls_add c bs) = cls_bytes c \<union> set bs"
  unfolding cls_add_def by (induction bs arbitrary: c) (auto simp: cls_bytes_set)

lemma cls_bytes_negate: "cls_ok c \<Longrightarrow> cls_bytes (sl_rx_cls_negate c) = {..<256} - cls_bytes c"
proof -
  assume "cls_ok c"
  then have "sl_rx_cls_has (sl_rx_cls_negate c) b \<longleftrightarrow> \<not> sl_rx_cls_has c b" if "b < 256" for b
    using that by (auto simp: cls_has_bit sl_rx_cls_negate_def cls_ok_def bit_simps)
  then show ?thesis by (auto simp: cls_bytes_def)
qed

lemma cls_bytes_add_filter:
  "cls_ok c \<Longrightarrow> cls_bytes (cls_add c (filter P [0..<256])) = cls_bytes c \<union> {b. b < 256 \<and> P b}"
  by (subst cls_bytes_add) auto

lemmas cls_bytes_simps = cls_bytes_set cls_bytes_add cls_bytes_negate

section \<open>The first-byte filter\<close>

text \<open>The bytes the instruction takes, for the instructions the filter accepts.\<close>

definition inst_bytes :: "sl_rx \<Rightarrow> nat \<Rightarrow> nat set" where
  "inst_bytes re pc =
     (let ins = re_prog re ! pc in
      case in_op ins of
        RX_BYTE \<Rightarrow> {arg_nat (in_arg ins)}
      | RX_CLASS \<Rightarrow> cls_bytes (re_classes re ! nat (in_cls ins))
      | _ \<Rightarrow> {})"

definition seen_set :: "bool list \<Rightarrow> nat set" where
  "seen_set seen = {pc. pc < length seen \<and> seen ! pc}"

lemma seen_set_update: "pc < length seen \<Longrightarrow> seen_set (seen[pc := True]) = insert pc (seen_set seen)"
  by (auto simp: seen_set_def nth_list_update)

definition byte_args :: "sl_rx \<Rightarrow> bool" where
  "byte_args re \<longleftrightarrow> (\<forall>ins\<in>set (re_prog re). in_op ins = RX_BYTE \<longrightarrow> arg_nat (in_arg ins) < 256)"

text \<open>
  The invariant of the loop: the instructions seen are harmless ones, with their successors seen
  or on the stack, reached at any position, and their bytes make up the set.
\<close>

definition first_inv :: "sl_rx \<Rightarrow> bool list \<Rightarrow> int list \<Rightarrow> sl_rx_class \<Rightarrow> bool" where
  "first_inv re seen stk first \<longleftrightarrow> cls_ok first \<and> length seen = length (re_prog re) \<and>
     (\<forall>pc\<in>seen_set seen. in_op (re_prog re ! pc) \<in> {RX_JMP, RX_SAVE, RX_SPLIT, RX_BYTE, RX_CLASS}) \<and>
     cls_bytes first = (\<Union>pc\<in>seen_set seen. inst_bytes re pc) \<and>
     (\<forall>pc\<in>seen_set seen. \<forall>q<length (re_prog re). \<forall>s pos. int q \<in> set (eps_to re s pos pc) \<longrightarrow> q \<in> seen_set seen \<or> int q \<in> set stk) \<and>
     (\<forall>s pos q. q < length (re_prog re) \<longrightarrow> q \<in> seen_set seen \<or> int q \<in> set stk \<longrightarrow> (0, q) \<in> (eps re s pos)\<^sup>*) \<and>
     length stk \<le> 1 + card (seen_set seen)"

lemma first_invD:
  assumes "first_inv re seen stk first"
  shows "cls_ok first" "length seen = length (re_prog re)"
    "pc \<in> seen_set seen \<Longrightarrow> in_op (re_prog re ! pc) \<in> {RX_JMP, RX_SAVE, RX_SPLIT, RX_BYTE, RX_CLASS}"
    "cls_bytes first = (\<Union>pc\<in>seen_set seen. inst_bytes re pc)"
    "pc \<in> seen_set seen \<Longrightarrow> q < length (re_prog re) \<Longrightarrow> int q \<in> set (eps_to re s pos pc) \<Longrightarrow> q \<in> seen_set seen \<or> int q \<in> set stk"
    "q < length (re_prog re) \<Longrightarrow> q \<in> seen_set seen \<or> int q \<in> set stk \<Longrightarrow> (0, q) \<in> (eps re s pos)\<^sup>*"
    "length stk \<le> 1 + card (seen_set seen)"
  using assms unfolding first_inv_def by blast+

definition first_post :: "sl_rx \<Rightarrow> sl_rx_class \<Rightarrow> bool" where
  "first_post re first \<longleftrightarrow> (\<exists>V. cls_bytes first = (\<Union>pc\<in>V. inst_bytes re pc) \<and> 0 \<in> V \<and> V \<subseteq> {..<length (re_prog re)} \<and>
     (\<forall>pc\<in>V. in_op (re_prog re ! pc) \<in> {RX_JMP, RX_SAVE, RX_SPLIT, RX_BYTE, RX_CLASS}) \<and>
     (\<forall>s pos. {pc. (0, pc) \<in> (eps re s pos)\<^sup>*} = V))"

lemma first_post_end:
  assumes inv: "first_inv re seen [] first" and "0 \<in> seen_set seen"
  shows "first_post re first"
proof -
  have "pc \<in> seen_set seen" if "(0, pc) \<in> (eps re s pos)\<^sup>*" for pc s pos
    using that
  proof (induction rule: rtrancl_induct)
    case (step q r)
    then have "r < length (re_prog re)" "int r \<in> set (eps_to re s pos q)" by (auto simp: eps_def)
    then show ?case using first_invD(5) [OF inv step(3), of r s pos] by simp
  qed (rule assms(2))
  moreover have sub: "seen_set seen \<subseteq> {..<length (re_prog re)}" using first_invD(2) [OF inv] by (auto simp: seen_set_def)
  moreover have "(0, pc) \<in> (eps re s pos)\<^sup>*" if "pc \<in> seen_set seen" for pc s pos
    using first_invD(6) [OF inv, of pc] that sub by auto
  ultimately show ?thesis using first_invD(3,4) [OF inv] assms(2) unfolding first_post_def
    by (intro exI [of _ "seen_set seen"]) blast
qed

lemma first_inv_skip:
  assumes inv: "first_inv re seen (pc # stk) first" and "pc < 0 \<or> pc \<ge> int (length seen) \<or> seen ! nat pc"
  shows "first_inv re seen stk first"
proof -
  have seen: "q \<in> seen_set seen" if "int q = pc" "q < length (re_prog re)" for q
    using assms(2) that first_invD(2) [OF inv] by (auto simp: seen_set_def)
  have "q \<in> seen_set seen \<or> int q \<in> set stk"
    if "r \<in> seen_set seen" "q < length (re_prog re)" "int q \<in> set (eps_to re s pos r)" for q r s pos
    using first_invD(5) [OF inv that] seen [OF _ that(2)] by auto
  moreover have "(0, q) \<in> (eps re s pos)\<^sup>*" if "q < length (re_prog re)" "q \<in> seen_set seen \<or> int q \<in> set stk" for q s pos
    using first_invD(6) [OF inv that(1)] that(2) by auto
  ultimately show ?thesis unfolding first_inv_def
    using first_invD(1,2,4) [OF inv] first_invD(3) [OF inv] first_invD(7) [OF inv] by simp
qed

lemma first_visit_cases:
  assumes "first_visit re pc stk first = Some (stk', first')" and "length stk < length (re_prog re)"
    and "cls_ok first" and "byte_args re" and "pc < length (re_prog re)"
  shows "cls_ok first'" "cls_bytes first' = cls_bytes first \<union> inst_bytes re pc"
    "in_op (re_prog re ! pc) \<in> {RX_JMP, RX_SAVE, RX_SPLIT, RX_BYTE, RX_CLASS}"
    "set stk' = set stk \<union> set (eps_to re s pos pc)" "length stk' \<le> length stk + 2"
proof -
  have "arg_nat (in_arg (re_prog re ! pc)) < 256" if "in_op (re_prog re ! pc) = RX_BYTE"
    using assms(4,5) that by (auto simp: byte_args_def)
  then show "cls_ok first'" "cls_bytes first' = cls_bytes first \<union> inst_bytes re pc"
    "in_op (re_prog re ! pc) \<in> {RX_JMP, RX_SAVE, RX_SPLIT, RX_BYTE, RX_CLASS}"
    "set stk' = set stk \<union> set (eps_to re s pos pc)" "length stk' \<le> length stk + 2"
    using assms(1-3)
    by (auto simp: first_visit_def eps_to_def inst_bytes_def cls_bytes_set cls_bytes_add_filter cls_bytes_def [of "_ ! _"] Let_def
        split: rx_op.splits if_splits)
qed

lemma first_visit_stack: "first_visit re pc stk first = Some (stk', first') \<Longrightarrow> set stk \<subseteq> set stk'"
  by (auto simp: first_visit_def Let_def split: rx_op.splits if_splits)

lemma first_inv_visit:
  assumes inv: "first_inv re seen (int pc # stk) first" and pc: "pc < length seen" "\<not> seen ! pc"
    and visit: "first_visit re pc stk first = Some (stk', first')" and re: "byte_args re"
  shows "first_inv re (seen[pc := True]) stk' first'"
proof -
  note i = first_invD [OF inv]
  let ?S = "seen_set seen"
  have p: "pc < length (re_prog re)" using pc i(2) by simp
  have fin: "finite ?S" "pc \<notin> ?S" "insert pc ?S \<subseteq> {..<length (re_prog re)}" using pc i(2) by (auto simp: seen_set_def)
  then have "card (insert pc ?S) \<le> card {..<length (re_prog re)}" by (intro card_mono) auto
  then have card: "card ?S < length (re_prog re)" using fin by simp
  have len: "length stk < length (re_prog re)" "length stk \<le> card ?S" using i(7) card by auto
  note v = first_visit_cases [OF visit len(1) i(1) re p]
  have seen: "seen_set (seen[pc := True]) = insert pc ?S" by (rule seen_set_update [OF pc(1)])
  have "(0, q) \<in> (eps re s pos)\<^sup>*" if q: "q < length (re_prog re)" "q \<in> insert pc ?S \<or> int q \<in> set stk'" for q s pos
  proof (cases "int q \<in> set (eps_to re s pos pc)")
    case True
    then have "(pc, q) \<in> eps re s pos" using q(1) p by (simp add: eps_def)
    with i(6) [OF p] show ?thesis by (auto intro: rtrancl_into_rtrancl)
  next
    case False
    then show ?thesis using i(6) [OF q(1)] i(6) [OF p] q(2) v(4) [of s pos] by auto
  qed
  moreover have "q \<in> insert pc ?S \<or> int q \<in> set stk'"
    if "r \<in> insert pc ?S" "q < length (re_prog re)" "int q \<in> set (eps_to re s pos r)" for q r s pos
  proof (cases "r = pc")
    case True
    then show ?thesis using that v(4) [of s pos] by auto
  next
    case False
    then show ?thesis using i(5) [of r q s pos] that v(4) [of s pos] by auto
  qed
  moreover have "length stk' \<le> 1 + card (insert pc ?S)" using v(5) len(2) fin by simp
  moreover have "cls_bytes first' = (\<Union>p\<in>insert pc ?S. inst_bytes re p)" using v(2) i(4) by auto
  moreover have "\<forall>r\<in>insert pc ?S. in_op (re_prog re ! r) \<in> {RX_JMP, RX_SAVE, RX_SPLIT, RX_BYTE, RX_CLASS}"
    using v(3) i(3) by blast
  ultimately show ?thesis unfolding first_inv_def seen using v(1) i(2) by (metis length_list_update)
qed

lemma first_loop_ok:
  assumes "byte_args re" and "first_inv re seen stk first" and "first_loop re seen stk first = Some first'"
    and "0 \<in> seen_set seen \<or> 0 \<in> set stk" and "0 < length (re_prog re)"
  shows "first_post re first'"
  using assms
proof (induction re seen stk first rule: first_loop.induct)
  case (1 re seen first)
  then show ?case using first_post_end by auto
next
  case (2 re seen pc stk first)
  note inv = 2(4)
  show ?case
  proof (cases "pc < 0 \<or> pc \<ge> int (length seen) \<or> seen ! nat pc")
    case True
    have "0 \<in> seen_set seen" if "pc = 0"
      using True that first_invD(2) [OF inv] 2(7) by (auto simp: seen_set_def)
    then have "0 \<in> seen_set seen \<or> 0 \<in> set stk" using 2(6) by auto
    then show ?thesis using 2(1) [OF True 2(3) first_inv_skip [OF inv True]] 2(5,7) True by simp
  next
    case False
    obtain stk' first1 where v: "first_visit re (nat pc) stk first = Some (stk', first1)"
      using 2(5) False by (auto split: option.splits)
    have pc: "nat pc < length seen" "\<not> seen ! nat pc" "int (nat pc) = pc" using False by auto
    have inv': "first_inv re (seen[nat pc := True]) stk' first1"
      using first_inv_visit [OF _ pc(1,2) v 2(3)] inv pc(3) by simp
    have "0 \<in> seen_set (seen[nat pc := True]) \<or> 0 \<in> set stk'"
      using 2(6) seen_set_update [OF pc(1)] first_visit_stack [OF v] pc(3) by auto
    then show ?thesis using 2(2) [OF False v refl 2(3) inv'] 2(5,7) False v by simp
  qed
qed

definition rx_filter_ok :: "sl_rx \<Rightarrow> bool" where
  "rx_filter_ok re \<longleftrightarrow> (re_has_first re \<longrightarrow> first_post re (re_first re) \<and> cls_bytes (re_first re) \<noteq> {})"

lemma sl_rx_compute_first_ok:
  assumes "byte_args re" and "0 < length (re_prog re)" and "sl_rx_compute_first re = (True, first)"
  shows "first_post re first \<and> cls_bytes first \<noteq> {}"
proof -
  let ?seen = "replicate (length (re_prog re)) False"
  have loop: "first_loop re ?seen [0] cls_empty = Some first"
    and count: "0 < length (filter (sl_rx_cls_has first) [0..<256])"
    using assms(3) by (auto simp: sl_rx_compute_first_def Let_def simp del: first_loop.simps split: option.splits)
  have empty: "seen_set ?seen = {}" by (auto simp: seen_set_def)
  have "first_inv re ?seen [0] cls_empty" by (simp add: first_inv_def empty)
  then have "first_post re first" using first_loop_ok [OF assms(1) _ loop _ assms(2)] by simp
  moreover have "cls_bytes first \<noteq> {}"
    using count by (auto simp: cls_bytes_def filter_empty_conv)
  ultimately show ?thesis by simp
qed

lemma takes_bytes:
  assumes "rx_takes re s i (re_prog re ! pc)" and "in_op (re_prog re ! pc) \<in> {RX_JMP, RX_SAVE, RX_SPLIT, RX_BYTE, RX_CLASS}"
  shows "i < length s" "unat (s ! i) \<in> inst_bytes re pc"
  using assms uint_lt2p [of "s ! i"] unsigned_less [of "s ! i"]
  by (auto simp: rx_takes_def inst_bytes_def cls_bytes_def Let_def split: rx_op.splits)

text \<open>A match begins with a byte of the filter, and a fresh thread is alive everywhere.\<close>

lemma filter_needed:
  assumes "first_post re first" and "rx_accepts re s i"
  shows "i < length s \<and> sl_rx_cls_has first (unat (s ! i))"
proof -
  obtain V where V: "cls_bytes first = (\<Union>pc\<in>V. inst_bytes re pc)"
    "\<And>pc. pc \<in> V \<Longrightarrow> in_op (re_prog re ! pc) \<in> {RX_JMP, RX_SAVE, RX_SPLIT, RX_BYTE, RX_CLASS}"
    "\<And>pc. (0, pc) \<in> (eps re s i)\<^sup>* \<Longrightarrow> pc \<in> V"
    using assms(1) unfolding first_post_def by (metis mem_Collect_eq)
  obtain pc j where acc: "((0, i), (pc, j)) \<in> (rx_move re s)\<^sup>*" "rx_matches_at re pc"
    using assms(2) by (auto simp: rx_accepts_def)
  have "\<exists>r. ((0, i), (r, i)) \<in> (rx_move re s)\<^sup>* \<and> rx_takes re s i (re_prog re ! r)"
  proof (rule ccontr)
    assume "\<not> ?thesis"
    then have "j \<le> i" using move_stuck [OF _ order_refl acc(1)] by blast
    then have "pc \<in> V" using move_mono [OF acc(1)] acc(1) V(3) move_stay by (metis le_antisym)
    then show False using V(2) acc(2) unfolding rx_matches_at_def by force
  qed
  then obtain r where r: "r \<in> V" "rx_takes re s i (re_prog re ! r)" using V(3) move_stay by blast
  have "unat (s ! i) \<in> cls_bytes first" using V(1) r(1) takes_bytes(2) [OF r(2) V(2) [OF r(1)]] by blast
  then show ?thesis using takes_bytes(1) [OF r(2) V(2) [OF r(1)]] by (simp add: cls_bytes_def)
qed

lemma filter_steady:
  assumes "first_post re first" and "cls_bytes first \<noteq> {}"
  shows "rx_steady re s"
proof -
  obtain V where V: "cls_bytes first = (\<Union>pc\<in>V. inst_bytes re pc)" "V \<subseteq> {..<length (re_prog re)}"
    "\<And>s pos. {pc. (0, pc) \<in> (eps re s pos)\<^sup>*} = V"
    using assms(1) unfolding first_post_def by blast
  obtain pc where pc: "pc \<in> V" "inst_bytes re pc \<noteq> {}" using assms(2) V(1) by blast
  then have "is_thread re pc"
    by (auto simp: inst_bytes_def is_thread_def Let_def split: rx_op.splits)
  then have "alive_at re s i" for i using pc(1) V(2,3) unfolding alive_at_def by blast
  then show ?thesis by (simp add: rx_steady_def)
qed

text \<open>
  The programs whose search misses nothing: those tied to the start, those with a first-byte
  filter, and those without assertions.
\<close>

definition rx_dependable :: "sl_rx \<Rightarrow> bool" where
  "rx_dependable re \<longleftrightarrow> re_anchored_start re \<or> re_has_first re \<or>
     list_all (\<lambda>ins. in_op ins \<noteq> RX_ASSERT) (re_prog re)"

lemma dependable_steady:
  assumes "rx_dependable re" and "rx_filter_ok re"
  shows "rx_steady re s"
proof -
  have "eps re s i = eps re s j" if "list_all (\<lambda>ins. in_op ins \<noteq> RX_ASSERT) (re_prog re)" for i j
  proof -
    have "eps_to re s i pc = eps_to re s j pc" if "pc < length (re_prog re)" for pc
      using \<open>list_all _ _\<close> that by (auto simp: eps_to_def Let_def list_all_length split: rx_op.split)
    then show ?thesis unfolding eps_def by auto
  qed
  then have "rx_steady re s" if "list_all (\<lambda>ins. in_op ins \<noteq> RX_ASSERT) (re_prog re)"
    using that unfolding rx_steady_def alive_at_def by metis
  then show ?thesis using assms filter_steady unfolding rx_dependable_def rx_filter_ok_def
    by (auto simp: rx_steady_def)
qed

lemma first_skip_ok:
  assumes "start \<le> length s"
  shows "start \<le> first_skip first s start \<and> first_skip first s start \<le> length s \<and>
    (\<forall>i. start \<le> i \<and> i < first_skip first s start \<longrightarrow> \<not> sl_rx_cls_has first (unat (s ! i)))"
  using assms
proof (induction first s start rule: first_skip.induct)
  case (1 first s p)
  show ?case
  proof (cases "p < length s \<and> \<not> sl_rx_cls_has first (unat (s ! p))")
    case True
    then have "first_skip first s p = first_skip first s (p + 1)" by (subst first_skip.simps) simp
    then show ?thesis using 1 True by (auto simp: Suc_le_eq) (metis le_eq_less_or_eq)
  next
    case False
    then show ?thesis using 1(2) by (subst (1 2 3) first_skip.simps) auto
  qed
qed

text \<open>A run from any scratch memory answers, within the budget.\<close>

lemma sl_rx_run_ok:
  assumes "0 < length (re_prog re)" and "start \<le> length s" and "rx_budget re s \<le> fuel"
  shows "\<exists>fuel' m out'. sl_rx_run re ns want s start fuel mem out = Some (fuel', m, out') \<and> run_answer re s start m"
  unfolding sl_rx_run_def
proof (rule rx_loop_ok)
  show "sound_list re s start start (rl_reset (fst mem))" by (simp add: sound_list_def rl_reset_def)
  have "\<not> (i < start \<and> seeded re s start i)" for i by (simp add: seeded_def)
  moreover have "\<not> (j < start \<and> seeded re s start i \<and> ((0, i), (pc, j)) \<in> (rx_move re s)\<^sup>*)" for i j pc
    using move_mono [of 0 i pc j re s] by (auto simp: seeded_def)
  ultimately show "complete_list re s start start start (rl_reset (fst mem))"
    unfolding complete_list_def covered_def by (auto simp: rl_reset_def)
  have "(Suc (length s) - start) * (5 * length (re_prog re) + 1) \<le> rx_budget re s"
    unfolding rx_budget_def by (intro mult_le_mono) auto
  then show "(Suc (length s) - start) * (5 * length (re_prog re) + 1) \<le> fuel" using assms(3) by simp
qed (use assms rl_inv_reset in auto)

lemma sl_rx_match_core_ok:
  assumes re: "0 < length (re_prog re)" "rx_filter_ok re" and s: "start \<le> length s" "rx_budget re s \<le> fuel"
  shows "\<exists>fuel' m out'. sl_rx_match_core re s start fuel mem out want = Some (fuel', m, out') \<and> run_answer re s start m"
proof (cases "re_has_first re \<and> \<not> re_anchored_start re")
  case True
  define p where "p = first_skip (re_first re) s start"
  have p: "start \<le> p" "p \<le> length s" "\<And>i. start \<le> i \<Longrightarrow> i < p \<Longrightarrow> \<not> sl_rx_cls_has (re_first re) (unat (s ! i))"
    using first_skip_ok [OF s(1), of "re_first re"] by (auto simp: p_def)
  have post: "first_post re (re_first re)" using True re(2) by (simp add: rx_filter_ok_def)
  have same: "seeded re s p i \<and> rx_accepts re s i \<longleftrightarrow> seeded re s start i \<and> rx_accepts re s i" for i
    using filter_needed [OF post, of s i] p True by (auto simp: seeded_def) (meson not_le)
  show ?thesis
  proof (cases "length s \<le> p")
    case len: True
    have "\<not> (seeded re s start i \<and> rx_accepts re s i)" for i
      using same [of i] filter_needed [OF post, of s i] len p(2) by (auto simp: seeded_def)
    then show ?thesis using True len s(1) by (auto simp: sl_rx_match_core_def Let_def p_def run_answer_def)
  next
    case False
    then show ?thesis using sl_rx_run_ok [OF re(1) p(2) s(2)] True s(1) same
      by (simp add: sl_rx_match_core_def Let_def p_def run_answer_def)
  qed
next
  case False
  then show ?thesis using sl_rx_run_ok [OF re(1) s] s(1) by (auto simp: sl_rx_match_core_def Let_def)
qed

end
