(* ===== verification/Sl_Regex_Code.thy ===== *)
theory Sl_Regex_Code
  imports Sl_Regex_Filter
begin

text \<open>
  The emitter of \<open>Sl_Regex\<close> and the meaning of its code. The code of a tree is given without
  patching, and the emitter is shown to append it; the meaning of a tree is a relation between
  positions, and its code is shown to realise it.
\<close>

section \<open>The code of a tree\<close>

text \<open>
  The code a tree stands for at a start address, with its jumps to their final targets and no
  patching. Its length does not depend on the address.
\<close>

definition split_inst :: "bool \<Rightarrow> nat \<Rightarrow> nat \<Rightarrow> sl_rx_inst" where
  "split_inst greedy a b =
     (new_inst RX_SPLIT (Arg 0) (- 1))\<lparr>in_x := int (if greedy then a else b), in_y := int (if greedy then b else a)\<rparr>"

definition jump_inst :: "nat \<Rightarrow> sl_rx_inst" where
  "jump_inst a = (new_inst RX_JMP (Arg 0) (- 1))\<lparr>in_x := int a\<rparr>"

primrec code_len :: "sl_rx_node \<Rightarrow> nat" where
  "code_len N_EMPTY = 0"
| "code_len (N_BYTE v) = 1"
| "code_len (N_CLASS i) = 1"
| "code_len N_ANY = 1"
| "code_len N_ANYNL = 1"
| "code_len (N_CAT a b) = code_len a + code_len b"
| "code_len (N_ALT a b) = code_len a + code_len b + 2"
| "code_len (N_STAR a greedy) = code_len a + 2"
| "code_len (N_PLUS a greedy) = code_len a + 1"
| "code_len (N_QUEST a greedy) = code_len a + 1"
| "code_len (N_REP a rmin rmax greedy) =
     rmin * code_len a + (case rmax of None \<Rightarrow> code_len a + 2 | Some m \<Rightarrow> (m - rmin) * (code_len a + 1))"
| "code_len (N_GROUP g a) = code_len a + 2"
| "code_len (N_ASSERT k) = 1"

definition code_star :: "(nat \<Rightarrow> sl_rx_inst list) \<Rightarrow> nat \<Rightarrow> bool \<Rightarrow> nat \<Rightarrow> sl_rx_inst list" where
  "code_star c len greedy st = split_inst greedy (st + 1) (st + len + 2) # c (st + 1) @ [jump_inst st]"

primrec code_copies :: "(nat \<Rightarrow> sl_rx_inst list) \<Rightarrow> nat \<Rightarrow> nat \<Rightarrow> nat \<Rightarrow> sl_rx_inst list" where
  "code_copies c len 0 st = []"
| "code_copies c len (Suc k) st = c st @ code_copies c len k (st + len)"

primrec code_opts :: "(nat \<Rightarrow> sl_rx_inst list) \<Rightarrow> nat \<Rightarrow> bool \<Rightarrow> nat \<Rightarrow> nat \<Rightarrow> nat \<Rightarrow> sl_rx_inst list" where
  "code_opts c len greedy fin 0 st = []"
| "code_opts c len greedy fin (Suc k) st =
     split_inst greedy (st + 1) fin # c (st + 1) @ code_opts c len greedy fin k (st + 1 + len)"

primrec code_of :: "sl_rx_node \<Rightarrow> nat \<Rightarrow> sl_rx_inst list" where
  "code_of N_EMPTY st = []"
| "code_of (N_BYTE v) st = [new_inst RX_BYTE (Arg (v mod 256)) (- 1)]"
| "code_of (N_CLASS i) st = [new_inst RX_CLASS (Arg 0) (int i)]"
| "code_of N_ANY st = [new_inst RX_ANY (Arg 0) (- 1)]"
| "code_of N_ANYNL st = [new_inst RX_ANYNL (Arg 0) (- 1)]"
| "code_of (N_CAT a b) st = code_of a st @ code_of b (st + code_len a)"
| "code_of (N_ALT a b) st =
     split_inst True (st + 1) (st + code_len a + 2) # code_of a (st + 1) @
     jump_inst (st + code_len a + code_len b + 2) # code_of b (st + code_len a + 2)"
| "code_of (N_STAR a greedy) st = code_star (code_of a) (code_len a) greedy st"
| "code_of (N_PLUS a greedy) st = code_of a st @ [split_inst greedy st (st + code_len a + 1)]"
| "code_of (N_QUEST a greedy) st = split_inst greedy (st + 1) (st + code_len a + 1) # code_of a (st + 1)"
| "code_of (N_REP a rmin rmax greedy) st =
     code_copies (code_of a) (code_len a) rmin st @
     (let st = st + rmin * code_len a in
      case rmax of
        None \<Rightarrow> code_star (code_of a) (code_len a) greedy st
      | Some m \<Rightarrow> code_opts (code_of a) (code_len a) greedy (st + (m - rmin) * (code_len a + 1)) (m - rmin) st)"
| "code_of (N_GROUP g a) st =
     new_inst RX_SAVE (Arg (2 * g mod 256)) (- 1) # code_of a (st + 1) @
     [new_inst RX_SAVE (Arg ((2 * g + 1) mod 256)) (- 1)]"
| "code_of (N_ASSERT k) st = [new_inst RX_ASSERT (Arg_Assert k) (- 1)]"

lemma length_code_copies: "(\<And>st. length (c st) = len) \<Longrightarrow> length (code_copies c len k st) = k * len"
  by (induction k arbitrary: st) auto

lemma length_code_opts: "(\<And>st. length (c st) = len) \<Longrightarrow> length (code_opts c len greedy fin k st) = k * (len + 1)"
  by (induction k arbitrary: st) auto

lemma length_code_of [simp]: "length (code_of nd st) = code_len nd"
  by (induction nd arbitrary: st)
    (auto simp: code_star_def length_code_copies length_code_opts Let_def split: option.split)

section \<open>The emitter appends the code\<close>

definition upd_at :: "('a \<Rightarrow> 'a) \<Rightarrow> nat \<Rightarrow> 'a list \<Rightarrow> 'a list" where
  "upd_at h i xs = xs[i := h (xs ! i)]"

lemma upd_at_length [simp]: "length (upd_at h i xs) = length xs"
  by (simp add: upd_at_def)

lemma upd_at_here [simp]: "length xs = i \<Longrightarrow> upd_at h i (xs @ y # ys) = xs @ h y # ys"
  by (auto simp: upd_at_def nth_append)

lemma upd_at_commute: "upd_at h i (upd_at h j xs) = upd_at h j (upd_at h i xs)"
proof (cases "i = j \<or> i \<ge> length xs \<or> j \<ge> length xs")
  case False
  then show ?thesis by (simp add: upd_at_def list_update_swap)
qed (auto simp: upd_at_def list_update_beyond)

lemma upd_at_fold: "upd_at h i (fold (upd_at h) js xs) = fold (upd_at h) js (upd_at h i xs)"
  by (induction js arbitrary: xs) (simp_all add: upd_at_commute)

abbreviation with_prog :: "sl_rx_emit_ctx \<Rightarrow> sl_rx_inst list \<Rightarrow> sl_rx_emit_ctx" where
  "with_prog ec p \<equiv> ec\<lparr>ec_prog := p\<rparr>"

lemma patch_upd:
  "patch_x i v ec = with_prog ec (upd_at (in_x_update (\<lambda>_. v)) i (ec_prog ec))"
  "patch_y i v ec = with_prog ec (upd_at (in_y_update (\<lambda>_. v)) i (ec_prog ec))"
  by (simp_all add: patch_x_def patch_y_def upd_at_def)

text \<open>
  An emitter appends code of a fixed length where it fits under the ceiling, and fails where it
  does not; once it has failed it does nothing.
\<close>

definition emits :: "(sl_rx_emit_ctx \<Rightarrow> sl_rx_emit_ctx) \<Rightarrow> nat \<Rightarrow> (nat \<Rightarrow> sl_rx_inst list) \<Rightarrow> bool" where
  "emits f len c \<longleftrightarrow> (\<forall>st. length (c st) = len) \<and> (\<forall>ec. ec_failed ec \<longrightarrow> f ec = ec) \<and>
     (\<forall>ec. \<not> ec_failed ec \<longrightarrow> length (ec_prog ec) \<le> SL_RX_MAX_INSTS \<longrightarrow>
        (if length (ec_prog ec) + len \<le> SL_RX_MAX_INSTS
         then f ec = with_prog ec (ec_prog ec @ c (length (ec_prog ec))) else ec_failed (f ec)))"

lemma emitsI:
  assumes "\<And>st. length (c st) = len" and "\<And>ec. ec_failed ec \<Longrightarrow> f ec = ec"
    and "\<And>ec. \<not> ec_failed ec \<Longrightarrow> length (ec_prog ec) + len \<le> SL_RX_MAX_INSTS \<Longrightarrow>
      f ec = with_prog ec (ec_prog ec @ c (length (ec_prog ec)))"
    and "\<And>ec. \<not> ec_failed ec \<Longrightarrow> length (ec_prog ec) \<le> SL_RX_MAX_INSTS \<Longrightarrow>
      SL_RX_MAX_INSTS < length (ec_prog ec) + len \<Longrightarrow> ec_failed (f ec)"
  shows "emits f len c"
  using assms by (simp add: emits_def)

lemma emitsD:
  assumes "emits f len c"
  shows "length (c st) = len" "ec_failed ec \<Longrightarrow> f ec = ec"
    "\<not> ec_failed ec \<Longrightarrow> length (ec_prog ec) + len \<le> SL_RX_MAX_INSTS \<Longrightarrow>
      f ec = with_prog ec (ec_prog ec @ c (length (ec_prog ec)))"
    "\<not> ec_failed ec \<Longrightarrow> length (ec_prog ec) \<le> SL_RX_MAX_INSTS \<Longrightarrow>
      SL_RX_MAX_INSTS < length (ec_prog ec) + len \<Longrightarrow> ec_failed (f ec)"
  using assms by (simp_all add: emits_def)

lemma emits_cong: "emits f len c \<Longrightarrow> (\<And>ec. g ec = f ec) \<Longrightarrow> m = len \<Longrightarrow> (\<And>st. d st = c st) \<Longrightarrow> emits g m d"
  by (simp add: emits_def)

lemma emit1_cases:
  "ec_failed ec \<Longrightarrow> sl_rx_emit1 opc arg cls ec = (0, ec)"
  "\<not> ec_failed ec \<Longrightarrow> length (ec_prog ec) < SL_RX_MAX_INSTS \<Longrightarrow>
     sl_rx_emit1 opc arg cls ec = (length (ec_prog ec), with_prog ec (ec_prog ec @ [new_inst opc arg cls]))"
  "\<not> ec_failed ec \<Longrightarrow> SL_RX_MAX_INSTS \<le> length (ec_prog ec) \<Longrightarrow>
     sl_rx_emit1 opc arg cls ec = (0, ec\<lparr>ec_failed := True\<rparr>)"
  by (auto simp: sl_rx_emit1_def)

lemma emits_emit1: "emits (\<lambda>ec. snd (sl_rx_emit1 opc arg cls ec)) 1 (\<lambda>st. [new_inst opc arg cls])"
  by (rule emitsI) (auto simp: emit1_cases)

lemma emits_empty: "emits (\<lambda>ec. ec) 0 (\<lambda>st. [])"
  by (rule emitsI) auto

lemma emits_seq:
  assumes "emits f m c" and "emits g n d"
  shows "emits (\<lambda>ec. g (f ec)) (m + n) (\<lambda>st. c st @ d (st + m))"
proof (rule emitsI)
  fix ec :: sl_rx_emit_ctx
  note f = emitsD [OF assms(1)] and g = emitsD [OF assms(2)]
  let ?ec = "with_prog ec (ec_prog ec @ c (length (ec_prog ec)))"
  show "length (c st @ d (st + m)) = m + n" for st by (simp add: f(1) g(1))
  show "g (f ec) = ec" if "ec_failed ec" by (simp add: f(2) g(2) that)
  assume ok: "\<not> ec_failed ec"
  show "g (f ec) = with_prog ec (ec_prog ec @ c (length (ec_prog ec)) @ d (length (ec_prog ec) + m))"
    if "length (ec_prog ec) + (m + n) \<le> SL_RX_MAX_INSTS"
    using that ok f(3) [OF ok] g(3) [of ?ec] f(1) by simp
  show "ec_failed (g (f ec))"
    if len: "length (ec_prog ec) \<le> SL_RX_MAX_INSTS" "SL_RX_MAX_INSTS < length (ec_prog ec) + (m + n)"
  proof (cases "length (ec_prog ec) + m \<le> SL_RX_MAX_INSTS")
    case True
    then show ?thesis using len ok f(3) [OF ok] g(4) [of ?ec] f(1) by simp
  next
    case False
    then show ?thesis using f(4) [OF ok len(1)] g(2) by simp
  qed
qed

lemma patch_split_here:
  assumes "ec_prog ec = p @ new_inst RX_SPLIT (Arg 0) (- 1) # q" and "n = length (ec_prog ec)" and "i = length p"
  shows "patch_split i greedy (int a) ec = with_prog ec (p @ split_inst greedy a n # q)"
  using assms by (simp add: patch_split_def patch_upd ec_n_def split_inst_def new_inst_def)

lemma patch_jump_here:
  assumes "ec_prog ec = p @ new_inst RX_JMP (Arg 0) (- 1) # q" and "i = length p"
  shows "patch_x i (int a) ec = with_prog ec (p @ jump_inst a # q)"
  using assms by (simp add: patch_upd jump_inst_def new_inst_def)

abbreviation emit_op :: "rx_op \<Rightarrow> sl_rx_emit_ctx \<Rightarrow> sl_rx_emit_ctx" where
  "emit_op opc ec \<equiv> snd (sl_rx_emit1 opc (Arg 0) (- 1) ec)"

lemma emits_star:
  assumes "emits body len c"
  shows "emits (sl_rx_emit_star body greedy) (len + 2) (code_star c len greedy)"
proof (rule emitsI)
  note b = emitsD [OF assms]
  show "length (code_star c len greedy st) = len + 2" for st by (simp add: code_star_def b(1))
  fix ec :: sl_rx_emit_ctx
  show "sl_rx_emit_star body greedy ec = ec" if "ec_failed ec"
    using that by (simp add: sl_rx_emit_star_def emit1_cases(1) b(2))
  assume ok: "\<not> ec_failed ec"
  show "sl_rx_emit_star body greedy ec = with_prog ec (ec_prog ec @ code_star c len greedy (length (ec_prog ec)))"
    if fit: "length (ec_prog ec) + (len + 2) \<le> SL_RX_MAX_INSTS"
  proof -
    let ?n = "length (ec_prog ec)" and ?sp = "new_inst RX_SPLIT (Arg 0) (- 1)"
    let ?ec = "with_prog ec (ec_prog ec @ ?sp # c (Suc ?n) @ [new_inst RX_JMP (Arg 0) (- 1)])"
    have "sl_rx_emit_star body greedy ec = patch_split ?n greedy (int (Suc ?n)) (patch_x (Suc (?n + len)) (int ?n) ?ec)"
      using ok fit b(1) by (simp add: sl_rx_emit_star_def emit1_cases(2) b(3) ec_n_def)
    also have "patch_x (Suc (?n + len)) (int ?n) ?ec = with_prog ec (ec_prog ec @ ?sp # c (Suc ?n) @ [jump_inst ?n])"
      using patch_jump_here [of ?ec "ec_prog ec @ ?sp # c (Suc ?n)" "[]" "Suc (?n + len)" ?n] b(1) by simp
    finally show ?thesis by (subst (asm) patch_split_here) (auto simp: code_star_def b(1))
  qed
  show "ec_failed (sl_rx_emit_star body greedy ec)"
    if "length (ec_prog ec) \<le> SL_RX_MAX_INSTS" "SL_RX_MAX_INSTS < length (ec_prog ec) + (len + 2)"
  proof -
    have "ec_failed (emit_op RX_JMP (body (emit_op RX_SPLIT ec)))"
      using emitsD(4) [OF emits_seq [OF emits_seq [OF emits_emit1 assms] emits_emit1] ok that(1)] that(2) by simp
    then show ?thesis by (auto simp: sl_rx_emit_star_def Let_def split: prod.split)
  qed
qed

definition emit_quest :: "(sl_rx_emit_ctx \<Rightarrow> sl_rx_emit_ctx) \<Rightarrow> bool \<Rightarrow> sl_rx_emit_ctx \<Rightarrow> sl_rx_emit_ctx" where
  "emit_quest body greedy ec =
     (let (sp, ec) = sl_rx_emit1 RX_SPLIT (Arg 0) (- 1) ec; start = ec_n ec; ec = body ec
      in if ec_failed ec then ec else patch_split sp greedy start ec)"

definition emit_plus :: "(sl_rx_emit_ctx \<Rightarrow> sl_rx_emit_ctx) \<Rightarrow> bool \<Rightarrow> sl_rx_emit_ctx \<Rightarrow> sl_rx_emit_ctx" where
  "emit_plus body greedy ec =
     (let start = ec_n ec; ec = body ec; (sp, ec) = sl_rx_emit1 RX_SPLIT (Arg 0) (- 1) ec
      in if ec_failed ec then ec else patch_split sp greedy start ec)"

lemma emits_quest:
  assumes "emits body len c"
  shows "emits (emit_quest body greedy) (len + 1) (\<lambda>st. split_inst greedy (st + 1) (st + len + 1) # c (st + 1))"
proof (rule emitsI)
  note b = emitsD [OF assms]
  show "length (split_inst greedy (st + 1) (st + len + 1) # c (st + 1)) = len + 1" for st by (simp add: b(1))
  fix ec :: sl_rx_emit_ctx
  let ?n = "length (ec_prog ec)" and ?sp = "new_inst RX_SPLIT (Arg 0) (- 1)"
  show "emit_quest body greedy ec = ec" if "ec_failed ec" using that by (simp add: emit_quest_def emit1_cases(1) b(2))
  assume ok: "\<not> ec_failed ec"
  show "emit_quest body greedy ec = with_prog ec (ec_prog ec @ split_inst greedy (?n + 1) (?n + len + 1) # c (?n + 1))"
    if fit: "?n + (len + 1) \<le> SL_RX_MAX_INSTS"
  proof -
    have "emit_quest body greedy ec = patch_split ?n greedy (int (Suc ?n)) (with_prog ec (ec_prog ec @ ?sp # c (Suc ?n)))"
      using ok fit b(1) by (simp add: emit_quest_def emit1_cases(2) b(3) ec_n_def)
    then show ?thesis by (subst (asm) patch_split_here) (auto simp: b(1))
  qed
  show "ec_failed (emit_quest body greedy ec)"
    if "?n \<le> SL_RX_MAX_INSTS" "SL_RX_MAX_INSTS < ?n + (len + 1)"
  proof -
    have "ec_failed (body (emit_op RX_SPLIT ec))"
      using emitsD(4) [OF emits_seq [OF emits_emit1 assms] ok that(1)] that(2) by simp
    then show ?thesis by (auto simp: emit_quest_def Let_def split: prod.split)
  qed
qed

lemma emits_plus:
  assumes "emits body len c"
  shows "emits (emit_plus body greedy) (len + 1) (\<lambda>st. c st @ [split_inst greedy st (st + len + 1)])"
proof (rule emitsI)
  note b = emitsD [OF assms]
  show "length (c st @ [split_inst greedy st (st + len + 1)]) = len + 1" for st by (simp add: b(1))
  fix ec :: sl_rx_emit_ctx
  let ?n = "length (ec_prog ec)" and ?sp = "new_inst RX_SPLIT (Arg 0) (- 1)"
  show "emit_plus body greedy ec = ec" if "ec_failed ec" using that by (simp add: emit_plus_def emit1_cases(1) b(2))
  assume ok: "\<not> ec_failed ec"
  show "emit_plus body greedy ec = with_prog ec (ec_prog ec @ c ?n @ [split_inst greedy ?n (?n + len + 1)])"
    if fit: "?n + (len + 1) \<le> SL_RX_MAX_INSTS"
  proof -
    have "emit_plus body greedy ec = patch_split (?n + len) greedy (int ?n) (with_prog ec ((ec_prog ec @ c ?n) @ ?sp # []))"
      using ok fit b(1) by (simp add: emit_plus_def emit1_cases(2) b(3) ec_n_def)
    then show ?thesis
      by (subst (asm) patch_split_here [where p = "ec_prog ec @ c ?n" and q = "[]"]) (auto simp: b(1))
  qed
  show "ec_failed (emit_plus body greedy ec)"
    if "?n \<le> SL_RX_MAX_INSTS" "SL_RX_MAX_INSTS < ?n + (len + 1)"
  proof -
    have "ec_failed (emit_op RX_SPLIT (body ec))"
      using emitsD(4) [OF emits_seq [OF assms emits_emit1] ok that(1)] that(2) by simp
    then show ?thesis by (auto simp: emit_plus_def Let_def split: prod.split)
  qed
qed

lemma emits_copies:
  assumes "emits body len c"
  shows "emits (rep_copies body k) (k * len) (code_copies c len k)"
proof (induction k)
  case 0
  have "rep_copies body 0 = (\<lambda>ec. ec)" "code_copies c len 0 = (\<lambda>st. [])" by auto
  then show ?case using emits_empty by simp
next
  case (Suc k)
  have "rep_copies body (Suc k) = (\<lambda>ec. rep_copies body k (body ec))"
    using emitsD(2) [OF assms] emitsD(2) [OF Suc] by (auto simp: fun_eq_iff)
  moreover have "code_copies c len (Suc k) = (\<lambda>st. c st @ code_copies c len k (st + len))" by auto
  ultimately show ?case using emits_seq [OF assms Suc] by simp
qed

text \<open>The optional copies, whose splits get their other target last.\<close>

definition opt_target :: "bool \<Rightarrow> nat \<Rightarrow> sl_rx_inst \<Rightarrow> sl_rx_inst" where
  "opt_target greedy fin ins =
     (if greedy then ins\<lparr>in_y := int fin\<rparr> else ins\<lparr>in_y := in_x ins, in_x := int fin\<rparr>)"

lemma patch_opt_fold:
  "fold (patch_opt greedy) sps ec = with_prog ec (fold (upd_at (opt_target greedy (length (ec_prog ec)))) sps (ec_prog ec))"
proof (induction sps arbitrary: ec)
  case (Cons sp sps)
  have "patch_opt greedy sp ec = with_prog ec (upd_at (opt_target greedy (length (ec_prog ec))) sp (ec_prog ec))"
    by (cases "sp < length (ec_prog ec)")
      (auto simp: patch_opt_def patch_upd opt_target_def ec_n_def upd_at_def list_update_beyond)
  then show ?case by (simp add: Cons)
qed simp

lemma rep_opts_ok:
  assumes "emits body len c" and "\<not> ec_failed ec" and "length (ec_prog ec) \<le> SL_RX_MAX_INSTS"
  shows "if length (ec_prog ec) + k * (len + 1) \<le> SL_RX_MAX_INSTS
    then \<exists>sps p. rep_opts body k ec = (sps, with_prog ec p) \<and>
      (\<forall>fin. fold (upd_at (opt_target greedy fin)) sps p = ec_prog ec @ code_opts c len greedy fin k (length (ec_prog ec)))
    else ec_failed (snd (rep_opts body k ec))"
  using assms(2,3)
proof (induction k arbitrary: ec)
  case 0
  then show ?case by simp
next
  case (Suc k)
  note b = emitsD [OF assms(1)]
  let ?n = "length (ec_prog ec)"
  let ?sp = "(new_inst RX_SPLIT (Arg 0) (- 1))\<lparr>in_x := int (Suc ?n)\<rparr>"
  let ?ec1 = "with_prog ec (ec_prog ec @ [?sp])" and ?ec2 = "with_prog ec (ec_prog ec @ ?sp # c (Suc ?n))"
  show ?case
  proof (cases "?n < SL_RX_MAX_INSTS")
    case True
    have "patch_x ?n (1 + int ?n) (with_prog ec (ec_prog ec @ [new_inst RX_SPLIT (Arg 0) (- 1)])) = ?ec1"
      by (simp add: patch_upd)
    then have split: "rep_opts body (Suc k) ec = map_prod (Cons ?n) id (rep_opts body k (body ?ec1))"
      using Suc.prems True by (simp add: emit1_cases(2) ec_n_def Let_def split: prod.split)
    show ?thesis
    proof (cases "?n + 1 + len \<le> SL_RX_MAX_INSTS")
      case fit: True
      then have body: "body ?ec1 = ?ec2" using b(3) [of ?ec1] Suc.prems by simp
      have len2: "length (ec_prog ?ec2) = Suc (?n + len)" by (simp add: b(1))
      show ?thesis
      proof (cases "?n + Suc k * (len + 1) \<le> SL_RX_MAX_INSTS")
        case all: True
        then obtain sps p where IH: "rep_opts body k ?ec2 = (sps, with_prog ?ec2 p)"
          "\<And>fin. fold (upd_at (opt_target greedy fin)) sps p = ec_prog ?ec2 @ code_opts c len greedy fin k (Suc (?n + len))"
          using Suc.IH [of ?ec2] Suc.prems fit len2 by auto
        have "fold (upd_at (opt_target greedy fin)) (?n # sps) p = ec_prog ec @ code_opts c len greedy fin (Suc k) ?n" for fin
        proof -
          have "fold (upd_at (opt_target greedy fin)) (?n # sps) p = upd_at (opt_target greedy fin) ?n (ec_prog ?ec2 @ code_opts c len greedy fin k (Suc (?n + len)))"
            by (simp add: upd_at_fold [symmetric] IH(2) del: append.simps)
          also have "\<dots> = ec_prog ec @ opt_target greedy fin ?sp # c (Suc ?n) @ code_opts c len greedy fin k (Suc (?n + len))"
            by simp
          finally show ?thesis by (simp add: opt_target_def split_inst_def new_inst_def)
        qed
        note patched = this
        have "rep_opts body (Suc k) ec = (?n # sps, with_prog ec p)" using split body IH(1) by simp
        then show ?thesis using patched all by auto
      next
        case False
        then show ?thesis using split body Suc.IH [of ?ec2] Suc.prems fit len2 by auto
      qed
    next
      case False
      then have "ec_failed (body ?ec1)" using b(4) [of ?ec1] Suc.prems True by simp
      moreover have "rep_opts body k e = ([], e)" if "ec_failed e" for e using that by (cases k) auto
      ultimately show ?thesis using split False by simp
    qed
  next
    case False
    then show ?thesis using Suc.prems by (simp add: emit1_cases(3))
  qed
qed

lemma emits_rep:
  assumes "emits body len c"
  shows "emits (emit_rep body rmin rmax greedy)
    (rmin * len + (case rmax of None \<Rightarrow> len + 2 | Some m \<Rightarrow> (m - rmin) * (len + 1)))
    (\<lambda>st. code_copies c len rmin st @
       (let st = st + rmin * len in
        case rmax of
          None \<Rightarrow> code_star c len greedy st
        | Some m \<Rightarrow> code_opts c len greedy (st + (m - rmin) * (len + 1)) (m - rmin) st))"
proof (cases rmax)
  case None
  then show ?thesis using emits_seq [OF emits_copies [OF assms] emits_star [OF assms, of greedy], of rmin]
    by (simp add: emit_rep_def [abs_def] Let_def)
next
  case (Some m)
  let ?g = "\<lambda>ec. let (sps, ec) = rep_opts body (m - rmin) ec in if ec_failed ec then ec else fold (patch_opt greedy) sps ec"
  have "emits ?g ((m - rmin) * (len + 1)) (\<lambda>st. code_opts c len greedy (st + (m - rmin) * (len + 1)) (m - rmin) st)"
  proof (rule emitsI)
    show "length (code_opts c len greedy (st + (m - rmin) * (len + 1)) (m - rmin) st) = (m - rmin) * (len + 1)" for st
      by (rule length_code_opts) (rule emitsD(1) [OF assms])
    fix ec :: sl_rx_emit_ctx
    let ?n = "length (ec_prog ec)"
    show "?g ec = ec" if "ec_failed ec" using that by (cases "m - rmin") auto
    assume ok: "\<not> ec_failed ec"
    show "?g ec = with_prog ec (ec_prog ec @ code_opts c len greedy (?n + (m - rmin) * (len + 1)) (m - rmin) ?n)"
      if fit: "?n + (m - rmin) * (len + 1) \<le> SL_RX_MAX_INSTS"
    proof -
      obtain sps p where r: "rep_opts body (m - rmin) ec = (sps, with_prog ec p)"
        "\<And>fin. fold (upd_at (opt_target greedy fin)) sps p = ec_prog ec @ code_opts c len greedy fin (m - rmin) ?n"
        using rep_opts_ok [OF assms ok, of "m - rmin" greedy] fit by auto
      have "length (fold (upd_at h) is p) = length p" for h :: "sl_rx_inst \<Rightarrow> sl_rx_inst" and "is"
        by (induction "is" arbitrary: p) auto
      then have "length p = ?n + (m - rmin) * (len + 1)"
        using arg_cong [OF r(2) [of 0], of length] length_code_opts [of c len] emitsD(1) [OF assms] by simp
      then show ?thesis using r ok by (simp add: patch_opt_fold)
    qed
    show "ec_failed (?g ec)" if "?n \<le> SL_RX_MAX_INSTS" "SL_RX_MAX_INSTS < ?n + (m - rmin) * (len + 1)"
      using rep_opts_ok [OF assms ok that(1), of "m - rmin" greedy] that(2) by (auto split: prod.split)
  qed
  from emits_seq [OF emits_copies [OF assms, of rmin] this] show ?thesis
    using Some by (simp add: emit_rep_def [abs_def] Let_def add.assoc)
qed

text \<open>The alternatives, whose jumps go to the common end.\<close>

lemma patch_ends_fold:
  "fold (\<lambda>j ec. patch_x j (ec_n ec) ec) ends ec =
     with_prog ec (fold (upd_at (in_x_update (\<lambda>_. ec_n ec))) ends (ec_prog ec))"
  by (induction ends arbitrary: ec) (simp_all add: patch_upd ec_n_def)

definition alts_ok :: "sl_rx_node \<Rightarrow> bool" where
  "alts_ok nd \<longleftrightarrow> (\<forall>ec. (ec_failed ec \<longrightarrow> emit_alts nd ec = ([], ec)) \<and>
     (\<not> ec_failed ec \<longrightarrow> length (ec_prog ec) \<le> SL_RX_MAX_INSTS \<longrightarrow>
       (if length (ec_prog ec) + code_len nd \<le> SL_RX_MAX_INSTS
        then \<exists>ends p. emit_alts nd ec = (ends, with_prog ec p) \<and> length p = length (ec_prog ec) + code_len nd \<and>
          fold (upd_at (in_x_update (\<lambda>_. int (length (ec_prog ec) + code_len nd)))) ends p =
            ec_prog ec @ code_of nd (length (ec_prog ec))
        else ec_failed (snd (emit_alts nd ec)))))"

lemma alts_last:
  assumes "emits (sl_rx_emit nd) (code_len nd) (code_of nd)" and "\<And>ec. emit_alts nd ec = ([], sl_rx_emit nd ec)"
  shows "alts_ok nd"
  using emitsD [OF assms(1)] by (simp add: alts_ok_def assms(2))

lemma emits_alts:
  assumes "alts_ok (N_ALT a b)"
  shows "emits (sl_rx_emit (N_ALT a b)) (code_len (N_ALT a b)) (code_of (N_ALT a b))"
proof (rule emitsI)
  fix ec :: sl_rx_emit_ctx
  let ?nd = "N_ALT a b"
  note alts = assms [unfolded alts_ok_def, rule_format, of ec]
  show "length (code_of ?nd st) = code_len ?nd" for st by (rule length_code_of)
  show "sl_rx_emit ?nd ec = ec" if "ec_failed ec" using alts that by simp
  assume ok: "\<not> ec_failed ec"
  show "sl_rx_emit ?nd ec = with_prog ec (ec_prog ec @ code_of ?nd (length (ec_prog ec)))"
    if fit: "length (ec_prog ec) + code_len ?nd \<le> SL_RX_MAX_INSTS"
  proof -
    obtain ends p where "emit_alts ?nd ec = (ends, with_prog ec p)" "length p = length (ec_prog ec) + code_len ?nd"
      "fold (upd_at (in_x_update (\<lambda>_. int (length (ec_prog ec) + code_len ?nd)))) ends p =
         ec_prog ec @ code_of ?nd (length (ec_prog ec))"
      using alts ok fit by force
    moreover have "ec_n (with_prog ec p) = int (length p)" by (simp add: ec_n_def)
    ultimately show ?thesis using ok by (simp add: patch_ends_fold del: code_of.simps code_len.simps emit_alts.simps)
  qed
  show "ec_failed (sl_rx_emit ?nd ec)"
    if "length (ec_prog ec) \<le> SL_RX_MAX_INSTS" "SL_RX_MAX_INSTS < length (ec_prog ec) + code_len ?nd"
    using alts ok that by (auto split: prod.splits simp del: emit_alts.simps)
qed

lemma alts_step:
  assumes a: "emits (sl_rx_emit a) (code_len a) (code_of a)" and b: "alts_ok b"
  shows "alts_ok (N_ALT a b)"
proof -
  have "if length (ec_prog ec) + code_len (N_ALT a b) \<le> SL_RX_MAX_INSTS
        then \<exists>ends p. emit_alts (N_ALT a b) ec = (ends, with_prog ec p) \<and> length p = length (ec_prog ec) + code_len (N_ALT a b) \<and>
          fold (upd_at (in_x_update (\<lambda>_. int (length (ec_prog ec) + code_len (N_ALT a b))))) ends p =
            ec_prog ec @ code_of (N_ALT a b) (length (ec_prog ec))
        else ec_failed (snd (emit_alts (N_ALT a b) ec))"
    if ok: "\<not> ec_failed ec" and len: "length (ec_prog ec) \<le> SL_RX_MAX_INSTS" for ec
  proof -
    let ?n = "length (ec_prog ec)" and ?la = "code_len a" and ?jmp = "new_inst RX_JMP (Arg 0) (- 1)"
    let ?sp = "(new_inst RX_SPLIT (Arg 0) (- 1))\<lparr>in_x := int (Suc ?n)\<rparr>"
    let ?ec1 = "with_prog ec (ec_prog ec @ [?sp])"
    let ?sp2 = "split_inst True (Suc ?n) (?n + ?la + 2)"
    let ?ec2 = "with_prog ec (ec_prog ec @ ?sp2 # code_of a (Suc ?n) @ [?jmp])"
    have len2: "length (ec_prog ?ec2) = ?n + ?la + 2" by simp
    show ?thesis
    proof (cases "?n + ?la + 2 \<le> SL_RX_MAX_INSTS")
      case True
      have p1: "patch_x ?n (1 + int ?n) (with_prog ec (ec_prog ec @ [new_inst RX_SPLIT (Arg 0) (- 1)])) = ?ec1"
        by (simp add: patch_upd)
      have p2: "patch_y ?n (2 + (int ?n + int ?la)) (with_prog ec (ec_prog ec @ ?sp # code_of a (Suc ?n) @ [?jmp])) = ?ec2"
        by (simp add: patch_upd split_inst_def new_inst_def)
      have body: "sl_rx_emit a ?ec1 = with_prog ec (ec_prog ec @ ?sp # code_of a (Suc ?n))"
        using emitsD(3) [OF a, of ?ec1] ok True by simp
      have split: "emit_alts (N_ALT a b) ec = map_prod (Cons (Suc (?n + ?la))) id (emit_alts b ?ec2)"
        using ok True p1 p2 body by (simp add: emit1_cases(2) ec_n_def Let_def add.commute add.left_commute split: prod.split)
      show ?thesis
      proof (cases "?n + code_len (N_ALT a b) \<le> SL_RX_MAX_INSTS")
        case fit: True
        define v where "v = int (?n + ?la + 2 + code_len b)"
        obtain ends p where e: "emit_alts b ?ec2 = (ends, with_prog ec p)" "length p = ?n + ?la + 2 + code_len b"
          "fold (upd_at (in_x_update (\<lambda>_. v))) ends p = ec_prog ?ec2 @ code_of b (?n + ?la + 2)"
          using b [unfolded alts_ok_def, rule_format, of ?ec2] ok True fit unfolding v_def by auto
        let ?h = "in_x_update (\<lambda>_. v) :: sl_rx_inst \<Rightarrow> sl_rx_inst"
        have "fold (upd_at ?h) (Suc (?n + ?la) # ends) p =
            upd_at ?h (Suc (?n + ?la)) ((ec_prog ec @ ?sp2 # code_of a (Suc ?n)) @ ?jmp # code_of b (?n + ?la + 2))"
          by (simp add: upd_at_fold [symmetric] e(3))
        also have "\<dots> = (ec_prog ec @ ?sp2 # code_of a (Suc ?n)) @ ?h ?jmp # code_of b (?n + ?la + 2)"
          by (rule upd_at_here) simp
        finally have "fold (upd_at ?h) (Suc (?n + ?la) # ends) p = ec_prog ec @ code_of (N_ALT a b) ?n"
          by (simp add: jump_inst_def v_def add.commute add.left_commute)
        moreover have "v = int (?n + code_len (N_ALT a b))" by (simp add: v_def)
        ultimately show ?thesis using split e(1,2) fit by (auto intro!: exI [of _ "Suc (?n + ?la) # ends"] exI [of _ p])
      next
        case False
        then have "ec_failed (snd (emit_alts b ?ec2))"
          using b [unfolded alts_ok_def, rule_format, of ?ec2] ok True by auto
        then show ?thesis using split False by simp
      qed
    next
      case False
      have "ec_failed (emit_op RX_JMP (sl_rx_emit a (patch_x ?n (1 + int ?n) (emit_op RX_SPLIT ec))))" if "?n < SL_RX_MAX_INSTS"
        using emitsD(4) [OF emits_seq [OF a emits_emit1], of ?ec1] ok that False
        by (simp add: emit1_cases(2) patch_upd)
      then have "ec_failed (snd (emit_alts (N_ALT a b) ec))"
        using ok False len by (cases "?n < SL_RX_MAX_INSTS") (auto simp: emit1_cases ec_n_def Let_def split: prod.split)
      then show ?thesis using False by simp
    qed
  qed
  moreover have "emit_alts (N_ALT a b) ec = ([], ec)" if "ec_failed ec" for ec using that by simp
  ultimately show ?thesis unfolding alts_ok_def by blast
qed

lemma emits_group:
  assumes "emits body len c"
  shows "emits (\<lambda>ec. snd (sl_rx_emit1 RX_SAVE s1 (- 1) (body (snd (sl_rx_emit1 RX_SAVE s0 (- 1) ec))))) (len + 2)
    (\<lambda>st. new_inst RX_SAVE s0 (- 1) # c (st + 1) @ [new_inst RX_SAVE s1 (- 1)])"
  using emits_seq [OF emits_seq [OF emits_emit1 assms] emits_emit1, of RX_SAVE s1 "- 1" RX_SAVE s0 "- 1"] by simp

lemma emits_leaf: "(\<And>ec. f ec = snd (sl_rx_emit1 opc arg cls ec)) \<Longrightarrow> (\<And>st. c st = [new_inst opc arg cls]) \<Longrightarrow> emits f (Suc 0) c"
  by (rule emits_cong [OF emits_emit1 [of opc arg cls]]) auto

text \<open>The emitter produces the code of the tree.\<close>

lemma sl_rx_emit_code:
  "emits (sl_rx_emit nd) (code_len nd) (code_of nd)" "alts_ok nd"
proof (induction nd)
  case (N_ALT a b)
  { case 2 show ?case by (rule alts_step [OF N_ALT(1,4)]) }
  case 1 show ?case by (rule emits_alts [OF alts_step [OF N_ALT(1,4)]])
next
  case (N_CAT a b)
  have code: "emits (sl_rx_emit (N_CAT a b)) (code_len (N_CAT a b)) (code_of (N_CAT a b))"
    by (rule emits_cong [OF emits_seq [OF N_CAT(1,3)]]) (auto simp: Let_def)
  { case 1 show ?case by (rule code) }
  case 2 show ?case by (rule alts_last [OF code]) simp
next
  case (N_STAR a g)
  have code: "emits (sl_rx_emit (N_STAR a g)) (code_len (N_STAR a g)) (code_of (N_STAR a g))"
    by (rule emits_cong [OF emits_star [OF N_STAR(1), of g]]) (auto simp: Let_def)
  { case 1 show ?case by (rule code) }
  case 2 show ?case by (rule alts_last [OF code]) simp
next
  case (N_PLUS a g)
  have code: "emits (sl_rx_emit (N_PLUS a g)) (code_len (N_PLUS a g)) (code_of (N_PLUS a g))"
    by (rule emits_cong [OF emits_plus [OF N_PLUS(1), of g]]) (auto simp: Let_def emit_plus_def)
  { case 1 show ?case by (rule code) }
  case 2 show ?case by (rule alts_last [OF code]) simp
next
  case (N_QUEST a g)
  have code: "emits (sl_rx_emit (N_QUEST a g)) (code_len (N_QUEST a g)) (code_of (N_QUEST a g))"
    by (rule emits_cong [OF emits_quest [OF N_QUEST(1), of g]]) (auto simp: Let_def emit_quest_def)
  { case 1 show ?case by (rule code) }
  case 2 show ?case by (rule alts_last [OF code]) simp
next
  case (N_REP a rmin rmax g)
  have code: "emits (sl_rx_emit (N_REP a rmin rmax g)) (code_len (N_REP a rmin rmax g)) (code_of (N_REP a rmin rmax g))"
    by (rule emits_cong [OF emits_rep [OF N_REP(1), of rmin rmax g]]) (auto simp: Let_def)
  { case 1 show ?case by (rule code) }
  case 2 show ?case by (rule alts_last [OF code]) simp
next
  case (N_GROUP g a)
  have code: "emits (sl_rx_emit (N_GROUP g a)) (code_len (N_GROUP g a)) (code_of (N_GROUP g a))"
    by (rule emits_cong [OF emits_group [OF N_GROUP(1), of "Arg ((2 * g + 1) mod 256)" "Arg (2 * g mod 256)"]]) (auto simp: Let_def)
  { case 1 show ?case by (rule code) }
  case 2 show ?case by (rule alts_last [OF code]) simp
next
  case N_EMPTY
  have code: "emits (sl_rx_emit N_EMPTY) (code_len N_EMPTY) (code_of N_EMPTY)"
    by (rule emits_cong [OF emits_empty]) auto
  { case 1 show ?case by (rule code) }
  case 2 show ?case by (rule alts_last [OF code]) simp
qed (auto intro!: alts_last emits_leaf)

section \<open>What a tree matches\<close>

text \<open>
  The meaning of a tree on a subject, without program or machine: the pairs of positions between
  which it matches. Which of several matches is preferred (greedy or lazy) plays no part.
\<close>

definition byte_rel :: "sl_bytes \<Rightarrow> (nat \<Rightarrow> bool) \<Rightarrow> (nat \<times> nat) set" where
  "byte_rel s P = {(i, j). j = i + 1 \<and> i < length s \<and> P (unat (s ! i))}"

primrec rx_rel :: "sl_rx_class list \<Rightarrow> sl_bytes \<Rightarrow> sl_rx_node \<Rightarrow> (nat \<times> nat) set" where
  "rx_rel cs s N_EMPTY = Id"
| "rx_rel cs s (N_BYTE v) = byte_rel s (\<lambda>b. b = v mod 256)"
| "rx_rel cs s (N_CLASS k) = byte_rel s (\<lambda>b. sl_rx_cls_has (cs ! k) b)"
| "rx_rel cs s N_ANY = byte_rel s (\<lambda>b. b \<noteq> 10)"
| "rx_rel cs s N_ANYNL = byte_rel s (\<lambda>b. True)"
| "rx_rel cs s (N_CAT a b) = rx_rel cs s a O rx_rel cs s b"
| "rx_rel cs s (N_ALT a b) = rx_rel cs s a \<union> rx_rel cs s b"
| "rx_rel cs s (N_STAR a greedy) = (rx_rel cs s a)\<^sup>*"
| "rx_rel cs s (N_PLUS a greedy) = (rx_rel cs s a)\<^sup>+"
| "rx_rel cs s (N_QUEST a greedy) = Id \<union> rx_rel cs s a"
| "rx_rel cs s (N_REP a rmin rmax greedy) = (rx_rel cs s a ^^ rmin) O
     (case rmax of None \<Rightarrow> (rx_rel cs s a)\<^sup>* | Some m \<Rightarrow> (\<Union>k\<le>m - rmin. rx_rel cs s a ^^ k))"
| "rx_rel cs s (N_GROUP g a) = rx_rel cs s a"
| "rx_rel cs s (N_ASSERT k) = {(i, j). i = j \<and> sl_rx_assert_ok k s i}"

section \<open>Code in a program\<close>

definition placed :: "sl_rx \<Rightarrow> nat \<Rightarrow> sl_rx_inst list \<Rightarrow> bool" where
  "placed re st c \<longleftrightarrow> st + length c < length (re_prog re) \<and> (\<forall>k<length c. re_prog re ! (st + k) = c ! k)"

lemma placed_appendD:
  assumes "placed re st (c @ d)"
  shows "placed re st c" "placed re (st + length c) d"
proof -
  have all: "re_prog re ! (st + k) = (c @ d) ! k" if "k < length c + length d" for k using assms that by (simp add: placed_def)
  show "placed re st c" using assms all by (auto simp: placed_def nth_append)
  have "re_prog re ! (st + length c + k) = d ! k" if "k < length d" for k
    using all [of "length c + k"] that by (simp add: add.assoc)
  then show "placed re (st + length c) d" using assms by (simp add: placed_def)
qed

lemma placed_ConsD:
  assumes "placed re st (ins # c)"
  shows "st + 1 < length (re_prog re)" "re_prog re ! st = ins" "placed re (st + 1) c"
  using placed_appendD [of re st "[ins]" c] assms by (auto simp: placed_def)

text \<open>The moves from each instruction.\<close>

lemma move_from:
  assumes "re_prog re ! st = ins" and "st < length (re_prog re)"
  shows "((st, i), (q, j)) \<in> rx_move re s \<longleftrightarrow> q < length (re_prog re) \<and>
    (i = j \<and> int q \<in> set (eps_to re s i st) \<or> j = i + 1 \<and> q = st + 1 \<and> rx_takes re s i ins)"
  using assms by (auto simp: rx_move_def eps_def)

lemma move_split:
  assumes "re_prog re ! st = split_inst greedy a b" and "st < length (re_prog re)"
    and "a < length (re_prog re)" "b < length (re_prog re)"
  shows "((st, i), (q, j)) \<in> rx_move re s \<longleftrightarrow> i = j \<and> (q = a \<or> q = b)"
  using move_from [OF assms(1,2)] assms
  by (auto simp: split_inst_def new_inst_def eps_to_def rx_takes_def)

lemma move_jump:
  assumes "re_prog re ! st = jump_inst a" and "st < length (re_prog re)" and "a < length (re_prog re)"
  shows "((st, i), (q, j)) \<in> rx_move re s \<longleftrightarrow> i = j \<and> q = a"
  using move_from [OF assms(1,2)] assms
  by (auto simp: jump_inst_def new_inst_def eps_to_def rx_takes_def)

lemma move_save:
  assumes "re_prog re ! st = new_inst RX_SAVE arg cls" and "st + 1 < length (re_prog re)"
  shows "((st, i), (q, j)) \<in> rx_move re s \<longleftrightarrow> i = j \<and> q = st + 1"
  using move_from [OF assms(1)] assms by (auto simp: new_inst_def eps_to_def rx_takes_def)

lemma move_assert:
  assumes "re_prog re ! st = new_inst RX_ASSERT (Arg_Assert k) cls" and "st + 1 < length (re_prog re)"
  shows "((st, i), (q, j)) \<in> rx_move re s \<longleftrightarrow> i = j \<and> q = st + 1 \<and> sl_rx_assert_ok k s i"
  using move_from [OF assms(1)] assms by (auto simp: new_inst_def eps_to_def rx_takes_def arg_assert_def)

lemma move_byte:
  assumes "re_prog re ! st = new_inst opc arg cls" and "st + 1 < length (re_prog re)"
    and "opc \<in> {RX_BYTE, RX_CLASS, RX_ANY, RX_ANYNL}"
  shows "((st, i), (q, j)) \<in> rx_move re s \<longleftrightarrow> q = st + 1 \<and> j = i + 1 \<and> rx_takes re s i (new_inst opc arg cls)"
  using move_from [OF assms(1)] assms by (auto simp: new_inst_def eps_to_def)

section \<open>Fragments\<close>

text \<open>
  A fragment from \<open>st\<close> of length \<open>len\<close> realises a relation: every pair of it is a path through the
  fragment, and every path that enters at \<open>st\<close> and leaves passes its end by a pair of it, with no
  more steps left than it had.
\<close>

definition realises :: "sl_rx \<Rightarrow> sl_bytes \<Rightarrow> nat \<Rightarrow> nat \<Rightarrow> (nat \<times> nat) set \<Rightarrow> bool" where
  "realises re s st len R \<longleftrightarrow>
     (\<forall>(i, j)\<in>R. ((st, i), (st + len, j)) \<in> (rx_move re s)\<^sup>*) \<and>
     (\<forall>n i f j. ((st, i), (f, j)) \<in> rx_move re s ^^ n \<longrightarrow> \<not> (st \<le> f \<and> f < st + len) \<longrightarrow>
        (\<exists>k n'. n' \<le> n \<and> (i, k) \<in> R \<and> ((st + len, k), (f, j)) \<in> rx_move re s ^^ n'))"

lemma realisesI:
  assumes "\<And>i j. (i, j) \<in> R \<Longrightarrow> ((st, i), (st + len, j)) \<in> (rx_move re s)\<^sup>*"
    and "\<And>n i f j. ((st, i), (f, j)) \<in> rx_move re s ^^ n \<Longrightarrow> \<not> (st \<le> f \<and> f < st + len) \<Longrightarrow>
        \<exists>k n'. n' \<le> n \<and> (i, k) \<in> R \<and> ((st + len, k), (f, j)) \<in> rx_move re s ^^ n'"
  shows "realises re s st len R"
  using assms unfolding realises_def by blast

lemma realisesD:
  assumes "realises re s st len R"
  shows "(i, j) \<in> R \<Longrightarrow> ((st, i), (st + len, j)) \<in> (rx_move re s)\<^sup>*"
    "((st, i), (f, j)) \<in> rx_move re s ^^ n \<Longrightarrow> \<not> (st \<le> f \<and> f < st + len) \<Longrightarrow>
        \<exists>k n'. n' \<le> n \<and> (i, k) \<in> R \<and> ((st + len, k), (f, j)) \<in> rx_move re s ^^ n'"
  using assms unfolding realises_def by blast+

text \<open>The first move of a path that leaves an instruction.\<close>

lemma leave_first:
  assumes "((st, i), (f, j)) \<in> R ^^ n" and "f \<noteq> st"
  shows "\<exists>n' q k. n = Suc n' \<and> ((st, i), (q, k)) \<in> R \<and> ((q, k), (f, j)) \<in> R ^^ n'"
  using assms by (cases n) (auto simp del: relpow.simps(2) dest!: relpow_Suc_D2)

lemma realises_empty: "realises re s st 0 Id"
  by (rule realisesI) auto

lemma realises_one:
  assumes "\<And>i q j. ((st, i), (q, j)) \<in> rx_move re s \<longleftrightarrow> q = st + 1 \<and> (i, j) \<in> R"
  shows "realises re s st 1 R"
proof (rule realisesI)
  show "((st, i), (st + 1, j)) \<in> (rx_move re s)\<^sup>*" if "(i, j) \<in> R" for i j using assms that by auto
  show "\<exists>k n'. n' \<le> n \<and> (i, k) \<in> R \<and> ((st + 1, k), (f, j)) \<in> rx_move re s ^^ n'"
    if "((st, i), (f, j)) \<in> rx_move re s ^^ n" "\<not> (st \<le> f \<and> f < st + 1)" for n i f j
    using leave_first [OF that(1)] that(2) assms by (metis Suc_eq_plus1 le_SucI less_Suc_eq_le order_refl)
qed

lemma realises_seq:
  assumes "realises re s st m R" and "realises re s (st + m) n S"
  shows "realises re s st (m + n) (R O S)"
proof (rule realisesI)
  note R = realisesD [OF assms(1)] and S = realisesD [OF assms(2)]
  show "((st, i), (st + (m + n), j)) \<in> (rx_move re s)\<^sup>*" if "(i, j) \<in> R O S" for i j
    using that R(1) S(1) by (force simp: add.assoc intro: rtrancl_trans)
  show "\<exists>k n''. n'' \<le> n' \<and> (i, k) \<in> R O S \<and> ((st + (m + n), k), (f, j)) \<in> rx_move re s ^^ n''"
    if path: "((st, i), (f, j)) \<in> rx_move re s ^^ n'" "\<not> (st \<le> f \<and> f < st + (m + n))" for n' i f j
  proof -
    obtain k n1 where k: "n1 \<le> n'" "(i, k) \<in> R" "((st + m, k), (f, j)) \<in> rx_move re s ^^ n1"
      using R(2) [OF path(1)] path(2) by auto
    obtain l n2 where "n2 \<le> n1" "(k, l) \<in> S" "((st + m + n, l), (f, j)) \<in> rx_move re s ^^ n2"
      using S(2) [OF k(3)] path(2) by auto
    then show ?thesis using k by (auto simp: add.assoc intro: order_trans)
  qed
qed

lemma realises_star:
  assumes body: "realises re s (st + 1) m R"
    and split: "\<And>i q j. ((st, i), (q, j)) \<in> rx_move re s \<longleftrightarrow> i = j \<and> (q = st + 1 \<or> q = st + m + 2)"
    and jump: "\<And>i q j. ((st + 1 + m, i), (q, j)) \<in> rx_move re s \<longleftrightarrow> i = j \<and> q = st"
  shows "realises re s st (m + 2) (R\<^sup>*)"
proof (rule realisesI)
  note B = realisesD [OF body]
  have round: "((st, i), (st, j)) \<in> (rx_move re s)\<^sup>*" if "(i, j) \<in> R" for i j
  proof -
    have "((st, i), (st + 1, i)) \<in> rx_move re s" "((st + 1 + m, j), (st, j)) \<in> rx_move re s"
      using split jump by auto
    with B(1) [OF that] show ?thesis by (meson converse_rtrancl_into_rtrancl rtrancl_into_rtrancl)
  qed
  show "((st, i), (st + (m + 2), j)) \<in> (rx_move re s)\<^sup>*" if "(i, j) \<in> R\<^sup>*" for i j
  proof -
    have "((st, i), (st, j)) \<in> (rx_move re s)\<^sup>*" using that by (induction rule: rtrancl_induct) (auto dest: round intro: rtrancl_trans)
    moreover have "((st, j), (st + (m + 2), j)) \<in> rx_move re s" using split by auto
    ultimately show ?thesis by (rule rtrancl_into_rtrancl)
  qed
  show "\<exists>k n'. n' \<le> n \<and> (i, k) \<in> R\<^sup>* \<and> ((st + (m + 2), k), (f, j)) \<in> rx_move re s ^^ n'"
    if "((st, i), (f, j)) \<in> rx_move re s ^^ n" "\<not> (st \<le> f \<and> f < st + (m + 2))" for n i f j
    using that
  proof (induction n arbitrary: i rule: less_induct)
    case (less n)
    have "f \<noteq> st" using less.prems(2) by auto
    from leave_first [OF less.prems(1) this] obtain n1 q k
      where "n = Suc n1" "((st, i), (q, k)) \<in> rx_move re s" "((q, k), (f, j)) \<in> rx_move re s ^^ n1" by blast
    then have q: "n = Suc n1" "q = st + 1 \<or> q = st + m + 2" "((q, i), (f, j)) \<in> rx_move re s ^^ n1" by (simp_all add: split)
    show ?case
    proof (cases "q = st + m + 2")
      case True
      then have "((st + (m + 2), i), (f, j)) \<in> rx_move re s ^^ n1" using q(3) by (simp add: add.assoc)
      then show ?thesis using q(1) by (intro exI [of _ i] exI [of _ n1]) auto
    next
      case False
      then have "((st + 1, i), (f, j)) \<in> rx_move re s ^^ n1" using q by auto
      then obtain k n2 where k: "n2 \<le> n1" "(i, k) \<in> R" "((st + 1 + m, k), (f, j)) \<in> rx_move re s ^^ n2"
        using B(2) [of i f j n1] less.prems(2) by auto
      have "f \<noteq> st + 1 + m" using less.prems(2) by auto
      from leave_first [OF k(3) this] obtain n3 where n3: "n2 = Suc n3" "((st, k), (f, j)) \<in> rx_move re s ^^ n3"
        unfolding jump by blast
      then obtain l n' where "n' \<le> n3" "(k, l) \<in> R\<^sup>*" "((st + (m + 2), l), (f, j)) \<in> rx_move re s ^^ n'"
        using less.IH [of n3 k] less.prems(2) k(1) q(1) by auto
      moreover have "n3 \<le> n" using k(1) n3 q(1) by simp
      ultimately show ?thesis using k(2) by (meson converse_rtrancl_into_rtrancl order_trans)
    qed
  qed
qed

text \<open>One iteration and a loop back is a star after the first.\<close>

lemma realises_plus:
  assumes body: "realises re s st m R"
    and split: "\<And>i q j. ((st + m, i), (q, j)) \<in> rx_move re s \<longleftrightarrow> i = j \<and> (q = st \<or> q = st + m + 1)"
  shows "realises re s st (m + 1) (R\<^sup>+)"
proof (rule realisesI)
  note B = realisesD [OF body]
  have again: "((st, i), (st, j)) \<in> (rx_move re s)\<^sup>*" if "(i, j) \<in> R" for i j
    using B(1) [OF that] split [of j st j] by (auto intro: rtrancl_into_rtrancl)
  show "((st, i), (st + (m + 1), j)) \<in> (rx_move re s)\<^sup>*" if "(i, j) \<in> R\<^sup>+" for i j
  proof -
    from that obtain k where k: "(i, k) \<in> R\<^sup>*" "(k, j) \<in> R" by (auto dest: tranclD2)
    from k(1) have "((st, i), (st, k)) \<in> (rx_move re s)\<^sup>*"
      by (induction rule: rtrancl_induct) (auto dest: again intro: rtrancl_trans)
    moreover have "((st + m, j), (st + (m + 1), j)) \<in> rx_move re s" using split by auto
    ultimately show ?thesis using B(1) [OF k(2)] by (meson rtrancl_trans rtrancl_into_rtrancl)
  qed
  show "\<exists>k n'. n' \<le> n \<and> (i, k) \<in> R\<^sup>+ \<and> ((st + (m + 1), k), (f, j)) \<in> rx_move re s ^^ n'"
    if "((st, i), (f, j)) \<in> rx_move re s ^^ n" "\<not> (st \<le> f \<and> f < st + (m + 1))" for n i f j
    using that
  proof (induction n arbitrary: i rule: less_induct)
    case (less n)
    obtain k n1 where k: "n1 \<le> n" "(i, k) \<in> R" "((st + m, k), (f, j)) \<in> rx_move re s ^^ n1"
      using B(2) [OF less.prems(1)] less.prems(2) by auto
    have "f \<noteq> st + m" using less.prems(2) by auto
    from leave_first [OF k(3) this] obtain n2 q where q: "n1 = Suc n2" "q = st \<or> q = st + m + 1"
      "((q, k), (f, j)) \<in> rx_move re s ^^ n2" unfolding split by blast
    show ?case
    proof (cases "q = st + m + 1")
      case True
      then have "((st + (m + 1), k), (f, j)) \<in> rx_move re s ^^ n2" using q(3) by (simp add: add.assoc)
      then show ?thesis using k q(1) by (intro exI [of _ k] exI [of _ n2]) auto
    next
      case False
      then have "((st, k), (f, j)) \<in> rx_move re s ^^ n2" using q by auto
      then obtain l n' where "n' \<le> n2" "(k, l) \<in> R\<^sup>+" "((st + (m + 1), l), (f, j)) \<in> rx_move re s ^^ n'"
        using less.IH [of n2 k] less.prems(2) k(1) q(1) by auto
      moreover have "n2 \<le> n" using k(1) q(1) by simp
      ultimately show ?thesis using k(2) by (meson trancl_into_trancl2 order_trans)
    qed
  qed
qed

text \<open>A split over a body, past it or past more: the alternatives and the optional copies.\<close>

lemma realises_branch:
  assumes body: "realises re s (st + 1) m R"
    and split: "\<And>i q j. ((st, i), (q, j)) \<in> rx_move re s \<longleftrightarrow> i = j \<and> (q = st + 1 \<or> q = b)"
    and other: "\<And>n i f j. ((b, i), (f, j)) \<in> rx_move re s ^^ n \<Longrightarrow> \<not> (st \<le> f \<and> f < st + 1 + m + len) \<Longrightarrow>
        \<exists>k n'. n' \<le> n \<and> (i, k) \<in> S \<and> ((st + 1 + m + len, k), (f, j)) \<in> rx_move re s ^^ n'"
      "\<And>i j. (i, j) \<in> S \<Longrightarrow> ((b, i), (st + 1 + m + len, j)) \<in> (rx_move re s)\<^sup>*"
    and rest: "realises re s (st + 1 + m) len T"
  shows "realises re s st (1 + m + len) (R O T \<union> S)"
proof (rule realisesI)
  note B = realisesD [OF realises_seq [OF body rest]]
  have sp: "((st, i), (st + 1, i)) \<in> rx_move re s" "((st, i), (b, i)) \<in> rx_move re s" for i using split by auto
  show "((st, i), (st + (1 + m + len), j)) \<in> (rx_move re s)\<^sup>*" if "(i, j) \<in> R O T \<union> S" for i j
    using that
  proof
    assume "(i, j) \<in> R O T"
    from converse_rtrancl_into_rtrancl [OF sp(1) B(1) [OF this]] show ?thesis by (simp add: add.assoc)
  next
    assume "(i, j) \<in> S"
    from converse_rtrancl_into_rtrancl [OF sp(2) other(2) [OF this]] show ?thesis by (simp add: add.assoc)
  qed
  fix n i f j
  assume path: "((st, i), (f, j)) \<in> rx_move re s ^^ n" and f: "\<not> (st \<le> f \<and> f < st + (1 + m + len))"
  have "f \<noteq> st" using f by auto
  from leave_first [OF path this] obtain n1 q where q: "n = Suc n1" "q = st + 1 \<or> q = b"
    "((q, i), (f, j)) \<in> rx_move re s ^^ n1" unfolding split by blast
  have "\<exists>k n'. n' \<le> n1 \<and> (i, k) \<in> R O T \<union> S \<and> ((st + 1 + m + len, k), (f, j)) \<in> rx_move re s ^^ n'"
    using q(2)
  proof
    assume "q = st + 1"
    then show ?thesis using B(2) [of i f j n1] q(3) f by (fastforce simp: add.assoc)
  next
    assume "q = b"
    then show ?thesis using other(1) [of i f j n1] q(3) f by (fastforce simp: add.assoc)
  qed
  then show "\<exists>k n'. n' \<le> n \<and> (i, k) \<in> R O T \<union> S \<and> ((st + (1 + m + len), k), (f, j)) \<in> rx_move re s ^^ n'"
    unfolding q(1) by (metis add.assoc le_SucI)
qed

corollary realises_optional:
  assumes "realises re s (st + 1) m R" and "realises re s (st + 1 + m) len T"
    and "\<And>i q j. ((st, i), (q, j)) \<in> rx_move re s \<longleftrightarrow> i = j \<and> (q = st + 1 \<or> q = st + 1 + m + len)"
  shows "realises re s st (1 + m + len) (R O T \<union> Id)"
  by (rule realises_branch [OF assms(1,3) _ _ assms(2)]) auto

corollary realises_alt:
  assumes "realises re s (st + 1) m R" and "realises re s (st + 2 + m) len S"
    and "\<And>i q j. ((st, i), (q, j)) \<in> rx_move re s \<longleftrightarrow> i = j \<and> (q = st + 1 \<or> q = st + 2 + m)"
    and "\<And>i q j. ((st + 1 + m, i), (q, j)) \<in> rx_move re s \<longleftrightarrow> i = j \<and> q = st + 2 + m + len"
  shows "realises re s st (m + len + 2) (R \<union> S)"
proof -
  note S = realisesD [OF assms(2)]
  have "realises re s (st + 1 + m) (1 + len) Id"
  proof (rule realisesI)
    show "((st + 1 + m, i), (st + 1 + m + (1 + len), j)) \<in> (rx_move re s)\<^sup>*" if "(i, j) \<in> Id" for i j
      using that assms(4) [of i "st + 1 + m + (1 + len)" j] by (auto simp: add.assoc)
    fix n i f j
    assume path: "((st + 1 + m, i), (f, j)) \<in> rx_move re s ^^ n" and f: "\<not> (st + 1 + m \<le> f \<and> f < st + 1 + m + (1 + len))"
    have "f \<noteq> st + 1 + m" using f by auto
    from leave_first [OF path this] obtain n1 where "n = Suc n1" "((st + 2 + m + len, i), (f, j)) \<in> rx_move re s ^^ n1"
      unfolding assms(4) by blast
    moreover have "st + 2 + m + len = st + 1 + m + (1 + len)" by simp
    ultimately show "\<exists>k n'. n' \<le> n \<and> (i, k) \<in> Id \<and> ((st + 1 + m + (1 + len), k), (f, j)) \<in> rx_move re s ^^ n'"
      by (metis IdI le_SucI order_refl)
  qed
  moreover have "st + 1 + m + (1 + len) = st + 2 + m + len" by simp
  ultimately have "realises re s st (1 + m + (1 + len)) (R O Id \<union> S)"
    by (intro realises_branch [OF assms(1,3)]) (use S in \<open>auto\<close>)
  moreover have "1 + m + (1 + len) = m + len + 2" by simp
  ultimately show ?thesis by simp
qed

section \<open>The code realises the tree\<close>

lemma star_realises:
  assumes "placed re st (code_star c len greedy st)" and c: "length (c (st + 1)) = len"
    and body: "placed re (st + 1) (c (st + 1)) \<Longrightarrow> realises re s (st + 1) len R"
  shows "realises re s st (len + 2) (R\<^sup>*)"
proof (rule realises_star)
  note pl = placed_ConsD [OF assms(1) [unfolded code_star_def]]
  note pl2 = placed_appendD [OF pl(3)]
  have jmp: "re_prog re ! (st + 1 + len) = jump_inst st" "st + len + 2 < length (re_prog re)"
    using placed_ConsD(1,2) [OF pl2(2)] c by auto
  show "realises re s (st + 1) len R" by (rule body [OF pl2(1)])
  show "((st, i), (q, j)) \<in> rx_move re s \<longleftrightarrow> i = j \<and> (q = st + 1 \<or> q = st + len + 2)" for i q j
    by (rule move_split [OF pl(2)]) (use pl(1) jmp(2) in auto)
  show "((st + 1 + len, i), (q, j)) \<in> rx_move re s \<longleftrightarrow> i = j \<and> q = st" for i q j
    by (rule move_jump [OF jmp(1)]) (use jmp(2) in auto)
qed

lemma copies_realise:
  assumes "\<And>st. length (c st) = len" and "\<And>st. placed re st (c st) \<Longrightarrow> realises re s st len R"
  shows "placed re st (code_copies c len k st) \<Longrightarrow> realises re s st (k * len) (R ^^ k)"
proof (induction k arbitrary: st)
  case 0
  then show ?case using realises_empty by simp
next
  case (Suc k)
  from Suc.prems have pl: "placed re st (c st)" "placed re (st + len) (code_copies c len k (st + len))"
    using placed_appendD [of re st "c st" "code_copies c len k (st + len)"] assms(1) by auto
  show ?case using realises_seq [OF assms(2) [OF pl(1)] Suc.IH [OF pl(2)]] by (simp add: relpow_commute)
qed

lemma upto_relpow: "R O (\<Union>j\<le>k. R ^^ j) \<union> Id = (\<Union>j\<le>Suc k. R ^^ j)"
  unfolding atMost_Suc_eq_insert_0 by (auto simp: relpow_commute [symmetric])

lemma opts_realise:
  assumes "\<And>st. length (c st) = len" and "\<And>st. placed re st (c st) \<Longrightarrow> realises re s st len R"
  shows "placed re st (code_opts c len greedy (st + k * (len + 1)) k st) \<Longrightarrow> realises re s st (k * (len + 1)) (\<Union>j\<le>k. R ^^ j)"
proof (induction k arbitrary: st)
  case 0
  then show ?case using realises_empty by simp
next
  case (Suc k)
  let ?fin = "st + Suc k * (len + 1)"
  have fin: "?fin = st + 1 + len + k * (len + 1)" by simp
  note pl = placed_ConsD [OF Suc.prems [unfolded code_opts.simps]]
  note pl2 = placed_appendD [OF pl(3), unfolded assms(1)]
  have rest: "realises re s (st + 1 + len) (k * (len + 1)) (\<Union>j\<le>k. R ^^ j)"
    by (rule Suc.IH) (use pl2(2) in \<open>unfold fin, simp\<close>)
  have "realises re s st (1 + len + k * (len + 1)) (R O (\<Union>j\<le>k. R ^^ j) \<union> Id)"
  proof (rule realises_optional [OF assms(2) [OF pl2(1)] rest])
    have "?fin < length (re_prog re)" using Suc.prems length_code_opts [of c len greedy ?fin "Suc k" st] assms(1) by (simp add: placed_def)
    then show "((st, i), (q, j)) \<in> rx_move re s \<longleftrightarrow> i = j \<and> (q = st + 1 \<or> q = st + 1 + len + k * (len + 1))" for i q j
      using move_split [OF pl(2)] pl(1) fin by (metis add_lessD1)
  qed
  moreover have "1 + len + k * (len + 1) = Suc k * (len + 1)" by simp
  ultimately show ?case unfolding upto_relpow by metis
qed

lemma byte_realises:
  assumes "placed re st [new_inst opc arg cls]" and "opc \<in> {RX_BYTE, RX_CLASS, RX_ANY, RX_ANYNL}"
    and "\<And>i. rx_takes re s i (new_inst opc arg cls) \<longleftrightarrow> i < length s \<and> P (unat (s ! i))"
  shows "realises re s st (Suc 0) (byte_rel s P)"
  using realises_one [of st re s "byte_rel s P"] move_byte [OF placed_ConsD(2,1) [OF assms(1)] assms(2)] assms(3)
  by (auto simp: byte_rel_def)

lemma save_realises: "placed re st [new_inst RX_SAVE arg cls] \<Longrightarrow> realises re s st (Suc 0) Id"
  using realises_one [of st re s Id] move_save [OF placed_ConsD(2,1)] by auto

theorem code_realises:
  "placed re st (code_of nd st) \<Longrightarrow> realises re s st (code_len nd) (rx_rel (re_classes re) s nd)"
proof (induction nd arbitrary: st)
  case N_EMPTY
  then show ?case using realises_empty by simp
next
  case (N_CAT a b)
  note pl = placed_appendD [OF N_CAT.prems [unfolded code_of.simps], unfolded length_code_of]
  show ?case using realises_seq [OF N_CAT.IH(1) [OF pl(1)] N_CAT.IH(2) [OF pl(2)]] by simp
next
  case (N_ALT a b)
  note p0 = placed_ConsD [OF N_ALT.prems [unfolded code_of.simps]]
  note p1 = placed_appendD [OF p0(3), unfolded length_code_of]
  note p2 = placed_ConsD [OF p1(2)]
  have eq: "st + 1 + code_len a + 1 = st + code_len a + 2" "st + code_len a + 2 = st + 2 + code_len a"
    "st + code_len a + code_len b + 2 = st + 2 + code_len a + code_len b" by simp_all
  have p3: "placed re (st + 2 + code_len a) (code_of b (st + 2 + code_len a))" using p2(3) unfolding eq by simp
  then have len: "st + 2 + code_len a + code_len b < length (re_prog re)" by (simp add: placed_def)
  have "realises re s st (code_len a + code_len b + 2) (rx_rel (re_classes re) s a \<union> rx_rel (re_classes re) s b)"
  proof (rule realises_alt [OF N_ALT.IH(1) [OF p1(1)] N_ALT.IH(2) [OF p3]])
    show "((st, i), (q, j)) \<in> rx_move re s \<longleftrightarrow> i = j \<and> (q = st + 1 \<or> q = st + 2 + code_len a)" for i q j
      using move_split [OF p0(2)] p0(1) p2(1) len unfolding eq by simp
    show "((st + 1 + code_len a, i), (q, j)) \<in> rx_move re s \<longleftrightarrow> i = j \<and> q = st + 2 + code_len a + code_len b" for i q j
      using move_jump [OF p2(2)] p2(1) len unfolding eq by simp
  qed
  then show ?case by simp
next
  case (N_STAR a greedy)
  show ?case using star_realises [OF _ _ N_STAR.IH] N_STAR.prems by simp
next
  case (N_PLUS a greedy)
  note p = placed_appendD [OF N_PLUS.prems [unfolded code_of.simps], unfolded length_code_of]
  note sp = placed_ConsD [OF p(2)]
  have "realises re s st (code_len a + 1) ((rx_rel (re_classes re) s a)\<^sup>+)"
    by (rule realises_plus [OF N_PLUS.IH [OF p(1)]]) (rule move_split [OF sp(2)], use sp(1) in auto)
  then show ?case by simp
next
  case (N_QUEST a greedy)
  note p = placed_ConsD [OF N_QUEST.prems [unfolded code_of.simps]]
  have len: "st + 1 + code_len a < length (re_prog re)" using p(3) by (simp add: placed_def)
  have "realises re s st (1 + code_len a + 0) (rx_rel (re_classes re) s a O Id \<union> Id)"
    by (rule realises_optional [OF N_QUEST.IH [OF p(3)] realises_empty]) (use move_split [OF p(2)] p(1) len in simp)
  then show ?case by (simp add: Un_commute)
next
  case (N_REP a rmin rmax greedy)
  let ?c = "code_of a" and ?len = "code_len a" and ?R = "rx_rel (re_classes re) s a"
  note p = placed_appendD [OF N_REP.prems [unfolded code_of.simps], unfolded length_code_copies [of ?c, OF length_code_of] Let_def]
  have first: "realises re s st (rmin * ?len) (?R ^^ rmin)" by (rule copies_realise [OF length_code_of N_REP.IH p(1)])
  show ?case
  proof (cases rmax)
    case None
    then have "realises re s (st + rmin * ?len) (?len + 2) (?R\<^sup>*)"
      using star_realises [OF _ _ N_REP.IH] p(2) by simp
    from realises_seq [OF first this] None show ?thesis by simp
  next
    case (Some m)
    then have "realises re s (st + rmin * ?len) ((m - rmin) * (?len + 1)) (\<Union>k\<le>m - rmin. ?R ^^ k)"
      using opts_realise [of ?c, OF length_code_of N_REP.IH] p(2) by simp
    from realises_seq [OF first this] Some show ?thesis by simp
  qed
next
  case (N_GROUP g a)
  let ?open = "[new_inst RX_SAVE (Arg (2 * g mod 256)) (- 1)]"
  note p0 = placed_appendD [of re st ?open, simplified, OF N_GROUP.prems [simplified]]
  note p1 = placed_appendD [OF p0(2), unfolded length_code_of]
  have "realises re s (st + Suc 0) (code_len a + Suc 0) (rx_rel (re_classes re) s a O Id)"
    using realises_seq [OF N_GROUP.IH [OF p1(1) [simplified]] save_realises [OF p1(2)]] by simp
  from realises_seq [OF save_realises [OF p0(1)] this] show ?case by simp
next
  case (N_ASSERT k)
  then show ?case
    using realises_one [of st re s "{(i, j). i = j \<and> sl_rx_assert_ok k s i}"] move_assert [OF placed_ConsD(2,1)] by auto
qed (auto intro!: byte_realises simp: rx_takes_def new_inst_def arg_nat_def Let_def)

end
