(* ===== verification/Sl_Regex_Compile.thy ===== *)
theory Sl_Regex_Compile
  imports Sl_Regex_Code
begin

text \<open>
  The parser of \<open>Sl_Regex\<close> ends with well-formed trees, compilation is total and gives
  well-formed programs, and the entry points match what the tree of the pattern means.
\<close>

section \<open>The parser ends, and its trees are well formed\<close>

text \<open>
  A tree is well formed when its bytes are bytes, its classes are in the table and its groups
  are numbered; the state of the parser keeps the limits and only moves forward.
\<close>

primrec node_ok :: "nat \<Rightarrow> nat \<Rightarrow> sl_rx_node \<Rightarrow> bool" where
  "node_ok ncls ngroups N_EMPTY = True"
| "node_ok ncls ngroups (N_BYTE v) = (v < 256)"
| "node_ok ncls ngroups (N_CLASS k) = (k < ncls)"
| "node_ok ncls ngroups N_ANY = True"
| "node_ok ncls ngroups N_ANYNL = True"
| "node_ok ncls ngroups (N_CAT a b) = (node_ok ncls ngroups a \<and> node_ok ncls ngroups b)"
| "node_ok ncls ngroups (N_ALT a b) = (node_ok ncls ngroups a \<and> node_ok ncls ngroups b)"
| "node_ok ncls ngroups (N_STAR a greedy) = node_ok ncls ngroups a"
| "node_ok ncls ngroups (N_PLUS a greedy) = node_ok ncls ngroups a"
| "node_ok ncls ngroups (N_QUEST a greedy) = node_ok ncls ngroups a"
| "node_ok ncls ngroups (N_REP a rmin rmax greedy) = (node_ok ncls ngroups a \<and> rmin \<le> SL_RX_MAX_REPEAT \<and>
     (case rmax of None \<Rightarrow> True | Some m \<Rightarrow> rmin \<le> m \<and> m \<le> SL_RX_MAX_REPEAT))"
| "node_ok ncls ngroups (N_GROUP g a) = (0 < g \<and> g \<le> ngroups \<and> node_ok ncls ngroups a)"
| "node_ok ncls ngroups (N_ASSERT k) = True"

lemma node_ok_mono: "node_ok c g nd \<Longrightarrow> c \<le> c' \<Longrightarrow> g \<le> g' \<Longrightarrow> node_ok c' g' nd"
  by (induction nd) auto

definition ps_ok :: "sl_rx_parser \<Rightarrow> bool" where
  "ps_ok ps \<longleftrightarrow> ps_ngroups ps \<le> SL_RX_MAX_GROUPS \<and> list_all cls_ok (ps_cls ps)"

definition advances :: "sl_rx_parser \<Rightarrow> sl_rx_parser \<Rightarrow> bool" where
  "advances ps ps' \<longleftrightarrow> ps_i ps \<le> ps_i ps' \<and> ps_depth ps' = ps_depth ps \<and>
     length (ps_cls ps) \<le> length (ps_cls ps') \<and> ps_ngroups ps \<le> ps_ngroups ps' \<and> ps_ok ps'"

abbreviation ps_node :: "sl_rx_parser \<Rightarrow> sl_rx_node \<Rightarrow> bool" where
  "ps_node ps nd \<equiv> node_ok (length (ps_cls ps)) (ps_ngroups ps) nd"

lemma advances_refl [simp]: "advances ps ps = ps_ok ps"
  by (simp add: advances_def)

lemma advances_trans: "advances a b \<Longrightarrow> advances b c \<Longrightarrow> advances a c"
  by (simp add: advances_def)

lemma ps_node_advances: "ps_node ps nd \<Longrightarrow> advances ps ps' \<Longrightarrow> ps_node ps' nd"
  by (auto simp: advances_def intro: node_ok_mono)

text \<open>What a parsing function promises of its answer.\<close>

definition parse_ok :: "sl_rx_parser \<Rightarrow> nat \<Rightarrow> sl_rx_node rx_parse \<Rightarrow> bool" where
  "parse_ok ps least r \<longleftrightarrow> (\<forall>nd ps'. r = Inr (nd, ps') \<longrightarrow> advances ps ps' \<and> least \<le> ps_i ps' \<and> ps_node ps' nd)"

lemma parse_okD: "parse_ok ps least (Inr (nd, ps')) \<Longrightarrow> advances ps ps' \<and> least \<le> ps_i ps' \<and> ps_node ps' nd"
  by (simp add: parse_ok_def)

lemma hex_val_bound: "hex_val d = Some h \<Longrightarrow> h < 16"
  by (auto simp: hex_val_def char_less_eq_code split: if_splits)

lemma perl_class_ok: "perl_class c = Some k \<Longrightarrow> cls_ok k"
  by (auto simp: perl_class_def split: if_splits)

lemma byte_escape_bound: "byte_escape c = Some v \<Longrightarrow> v < 256"
  by (auto simp: byte_escape_def split: if_splits)

lemma class_node_ok:
  assumes "cls_ok k" and "ps_ok ps" "ps_i ps0 \<le> ps_i ps" and "ps_depth ps = ps_depth ps0" "ps_cls ps = ps_cls ps0"
    "ps_ngroups ps = ps_ngroups ps0"
  shows "parse_ok ps0 (ps_i ps) (Inr (class_node k ps))"
  using assms by (auto simp: parse_ok_def class_node_def advances_def ps_ok_def)

lemma hex_pair_bound: "hex_val a = Some h \<Longrightarrow> hex_val b = Some l \<Longrightarrow> h * 16 + l < 256"
  using hex_val_bound [of a h] hex_val_bound [of b l] by simp

lemma moved_ok: "ps_ok ps \<Longrightarrow> node_ok 0 0 nd \<Longrightarrow> ps_i ps \<le> j \<Longrightarrow> parse_ok ps j (Inr (nd, ps\<lparr>ps_i := j\<rparr>))"
  by (auto simp: parse_ok_def advances_def ps_ok_def intro: node_ok_mono)

lemma parse_ok_weaken: "parse_ok ps n r \<Longrightarrow> m \<le> n \<Longrightarrow> parse_ok ps m r"
  by (auto simp: parse_ok_def)

lemma parse_ok_after: "advances ps ps1 \<Longrightarrow> parse_ok ps1 n r \<Longrightarrow> parse_ok ps n r"
  by (auto simp: parse_ok_def dest: advances_trans)

lemma parse_ok_error [simp]: "parse_ok ps n (Inl e)"
  by (simp add: parse_ok_def)

lemma sl_rx_escape_ok:
  assumes "ps_ok ps"
  shows "parse_ok ps (Suc (ps_i ps)) (sl_rx_escape p ps)"
proof (cases "ps_i ps \<ge> length p")
  case False
  let ?i = "ps_i ps" and ?c = "p ! ps_i ps"
  show ?thesis
  proof (cases "perl_class ?c")
    case (Some k)
    have "parse_ok ps (Suc ?i) (Inr (class_node k (ps\<lparr>ps_i := Suc ?i\<rparr>)))"
      using class_node_ok [OF perl_class_ok [OF Some], of "ps\<lparr>ps_i := Suc ?i\<rparr>" ps] assms by (simp add: ps_ok_def)
    then show ?thesis using False Some by (simp add: sl_rx_escape_def Let_def)
  next
    case None
    have "parse_ok ps (Suc ?i) (Inr (nd, ps\<lparr>ps_i := Suc ?i\<rparr>))" if "node_ok 0 0 nd" for nd
      by (rule moved_ok [OF assms that]) simp
    moreover have "parse_ok ps (Suc ?i) (Inr (N_BYTE (h * 16 + l), ps\<lparr>ps_i := Suc (Suc (Suc ?i))\<rparr>))"
      if "hex_val a = Some h" "hex_val b = Some l" for a b h l
      by (rule parse_ok_weaken [OF moved_ok [OF assms]]) (use hex_pair_bound [OF that] in auto)
    ultimately show ?thesis using False None byte_escape_bound
      by (simp add: sl_rx_escape_def Let_def split: option.split)
  qed
qed (simp add: sl_rx_escape_def)

lemma bracket_item_cls: "bracket_item p i k = Inr (j, k') \<Longrightarrow> cls_ok k \<Longrightarrow> cls_ok k'"
  by (auto simp: bracket_item_def bracket_named_def bracket_range_def Let_def split: if_splits option.splits sum.splits)

lemma bracket_loop_ok:
  "bracket_loop p i first any k = Inr (j, any', k') \<Longrightarrow> cls_ok k \<Longrightarrow> i \<le> j \<and> cls_ok k'"
proof (induction p i first any k rule: bracket_loop.induct)
  case (1 p i first any k)
  show ?case
  proof (cases "i < length p \<and> (p ! i \<noteq> CHR '']'' \<or> first)")
    case True
    then obtain l k1 where item: "bracket_item p i k = Inr (l, k1)"
      using 1(2) by (subst (asm) bracket_loop.simps) (auto split: sum.splits)
    then have "bracket_loop p l False True k1 = Inr (j, any', k')"
      using 1(2) True by (subst (asm) bracket_loop.simps) simp
    from 1(1) [OF True item refl this bracket_item_cls [OF item 1(3)]] show ?thesis
      using bracket_item_less [OF item] by simp
  next
    case False
    then show ?thesis using 1(2,3) by (subst (asm) bracket_loop.simps) auto
  qed
qed

lemma sl_rx_bracket_ok:
  assumes "ps_ok ps"
  shows "parse_ok ps (ps_i ps) (sl_rx_bracket p ps)"
  unfolding parse_ok_def
proof (intro allI impI)
  fix nd ps'
  assume *: "sl_rx_bracket p ps = Inr (nd, ps')"
  let ?neg = "ps_i ps < length p \<and> p ! ps_i ps = CHR ''^''"
  obtain i any k where loop: "bracket_loop p (if ?neg then ps_i ps + 1 else ps_i ps) True False cls_empty = Inr (i, any, k)"
    and r: "(nd, ps') = class_node (if ?neg then sl_rx_cls_negate k else k) (ps\<lparr>ps_i := i + 1\<rparr>)"
    using * by (auto simp: sl_rx_bracket_def Let_def split: sum.splits if_splits)
  have i: "ps_i ps \<le> i" "cls_ok k" using bracket_loop_ok [OF loop] by (auto split: if_splits)
  have "parse_ok ps (Suc i) (Inr (class_node (if ?neg then sl_rx_cls_negate k else k) (ps\<lparr>ps_i := i + 1\<rparr>)))"
    using class_node_ok [of "if ?neg then sl_rx_cls_negate k else k" "ps\<lparr>ps_i := i + 1\<rparr>" ps] i assms by (simp add: ps_ok_def)
  then have "parse_ok ps (Suc i) (Inr (nd, ps'))" unfolding r [symmetric] .
  from parse_okD [OF this] show "advances ps ps' \<and> ps_i ps \<le> ps_i ps' \<and> ps_node ps' nd" using i(1) by simp
qed

lemma rx_braces_ok:
  "rx_braces p i = Some (Inr ((lo, hi), j)) \<Longrightarrow> lo \<le> SL_RX_MAX_REPEAT \<and>
     (case hi of None \<Rightarrow> True | Some m \<Rightarrow> lo \<le> m \<and> m \<le> SL_RX_MAX_REPEAT)"
  by (auto simp: rx_braces_def Let_def split: if_splits prod.splits)

lemma rx_quantifier_ok:
  "rx_quantifier p i = Some (Inr (f, j)) \<Longrightarrow> node_ok c g a \<Longrightarrow> node_ok c g (f a greedy)"
  by (auto simp: rx_quantifier_def Let_def dest!: rx_braces_ok split: if_splits option.splits sum.splits prod.splits)

lemma repeat_loop_ok:
  "ps_ok ps \<Longrightarrow> ps_node ps a \<Longrightarrow> parse_ok ps (ps_i ps) (repeat_loop p a ps)"
proof (induction p a ps rule: repeat_loop.induct)
  case (1 p a ps)
  show ?case
  proof (cases "ps_i ps < length p \<and> (\<exists>f j. rx_quantifier p (ps_i ps) = Some (Inr (f, j))) \<and> \<not> (case a of N_ASSERT _ \<Rightarrow> True | _ \<Rightarrow> False)")
    case True
    then obtain f j where q: "rx_quantifier p (ps_i ps) = Some (Inr (f, j))" by blast
    define lazy where "lazy = (j < length p \<and> p ! j = CHR ''?'')"
    let ?ps = "ps\<lparr>ps_i := (if lazy then j + 1 else j)\<rparr>"
    have step: "repeat_loop p a ps = repeat_loop p (f a (\<not> lazy)) ?ps"
      using True q by (subst repeat_loop.simps) (simp add: lazy_def Let_def)
    have adv: "advances ps ?ps" using rx_quantifier_less [OF q] 1(2) by (simp add: advances_def ps_ok_def)
    have "parse_ok ?ps (ps_i ?ps) (repeat_loop p (f a (\<not> lazy)) ?ps)"
      using 1(1) [of "Inr (f, j)" "(f, j)" f j] True q 1(2,3) rx_quantifier_ok [OF q 1(3)]
      by (simp add: lazy_def ps_ok_def)
    from parse_ok_weaken [OF parse_ok_after [OF adv this], of "ps_i ps"] show ?thesis
      unfolding step using adv by (simp add: advances_def)
  next
    case False
    then have "repeat_loop p a ps \<in> {Inr (a, ps)} \<union> range Inl"
      by (subst repeat_loop.simps) (auto split: option.splits sum.splits sl_rx_node.splits if_splits)
    then show ?thesis using 1(2,3) by (auto simp: parse_ok_def)
  qed
qed

text \<open>
  The functions that call each other, over a parser for groups that keeps its promise at the
  depths it is called at. Their answers are never missing.
\<close>

definition group_parser :: "nat \<Rightarrow> (sl_rx_parser \<Rightarrow> sl_rx_node rx_parse option) \<Rightarrow> bool" where
  "group_parser depth alt \<longleftrightarrow> (\<forall>ps. ps_ok ps \<longrightarrow> depth \<le> ps_depth ps \<longrightarrow> ps_depth ps \<le> SL_RX_MAX_DEPTH \<longrightarrow>
     (\<exists>r. alt ps = Some r \<and> parse_ok ps (ps_i ps) r))"

lemma group_parserD:
  "group_parser depth alt \<Longrightarrow> ps_ok ps \<Longrightarrow> depth \<le> ps_depth ps \<Longrightarrow> ps_depth ps \<le> SL_RX_MAX_DEPTH \<Longrightarrow>
     \<exists>r. alt ps = Some r \<and> parse_ok ps (ps_i ps) r"
  by (simp add: group_parser_def)

lemma parse_group_ok:
  assumes alt: "group_parser (Suc (ps_depth ps)) alt" and ps: "ps_ok ps"
    and i: "ps_i ps < length p" "p ! ps_i ps = CHR ''(''"
  shows "\<exists>r. sl_rx_parse_atom alt p ps = Some r \<and> parse_ok ps (Suc (ps_i ps)) r"
proof -
  define capt where "capt = (\<not> (ps_i ps + 2 < length p \<and> p ! (ps_i ps + 1) = CHR ''?'' \<and> p ! (ps_i ps + 2) = CHR '':''))"
  define bad where "bad \<longleftrightarrow> capt \<and> (ps_i ps + 1 < length p \<and> p ! (ps_i ps + 1) = CHR ''?'' \<or> ps_ngroups ps \<ge> SL_RX_MAX_GROUPS) \<or>
    ps_depth ps + 1 > SL_RX_MAX_DEPTH"
  let ?g = "if capt then ps_ngroups ps + 1 else ps_ngroups ps"
  let ?ps = "ps\<lparr>ps_i := (if capt then ps_i ps + 1 else ps_i ps + 3), ps_ngroups := ?g, ps_depth := ps_depth ps + 1\<rparr>"
  show ?thesis
  proof (cases bad)
    case True
    then have "\<exists>e. sl_rx_parse_atom alt p ps = Some (Inl e)"
      using i unfolding bad_def capt_def by (auto simp: sl_rx_parse_atom_def Let_def)
    then show ?thesis by auto
  next
    case False
    have "ps_ok ?ps" using ps False by (auto simp: ps_ok_def bad_def)
    then obtain r where r: "alt ?ps = Some r" "parse_ok ?ps (ps_i ?ps) r"
      using group_parserD [OF alt, of ?ps] False by (auto simp: bad_def)
    have atom: "sl_rx_parse_atom alt p ps =
        (case r of
           Inl e \<Rightarrow> Some (Inl e)
         | Inr (inner, ps1) \<Rightarrow>
             if ps_i ps1 \<ge> length p \<or> p ! ps_i ps1 \<noteq> CHR '')'' then Some (Inl (sl_rx_fail (ps_i ps1) ''missing )''))
             else Some (Inr (if capt then N_GROUP ?g inner else inner, ps1\<lparr>ps_i := ps_i ps1 + 1, ps_depth := ps_depth ps1 - 1\<rparr>)))"
      using i False r(1) unfolding bad_def capt_def by (auto simp: sl_rx_parse_atom_def Let_def split: sum.split)
    show ?thesis
    proof (cases r)
      case (Inr x)
      obtain inner ps1 where x: "x = (inner, ps1)" by (cases x)
      from parse_okD [of ?ps "ps_i ?ps" inner ps1] r(2) Inr x
      have "advances ?ps ps1" "ps_i ?ps \<le> ps_i ps1" "ps_node ps1 inner" by auto
      then have "parse_ok ps (Suc (ps_i ps)) (Inr (if capt then N_GROUP ?g inner else inner, ps1\<lparr>ps_i := ps_i ps1 + 1, ps_depth := ps_depth ps1 - 1\<rparr>))"
        by (auto simp: parse_ok_def advances_def ps_ok_def)
      then show ?thesis unfolding atom Inr x by auto
    qed (use atom in auto)
  qed
qed

lemma sl_rx_parse_atom_ok:
  assumes alt: "group_parser (Suc (ps_depth ps)) alt" and ps: "ps_ok ps"
  shows "\<exists>r. sl_rx_parse_atom alt p ps = Some r \<and>
    parse_ok ps (if ps_i ps < length p \<and> p ! ps_i ps \<noteq> CHR '')'' then Suc (ps_i ps) else ps_i ps) r"
proof -
  let ?c = "p ! ps_i ps" and ?next = "ps\<lparr>ps_i := Suc (ps_i ps)\<rparr>"
  have nxt: "ps_ok ?next" "advances ps ?next" using ps by (auto simp: ps_ok_def advances_def)
  consider "ps_i ps \<ge> length p" | "ps_i ps < length p" "?c = CHR ''(''" | "ps_i ps < length p" "?c = CHR ''[''"
    | "ps_i ps < length p" "?c = CHR 0x5C" | "ps_i ps < length p" "?c = CHR '')''"
    | "ps_i ps < length p" "?c \<notin> {CHR ''('', CHR ''['', CHR 0x5C, CHR '')''}" by fastforce
  then show ?thesis
  proof cases
    case 1
    then show ?thesis using ps by (simp add: sl_rx_parse_atom_def parse_ok_def)
  next
    case 2
    then show ?thesis using parse_group_ok [OF alt ps 2] by simp
  next
    case 3
    have "parse_ok ps (Suc (ps_i ps)) (sl_rx_bracket p ?next)"
      using parse_ok_after [OF nxt(2) sl_rx_bracket_ok [OF nxt(1)]] by simp
    then show ?thesis using 3 by (simp add: sl_rx_parse_atom_def Let_def)
  next
    case 4
    have "parse_ok ps (Suc (ps_i ps)) (sl_rx_escape p ?next)"
      by (rule parse_ok_weaken [OF parse_ok_after [OF nxt(2) sl_rx_escape_ok [OF nxt(1)]]]) simp
    then show ?thesis using 4 by (simp add: sl_rx_parse_atom_def Let_def)
  next
    case 5
    then show ?thesis using ps by (simp add: sl_rx_parse_atom_def Let_def parse_ok_def)
  next
    case 6
    have "parse_ok ps (Suc (ps_i ps)) (Inr (nd, ?next))" if "node_ok 0 0 nd" for nd
      by (rule moved_ok [OF ps that]) simp
    then show ?thesis using 6 by (simp add: sl_rx_parse_atom_def Let_def)
  qed
qed

lemma sl_rx_parse_repeat_ok:
  assumes alt: "group_parser (Suc (ps_depth ps)) alt" and ps: "ps_ok ps"
    and i: "ps_i ps < length p" "p ! ps_i ps \<noteq> CHR '')''"
  shows "\<exists>r. sl_rx_parse_repeat alt p ps = Some r \<and> parse_ok ps (Suc (ps_i ps)) r"
proof -
  obtain r where r: "sl_rx_parse_atom alt p ps = Some r" "parse_ok ps (Suc (ps_i ps)) r"
    using sl_rx_parse_atom_ok [OF alt ps, of p] i by auto
  show ?thesis
  proof (cases r)
    case (Inr x)
    obtain nd ps1 where x: "x = (nd, ps1)" by (cases x)
    from parse_okD [of ps "Suc (ps_i ps)" nd ps1] r(2) Inr x
    have adv: "advances ps ps1" "Suc (ps_i ps) \<le> ps_i ps1" "ps_node ps1 nd" by auto
    then have "parse_ok ps1 (ps_i ps1) (repeat_loop p nd ps1)" by (intro repeat_loop_ok) (auto simp: advances_def)
    from parse_ok_weaken [OF parse_ok_after [OF adv(1) this] adv(2)] show ?thesis
      using r(1) Inr x by (simp add: sl_rx_parse_repeat_def)
  qed (use r in \<open>auto simp: sl_rx_parse_repeat_def\<close>)
qed

text \<open>The loops over items and over alternatives, whose rounds each take a character.\<close>

definition items_ok :: "sl_rx_parser \<Rightarrow> sl_rx_node list rx_parse \<Rightarrow> bool" where
  "items_ok ps r \<longleftrightarrow> (\<forall>nds ps'. r = Inr (nds, ps') \<longrightarrow> advances ps ps' \<and> list_all (ps_node ps') nds)"

lemma items_ok_Cons:
  assumes "advances ps ps1" "ps_node ps1 nd" "items_ok ps1 r"
  shows "items_ok ps (map_sum id (map_prod (Cons nd) id) r)"
proof (cases r)
  case (Inr x)
  then show ?thesis using assms
    by (cases x) (auto simp: items_ok_def dest: advances_trans ps_node_advances)
qed (simp add: items_ok_def)

lemma fold_right_ok:
  "(\<And>a b. ps_node ps a \<Longrightarrow> ps_node ps b \<Longrightarrow> ps_node ps (f a b)) \<Longrightarrow> list_all (ps_node ps) nds \<Longrightarrow> ps_node ps (fold_right f nds)"
  by (induction f nds rule: fold_right.induct) auto

lemma items_fold_ok:
  assumes "items_ok ps r" and "\<And>ps a b. ps_node ps a \<Longrightarrow> ps_node ps b \<Longrightarrow> ps_node ps (f a b)"
  shows "parse_ok ps (ps_i ps) (map_sum id (map_prod (fold_right f) id) r)"
proof (cases r)
  case (Inr x)
  then show ?thesis using assms fold_right_ok [of _ f]
    by (cases x) (auto simp: items_ok_def parse_ok_def advances_def)
qed simp

lemma rounds_enough: "length p - i < Suc (length p)"
  by simp

lemma cat_items_ok:
  assumes "group_parser depth alt"
  shows "depth \<le> Suc (ps_depth ps) \<Longrightarrow> ps_ok ps \<Longrightarrow> length p - ps_i ps < rounds \<Longrightarrow>
    \<exists>r. cat_items alt p rounds ps = Some r \<and> items_ok ps r"
proof (induction rounds arbitrary: ps)
  case (Suc rounds)
  show ?case
  proof (cases "ps_i ps < length p \<and> p ! ps_i ps \<noteq> CHR ''|'' \<and> p ! ps_i ps \<noteq> CHR '')''")
    case True
    have "group_parser (Suc (ps_depth ps)) alt" using assms Suc.prems(1) by (auto simp: group_parser_def)
    then obtain r where r: "sl_rx_parse_repeat alt p ps = Some r" "parse_ok ps (Suc (ps_i ps)) r"
      using sl_rx_parse_repeat_ok Suc.prems(2) True by blast
    show ?thesis
    proof (cases r)
      case (Inr x)
      obtain nd ps1 where x: "x = (nd, ps1)" by (cases x)
      from parse_okD [of ps "Suc (ps_i ps)" nd ps1] r(2) Inr x
      have adv: "advances ps ps1" "Suc (ps_i ps) \<le> ps_i ps1" "ps_node ps1 nd" by auto
      moreover have "length p - ps_i ps1 < rounds" using adv(2) Suc.prems(3) True by linarith
      ultimately obtain r1 where "cat_items alt p rounds ps1 = Some r1" "items_ok ps1 r1"
        using Suc.IH [of ps1] Suc.prems by (auto simp: advances_def)
      then show ?thesis using r(1) Inr x True items_ok_Cons [OF adv(1,3)] by simp
    qed (use r True in \<open>auto simp: items_ok_def\<close>)
  next
    case False
    then show ?thesis using Suc.prems by (auto simp: items_ok_def)
  qed
qed simp

lemma sl_rx_parse_cat_ok:
  assumes "group_parser depth alt" and "depth \<le> Suc (ps_depth ps)" and "ps_ok ps"
  shows "\<exists>r. sl_rx_parse_cat alt p ps = Some r \<and> parse_ok ps (ps_i ps) r"
proof -
  obtain r where r: "cat_items alt p (Suc (length p)) ps = Some r" "items_ok ps r"
    using cat_items_ok [OF assms rounds_enough] by blast
  then show ?thesis using items_fold_ok [OF r(2), of N_CAT] by (simp add: sl_rx_parse_cat_def del: cat_items.simps)
qed

lemma alt_items_ok:
  assumes "group_parser depth alt"
  shows "depth \<le> Suc (ps_depth ps) \<Longrightarrow> ps_ok ps \<Longrightarrow> length p - ps_i ps < rounds \<Longrightarrow>
    \<exists>r. alt_items alt p rounds ps = Some r \<and> items_ok ps r"
proof (induction rounds arbitrary: ps)
  case (Suc rounds)
  obtain r where r: "sl_rx_parse_cat alt p ps = Some r" "parse_ok ps (ps_i ps) r"
    using sl_rx_parse_cat_ok [OF assms Suc.prems(1,2)] by blast
  show ?case
  proof (cases r)
    case (Inr x)
    obtain nd ps1 where x: "x = (nd, ps1)" by (cases x)
    from parse_okD [of ps "ps_i ps" nd ps1] r(2) Inr x
    have adv: "advances ps ps1" "ps_i ps \<le> ps_i ps1" "ps_node ps1 nd" by auto
    show ?thesis
    proof (cases "ps_i ps1 < length p \<and> p ! ps_i ps1 = CHR ''|''")
      case True
      let ?ps = "ps1\<lparr>ps_i := Suc (ps_i ps1)\<rparr>"
      have adv2: "advances ps ?ps" "ps_node ?ps nd" using adv by (auto simp: advances_def ps_ok_def)
      have "length p - ps_i ?ps < rounds" using adv(2) Suc.prems(3) True by simp linarith
      then obtain r1 where "alt_items alt p rounds ?ps = Some r1" "items_ok ?ps r1"
        using Suc.IH [of ?ps] Suc.prems adv2(1) by (auto simp: advances_def)
      then show ?thesis using r(1) Inr x True items_ok_Cons [OF adv2] by simp
    next
      case False
      then show ?thesis using r(1) Inr x adv by (auto simp: items_ok_def)
    qed
  qed (use r in \<open>auto simp: items_ok_def\<close>)
qed simp

lemma sl_rx_parse_alt_ok:
  "ps_ok ps \<Longrightarrow> ps_depth ps \<le> SL_RX_MAX_DEPTH \<Longrightarrow> SL_RX_MAX_DEPTH \<le> depth + ps_depth ps \<Longrightarrow>
    \<exists>r. sl_rx_parse_alt (Suc depth) p ps = Some r \<and> parse_ok ps (ps_i ps) r"
proof (induction depth arbitrary: ps)
  case 0
  have "group_parser (Suc (ps_depth ps)) (sl_rx_parse_alt 0 p)" using 0 by (simp add: group_parser_def)
  then obtain r where r: "alt_items (sl_rx_parse_alt 0 p) p (Suc (length p)) ps = Some r" "items_ok ps r"
    using alt_items_ok [OF _ order_refl 0(1) rounds_enough] by blast
  then show ?case using items_fold_ok [OF r(2), of N_ALT] by (simp del: alt_items.simps)
next
  case (Suc depth)
  have "group_parser (Suc (ps_depth ps)) (sl_rx_parse_alt (Suc depth) p)"
    using Suc.IH Suc.prems(3) unfolding group_parser_def by auto
  then obtain r where r: "alt_items (sl_rx_parse_alt (Suc depth) p) p (Suc (length p)) ps = Some r" "items_ok ps r"
    using alt_items_ok [OF _ order_refl Suc.prems(1) rounds_enough] by blast
  then show ?case using items_fold_ok [OF r(2), of N_ALT]
    by (subst sl_rx_parse_alt.simps(2)) (simp del: alt_items.simps sl_rx_parse_alt.simps)
qed

section \<open>Compiled programs\<close>

lemma parse_pattern_ok:
  "\<exists>r. parse_pattern pat = Some r \<and> parse_ok \<lparr>ps_i = 0, ps_depth = 0, ps_ngroups = 0, ps_cls = []\<rparr> 0 r"
  using sl_rx_parse_alt_ok [of "\<lparr>ps_i = 0, ps_depth = 0, ps_ngroups = 0, ps_cls = []\<rparr>" SL_RX_MAX_DEPTH pat]
  by (simp add: ps_ok_def parse_pattern_def)

definition whole_code :: "sl_rx_node \<Rightarrow> sl_rx_inst list" where
  "whole_code root = new_inst RX_SAVE (Arg 0) (- 1) # code_of root 1 @
     [new_inst RX_SAVE (Arg 1) (- 1), new_inst RX_MATCH (Arg 0) (- 1)]"

lemma length_whole_code [simp]: "length (whole_code root) = code_len root + 3"
  by (simp add: whole_code_def)

lemma emit_whole:
  "emits (\<lambda>ec. snd (sl_rx_emit1 RX_MATCH (Arg 0) (- 1) (snd (sl_rx_emit1 RX_SAVE (Arg 1) (- 1)
     (sl_rx_emit root (snd (sl_rx_emit1 RX_SAVE (Arg 0) (- 1) ec))))))) (code_len root + 3)
     (\<lambda>st. new_inst RX_SAVE (Arg 0) (- 1) # code_of root (st + 1) @
       [new_inst RX_SAVE (Arg 1) (- 1), new_inst RX_MATCH (Arg 0) (- 1)])"
  using emits_seq [OF emits_seq [OF emits_seq [OF emits_emit1 [of RX_SAVE "Arg 0" "- 1"] sl_rx_emit_code(1) [of root]]
        emits_emit1 [of RX_SAVE "Arg 1" "- 1"]] emits_emit1 [of RX_MATCH "Arg 0" "- 1"]]
  by (simp add: numeral_3_eq_3)

lemma compute_first_fields: "sl_rx_compute_first (re\<lparr>re_has_first := h, re_first := f\<rparr>) = sl_rx_compute_first re"
proof -
  have visit: "first_visit (re\<lparr>re_has_first := h, re_first := f\<rparr>) = first_visit re" for re
    by (auto simp: first_visit_def fun_eq_iff Let_def split: rx_op.split)
  have "first_loop (re\<lparr>re_has_first := h, re_first := f\<rparr>) seen stk c = first_loop re seen stk c" for seen stk c
    by (induction re seen stk c rule: first_loop.induct) (auto simp: visit split: option.split)
  then show ?thesis by (simp add: sl_rx_compute_first_def del: first_loop.simps)
qed

text \<open>The compiler in terms of the tree and its code.\<close>

lemma sl_rx_compile_code:
  assumes "parse_pattern pat = Some (Inr (root, ps))" and "ps_i ps = length pat"
  shows "if code_len root + 3 \<le> SL_RX_MAX_INSTS
    then \<exists>re. sl_rx_compile pat = Some (Inr re) \<and> re_prog re = whole_code root \<and> re_classes re = ps_cls ps \<and>
      re_ngroups re = ps_ngroups ps \<and> re_nslots re = 2 * (ps_ngroups ps + 1) \<and>
      (re_has_first re, re_first re) = sl_rx_compute_first re \<and>
      (re_anchored_start re \<longleftrightarrow> in_op (re_prog re ! 1) = RX_ASSERT \<and> arg_assert (in_arg (re_prog re ! 1)) \<in> {RXA_BOL, RXA_BOT})
    else sl_rx_compile pat = Some (Inl ''pattern too complex (exceeds 4096 instructions)'')"
proof -
  let ?ec = "\<lparr>ec_prog = [], ec_failed = False\<rparr>"
  note e = emitsD(3,4) [OF emit_whole [of root], where ec = ?ec, simplified]
  show ?thesis
  proof (cases "code_len root + 3 \<le> SL_RX_MAX_INSTS")
    case True
    define re0 where "re0 = \<lparr>re_prog = whole_code root, re_classes = ps_cls ps, re_ngroups = ps_ngroups ps,
      re_nslots = 2 * (ps_ngroups ps + 1), re_has_first = False, re_first = cls_empty,
      re_anchored_start = (in_op (whole_code root ! 1) = RX_ASSERT \<and>
        arg_assert (in_arg (whole_code root ! 1)) \<in> {RXA_BOL, RXA_BOT})\<rparr>"
    obtain h f where hf: "sl_rx_compute_first re0 = (h, f)" by (cases "sl_rx_compute_first re0")
    have "sl_rx_compile pat = Some (Inr (re0\<lparr>re_has_first := h, re_first := f\<rparr>))"
      unfolding sl_rx_compile_def assms(1) using e(1) True assms(2) hf by (simp add: Let_def re0_def whole_code_def)
    then show ?thesis using True hf compute_first_fields [of f h re0]
      by (auto simp: re0_def intro!: exI [of _ "re0\<lparr>re_has_first := h, re_first := f\<rparr>"])
  next
    case False
    then show ?thesis unfolding sl_rx_compile_def assms(1) using e(2) assms(2) by (simp add: Let_def)
  qed
qed

text \<open>The instructions of the code, and the programs in which every operand is in its range.\<close>

definition inst_ok :: "nat \<Rightarrow> nat \<Rightarrow> nat \<Rightarrow> nat \<Rightarrow> sl_rx_inst \<Rightarrow> bool" where
  "inst_ok lo hi ncls nslots ins \<longleftrightarrow>
     (case in_op ins of
        RX_BYTE \<Rightarrow> arg_nat (in_arg ins) < 256
      | RX_CLASS \<Rightarrow> 0 \<le> in_cls ins \<and> in_cls ins < int ncls
      | RX_SPLIT \<Rightarrow> int lo \<le> in_x ins \<and> in_x ins \<le> int hi \<and> int lo \<le> in_y ins \<and> in_y ins \<le> int hi
      | RX_JMP \<Rightarrow> int lo \<le> in_x ins \<and> in_x ins \<le> int hi
      | RX_SAVE \<Rightarrow> 2 \<le> arg_nat (in_arg ins) \<and> arg_nat (in_arg ins) < nslots
      | RX_MATCH \<Rightarrow> False
      | _ \<Rightarrow> True)"

lemma inst_ok_widen: "inst_ok lo hi c n ins \<Longrightarrow> lo' \<le> lo \<Longrightarrow> hi \<le> hi' \<Longrightarrow> inst_ok lo' hi' c n ins"
  by (auto simp: inst_ok_def split: rx_op.splits)

lemma list_inst_ok_widen:
  "list_all (inst_ok lo hi c n) p \<Longrightarrow> lo' \<le> lo \<Longrightarrow> hi \<le> hi' \<Longrightarrow> list_all (inst_ok lo' hi' c n) p"
  by (auto simp: list_all_iff intro: inst_ok_widen)

lemma inst_ok_simps [simp]:
  "inst_ok lo hi c n (split_inst g a b) \<longleftrightarrow> lo \<le> a \<and> a \<le> hi \<and> lo \<le> b \<and> b \<le> hi"
  "inst_ok lo hi c n (jump_inst a) \<longleftrightarrow> lo \<le> a \<and> a \<le> hi"
  "inst_ok lo hi c n (new_inst RX_BYTE (Arg v) cls) \<longleftrightarrow> v < 256"
  "inst_ok lo hi c n (new_inst RX_SAVE (Arg v) cls) \<longleftrightarrow> 2 \<le> v \<and> v < n"
  "inst_ok lo hi c n (new_inst RX_CLASS arg cls) \<longleftrightarrow> 0 \<le> cls \<and> cls < int c"
  "inst_ok lo hi c n (new_inst RX_ANY arg cls)" "inst_ok lo hi c n (new_inst RX_ANYNL arg cls)"
  "inst_ok lo hi c n (new_inst RX_ASSERT arg cls)"
  by (auto simp: inst_ok_def split_inst_def jump_inst_def new_inst_def arg_nat_def)

lemma star_inst_ok:
  assumes "\<And>st. length (cd st) = len" "\<And>st. list_all (inst_ok st (st + len) c n) (cd st)"
  shows "list_all (inst_ok st (st + len + 2) c n) (code_star cd len greedy st)"
  using list_inst_ok_widen [OF assms(2) [of "st + 1"], of st "st + len + 2"] by (simp add: code_star_def)

lemma copies_inst_ok:
  assumes "\<And>st. list_all (inst_ok st (st + len) c n) (cd st)"
  shows "list_all (inst_ok st (st + k * len) c n) (code_copies cd len k st)"
proof (induction k arbitrary: st)
  case (Suc k)
  show ?case
    using list_inst_ok_widen [OF assms [of st], of st "st + Suc k * len"]
      list_inst_ok_widen [OF Suc [of "st + len"], of st "st + Suc k * len"] by simp
qed simp

lemma opts_inst_ok:
  assumes "\<And>st. list_all (inst_ok st (st + len) c n) (cd st)"
  shows "fin = st + k * (len + 1) \<Longrightarrow> list_all (inst_ok st fin c n) (code_opts cd len greedy fin k st)"
proof (induction k arbitrary: st)
  case (Suc k)
  have "list_all (inst_ok (st + 1 + len) fin c n) (code_opts cd len greedy fin k (st + 1 + len))"
    by (rule Suc.IH) (simp add: Suc.prems)
  then show ?case using Suc.prems
      list_inst_ok_widen [OF assms [of "st + 1"], of st fin] list_inst_ok_widen [of "st + 1 + len" fin c n _ st fin]
    by simp
qed simp

lemma code_inst_ok:
  assumes "g \<le> SL_RX_MAX_GROUPS"
  shows "node_ok c g nd \<Longrightarrow> list_all (inst_ok st (st + code_len nd) c (2 * (g + 1))) (code_of nd st)"
proof (induction nd arbitrary: st)
  case (N_CAT a b)
  then show ?case
    using list_inst_ok_widen [OF N_CAT.IH(1) [of st], of st "st + code_len a + code_len b"]
      list_inst_ok_widen [OF N_CAT.IH(2) [of "st + code_len a"], of st "st + code_len a + code_len b"] by (simp add: add.assoc)
next
  case (N_ALT a b)
  let ?fin = "st + code_len a + code_len b + 2"
  show ?case
    using list_inst_ok_widen [OF N_ALT.IH(1) [of "st + 1"], of st ?fin] N_ALT.prems
      list_inst_ok_widen [OF N_ALT.IH(2) [of "st + code_len a + 2"], of st ?fin] by (simp add: add.assoc)
next
  case (N_STAR a greedy)
  then show ?case using star_inst_ok [of "code_of a" "code_len a"] by (simp add: add.assoc)
next
  case (N_PLUS a greedy)
  then show ?case using list_inst_ok_widen [OF N_PLUS.IH [of st], of st "st + code_len a + 1"] by simp
next
  case (N_QUEST a greedy)
  then show ?case using list_inst_ok_widen [OF N_QUEST.IH [of "st + 1"], of st "st + code_len a + 1"] by simp
next
  case (N_REP a rmin rmax greedy)
  let ?mid = "st + rmin * code_len a" and ?fin = "st + code_len (N_REP a rmin rmax greedy)"
  have ok: "list_all (inst_ok st (st + code_len a) c (2 * (g + 1))) (code_of a st)" for st using N_REP by simp
  have "list_all (inst_ok st ?fin c (2 * (g + 1))) (code_copies (code_of a) (code_len a) rmin st)"
    by (rule list_inst_ok_widen [OF copies_inst_ok [OF ok]]) simp_all
  moreover have "list_all (inst_ok st ?fin c (2 * (g + 1))) (code_star (code_of a) (code_len a) greedy ?mid)" if "rmax = None"
    by (rule list_inst_ok_widen [OF star_inst_ok [OF length_code_of ok]]) (simp_all add: that)
  moreover have "list_all (inst_ok st ?fin c (2 * (g + 1))) (code_opts (code_of a) (code_len a) greedy (?mid + (m - rmin) * (code_len a + 1)) (m - rmin) ?mid)"
    if "rmax = Some m" for m
    by (rule list_inst_ok_widen [OF opts_inst_ok [OF ok refl]]) (simp_all add: that)
  ultimately show ?case by (simp add: Let_def split: option.split)
next
  case (N_GROUP k a)
  have "2 * k mod 256 = 2 * k" "Suc (2 * k) mod 256 = Suc (2 * k)"
    using assms N_GROUP.prems by (auto simp: SL_RX_MAX_GROUPS_def)
  then show ?case using list_inst_ok_widen [OF N_GROUP.IH [of "st + 1"], of st "st + code_len a + 2"] N_GROUP.prems by simp
qed auto

text \<open>
  The programs a match may run on: jumps stay inside, every class is in the table and has its 32
  bytes, every slot is in the captures, and only the last instruction matches.
\<close>

definition rx_wf :: "sl_rx \<Rightarrow> bool" where
  "rx_wf re \<longleftrightarrow>
     (let n = length (re_prog re) in
      0 < n \<and> n \<le> SL_RX_MAX_INSTS \<and> re_nslots re = 2 * (re_ngroups re + 1) \<and> re_ngroups re \<le> SL_RX_MAX_GROUPS \<and>
      list_all cls_ok (re_classes re) \<and>
      (\<forall>pc<n. let ins = re_prog re ! pc in
         (in_op ins = RX_MATCH \<longleftrightarrow> pc = n - 1) \<and>
         (in_op ins = RX_BYTE \<longrightarrow> arg_nat (in_arg ins) < 256) \<and>
         (in_op ins = RX_CLASS \<longrightarrow> 0 \<le> in_cls ins \<and> nat (in_cls ins) < length (re_classes re)) \<and>
         (in_op ins = RX_SAVE \<longrightarrow> arg_nat (in_arg ins) < re_nslots re) \<and>
         (in_op ins \<in> {RX_SPLIT, RX_JMP} \<longrightarrow> 0 \<le> in_x ins \<and> nat (in_x ins) < n) \<and>
         (in_op ins = RX_SPLIT \<longrightarrow> 0 \<le> in_y ins \<and> nat (in_y ins) < n)))"

text \<open>What a successful compilation gives.\<close>

lemma compile_parsed:
  assumes "sl_rx_compile pat = Some (Inr re)"
  obtains root ps where "parse_pattern pat = Some (Inr (root, ps))" and "ps_i ps = length pat"
proof -
  obtain r where "parse_pattern pat = Some r" using parse_pattern_ok [of pat] by blast
  moreover have "\<exists>root ps. r = Inr (root, ps) \<and> ps_i ps = length pat"
    using assms unfolding sl_rx_compile_def calculation by (auto split: sum.splits if_splits)
  ultimately show ?thesis using that by blast
qed

lemma compile_result:
  assumes "sl_rx_compile pat = Some (Inr re)" and "parse_pattern pat = Some (Inr (root, ps))"
  shows "ps_i ps = length pat" "re_prog re = whole_code root" "re_classes re = ps_cls ps"
    "re_ngroups re = ps_ngroups ps" "re_nslots re = 2 * (ps_ngroups ps + 1)" "code_len root + 3 \<le> SL_RX_MAX_INSTS"
    "(re_has_first re, re_first re) = sl_rx_compute_first re"
    "re_anchored_start re \<longleftrightarrow> in_op (re_prog re ! 1) = RX_ASSERT \<and> arg_assert (in_arg (re_prog re ! 1)) \<in> {RXA_BOL, RXA_BOT}"
    "ps_ok ps" "ps_node ps root"
proof -
  show len: "ps_i ps = length pat" using compile_parsed [OF assms(1)] assms(2) by (metis Inr_inject option.inject prod.inject)
  note c = sl_rx_compile_code [OF assms(2) len]
  show fits: "code_len root + 3 \<le> SL_RX_MAX_INSTS" using c assms(1) by (auto split: if_splits)
  show "re_prog re = whole_code root" "re_classes re = ps_cls ps"
    "re_ngroups re = ps_ngroups ps" "re_nslots re = 2 * (ps_ngroups ps + 1)"
    "(re_has_first re, re_first re) = sl_rx_compute_first re"
    "re_anchored_start re \<longleftrightarrow> in_op (re_prog re ! 1) = RX_ASSERT \<and> arg_assert (in_arg (re_prog re ! 1)) \<in> {RXA_BOL, RXA_BOT}"
    using c fits assms(1) by auto
  obtain r where r: "parse_pattern pat = Some r" "parse_ok \<lparr>ps_i = 0, ps_depth = 0, ps_ngroups = 0, ps_cls = []\<rparr> 0 r"
    using parse_pattern_ok [of pat] by blast
  then have "r = Inr (root, ps)" using assms(2) by simp
  then show "ps_ok ps" "ps_node ps root" using parse_okD r(2) by (auto simp: advances_def)
qed

lemma whole_code_nth:
  "whole_code root ! 0 = new_inst RX_SAVE (Arg 0) (- 1)"
  "k < code_len root \<Longrightarrow> whole_code root ! Suc k = code_of root 1 ! k"
  "whole_code root ! Suc (code_len root) = new_inst RX_SAVE (Arg 1) (- 1)"
  "whole_code root ! Suc (Suc (code_len root)) = new_inst RX_MATCH (Arg 0) (- 1)"
  by (simp_all add: whole_code_def nth_append)

lemma sl_rx_compile_wf_aux:
  assumes "sl_rx_compile pat = Some (Inr re)"
  shows "rx_wf re"
proof -
  obtain root ps where parse: "parse_pattern pat = Some (Inr (root, ps))" using compile_parsed [OF assms] by blast
  note re = compile_result [OF assms parse]
  have g: "ps_ngroups ps \<le> SL_RX_MAX_GROUPS" using re(9) by (simp add: ps_ok_def)
  let ?n = "code_len root"
  have code: "inst_ok 1 (1 + ?n) (length (ps_cls ps)) (re_nslots re) (code_of root 1 ! k)" if "k < ?n" for k
    using code_inst_ok [OF g re(10), of 1] that by (simp add: list_all_length re(5))
  have "let ins = re_prog re ! pc in
         (in_op ins = RX_MATCH \<longleftrightarrow> pc = ?n + 2) \<and>
         (in_op ins = RX_BYTE \<longrightarrow> arg_nat (in_arg ins) < 256) \<and>
         (in_op ins = RX_CLASS \<longrightarrow> 0 \<le> in_cls ins \<and> nat (in_cls ins) < length (re_classes re)) \<and>
         (in_op ins = RX_SAVE \<longrightarrow> arg_nat (in_arg ins) < re_nslots re) \<and>
         (in_op ins \<in> {RX_SPLIT, RX_JMP} \<longrightarrow> 0 \<le> in_x ins \<and> nat (in_x ins) < ?n + 3) \<and>
         (in_op ins = RX_SPLIT \<longrightarrow> 0 \<le> in_y ins \<and> nat (in_y ins) < ?n + 3)" if "pc < ?n + 3" for pc
  proof -
    have "pc = 0 \<or> (\<exists>k<?n. pc = Suc k) \<or> pc = Suc ?n \<or> pc = Suc (Suc ?n)" using that by (cases pc) auto
    then consider "pc = 0" | k where "pc = Suc k" "k < ?n" | "pc = Suc ?n" | "pc = Suc (Suc ?n)" by blast
    then show ?thesis
    proof cases
      case (2 k)
      then show ?thesis using code [OF 2(2)] whole_code_nth(2) [OF 2(2)] re(3)
        by (auto simp: re(2) inst_ok_def Let_def)
    qed (simp_all add: re(2,5) whole_code_nth new_inst_def arg_nat_def)
  qed
  then show ?thesis using re(6,9) g unfolding rx_wf_def re(2) Let_def length_whole_code
    by (auto simp: re(3-5) ps_ok_def)
qed

text \<open>A compiled program goes from its start to its match between the positions its tree matches.\<close>

lemma compile_match:
  assumes "sl_rx_compile pat = Some (Inr re)" and "parse_pattern pat = Some (Inr (root, ps))"
  shows "(\<exists>pc. ((0, i), (pc, j)) \<in> (rx_move re s)\<^sup>* \<and> rx_matches_at re pc) \<longleftrightarrow> (i, j) \<in> rx_rel (re_classes re) s root"
proof -
  note re = compile_result [OF assms] and wf = sl_rx_compile_wf_aux [OF assms(1)]
  let ?n = "code_len root" and ?M = "rx_move re s"
  have len: "length (re_prog re) = ?n + 3" by (simp add: re(2))
  have "placed re 1 (code_of root 1)" by (simp add: placed_def re(2) whole_code_nth)
  note R = realisesD [OF code_realises [OF this, of s]]
  have sv: "((0, i), (q, j)) \<in> ?M \<longleftrightarrow> i = j \<and> q = 1" "((1 + ?n, i), (q, j)) \<in> ?M \<longleftrightarrow> i = j \<and> q = ?n + 2" for i q j
    using move_save [of re 0 "Arg 0" "- 1" i q j s] move_save [of re "1 + ?n" "Arg 1" "- 1" i q j s] len
    by (auto simp: re(2) whole_code_nth)
  have mt: "rx_matches_at re pc \<longleftrightarrow> pc = ?n + 2" for pc
    using wf by (auto simp: rx_matches_at_def rx_wf_def Let_def len)
  have halt: "((?n + 2, k), x) \<notin> ?M" for k x
    by (cases x) (simp add: rx_move_def eps_def eps_to_def rx_takes_def re(2) whole_code_nth new_inst_def)
  have "((0, i), (?n + 2, j)) \<in> ?M\<^sup>* \<longleftrightarrow> (i, j) \<in> rx_rel (re_classes re) s root"
  proof
    assume "(i, j) \<in> rx_rel (re_classes re) s root"
    then have "((1, i), (1 + ?n, j)) \<in> ?M\<^sup>*" using R(1) by blast
    moreover have "((0, i), (1, i)) \<in> ?M" "((1 + ?n, j), (?n + 2, j)) \<in> ?M" using sv by auto
    ultimately show "((0, i), (?n + 2, j)) \<in> ?M\<^sup>*" by (meson converse_rtrancl_into_rtrancl rtrancl_into_rtrancl)
  next
    assume "((0, i), (?n + 2, j)) \<in> ?M\<^sup>*"
    then have "((1, i), (?n + 2, j)) \<in> ?M\<^sup>*" using sv(1) by (auto elim: converse_rtranclE)
    then obtain n where "((1, i), (?n + 2, j)) \<in> ?M ^^ n" using rtrancl_imp_relpow by blast
    from R(2) [OF this] obtain k n' where k: "(i, k) \<in> rx_rel (re_classes re) s root"
      "((1 + ?n, k), (?n + 2, j)) \<in> ?M ^^ n'" by auto
    obtain n'' where "((?n + 2, k), (?n + 2, j)) \<in> ?M ^^ n''" using leave_first [OF k(2)] sv(2) by auto
    then have "k = j" using halt by (cases n'') (auto simp del: relpow.simps(2) dest: relpow_Suc_D2)
    then show "(i, j) \<in> rx_rel (re_classes re) s root" using k(1) by simp
  qed
  then show ?thesis by (simp add: mt)
qed

lemma compile_accepts:
  assumes "sl_rx_compile pat = Some (Inr re)" and "parse_pattern pat = Some (Inr (root, ps))"
  shows "rx_accepts re s i \<longleftrightarrow> (\<exists>j. (i, j) \<in> rx_rel (re_classes re) s root)"
  using compile_match [OF assms] unfolding rx_accepts_def by blast

lemma compile_filter:
  assumes "sl_rx_compile pat = Some (Inr re)"
  shows "rx_filter_ok re" "0 < length (re_prog re)"
proof -
  obtain root ps where parse: "parse_pattern pat = Some (Inr (root, ps))" using compile_parsed [OF assms] by blast
  have wf: "rx_wf re" by (rule sl_rx_compile_wf_aux [OF assms])
  then show len: "0 < length (re_prog re)" by (simp add: rx_wf_def Let_def)
  have "byte_args re" using wf by (auto simp: byte_args_def rx_wf_def Let_def in_set_conv_nth)
  then show "rx_filter_ok re" using sl_rx_compute_first_ok [OF _ len] compile_result(7) [OF assms parse]
    unfolding rx_filter_ok_def by metis
qed

text \<open>
  C38: Compiling ends on every pattern, with a program or an error. The depth limit is what bounds
  the recursion: the parser never descends more than \<open>SL_RX_MAX_DEPTH\<close> groups.
\<close>

theorem sl_rx_compile_total: "\<exists>r. sl_rx_compile pat = Some r"
proof -
  obtain r where "parse_pattern pat = Some r" using parse_pattern_ok [of pat] by blast
  then show ?thesis by (cases r) (auto simp: sl_rx_compile_def)
qed

text \<open>
  C39: A compiled program is well formed: at most 4096 instructions, jumps inside the program,
  classes in the table, capture slots inside the captures, at most 32 groups, and one match, the
  last instruction, so that no run leaves the program.
\<close>

theorem sl_rx_compile_wf: "sl_rx_compile pat = Some (Inr re) \<Longrightarrow> rx_wf re"
  by (rule sl_rx_compile_wf_aux)

text \<open>Patterns for the witnesses.\<close>

definition compiles :: "(sl_rx \<Rightarrow> bool) \<Rightarrow> string \<Rightarrow> bool" where
  "compiles P pat = (case sl_rx_compile pat of Some (Inr re) \<Rightarrow> P re | _ \<Rightarrow> False)"

lemma compilesE: "compiles P pat \<Longrightarrow> (\<And>re. sl_rx_compile pat = Some (Inr re) \<Longrightarrow> P re \<Longrightarrow> thesis) \<Longrightarrow> thesis"
  by (auto simp: compiles_def split: option.splits sum.splits)

definition blank_list :: sl_rx_list where
  "blank_list = \<lparr>rl_sparse = (\<lambda>_. 0), rl_dense = [], rl_caps = (\<lambda>_. []), rl_tl = []\<rparr>"

lemma group_compiles: "compiles (\<lambda>re. rx_dependable re \<and> re_ngroups re = 1 \<and> length (re_prog re) = 12) ''.(b|c)*''"
  by code_simp

lemma boundary_compiles:
  "compiles (\<lambda>re. sl_regex_is_match (blank_list, blank_list) (Some re) (Some ''  cat'') = Some False) (CHR 0x5C # ''bcat'')"
  by code_simp

theorem sl_rx_compile_wf_witness: "compiles rx_wf ''.(b|c)*''"
  by (rule compilesE [OF group_compiles]) (simp add: compiles_def sl_rx_compile_wf)

lemma core_answer:
  assumes "sl_rx_compile pat = Some (Inr re)" and "start \<le> length s"
  obtains fuel' m out' where "sl_rx_match_core re s start (rx_budget re s) mem out want = Some (fuel', m, out')"
    and "run_answer re s start m"
  using sl_rx_match_core_ok [OF compile_filter(2,1) [OF assms(1)] assms(2) order_refl, of mem out want] by blast

text \<open>
  C8: Matching ends, in time linear in the subject: with a budget of at most 20481 rounds of the
  closure loop for each byte and the end, a compiled pattern always answers, whatever the
  scratch memory held and wherever the search starts.
\<close>

theorem regex_linear:
  assumes "sl_rx_compile pat = Some (Inr re)"
  shows "rx_budget re s \<le> (length s + 1) * 20481 \<and>
    (\<exists>m. sl_regex_is_match_bytes mem (Some re) (Some s) = Some m) \<and>
    (\<exists>out. sl_regex_find_bytes_at mem (Some re) (Some s) start = Some out)"
proof (intro conjI)
  have "length (re_prog re) \<le> 4096"
    using sl_rx_compile_wf_aux [OF assms] by (simp add: rx_wf_def Let_def SL_RX_MAX_INSTS_def)
  then show "rx_budget re s \<le> (length s + 1) * 20481" unfolding rx_budget_def by (intro mult_le_mono) auto
  show "\<exists>m. sl_regex_is_match_bytes mem (Some re) (Some s) = Some m"
    by (rule core_answer [OF assms, of 0 s mem "[0, 0]" False]) (auto simp: sl_regex_is_match_bytes_def)
  show "\<exists>out. sl_regex_find_bytes_at mem (Some re) (Some s) start = Some out"
  proof (cases "start < 0 \<or> start > int (length s)")
    case False
    then have "nat start \<le> length s" by auto
    then show ?thesis
      by (rule core_answer [OF assms, of "nat start" s mem "replicate (re_nslots re) 0" True])
        (use False in \<open>auto simp: sl_regex_find_bytes_at_def sl_regex_find_core_def\<close>)
  qed (auto simp: sl_regex_find_bytes_at_def sl_regex_find_core_def)
qed

theorem regex_linear_witness:
  "compiles (\<lambda>re. \<exists>m. sl_regex_is_match_bytes (blank_list, blank_list) (Some re) (Some [1, 2]) = Some m) ''.(b|c)*''"
  by (rule compilesE [OF group_compiles]) (simp add: compiles_def regex_linear [THEN conjunct2, THEN conjunct1])

text \<open>
  C6: Matching is right. For every pattern, assertions included, \<open>is_match\<close> answers, and it answers
  true only where the tree of the pattern matches somewhere in the subject, at its start for a
  pattern tied to the start. It answers true whenever there is such a match for a pattern without
  assertions, for one tied to the start (which is tried at the start only), and for one with a
  first-byte filter.
\<close>

theorem regex_is_match_correct:
  assumes "sl_rx_compile pat = Some (Inr re)" and "parse_pattern pat = Some (Inr (root, ps))"
  shows "\<exists>m. sl_regex_is_match_bytes mem (Some re) (Some s) = Some m \<and>
    (m \<longrightarrow> (\<exists>i j. i \<le> length s \<and> (re_anchored_start re \<longrightarrow> i = 0) \<and> (i, j) \<in> rx_rel (re_classes re) s root)) \<and>
    (rx_dependable re \<longrightarrow>
       (\<exists>i j. i \<le> length s \<and> (re_anchored_start re \<longrightarrow> i = 0) \<and> (i, j) \<in> rx_rel (re_classes re) s root) \<longrightarrow> m)"
proof -
  obtain fuel' m out' where core: "sl_rx_match_core re s 0 (rx_budget re s) mem [0, 0] False = Some (fuel', m, out')"
    "run_answer re s 0 m" using core_answer [OF assms(1)] by blast
  let ?rel = "\<exists>i j. i \<le> length s \<and> (re_anchored_start re \<longrightarrow> i = 0) \<and> (i, j) \<in> rx_rel (re_classes re) s root"
  have acc: "(\<exists>i. seeded re s 0 i \<and> rx_accepts re s i) \<longleftrightarrow> ?rel"
    by (auto simp: seeded_def compile_accepts [OF assms])
  have "m \<Longrightarrow> ?rel" using core(2) acc by (auto simp: run_answer_def)
  moreover have "?rel \<Longrightarrow> m" if "rx_dependable re"
    using core(2) dependable_steady [OF that compile_filter(1) [OF assms(1)]] acc by (auto simp: run_answer_def)
  ultimately show ?thesis using core(1) by (simp add: sl_regex_is_match_bytes_def)
qed

theorem regex_is_match_correct_witness:
  "\<exists>re root ps m. sl_rx_compile ''.(b|c)*'' = Some (Inr re) \<and> parse_pattern ''.(b|c)*'' = Some (Inr (root, ps)) \<and>
     rx_dependable re \<and> sl_regex_is_match_bytes (blank_list, blank_list) (Some re) (Some [10]) = Some m \<and>
     (m \<longleftrightarrow> (\<exists>i j. i \<le> length [10 :: byte] \<and> (re_anchored_start re \<longrightarrow> i = 0) \<and> (i, j) \<in> rx_rel (re_classes re) [10] root))"
proof (rule compilesE [OF group_compiles])
  fix re assume re: "sl_rx_compile ''.(b|c)*'' = Some (Inr re)"
    "rx_dependable re \<and> re_ngroups re = 1 \<and> length (re_prog re) = 12"
  obtain root ps where "parse_pattern ''.(b|c)*'' = Some (Inr (root, ps))" using compile_parsed [OF re(1)] by blast
  with regex_is_match_correct [OF re(1) this, of "(blank_list, blank_list)" "[10]"] re show ?thesis by blast
qed

text \<open>
  C40: With an assertion first, the search can miss: a word boundary before \<open>cat\<close> holds at offset 2 of
  two spaces and \<open>cat\<close>, and the tree matches there, but \<open>is_match\<close> answers false. The list of
  threads keeps its members when no thread is left, so the start is never tried again.
\<close>

theorem regex_boundary_missed:
  "\<exists>re root ps. sl_rx_compile (CHR 0x5C # ''bcat'') = Some (Inr re) \<and>
     parse_pattern (CHR 0x5C # ''bcat'') = Some (Inr (root, ps)) \<and>
     (2, 5) \<in> rx_rel (re_classes re) (map uc ''  cat'') root \<and>
     sl_regex_is_match (blank_list, blank_list) (Some re) (Some ''  cat'') = Some False"
proof (rule compilesE [OF boundary_compiles])
  fix re assume re: "sl_rx_compile (CHR 0x5C # ''bcat'') = Some (Inr re)"
    "sl_regex_is_match (blank_list, blank_list) (Some re) (Some ''  cat'') = Some False"
  let ?root = "N_CAT (N_ASSERT RXA_WORDB) (N_CAT (N_BYTE 99) (N_CAT (N_BYTE 97) (N_BYTE 116)))"
  have "map_option (map_sum id fst) (parse_pattern (CHR 0x5C # ''bcat'')) = Some (Inr ?root)" by code_simp
  then obtain ps where ps: "parse_pattern (CHR 0x5C # ''bcat'') = Some (Inr (?root, ps))"
    by (cases "parse_pattern (CHR 0x5C # ''bcat'')"; cases "the (parse_pattern (CHR 0x5C # ''bcat''))") (auto simp: map_option_case split: option.splits)
  have ok: "sl_rx_assert_ok RXA_WORDB (map uc ''  cat'') 2" by code_simp
  have byte: "(i, i + 1) \<in> byte_rel (map uc ''  cat'') (\<lambda>b. b = v mod 256)"
    if "(i, v) \<in> {(2, 99), (3, 97), (4, 116)}" for i v :: nat
  proof -
    have "list_all (\<lambda>(i, v). unat (map uc ''  cat'' ! i) = v mod 256) [(2, 99), (3, 97), (4, 116)]" by code_simp
    then show ?thesis using that by (auto simp: byte_rel_def simp del: list.map)
  qed
  have "(2, 2) \<in> rx_rel (re_classes re) (map uc ''  cat'') (N_ASSERT RXA_WORDB)" using ok by simp
  moreover have "(2, 3) \<in> rx_rel (re_classes re) (map uc ''  cat'') (N_BYTE 99)"
    "(3, 4) \<in> rx_rel (re_classes re) (map uc ''  cat'') (N_BYTE 97)"
    "(4, 5) \<in> rx_rel (re_classes re) (map uc ''  cat'') (N_BYTE 116)"
    using byte [of 2 99] byte [of 3 97] byte [of 4 116] by (simp_all del: list.map)
  ultimately have "(2, 5) \<in> rx_rel (re_classes re) (map uc ''  cat'') ?root" unfolding rx_rel.simps by blast
  then show ?thesis using re ps by blast
qed

end
