(* ===== verification/Sl_Regex_Find.thy ===== *)
theory Sl_Regex_Find
  imports Sl_Regex_Compile
begin

text \<open>
  What \<open>find\<close> answers: the threads of the machine keep the order of their starts, so the span it
  reports is one the tree matches and the first such.
\<close>

section \<open>The starts of threads\<close>

text \<open>Offsets are kept as 32-bit integers, exactly so in a subject of less than \<open>2 ^ 31\<close> bytes.\<close>

lemma rx_int_small: "pos < 2 ^ 31 \<Longrightarrow> rx_int pos = int pos"
  by (simp add: rx_int_def signed_take_bit_int_eq_self)

text \<open>
  Slot 0 of a thread holds where it started. It is written by the first instruction only, which
  nothing leads back to.
\<close>

definition rx_own :: "sl_rx_list \<Rightarrow> nat \<Rightarrow> int" where
  "rx_own l t = rl_caps l t ! 0"

definition saves_start :: "sl_rx \<Rightarrow> bool" where
  "saves_start re \<longleftrightarrow> (\<forall>pc<length (re_prog re).
     (in_op (re_prog re ! pc) = RX_SAVE \<longrightarrow> arg_nat (in_arg (re_prog re ! pc)) = 0 \<longrightarrow> pc = 0) \<and>
     (\<forall>s pos. 0 \<notin> set (eps_to re s pos pc)))"

definition stk_ok :: "int \<Rightarrow> nat \<Rightarrow> sl_rx_work list \<Rightarrow> bool" where
  "stk_ok i pos stk \<longleftrightarrow> (\<forall>v. RXW_RESTORE 0 v \<in> set stk \<longrightarrow> v = i) \<and> (0 \<in> set (visits stk) \<longrightarrow> i = rx_int pos)"

lemma stk_ok_simps [simp]:
  "stk_ok i pos []"
  "stk_ok i pos (RXW_RESTORE sl v # stk) \<longleftrightarrow> (sl = 0 \<longrightarrow> v = i) \<and> stk_ok i pos stk"
  "stk_ok i pos (RXW_VISIT pc # stk) \<longleftrightarrow> (pc = 0 \<longrightarrow> i = rx_int pos) \<and> stk_ok i pos stk"
  by (auto simp: stk_ok_def)

text \<open>What the closure loop does to the captures, for a working copy that started at \<open>i\<close>.\<close>

definition caps_post :: "nat \<Rightarrow> int \<Rightarrow> sl_rx_list \<Rightarrow> sl_rx_list \<Rightarrow> bool" where
  "caps_post ns i l l' \<longleftrightarrow> length (rl_dense l) \<le> length (rl_dense l') \<and>
     (\<forall>t<length (rl_dense l). rl_caps l' t = rl_caps l t) \<and>
     (\<exists>new. rl_tl l' = rl_tl l @ new \<and> (\<forall>t\<in>set new. length (rl_dense l) \<le> t \<and> rx_own l' t = i \<and> length (rl_caps l' t) = ns))"

lemma caps_post_refl: "caps_post ns i l l"
  by (simp add: caps_post_def)

lemma caps_post_with:
  assumes "caps_post ns i (with_thread re ns l pc w) l'" and "ns \<noteq> 0" "length w = ns" "w ! 0 = i"
  shows "caps_post ns i l l'"
proof -
  obtain new where new: "rl_tl l' = rl_tl l @ (if is_thread re pc then [length (rl_dense l)] else []) @ new"
    "\<And>t. t \<in> set new \<Longrightarrow> Suc (length (rl_dense l)) \<le> t \<and> rx_own l' t = i \<and> length (rl_caps l' t) = ns"
    using assms(1) by (auto simp: caps_post_def)
  have old: "rl_caps l' t = rl_caps (with_thread re ns l pc w) t" if "t \<le> length (rl_dense l)" for t
    using assms(1) that by (simp add: caps_post_def)
  have "rl_caps l' (length (rl_dense l)) = w" if "is_thread re pc"
    using old [of "length (rl_dense l)"] that assms(2) by (simp add: with_thread_def)
  then have "\<forall>t\<in>set ((if is_thread re pc then [length (rl_dense l)] else []) @ new).
      length (rl_dense l) \<le> t \<and> rx_own l' t = i \<and> length (rl_caps l' t) = ns"
    using new(2) assms(3,4) by (auto simp: rx_own_def dest: Suc_leD)
  moreover have "rl_caps l' t = rl_caps l t" if "t < length (rl_dense l)" for t
    using old [of t] that by (simp add: with_thread_def rl_add_def)
  ultimately show ?thesis using assms(1) new(1) unfolding caps_post_def by auto
qed

lemma rx_visit_caps:
  assumes "rx_visit re ns s pos pc (rl_add l pc) w stk = (l1, w1, stk1)"
    and re: "saves_start re" "pc < length (re_prog re)" and ns: "ns \<noteq> 0" "length w = ns" "w ! 0 = i"
    and stk: "stk_ok i pos stk" "pc = 0 \<Longrightarrow> i = rx_int pos"
  shows "l1 = with_thread re ns l pc w \<and> length w1 = ns \<and> w1 ! 0 = i \<and> stk_ok i pos stk1"
proof -
  let ?ins = "re_prog re ! pc"
  have z: "in_op ?ins = RX_SAVE \<Longrightarrow> arg_nat (in_arg ?ins) = 0 \<Longrightarrow> pc = 0" "0 \<notin> set (eps_to re s pos pc)"
    using re by (auto simp: saves_start_def)
  show ?thesis
  proof (cases "in_op ?ins")
    case RX_SAVE
    then show ?thesis using assms(1) z ns stk
      by (auto simp: rx_visit_def rx_push_def with_thread_def is_thread_def Let_def nth_list_update split: if_splits)
  qed (use assms(1) z ns stk in \<open>auto simp: rx_visit_def rx_push_def with_thread_def is_thread_def eps_to_def rl_add_def Let_def
      split: if_splits\<close>)
qed

lemma addthread_loop_caps:
  assumes "addthread_loop re ns s pos fuel l w stk = Some (fuel', l', w')" and "saves_start re"
    and "ns \<noteq> 0" "length w = ns" "w ! 0 = i" and "stk_ok i pos stk"
  shows "caps_post ns i l l'"
  using assms
proof (induction fuel arbitrary: l w stk)
  case 0
  then show ?case by (cases stk) (auto intro: caps_post_refl)
next
  case (Suc fuel)
  show ?case
  proof (cases stk)
    case Nil
    then show ?thesis using Suc.prems by (auto intro: caps_post_refl)
  next
    case (Cons e stk')
    obtain l1 w1 stk1 where step: "addthread_step re ns s pos e l w stk' = (l1, w1, stk1)" by (metis prod_cases3)
    then have rest: "addthread_loop re ns s pos fuel l1 w1 stk1 = Some (fuel', l', w')" using Suc.prems(1) Cons by simp
    show ?thesis
    proof (cases "\<exists>pc. e = RXW_VISIT (int pc) \<and> pc < length (re_prog re) \<and> \<not> rl_has l pc")
      case True
      then obtain pc where pc: "e = RXW_VISIT (int pc)" "pc < length (re_prog re)" "\<not> rl_has l pc" by blast
      then have visit: "rx_visit re ns s pos pc (rl_add l pc) w stk' = (l1, w1, stk1)" using step by (simp add: addthread_step_def)
      have "l1 = with_thread re ns l pc w \<and> length w1 = ns \<and> w1 ! 0 = i \<and> stk_ok i pos stk1"
        by (rule rx_visit_caps [OF visit Suc.prems(2) pc(2) Suc.prems(3-5)]) (use Suc.prems(6) Cons pc(1) in auto)
      then show ?thesis using Suc.IH [OF rest Suc.prems(2,3)] caps_post_with Suc.prems(3-5) by blast
    next
      case False
      moreover have "w[sl := v] ! 0 = i" if "sl = 0 \<longrightarrow> v = i" for sl v
        using that Suc.prems(3-5) by (cases "sl = 0") auto
      ultimately have "l1 = l \<and> length w1 = ns \<and> w1 ! 0 = i \<and> stk1 = stk'"
        using step Suc.prems(3-6) Cons by (auto simp: addthread_step_def split: sl_rx_work.splits if_splits)
      then show ?thesis using Suc.IH [OF rest Suc.prems(2,3)] Suc.prems(6) Cons by (auto simp: stk_ok_def visits_def)
    qed
  qed
qed

lemma caps_postD:
  assumes "caps_post ns i l l'"
  shows "t < length (rl_dense l) \<Longrightarrow> rl_caps l' t = rl_caps l t"
    "prefix (rl_tl l) (rl_tl l')"
    "t \<in> set (rl_tl l') \<Longrightarrow> t \<in> set (rl_tl l) \<or> length (rl_dense l) \<le> t \<and> rx_own l' t = i \<and> length (rl_caps l' t) = ns"
    "rl_inv re l \<Longrightarrow> sorted (map (rx_own l) (rl_tl l)) \<Longrightarrow> (\<And>t. t \<in> set (rl_tl l) \<Longrightarrow> rx_own l t \<le> i) \<Longrightarrow>
       sorted (map (rx_own l') (rl_tl l')) \<and> (\<forall>t\<in>set (rl_tl l'). rx_own l' t \<le> i)"
proof -
  obtain new where new: "rl_tl l' = rl_tl l @ new" "\<And>t. t \<in> set new \<Longrightarrow> length (rl_dense l) \<le> t \<and> rx_own l' t = i \<and> length (rl_caps l' t) = ns"
    using assms by (auto simp: caps_post_def)
  show old: "t < length (rl_dense l) \<Longrightarrow> rl_caps l' t = rl_caps l t" for t using assms by (simp add: caps_post_def)
  show "prefix (rl_tl l) (rl_tl l')" using new(1) by simp
  show "t \<in> set (rl_tl l') \<Longrightarrow> t \<in> set (rl_tl l) \<or> length (rl_dense l) \<le> t \<and> rx_own l' t = i \<and> length (rl_caps l' t) = ns"
    using new by auto
  assume inv: "rl_inv re l" and l: "sorted (map (rx_own l) (rl_tl l))" "\<And>t. t \<in> set (rl_tl l) \<Longrightarrow> rx_own l t \<le> i"
  have own: "rx_own l' t = rx_own l t" if "t \<in> set (rl_tl l)" for t using old rl_invD(4) [OF inv that] by (simp add: rx_own_def)
  have "map (rx_own l') (rl_tl l') = map (rx_own l) (rl_tl l) @ replicate (length new) i"
    using new own by (auto simp: map_replicate_const [symmetric] intro!: map_cong)
  then have "sorted (map (rx_own l') (rl_tl l'))" using l by (simp add: sorted_append)
  then show "sorted (map (rx_own l') (rl_tl l')) \<and> (\<forall>t\<in>set (rl_tl l'). rx_own l' t \<le> i)"
    using l own new by auto
qed

section \<open>A round keeps the threads in order\<close>

abbreviation thread_pc :: "sl_rx_list \<Rightarrow> nat \<Rightarrow> nat" where
  "thread_pc l t \<equiv> rl_dense l ! t"

text \<open>
  The threads of the next position, ordered by their starts: each comes from a thread that took
  the byte, and one that is reached from a thread that counts starts no later.
\<close>

definition ordered_list :: "nat \<Rightarrow> sl_rx_list \<Rightarrow> bool" where
  "ordered_list ns l \<longleftrightarrow> sorted (map (rx_own l) (rl_tl l)) \<and> (\<forall>t\<in>set (rl_tl l). length (rl_caps l t) = ns)"

definition extends :: "sl_rx_list \<Rightarrow> sl_rx_list \<Rightarrow> bool" where
  "extends l l' \<longleftrightarrow> (\<forall>u\<in>set (rl_tl l). u \<in> set (rl_tl l') \<and> rx_own l' u = rx_own l u \<and> thread_pc l' u = thread_pc l u)"

lemma extends_trans: "extends a b \<Longrightarrow> extends b c \<Longrightarrow> extends a c"
  by (simp add: extends_def)

definition order_post ::
  "sl_rx \<Rightarrow> nat \<Rightarrow> sl_bytes \<Rightarrow> nat \<Rightarrow> sl_rx_list \<Rightarrow> nat list \<Rightarrow> sl_rx_list \<Rightarrow> sl_rx_list \<Rightarrow> int list option \<Rightarrow> bool" where
  "order_post re ns s pos cl ts nl nl' m \<longleftrightarrow> ordered_list ns nl' \<and> extends nl nl' \<and>
     (\<forall>u\<in>set (rl_tl nl'). u \<in> set (rl_tl nl) \<or> (\<exists>t\<in>set ts. rx_own nl' u = rx_own cl t \<and>
        rx_takes re s pos (re_prog re ! thread_pc cl t) \<and> (thread_pc cl t + 1, thread_pc nl' u) \<in> (eps re s (Suc pos))\<^sup>*)) \<and>
     (\<forall>c. m = Some c \<longrightarrow> (\<exists>t\<in>set ts. c = rl_caps cl t \<and> in_op (re_prog re ! thread_pc cl t) = RX_MATCH \<and>
        (\<forall>u\<in>set (rl_tl nl'). rx_own nl' u \<le> rx_own cl t))) \<and>
     (\<forall>t\<in>set ts. (\<forall>c. m = Some c \<longrightarrow> rx_own cl t < c ! 0) \<longrightarrow> in_op (re_prog re ! thread_pc cl t) \<noteq> RX_MATCH \<and>
        (rx_takes re s pos (re_prog re ! thread_pc cl t) \<longrightarrow> (\<forall>v<length (re_prog re). is_thread re v \<longrightarrow>
           (thread_pc cl t + 1, v) \<in> (eps re s (Suc pos))\<^sup>* \<longrightarrow>
           (\<exists>u\<in>set (rl_tl nl'). thread_pc nl' u = v \<and> rx_own nl' u \<le> rx_own cl t))))"

lemma eps_from_outside: "(p, q) \<in> (eps re s i)\<^sup>* \<Longrightarrow> \<not> p < length (re_prog re) \<Longrightarrow> q = p"
  by (auto elim: converse_rtranclE simp: eps_def)

text \<open>One thread's closure, as the head of a round.\<close>

lemma closure_order:
  assumes add: "sl_rx_addthread re ns s pos fuel nl w pc0 = Some (fuel1, nl1, w1)"
    and post: "closure_post re s pos fuel nl [RXW_VISIT (int pc0)] fuel1 nl1"
    and inv: "rl_inv re nl" and re: "saves_start re"
    and w: "ns \<noteq> 0" "length w = ns" "pc0 = 0 \<Longrightarrow> w ! 0 = rx_int pos"
    and ord: "ordered_list ns nl" "\<And>u. u \<in> set (rl_tl nl) \<Longrightarrow> rx_own nl u \<le> w ! 0"
  shows "ordered_list ns nl1" "extends nl nl1" "\<And>u. u \<in> set (rl_tl nl1) \<Longrightarrow> rx_own nl1 u \<le> w ! 0"
    "\<And>u. u \<in> set (rl_tl nl1) \<Longrightarrow> u \<in> set (rl_tl nl) \<or> rx_own nl1 u = w ! 0 \<and> (pc0, thread_pc nl1 u) \<in> (eps re s pos)\<^sup>*"
    "\<And>v. covered re s pos nl [] \<Longrightarrow> v < length (re_prog re) \<Longrightarrow> is_thread re v \<Longrightarrow> (pc0, v) \<in> (eps re s pos)\<^sup>* \<Longrightarrow>
      \<exists>u\<in>set (rl_tl nl1). thread_pc nl1 u = v \<and> rx_own nl1 u \<le> w ! 0"
proof -
  have "caps_post ns (w ! 0) nl nl1"
    using addthread_loop_caps [OF add [unfolded sl_rx_addthread_def] re w(1,2) refl] w(3) by simp
  note cp = caps_postD [OF this] and cl = closure_postD [OF post]
  have srt: "sorted (map (rx_own nl1) (rl_tl nl1))" "\<forall>t\<in>set (rl_tl nl1). rx_own nl1 t \<le> w ! 0"
    using cp(4) [OF inv] ord by (auto simp: ordered_list_def)
  have pre: "prefix (rl_dense nl) (rl_dense nl1)" using post by (simp add: closure_post_def)
  then have dense: "rl_dense nl1 ! u = rl_dense nl ! u" if "u < length (rl_dense nl)" for u
    using that by (auto simp: prefix_def nth_append)
  have small: "u < length (rl_dense nl)" if "u \<in> set (rl_tl nl)" for u by (rule rl_invD(4) [OF inv that])
  show ext: "extends nl nl1"
    using set_mono_prefix [OF cp(2)] cp(1) dense small by (auto simp: extends_def rx_own_def)
  have "length (rl_caps nl1 t) = ns" if "t \<in> set (rl_tl nl1)" for t
    using cp(3) [OF that] cp(1) [OF small] ord(1) by (auto simp: ordered_list_def)
  then show "ordered_list ns nl1" using srt by (simp add: ordered_list_def)
  show own: "rx_own nl1 u \<le> w ! 0" if "u \<in> set (rl_tl nl1)" for u using srt that by blast
  show "u \<in> set (rl_tl nl) \<or> rx_own nl1 u = w ! 0 \<and> (pc0, thread_pc nl1 u) \<in> (eps re s pos)\<^sup>*" if u: "u \<in> set (rl_tl nl1)" for u
  proof (cases "u \<in> set (rl_tl nl)")
    case False
    then have new: "length (rl_dense nl) \<le> u" "rx_own nl1 u = w ! 0" using cp(3) [OF u] by auto
    have len: "u < length (rl_dense nl1)" by (rule rl_invD(4) [OF cl(1) u])
    have "thread_pc nl1 u \<notin> set (rl_dense nl)"
    proof
      assume "thread_pc nl1 u \<in> set (rl_dense nl)"
      then obtain k where "k < length (rl_dense nl)" "rl_dense nl ! k = thread_pc nl1 u" by (auto simp: in_set_conv_nth)
      then show False using dense [of k] new(1) len rl_invD(1) [OF cl(1)] by (auto simp: nth_eq_iff_index_eq)
    qed
    then show ?thesis using cl(4) [of "thread_pc nl1 u"] len new(2) by auto
  qed simp
  show "\<exists>u\<in>set (rl_tl nl1). thread_pc nl1 u = v \<and> rx_own nl1 u \<le> w ! 0"
    if cov: "covered re s pos nl []" and v: "v < length (re_prog re)" "is_thread re v" "(pc0, v) \<in> (eps re s pos)\<^sup>*" for v
  proof -
    have "pc0 < length (re_prog re)" using eps_from_outside [OF v(3)] v(1) by auto
    then have "v \<in> set (rl_dense nl1)" using covered_eps_star [OF cl(6) [OF cov] v(3)] cl(5) by blast
    then obtain u where "u < length (rl_dense nl1)" "thread_pc nl1 u = v" by (auto simp: in_set_conv_nth)
    then show ?thesis using rl_invD(6) [OF cl(1)] v(2) own by metis
  qed
qed

lemma order_post_skip:
  assumes "order_post re ns s pos cl ts nl nl' m" and "in_op (re_prog re ! thread_pc cl t) \<noteq> RX_MATCH"
    and "\<not> rx_takes re s pos (re_prog re ! thread_pc cl t)"
  shows "order_post re ns s pos cl (t # ts) nl nl' m"
  using assms unfolding order_post_def by (simp add: Bex_def) blast

lemma order_post_take:
  assumes rest: "order_post re ns s pos cl ts nl1 nl' m" and ext: "extends nl nl1"
    and t: "in_op (re_prog re ! thread_pc cl t) \<noteq> RX_MATCH" "rx_takes re s pos (re_prog re ! thread_pc cl t)"
    and from_t: "\<And>u. u \<in> set (rl_tl nl1) \<Longrightarrow> u \<in> set (rl_tl nl) \<or> rx_own nl1 u = rx_own cl t \<and>
      (thread_pc cl t + 1, thread_pc nl1 u) \<in> (eps re s (Suc pos))\<^sup>*"
    and to_v: "\<And>v. v < length (re_prog re) \<Longrightarrow> is_thread re v \<Longrightarrow> (thread_pc cl t + 1, v) \<in> (eps re s (Suc pos))\<^sup>* \<Longrightarrow>
      \<exists>u\<in>set (rl_tl nl1). thread_pc nl1 u = v \<and> rx_own nl1 u \<le> rx_own cl t"
  shows "order_post re ns s pos cl (t # ts) nl nl' m"
proof -
  note r = rest [unfolded order_post_def]
  have ext1: "extends nl1 nl'" using r by blast
  have from_ts: "u \<in> set (rl_tl nl) \<or> (\<exists>t\<in>set (t # ts). rx_own nl' u = rx_own cl t \<and>
        rx_takes re s pos (re_prog re ! thread_pc cl t) \<and> (thread_pc cl t + 1, thread_pc nl' u) \<in> (eps re s (Suc pos))\<^sup>*)"
    if u: "u \<in> set (rl_tl nl')" for u
  proof (cases "u \<in> set (rl_tl nl1)")
    case True
    then show ?thesis using from_t [OF True] ext1 t(2) by (auto simp: extends_def)
  next
    case False
    then show ?thesis using r u by auto
  qed
  have to_vs: "\<exists>u\<in>set (rl_tl nl'). thread_pc nl' u = v \<and> rx_own nl' u \<le> rx_own cl t"
    if "v < length (re_prog re)" "is_thread re v" "(thread_pc cl t + 1, v) \<in> (eps re s (Suc pos))\<^sup>*" for v
    using to_v [OF that] ext1 by (fastforce simp: extends_def)
  show ?thesis unfolding order_post_def
    using r extends_trans [OF ext ext1] from_ts to_vs t(1) by (simp add: Bex_def) blast
qed

lemma rx_step_order:
  assumes "rx_step re ns s pos cl ts fuel nl w = Some (fuel', nl', w', m)" and "rl_inv re nl"
    and "length ts + 2 * (length (re_prog re) - length (rl_dense nl)) \<le> fuel" and "covered re s (Suc pos) nl []"
    and re: "saves_start re" "ns \<noteq> 0" and "\<And>t. t \<in> set ts \<Longrightarrow> length (rl_caps cl t) = ns" and "sorted (map (rx_own cl) ts)"
    and "ordered_list ns nl" and "\<And>u t. u \<in> set (rl_tl nl) \<Longrightarrow> t \<in> set ts \<Longrightarrow> rx_own nl u \<le> rx_own cl t"
  shows "order_post re ns s pos cl ts nl nl' m"
  using assms
proof (induction ts arbitrary: fuel nl w)
  case Nil
  then show ?case by (simp add: order_post_def extends_def)
next
  case (Cons t ts)
  let ?pc = "thread_pc cl t"
  consider "in_op (re_prog re ! ?pc) = RX_MATCH"
    | "in_op (re_prog re ! ?pc) \<noteq> RX_MATCH" "rx_takes re s pos (re_prog re ! ?pc)"
    | "in_op (re_prog re ! ?pc) \<noteq> RX_MATCH" "\<not> rx_takes re s pos (re_prog re ! ?pc)" by blast
  then show ?case
  proof cases
    case 1
    then have "nl' = nl" "m = Some (rl_caps cl t)" using Cons.prems(1) by (auto simp: Let_def)
    moreover have "\<not> rx_own cl u < rx_own cl t" if "u \<in> set (t # ts)" for u using Cons.prems(8) that by auto
    ultimately show ?thesis using Cons.prems(9,10) 1
      by (auto simp: order_post_def extends_def rx_own_def [symmetric])
  next
    case 2
    let ?w = "rl_caps cl t"
    have w: "length ?w = ns" "?w ! 0 = rx_own cl t" using Cons.prems(7) by (auto simp: rx_own_def)
    have fuel: "1 + 2 * (length (re_prog re) - length (rl_dense nl)) \<le> fuel" using Cons.prems(3) by simp
    obtain fuel1 nl1 w1 where add: "sl_rx_addthread re ns s (Suc pos) fuel nl ?w (?pc + 1) = Some (fuel1, nl1, w1)"
      "closure_post re s (Suc pos) fuel nl [RXW_VISIT (int (?pc + 1))] fuel1 nl1"
      using sl_rx_addthread_ok [OF Cons.prems(2) fuel, of ns s "Suc pos" ?w "?pc + 1"] by blast
    have rest: "rx_step re ns s pos cl ts fuel1 nl1 w1 = Some (fuel', nl', w', m)"
      using Cons.prems(1) 2 add(1) re(2) by (simp add: Let_def)
    have le: "rx_own nl u \<le> ?w ! 0" if "u \<in> set (rl_tl nl)" for u using Cons.prems(10) [OF that] w(2) by simp
    note co = closure_order [OF add Cons.prems(2) re w(1) _ Cons.prems(9) le, unfolded w(2)]
    note cp = closure_postD [OF add(2)]
    have "length ts + 2 * (length (re_prog re) - length (rl_dense nl1)) \<le> fuel1"
      using Cons.prems(3) cp(3) rl_dense_bound(1) [OF cp(1)] rl_dense_bound(1) [OF Cons.prems(2)] by simp
    then have "order_post re ns s pos cl ts nl1 nl' m"
      using Cons.IH [OF rest cp(1) _ cp(6) [OF Cons.prems(4)] re _ _ co(1)] co(3) Cons.prems(7,8) by fastforce
    then show ?thesis by (rule order_post_take [OF _ co(2) 2 co(4) co(5) [OF _ _ Cons.prems(4)]]) simp_all
  next
    case 3
    then have rest: "rx_step re ns s pos cl ts fuel nl w = Some (fuel', nl', w', m)" using Cons.prems(1) by (simp add: Let_def)
    have "order_post re ns s pos cl ts nl nl' m"
      by (rule Cons.IH [OF rest Cons.prems(2) _ Cons.prems(4) re _ _ Cons.prems(9)]) (use Cons.prems(3,7,8,10) in auto)
    then show ?thesis by (rule order_post_skip) (use 3 in auto)
  qed
qed

section \<open>The first match\<close>

text \<open>
  The threads of a position start where their slot says, and reach their instruction from there.
  For the starts that still count (before the match found so far), every thread that can be
  reached is there with a start that is no later, and none has matched.
\<close>

definition find_sound :: "sl_rx \<Rightarrow> sl_bytes \<Rightarrow> nat \<Rightarrow> nat \<Rightarrow> sl_rx_list \<Rightarrow> bool" where
  "find_sound re s start pos l \<longleftrightarrow> (\<forall>t\<in>set (rl_tl l). \<exists>i\<le>pos. rx_own l t = int i \<and> seeded re s start i \<and>
     ((0, i), (thread_pc l t, pos)) \<in> (rx_move re s)\<^sup>*)"

definition counts :: "sl_rx \<Rightarrow> sl_bytes \<Rightarrow> nat \<Rightarrow> bool \<Rightarrow> int list \<Rightarrow> nat \<Rightarrow> bool" where
  "counts re s start matched out i \<longleftrightarrow> seeded re s start i \<and> (matched \<longrightarrow> int i < out ! 0)"

definition find_complete :: "sl_rx \<Rightarrow> sl_bytes \<Rightarrow> (nat \<Rightarrow> bool) \<Rightarrow> nat \<Rightarrow> nat \<Rightarrow> sl_rx_list \<Rightarrow> bool" where
  "find_complete re s P lim pos l \<longleftrightarrow> (\<forall>i. P i \<longrightarrow> \<not> rx_accepts re s i) \<or>
     (\<forall>i v. P i \<longrightarrow> i < lim \<longrightarrow> v < length (re_prog re) \<longrightarrow> is_thread re v \<longrightarrow> ((0, i), (v, pos)) \<in> (rx_move re s)\<^sup>* \<longrightarrow>
        (\<exists>t\<in>set (rl_tl l). thread_pc l t = v \<and> rx_own l t \<le> int i)) \<and>
     (\<forall>i pc j. P i \<longrightarrow> j < pos \<longrightarrow> ((0, i), (pc, j)) \<in> (rx_move re s)\<^sup>* \<longrightarrow> \<not> rx_matches_at re pc)"

definition found :: "sl_rx \<Rightarrow> sl_bytes \<Rightarrow> nat \<Rightarrow> int list \<Rightarrow> bool" where
  "found re s start out \<longleftrightarrow> 2 \<le> length out \<and> (\<exists>i j pc. out ! 0 = int i \<and> out ! 1 = int j \<and> seeded re s start i \<and>
     ((0, i), (pc, j)) \<in> (rx_move re s)\<^sup>* \<and> rx_matches_at re pc)"

lemma find_seed:
  assumes inv: "rl_inv re cl" and fuel: "1 + 2 * length (re_prog re) \<le> fuel"
    and seed: "rx_seed re ns s start pos False fuel cl w = Some (fuel1, cl1, w1)" and cond: "re_anchored_start re \<longrightarrow> pos = start"
    and re: "saves_start re" "ns \<noteq> 0" and ord: "ordered_list ns cl" and snd: "find_sound re s start pos cl"
    and pos: "start \<le> pos" "pos \<le> length s" "length s < 2 ^ 31" and prog: "0 < length (re_prog re)"
  shows "ordered_list ns cl1" "find_sound re s start pos cl1"
    "find_complete re s (seeded re s start) pos pos cl \<Longrightarrow> covered re s pos cl [] \<or> (\<forall>i. seeded re s start i \<longrightarrow> \<not> rx_accepts re s i) \<Longrightarrow>
      find_complete re s (seeded re s start) (Suc pos) pos cl1"
proof -
  let ?w = "(replicate ns (- 1))[0 := int pos]"
  have w: "length ?w = ns" "?w ! 0 = int pos" using re(2) by auto
  have small: "rx_int pos = int pos" using pos by (simp add: rx_int_small)
  have fuel': "1 + 2 * (length (re_prog re) - length (rl_dense cl)) \<le> fuel" using fuel by simp
  have add: "sl_rx_addthread re ns s pos fuel cl ?w 0 = Some (fuel1, cl1, w1)"
    using seed cond re(2) by (simp add: rx_seed_def small Let_def)
  moreover have "closure_post re s pos fuel cl [RXW_VISIT (int 0)] fuel1 cl1"
    using sl_rx_addthread_ok [OF inv fuel', of ns s pos ?w 0] add by simp
  moreover have le: "rx_own cl u \<le> ?w ! 0" if "u \<in> set (rl_tl cl)" for u
    using snd that unfolding find_sound_def w(2) by force
  ultimately have co: "ordered_list ns cl1" "extends cl cl1"
    "\<And>u. u \<in> set (rl_tl cl1) \<Longrightarrow> u \<in> set (rl_tl cl) \<or> rx_own cl1 u = int pos \<and> (0, thread_pc cl1 u) \<in> (eps re s pos)\<^sup>*"
    "\<And>v. covered re s pos cl [] \<Longrightarrow> v < length (re_prog re) \<Longrightarrow> is_thread re v \<Longrightarrow> (0, v) \<in> (eps re s pos)\<^sup>* \<Longrightarrow>
      \<exists>u\<in>set (rl_tl cl1). thread_pc cl1 u = v \<and> rx_own cl1 u \<le> int pos"
    using closure_order [OF _ _ inv re w(1) _ ord] by (auto simp: w(2) small)
  show "ordered_list ns cl1" by (rule co(1))
  have here: "seeded re s start pos" using cond pos by (auto simp: seeded_def)
  show "find_sound re s start pos cl1" unfolding find_sound_def
  proof
    fix u assume u: "u \<in> set (rl_tl cl1)"
    show "\<exists>i\<le>pos. rx_own cl1 u = int i \<and> seeded re s start i \<and> ((0, i), (thread_pc cl1 u, pos)) \<in> (rx_move re s)\<^sup>*"
    proof (cases "u \<in> set (rl_tl cl)")
      case True
      then show ?thesis using snd co(2) unfolding find_sound_def extends_def by metis
    next
      case False
      then show ?thesis using co(3) [OF u] here eps_move by blast
    qed
  qed
  show "find_complete re s (seeded re s start) (Suc pos) pos cl1"
    if "find_complete re s (seeded re s start) pos pos cl" "covered re s pos cl [] \<or> (\<forall>i. seeded re s start i \<longrightarrow> \<not> rx_accepts re s i)"
  proof (cases "\<forall>i. seeded re s start i \<longrightarrow> \<not> rx_accepts re s i")
    case False
    have "\<exists>t\<in>set (rl_tl cl1). thread_pc cl1 t = v \<and> rx_own cl1 t \<le> int i"
      if i: "seeded re s start i" "i < Suc pos" "v < length (re_prog re)" "is_thread re v" "((0, i), (v, pos)) \<in> (rx_move re s)\<^sup>*" for i v
    proof (cases "i = pos")
      case True
      then show ?thesis using co(4) [OF _ i(3,4) move_stay] i(5) that(2) False \<open>covered re s pos cl [] \<or> _\<close> by blast
    next
      case False2: False
      then have "i < pos" using i(2) by simp
      then obtain t where "t \<in> set (rl_tl cl)" "thread_pc cl t = v" "rx_own cl t \<le> int i"
        using \<open>find_complete re s (seeded re s start) pos pos cl\<close> False i unfolding find_complete_def by blast
      then show ?thesis using co(2) unfolding extends_def by metis
    qed
    then show ?thesis using that(1) False unfolding find_complete_def by blast
  qed (simp add: find_complete_def)
qed

lemma find_step:
  assumes post: "order_post re ns s pos cl (rl_tl cl) nl nl' m" and nl: "rl_tl nl = []" and inv: "rl_inv re cl"
    and snd: "find_sound re s start pos cl" and ns: "2 \<le> ns" "ordered_list ns cl"
    and step: "step_post re s pos cl (rl_tl cl) fuel nl fuel' nl' (m \<noteq> None)"
  shows "find_sound re s start (Suc pos) nl'"
    "m = Some c \<Longrightarrow> found re s start (c[1 := int pos]) \<and> (\<exists>t\<in>set (rl_tl cl). c ! 0 = rx_own cl t) \<and>
      (\<forall>u\<in>set (rl_tl nl'). rx_own nl' u \<le> c ! 0) \<and> c[1 := int pos] ! 0 = c ! 0"
    "u \<in> set (rl_tl nl') \<Longrightarrow> \<exists>t\<in>set (rl_tl cl). rx_own nl' u = rx_own cl t"
    "find_complete re s P (Suc pos) pos cl \<Longrightarrow> (\<And>i. Q i \<Longrightarrow> P i \<and> (\<forall>c. m = Some c \<longrightarrow> int i < c ! 0)) \<Longrightarrow>
      find_complete re s Q (Suc pos) (Suc pos) nl'"
proof -
  note p = post [unfolded order_post_def nl]
  have from_cl: "\<exists>t\<in>set (rl_tl cl). rx_own nl' u = rx_own cl t \<and> rx_takes re s pos (re_prog re ! thread_pc cl t) \<and>
      (thread_pc cl t + 1, thread_pc nl' u) \<in> (eps re s (Suc pos))\<^sup>*" if "u \<in> set (rl_tl nl')" for u
    using p that by auto
  then show "u \<in> set (rl_tl nl') \<Longrightarrow> \<exists>t\<in>set (rl_tl cl). rx_own nl' u = rx_own cl t" by blast
  show "find_sound re s start (Suc pos) nl'" unfolding find_sound_def
  proof
    fix u assume u: "u \<in> set (rl_tl nl')"
    obtain t where t: "t \<in> set (rl_tl cl)" "rx_own nl' u = rx_own cl t" "rx_takes re s pos (re_prog re ! thread_pc cl t)"
      "(thread_pc cl t + 1, thread_pc nl' u) \<in> (eps re s (Suc pos))\<^sup>*" using from_cl [OF u] by blast
    obtain i where i: "i \<le> pos" "rx_own cl t = int i" "seeded re s start i" "((0, i), (thread_pc cl t, pos)) \<in> (rx_move re s)\<^sup>*"
      using snd t(1) unfolding find_sound_def by blast
    have "thread_pc nl' u < length (re_prog re)"
      using rl_invD(2,4) [OF step_postD(1) [OF step]] u by (meson lessThan_iff nth_mem subsetD)
    then have "thread_pc cl t + 1 < length (re_prog re)" using eps_from_outside [OF t(4)] by auto
    then show "\<exists>i\<le>Suc pos. rx_own nl' u = int i \<and> seeded re s start i \<and> ((0, i), (thread_pc nl' u, Suc pos)) \<in> (rx_move re s)\<^sup>*"
      using move_take [OF i(4) t(3) _ t(4)] i(1-3) t(2) by (metis le_SucI)
  qed
  show "found re s start (c[1 := int pos]) \<and> (\<exists>t\<in>set (rl_tl cl). c ! 0 = rx_own cl t) \<and>
      (\<forall>u\<in>set (rl_tl nl'). rx_own nl' u \<le> c ! 0) \<and> c[1 := int pos] ! 0 = c ! 0" if m: "m = Some c"
  proof -
    obtain t where t: "t \<in> set (rl_tl cl)" "c = rl_caps cl t" "in_op (re_prog re ! thread_pc cl t) = RX_MATCH"
      "\<forall>u\<in>set (rl_tl nl'). rx_own nl' u \<le> rx_own cl t" using p m by blast
    obtain i where i: "rx_own cl t = int i" "seeded re s start i" "((0, i), (thread_pc cl t, pos)) \<in> (rx_move re s)\<^sup>*"
      using snd t(1) unfolding find_sound_def by blast
    have "length c = ns" using ns(2) t(1,2) by (simp add: ordered_list_def)
    then have out: "c[1 := int pos] ! 0 = c ! 0" "c[1 := int pos] ! 1 = int pos" using ns(1) by auto
    have "thread_pc cl t < length (re_prog re)"
      using rl_invD(2) [OF inv] rl_invD(4) [OF inv t(1)] by (meson lessThan_iff nth_mem subsetD)
    then have "rx_matches_at re (thread_pc cl t)" using t(3) by (simp add: rx_matches_at_def)
    moreover have c0: "c ! 0 = rx_own cl t" using t(2) by (simp add: rx_own_def)
    ultimately have "found re s start (c[1 := int pos])" unfolding found_def out using i ns(1) \<open>length c = ns\<close> by auto
    then show ?thesis using t(1,4) c0 out(1) by auto
  qed
  show "find_complete re s Q (Suc pos) (Suc pos) nl'"
    if cmp: "find_complete re s P (Suc pos) pos cl" and Q: "\<And>i. Q i \<Longrightarrow> P i \<and> (\<forall>c. m = Some c \<longrightarrow> int i < c ! 0)"
  proof (cases "\<forall>i. P i \<longrightarrow> \<not> rx_accepts re s i")
    case False
    have mem: "\<exists>t\<in>set (rl_tl cl). thread_pc cl t = v \<and> rx_own cl t \<le> int i"
      if "P i" "i \<le> pos" "v < length (re_prog re)" "is_thread re v" "((0, i), (v, pos)) \<in> (rx_move re s)\<^sup>*" for i v
      using cmp False that unfolding find_complete_def by (metis less_Suc_eq_le)
    have "\<exists>t\<in>set (rl_tl nl'). thread_pc nl' t = v \<and> rx_own nl' t \<le> int i"
      if i: "Q i" "i < Suc pos" "v < length (re_prog re)" "is_thread re v" "((0, i), (v, Suc pos)) \<in> (rx_move re s)\<^sup>*" for i v
    proof -
      obtain r where r: "((0, i), (r, pos)) \<in> (rx_move re s)\<^sup>*" "rx_takes re s pos (re_prog re ! r)"
        "r + 1 < length (re_prog re)" "(r + 1, v) \<in> (eps re s (Suc pos))\<^sup>*" using move_last [OF i(5)] i(2) by auto
      obtain t where t: "t \<in> set (rl_tl cl)" "thread_pc cl t = r" "rx_own cl t \<le> int i"
        using mem [of i r] Q [OF i(1)] i(2) r takes_thread [OF r(2)] by auto
      have "\<forall>c. m = Some c \<longrightarrow> rx_own cl t < c ! 0" using Q [OF i(1)] t(3) by force
      then obtain u where "u \<in> set (rl_tl nl')" "thread_pc nl' u = v" "rx_own nl' u \<le> rx_own cl t"
        using p t r(2,4) i(3,4) by blast
      then show ?thesis using t(3) by force
    qed
    moreover have "\<not> rx_matches_at re pc" if i: "Q i" "j < Suc pos" "((0, i), (pc, j)) \<in> (rx_move re s)\<^sup>*" for i pc j
    proof (cases "j = pos")
      case True
      show ?thesis
      proof
        assume mt: "rx_matches_at re pc"
        then obtain t where t: "t \<in> set (rl_tl cl)" "thread_pc cl t = pc" "rx_own cl t \<le> int i"
          using mem [of i pc] Q [OF i(1)] i(3) True move_mono [OF i(3)] matches_thread [OF mt] by (auto simp: rx_matches_at_def)
        have "\<forall>c. m = Some c \<longrightarrow> rx_own cl t < c ! 0" using Q [OF i(1)] t(3) by force
        then show False using p t mt unfolding rx_matches_at_def by blast
      qed
    next
      case False2: False
      then have "j < pos" using i(2) by simp
      then show ?thesis using cmp False i Q [OF i(1)] unfolding find_complete_def by blast
    qed
    ultimately show ?thesis unfolding find_complete_def by blast
  qed (use Q in \<open>auto simp: find_complete_def\<close>)
qed

definition leftmost :: "sl_rx \<Rightarrow> sl_bytes \<Rightarrow> nat \<Rightarrow> int list \<Rightarrow> bool" where
  "leftmost re s start out \<longleftrightarrow> found re s start out \<and>
     (rx_steady re s \<longrightarrow> (\<forall>i. seeded re s start i \<longrightarrow> int i < out ! 0 \<longrightarrow> \<not> rx_accepts re s i))"

text \<open>Where the threads of a position are gone, or the subject ends, no start that counts is left.\<close>

lemma find_complete_done:
  assumes "find_complete re s P (Suc pos) pos l" and "rl_tl l = []" and "P i" "i \<le> pos" and prog: "0 < length (re_prog re)"
  shows "\<not> rx_accepts re s i"
proof
  assume acc: "rx_accepts re s i"
  then obtain pc j where pc: "((0, i), (pc, j)) \<in> (rx_move re s)\<^sup>*" "rx_matches_at re pc" by (auto simp: rx_accepts_def)
  have none: "\<not> is_thread re v" if "((0, i), (v, pos)) \<in> (rx_move re s)\<^sup>*" for v
    using assms(1-4) acc that move_in_prog [OF that prog] unfolding find_complete_def by force
  have "j \<le> pos" by (rule move_stuck [OF _ assms(4) pc(1)]) (use none takes_thread in blast)
  moreover have "\<not> j < pos" using assms(1,3) acc pc unfolding find_complete_def by blast
  ultimately show False using none pc matches_thread by (metis le_neq_implies_less)
qed

lemma find_complete_end:
  assumes "find_complete re s P lim (Suc pos) l" and "P i" and "length s \<le> pos" "i \<le> length s"
  shows "\<not> rx_accepts re s i"
proof
  assume acc: "rx_accepts re s i"
  then obtain pc j where pc: "((0, i), (pc, j)) \<in> (rx_move re s)\<^sup>*" "rx_matches_at re pc" by (auto simp: rx_accepts_def)
  have "j \<le> length s" by (rule move_in_subject [OF pc(1) assms(4)])
  then show False using assms acc pc unfolding find_complete_def by (metis le_imp_less_Suc le_trans)
qed

lemma find_complete_lim: "find_complete re s P pos pos l \<Longrightarrow> (\<And>i. P i \<Longrightarrow> i < pos) \<Longrightarrow> find_complete re s P (Suc pos) pos l"
  unfolding find_complete_def by blast

text \<open>The state of the loop at a position.\<close>

definition find_inv :: "sl_rx \<Rightarrow> nat \<Rightarrow> sl_bytes \<Rightarrow> nat \<Rightarrow> nat \<Rightarrow> sl_rx_list \<Rightarrow> bool \<Rightarrow> int list \<Rightarrow> bool" where
  "find_inv re ns s start pos cl matched out \<longleftrightarrow> rl_inv re cl \<and> ordered_list ns cl \<and> find_sound re s start pos cl \<and>
     (matched \<longrightarrow> found re s start out \<and> (\<exists>i<pos. out ! 0 = int i) \<and> (\<forall>t\<in>set (rl_tl cl). rx_own cl t \<le> out ! 0)) \<and>
     (rx_steady re s \<longrightarrow> find_complete re s (counts re s start matched out) pos pos cl \<and>
        (\<not> matched \<longrightarrow> complete_list re s start pos pos cl))"

lemma counts_unmatched: "counts re s start False out = seeded re s start"
  by (simp add: counts_def fun_eq_iff)

lemma find_inv_exit:
  assumes "find_inv re ns s start pos cl True out" and "rl_tl cl = []" and "0 < length (re_prog re)"
  shows "leftmost re s start out"
proof -
  note i = assms(1) [unfolded find_inv_def]
  obtain k where k: "k < pos" "out ! 0 = int k" using i by blast
  have "\<not> rx_accepts re s j" if "rx_steady re s" "seeded re s start j" "int j < out ! 0" for j
  proof (rule find_complete_done [OF _ assms(2) _ _ assms(3)])
    show "find_complete re s (counts re s start True out) (Suc pos) pos cl"
      by (rule find_complete_lim) (use i that(1) k in \<open>auto simp: counts_def\<close>)
    show "counts re s start True out j" "j \<le> pos" using that k by (auto simp: counts_def)
  qed
  then show ?thesis using i by (auto simp: leftmost_def)
qed

text \<open>One round: the seed, then the step or the next position.\<close>

lemma find_round_seed:
  assumes inv: "find_inv re ns s start pos cl matched out" and re: "saves_start re" "2 \<le> ns" "0 < length (re_prog re)"
    and fuel: "1 + 2 * length (re_prog re) \<le> fuel" and pos: "start \<le> pos" "pos \<le> length s" "length s < 2 ^ 31"
    and seed: "rx_seed re ns s start pos matched fuel cl w = Some (fuel1, cl1, w1)"
  shows "rl_inv re cl1" "ordered_list ns cl1" "find_sound re s start pos cl1" "fuel \<le> fuel1 + 1 + 2 * length (re_prog re)"
    "matched \<Longrightarrow> cl1 = cl"
    "rx_steady re s \<Longrightarrow> find_complete re s (counts re s start matched out) (Suc pos) pos cl1"
    "rx_steady re s \<Longrightarrow> \<not> matched \<Longrightarrow> complete_list re s start (Suc pos) pos cl1"
proof -
  note i = inv [unfolded find_inv_def]
  have base: "rl_inv re cl1 \<and> fuel \<le> fuel1 + 1 + 2 * length (re_prog re) \<and>
    (if \<not> matched \<and> (re_anchored_start re \<longrightarrow> pos = start)
     then closure_post re s pos fuel cl [RXW_VISIT (int 0)] fuel1 cl1 else cl1 = cl)"
    using rx_seed_ok [of re cl fuel ns s start pos matched w] i fuel seed by auto
  then show "rl_inv re cl1" "fuel \<le> fuel1 + 1 + 2 * length (re_prog re)" "matched \<Longrightarrow> cl1 = cl" by auto
  show cmp: "complete_list re s start (Suc pos) pos cl1" if "rx_steady re s" "\<not> matched"
    by (rule complete_seed [OF _ pos(1,2) _ re(3), where cl = cl and fuel = fuel and fuel' = fuel1]) (use i base that in auto)
  have "ordered_list ns cl1 \<and> find_sound re s start pos cl1 \<and>
    (rx_steady re s \<longrightarrow> find_complete re s (counts re s start matched out) (Suc pos) pos cl1)"
  proof (cases "\<not> matched \<and> (re_anchored_start re \<longrightarrow> pos = start)")
    case True
    then have m: "matched = False" by simp
    have "rx_seed re ns s start pos False fuel cl w = Some (fuel1, cl1, w1)" using seed m by simp
    note fs = find_seed [OF _ fuel this _ re(1) _ _ _ pos re(3)]
    have "find_complete re s (seeded re s start) (Suc pos) pos cl1" if "rx_steady re s"
      by (rule fs(3)) (use i True re(2) that in \<open>auto simp: counts_unmatched complete_list_def\<close>)
    then show ?thesis using fs(1,2) i True re(2) by (auto simp: counts_unmatched)
  next
    case False
    then have "cl1 = cl" using base by presburger
    moreover have "k < pos" if "counts re s start matched out k" for k
      using that False i pos(1) by (auto simp: counts_def seeded_def)
    ultimately show ?thesis using i find_complete_lim [of re s _ pos cl] by blast
  qed
  then show "ordered_list ns cl1" "find_sound re s start pos cl1"
    "rx_steady re s \<Longrightarrow> find_complete re s (counts re s start matched out) (Suc pos) pos cl1" by auto
qed

lemma find_round_step:
  assumes inv: "rl_inv re cl" "ordered_list ns cl" "find_sound re s start pos cl"
    and mat: "matched \<Longrightarrow> found re s start out \<and> (\<exists>i<pos. out ! 0 = int i) \<and> (\<forall>t\<in>set (rl_tl cl). rx_own cl t \<le> out ! 0)"
    and cmp: "rx_steady re s \<Longrightarrow> find_complete re s (counts re s start matched out) (Suc pos) pos cl"
      "rx_steady re s \<Longrightarrow> \<not> matched \<Longrightarrow> complete_list re s start (Suc pos) pos cl"
    and re: "saves_start re" "2 \<le> ns" and fuel: "3 * length (re_prog re) \<le> fuel" and small: "pos < 2 ^ 31"
    and step: "rx_step re ns s pos cl (rl_tl cl) fuel (rl_reset nl) w = Some (fuel', nl', w', m)"
  shows "find_inv re ns s start (Suc pos) nl' (matched \<or> m \<noteq> None) (rx_out True pos m out)"
    "fuel \<le> fuel' + 3 * length (re_prog re)"
proof -
  have enough: "length (rl_tl cl) + 2 * (length (re_prog re) - length (rl_dense (rl_reset nl))) \<le> fuel"
    using rl_dense_bound [OF inv(1)] fuel by simp
  have post: "step_post re s pos cl (rl_tl cl) fuel (rl_reset nl) fuel' nl' (m \<noteq> None)"
    using rx_step_ok [OF rl_inv_reset enough, of ns s pos cl w] step by auto
  note sp = step_postD [OF post]
  show "fuel \<le> fuel' + 3 * length (re_prog re)"
    using sp(2) rl_dense_bound [OF sp(1)] rl_dense_bound [OF inv(1)] by (simp add: rl_reset_def)
  have order: "order_post re ns s pos cl (rl_tl cl) (rl_reset nl) nl' m"
    by (rule rx_step_order [OF step rl_inv_reset enough _ re(1)])
      (use re(2) inv(2) in \<open>auto simp: ordered_list_def rl_reset_def covered_def\<close>)
  have tl: "rl_tl (rl_reset nl) = []" by (simp add: rl_reset_def)
  note fs = find_step [OF order tl inv(1,3) re(2) inv(2) post]
  let ?matched = "matched \<or> m \<noteq> None" and ?out = "rx_out True pos m out"
  have mat': "found re s start ?out \<and> (\<exists>i<Suc pos. ?out ! 0 = int i) \<and> (\<forall>t\<in>set (rl_tl nl'). rx_own nl' t \<le> ?out ! 0)"
    if "?matched"
  proof (cases m)
    case None
    then have m: matched using that by simp
    have "rx_own nl' t \<le> out ! 0" if "t \<in> set (rl_tl nl')" for t using fs(3) [OF that] mat [OF m] by auto
    then show ?thesis using mat [OF m] None by (auto simp: rx_out_def less_Suc_eq)
  next
    case (Some c)
    have own: "\<exists>i<Suc pos. c ! 0 = int i" using fs(2) [OF Some] inv(3) unfolding find_sound_def by (metis less_Suc_eq_le)
    show ?thesis using fs(2) [OF Some] own Some by (simp add: rx_out_def rx_int_small [OF small])
  qed
  have Q: "counts re s start matched out i \<and> (\<forall>c. m = Some c \<longrightarrow> int i < c ! 0)" if c: "counts re s start ?matched ?out i" for i
  proof (cases m)
    case None
    then show ?thesis using c by (simp add: rx_out_def)
  next
    case (Some c')
    then have lt: "int i < c' ! 0" "seeded re s start i" using c fs(2) [OF Some] by (auto simp: counts_def rx_out_def rx_int_small [OF small])
    moreover have "c' ! 0 \<le> out ! 0" if matched using fs(2) [OF Some] mat [OF that] by auto
    ultimately show ?thesis using Some by (auto simp: counts_def)
  qed
  have "complete_list re s start (Suc pos) (Suc pos) nl'" if "rx_steady re s" "\<not> ?matched"
    using complete_step [OF cmp(2) [OF that(1)] inv(1)] post that(2) by auto
  moreover have "find_complete re s (counts re s start ?matched ?out) (Suc pos) (Suc pos) nl'" if "rx_steady re s"
    by (rule fs(4) [OF cmp(1) [OF that] Q])
  moreover have "ordered_list ns nl'" using order by (simp add: order_post_def)
  ultimately show "find_inv re ns s start (Suc pos) nl' ?matched ?out"
    unfolding find_inv_def using sp(1) fs(1) mat' by blast
qed

lemma find_inv_end:
  assumes "find_inv re ns s start (Suc pos) cl True out" and "length s \<le> pos"
  shows "leftmost re s start out"
  using assms find_complete_end [of re s "counts re s start True out" "Suc pos" pos cl]
  unfolding find_inv_def leftmost_def by (auto simp: counts_def seeded_def)

lemma find_inv_stuck:
  assumes "rl_inv re cl" "rl_tl cl = []" and "rx_steady re s \<Longrightarrow> complete_list re s start (Suc pos) pos cl"
    and "start \<le> pos" "pos \<le> length s" "0 < length (re_prog re)"
  shows "find_inv re ns s start (Suc pos) cl False out"
proof -
  have "\<forall>i. seeded re s start i \<longrightarrow> \<not> rx_accepts re s i" if "rx_steady re s"
    by (rule complete_stuck [OF assms(1,2) assms(3) [OF that] assms(4,5) that assms(6)])
  then show ?thesis using assms(1,2)
    by (auto simp: find_inv_def ordered_list_def find_sound_def find_complete_def complete_list_def counts_def)
qed

lemma rx_loop_find:
  assumes "rx_loop re ns True s start pos fuel cl nl w matched out = Some (fuel', True, out')"
    and "find_inv re ns s start pos cl matched out" and re: "saves_start re" "2 \<le> ns" "0 < length (re_prog re)"
    and "(Suc (length s) - pos) * (5 * length (re_prog re) + 1) \<le> fuel" and "start \<le> pos" "pos \<le> length s" "length s < 2 ^ 31"
  shows "leftmost re s start out'"
  using assms
proof (induction "Suc (length s) - pos" arbitrary: pos fuel cl nl w matched out rule: less_induct)
  case less
  let ?N = "length (re_prog re)"
  note inv = less.prems(2) and pos = less.prems(7-9)
  define rounds where "rounds = length s - pos"
  have "Suc (length s) - pos = Suc rounds" using pos by (simp add: rounds_def)
  then have fuel: "rounds * (5 * ?N + 1) + (5 * ?N + 1) \<le> fuel" using less.prems(6) by simp
  then have fuel1: "1 + 2 * ?N \<le> fuel" by simp
  note loop = less.prems(1) [unfolded rx_loop.simps [of re ns True s start pos]]
  show ?case
  proof (cases "rl_tl cl = [] \<and> matched")
    case True
    then show ?thesis using loop find_inv_exit inv re(3) by auto
  next
    case False
    obtain fuel1 cl1 w1 where seed: "rx_seed re ns s start pos matched fuel cl w = Some (fuel1, cl1, w1)"
      using loop False by (auto split: option.splits)
    note fs = find_round_seed [OF inv re fuel1 pos seed]
    have fuel2: "3 * ?N + rounds * (5 * ?N + 1) \<le> fuel1" using fuel fs(4) by linarith
    show ?thesis
    proof (cases "rl_tl cl1 = []")
      case True
      then have un: "\<not> matched" using fs(5) False by auto
      have inv': "find_inv re ns s start (Suc pos) cl1 matched out"
        using find_inv_stuck [OF fs(1) True fs(7) [OF _ un] pos(1,2) re(3)] un by simp
      have "\<not> length s \<le> pos" using loop False seed True un by auto
      then show ?thesis using loop False seed True fuel2
        by (intro less.hyps [of "Suc pos" fuel1 cl1 nl w1 matched out]) (use re inv' pos(1,3) in \<open>auto simp: rounds_def\<close>)
    next
      case tl: False
      have mat: "found re s start out \<and> (\<exists>i<pos. out ! 0 = int i) \<and> (\<forall>t\<in>set (rl_tl cl1). rx_own cl1 t \<le> out ! 0)" if matched
        using inv fs(5) that by (auto simp: find_inv_def)
      obtain fuel3 nl1 w2 m where step: "rx_step re ns s pos cl1 (rl_tl cl1) fuel1 (rl_reset nl) w1 = Some (fuel3, nl1, w2, m)"
        using loop False seed tl by (auto split: option.splits)
      have fuel4: "3 * ?N \<le> fuel1" using fuel2 by simp
      have small: "pos < 2 ^ 31" using pos by simp
      note st = find_round_step [OF fs(1-3) mat fs(6,7) re(1,2) fuel4 small step]
      show ?thesis
      proof (cases "length s \<le> pos")
        case fin: True
        then have "matched \<or> m \<noteq> None" "out' = rx_out True pos m out"
          using loop False seed tl step by (auto simp: Let_def)
        then show ?thesis using find_inv_end [OF _ fin] st(1) by simp
      next
        case fin: False
        have "rounds * (5 * ?N + 1) \<le> fuel3" using st(2) fuel2 by linarith
        then show ?thesis using loop False seed tl step fin
          by (intro less.hyps [of "Suc pos" fuel3 nl1 cl1 w2 "matched \<or> m \<noteq> None" "rx_out True pos m out"])
            (use re st(1) pos(1,3) in \<open>auto simp: Let_def rounds_def\<close>)
      qed
    qed
  qed
qed

section \<open>Finding\<close>

lemma compile_saves_start:
  assumes "sl_rx_compile pat = Some (Inr re)"
  shows "saves_start re"
proof -
  obtain root ps where parse: "parse_pattern pat = Some (Inr (root, ps))" using compile_parsed [OF assms] by blast
  note re = compile_result [OF assms parse]
  let ?n = "code_len root"
  have g: "ps_ngroups ps \<le> SL_RX_MAX_GROUPS" using re(9) by (simp add: ps_ok_def)
  have code: "inst_ok 1 (1 + ?n) (length (ps_cls ps)) (re_nslots re) (code_of root 1 ! k)" if "k < ?n" for k
    using code_inst_ok [OF g re(10), of 1] that by (simp add: list_all_length re(5))
  show ?thesis unfolding saves_start_def
  proof (intro allI impI)
    fix pc assume "pc < length (re_prog re)"
    then have "pc < ?n + 3" by (simp add: re(2))
    then have "pc = 0 \<or> (\<exists>k<?n. pc = Suc k) \<or> pc = Suc ?n \<or> pc = Suc (Suc ?n)" by (cases pc) auto
    then consider "pc = 0" | k where "pc = Suc k" "k < ?n" | "pc = Suc ?n" | "pc = Suc (Suc ?n)" by blast
    then show "(in_op (re_prog re ! pc) = RX_SAVE \<longrightarrow> arg_nat (in_arg (re_prog re ! pc)) = 0 \<longrightarrow> pc = 0) \<and>
        (\<forall>s pos. 0 \<notin> set (eps_to re s pos pc))"
    proof cases
      case (2 k)
      then show ?thesis using code [OF 2(2)] whole_code_nth(2) [OF 2(2)]
        by (auto simp: re(2) inst_ok_def eps_to_def Let_def split: rx_op.splits)
    qed (auto simp: re(2) whole_code_nth new_inst_def arg_nat_def eps_to_def)
  qed
qed

lemma core_leftmost:
  assumes c: "sl_rx_compile pat = Some (Inr re)" and start: "start \<le> length s" and len: "length s < 2 ^ 31"
    and core: "sl_rx_match_core re s start (rx_budget re s) mem out True = Some (fuel', True, out')"
  shows "leftmost re s start out'"
proof -
  note wf = sl_rx_compile_wf_aux [OF c] and f = compile_filter [OF c]
  have ns: "2 \<le> re_nslots re" using wf by (simp add: rx_wf_def Let_def)
  have run: "leftmost re s p out'" if "p \<le> length s" "sl_rx_run re (re_nslots re) True s p (rx_budget re s) mem out = Some (fuel', True, out')" for p
  proof (rule rx_loop_find [OF that(2) [unfolded sl_rx_run_def] _ compile_saves_start [OF c] ns f(2) _ order_refl that(1) len])
    have none: "\<not> (i < p \<and> seeded re s p i)" for i by (simp add: seeded_def)
    moreover have "\<not> (j < p \<and> seeded re s p i \<and> ((0, i), (pc, j)) \<in> (rx_move re s)\<^sup>*)" for i j pc
      using move_mono [of 0 i pc j re s] by (auto simp: seeded_def)
    ultimately show "find_inv re (re_nslots re) s p p (rl_reset (fst mem)) False out"
      unfolding find_inv_def find_complete_def complete_list_def counts_unmatched covered_def
      using rl_inv_reset [of re "fst mem"] by (auto simp: ordered_list_def find_sound_def rl_reset_def)
    show "(Suc (length s) - p) * (5 * length (re_prog re) + 1) \<le> rx_budget re s"
      unfolding rx_budget_def by (intro mult_le_mono) auto
  qed
  show ?thesis
  proof (cases "re_has_first re \<and> \<not> re_anchored_start re")
    case True
    define p where "p = first_skip (re_first re) s start"
    have p: "start \<le> p" "p \<le> length s" "\<And>i. start \<le> i \<Longrightarrow> i < p \<Longrightarrow> \<not> sl_rx_cls_has (re_first re) (unat (s ! i))"
      using first_skip_ok [OF start, of "re_first re"] by (auto simp: p_def)
    have post: "first_post re (re_first re)" using True f(1) by (simp add: rx_filter_ok_def)
    have "leftmost re s p out'" using core True start run [OF p(2)]
      by (auto simp: sl_rx_match_core_def Let_def p_def split: if_splits)
    moreover have "seeded re s p i" if "seeded re s start i" "rx_accepts re s i" for i
      using filter_needed [OF post that(2)] p(3) [of i] that(1) True by (auto simp: seeded_def) (meson not_le)
    moreover have "seeded re s start i" if "seeded re s p i" for i using that p(1) True by (auto simp: seeded_def)
    ultimately show ?thesis unfolding leftmost_def found_def by blast
  next
    case False
    then show ?thesis using core start run [OF start] by (auto simp: sl_rx_match_core_def Let_def)
  qed
qed

text \<open>
  C7: Finding is right in a subject of less than \<open>2 ^ 31\<close> bytes, the range of the offsets it reports. For
  every pattern a span that \<open>find\<close> answers is one the tree of the pattern matches. For a pattern
  without assertions, one tied to the start of the search, and one with a first-byte filter, no
  match starts earlier, and no answer means no match (at the start of the search, for a pattern
  tied to it).
\<close>

theorem regex_find_leftmost:
  assumes "sl_rx_compile pat = Some (Inr re)" and "parse_pattern pat = Some (Inr (root, ps))"
    and "sl_regex_find_bytes_at mem (Some re) (Some s) (int start) = Some out" and "start \<le> length s"
    and len: "length s < 2 ^ 31"
  shows "if out = []
    then rx_dependable re \<longrightarrow> (\<forall>i j. start \<le> i \<and> i \<le> length s \<and> (re_anchored_start re \<longrightarrow> i = start) \<longrightarrow>
      (i, j) \<notin> rx_rel (re_classes re) s root)
    else \<exists>i j. out ! 0 = int i \<and> out ! 1 = int j \<and> start \<le> i \<and> (i, j) \<in> rx_rel (re_classes re) s root \<and>
      (rx_dependable re \<longrightarrow> (\<forall>k l. start \<le> k \<and> k < i \<longrightarrow> (k, l) \<notin> rx_rel (re_classes re) s root))"
proof -
  have steady: "rx_dependable re \<Longrightarrow> rx_steady re s" by (rule dependable_steady [OF _ compile_filter(1) [OF assms(1)]])
  obtain fuel' m out' where core:
    "sl_rx_match_core re s start (rx_budget re s) mem (replicate (re_nslots re) 0) True = Some (fuel', m, out')"
    "run_answer re s start m" using core_answer [OF assms(1,4)] by blast
  have out: "out = (if m then out' else [])"
    using assms(3,4) core(1) by (simp add: sl_regex_find_bytes_at_def sl_regex_find_core_def)
  show ?thesis
  proof (cases m)
    case True
    then have l: "leftmost re s start out'" using core_leftmost [OF assms(1,4) len, of mem "replicate (re_nslots re) 0" fuel' out'] core(1) by simp
    then obtain i j where ij: "out' ! 0 = int i" "out' ! 1 = int j" "seeded re s start i" "(i, j) \<in> rx_rel (re_classes re) s root"
      using compile_match [OF assms(1,2)] unfolding leftmost_def found_def by blast
    have "(k, l) \<notin> rx_rel (re_classes re) s root" if "rx_dependable re" "start \<le> k" "k < i" for k l
      using l that steady ij(1,3) unfolding leftmost_def seeded_def compile_accepts [OF assms(1,2)] by fastforce
    moreover have "out' \<noteq> []" using l by (auto simp: leftmost_def found_def)
    ultimately show ?thesis using out True ij by (auto simp: seeded_def)
  next
    case False
    then show ?thesis using out core(2) steady compile_accepts [OF assms(1,2)] by (auto simp: run_answer_def seeded_def)
  qed
qed

lemma group_finds:
  "compiles (\<lambda>re. sl_regex_find_bytes_at (blank_list, blank_list) (Some re) (Some [10, 97, 98]) (int 0) = Some [1, 3, 2, 3]) ''.(b|c)*''"
  by code_simp

theorem regex_find_leftmost_witness:
  "\<exists>re root ps i j. sl_rx_compile ''.(b|c)*'' = Some (Inr re) \<and> parse_pattern ''.(b|c)*'' = Some (Inr (root, ps)) \<and>
     [1, 3, 2, 3] ! 0 = int i \<and> [1, 3, 2, 3] ! 1 = int j \<and> (i, j) \<in> rx_rel (re_classes re) [10, 97, 98] root"
proof (rule compilesE [OF group_finds])
  fix re assume re: "sl_rx_compile ''.(b|c)*'' = Some (Inr re)"
    "sl_regex_find_bytes_at (blank_list, blank_list) (Some re) (Some [10, 97, 98]) (int 0) = Some [1, 3, 2, 3]"
  obtain root ps where parse: "parse_pattern ''.(b|c)*'' = Some (Inr (root, ps))" using compile_parsed [OF re(1)] by blast
  have "\<exists>i j. [1, 3, 2, 3] ! 0 = int i \<and> [1, 3, 2, 3] ! 1 = int j \<and> (i, j) \<in> rx_rel (re_classes re) [10, 97, 98] root"
    using regex_find_leftmost [OF re(1) parse re(2)] by auto
  then show ?thesis using re(1) parse by blast
qed

end
