(* ===== verification/Sl_Json.thy ===== *)
theory Sl_Json
  imports Sl_Float
begin

text \<open>
  The tree parser of the JSON package (first part of \<open>src/runtime/sl_json.c\<close>).

  The state of an \<open>sl_jparser\<close> is what lies in \<open>s[pos..len)\<close>, the position and the depth; a
  parser that has set \<open>err\<close> returns \<open>NULL\<close> all the way up, so a failure is the value \<open>Inl\<close>
  of the message. A peek of \<open>-1\<close> is \<open>None\<close>.

  Nodes of the tree live in a store, a list in which the address of a node is its index, since
  the loop of \<open>sl_jparse_value\<close> links every container into its parent when it opens and fills it
  later through the pointer that its stack of frames holds. A string is the contents of its
  buffer in front of the terminator that closes it; an escape may put a NUL among them, where
  the readers of the string stop. A number keeps its \<open>double\<close> as a bit pattern and its text.
\<close>

section \<open>The parser state\<close>

record sl_jparser =
  jp_rest :: string
  jp_pos :: nat
  jp_depth :: nat

definition SL_JSON_MAX_DEPTH :: nat where
  "SL_JSON_MAX_DEPTH = 512"

type_synonym 'a jparses = "string + ('a \<times> sl_jparser)"

definition sl_jerr :: "sl_jparser \<Rightarrow> string \<Rightarrow> string" where
  "sl_jerr p m = take 255 m @ '' (at byte '' @ dec (jp_pos p) @ '')''"

definition jadv :: "nat \<Rightarrow> sl_jparser \<Rightarrow> sl_jparser" where
  "jadv n p = p\<lparr>jp_rest := drop n (jp_rest p), jp_pos := jp_pos p + n\<rparr>"

definition sl_jpeek :: "sl_jparser \<Rightarrow> char option" where
  "sl_jpeek p = (case jp_rest p of [] \<Rightarrow> None | c # _ \<Rightarrow> Some c)"

definition sl_jnext :: "sl_jparser \<Rightarrow> char option \<times> sl_jparser" where
  "sl_jnext p = (case jp_rest p of [] \<Rightarrow> (None, p) | c # _ \<Rightarrow> (Some c, jadv 1 p))"

definition is_ws :: "char \<Rightarrow> bool" where
  "is_ws c \<longleftrightarrow> c = CHR '' '' \<or> c = CHR 0x09 \<or> c = CHR 0x0A \<or> c = CHR 0x0D"

definition sl_jskip_ws :: "sl_jparser \<Rightarrow> sl_jparser" where
  "sl_jskip_ws p = jadv (length (takeWhile is_ws (jp_rest p))) p"

definition DQUOTE :: char where
  "DQUOTE = CHR 0x22"

definition BSLASH :: char where
  "BSLASH = CHR 0x5C"

section \<open>Strings\<close>

definition sl_hexval :: "char option \<Rightarrow> nat option" where
  "sl_hexval c =
     (case c of
        None \<Rightarrow> None
      | Some c \<Rightarrow>
          if is_digit c then Some (code c - 48)
          else if CHR ''a'' \<le> c \<and> c \<le> CHR ''f'' then Some (code c - 97 + 10)
          else if CHR ''A'' \<le> c \<and> c \<le> CHR ''F'' then Some (code c - 65 + 10)
          else None)"

fun hex4_loop :: "nat \<Rightarrow> nat \<Rightarrow> sl_jparser \<Rightarrow> nat jparses" where
  "hex4_loop 0 v p = Inr (v, p)"
| "hex4_loop (Suc i) v p =
     (let (c, p) = sl_jnext p in
      case sl_hexval c of
        None \<Rightarrow> Inl (sl_jerr p (''invalid '' @ [BSLASH] @ ''u escape''))
      | Some h \<Rightarrow> hex4_loop i (push_bit 4 v OR h) p)"

definition sl_jparse_hex4 :: "sl_jparser \<Rightarrow> nat jparses" where
  "sl_jparse_hex4 p = hex4_loop 4 0 p"

text \<open>A string buffer: what has been written, and the capacity.\<close>

record jbuf =
  jb_text :: string
  jb_cap :: nat

definition jbuf_room :: "nat \<Rightarrow> jbuf \<Rightarrow> jbuf" where
  "jbuf_room n b =
     (if length (jb_text b) + n > jb_cap b
      then b\<lparr>jb_cap := (if jb_cap b \<noteq> 0 then jb_cap b * 2 else 64)\<rparr> else b)"

definition utf8_bytes :: "nat \<Rightarrow> string" where
  "utf8_bytes cp =
     (if cp < 0x80 then [char_of cp]
      else if cp < 0x800 then [char_of (0xC0 OR drop_bit 6 cp), char_of (0x80 OR (cp AND 0x3F))]
      else if cp < 0x10000
      then [char_of (0xE0 OR drop_bit 12 cp), char_of (0x80 OR (drop_bit 6 cp AND 0x3F)),
            char_of (0x80 OR (cp AND 0x3F))]
      else [char_of (0xF0 OR drop_bit 18 cp), char_of (0x80 OR (drop_bit 12 cp AND 0x3F)),
            char_of (0x80 OR (drop_bit 6 cp AND 0x3F)), char_of (0x80 OR (cp AND 0x3F))])"

definition sl_utf8_append :: "jbuf \<Rightarrow> nat \<Rightarrow> jbuf" where
  "sl_utf8_append b cp =
     (let b = jbuf_room 4 b in b\<lparr>jb_text := jb_text b @ utf8_bytes cp\<rparr>)"

definition sl_jbuf_byte :: "jbuf \<Rightarrow> char \<Rightarrow> jbuf" where
  "sl_jbuf_byte b c = (let b = jbuf_room 1 b in b\<lparr>jb_text := jb_text b @ [c]\<rparr>)"

definition simple_escapes :: "(char \<times> nat) list" where
  "simple_escapes =
     [(DQUOTE, 0x22), (BSLASH, 0x5C), (CHR ''/'', 0x2F), (CHR ''b'', 8), (CHR ''f'', 12),
      (CHR ''n'', 10), (CHR ''r'', 13), (CHR ''t'', 9)]"

definition printable :: "char option \<Rightarrow> char" where
  "printable c =
     (case c of None \<Rightarrow> CHR ''?'' | Some c \<Rightarrow> if 32 \<le> code c \<and> code c < 127 then c else CHR ''?'')"

text \<open>The escape after a backslash and \<open>u\<close>: one code unit, or two that form a pair.\<close>

definition jescape_u :: "sl_jparser \<Rightarrow> nat jparses" where
  "jescape_u p =
     (case sl_jparse_hex4 p of
        Inl e \<Rightarrow> Inl e
      | Inr (cp, p) \<Rightarrow>
          if 0xD800 \<le> cp \<and> cp \<le> 0xDBFF
          then (let (a, p1) = sl_jnext p; (u, p2) = sl_jnext p1 in
                if a \<noteq> Some BSLASH then Inl (sl_jerr p1 ''unpaired UTF-16 surrogate'')
                else if u \<noteq> Some (CHR ''u'') then Inl (sl_jerr p2 ''unpaired UTF-16 surrogate'')
                else (case sl_jparse_hex4 p2 of
                        Inl e \<Rightarrow> Inl e
                      | Inr (lo, p) \<Rightarrow>
                          if lo < 0xDC00 \<or> lo > 0xDFFF then Inl (sl_jerr p ''invalid low surrogate'')
                          else Inr (0x10000 + push_bit 10 (cp - 0xD800) + (lo - 0xDC00), p)))
          else if 0xDC00 \<le> cp \<and> cp \<le> 0xDFFF then Inl (sl_jerr p ''unpaired UTF-16 surrogate'')
          else Inr (cp, p))"

definition jescape :: "sl_jparser \<Rightarrow> nat jparses" where
  "jescape p =
     (let (e, p) = sl_jnext p in
      case (case e of None \<Rightarrow> None | Some e \<Rightarrow> map_of simple_escapes e) of
        Some cp \<Rightarrow> Inr (cp, p)
      | None \<Rightarrow>
          if e = Some (CHR ''u'') then jescape_u p
          else Inl (sl_jerr p (''invalid escape '' @ [CHR 0x27, BSLASH, printable e, CHR 0x27])))"

lemma jadv_rest [simp]: "jp_rest (jadv n p) = drop n (jp_rest p)"
  by (simp add: jadv_def)

lemma sl_jnext_le: "sl_jnext p = (c, p') \<Longrightarrow> length (jp_rest p') \<le> length (jp_rest p)"
  by (auto simp: sl_jnext_def split: list.splits)

lemma sl_jnext_less: "sl_jnext p = (Some c, p') \<Longrightarrow> length (jp_rest p') < length (jp_rest p)"
  by (auto simp: sl_jnext_def split: list.splits)

lemma hex4_loop_le: "hex4_loop n v p = Inr (r, p') \<Longrightarrow> length (jp_rest p') \<le> length (jp_rest p)"
proof (induction n v p rule: hex4_loop.induct)
  case (2 i v p)
  obtain c q where q: "sl_jnext p = (c, q)" by fastforce
  with 2 show ?case using sl_jnext_le [OF q] by (fastforce split: option.splits)
qed simp

lemma jescape_u_le: "jescape_u p = Inr (r, p') \<Longrightarrow> length (jp_rest p') \<le> length (jp_rest p)"
  by (auto simp: jescape_u_def sl_jparse_hex4_def Let_def split: sum.splits prod.splits if_splits
      dest!: sl_jnext_le hex4_loop_le)

lemma jescape_le: "jescape p = Inr (r, p') \<Longrightarrow> length (jp_rest p') \<le> length (jp_rest p)"
  by (auto simp: jescape_def Let_def split: prod.splits option.splits if_splits
      dest!: sl_jnext_le jescape_u_le)

function string_loop :: "sl_jparser \<Rightarrow> jbuf \<Rightarrow> jbuf jparses" where
  "string_loop p b =
     (case sl_jnext p of
        (None, p) \<Rightarrow> Inl (sl_jerr p ''unterminated string'')
      | (Some c, p) \<Rightarrow>
          if c = DQUOTE then Inr (b, p)
          else if c = BSLASH
          then (case jescape p of
                  Inl e \<Rightarrow> Inl e
                | Inr (cp, p) \<Rightarrow> string_loop p (sl_utf8_append b cp))
          else if code c < 0x20 then Inl (sl_jerr p ''control character in string'')
          else string_loop p (sl_jbuf_byte b c))"
  by pat_completeness auto
termination
  by (relation "measure (\<lambda>(p, _). length (jp_rest p))") (auto dest!: sl_jnext_less [OF sym] jescape_le)

declare string_loop.simps [simp del]

definition plain_char :: "char \<Rightarrow> bool" where
  "plain_char c \<longleftrightarrow> c \<noteq> DQUOTE \<and> c \<noteq> BSLASH \<and> 0x20 \<le> code c"

definition sl_jparse_string_raw :: "sl_jparser \<Rightarrow> string jparses" where
  "sl_jparse_string_raw p =
     (let run = takeWhile plain_char (jp_rest p);
          n = length run
      in if n < length (jp_rest p) \<and> jp_rest p ! n = DQUOTE
         then Inr (run, jadv (n + 1) p)
         else (case string_loop p \<lparr>jb_text = [], jb_cap = 0\<rparr> of
                 Inl e \<Rightarrow> Inl e
               | Inr (b, p) \<Rightarrow> Inr (jb_text b, p)))"

section \<open>Numbers and literals\<close>

definition digit_next :: "sl_jparser \<Rightarrow> bool" where
  "digit_next p \<longleftrightarrow> (case sl_jpeek p of None \<Rightarrow> False | Some c \<Rightarrow> is_digit c)"

definition jdigits :: "sl_jparser \<Rightarrow> sl_jparser" where
  "jdigits p = jadv (length (takeWhile is_digit (jp_rest p))) p"

definition jnum_int :: "sl_jparser \<Rightarrow> string + sl_jparser" where
  "jnum_int p =
     (let p = (if sl_jpeek p = Some (CHR ''-'') then jadv 1 p else p) in
      if sl_jpeek p = Some (CHR ''0'') then Inr (jadv 1 p)
      else if digit_next p then Inr (jdigits p)
      else Inl (sl_jerr p ''invalid number''))"

definition jnum_frac :: "sl_jparser \<Rightarrow> string + sl_jparser" where
  "jnum_frac p =
     (if sl_jpeek p = Some (CHR ''.'')
      then (let p = jadv 1 p in
            if \<not> digit_next p
            then Inl (sl_jerr p (''invalid number: expected digit after '' @ [CHR 0x27, CHR ''.'', CHR 0x27]))
            else Inr (jdigits p))
      else Inr p)"

definition jnum_exp :: "sl_jparser \<Rightarrow> string + sl_jparser" where
  "jnum_exp p =
     (if sl_jpeek p = Some (CHR ''e'') \<or> sl_jpeek p = Some (CHR ''E'')
      then (let p = jadv 1 p;
                p = (if sl_jpeek p = Some (CHR ''+'') \<or> sl_jpeek p = Some (CHR ''-'') then jadv 1 p else p)
            in if \<not> digit_next p then Inl (sl_jerr p ''invalid number: expected digit in exponent'')
               else Inr (jdigits p))
      else Inr p)"

text \<open>\<open>strtod\<close> of a number with its sign, which is the highest bit of the pattern.\<close>

definition jnum_double :: "string \<Rightarrow> nat" where
  "jnum_double t =
     (case t of
        [] \<Rightarrow> 0
      | c # r \<Rightarrow> if c = CHR ''-'' then 2 ^ 63 + strtod r else strtod t)"

definition sl_jparse_number :: "sl_jparser \<Rightarrow> string jparses" where
  "sl_jparse_number p =
     (case jnum_int p of
        Inl e \<Rightarrow> Inl e
      | Inr p1 \<Rightarrow>
          (case jnum_frac p1 of
             Inl e \<Rightarrow> Inl e
           | Inr p2 \<Rightarrow>
               (case jnum_exp p2 of
                  Inl e \<Rightarrow> Inl e
                | Inr p3 \<Rightarrow> Inr (take (jp_pos p3 - jp_pos p) (jp_rest p), p3))))"

definition sl_jmatch_lit :: "sl_jparser \<Rightarrow> string \<Rightarrow> sl_jparser option" where
  "sl_jmatch_lit p lit =
     (if length lit > length (jp_rest p) then None
      else if take (length lit) (jp_rest p) \<noteq> lit then None
      else Some (jadv (length lit) p))"

section \<open>The tree\<close>

datatype sl_json_val =
    SL_JV_NULL | SL_JV_BOOL bool | SL_JV_NUM nat string | SL_JV_STR string
  | SL_JV_ARR "nat list" | SL_JV_OBJ "(string \<times> nat option) list"

text \<open>The nodes that the collector marks from a node; marking \<open>NULL\<close> does nothing.\<close>

fun sl_gc_trace_json_val :: "sl_json_val \<Rightarrow> nat list" where
  "sl_gc_trace_json_val (SL_JV_ARR items) = items"
| "sl_gc_trace_json_val (SL_JV_OBJ mems) = List.map_filter snd mems"
| "sl_gc_trace_json_val _ = []"

type_synonym jstore = "sl_json_val list"

definition sl_jv_new :: "jstore \<Rightarrow> sl_json_val \<Rightarrow> nat \<times> jstore" where
  "sl_jv_new st v = (length st, st @ [v])"

record sl_jframe =
  jf_v :: nat
  jf_cap :: nat

fun jv_len :: "sl_json_val \<Rightarrow> nat" where
  "jv_len (SL_JV_ARR items) = length items"
| "jv_len (SL_JV_OBJ mems) = length mems"
| "jv_len _ = 0"

definition is_obj :: "sl_json_val \<Rightarrow> bool" where
  "is_obj v \<longleftrightarrow> (case v of SL_JV_OBJ _ \<Rightarrow> True | _ \<Rightarrow> False)"

definition is_container :: "sl_json_val \<Rightarrow> bool" where
  "is_container v \<longleftrightarrow> (case v of SL_JV_ARR _ \<Rightarrow> True | SL_JV_OBJ _ \<Rightarrow> True | _ \<Rightarrow> False)"

definition sl_jreserve :: "jstore \<Rightarrow> sl_jframe \<Rightarrow> sl_jframe" where
  "sl_jreserve st f =
     (if jv_len (st ! jf_v f) < jf_cap f then f
      else f\<lparr>jf_cap := (if jf_cap f \<noteq> 0 then jf_cap f * 2 else 4)\<rparr>)"

definition sl_jplace :: "jstore \<Rightarrow> sl_jframe \<Rightarrow> nat \<Rightarrow> jstore \<times> sl_jframe" where
  "sl_jplace st f a =
     (case st ! jf_v f of
        SL_JV_OBJ mems \<Rightarrow>
          (st[jf_v f := SL_JV_OBJ (mems[length mems - 1 := (fst (mems ! (length mems - 1)), Some a)])], f)
      | SL_JV_ARR items \<Rightarrow> (let f = sl_jreserve st f in (st[jf_v f := SL_JV_ARR (items @ [a])], f))
      | _ \<Rightarrow> (st, f))"

text \<open>The value at the parser: a scalar, or the container that its bracket opens.\<close>

definition jread :: "sl_jparser \<Rightarrow> sl_json_val jparses" where
  "jread p =
     (case sl_jpeek p of
        None \<Rightarrow> Inl (sl_jerr p ''unexpected end of input'')
      | Some c \<Rightarrow>
          if c = DQUOTE then map_sum id (apfst SL_JV_STR) (sl_jparse_string_raw (jadv 1 p))
          else if c = CHR ''{'' \<or> c = CHR ''['' then
            (let p = jadv 1 p; p = p\<lparr>jp_depth := jp_depth p + 1\<rparr> in
             if jp_depth p > SL_JSON_MAX_DEPTH
             then Inl (sl_jerr p ''maximum nesting depth (512) exceeded'')
             else Inr (if c = CHR ''{'' then SL_JV_OBJ [] else SL_JV_ARR [], p))
          else if c = CHR ''-'' \<or> is_digit c then
            map_sum id (apfst (\<lambda>t. SL_JV_NUM (jnum_double t) t)) (sl_jparse_number p)
          else if c = CHR ''t'' then
            (case sl_jmatch_lit p ''true'' of
               None \<Rightarrow> Inl (sl_jerr p ''invalid literal'') | Some p \<Rightarrow> Inr (SL_JV_BOOL True, p))
          else if c = CHR ''f'' then
            (case sl_jmatch_lit p ''false'' of
               None \<Rightarrow> Inl (sl_jerr p ''invalid literal'') | Some p \<Rightarrow> Inr (SL_JV_BOOL False, p))
          else if c = CHR ''n'' then
            (case sl_jmatch_lit p ''null'' of
               None \<Rightarrow> Inl (sl_jerr p ''invalid literal'') | Some p \<Rightarrow> Inr (SL_JV_NULL, p))
          else Inl (sl_jerr p (''unexpected character '' @ [CHR 0x27, printable (Some c), CHR 0x27])))"

text \<open>
  The loop: its state is the parser, the store, the open containers (innermost first) and the
  root; the phases are its three entry points.
\<close>

record jstate =
  js_p :: sl_jparser
  js_store :: jstore
  js_frames :: "sl_jframe list"
  js_root :: "nat option"

datatype jphase = J_VALUE | J_AFTER | J_KEY

datatype jgoes = J_FAIL string | J_DONE | J_GO jphase jstate

definition jlink :: "jstate \<Rightarrow> nat \<Rightarrow> jstate" where
  "jlink s a =
     (case js_frames s of
        [] \<Rightarrow> s\<lparr>js_root := Some a\<rparr>
      | f # fs \<Rightarrow>
          (let (st, f) = sl_jplace (js_store s) f a in s\<lparr>js_store := st, js_frames := f # fs\<rparr>))"

definition jclose :: "bool \<Rightarrow> char" where
  "jclose obj = (if obj then CHR ''}'' else CHR '']'')"

definition jpop :: "sl_jparser \<Rightarrow> jstate \<Rightarrow> jstate" where
  "jpop p s = s\<lparr>js_p := p\<lparr>jp_depth := jp_depth p - 1\<rparr>, js_frames := tl (js_frames s)\<rparr>"

definition jvalue_step :: "jstate \<Rightarrow> jgoes" where
  "jvalue_step s =
     (case jread (sl_jskip_ws (js_p s)) of
        Inl e \<Rightarrow> J_FAIL e
      | Inr (v, p) \<Rightarrow>
          (let (a, st) = sl_jv_new (js_store s) v;
               s = jlink (s\<lparr>js_p := p, js_store := st\<rparr>) a
           in if is_container v
              then (let s = s\<lparr>js_frames := \<lparr>jf_v = a, jf_cap = 0\<rparr> # js_frames s\<rparr>;
                        p = sl_jskip_ws p
                    in if sl_jpeek p = Some (jclose (is_obj v)) then J_GO J_AFTER (jpop (jadv 1 p) s)
                       else J_GO (if is_obj v then J_KEY else J_VALUE) (s\<lparr>js_p := p\<rparr>))
              else J_GO J_AFTER s))"

definition jafter_step :: "jstate \<Rightarrow> jgoes" where
  "jafter_step s =
     (case js_frames s of
        [] \<Rightarrow> J_DONE
      | f # _ \<Rightarrow>
          (let obj = is_obj (js_store s ! jf_v f);
               (d, p) = sl_jnext (sl_jskip_ws (js_p s))
           in if d = Some (CHR '','') then J_GO (if obj then J_KEY else J_VALUE) (s\<lparr>js_p := p\<rparr>)
              else if d = Some (jclose obj) then J_GO J_AFTER (jpop p s)
              else J_FAIL (sl_jerr p (if obj then ''expected '' @ [CHR 0x27, CHR '','', CHR 0x27] @ '' or '' @ [CHR 0x27, CHR ''}'', CHR 0x27] @ '' in object''
                                      else ''expected '' @ [CHR 0x27, CHR '','', CHR 0x27] @ '' or '' @ [CHR 0x27, CHR '']'', CHR 0x27] @ '' in array''))))"

definition jadd_key :: "jstate \<Rightarrow> string \<Rightarrow> jstate" where
  "jadd_key s k =
     (case js_frames s of
        [] \<Rightarrow> s
      | f # fs \<Rightarrow>
          (let f = sl_jreserve (js_store s) f in
           case js_store s ! jf_v f of
             SL_JV_OBJ mems \<Rightarrow>
               s\<lparr>js_store := (js_store s)[jf_v f := SL_JV_OBJ (mems @ [(k, None)])], js_frames := f # fs\<rparr>
           | _ \<Rightarrow> s))"

definition jkey_step :: "jstate \<Rightarrow> jgoes" where
  "jkey_step s =
     (let p = sl_jskip_ws (js_p s) in
      if sl_jpeek p \<noteq> Some DQUOTE then J_FAIL (sl_jerr p ''expected string key in object'')
      else (case sl_jparse_string_raw (jadv 1 p) of
              Inl e \<Rightarrow> J_FAIL e
            | Inr (k, p) \<Rightarrow>
                (let (c, p) = sl_jnext (sl_jskip_ws p) in
                 if c \<noteq> Some (CHR '':'') then
                   J_FAIL (sl_jerr p (''expected '' @ [CHR 0x27, CHR '':'', CHR 0x27] @ '' after object key''))
                 else J_GO J_VALUE (jadd_key (s\<lparr>js_p := p\<rparr>) k))))"

fun jstep :: "jphase \<Rightarrow> jstate \<Rightarrow> jgoes" where
  "jstep J_VALUE s = jvalue_step s"
| "jstep J_AFTER s = jafter_step s"
| "jstep J_KEY s = jkey_step s"

lemma jadv_le: "length (jp_rest (jadv n p)) \<le> length (jp_rest p)"
  by simp

lemma skip_ws_le: "length (jp_rest (sl_jskip_ws p)) \<le> length (jp_rest p)"
  by (simp add: sl_jskip_ws_def)

lemma string_loop_less: "string_loop p b = Inr (r, p') \<Longrightarrow> length (jp_rest p') < length (jp_rest p)"
proof (induction p b rule: string_loop.induct)
  case (1 p b)
  obtain c q where q: "sl_jnext p = (c, q)" by fastforce
  show ?case
  proof (cases c)
    case None
    with 1(3) q show ?thesis by (subst (asm) string_loop.simps) simp
  next
    case (Some x)
    have less: "length (jp_rest q) < length (jp_rest p)" using q Some sl_jnext_less by blast
    consider "x = DQUOTE" | cp q' where "x = BSLASH" "x \<noteq> DQUOTE" "jescape q = Inr (cp, q')"
        "string_loop q' (sl_utf8_append b cp) = Inr (r, p')"
      | "x \<noteq> DQUOTE" "x \<noteq> BSLASH" "\<not> code x < 32" "string_loop q (sl_jbuf_byte b x) = Inr (r, p')"
      using 1(3) q Some by (subst (asm) string_loop.simps) (auto split: if_splits sum.splits)
    then show ?thesis
    proof cases
      case 1
      then show ?thesis using \<open>string_loop p b = Inr (r, p')\<close> q Some less
        by (subst (asm) string_loop.simps) simp
    next
      case 2
      then show ?thesis using "1.IH"(1) q Some less jescape_le [of q cp q'] by fastforce
    next
      case 3
      then show ?thesis using "1.IH"(2) q Some less by fastforce
    qed
  qed
qed

lemma sl_jparse_string_raw_less:
  "sl_jparse_string_raw p = Inr (r, p') \<Longrightarrow> length (jp_rest p') < length (jp_rest p)"
  by (auto simp: sl_jparse_string_raw_def Let_def split: if_splits sum.splits dest: string_loop_less)

lemma jnum_le:
  "jnum_frac p = Inr p' \<Longrightarrow> length (jp_rest p') \<le> length (jp_rest p)"
  "jnum_exp p = Inr p' \<Longrightarrow> length (jp_rest p') \<le> length (jp_rest p)"
  by (auto simp: jnum_frac_def jnum_exp_def jdigits_def Let_def split: if_splits)

lemma jnum_int_less: "jnum_int p = Inr p' \<Longrightarrow> length (jp_rest p') < length (jp_rest p)"
  by (cases "jp_rest p"; cases "tl (jp_rest p)")
    (auto simp: jnum_int_def jdigits_def digit_next_def sl_jpeek_def Let_def less_Suc_eq_le split: if_splits list.splits)

lemma sl_jparse_number_less:
  "sl_jparse_number p = Inr (r, p') \<Longrightarrow> length (jp_rest p') < length (jp_rest p)"
  by (fastforce simp: sl_jparse_number_def split: sum.splits dest!: jnum_int_less jnum_le)

lemma sl_jmatch_lit_less:
  "sl_jmatch_lit p lit = Some p' \<Longrightarrow> lit \<noteq> [] \<Longrightarrow> length (jp_rest p') < length (jp_rest p)"
  by (cases "jp_rest p") (auto simp: sl_jmatch_lit_def split: if_splits)

lemma jread_less: "jread p = Inr (v, p') \<Longrightarrow> length (jp_rest p') < length (jp_rest p)"
  by (cases "jp_rest p")
    (auto simp: jread_def sl_jpeek_def Let_def map_sum_def split: if_splits option.splits sum.splits
      dest!: sl_jparse_string_raw_less sl_jparse_number_less sl_jmatch_lit_less)

lemma jlink_p [simp]: "js_p (jlink s a) = js_p s"
  by (auto simp: jlink_def split: list.splits prod.splits)

lemma jadd_key_p [simp]: "js_p (jadd_key s k) = js_p s"
  by (auto simp: jadd_key_def Let_def split: list.splits sl_json_val.splits)

lemma jpop_p [simp]: "js_p (jpop p s) = p\<lparr>jp_depth := jp_depth p - 1\<rparr>"
  by (simp add: jpop_def)

lemma jstep_less:
  "jstep ph s = J_GO ph' s' \<Longrightarrow> length (jp_rest (js_p s')) < length (jp_rest (js_p s))"
proof (induction ph s rule: jstep.induct)
  case (1 s)
  then obtain v p where r: "jread (sl_jskip_ws (js_p s)) = Inr (v, p)"
    by (auto simp: jvalue_step_def split: sum.splits)
  have "length (jp_rest (js_p s')) \<le> length (jp_rest p)"
    using 1 r skip_ws_le [of p] by (auto simp: jvalue_step_def sl_jv_new_def Let_def split: if_splits)
  then show ?case using jread_less [OF r] skip_ws_le [of "js_p s"] by simp
next
  case (2 s)
  then obtain d p where n: "sl_jnext (sl_jskip_ws (js_p s)) = (Some d, p)"
    by (auto simp: jafter_step_def Let_def split: list.splits prod.splits if_splits)
  then have "js_p s' = p \<or> js_p s' = p\<lparr>jp_depth := jp_depth p - 1\<rparr>"
    using 2 by (auto simp: jafter_step_def Let_def split: list.splits prod.splits if_splits)
  then show ?case using sl_jnext_less [OF n] skip_ws_le [of "js_p s"] by auto
next
  case (3 s)
  then obtain k p q where k: "sl_jparse_string_raw (jadv 1 (sl_jskip_ws (js_p s))) = Inr (k, p)"
    "sl_jnext (sl_jskip_ws p) = (Some (CHR '':''), q)" "js_p s' = q"
    by (auto simp: jkey_step_def Let_def split: prod.splits if_splits sum.splits)
  then show ?case
    using sl_jparse_string_raw_less [OF k(1)] sl_jnext_less [OF k(2)] skip_ws_le [of p] skip_ws_le [of "js_p s"] by simp
qed

function jloop :: "jphase \<Rightarrow> jstate \<Rightarrow> string + jstate" where
  "jloop ph s =
     (case jstep ph s of
        J_FAIL e \<Rightarrow> Inl e
      | J_DONE \<Rightarrow> Inr s
      | J_GO ph' s' \<Rightarrow> jloop ph' s')"
  by pat_completeness auto
termination
  by (relation "measure (\<lambda>(ph, s). length (jp_rest (js_p s)))") (auto dest!: jstep_less)

declare jloop.simps [simp del]

definition sl_jparse_value :: "sl_jparser \<Rightarrow> (jstore \<times> nat option) jparses" where
  "sl_jparse_value p =
     (case jloop J_VALUE \<lparr>js_p = p, js_store = [], js_frames = [], js_root = None\<rparr> of
        Inl e \<Rightarrow> Inl e
      | Inr s \<Rightarrow> Inr ((js_store s, js_root s), js_p s))"

definition sl_json_parse :: "string \<Rightarrow> (jstore \<times> nat option) sl_result" where
  "sl_json_parse s =
     (case sl_jparse_value \<lparr>jp_rest = s, jp_pos = 0, jp_depth = 0\<rparr> of
        Inl e \<Rightarrow> Inl e
      | Inr (v, p) \<Rightarrow>
          (let p = sl_jskip_ws p in
           if jp_rest p \<noteq> [] then Inl (sl_jerr p ''trailing garbage after JSON value'') else Inr v))"

end
