(* ===== verification/Sl_Json_Text.thy ===== *)
theory Sl_Json_Text
  imports Sl_Json
begin

text \<open>
  What a JSON text is, as a grammar over byte strings, and that the tree parser accepts exactly
  these texts within its depth limit and builds their values.
\<close>

section \<open>The grammar\<close>

datatype json =
    JNull | JBool bool | JNum string | JStr string | JArr "json list" | JObj "(string \<times> json) list"

fun jdepth :: "json \<Rightarrow> nat" where
  "jdepth (JArr ts) = Suc (fold max (map jdepth ts) 0)"
| "jdepth (JObj ms) = Suc (fold max (map (\<lambda>(k, t). jdepth t) ms) 0)"
| "jdepth _ = 0"

definition hexdigit :: "char \<Rightarrow> nat" where
  "hexdigit c = (if is_digit c then code c - 48 else if CHR ''a'' \<le> c then code c - 87 else code c - 55)"

definition hex_unit :: "string \<Rightarrow> nat \<Rightarrow> bool" where
  "hex_unit h n \<longleftrightarrow> length h = 4 \<and> list_all is_xdigit h \<and> n = foldl (\<lambda>a c. 16 * a + hexdigit c) 0 h"

text \<open>UTF-8 by division.\<close>

definition utf8 :: "nat \<Rightarrow> string" where
  "utf8 cp =
     (let low = (\<lambda>n. char_of (128 + n mod 64)) in
      if cp < 2 ^ 7 then [char_of cp]
      else if cp < 2 ^ 11 then [char_of (192 + cp div 2 ^ 6), low cp]
      else if cp < 2 ^ 16 then [char_of (224 + cp div 2 ^ 12), low (cp div 2 ^ 6), low cp]
      else [char_of (240 + cp div 2 ^ 18), low (cp div 2 ^ 12), low (cp div 2 ^ 6), low cp])"

inductive jchars :: "string \<Rightarrow> string \<Rightarrow> bool" where
  jchars_Nil: "jchars [] []"
| jchars_plain: "plain_char c \<Longrightarrow> jchars b v \<Longrightarrow> jchars (c # b) (c # v)"
| jchars_simple: "(e, cp) \<in> set simple_escapes \<Longrightarrow> jchars b v \<Longrightarrow>
    jchars (BSLASH # e # b) (char_of cp # v)"
| jchars_unit: "hex_unit h cp \<Longrightarrow> cp < 0xD800 \<or> 0xDFFF < cp \<Longrightarrow> jchars b v \<Longrightarrow>
    jchars (BSLASH # CHR ''u'' # h @ b) (utf8 cp @ v)"
| jchars_pair: "hex_unit h hi \<Longrightarrow> hex_unit l lo \<Longrightarrow> 0xD800 \<le> hi \<Longrightarrow> hi \<le> 0xDBFF \<Longrightarrow>
    0xDC00 \<le> lo \<Longrightarrow> lo \<le> 0xDFFF \<Longrightarrow> jchars b v \<Longrightarrow>
    jchars (BSLASH # CHR ''u'' # h @ BSLASH # CHR ''u'' # l @ b)
      (utf8 (0x10000 + (hi - 0xD800) * 2 ^ 10 + (lo - 0xDC00)) @ v)"

definition digits :: "string \<Rightarrow> bool" where
  "digits s \<longleftrightarrow> s \<noteq> [] \<and> list_all is_digit s"

definition jint :: "string \<Rightarrow> bool" where
  "jint s \<longleftrightarrow> s = ''0'' \<or> digits s \<and> hd s \<noteq> CHR ''0''"

definition jfrac :: "string \<Rightarrow> bool" where
  "jfrac s \<longleftrightarrow> s = [] \<or> (\<exists>ds. s = CHR ''.'' # ds \<and> digits ds)"

definition jexp :: "string \<Rightarrow> bool" where
  "jexp s \<longleftrightarrow> s = [] \<or>
     (\<exists>e sg ds. s = e # sg @ ds \<and> e \<in> {CHR ''e'', CHR ''E''} \<and> sg \<in> {[], ''+'', ''-''} \<and> digits ds)"

definition jnum :: "string \<Rightarrow> bool" where
  "jnum s \<longleftrightarrow> (\<exists>sg i f e. s = sg @ i @ f @ e \<and> sg \<in> {[], ''-''} \<and> jint i \<and> jfrac f \<and> jexp e)"

definition ws :: "string \<Rightarrow> bool" where
  "ws s \<longleftrightarrow> list_all is_ws s"

inductive jvalue :: "string \<Rightarrow> json \<Rightarrow> bool"
  and jelems :: "string \<Rightarrow> json list \<Rightarrow> bool"
  and jmember :: "string \<Rightarrow> string \<times> json \<Rightarrow> bool"
  and jmembers :: "string \<Rightarrow> (string \<times> json) list \<Rightarrow> bool" where
  jv_null: "jvalue ''null'' JNull"
| jv_true: "jvalue ''true'' (JBool True)"
| jv_false: "jvalue ''false'' (JBool False)"
| jv_num: "jnum s \<Longrightarrow> jvalue s (JNum s)"
| jv_str: "jchars b v \<Longrightarrow> jvalue (DQUOTE # b @ [DQUOTE]) (JStr v)"
| jv_arr0: "ws w \<Longrightarrow> jvalue (CHR ''['' # w @ '']'') (JArr [])"
| jv_arr: "jelems s ts \<Longrightarrow> jvalue (CHR ''['' # s @ '']'') (JArr ts)"
| jv_obj0: "ws w \<Longrightarrow> jvalue (CHR ''{'' # w @ ''}'') (JObj [])"
| jv_obj: "jmembers s ms \<Longrightarrow> jvalue (CHR ''{'' # s @ ''}'') (JObj ms)"
| je_last: "ws w \<Longrightarrow> jvalue s t \<Longrightarrow> ws w' \<Longrightarrow> jelems (w @ s @ w') [t]"
| je_more: "ws w \<Longrightarrow> jvalue s t \<Longrightarrow> ws w' \<Longrightarrow> jelems s' ts \<Longrightarrow>
    jelems (w @ s @ w' @ CHR '','' # s') (t # ts)"
| jm: "ws w \<Longrightarrow> jchars b k \<Longrightarrow> ws w1 \<Longrightarrow> ws w2 \<Longrightarrow> jvalue s t \<Longrightarrow> ws w' \<Longrightarrow>
    jmember (w @ DQUOTE # b @ DQUOTE # w1 @ CHR '':'' # w2 @ s @ w') (k, t)"
| jm_last: "jmember s m \<Longrightarrow> jmembers s [m]"
| jm_more: "jmember s m \<Longrightarrow> jmembers s' ms \<Longrightarrow> jmembers (s @ CHR '','' # s') (m # ms)"

definition json_text :: "string \<Rightarrow> json \<Rightarrow> bool" where
  "json_text s t \<longleftrightarrow> (\<exists>w v w'. s = w @ v @ w' \<and> ws w \<and> jvalue v t \<and> ws w')"

section \<open>The scanners\<close>

lemma jadv_simps [simp]:
  "jp_pos (jadv n p) = jp_pos p + n" "jp_depth (jadv n p) = jp_depth p" "jadv 0 p = p"
  by (simp_all add: jadv_def)

lemma jadv_jadv [simp]: "jadv m (jadv n p) = jadv (n + m) p"
  by (simp add: jadv_def add.commute add.left_commute)

lemma jadv_depth [simp]: "jadv n (p\<lparr>jp_depth := d\<rparr>) = (jadv n p)\<lparr>jp_depth := d\<rparr>"
  by (simp add: jadv_def)

lemma ws_simps [simp]: "ws []" "ws (c # s) \<longleftrightarrow> is_ws c \<and> ws s" "ws (s @ t) \<longleftrightarrow> ws s \<and> ws t"
  by (auto simp: ws_def)

text \<open>The parser reads \<open>x\<close> from \<open>p\<close> and is then at \<open>p'\<close>.\<close>

definition jtakes :: "string \<Rightarrow> sl_jparser \<Rightarrow> sl_jparser \<Rightarrow> bool" where
  "jtakes x p p' \<longleftrightarrow> take (length x) (jp_rest p) = x \<and> p' = jadv (length x) p"

lemma jtakes_Nil [simp]: "jtakes [] p p' \<longleftrightarrow> p' = p"
  by (simp add: jtakes_def)

lemma jtakesI: "jp_rest p = x @ r \<Longrightarrow> jtakes x p (jadv (length x) p)"
  by (simp add: jtakes_def)

lemma jtakesE:
  assumes "jtakes x p p'"
  obtains r where "jp_rest p = x @ r" "jp_rest p' = r" "p' = jadv (length x) p"
  using assms by (metis append_take_drop_id jadv_rest jtakes_def)

lemma jtakes_append: "jtakes (x @ y) p p' \<longleftrightarrow> (\<exists>q. jtakes x p q \<and> jtakes y q p')"
proof
  assume "jtakes (x @ y) p p'"
  then obtain r where "jp_rest p = (x @ y) @ r" "p' = jadv (length (x @ y)) p" by (rule jtakesE)
  then have r: "jp_rest p = x @ y @ r" "p' = jadv (length x + length y) p" by simp_all
  have "jtakes x p (jadv (length x) p)" using r by (auto intro: jtakesI)
  moreover have "jtakes y (jadv (length x) p) p'" using r by (simp add: jtakes_def)
  ultimately show "\<exists>q. jtakes x p q \<and> jtakes y q p'" by blast
next
  assume "\<exists>q. jtakes x p q \<and> jtakes y q p'"
  then obtain q where q: "jtakes x p q" "jtakes y q p'" by blast
  then show "jtakes (x @ y) p p'" by (simp add: jtakes_def take_add)
qed

lemma jtakes_Cons: "jtakes (c # y) p p' \<longleftrightarrow> (\<exists>q. jtakes [c] p q \<and> jtakes y q p')"
  using jtakes_append [of "[c]" y] by simp

lemma jtakes_next: "jtakes (c # y) p p' \<longleftrightarrow> (\<exists>q. sl_jnext p = (Some c, q) \<and> jtakes y q p')"
proof -
  have "sl_jnext p = (Some c, q) \<longleftrightarrow> jtakes [c] p q" for q
    by (cases "jp_rest p") (auto simp: sl_jnext_def jtakes_def)
  then show ?thesis using jtakes_Cons by blast
qed

lemma jtakes_trans: "jtakes x p q \<Longrightarrow> jtakes y q r \<Longrightarrow> jtakes (x @ y) p r"
  by (auto simp: jtakes_append)

lemma jtakes_fun: "jtakes x p q \<Longrightarrow> jtakes x p q' \<Longrightarrow> q = q'"
  by (simp add: jtakes_def)

lemma jtakes_depth: "jtakes x p q \<Longrightarrow> jp_depth q = jp_depth p"
  by (auto elim: jtakesE)

lemma jtakes_length: "jtakes x p q \<Longrightarrow> length (jp_rest p) = length x + length (jp_rest q)"
  by (erule jtakesE) (metis length_append)

lemma jnext_iff: "sl_jnext p = (Some c, p') \<longleftrightarrow> jtakes [c] p p'"
  by (cases "jp_rest p") (auto simp: sl_jnext_def jtakes_def)

lemma jpeek_iff: "sl_jpeek p = Some c \<longleftrightarrow> jtakes [c] p (jadv 1 p)"
  by (cases "jp_rest p") (auto simp: sl_jpeek_def jtakes_def)

lemma jpeek_takes: "jtakes [c] p q \<Longrightarrow> sl_jpeek p = Some c"
  by (cases "jp_rest p") (auto simp: sl_jpeek_def jtakes_def)

lemma skip_ws_takes:
  assumes "ws w" "jtakes w p q" "sl_jpeek q = None \<or> \<not> is_ws (the (sl_jpeek q))"
  shows "sl_jskip_ws p = q"
proof -
  obtain r where r: "jp_rest p = w @ r" "jp_rest q = r" "q = jadv (length w) p" using assms(2) by (rule jtakesE)
  have "takeWhile is_ws r = []" using assms(3) r(2) by (cases r) (auto simp: sl_jpeek_def)
  then show ?thesis using assms(1) r by (simp add: sl_jskip_ws_def ws_def list_all_iff takeWhile_append2)
qed

lemma skip_wsE:
  obtains w where "ws w" "jtakes w p (sl_jskip_ws p)"
    "sl_jpeek (sl_jskip_ws p) = None \<or> \<not> is_ws (the (sl_jpeek (sl_jskip_ws p)))"
proof -
  let ?w = "takeWhile is_ws (jp_rest p)" and ?r = "dropWhile is_ws (jp_rest p)"
  have "ws ?w" by (auto simp: ws_def list_all_iff dest: set_takeWhileD)
  moreover have "jtakes ?w p (sl_jskip_ws p)"
    using jtakesI [of p ?w ?r] by (simp add: sl_jskip_ws_def)
  moreover have "jp_rest (sl_jskip_ws p) = ?r" by (simp add: sl_jskip_ws_def dropWhile_eq_drop)
  then have "sl_jpeek (sl_jskip_ws p) = None \<or> \<not> is_ws (the (sl_jpeek (sl_jskip_ws p)))"
    using hd_dropWhile [of is_ws "jp_rest p"] by (cases ?r) (auto simp: sl_jpeek_def)
  ultimately show thesis by (rule that)
qed

lemma not_ws [simp]:
  "\<not> is_ws DQUOTE" "\<not> is_ws (CHR ''['')" "\<not> is_ws (CHR '']'')" "\<not> is_ws (CHR ''{'')" "\<not> is_ws (CHR ''}'')"
  "\<not> is_ws (CHR '','')" "\<not> is_ws (CHR '':'')" "\<not> is_ws (CHR ''-'')" "\<not> is_ws (CHR ''t'')"
  "\<not> is_ws (CHR ''f'')" "\<not> is_ws (CHR ''n'')"
  by (simp_all add: is_ws_def DQUOTE_def)

lemma digit_not_ws: "is_digit c \<Longrightarrow> \<not> is_ws c"
  by (auto simp: is_ws_def is_digit_def char_less_eq_code code_def)

section \<open>Strings\<close>

lemma sl_hexval_iff: "sl_hexval (Some c) = Some h \<longleftrightarrow> is_xdigit c \<and> h = hexdigit c"
  by (auto simp: sl_hexval_def hexdigit_def is_xdigit_def is_digit_def char_less_eq_code)

lemma hexdigit_less: "is_xdigit c \<Longrightarrow> hexdigit c < 16"
  by (auto simp: hexdigit_def is_xdigit_def is_digit_def char_less_eq_code)

lemma or_low: "h < 2 ^ n \<Longrightarrow> push_bit n v OR h = 2 ^ n * v + (h :: nat)"
proof -
  assume "h < 2 ^ n"
  then have h: "take_bit n h = h" by (rule take_bit_nat_eq_self)
  have "push_bit n v AND take_bit n h = 0" by (rule bit_eqI) (auto simp: bit_simps)
  then have "push_bit n v + h = push_bit n v OR h" using h by (simp add: disjunctive_add_eq_or)
  then show ?thesis by (simp add: push_bit_eq_mult mult.commute)
qed

lemma or_low':
  assumes "h < 2 ^ n" "b = 2 ^ n * c"
  shows "b OR h = b + (h :: nat)"
  using or_low [OF assms(1), of c] assms(2) by (simp add: push_bit_eq_mult mult.commute)

lemma and_63_nat: "n AND 0x3F = n mod (64 :: nat)"
  using take_bit_eq_mask [of 6 n] by (simp add: take_bit_eq_mod mask_eq_exp_minus_1)

lemma utf8_bytes_utf8: "cp < 2 ^ 21 \<Longrightarrow> utf8_bytes cp = utf8 cp"
proof -
  assume cp: "cp < 2 ^ 21"
  have low: "0x80 OR (n AND 0x3F) = 128 + n mod 64" for n :: nat
    by (simp add: and_63_nat or_low' [where n = 6 and c = 2])
  have "cp div 2 ^ 6 < 2 ^ 5" if "cp < 2 ^ 11" using that by simp
  then have b2: "0xC0 OR drop_bit 6 cp = 192 + cp div 2 ^ 6" if "cp < 2 ^ 11"
    using or_low' [where n = 5 and c = 6 and h = "cp div 2 ^ 6"] that by (simp add: drop_bit_eq_div)
  have "cp div 2 ^ 12 < 2 ^ 4" if "cp < 2 ^ 16" using that by simp
  then have b3: "0xE0 OR drop_bit 12 cp = 224 + cp div 2 ^ 12" if "cp < 2 ^ 16"
    using or_low' [where n = 4 and c = 14 and h = "cp div 2 ^ 12"] that by (simp add: drop_bit_eq_div)
  have "cp div 2 ^ 18 < 2 ^ 3" using cp by simp
  then have b4: "0xF0 OR drop_bit 18 cp = 240 + cp div 2 ^ 18"
    using or_low' [where n = 3 and c = 30 and h = "cp div 2 ^ 18"] by (simp add: drop_bit_eq_div)
  show ?thesis
    unfolding utf8_bytes_def utf8_def Let_def low using b2 b3 b4 by (simp add: drop_bit_eq_div)
qed

lemma ex_length_Suc: "(\<exists>h. P h \<and> length h = Suc i \<and> Q h) \<longleftrightarrow> (\<exists>d h. P (d # h) \<and> length (d # h) = Suc i \<and> Q (d # h))"
  by (metis length_Suc_conv)

lemma hex4_loop_iff:
  "hex4_loop n v p = Inr (r, p') \<longleftrightarrow>
     (\<exists>h. jtakes h p p' \<and> length h = n \<and> list_all is_xdigit h \<and> r = foldl (\<lambda>a c. 16 * a + hexdigit c) v h)"
proof (induction n v p rule: hex4_loop.induct)
  case (1 v p)
  then show ?case by auto
next
  case (2 i v p)
  obtain e q where q: "sl_jnext p = (e, q)" by fastforce
  show ?case
  proof (cases "\<exists>c. e = Some c \<and> is_xdigit c")
    case True
    then obtain c where c: "e = Some c" "is_xdigit c" "jtakes [c] p q" using q jnext_iff by auto
    have or: "push_bit 4 v OR hexdigit c = 16 * v + hexdigit c"
      using or_low [of "hexdigit c" 4 v] hexdigit_less [OF c(2)] by simp
    have h: "sl_hexval e = Some (hexdigit c)" using c by (simp add: sl_hexval_iff)
    have "hex4_loop (Suc i) v p = Inr (r, p') \<longleftrightarrow> hex4_loop i (16 * v + hexdigit c) q = Inr (r, p')"
      using h or by (simp add: q)
    also have "hex4_loop i (16 * v + hexdigit c) q = Inr (r, p') \<longleftrightarrow>
        (\<exists>h. jtakes h q p' \<and> length h = i \<and> list_all is_xdigit h \<and>
          r = foldl (\<lambda>a c. 16 * a + hexdigit c) (16 * v + hexdigit c) h)"
      using 2 [OF q [symmetric] refl h] or by simp
    also have "\<dots> \<longleftrightarrow> (\<exists>d h. jtakes (d # h) p p' \<and> length (d # h) = Suc i \<and> list_all is_xdigit (d # h) \<and>
          r = foldl (\<lambda>a c. 16 * a + hexdigit c) v (d # h))"
      unfolding jtakes_next q c(1) using c(2) by auto
    also have "\<dots> \<longleftrightarrow> (\<exists>h. jtakes h p p' \<and> length h = Suc i \<and> list_all is_xdigit h \<and>
          r = foldl (\<lambda>a c. 16 * a + hexdigit c) v h)"
      by (rule ex_length_Suc [symmetric])
    finally show ?thesis .
  next
    case False
    have "sl_hexval e = None"
    proof (cases e)
      case (Some c)
      with False show ?thesis using sl_hexval_iff [of c] by (cases "sl_hexval e") auto
    qed (simp add: sl_hexval_def)
    moreover have "\<not> (jtakes h p p' \<and> length h = Suc i \<and> list_all is_xdigit h)" for h
    proof (cases h)
      case (Cons d h')
      then show ?thesis using False unfolding Cons jtakes_next q by auto
    qed simp
    ultimately show ?thesis by (auto simp: q)
  qed
qed

lemma sl_jparse_hex4_iff: "sl_jparse_hex4 p = Inr (r, p') \<longleftrightarrow> (\<exists>h. jtakes h p p' \<and> hex_unit h r)"
  by (auto simp: sl_jparse_hex4_def hex4_loop_iff hex_unit_def)

lemma hex_unit_less: "hex_unit h n \<Longrightarrow> n < 2 ^ 16"
proof -
  assume n: "hex_unit h n"
  have "foldl (\<lambda>a c. 16 * a + hexdigit c) a h < (a + 1) * 16 ^ length h" if "list_all is_xdigit h" for a
    using that
  proof (induction h arbitrary: a)
    case (Cons c h)
    then have "foldl (\<lambda>a c. 16 * a + hexdigit c) (16 * a + hexdigit c) h < (16 * a + hexdigit c + 1) * 16 ^ length h" by simp
    also have "\<dots> \<le> (16 * (a + 1)) * 16 ^ length h" using hexdigit_less [of c] Cons.prems by (intro mult_right_mono) auto
    finally show ?case by (simp add: algebra_simps)
  qed simp
  from this [of 0] n show ?thesis by (simp add: hex_unit_def)
qed

text \<open>An escape of the grammar without its backslash, with the code point it stands for.\<close>

inductive jesc :: "string \<Rightarrow> nat \<Rightarrow> bool" where
  jesc_simple: "(e, cp) \<in> set simple_escapes \<Longrightarrow> jesc [e] cp"
| jesc_unit: "hex_unit h cp \<Longrightarrow> cp < 0xD800 \<or> 0xDFFF < cp \<Longrightarrow> jesc (CHR ''u'' # h) cp"
| jesc_pair: "hex_unit h hi \<Longrightarrow> hex_unit l lo \<Longrightarrow> 0xD800 \<le> hi \<Longrightarrow> hi \<le> 0xDBFF \<Longrightarrow>
    0xDC00 \<le> lo \<Longrightarrow> lo \<le> 0xDFFF \<Longrightarrow>
    jesc (CHR ''u'' # h @ BSLASH # CHR ''u'' # l) (0x10000 + (hi - 0xD800) * 2 ^ 10 + (lo - 0xDC00))"

lemma simple_escape_utf8: "(e, cp) \<in> set simple_escapes \<Longrightarrow> utf8 cp = [char_of cp]"
  by (auto simp: simple_escapes_def utf8_def)

lemma jesc_less: "jesc x cp \<Longrightarrow> cp < 2 ^ 21"
proof (induction rule: jesc.induct)
  case (jesc_unit h cp)
  then show ?case using hex_unit_less [of h cp] by simp
qed (auto simp: simple_escapes_def)

lemma jchars_esc: "jesc x cp \<Longrightarrow> jchars b v \<Longrightarrow> jchars (BSLASH # x @ b) (utf8 cp @ v)"
proof (induction rule: jesc.induct)
  case (jesc_simple e cp)
  then show ?case using jchars_simple [of e cp b v] simple_escape_utf8 by auto
next
  case (jesc_unit h cp)
  then show ?case using jchars_unit [of h cp b v] by auto
next
  case (jesc_pair h hi l lo)
  then show ?case using jchars_pair [of h hi l lo b v] by auto
qed

lemma map_of_simple: "map_of simple_escapes e = Some cp \<longleftrightarrow> (e, cp) \<in> set simple_escapes"
  by (rule map_of_eq_Some_iff) (simp add: simple_escapes_def DQUOTE_def BSLASH_def)

lemma not_simple_u: "map_of simple_escapes (CHR ''u'') = None"
  by (simp add: simple_escapes_def DQUOTE_def BSLASH_def)

lemma jescape_simple: "(e, cp) \<in> set simple_escapes \<Longrightarrow> jtakes [e] p p' \<Longrightarrow> jescape p = Inr (cp, p')"
  by (simp add: jescape_def jnext_iff [symmetric] map_of_simple [symmetric])

lemma jescape_unit:
  assumes "hex_unit h cp" "cp < 0xD800 \<or> 0xDFFF < cp" "jtakes (CHR ''u'' # h) p p'"
  shows "jescape p = Inr (cp, p')"
proof -
  obtain q where q: "sl_jnext p = (Some (CHR ''u''), q)" "jtakes h q p'"
    using assms(3) by (auto simp: jtakes_Cons [of _ h] jnext_iff)
  have "sl_jparse_hex4 q = Inr (cp, p')" using q assms by (auto simp: sl_jparse_hex4_iff)
  then show ?thesis using q assms(2) by (auto simp: jescape_def not_simple_u jescape_u_def)
qed

lemma jescape_pair:
  assumes "hex_unit h hi" "hex_unit l lo" "0xD800 \<le> hi" "hi \<le> 0xDBFF" "0xDC00 \<le> lo" "lo \<le> 0xDFFF"
    "jtakes (CHR ''u'' # h @ BSLASH # CHR ''u'' # l) p p'"
  shows "jescape p = Inr (0x10000 + (hi - 0xD800) * 2 ^ 10 + (lo - 0xDC00), p')"
proof -
  obtain q1 q2 q3 q4 where q: "jtakes ''u'' p q1" "jtakes h q1 q2" "jtakes [BSLASH] q2 q3" "jtakes ''u'' q3 q4" "jtakes l q4 p'"
    using assms(7) by (auto simp: jtakes_Cons [of "CHR ''u''" "h @ _"] jtakes_append jtakes_Cons [of BSLASH "_ # _"] jtakes_Cons [of "CHR ''u''" l])
  have n: "sl_jnext p = (Some (CHR ''u''), q1)" "sl_jnext q2 = (Some BSLASH, q3)" "sl_jnext q3 = (Some (CHR ''u''), q4)"
    using q by (simp_all add: jnext_iff)
  have "sl_jparse_hex4 q1 = Inr (hi, q2)" "sl_jparse_hex4 q4 = Inr (lo, p')"
    using q assms by (auto simp: sl_jparse_hex4_iff)
  then show ?thesis using n assms by (simp add: jescape_def not_simple_u jescape_u_def push_bit_eq_mult)
qed

lemma jescape_complete: "jesc x cp \<Longrightarrow> jtakes x p p' \<Longrightarrow> jescape p = Inr (cp, p')"
  by (induction rule: jesc.induct) (simp_all add: jescape_simple jescape_unit jescape_pair)

lemma jescape_u_sound:
  assumes "jescape_u p = Inr (cp, p')"
  shows "\<exists>x. jesc (CHR ''u'' # x) cp \<and> jtakes x p p'"
proof -
  obtain hi p1 where hi: "sl_jparse_hex4 p = Inr (hi, p1)"
    using assms by (auto simp: jescape_u_def split: sum.splits)
  then obtain h where h: "jtakes h p p1" "hex_unit h hi" by (auto simp: sl_jparse_hex4_iff)
  show ?thesis
  proof (cases "0xD800 \<le> hi \<and> hi \<le> 0xDBFF")
    case True
    obtain a p2 u p3 where n: "sl_jnext p1 = (a, p2)" "sl_jnext p2 = (u, p3)" by fastforce
    then obtain lo where lo: "a = Some BSLASH" "u = Some (CHR ''u'')" "sl_jparse_hex4 p3 = Inr (lo, p')"
      "0xDC00 \<le> lo" "lo \<le> 0xDFFF" "cp = 0x10000 + push_bit 10 (hi - 0xD800) + (lo - 0xDC00)"
      using assms hi True by (auto simp: jescape_u_def split: sum.splits if_splits)
    obtain l where l: "jtakes l p3 p'" "hex_unit l lo" using lo(3) by (auto simp: sl_jparse_hex4_iff)
    have "jesc (CHR ''u'' # h @ BSLASH # CHR ''u'' # l) cp"
      using jesc_pair [OF h(2) l(2)] True lo by (simp add: push_bit_eq_mult)
    moreover have "jtakes [BSLASH] p1 p2" "jtakes ''u'' p2 p3" using n lo jnext_iff by auto
    then have "jtakes (h @ [BSLASH] @ ''u'' @ l) p p'" using h(1) l(1) by (meson jtakes_trans)
    ultimately show ?thesis by auto
  next
    case False
    then have "cp = hi" "p' = p1" "hi < 0xD800 \<or> 0xDFFF < hi"
      using assms hi by (auto simp: jescape_u_def split: if_splits)
    then show ?thesis using jesc_unit [OF h(2)] h by auto
  qed
qed

lemma jescape_sound:
  assumes "jescape p = Inr (cp, p')"
  shows "\<exists>x. jesc x cp \<and> jtakes x p p'"
proof -
  obtain e p1 where n: "sl_jnext p = (e, p1)" by fastforce
  then obtain c where e: "e = Some c" using assms by (cases e) (auto simp: jescape_def)
  then have p1: "jtakes [c] p p1" using n jnext_iff by auto
  show ?thesis
  proof (cases "map_of simple_escapes c")
    case None
    then have c: "c = CHR ''u''" "jescape_u p1 = Inr (cp, p')"
      using assms n e by (auto simp: jescape_def split: if_splits)
    then obtain x where "jesc (CHR ''u'' # x) cp" "jtakes x p1 p'" using jescape_u_sound by blast
    then show ?thesis using p1 c(1) jtakes_Cons [of "CHR ''u''" x] by blast
  next
    case (Some cp')
    then have "cp' = cp" "p' = p1" using assms n e by (auto simp: jescape_def)
    then show ?thesis using Some p1 jesc_simple [of c cp] by (auto simp: map_of_simple)
  qed
qed

lemma jbuf_text [simp]:
  "jb_text (sl_utf8_append b cp) = jb_text b @ utf8_bytes cp" "jb_text (sl_jbuf_byte b c) = jb_text b @ [c]"
  by (simp_all add: sl_utf8_append_def sl_jbuf_byte_def jbuf_room_def Let_def)

lemma string_loop_sound:
  "string_loop p b = Inr (r, p') \<Longrightarrow> \<exists>x v. jchars x v \<and> jtakes (x @ [DQUOTE]) p p' \<and> jb_text r = jb_text b @ v"
proof (induction p b rule: string_loop.induct)
  case (1 p b)
  obtain e q where q: "sl_jnext p = (e, q)" by fastforce
  then obtain c where e: "e = Some c" using 1(3) by (cases e) (auto simp: string_loop.simps [of p])
  then have c: "jtakes [c] p q" using q by (simp add: jnext_iff)
  consider (quote) "c = DQUOTE" "r = b" "p' = q"
    | (esc) cp q' where "c = BSLASH" "c \<noteq> DQUOTE" "jescape q = Inr (cp, q')" "string_loop q' (sl_utf8_append b cp) = Inr (r, p')"
    | (plain) "plain_char c" "string_loop q (sl_jbuf_byte b c) = Inr (r, p')"
    using 1(3) q e by (auto simp: string_loop.simps [of p] plain_char_def split: if_splits sum.splits)
  then show ?case
  proof cases
    case quote
    then show ?thesis using c jchars_Nil by auto
  next
    case esc
    then obtain x v where x: "jchars x v" "jtakes (x @ [DQUOTE]) q' p'" "jb_text r = jb_text b @ utf8_bytes cp @ v"
      using "1.IH"(1) [OF q [symmetric] e esc(2,1), of "(cp, q')" cp q'] by auto
    obtain y where y: "jesc y cp" "jtakes y q q'" using jescape_sound [OF esc(3)] by blast
    have "jtakes ([c] @ y @ x @ [DQUOTE]) p p'" using c y(2) x(2) by (meson jtakes_trans)
    then show ?thesis using jchars_esc [OF y(1) x(1)] x(3) utf8_bytes_utf8 [OF jesc_less [OF y(1)]] esc(1)
      by (intro exI [of _ "BSLASH # y @ x"] exI [of _ "utf8 cp @ v"]) simp
  next
    case plain
    then have "c \<noteq> DQUOTE" "c \<noteq> BSLASH" "\<not> code c < 32" by (auto simp: plain_char_def)
    then obtain x v where x: "jchars x v" "jtakes (x @ [DQUOTE]) q p'" "jb_text r = jb_text b @ c # v"
      using "1.IH"(2) [OF q [symmetric] e] plain(2) by auto
    have "jtakes ([c] @ x @ [DQUOTE]) p p'" using c x(2) by (meson jtakes_trans)
    then show ?thesis using jchars_plain [OF plain(1) x(1)] x(3)
      by (intro exI [of _ "c # x"] exI [of _ "c # v"]) simp
  qed
qed

lemma string_loop_esc:
  "jesc x cp \<Longrightarrow> jtakes (BSLASH # x) p q \<Longrightarrow> string_loop p b = string_loop q (sl_utf8_append b cp)"
proof -
  assume x: "jesc x cp" and "jtakes (BSLASH # x) p q"
  then obtain p1 where p1: "sl_jnext p = (Some BSLASH, p1)" "jtakes x p1 q" by (auto simp: jtakes_next)
  then show ?thesis using jescape_complete [OF x p1(2)] by (simp add: string_loop.simps [of p] BSLASH_def DQUOTE_def)
qed

lemma string_loop_complete:
  "jchars x v \<Longrightarrow> jtakes (x @ [DQUOTE]) p p' \<Longrightarrow> \<exists>r. string_loop p b = Inr (r, p') \<and> jb_text r = jb_text b @ v"
proof (induction arbitrary: p b rule: jchars.induct)
  case jchars_Nil
  then show ?case by (simp add: string_loop.simps [of p] jnext_iff [symmetric])
next
  case (jchars_plain c x v)
  then obtain q where q: "sl_jnext p = (Some c, q)" "jtakes (x @ [DQUOTE]) q p'" by (auto simp: jtakes_next [of c])
  have "string_loop p b = string_loop q (sl_jbuf_byte b c)"
    using q(1) jchars_plain.hyps(1) by (simp add: string_loop.simps [of p] plain_char_def)
  then show ?case using jchars_plain.IH [OF q(2), of "sl_jbuf_byte b c"] by simp
next
  case (jchars_simple e cp x v)
  then obtain q where q: "jtakes (BSLASH # [e]) p q" "jtakes (x @ [DQUOTE]) q p'"
    using jtakes_append [of "BSLASH # [e]" "x @ [DQUOTE]"] by auto
  have cp: "utf8_bytes cp = [char_of cp]"
    using jchars_simple.hyps(1) utf8_bytes_utf8 [OF jesc_less] jesc_simple simple_escape_utf8 by metis
  show ?case using string_loop_esc [OF jesc_simple [OF jchars_simple.hyps(1)] q(1), of b]
      jchars_simple.IH [OF q(2), of "sl_utf8_append b cp"] cp by simp
next
  case (jchars_unit h cp x v)
  then obtain q where q: "jtakes (BSLASH # CHR ''u'' # h) p q" "jtakes (x @ [DQUOTE]) q p'"
    using jtakes_append [of "BSLASH # CHR ''u'' # h" "x @ [DQUOTE]"] by auto
  have j: "jesc (CHR ''u'' # h) cp" using jchars_unit.hyps jesc_unit by blast
  show ?case using string_loop_esc [OF j q(1), of b]
      jchars_unit.IH [OF q(2), of "sl_utf8_append b cp"] utf8_bytes_utf8 [OF jesc_less [OF j]] by simp
next
  case (jchars_pair h hi l lo x v)
  then obtain q where q: "jtakes (BSLASH # CHR ''u'' # h @ BSLASH # CHR ''u'' # l) p q" "jtakes (x @ [DQUOTE]) q p'"
    using jtakes_append [of "BSLASH # CHR ''u'' # h @ BSLASH # CHR ''u'' # l" "x @ [DQUOTE]"] by auto
  have j: "jesc (CHR ''u'' # h @ BSLASH # CHR ''u'' # l) (0x10000 + (hi - 0xD800) * 2 ^ 10 + (lo - 0xDC00))"
    using jchars_pair.hyps jesc_pair by blast
  show ?case using string_loop_esc [OF j q(1), of b]
      jchars_pair.IH [OF q(2), of "sl_utf8_append b (0x10000 + (hi - 0xD800) * 2 ^ 10 + (lo - 0xDC00))"] utf8_bytes_utf8 [OF jesc_less [OF j]] by simp
qed

lemma jchars_all_plain: "list_all plain_char x \<Longrightarrow> jchars x x"
  by (induction x) (auto intro: jchars.intros)

lemma jchars_fast:
  "jchars x v \<Longrightarrow> takeWhile plain_char (x @ DQUOTE # r) = run \<Longrightarrow> (x @ DQUOTE # r) ! length run = DQUOTE \<Longrightarrow>
    run = x \<and> v = x"
proof (induction arbitrary: run rule: jchars.induct)
  case jchars_Nil
  then show ?case by (simp add: plain_char_def)
next
  case (jchars_plain c b v)
  then show ?case by auto
qed (auto simp: plain_char_def BSLASH_def DQUOTE_def)

lemma sl_jparse_string_raw_iff:
  "sl_jparse_string_raw p = Inr (v, p') \<longleftrightarrow> (\<exists>x. jchars x v \<and> jtakes (x @ [DQUOTE]) p p')"
proof
  assume a: "sl_jparse_string_raw p = Inr (v, p')"
  let ?run = "takeWhile plain_char (jp_rest p)"
  show "\<exists>x. jchars x v \<and> jtakes (x @ [DQUOTE]) p p'"
  proof (cases "length ?run < length (jp_rest p) \<and> jp_rest p ! length ?run = DQUOTE")
    case True
    then have v: "v = ?run" "p' = jadv (length ?run + 1) p" using a by (auto simp: sl_jparse_string_raw_def Let_def)
    have "take (length ?run + 1) (jp_rest p) = ?run @ [DQUOTE]"
      using True by (simp add: take_Suc_conv_app_nth takeWhile_eq_take [symmetric])
    then have "jtakes (?run @ [DQUOTE]) p p'" using v by (simp add: jtakes_def)
    moreover have "list_all plain_char ?run" by (auto simp: list_all_iff dest: set_takeWhileD)
    ultimately show ?thesis using v jchars_all_plain by blast
  next
    case False
    then obtain b where b: "string_loop p \<lparr>jb_text = [], jb_cap = 0\<rparr> = Inr (b, p')" "v = jb_text b"
      using a by (auto simp: sl_jparse_string_raw_def Let_def split: sum.splits if_splits)
    then show ?thesis using string_loop_sound [OF b(1)] by auto
  qed
next
  assume "\<exists>x. jchars x v \<and> jtakes (x @ [DQUOTE]) p p'"
  then obtain x where x: "jchars x v" "jtakes (x @ [DQUOTE]) p p'" by blast
  obtain r where r: "jp_rest p = (x @ [DQUOTE]) @ r" "p' = jadv (length (x @ [DQUOTE])) p" using x(2) by (rule jtakesE)
  show "sl_jparse_string_raw p = Inr (v, p')"
    using string_loop_complete [OF x, of "\<lparr>jb_text = [], jb_cap = 0\<rparr>"] jchars_fast [OF x(1), of r] r
    by (auto simp: sl_jparse_string_raw_def Let_def)
qed

section \<open>Numbers and literals\<close>

lemma digit_next_iff: "digit_next p \<longleftrightarrow> (\<exists>c. sl_jpeek p = Some c \<and> is_digit c)"
  by (simp add: digit_next_def split: option.splits)

lemma jdigits_sound:
  "\<exists>ds. jtakes ds p (jdigits p) \<and> list_all is_digit ds \<and> (digit_next p \<longrightarrow> digits ds)"
proof -
  let ?ds = "takeWhile is_digit (jp_rest p)"
  have "jtakes ?ds p (jdigits p)" using jtakesI [of p ?ds "dropWhile is_digit (jp_rest p)"] by (simp add: jdigits_def)
  moreover have "list_all is_digit ?ds" by (auto simp: list_all_iff dest: set_takeWhileD)
  moreover have "digit_next p \<longrightarrow> ?ds \<noteq> []" by (cases "jp_rest p") (auto simp: digit_next_def sl_jpeek_def)
  ultimately show ?thesis by (auto simp: digits_def)
qed

lemma jdigits_complete: "jtakes ds p q \<Longrightarrow> list_all is_digit ds \<Longrightarrow> \<not> digit_next q \<Longrightarrow> jdigits p = q"
proof -
  assume a: "jtakes ds p q" "list_all is_digit ds" "\<not> digit_next q"
  obtain r where r: "jp_rest p = ds @ r" "jp_rest q = r" "q = jadv (length ds) p" using a(1) by (rule jtakesE)
  have "takeWhile is_digit r = []" using a(3) r(2) by (cases r) (auto simp: digit_next_def sl_jpeek_def)
  then show ?thesis using a(2) r by (simp add: jdigits_def list_all_iff takeWhile_append2)
qed

lemma jpeek_hd: "jtakes (c # x) p q \<Longrightarrow> sl_jpeek p = Some c"
  using jtakes_Cons jpeek_takes by blast

lemma digits_next: "digits ds \<Longrightarrow> jtakes ds p q \<Longrightarrow> digit_next p"
  by (cases ds) (auto simp: digits_def digit_next_iff dest: jpeek_hd)

lemma takes_peek: "sl_jpeek p = Some c \<Longrightarrow> jtakes [c] p (jadv 1 p)"
  by (simp add: jpeek_iff)

definition num_end :: "sl_jparser \<Rightarrow> bool" where
  "num_end p \<longleftrightarrow> \<not> digit_next p \<and> sl_jpeek p \<notin> {Some (CHR ''.''), Some (CHR ''e''), Some (CHR ''E'')}"

lemma jnum_int_sound:
  assumes "jnum_int p = Inr q"
  shows "\<exists>sg i. sg \<in> {[], ''-''} \<and> jint i \<and> jtakes (sg @ i) p q"
proof -
  let ?p = "if sl_jpeek p = Some (CHR ''-'') then jadv 1 p else p"
  have "jtakes (if sl_jpeek p = Some (CHR ''-'') then ''-'' else []) p ?p" by (simp add: takes_peek del: One_nat_def)
  moreover have "(if sl_jpeek p = Some (CHR ''-'') then ''-'' else []) \<in> {[], ''-''}" by simp
  ultimately obtain sg where sg: "sg \<in> {[], ''-''}" "jtakes sg p ?p" by blast
  have "\<exists>i. jint i \<and> jtakes i ?p q"
  proof (cases "sl_jpeek ?p = Some (CHR ''0'')")
    case True
    then have "q = jadv 1 ?p" using assms by (simp add: jnum_int_def Let_def)
    then show ?thesis using takes_peek [OF True] by (auto simp: jint_def)
  next
    case False
    then have q: "q = jdigits ?p" "digit_next ?p"
      using assms by (simp_all add: jnum_int_def Let_def split: if_splits)
    then obtain ds where ds: "jtakes ds ?p q" "digits ds" using jdigits_sound [of ?p] by auto
    then have "hd ds \<noteq> CHR ''0''" using False jpeek_hd [of "hd ds" "tl ds" ?p q] by (auto simp: digits_def)
    then show ?thesis using ds by (auto simp: jint_def)
  qed
  then obtain i where "jint i" "jtakes i ?p q" by blast
  then show ?thesis using sg(1) jtakes_trans [OF sg(2)] by blast
qed

lemma jnum_int_complete:
  assumes "sg \<in> {[], ''-''}" "jint i" "jtakes (sg @ i) p q" "i = ''0'' \<or> \<not> digit_next q"
  shows "jnum_int p = Inr q"
proof -
  let ?p = "if sl_jpeek p = Some (CHR ''-'') then jadv 1 p else p"
  obtain p1 where p1: "jtakes sg p p1" "jtakes i p1 q" using assms(3) by (auto simp: jtakes_append)
  obtain c i' where i: "i = c # i'" "is_digit c"
    using assms(2) by (cases i) (auto simp: jint_def digits_def is_digit_def)
  then have pk: "sl_jpeek p1 = Some c" using p1(2) jpeek_hd by blast
  have p: "?p = p1"
  proof (cases "sg = []")
    case True
    then show ?thesis using p1(1) pk i(2) by (auto simp: is_digit_def)
  next
    case False
    then show ?thesis using p1(1) assms(1) jpeek_takes jtakes_fun takes_peek by (metis (full_types) insertE singletonD)
  qed
  show ?thesis
  proof (cases "c = CHR ''0''")
    case True
    then have "i' = []" using assms(2) i by (auto simp: jint_def)
    then have "q = jadv 1 p1" using p1(2) i by (simp add: jtakes_def)
    then show ?thesis using True pk p by (simp add: jnum_int_def Let_def)
  next
    case False
    then have d: "digits i" "\<not> digit_next q" using assms(2,4) i by (auto simp: jint_def)
    then have "jdigits p1 = q" using jdigits_complete [OF p1(2)] by (simp add: digits_def)
    then show ?thesis using False pk p digits_next [OF d(1) p1(2)] unfolding jnum_int_def Let_def p by simp
  qed
qed

lemma jnum_frac_sound: "jnum_frac p = Inr q \<Longrightarrow> \<exists>f. jfrac f \<and> jtakes f p q"
proof (cases "sl_jpeek p = Some (CHR ''.'')")
  case True
  assume a: "jnum_frac p = Inr q"
  then have q: "q = jdigits (jadv 1 p)" "digit_next (jadv 1 p)" using True by (simp_all add: jnum_frac_def Let_def split: if_splits)
  then obtain ds where "jtakes ds (jadv 1 p) q" "digits ds" using jdigits_sound [of "jadv 1 p"] by auto
  then show ?thesis using takes_peek [OF True] jtakes_Cons [of "CHR ''.''" ds] by (auto simp: jfrac_def)
next
  case False
  assume "jnum_frac p = Inr q"
  then show ?thesis using False by (auto simp: jnum_frac_def jfrac_def)
qed

lemma jnum_frac_complete: "jfrac f \<Longrightarrow> jtakes f p q \<Longrightarrow> \<not> digit_next q \<Longrightarrow>
    (f = [] \<Longrightarrow> sl_jpeek q \<noteq> Some (CHR ''.'')) \<Longrightarrow> jnum_frac p = Inr q"
proof (cases "f = []")
  case False
  assume a: "jfrac f" "jtakes f p q" "\<not> digit_next q"
  then obtain ds where ds: "f = CHR ''.'' # ds" "digits ds" using False by (auto simp: jfrac_def)
  obtain p1 where p1: "jtakes ''.'' p p1" "jtakes ds p1 q" using a(2) ds(1) jtakes_Cons [of "CHR ''.''" ds] by auto
  then have "p1 = jadv 1 p" "sl_jpeek p = Some (CHR ''.'')" using jpeek_takes by (auto simp: jtakes_def)
  then show ?thesis using p1(2) ds(2) a(3) digits_next [OF ds(2) p1(2)] jdigits_complete [OF p1(2)]
    by (simp add: jnum_frac_def digits_def)
qed (auto simp: jnum_frac_def)

lemma jnum_exp_sound: "jnum_exp p = Inr q \<Longrightarrow> \<exists>e. jexp e \<and> jtakes e p q"
proof (cases "sl_jpeek p \<in> {Some (CHR ''e''), Some (CHR ''E'')}")
  case True
  assume a: "jnum_exp p = Inr q"
  obtain e where e: "sl_jpeek p = Some e" "e \<in> {CHR ''e'', CHR ''E''}" using True by auto
  let ?p = "jadv 1 p"
  let ?p' = "if sl_jpeek ?p = Some (CHR ''+'') \<or> sl_jpeek ?p = Some (CHR ''-'') then jadv 1 ?p else ?p"
  have "jtakes (if sl_jpeek ?p = Some (CHR ''+'') then ''+'' else if sl_jpeek ?p = Some (CHR ''-'') then ''-'' else []) ?p ?p'"
    by (simp add: takes_peek del: jadv_jadv One_nat_def)
  moreover have "(if sl_jpeek ?p = Some (CHR ''+'') then ''+'' else if sl_jpeek ?p = Some (CHR ''-'') then ''-'' else []) \<in> {[], ''+'', ''-''}" by simp
  ultimately obtain sg where sg: "sg \<in> {[], ''+'', ''-''}" "jtakes sg ?p ?p'" by blast
  have q: "q = jdigits ?p'" "digit_next ?p'" using a True by (auto simp: jnum_exp_def Let_def split: if_splits)
  then obtain ds where ds: "jtakes ds ?p' q" "digits ds" using jdigits_sound [of ?p'] by auto
  have "jtakes ([e] @ sg @ ds) p q" using takes_peek [OF e(1)] sg(2) ds(1) by (meson jtakes_trans)
  moreover have "jexp ([e] @ sg @ ds)" unfolding jexp_def using e(2) sg(1) ds(2) by auto
  ultimately show ?thesis by blast
next
  case False
  assume "jnum_exp p = Inr q"
  then show ?thesis using False by (auto simp: jnum_exp_def jexp_def)
qed

lemma jnum_exp_complete: "jexp e \<Longrightarrow> jtakes e p q \<Longrightarrow> \<not> digit_next q \<Longrightarrow>
    (e = [] \<Longrightarrow> sl_jpeek q \<notin> {Some (CHR ''e''), Some (CHR ''E'')}) \<Longrightarrow> jnum_exp p = Inr q"
proof (cases "e = []")
  case False
  assume a: "jexp e" "jtakes e p q" "\<not> digit_next q"
  then obtain c sg ds where c: "e = [c] @ sg @ ds" "c \<in> {CHR ''e'', CHR ''E''}" "sg \<in> {[], ''+'', ''-''}" "digits ds"
    using False by (auto simp: jexp_def)
  obtain p1 p2 where p: "jtakes [c] p p1" "jtakes sg p1 p2" "jtakes ds p2 q" using a(2) c(1) by (auto simp: jtakes_append jtakes_Cons [of c "_ @ _"])
  have p1: "p1 = jadv 1 p" "sl_jpeek p = Some c" using p(1) jpeek_takes by (auto simp: jtakes_def)
  have d: "digit_next p2" using digits_next [OF c(4) p(3)] .
  have "(if sl_jpeek p1 = Some (CHR ''+'') \<or> sl_jpeek p1 = Some (CHR ''-'') then jadv 1 p1 else p1) = p2"
  proof (cases "sg = []")
    case True
    then show ?thesis using p(2) d by (auto simp: digit_next_iff is_digit_def)
  next
    case False
    then obtain s where "sg = [s]" "s \<in> {CHR ''+'', CHR ''-''}" using c(3) by auto
    then show ?thesis using p(2) jpeek_takes [of s p1 p2] by (auto simp: jtakes_def)
  qed
  then show ?thesis using p1 c(2) d jdigits_complete [OF p(3)] c(4) a(3) by (auto simp: jnum_exp_def digits_def Let_def)
qed (auto simp: jnum_exp_def)

lemma jtakes_pos: "jtakes x p q \<Longrightarrow> take (jp_pos q - jp_pos p) (jp_rest p) = x"
  by (simp add: jtakes_def)

lemma sl_jparse_number_sound:
  assumes "sl_jparse_number p = Inr (t, q)"
  shows "jnum t \<and> jtakes t p q"
proof -
  obtain p1 p2 where p: "jnum_int p = Inr p1" "jnum_frac p1 = Inr p2" "jnum_exp p2 = Inr q"
      "t = take (jp_pos q - jp_pos p) (jp_rest p)"
    using assms by (auto simp: sl_jparse_number_def split: sum.splits)
  obtain sg i f e where x: "sg \<in> {[], ''-''}" "jint i" "jtakes (sg @ i) p p1" "jfrac f" "jtakes f p1 p2" "jexp e" "jtakes e p2 q"
    using jnum_int_sound [OF p(1)] jnum_frac_sound [OF p(2)] jnum_exp_sound [OF p(3)] by blast
  have "jtakes ((sg @ i) @ f @ e) p q" using x by (meson jtakes_trans)
  then have "jtakes (sg @ i @ f @ e) p q" by simp
  moreover from this have "t = sg @ i @ f @ e" using p(4) jtakes_pos by metis
  ultimately show ?thesis using x unfolding jnum_def by blast
qed

lemma sl_jparse_number_complete:
  assumes "jnum t" "jtakes t p q" "num_end q"
  shows "sl_jparse_number p = Inr (t, q)"
proof -
  obtain sg i f e where x: "t = (sg @ i) @ f @ e" "sg \<in> {[], ''-''}" "jint i" "jfrac f" "jexp e"
    using assms(1) by (auto simp: jnum_def)
  obtain p1 p2 where p: "jtakes (sg @ i) p p1" "jtakes f p1 p2" "jtakes e p2 q" using assms(2) x(1) by (auto simp: jtakes_append)
  have end_q: "\<not> digit_next q" "sl_jpeek q \<notin> {Some (CHR ''.''), Some (CHR ''e''), Some (CHR ''E'')}"
    using assms(3) by (auto simp: num_end_def)
  have e: "jnum_exp p2 = Inr q" using jnum_exp_complete [OF x(5) p(3)] end_q by simp
  have p2: "\<not> digit_next p2" "sl_jpeek p2 \<noteq> Some (CHR ''.'')"
  proof -
    have "sl_jpeek p2 \<in> {Some (CHR ''e''), Some (CHR ''E'')} \<or> p2 = q"
      using x(5) p(3) by (auto simp: jexp_def dest: jpeek_hd)
    then show "\<not> digit_next p2" "sl_jpeek p2 \<noteq> Some (CHR ''.'')" using end_q by (auto simp: digit_next_iff is_digit_def)
  qed
  have f: "jnum_frac p1 = Inr p2" using jnum_frac_complete [OF x(4) p(2) p2(1)] p2(2) by simp
  have "sl_jpeek p1 = Some (CHR ''.'') \<or> p1 = p2" using x(4) p(2) by (auto simp: jfrac_def dest: jpeek_hd)
  then have "\<not> digit_next p1" using p2 by (auto simp: digit_next_iff is_digit_def)
  then have "jnum_int p = Inr p1" using jnum_int_complete [OF x(2,3) p(1)] by simp
  then show ?thesis using e f jtakes_pos [OF assms(2)] by (simp add: sl_jparse_number_def)
qed

lemma sl_jmatch_lit_iff: "sl_jmatch_lit p lit = Some q \<longleftrightarrow> jtakes lit p q"
  by (auto simp: sl_jmatch_lit_def jtakes_def)

end
