(* ===== verification/Sl_Json_Tree.thy ===== *)
theory Sl_Json_Tree
  imports Sl_Json_Text
begin

text \<open>
  The tree parser against the grammar: what the loop of \<open>sl_jparse_value\<close> does on the text of a
  value, that it accepts nothing else, and that the tree in its store is the value of the text.
\<close>

section \<open>Trees in the store\<close>

text \<open>
  The tree \<open>t\<close> is at address \<open>a\<close>, and its nodes are those from \<open>a\<close> up to \<open>b\<close>; likewise for
  the trees of a list of addresses.
\<close>

inductive jrep :: "jstore \<Rightarrow> nat \<Rightarrow> nat \<Rightarrow> json \<Rightarrow> bool"
  and jreps :: "jstore \<Rightarrow> nat \<Rightarrow> nat \<Rightarrow> nat list \<Rightarrow> json list \<Rightarrow> bool"
  for st :: jstore where
  rep_null: "a < length st \<Longrightarrow> st ! a = SL_JV_NULL \<Longrightarrow> jrep st a (Suc a) JNull"
| rep_bool: "a < length st \<Longrightarrow> st ! a = SL_JV_BOOL b \<Longrightarrow> jrep st a (Suc a) (JBool b)"
| rep_num: "a < length st \<Longrightarrow> st ! a = SL_JV_NUM (jnum_double s) s \<Longrightarrow> jrep st a (Suc a) (JNum s)"
| rep_str: "a < length st \<Longrightarrow> st ! a = SL_JV_STR s \<Longrightarrow> jrep st a (Suc a) (JStr s)"
| rep_arr: "a < length st \<Longrightarrow> st ! a = SL_JV_ARR as \<Longrightarrow> jreps st (Suc a) b as ts \<Longrightarrow> jrep st a b (JArr ts)"
| rep_obj: "a < length st \<Longrightarrow> st ! a = SL_JV_OBJ (zip (map fst ms) (map Some as)) \<Longrightarrow>
    jreps st (Suc a) b as (map snd ms) \<Longrightarrow> jrep st a b (JObj ms)"
| reps_Nil: "jreps st a a [] []"
| reps_Cons: "jrep st a b t \<Longrightarrow> jreps st b c as ts \<Longrightarrow> jreps st a c (a # as) (t # ts)"

lemma jrep_less:
  "jrep st a b t \<Longrightarrow> a < b \<and> b \<le> length st"
  "jreps st a b as ts \<Longrightarrow> a \<le> b \<and> length as = length ts \<and> (a \<le> length st \<longrightarrow> b \<le> length st)"
  by (induction rule: jrep_jreps.inducts) auto

lemma jrep_agree:
  "jrep st a b t \<Longrightarrow> (\<And>i. a \<le> i \<Longrightarrow> i < b \<Longrightarrow> i < length st' \<and> st' ! i = st ! i) \<Longrightarrow> jrep st' a b t"
  "jreps st a b as ts \<Longrightarrow> (\<And>i. a \<le> i \<Longrightarrow> i < b \<Longrightarrow> i < length st' \<and> st' ! i = st ! i) \<Longrightarrow> jreps st' a b as ts"
proof (induction rule: jrep_jreps.inducts)
  case (rep_arr a as b ts)
  then show ?case using jrep_less(2) [OF rep_arr(3)] by (auto intro!: jrep_jreps.rep_arr)
next
  case (rep_obj a ms as b)
  then show ?case using jrep_less(2) [OF rep_obj(3)] by (auto intro!: jrep_jreps.rep_obj)
next
  case (reps_Cons a b t c as ts)
  then show ?case using jrep_less(1) [OF reps_Cons(1)] jrep_less(2) [OF reps_Cons(3)]
    by (auto intro!: jrep_jreps.reps_Cons)
qed (auto intro!: jrep_jreps.intros)

inductive_cases jreps_NilE: "jreps st a b [] ts"
inductive_cases jreps_ConsE: "jreps st a b (x # as) ts"

lemma jreps_snoc: "jreps st a b as ts \<Longrightarrow> jrep st b c t \<Longrightarrow> jreps st a c (as @ [b]) (ts @ [t])"
proof (induction as arbitrary: a ts)
  case Nil
  then show ?case using reps_Cons [OF Nil(2) reps_Nil] by (auto elim!: jreps_NilE)
next
  case (Cons x as)
  obtain d u us where "x = a" "ts = u # us" "jrep st a d u" "jreps st d b as us"
    using Cons.prems(1) by (auto elim: jreps_ConsE)
  then show ?case using reps_Cons [OF \<open>jrep st a d u\<close> Cons.IH [OF _ Cons.prems(2)]] by simp
qed

section \<open>Steps of the loop\<close>

definition top_ok :: "jstate \<Rightarrow> bool" where
  "top_ok s \<longleftrightarrow> (case js_frames s of [] \<Rightarrow> True | f # _ \<Rightarrow> jf_v f < length (js_store s))"

lemma sl_jreserve_v [simp]: "jf_v (sl_jreserve st f) = jf_v f"
  by (simp add: sl_jreserve_def)

lemma sl_jreserve_app: "jf_v f < length st \<Longrightarrow> sl_jreserve (st @ st') f = sl_jreserve st f"
  by (simp add: sl_jreserve_def nth_append)

lemma sl_jplace_app:
  assumes "jf_v f < length st"
  shows "sl_jplace (st @ st') f a = (fst (sl_jplace st f a) @ st', snd (sl_jplace st f a))"
  using assms by (auto simp: sl_jplace_def nth_append list_update_append1 sl_jreserve_app Let_def split: sl_json_val.splits)

lemma jlink_app:
  assumes "top_ok s"
  shows "jlink (s\<lparr>js_p := p, js_store := js_store s @ st'\<rparr>) a =
    (jlink s a)\<lparr>js_store := js_store (jlink s a) @ st', js_p := p\<rparr>"
  using assms by (auto simp: jlink_def top_ok_def sl_jplace_app split: list.splits prod.splits)

lemma jlink_length [simp]: "length (js_store (jlink s a)) = length (js_store s)"
  by (auto simp: jlink_def sl_jplace_def Let_def split: list.splits prod.splits sl_json_val.splits)

text \<open>The state after a value that was read as the nodes \<open>new\<close>.\<close>

definition jdone :: "jstate \<Rightarrow> sl_jparser \<Rightarrow> jstore \<Rightarrow> jstate" where
  "jdone s p new = (jlink s (length (js_store s)))\<lparr>js_store := js_store (jlink s (length (js_store s))) @ new, js_p := p\<rparr>"

lemma jloop_scalar:
  assumes "jread (sl_jskip_ws (js_p s)) = Inr (v, p)" "\<not> is_container v" "top_ok s"
  shows "jloop J_VALUE s = jloop J_AFTER (jdone s p [v])"
  using assms by (subst jloop.simps) (simp add: jvalue_step_def sl_jv_new_def jdone_def jlink_app)

definition jopened :: "jstate \<Rightarrow> sl_jparser \<Rightarrow> sl_json_val \<Rightarrow> jstate" where
  "jopened s p v =
     (jdone s p [v])\<lparr>js_frames := \<lparr>jf_v = length (js_store s), jf_cap = 0\<rparr> # js_frames (jdone s p [v]), js_p := p\<rparr>"

lemma jloop_open:
  assumes "jread (sl_jskip_ws (js_p s)) = Inr (v, p)" "is_container v" "top_ok s"
    "sl_jpeek (sl_jskip_ws p) \<noteq> Some (jclose (is_obj v))"
  shows "jloop J_VALUE s = jloop (if is_obj v then J_KEY else J_VALUE) (jopened s (sl_jskip_ws p) v)"
  using assms
  by (subst jloop.simps) (simp add: jvalue_step_def sl_jv_new_def jdone_def jopened_def jlink_app Let_def)

lemma jloop_empty:
  assumes "jread (sl_jskip_ws (js_p s)) = Inr (v, p)" "is_container v" "top_ok s"
    "jtakes [jclose (is_obj v)] (sl_jskip_ws p) q"
  shows "jloop J_VALUE s = jloop J_AFTER (jdone s (q\<lparr>jp_depth := jp_depth q - 1\<rparr>) [v])"
proof -
  have "sl_jpeek (sl_jskip_ws p) = Some (jclose (is_obj v))" "q = jadv 1 (sl_jskip_ws p)"
    using assms(4) jpeek_takes by (auto simp: jtakes_def)
  then show ?thesis using assms(1-3)
    by (subst jloop.simps) (simp add: jvalue_step_def sl_jv_new_def jdone_def jpop_def jlink_app Let_def)
qed

lemma jloop_comma:
  assumes "js_frames s = f # fs" "ws w" "jtakes w (js_p s) q" "jtakes '','' q q'"
  shows "jloop J_AFTER s = jloop (if is_obj (js_store s ! jf_v f) then J_KEY else J_VALUE) (s\<lparr>js_p := q'\<rparr>)"
proof -
  have "sl_jskip_ws (js_p s) = q" using assms(2,3) by (rule skip_ws_takes) (simp add: jpeek_takes [OF assms(4)])
  moreover have "sl_jnext q = (Some (CHR '',''), q')" using assms(4) by (simp add: jnext_iff)
  ultimately show ?thesis using assms(1) by (subst jloop.simps) (simp add: jafter_step_def)
qed

lemma jloop_close:
  assumes "js_frames s = f # fs" "ws w" "jtakes w (js_p s) q" "jtakes [jclose (is_obj (js_store s ! jf_v f))] q q'"
  shows "jloop J_AFTER s = jloop J_AFTER (s\<lparr>js_p := q'\<lparr>jp_depth := jp_depth q' - 1\<rparr>, js_frames := fs\<rparr>)"
proof -
  have "sl_jskip_ws (js_p s) = q"
    using assms(2,3) by (rule skip_ws_takes) (simp add: jpeek_takes [OF assms(4)] jclose_def)
  moreover have "sl_jnext q = (Some (jclose (is_obj (js_store s ! jf_v f))), q')" using assms(4) by (simp add: jnext_iff)
  ultimately show ?thesis using assms(1)
    by (subst jloop.simps) (simp add: jafter_step_def jpop_def jclose_def split: if_splits)
qed

lemma jloop_key:
  assumes "js_frames s = f # fs" "jf_v f < length (js_store s)" "js_store s ! jf_v f = SL_JV_OBJ mems"
    "ws w" "jtakes w (js_p s) q" "jtakes [DQUOTE] q q1" "jchars b k" "jtakes (b @ [DQUOTE]) q1 q2"
    "ws w1" "jtakes w1 q2 q3" "jtakes '':'' q3 q4"
  shows "jloop J_KEY s = jloop J_VALUE (s\<lparr>js_p := q4,
     js_store := (js_store s)[jf_v f := SL_JV_OBJ (mems @ [(k, None)])], js_frames := sl_jreserve (js_store s) f # fs\<rparr>)"
proof -
  have w: "sl_jskip_ws (js_p s) = q"
    using assms(4,5) by (rule skip_ws_takes) (simp add: jpeek_takes [OF assms(6)])
  have q: "sl_jpeek q = Some DQUOTE" "q1 = jadv 1 q" using assms(6) jpeek_takes by (auto simp: jtakes_def)
  have k: "sl_jparse_string_raw (jadv 1 q) = Inr (k, q2)" using assms(7,8) q(2) by (auto simp: sl_jparse_string_raw_iff)
  have w1: "sl_jskip_ws q2 = q3"
    using assms(9,10) by (rule skip_ws_takes) (simp add: jpeek_takes [OF assms(11)])
  have "sl_jnext q3 = (Some (CHR '':''), q4)" using assms(11) by (simp add: jnext_iff)
  then show ?thesis using assms(1-3) w q(1) k w1
    by (subst jloop.simps) (simp add: jkey_step_def jadd_key_def Let_def)
qed

lemma jloop_done: "js_frames s = [] \<Longrightarrow> jloop J_AFTER s = Inr s"
  by (subst jloop.simps) (simp add: jafter_step_def)

section \<open>Every text of the grammar is read\<close>

lemma jtakes_set_depth: "jtakes x p q \<Longrightarrow> jtakes x (p\<lparr>jp_depth := d\<rparr>) (q\<lparr>jp_depth := d\<rparr>)"
  by (simp add: jtakes_def)

lemma jpeek_set_depth [simp]: "sl_jpeek (p\<lparr>jp_depth := d\<rparr>) = sl_jpeek p"
  by (simp add: sl_jpeek_def)

lemma jnum_start: "jnum v \<Longrightarrow> \<exists>c r. v = c # r \<and> (c = CHR ''-'' \<or> is_digit c)"
proof -
  assume "jnum v"
  then obtain sg i f e where v: "v = sg @ i @ f @ e" "sg \<in> {[], ''-''}" "jint i" by (auto simp: jnum_def)
  obtain c i' where "i = c # i'" "is_digit c"
    using v(3) by (cases i) (auto simp: jint_def digits_def is_digit_def)
  then show ?thesis using v by auto
qed

lemma digit_distinct: "is_digit c \<Longrightarrow> c \<noteq> DQUOTE \<and> c \<noteq> CHR ''{'' \<and> c \<noteq> CHR ''[''"
  by (auto simp: is_digit_def char_less_eq_code code_def DQUOTE_def)

lemma jread_num:
  assumes "jnum v" "jtakes v q q'" "sl_jparse_number q = Inr (v, q')"
  shows "jread q = Inr (SL_JV_NUM (jnum_double v) v, q')"
proof -
  obtain c r where c: "v = c # r" "c = CHR ''-'' \<or> is_digit c" using jnum_start [OF assms(1)] by blast
  then have "sl_jpeek q = Some c" using assms(2) jpeek_hd by blast
  moreover have "c \<noteq> DQUOTE" "c \<noteq> CHR ''{''" "c \<noteq> CHR ''[''" using c(2) digit_distinct by (auto simp: DQUOTE_def)
  ultimately show ?thesis using c(2) assms(3) by (auto simp: jread_def)
qed

lemma jread_str:
  assumes "jchars b v" "jtakes (DQUOTE # b @ [DQUOTE]) q q'"
  shows "jread q = Inr (SL_JV_STR v, q')"
proof -
  obtain q1 where q1: "jtakes [DQUOTE] q q1" "jtakes (b @ [DQUOTE]) q1 q'"
    using assms(2) jtakes_Cons [of DQUOTE "b @ [DQUOTE]"] by auto
  then have "sl_jpeek q = Some DQUOTE" "q1 = jadv 1 q" using jpeek_takes by (auto simp: jtakes_def)
  moreover have "sl_jparse_string_raw q1 = Inr (v, q')" using assms(1) q1(2) by (auto simp: sl_jparse_string_raw_iff)
  ultimately show ?thesis by (simp add: jread_def)
qed

lemma jread_lit:
  "jtakes ''null'' q q' \<Longrightarrow> jread q = Inr (SL_JV_NULL, q')"
  "jtakes ''true'' q q' \<Longrightarrow> jread q = Inr (SL_JV_BOOL True, q')"
  "jtakes ''false'' q q' \<Longrightarrow> jread q = Inr (SL_JV_BOOL False, q')"
proof -
  have not: "CHR ''n'' \<noteq> DQUOTE" "CHR ''t'' \<noteq> DQUOTE" "CHR ''f'' \<noteq> DQUOTE"
    "\<not> is_digit (CHR ''n'')" "\<not> is_digit (CHR ''t'')" "\<not> is_digit (CHR ''f'')"
    by (simp_all add: DQUOTE_def is_digit_def)
  show "jread q = Inr (SL_JV_NULL, q')" if "jtakes ''null'' q q'"
    using jpeek_hd [OF that] that sl_jmatch_lit_iff [of q "''null''" q'] not by (simp add: jread_def)
  show "jread q = Inr (SL_JV_BOOL True, q')" if "jtakes ''true'' q q'"
    using jpeek_hd [OF that] that sl_jmatch_lit_iff [of q "''true''" q'] not by (simp add: jread_def)
  show "jread q = Inr (SL_JV_BOOL False, q')" if "jtakes ''false'' q q'"
    using jpeek_hd [OF that] that sl_jmatch_lit_iff [of q "''false''" q'] not by (simp add: jread_def)
qed

definition empty_of :: "bool \<Rightarrow> sl_json_val" where
  "empty_of obj = (if obj then SL_JV_OBJ [] else SL_JV_ARR [])"

definition jopen :: "bool \<Rightarrow> char" where
  "jopen obj = (if obj then CHR ''{'' else CHR ''['')"

lemma empty_of_simps [simp]: "is_container (empty_of obj)" "is_obj (empty_of obj) = obj"
  by (simp_all add: empty_of_def is_container_def is_obj_def)

lemma jread_open:
  assumes "jtakes [jopen obj] q q1" "Suc (jp_depth q) \<le> SL_JSON_MAX_DEPTH"
  shows "jread q = Inr (empty_of obj, q1\<lparr>jp_depth := Suc (jp_depth q)\<rparr>)"
proof -
  have "sl_jpeek q = Some (jopen obj)" "q1 = jadv 1 q" using assms(1) jpeek_takes by (auto simp: jtakes_def)
  then show ?thesis using assms(2) by (auto simp: jread_def jopen_def empty_of_def DQUOTE_def)
qed

lemma jvalue_start:
  assumes "jvalue v t"
  shows "\<exists>c r. v = c # r \<and> \<not> is_ws c \<and> c \<notin> {CHR '']'', CHR ''}'', CHR '',''}"
  using assms
proof (cases rule: jvalue.cases)
  case jv_num
  then obtain c r where c: "v = c # r" "c = CHR ''-'' \<or> is_digit c" using jnum_start by blast
  then show ?thesis using digit_not_ws by (auto simp: is_digit_def char_less_eq_code code_def)
qed (auto simp: DQUOTE_def is_ws_def)

lemma fold_max_le: "fold max xs a \<le> n \<longleftrightarrow> a \<le> n \<and> (\<forall>x\<in>set xs. x \<le> (n :: nat))"
  by (induction xs arbitrary: a) auto

lemma jdepth_le:
  "jdepth (JArr ts) \<le> n \<longleftrightarrow> 0 < n \<and> (\<forall>t\<in>set ts. Suc (jdepth t) \<le> n)"
  "jdepth (JObj ms) \<le> n \<longleftrightarrow> 0 < n \<and> (\<forall>t\<in>set (map snd ms). Suc (jdepth t) \<le> n)"
  by (cases n; force simp: fold_max_le)+

lemma skip_ws_value: "ws w \<Longrightarrow> jtakes w p q \<Longrightarrow> jtakes v q q' \<Longrightarrow> jvalue v t \<Longrightarrow> sl_jskip_ws p = q"
  using jvalue_start [of v t] jpeek_hd skip_ws_takes by fastforce

lemma top_ok_jdone_frames: "js_frames s = f # fs \<Longrightarrow> js_frames (jdone s p new) = snd (sl_jplace (js_store s) f (length (js_store s))) # fs"
  by (simp add: jdone_def jlink_def split: prod.splits)

text \<open>What the loop does on the text of a value, of elements, of a member and of members.\<close>

definition reads_value :: "string \<Rightarrow> json \<Rightarrow> bool" where
  "reads_value v t \<longleftrightarrow>
     (\<forall>s w q q'. ws w \<longrightarrow> jtakes w (js_p s) q \<longrightarrow> jtakes v q q' \<longrightarrow>
        (jnum v \<longrightarrow> sl_jparse_number q = Inr (v, q')) \<longrightarrow>
        jp_depth (js_p s) + jdepth t \<le> SL_JSON_MAX_DEPTH \<longrightarrow> top_ok s \<longrightarrow>
        (\<exists>new. jloop J_VALUE s = jloop J_AFTER (jdone s q' new) \<and>
           jrep (js_store (jdone s q' new)) (length (js_store s)) (length (js_store (jdone s q' new))) t))"

definition reads_elems :: "string \<Rightarrow> json list \<Rightarrow> bool" where
  "reads_elems x ts \<longleftrightarrow>
     (\<forall>s f fs as0 ts0 q q'. js_frames s = f # fs \<longrightarrow> jf_v f < length (js_store s) \<longrightarrow>
        js_store s ! jf_v f = SL_JV_ARR as0 \<longrightarrow>
        jreps (js_store s) (Suc (jf_v f)) (length (js_store s)) as0 ts0 \<longrightarrow>
        jtakes x (js_p s) q \<longrightarrow> jtakes '']'' q q' \<longrightarrow>
        (\<forall>t\<in>set ts. jp_depth (js_p s) + jdepth t \<le> SL_JSON_MAX_DEPTH) \<longrightarrow>
        (\<exists>st. jloop J_VALUE s =
            jloop J_AFTER (s\<lparr>js_p := q'\<lparr>jp_depth := jp_depth q' - 1\<rparr>, js_frames := fs, js_store := st\<rparr>) \<and>
           take (jf_v f) st = take (jf_v f) (js_store s) \<and> jrep st (jf_v f) (length st) (JArr (ts0 @ ts))))"

definition mems_of :: "(string \<times> json) list \<Rightarrow> nat list \<Rightarrow> (string \<times> nat option) list" where
  "mems_of ms as = zip (map fst ms) (map Some as)"

definition reads_members :: "string \<Rightarrow> (string \<times> json) list \<Rightarrow> bool" where
  "reads_members x ms \<longleftrightarrow>
     (\<forall>s f fs as0 ms0 q q'. js_frames s = f # fs \<longrightarrow> jf_v f < length (js_store s) \<longrightarrow>
        js_store s ! jf_v f = SL_JV_OBJ (mems_of ms0 as0) \<longrightarrow>
        jreps (js_store s) (Suc (jf_v f)) (length (js_store s)) as0 (map snd ms0) \<longrightarrow>
        jtakes x (js_p s) q \<longrightarrow> jtakes ''}'' q q' \<longrightarrow>
        (\<forall>t\<in>set (map snd ms). jp_depth (js_p s) + jdepth t \<le> SL_JSON_MAX_DEPTH) \<longrightarrow>
        (\<exists>st. jloop J_KEY s =
            jloop J_AFTER (s\<lparr>js_p := q'\<lparr>jp_depth := jp_depth q' - 1\<rparr>, js_frames := fs, js_store := st\<rparr>) \<and>
           take (jf_v f) st = take (jf_v f) (js_store s) \<and> jrep st (jf_v f) (length st) (JObj (ms0 @ ms))))"

text \<open>A member, up to the white space behind it, appends one entry to the object on top.\<close>

definition reads_member :: "string \<Rightarrow> string \<times> json \<Rightarrow> bool" where
  "reads_member x m \<longleftrightarrow>
     (\<forall>s f fs as0 ms0 q c q'. js_frames s = f # fs \<longrightarrow> jf_v f < length (js_store s) \<longrightarrow>
        js_store s ! jf_v f = SL_JV_OBJ (mems_of ms0 as0) \<longrightarrow>
        jreps (js_store s) (Suc (jf_v f)) (length (js_store s)) as0 (map snd ms0) \<longrightarrow>
        jtakes x (js_p s) q \<longrightarrow> jtakes [c] q q' \<longrightarrow> c \<in> {CHR '','', CHR ''}''} \<longrightarrow>
        jp_depth (js_p s) + jdepth (snd m) \<le> SL_JSON_MAX_DEPTH \<longrightarrow>
        (\<exists>s' f' w p. jloop J_KEY s = jloop J_AFTER s' \<and> ws w \<and> s' = s\<lparr>js_p := p, js_frames := f' # fs, js_store := js_store s'\<rparr> \<and>
           jtakes w p q \<and> jf_v f' = jf_v f \<and> jf_v f < length (js_store s') \<and>
           take (jf_v f) (js_store s') = take (jf_v f) (js_store s) \<and>
           js_store s' ! jf_v f = SL_JV_OBJ (mems_of (ms0 @ [m]) (as0 @ [length (js_store s)])) \<and>
           jreps (js_store s') (Suc (jf_v f)) (length (js_store s')) (as0 @ [length (js_store s)]) (map snd (ms0 @ [m]))))"

lemma reads_scalar:
  assumes "\<And>q q'. jtakes v q q' \<Longrightarrow> (jnum v \<longrightarrow> sl_jparse_number q = Inr (v, q')) \<Longrightarrow> jread q = Inr (n, q')"
    and "jvalue v t" "\<not> is_container n"
    and "\<And>st a. a < length st \<Longrightarrow> st ! a = n \<Longrightarrow> jrep st a (Suc a) t"
  shows "reads_value v t"
  unfolding reads_value_def
proof (intro allI impI)
  fix s w q q'
  assume a: "ws w" "jtakes w (js_p s) q" "jtakes v q q'" "jnum v \<longrightarrow> sl_jparse_number q = Inr (v, q')" "top_ok s"
  have "jread (sl_jskip_ws (js_p s)) = Inr (n, q')"
    using skip_ws_value [OF a(1-3) assms(2)] assms(1) [OF a(3,4)] by simp
  then have "jloop J_VALUE s = jloop J_AFTER (jdone s q' [n])" using jloop_scalar [OF _ assms(3) a(5)] by simp
  moreover have "jrep (js_store (jdone s q' [n])) (length (js_store s)) (length (js_store (jdone s q' [n]))) t"
    using assms(4) [of "length (js_store s)" "js_store (jdone s q' [n])"] by (simp add: jdone_def nth_append)
  ultimately show "\<exists>new. jloop J_VALUE s = jloop J_AFTER (jdone s q' new) \<and>
     jrep (js_store (jdone s q' new)) (length (js_store s)) (length (js_store (jdone s q' new))) t" by blast
qed

lemma reads_value_null: "reads_value ''null'' JNull"
  by (rule reads_scalar [of _ SL_JV_NULL]) (auto intro: jread_lit jvalue_jelems_jmember_jmembers.intros jrep_jreps.intros simp: is_container_def)

lemma reads_value_bool: "reads_value ''true'' (JBool True)" "reads_value ''false'' (JBool False)"
  by (rule reads_scalar [of _ "SL_JV_BOOL _"]; auto intro: jread_lit jvalue_jelems_jmember_jmembers.intros jrep_jreps.intros simp: is_container_def)+

lemma reads_value_num: "jnum v \<Longrightarrow> reads_value v (JNum v)"
  by (rule reads_scalar [of _ "SL_JV_NUM (jnum_double v) v"])
    (auto intro: jread_num jvalue_jelems_jmember_jmembers.intros jrep_jreps.intros simp: is_container_def)

lemma reads_value_str: "jchars b v \<Longrightarrow> reads_value (DQUOTE # b @ [DQUOTE]) (JStr v)"
  by (rule reads_scalar [of _ "SL_JV_STR v"])
    (auto intro: jread_str jvalue_jelems_jmember_jmembers.intros jrep_jreps.intros simp: is_container_def)

lemma skip_ws_idem [simp]: "sl_jskip_ws (sl_jskip_ws p) = sl_jskip_ws p"
  by (rule skip_wsE [of p]) (rule skip_ws_takes [of "[]"]; simp)

lemma jstep_skip:
  "jvalue_step (s\<lparr>js_p := sl_jskip_ws p\<rparr>) = jvalue_step (s\<lparr>js_p := p\<rparr>)"
  "jkey_step (s\<lparr>js_p := sl_jskip_ws p\<rparr>) = jkey_step (s\<lparr>js_p := p\<rparr>)"
  by (auto simp: jvalue_step_def jkey_step_def sl_jv_new_def Let_def split: sum.splits prod.splits)

lemma jstep_not_done: "jvalue_step s \<noteq> J_DONE" "jkey_step s \<noteq> J_DONE"
  by (auto simp: jvalue_step_def jkey_step_def Let_def split: sum.splits prod.splits)

lemma jloop_skip:
  "jloop J_VALUE (s\<lparr>js_p := sl_jskip_ws p\<rparr>) = jloop J_VALUE (s\<lparr>js_p := p\<rparr>)"
  "jloop J_KEY (s\<lparr>js_p := sl_jskip_ws p\<rparr>) = jloop J_KEY (s\<lparr>js_p := p\<rparr>)"
  using jstep_skip [of p s] jstep_not_done [of "s\<lparr>js_p := p\<rparr>"]
  by (simp_all add: jloop.simps [of _ "_\<lparr>js_p := _\<rparr>"] split: jgoes.splits)

lemma set_depth_same: "jp_depth p = d \<Longrightarrow> p\<lparr>jp_depth := d\<rparr> = p"
  by auto

lemma jopened_p: "jopened s p v = (jopened s p0 v)\<lparr>js_p := p\<rparr>"
  by (simp add: jopened_def jdone_def)

lemma reads_value_empty:
  assumes "ws w"
  shows "reads_value (jopen obj # w @ [jclose obj]) (if obj then JObj [] else JArr [])"
  unfolding reads_value_def
proof (intro allI impI)
  fix s w0 q q'
  let ?v = "jopen obj # w @ [jclose obj]" and ?t = "if obj then JObj [] else JArr []"
  assume a: "ws w0" "jtakes w0 (js_p s) q" "jtakes ?v q q'" "top_ok s"
    "jp_depth (js_p s) + jdepth ?t \<le> SL_JSON_MAX_DEPTH"
  have v: "jvalue ?v ?t" using assms jv_arr0 jv_obj0 by (simp add: jopen_def jclose_def)
  obtain q1 q2 where q: "jtakes [jopen obj] q q1" "jtakes w q1 q2" "jtakes [jclose obj] q2 q'"
    using a(3) jtakes_Cons [of "jopen obj" "w @ [jclose obj]"] by (auto simp: jtakes_append)
  let ?d = "Suc (jp_depth q)"
  have d: "jp_depth q = jp_depth (js_p s)" "jp_depth q' = jp_depth q" using a(2,3) jtakes_depth by auto
  have r: "jread (sl_jskip_ws (js_p s)) = Inr (empty_of obj, q1\<lparr>jp_depth := ?d\<rparr>)"
    using skip_ws_value [OF a(1-3) v] jread_open [OF q(1)] a(5) d by (cases obj) auto
  have "sl_jskip_ws (q1\<lparr>jp_depth := ?d\<rparr>) = q2\<lparr>jp_depth := ?d\<rparr>"
    using assms jtakes_set_depth [OF q(2)] by (rule skip_ws_takes) (simp add: jpeek_takes [OF q(3)] jclose_def)
  then have "jtakes [jclose (is_obj (empty_of obj))] (sl_jskip_ws (q1\<lparr>jp_depth := ?d\<rparr>)) (q'\<lparr>jp_depth := ?d\<rparr>)"
    using jtakes_set_depth [OF q(3)] by simp
  from jloop_empty [OF r _ a(4) this] d
  have "jloop J_VALUE s = jloop J_AFTER (jdone s q' [empty_of obj])"
    by (simp add: set_depth_same)
  moreover have "jrep (js_store (jdone s q' [empty_of obj])) (length (js_store s)) (length (js_store (jdone s q' [empty_of obj]))) ?t"
    by (auto simp: jdone_def empty_of_def nth_append intro: rep_arr [OF _ _ reps_Nil] rep_obj [where ms = "[]" and as = "[]", simplified] reps_Nil)
  ultimately show "\<exists>new. jloop J_VALUE s = jloop J_AFTER (jdone s q' new) \<and>
     jrep (js_store (jdone s q' new)) (length (js_store s)) (length (js_store (jdone s q' new))) ?t" by blast
qed

lemma jloop_opened:
  assumes "ws w0" "jtakes w0 (js_p s) q" "jtakes (jopen obj # x @ [jclose obj]) q q'" "top_ok s"
    "Suc (jp_depth (js_p s)) \<le> SL_JSON_MAX_DEPTH"
    "x = w @ c # y" "ws w" "\<not> is_ws c" "c \<noteq> jclose obj"
  obtains q1 q2 where "jtakes [jopen obj] q q1" "jtakes x q1 q2" "jtakes [jclose obj] q2 q'"
    "jloop J_VALUE s = jloop (if obj then J_KEY else J_VALUE) (jopened s (q1\<lparr>jp_depth := Suc (jp_depth (js_p s))\<rparr>) (empty_of obj))"
proof -
  obtain q1 q2 where q: "jtakes [jopen obj] q q1" "jtakes x q1 q2" "jtakes [jclose obj] q2 q'"
    using assms(3) jtakes_Cons [of "jopen obj" "x @ [jclose obj]"] by (auto simp: jtakes_append)
  let ?p = "q1\<lparr>jp_depth := Suc (jp_depth (js_p s))\<rparr>"
  have d: "jp_depth q = jp_depth (js_p s)" using assms(2) jtakes_depth by auto
  have "sl_jskip_ws (js_p s) = q"
    using assms(1,2) by (rule skip_ws_takes) (simp add: jpeek_takes [OF q(1)] jopen_def)
  then have r: "jread (sl_jskip_ws (js_p s)) = Inr (empty_of obj, ?p)" using jread_open [OF q(1)] assms(5) d by simp
  obtain q3 where q3: "jtakes w q1 q3" "jtakes (c # y) q3 q2" using q(2) assms(6) by (auto simp: jtakes_append)
  have "sl_jskip_ws ?p = q3\<lparr>jp_depth := Suc (jp_depth (js_p s))\<rparr>"
    using assms(7) jtakes_set_depth [OF q3(1)] by (rule skip_ws_takes) (simp add: jpeek_hd [OF q3(2)] assms(8))
  then have "sl_jpeek (sl_jskip_ws ?p) \<noteq> Some (jclose (is_obj (empty_of obj)))"
    using jpeek_hd [OF q3(2)] assms(9) by simp
  from jloop_open [OF r _ assms(4) this]
  have "jloop J_VALUE s = jloop (if obj then J_KEY else J_VALUE) (jopened s (sl_jskip_ws ?p) (empty_of obj))" by simp
  also have "\<dots> = jloop (if obj then J_KEY else J_VALUE) (jopened s ?p (empty_of obj))"
  proof -
    have "jopened s (sl_jskip_ws ?p) (empty_of obj) = (jopened s ?p (empty_of obj))\<lparr>js_p := sl_jskip_ws ?p\<rparr>"
      "jopened s ?p (empty_of obj) = (jopened s ?p (empty_of obj))\<lparr>js_p := ?p\<rparr>"
      by (rule jopened_p)+
    then show ?thesis using jloop_skip [of ?p "jopened s ?p (empty_of obj)"] by (cases obj) metis+
  qed
  finally show thesis using that q by blast
qed

lemma jdone_drop:
  assumes "take (length (js_store s)) st = js_store (jlink s (length (js_store s)))"
  shows "(jopened s p v)\<lparr>js_p := q, js_frames := js_frames (jlink s (length (js_store s))), js_store := st\<rparr> = jdone s q (drop (length (js_store s)) st)"
proof -
  have "st = js_store (jlink s (length (js_store s))) @ drop (length (js_store s)) st"
    using assms append_take_drop_id by metis
  then show ?thesis by (intro jstate.equality) (simp_all add: jopened_def jdone_def)
qed

lemma jopened_simps:
  "js_frames (jopened s p v) = \<lparr>jf_v = length (js_store s), jf_cap = 0\<rparr> # js_frames (jlink s (length (js_store s)))"
  "js_p (jopened s p v) = p"
  "js_store (jopened s p v) = js_store (jlink s (length (js_store s))) @ [v]"
  by (simp_all add: jopened_def jdone_def)

text \<open>The body of a container, read by \<open>step\<close>, makes a value of it.\<close>

lemma reads_body:
  assumes start: "x = w @ c # y" "ws w" "\<not> is_ws c" "c \<noteq> jclose obj"
    and body: "\<And>s1 f fs q q'. js_frames s1 = f # fs \<Longrightarrow> Suc (jf_v f) = length (js_store s1) \<Longrightarrow>
        js_store s1 ! jf_v f = empty_of obj \<Longrightarrow> jtakes x (js_p s1) q \<Longrightarrow> jtakes [jclose obj] q q' \<Longrightarrow>
        jp_depth (js_p s1) + d \<le> SL_JSON_MAX_DEPTH \<Longrightarrow>
        \<exists>st. jloop (if obj then J_KEY else J_VALUE) s1 =
            jloop J_AFTER (s1\<lparr>js_p := q'\<lparr>jp_depth := jp_depth q' - 1\<rparr>, js_frames := fs, js_store := st\<rparr>) \<and>
           take (jf_v f) st = take (jf_v f) (js_store s1) \<and> jrep st (jf_v f) (length st) t"
    and d: "jdepth t = Suc d"
  shows "reads_value (jopen obj # x @ [jclose obj]) t"
  unfolding reads_value_def
proof (intro allI impI)
  fix s w0 q q'
  assume a: "ws w0" "jtakes w0 (js_p s) q" "jtakes (jopen obj # x @ [jclose obj]) q q'" "top_ok s"
    "jp_depth (js_p s) + jdepth t \<le> SL_JSON_MAX_DEPTH"
  let ?n = "length (js_store s)" and ?d = "Suc (jp_depth (js_p s))"
  have "?d \<le> SL_JSON_MAX_DEPTH" using a(5) d by simp
  from jloop_opened [OF a(1-4) this start] obtain q1 q2 where
    q: "jtakes [jopen obj] q q1" "jtakes x q1 q2" "jtakes [jclose obj] q2 q'"
    and l: "jloop J_VALUE s = jloop (if obj then J_KEY else J_VALUE) (jopened s (q1\<lparr>jp_depth := ?d\<rparr>) (empty_of obj))" .
  let ?s1 = "jopened s (q1\<lparr>jp_depth := ?d\<rparr>) (empty_of obj)"
  obtain st where st: "jloop (if obj then J_KEY else J_VALUE) ?s1 =
      jloop J_AFTER (?s1\<lparr>js_p := (q'\<lparr>jp_depth := ?d\<rparr>)\<lparr>jp_depth := jp_depth (q'\<lparr>jp_depth := ?d\<rparr>) - 1\<rparr>,
        js_frames := js_frames (jlink s ?n), js_store := st\<rparr>)"
      "take ?n st = take ?n (js_store ?s1)" "jrep st ?n (length st) t"
    using body [OF jopened_simps(1) [where s = s and p = "q1\<lparr>jp_depth := ?d\<rparr>" and v = "empty_of obj"], of "q2\<lparr>jp_depth := ?d\<rparr>" "q'\<lparr>jp_depth := ?d\<rparr>"]
      jtakes_set_depth [OF q(2)] jtakes_set_depth [OF q(3)] a(5) d
    by (auto simp: jopened_simps(2,3) nth_append)
  have t: "take ?n st = js_store (jlink s ?n)" using st(2) by (simp add: jopened_simps)
  have "jp_depth q' = jp_depth (js_p s)" using a(2,3) jtakes_depth by metis
  then have "(q'\<lparr>jp_depth := ?d\<rparr>)\<lparr>jp_depth := jp_depth (q'\<lparr>jp_depth := ?d\<rparr>) - 1\<rparr> = q'" by simp
  then have "jloop J_VALUE s = jloop J_AFTER (jdone s q' (drop ?n st))"
    unfolding l st(1) using jdone_drop [OF t, where p = "q1\<lparr>jp_depth := ?d\<rparr>" and v = "empty_of obj" and q = q'] by simp
  moreover have "js_store (jdone s q' (drop ?n st)) = st"
    using t append_take_drop_id [of ?n st] by (simp add: jdone_def)
  ultimately show "\<exists>new. jloop J_VALUE s = jloop J_AFTER (jdone s q' new) \<and>
     jrep (js_store (jdone s q' new)) ?n (length (js_store (jdone s q' new))) t" using st(3) by metis
qed

lemma num_end_follow:
  assumes "ws w" "jtakes w q q1" "jtakes [c] q1 q2" "c \<in> {CHR '','', CHR '']'', CHR ''}''}"
  shows "num_end q"
proof -
  obtain d where "sl_jpeek q = Some d" "is_ws d \<or> d \<in> {CHR '','', CHR '']'', CHR ''}''}"
  proof (cases w)
    case Nil
    then show ?thesis using that assms jpeek_takes by auto
  next
    case (Cons d w')
    then show ?thesis using that assms(1,2) jpeek_hd by auto
  qed
  then show ?thesis by (auto simp: num_end_def digit_next_def is_ws_def is_digit_def)
qed

lemma number_follow:
  assumes "jtakes v q q1" "ws w" "jtakes w q1 q2" "jtakes [c] q2 q3" "c \<in> {CHR '','', CHR '']'', CHR ''}''}"
  shows "jnum v \<longrightarrow> sl_jparse_number q = Inr (v, q1)"
  using sl_jparse_number_complete [OF _ assms(1)] num_end_follow [OF assms(2-5)] by blast

lemma after_value:
  assumes "f0 < length st" "jreps st (Suc f0) (length st) as0 ts0"
    and "jrep (st[f0 := y] @ new) (length st) (length (st[f0 := y] @ new)) t"
  shows "jreps (st[f0 := y] @ new) (Suc f0) (length (st[f0 := y] @ new)) (as0 @ [length st]) (ts0 @ [t])"
  using assms(2,3) by (intro jreps_snoc jrep_agree(2) [OF assms(2)]) (auto simp: nth_append)

lemma jlink_arr:
  assumes "js_frames s = f # fs" "js_store s ! jf_v f = SL_JV_ARR items"
  shows "jdone s p new = s\<lparr>js_p := p, js_frames := sl_jreserve (js_store s) f # fs,
    js_store := (js_store s)[jf_v f := SL_JV_ARR (items @ [length (js_store s)])] @ new\<rparr>"
  using assms by (intro jstate.equality) (simp_all add: jdone_def jlink_def sl_jplace_def)

lemma jlink_obj:
  assumes "js_frames s = f # fs" "js_store s ! jf_v f = SL_JV_OBJ (mems @ [(k, v)])"
  shows "jdone s p new = s\<lparr>js_p := p, js_frames := f # fs,
    js_store := (js_store s)[jf_v f := SL_JV_OBJ (mems @ [(k, Some (length (js_store s)))])] @ new\<rparr>"
  using assms by (intro jstate.equality) (simp_all add: jdone_def jlink_def sl_jplace_def)

lemma elem_step:
  assumes "reads_value v t" "js_frames s = f # fs" "jf_v f < length (js_store s)"
    "js_store s ! jf_v f = SL_JV_ARR as0"
    "jreps (js_store s) (Suc (jf_v f)) (length (js_store s)) as0 ts0"
    "ws w" "jtakes w (js_p s) q" "jtakes v q q1" "jnum v \<longrightarrow> sl_jparse_number q = Inr (v, q1)"
    "jp_depth (js_p s) + jdepth t \<le> SL_JSON_MAX_DEPTH"
  obtains st f' as' where
    "jloop J_VALUE s = jloop J_AFTER (s\<lparr>js_p := q1, js_frames := f' # fs, js_store := st\<rparr>)"
    "jf_v f' = jf_v f" "jf_v f < length st" "take (jf_v f) st = take (jf_v f) (js_store s)"
    "st ! jf_v f = SL_JV_ARR as'" "jreps st (Suc (jf_v f)) (length st) as' (ts0 @ [t])"
proof -
  have "top_ok s" using assms(2,3) by (simp add: top_ok_def)
  then obtain new where new: "jloop J_VALUE s = jloop J_AFTER (jdone s q1 new)"
      "jrep (js_store (jdone s q1 new)) (length (js_store s)) (length (js_store (jdone s q1 new))) t"
    using assms(1,6-10) unfolding reads_value_def by blast
  let ?st = "(js_store s)[jf_v f := SL_JV_ARR (as0 @ [length (js_store s)])] @ new"
  note j = jlink_arr [OF assms(2,4), of q1 new]
  show thesis
  proof (rule that [where f' = "sl_jreserve (js_store s) f" and st = ?st and as' = "as0 @ [length (js_store s)]"])
    show "jloop J_VALUE s = jloop J_AFTER (s\<lparr>js_p := q1, js_frames := sl_jreserve (js_store s) f # fs, js_store := ?st\<rparr>)"
      using new(1) j by simp
    show "jreps ?st (Suc (jf_v f)) (length ?st) (as0 @ [length (js_store s)]) (ts0 @ [t])"
      using after_value [OF assms(3,5)] new(2) j by simp
  qed (use assms(3) in \<open>simp_all add: nth_append\<close>)
qed

lemma jstate_order: "s\<lparr>js_store := st, js_p := p, js_frames := fs\<rparr> = s\<lparr>js_p := p, js_frames := fs, js_store := st\<rparr>"
  by simp

lemma reads_elems_last:
  assumes "ws w" "reads_value v t" "ws w'"
  shows "reads_elems (w @ v @ w') [t]"
  unfolding reads_elems_def
proof (intro allI impI)
  fix s :: jstate and f fs as0 ts0 q q'
  assume a: "js_frames s = f # fs" "jf_v f < length (js_store s)" "js_store s ! jf_v f = SL_JV_ARR as0"
    "jreps (js_store s) (Suc (jf_v f)) (length (js_store s)) as0 ts0"
    "jtakes (w @ v @ w') (js_p s) q" "jtakes '']'' q q'"
    "\<forall>t\<in>set [t]. jp_depth (js_p s) + jdepth t \<le> SL_JSON_MAX_DEPTH"
  obtain q1 q2 where q: "jtakes w (js_p s) q1" "jtakes v q1 q2" "jtakes w' q2 q" using a(5) by (auto simp: jtakes_append)
  have n: "jnum v \<longrightarrow> sl_jparse_number q1 = Inr (v, q2)" using number_follow [OF q(2) assms(3) q(3) a(6)] by simp
  obtain st f' as' where e: "jloop J_VALUE s = jloop J_AFTER (s\<lparr>js_p := q2, js_frames := f' # fs, js_store := st\<rparr>)"
    "jf_v f' = jf_v f" "jf_v f < length st" "take (jf_v f) st = take (jf_v f) (js_store s)"
    "st ! jf_v f = SL_JV_ARR as'" "jreps st (Suc (jf_v f)) (length st) as' (ts0 @ [t])"
    using elem_step [OF assms(2) a(1-4) assms(1) q(1,2) n] a(7) by auto
  let ?s = "s\<lparr>js_p := q2, js_frames := f' # fs, js_store := st\<rparr>"
  have "jloop J_AFTER ?s = jloop J_AFTER (?s\<lparr>js_p := q'\<lparr>jp_depth := jp_depth q' - 1\<rparr>, js_frames := fs\<rparr>)"
    by (rule jloop_close [of _ f' fs w' q]) (use assms(3) q(3) a(6) e(2,5) in \<open>simp_all add: is_obj_def jclose_def\<close>)
  then show "\<exists>st. jloop J_VALUE s =
      jloop J_AFTER (s\<lparr>js_p := q'\<lparr>jp_depth := jp_depth q' - 1\<rparr>, js_frames := fs, js_store := st\<rparr>) \<and>
      take (jf_v f) st = take (jf_v f) (js_store s) \<and> jrep st (jf_v f) (length st) (JArr (ts0 @ [t]))"
    using e(1,4) rep_arr [OF e(3,5,6)] by (intro exI [of _ st]) (simp add: jstate_order)
qed

lemma reads_elems_more:
  assumes "ws w" "reads_value v t" "ws w'" "reads_elems x ts"
  shows "reads_elems (w @ v @ w' @ CHR '','' # x) (t # ts)"
  unfolding reads_elems_def
proof (intro allI impI)
  fix s :: jstate and f fs as0 ts0 q q'
  assume a: "js_frames s = f # fs" "jf_v f < length (js_store s)" "js_store s ! jf_v f = SL_JV_ARR as0"
    "jreps (js_store s) (Suc (jf_v f)) (length (js_store s)) as0 ts0"
    "jtakes (w @ v @ w' @ CHR '','' # x) (js_p s) q" "jtakes '']'' q q'"
    "\<forall>t\<in>set (t # ts). jp_depth (js_p s) + jdepth t \<le> SL_JSON_MAX_DEPTH"
  obtain q1 q2 q3 q4 where q: "jtakes w (js_p s) q1" "jtakes v q1 q2" "jtakes w' q2 q3" "jtakes '','' q3 q4" "jtakes x q4 q"
    using a(5) jtakes_Cons [of "CHR '',''" x] by (auto simp: jtakes_append)
  have n: "jnum v \<longrightarrow> sl_jparse_number q1 = Inr (v, q2)" using number_follow [OF q(2) assms(3) q(3,4)] by simp
  obtain st f' as' where e: "jloop J_VALUE s = jloop J_AFTER (s\<lparr>js_p := q2, js_frames := f' # fs, js_store := st\<rparr>)"
    "jf_v f' = jf_v f" "jf_v f < length st" "take (jf_v f) st = take (jf_v f) (js_store s)"
    "st ! jf_v f = SL_JV_ARR as'" "jreps st (Suc (jf_v f)) (length st) as' (ts0 @ [t])"
    using elem_step [OF assms(2) a(1-4) assms(1) q(1,2) n] a(7) by auto
  let ?s = "s\<lparr>js_p := q2, js_frames := f' # fs, js_store := st\<rparr>"
  have c: "jloop J_AFTER ?s = jloop J_VALUE (?s\<lparr>js_p := q4\<rparr>)"
    using jloop_comma [of ?s f' fs w' q3 q4] assms(3) q(3,4) e(2,5) by (simp add: is_obj_def)
  have d: "jp_depth q4 = jp_depth (js_p s)" using q(1-4) jtakes_depth by metis
  obtain st' where "jloop J_VALUE (?s\<lparr>js_p := q4\<rparr>) =
      jloop J_AFTER ((?s\<lparr>js_p := q4\<rparr>)\<lparr>js_p := q'\<lparr>jp_depth := jp_depth q' - 1\<rparr>, js_frames := fs, js_store := st'\<rparr>)"
      "take (jf_v f) st' = take (jf_v f) st" "jrep st' (jf_v f) (length st') (JArr ((ts0 @ [t]) @ ts))"
    using assms(4) [unfolded reads_elems_def, rule_format, of "?s\<lparr>js_p := q4\<rparr>" f' fs as' "ts0 @ [t]" q q'] e(2-6) q(5) a(6,7) d
    by auto
  then show "\<exists>st. jloop J_VALUE s =
      jloop J_AFTER (s\<lparr>js_p := q'\<lparr>jp_depth := jp_depth q' - 1\<rparr>, js_frames := fs, js_store := st\<rparr>) \<and>
      take (jf_v f) st = take (jf_v f) (js_store s) \<and> jrep st (jf_v f) (length st) (JArr (ts0 @ t # ts))"
    using e(1,4) c by (intro exI [of _ st']) simp
qed

lemma mems_of_snoc: "length ms = length as \<Longrightarrow> mems_of ms as @ [(fst m, Some a)] = mems_of (ms @ [m]) (as @ [a])"
  by (simp add: mems_of_def)

lemma reads_member_rule:
  assumes "ws w" "jchars b k" "ws w1" "ws w2" "reads_value v t" "ws w'"
  shows "reads_member (w @ DQUOTE # b @ DQUOTE # w1 @ CHR '':'' # w2 @ v @ w') (k, t)"
  unfolding reads_member_def
proof (intro allI impI)
  fix s :: jstate and f fs as0 ms0 q c q'
  assume a: "js_frames s = f # fs" "jf_v f < length (js_store s)" "js_store s ! jf_v f = SL_JV_OBJ (mems_of ms0 as0)"
    "jreps (js_store s) (Suc (jf_v f)) (length (js_store s)) as0 (map snd ms0)"
    "jtakes (w @ DQUOTE # b @ DQUOTE # w1 @ CHR '':'' # w2 @ v @ w') (js_p s) q" "jtakes [c] q q'"
    "c \<in> {CHR '','', CHR ''}''}" "jp_depth (js_p s) + jdepth (snd (k, t)) \<le> SL_JSON_MAX_DEPTH"
  let ?f = "jf_v f" and ?n = "length (js_store s)"
  have "jtakes (w @ [DQUOTE] @ (b @ [DQUOTE]) @ w1 @ '':'' @ w2 @ v @ w') (js_p s) q" using a(5) by simp
  then obtain q1 q2 q3 q4 q5 q6 q7 where q: "jtakes w (js_p s) q1" "jtakes [DQUOTE] q1 q2" "jtakes (b @ [DQUOTE]) q2 q3"
    "jtakes w1 q3 q4" "jtakes '':'' q4 q5" "jtakes w2 q5 q6" "jtakes v q6 q7" "jtakes w' q7 q"
    unfolding jtakes_append [of w] jtakes_append [of "[DQUOTE]"] jtakes_append [of "b @ [DQUOTE]"] jtakes_append [of w1]
      jtakes_append [of "'':''"] jtakes_append [of w2] jtakes_append [of v] by blast
  let ?st1 = "(js_store s)[?f := SL_JV_OBJ (mems_of ms0 as0 @ [(k, None)])]"
  let ?s1 = "s\<lparr>js_p := q5, js_store := ?st1, js_frames := sl_jreserve (js_store s) f # fs\<rparr>"
  have key: "jloop J_KEY s = jloop J_VALUE ?s1" by (rule jloop_key [OF a(1-3) assms(1) q(1,2) assms(2) q(3) assms(3) q(4,5)])
  have n: "jnum v \<longrightarrow> sl_jparse_number q6 = Inr (v, q7)" using number_follow [OF q(7) assms(6) q(8) a(6)] a(7) by auto
  have d: "jp_depth (js_p ?s1) + jdepth t \<le> SL_JSON_MAX_DEPTH" using jtakes_depth [OF q(1)] jtakes_depth [OF q(2)] jtakes_depth [OF q(3)] jtakes_depth [OF q(4)] jtakes_depth [OF q(5)] a(8) by simp
  have top: "top_ok ?s1" using a(2) by (simp add: top_ok_def)
  have w2: "jtakes w2 (js_p ?s1) q6" using q(6) by simp
  obtain new where new: "jloop J_VALUE ?s1 = jloop J_AFTER (jdone ?s1 q7 new)"
      "jrep (js_store (jdone ?s1 q7 new)) (length (js_store ?s1)) (length (js_store (jdone ?s1 q7 new))) t"
    using assms(5) [unfolded reads_value_def, rule_format, OF assms(4) w2 q(7) n [rule_format] d top] by blast
  let ?y = "SL_JV_OBJ (mems_of ms0 as0 @ [(k, Some ?n)])" and ?f' = "sl_jreserve (js_store s) f"
  let ?st = "(js_store s)[?f := ?y] @ new"
  have j: "jdone ?s1 q7 new = s\<lparr>js_p := q7, js_frames := ?f' # fs, js_store := ?st\<rparr>"
    using jlink_obj [of ?s1 ?f' fs "mems_of ms0 as0" k None q7 new] a(2) by simp
  have len: "length ms0 = length as0" using jrep_less(2) [OF a(4)] by simp
  have r: "jreps ?st (Suc ?f) (length ?st) (as0 @ [?n]) (map snd ms0 @ [t])"
    using after_value [OF a(2,4), of ?y new t] new(2) j by simp
  have y: "?st ! ?f = SL_JV_OBJ (mems_of (ms0 @ [(k, t)]) (as0 @ [?n]))"
    using a(2) mems_of_snoc [OF len, of "(k, t)"] by (simp add: nth_append)
  show "\<exists>s' f' w p. jloop J_KEY s = jloop J_AFTER s' \<and> ws w \<and> s' = s\<lparr>js_p := p, js_frames := f' # fs, js_store := js_store s'\<rparr> \<and>
     jtakes w p q \<and> jf_v f' = ?f \<and> ?f < length (js_store s') \<and> take ?f (js_store s') = take ?f (js_store s) \<and>
     js_store s' ! ?f = SL_JV_OBJ (mems_of (ms0 @ [(k, t)]) (as0 @ [?n])) \<and>
     jreps (js_store s') (Suc ?f) (length (js_store s')) (as0 @ [?n]) (map snd (ms0 @ [(k, t)]))"
    by (rule exI [of _ "s\<lparr>js_p := q7, js_frames := ?f' # fs, js_store := ?st\<rparr>"], rule exI [of _ ?f'], rule exI [of _ w'], rule exI [of _ q7])
      (use key new(1) j assms(6) q(8) a(2) y r in simp)
qed

lemma reads_members_last:
  assumes "reads_member x m"
  shows "reads_members x [m]"
  unfolding reads_members_def
proof (intro allI impI)
  fix s :: jstate and f fs as0 ms0 q q'
  assume a: "js_frames s = f # fs" "jf_v f < length (js_store s)" "js_store s ! jf_v f = SL_JV_OBJ (mems_of ms0 as0)"
    "jreps (js_store s) (Suc (jf_v f)) (length (js_store s)) as0 (map snd ms0)"
    "jtakes x (js_p s) q" "jtakes ''}'' q q'" "\<forall>t\<in>set (map snd [m]). jp_depth (js_p s) + jdepth t \<le> SL_JSON_MAX_DEPTH"
  obtain s' f' w p where m: "jloop J_KEY s = jloop J_AFTER s'" "ws w" "s' = s\<lparr>js_p := p, js_frames := f' # fs, js_store := js_store s'\<rparr>"
     "jtakes w p q" "jf_v f' = jf_v f" "jf_v f < length (js_store s')"
     "take (jf_v f) (js_store s') = take (jf_v f) (js_store s)"
     "js_store s' ! jf_v f = SL_JV_OBJ (mems_of (ms0 @ [m]) (as0 @ [length (js_store s)]))"
     "jreps (js_store s') (Suc (jf_v f)) (length (js_store s')) (as0 @ [length (js_store s)]) (map snd (ms0 @ [m]))"
    using assms [unfolded reads_member_def, rule_format, OF a(1-6)] a(7) by auto
  have s': "js_frames s' = f' # fs" "js_p s' = p" by (subst m(3); simp)+
  have c: "jloop J_AFTER s' = jloop J_AFTER (s'\<lparr>js_p := q'\<lparr>jp_depth := jp_depth q' - 1\<rparr>, js_frames := fs\<rparr>)"
    by (rule jloop_close [OF s'(1) m(2)]) (use s'(2) m(4,5,8) a(6) in \<open>simp_all add: is_obj_def jclose_def\<close>)
  have "s'\<lparr>js_p := q'\<lparr>jp_depth := jp_depth q' - 1\<rparr>, js_frames := fs\<rparr> =
      s\<lparr>js_p := q'\<lparr>jp_depth := jp_depth q' - 1\<rparr>, js_frames := fs, js_store := js_store s'\<rparr>"
    by (subst m(3)) simp
  then show "\<exists>st. jloop J_KEY s =
      jloop J_AFTER (s\<lparr>js_p := q'\<lparr>jp_depth := jp_depth q' - 1\<rparr>, js_frames := fs, js_store := st\<rparr>) \<and>
      take (jf_v f) st = take (jf_v f) (js_store s) \<and> jrep st (jf_v f) (length st) (JObj (ms0 @ [m]))"
    using m(1,7) c rep_obj [OF m(6) m(8) [unfolded mems_of_def] m(9)] by (intro exI [of _ "js_store s'"]) simp
qed

lemma reads_members_more:
  assumes "reads_member x m" "reads_members y ms"
  shows "reads_members (x @ CHR '','' # y) (m # ms)"
  unfolding reads_members_def
proof (intro allI impI)
  fix s :: jstate and f fs as0 ms0 q q'
  assume a: "js_frames s = f # fs" "jf_v f < length (js_store s)" "js_store s ! jf_v f = SL_JV_OBJ (mems_of ms0 as0)"
    "jreps (js_store s) (Suc (jf_v f)) (length (js_store s)) as0 (map snd ms0)"
    "jtakes (x @ CHR '','' # y) (js_p s) q" "jtakes ''}'' q q'"
    "\<forall>t\<in>set (map snd (m # ms)). jp_depth (js_p s) + jdepth t \<le> SL_JSON_MAX_DEPTH"
  obtain q1 q2 where q: "jtakes x (js_p s) q1" "jtakes '','' q1 q2" "jtakes y q2 q"
    using a(5) jtakes_Cons [of "CHR '',''" y] by (auto simp: jtakes_append)
  obtain s' f' w p where m: "jloop J_KEY s = jloop J_AFTER s'" "ws w" "s' = s\<lparr>js_p := p, js_frames := f' # fs, js_store := js_store s'\<rparr>"
     "jtakes w p q1" "jf_v f' = jf_v f" "jf_v f < length (js_store s')"
     "take (jf_v f) (js_store s') = take (jf_v f) (js_store s)"
     "js_store s' ! jf_v f = SL_JV_OBJ (mems_of (ms0 @ [m]) (as0 @ [length (js_store s)]))"
     "jreps (js_store s') (Suc (jf_v f)) (length (js_store s')) (as0 @ [length (js_store s)]) (map snd (ms0 @ [m]))"
    using assms(1) [unfolded reads_member_def, rule_format, OF a(1-4) q(1,2)] a(7) by auto
  have s': "js_frames s' = f' # fs" "js_p s' = p" by (subst m(3); simp)+
  let ?s = "s'\<lparr>js_p := q2\<rparr>"
  have c: "jloop J_AFTER s' = jloop J_KEY ?s"
    using jloop_comma [OF s'(1) m(2), of q1 q2] s'(2) m(4,5,8) q(2) by (simp add: is_obj_def)
  have d: "jp_depth q2 = jp_depth (js_p s)" using q(1,2) jtakes_depth by metis
  obtain st where st: "jloop J_KEY ?s = jloop J_AFTER (?s\<lparr>js_p := q'\<lparr>jp_depth := jp_depth q' - 1\<rparr>, js_frames := fs, js_store := st\<rparr>)"
      "take (jf_v f') st = take (jf_v f') (js_store s')" "jrep st (jf_v f') (length st) (JObj ((ms0 @ [m]) @ ms))"
    using assms(2) [unfolded reads_members_def, rule_format, of ?s f' fs "ms0 @ [m]" "as0 @ [length (js_store s)]" q q']
      s'(1) m(5,6,8,9) q(3) a(6,7) d by auto
  have "?s\<lparr>js_p := q'\<lparr>jp_depth := jp_depth q' - 1\<rparr>, js_frames := fs, js_store := st\<rparr> =
      s\<lparr>js_p := q'\<lparr>jp_depth := jp_depth q' - 1\<rparr>, js_frames := fs, js_store := st\<rparr>"
    by (subst m(3)) simp
  then show "\<exists>st. jloop J_KEY s =
      jloop J_AFTER (s\<lparr>js_p := q'\<lparr>jp_depth := jp_depth q' - 1\<rparr>, js_frames := fs, js_store := st\<rparr>) \<and>
      take (jf_v f) st = take (jf_v f) (js_store s) \<and> jrep st (jf_v f) (length st) (JObj (ms0 @ m # ms))"
    using m(1,5,7) c st by (intro exI [of _ st]) simp
qed

lemma jelems_start: "jelems x ts \<Longrightarrow> \<exists>w c y. x = w @ c # y \<and> ws w \<and> \<not> is_ws c \<and> c \<noteq> CHR '']''"
proof -
  assume "jelems x ts"
  then obtain w v t y where "x = w @ v @ y" "ws w" "jvalue v t" by (cases rule: jelems.cases) auto
  then show ?thesis using jvalue_start [of v t] by fastforce
qed

lemma jmembers_start: "jmembers x ms \<Longrightarrow> \<exists>w c y. x = w @ c # y \<and> ws w \<and> \<not> is_ws c \<and> c \<noteq> CHR ''}''"
proof -
  assume "jmembers x ms"
  then obtain y m z where x: "x = y @ z" "jmember y m" by (cases rule: jmembers.cases) (metis append_Nil2, blast)
  obtain w u where "y = w @ DQUOTE # u" "ws w" using x(2) by (cases rule: jmember.cases) auto
  then show ?thesis using x(1) by (intro exI [of _ w] exI [of _ DQUOTE] exI [of _ "u @ z"]) (simp add: DQUOTE_def is_ws_def)
qed

lemma reads_value_arr:
  assumes "jelems x ts" "reads_elems x ts"
  shows "reads_value (CHR ''['' # x @ '']'') (JArr ts)"
proof -
  obtain w c y where "x = w @ c # y" "ws w" "\<not> is_ws c" "c \<noteq> jclose False"
    using jelems_start [OF assms(1)] by (auto simp: jclose_def)
  then have "reads_value (jopen False # x @ [jclose False]) (JArr ts)"
  proof (rule reads_body [where d = "fold max (map jdepth ts) 0"])
    fix s1 :: jstate and f fs q q'
    assume a: "js_frames s1 = f # fs" "Suc (jf_v f) = length (js_store s1)" "js_store s1 ! jf_v f = empty_of False"
      "jtakes x (js_p s1) q" "jtakes [jclose False] q q'" "jp_depth (js_p s1) + fold max (map jdepth ts) 0 \<le> SL_JSON_MAX_DEPTH"
    have "\<forall>t\<in>set ts. jp_depth (js_p s1) + jdepth t \<le> SL_JSON_MAX_DEPTH"
      using fold_max_le [of "map jdepth ts" 0 "fold max (map jdepth ts) 0"] a(6) by fastforce
    then show "\<exists>st. jloop (if False then J_KEY else J_VALUE) s1 =
        jloop J_AFTER (s1\<lparr>js_p := q'\<lparr>jp_depth := jp_depth q' - 1\<rparr>, js_frames := fs, js_store := st\<rparr>) \<and>
        take (jf_v f) st = take (jf_v f) (js_store s1) \<and> jrep st (jf_v f) (length st) (JArr ts)"
      using assms(2) [unfolded reads_elems_def, rule_format, of s1 f fs "[]" "[]" q q'] a reps_Nil [of "js_store s1" "length (js_store s1)"]
      by (simp add: empty_of_def jclose_def)
  qed (simp_all add: jclose_def)
  then show ?thesis by (simp add: jopen_def jclose_def)
qed

lemma reads_value_obj:
  assumes "jmembers x ms" "reads_members x ms"
  shows "reads_value (CHR ''{'' # x @ ''}'') (JObj ms)"
proof -
  obtain w c y where "x = w @ c # y" "ws w" "\<not> is_ws c" "c \<noteq> jclose True"
    using jmembers_start [OF assms(1)] by (auto simp: jclose_def)
  then have "reads_value (jopen True # x @ [jclose True]) (JObj ms)"
  proof (rule reads_body [where d = "fold max (map (\<lambda>(k, t). jdepth t) ms) 0"])
    fix s1 :: jstate and f fs q q'
    assume a: "js_frames s1 = f # fs" "Suc (jf_v f) = length (js_store s1)" "js_store s1 ! jf_v f = empty_of True"
      "jtakes x (js_p s1) q" "jtakes [jclose True] q q'"
      "jp_depth (js_p s1) + fold max (map (\<lambda>(k, t). jdepth t) ms) 0 \<le> SL_JSON_MAX_DEPTH"
    have "\<forall>t\<in>set (map snd ms). jp_depth (js_p s1) + jdepth t \<le> SL_JSON_MAX_DEPTH"
      using fold_max_le [of "map (\<lambda>(k, t). jdepth t) ms" 0 "fold max (map (\<lambda>(k, t). jdepth t) ms) 0"] a(6) by fastforce
    then show "\<exists>st. jloop (if True then J_KEY else J_VALUE) s1 =
        jloop J_AFTER (s1\<lparr>js_p := q'\<lparr>jp_depth := jp_depth q' - 1\<rparr>, js_frames := fs, js_store := st\<rparr>) \<and>
        take (jf_v f) st = take (jf_v f) (js_store s1) \<and> jrep st (jf_v f) (length st) (JObj ms)"
      using assms(2) [unfolded reads_members_def, rule_format, of s1 f fs "[]" "[]" q q'] a reps_Nil [of "js_store s1" "length (js_store s1)"]
      by (auto simp: empty_of_def jclose_def mems_of_def)
  qed (simp_all add: jclose_def)
  then show ?thesis by (simp add: jopen_def jclose_def)
qed

theorem jvalue_reads:
  "jvalue v t \<Longrightarrow> reads_value v t"
  "jelems x ts \<Longrightarrow> reads_elems x ts"
  "jmember y m \<Longrightarrow> reads_member y m"
  "jmembers z ms \<Longrightarrow> reads_members z ms"
proof (induction rule: jvalue_jelems_jmember_jmembers.inducts)
  case (jv_arr0 w)
  then show ?case using reads_value_empty [of w False] by (simp add: jopen_def jclose_def)
next
  case (jv_obj0 w)
  then show ?case using reads_value_empty [of w True] by (simp add: jopen_def jclose_def)
qed (auto intro: reads_value_null reads_value_bool reads_value_num reads_value_str reads_value_arr reads_value_obj
    reads_elems_last reads_elems_more reads_member_rule reads_members_last reads_members_more)

section \<open>Only texts of the grammar are accepted\<close>

definition value_at :: "sl_jparser \<Rightarrow> bool" where
  "value_at p \<longleftrightarrow> (\<exists>w q v q' t. ws w \<and> jtakes w p q \<and> jtakes v q q' \<and> jvalue v t \<and>
     (jnum v \<longrightarrow> sl_jparse_number q = Inr (v, q')) \<and> jp_depth p + jdepth t \<le> SL_JSON_MAX_DEPTH)"

definition elems_at :: "sl_jparser \<Rightarrow> bool" where
  "elems_at p \<longleftrightarrow> (\<exists>x q q' ts. jtakes x p q \<and> jtakes '']'' q q' \<and> jelems x ts \<and>
     (\<forall>t\<in>set ts. jp_depth p + jdepth t \<le> SL_JSON_MAX_DEPTH))"

definition members_at :: "sl_jparser \<Rightarrow> bool" where
  "members_at p \<longleftrightarrow> (\<exists>x q q' ms. jtakes x p q \<and> jtakes ''}'' q q' \<and> jmembers x ms \<and>
     (\<forall>t\<in>set (map snd ms). jp_depth p + jdepth t \<le> SL_JSON_MAX_DEPTH))"

lemma jread_cases:
  assumes "jread q = Inr (v, q')"
  obtains (scalar) x t where "jtakes x q q'" "jvalue x t" "jnum x \<longrightarrow> sl_jparse_number q = Inr (x, q')" "jdepth t = 0"
      "\<not> is_container v"
    | (opens) obj q1 where "jtakes [jopen obj] q q1" "v = empty_of obj" "q' = q1\<lparr>jp_depth := Suc (jp_depth q)\<rparr>"
      "Suc (jp_depth q) \<le> SL_JSON_MAX_DEPTH"
proof -
  obtain c where c: "sl_jpeek q = Some c" using assms by (cases "sl_jpeek q") (auto simp: jread_def)
  then have t: "jtakes [c] q (jadv 1 q)" by (rule takes_peek)
  have lit: ?thesis if "sl_jmatch_lit q lit = Some q'" "jvalue lit t" "\<not> jnum lit" "jdepth t = 0" "\<not> is_container v" for lit t
    using scalar that by (auto simp: sl_jmatch_lit_iff)
  have nn: "\<not> jnum ''null''" "\<not> jnum ''true''" "\<not> jnum ''false''" "\<not> jnum (DQUOTE # b)" for b
    by (auto dest!: jnum_start simp: is_digit_def DQUOTE_def)
  consider (str) b where "c = DQUOTE" "sl_jparse_string_raw (jadv 1 q) = Inr (b, q')" "v = SL_JV_STR b"
    | (op) "c = CHR ''{'' \<or> c = CHR ''[''" "Suc (jp_depth q) \<le> SL_JSON_MAX_DEPTH"
      "v = (if c = CHR ''{'' then SL_JV_OBJ [] else SL_JV_ARR [])" "q' = (jadv 1 q)\<lparr>jp_depth := Suc (jp_depth q)\<rparr>"
    | (num) x where "sl_jparse_number q = Inr (x, q')" "v = SL_JV_NUM (jnum_double x) x"
    | (t) "sl_jmatch_lit q ''true'' = Some q'" "v = SL_JV_BOOL True"
    | (f) "sl_jmatch_lit q ''false'' = Some q'" "v = SL_JV_BOOL False"
    | (n) "sl_jmatch_lit q ''null'' = Some q'" "v = SL_JV_NULL"
    using assms c
    by (auto simp: jread_def Let_def map_sum_def split: if_splits sum.splits option.splits)
  then show thesis
  proof cases
    case str
    then obtain x where x: "jchars x b" "jtakes (x @ [DQUOTE]) (jadv 1 q) q'" by (auto simp: sl_jparse_string_raw_iff)
    then have "jtakes (DQUOTE # x @ [DQUOTE]) q q'" using t str(1) jtakes_Cons by blast
    then show ?thesis using scalar jv_str [OF x(1)] nn str(3) by (auto simp: is_container_def)
  next
    case op
    then show ?thesis using opens [of "c = CHR ''{''" "jadv 1 q"] t by (auto simp: jopen_def empty_of_def)
  next
    case num
    then show ?thesis using scalar [of x "JNum x"] sl_jparse_number_sound [OF num(1)] jv_num by (auto simp: is_container_def)
  next
    case t
    then show ?thesis using lit jv_true nn by (auto simp: is_container_def)
  next
    case f
    then show ?thesis using lit jv_false nn by (auto simp: is_container_def)
  next
    case n
    then show ?thesis using lit jv_null nn by (auto simp: is_container_def)
  qed
qed

lemma after_cases:
  assumes "js_frames s = f # fs" "jloop J_AFTER s = Inr sf"
  shows "\<exists>w q c q'. ws w \<and> jtakes w (js_p s) q \<and> jtakes [c] q q' \<and>
    (c = CHR '','' \<or> c = jclose (is_obj (js_store s ! jf_v f)))"
proof -
  obtain w where w: "ws w" "jtakes w (js_p s) (sl_jskip_ws (js_p s))" by (rule skip_wsE)
  obtain d p where d: "sl_jnext (sl_jskip_ws (js_p s)) = (d, p)" by fastforce
  have "\<not> (\<exists>e. jafter_step s = J_FAIL e)" using assms(2) by (auto simp: jloop.simps [of J_AFTER])
  then have "d = Some (CHR '','') \<or> d = Some (jclose (is_obj (js_store s ! jf_v f)))"
    using assms(1) d by (auto simp: jafter_step_def Let_def split: if_splits)
  then obtain c where "d = Some c" "c = CHR '','' \<or> c = jclose (is_obj (js_store s ! jf_v f))" by blast
  then show ?thesis using w d jnext_iff by blast
qed

lemma key_cases:
  assumes "jloop J_KEY s = Inr sf"
  obtains w q q1 b k q2 w1 q3 q4 where "ws w" "jtakes w (js_p s) q" "jtakes [DQUOTE] q q1" "jchars b k"
    "jtakes (b @ [DQUOTE]) q1 q2" "ws w1" "jtakes w1 q2 q3" "jtakes '':'' q3 q4"
proof -
  obtain w where w: "ws w" "jtakes w (js_p s) (sl_jskip_ws (js_p s))" by (rule skip_wsE)
  let ?q = "sl_jskip_ws (js_p s)"
  have nf: "\<not> (\<exists>e. jkey_step s = J_FAIL e)" using assms by (auto simp: jloop.simps [of J_KEY])
  then have q: "sl_jpeek ?q = Some DQUOTE" by (auto simp: jkey_step_def Let_def split: if_splits)
  then obtain k q2 where k: "sl_jparse_string_raw (jadv 1 ?q) = Inr (k, q2)"
    using nf by (cases "sl_jparse_string_raw (jadv 1 ?q)") (auto simp: jkey_step_def Let_def)
  obtain w1 where w1: "ws w1" "jtakes w1 q2 (sl_jskip_ws q2)" by (rule skip_wsE)
  obtain c q4 where c: "sl_jnext (sl_jskip_ws q2) = (c, q4)" by fastforce
  then have "c = Some (CHR '':'')" using nf q k by (auto simp: jkey_step_def Let_def split: if_splits)
  then have "jtakes '':'' (sl_jskip_ws q2) q4" using c jnext_iff by simp
  then show thesis using that w w1 takes_peek [OF q] k by (auto simp: sl_jparse_string_raw_iff)
qed

lemma value_run:
  assumes "value_at (js_p s)" "top_ok s" "jloop J_VALUE s = Inr sf"
  obtains w q v q' t new where "ws w" "jtakes w (js_p s) q" "jtakes v q q'" "jvalue v t"
    "jp_depth (js_p s) + jdepth t \<le> SL_JSON_MAX_DEPTH" "jloop J_AFTER (jdone s q' new) = Inr sf"
proof -
  obtain w q v q' t where v: "ws w" "jtakes w (js_p s) q" "jtakes v q q'" "jvalue v t"
    "jnum v \<longrightarrow> sl_jparse_number q = Inr (v, q')" "jp_depth (js_p s) + jdepth t \<le> SL_JSON_MAX_DEPTH"
    using assms(1) unfolding value_at_def by blast
  from jvalue_reads(1) [OF v(4), unfolded reads_value_def, rule_format, OF v(1-3) v(5) [rule_format] v(6) assms(2)]
  obtain new where "jloop J_VALUE s = jloop J_AFTER (jdone s q' new)" by blast
  then show thesis using that v assms(3) by metis
qed

lemma elems_sound:
  assumes IH: "\<And>s' as'. length (jp_rest (js_p s')) < length (jp_rest (js_p s)) \<Longrightarrow> jp_depth (js_p s') \<le> SL_JSON_MAX_DEPTH \<Longrightarrow>
      (\<exists>f fs. js_frames s' = f # fs \<and> jf_v f < length (js_store s') \<and> js_store s' ! jf_v f = SL_JV_ARR as') \<Longrightarrow>
      jloop J_VALUE s' = Inr sf \<Longrightarrow> elems_at (js_p s')"
    and f: "js_frames s = f # fs" "jf_v f < length (js_store s)" "js_store s ! jf_v f = SL_JV_ARR as0"
    and dep: "jp_depth (js_p s) \<le> SL_JSON_MAX_DEPTH"
    and run: "jloop J_VALUE s = Inr sf" and v: "value_at (js_p s)"
  shows "elems_at (js_p s)"
proof -
  have "top_ok s" using f by (simp add: top_ok_def)
  then obtain w q v q' t new where v: "ws w" "jtakes w (js_p s) q" "jtakes v q q'" "jvalue v t"
    "jp_depth (js_p s) + jdepth t \<le> SL_JSON_MAX_DEPTH" "jloop J_AFTER (jdone s q' new) = Inr sf"
    using value_run [OF v _ run] by blast
  let ?s = "jdone s q' new"
  note j = jlink_arr [OF f(1,3), of q' new]
  have s: "js_frames ?s = sl_jreserve (js_store s) f # fs" "js_p ?s = q'"
      "js_store ?s ! jf_v f = SL_JV_ARR (as0 @ [length (js_store s)])" "jf_v f < length (js_store ?s)"
    using f(2) by (simp_all add: j nth_append)
  obtain w' q1 c q2 where a: "ws w'" "jtakes w' q' q1" "jtakes [c] q1 q2" "c = CHR '','' \<or> c = CHR '']''"
    using after_cases [OF s(1) v(6)] s by (auto simp: is_obj_def jclose_def)
  show ?thesis
  proof (cases "c = CHR '',''")
    case True
    then have "jloop J_VALUE (?s\<lparr>js_p := q2\<rparr>) = Inr sf"
      using jloop_comma [OF s(1) a(1), of q1 q2] a s v(6) by (simp add: is_obj_def)
    moreover have t: "jtakes (w @ v @ w' @ '','') (js_p s) q2"
      using v(2,3) a(2,3) True by (auto simp: jtakes_append)
    then have "length (jp_rest q2) < length (jp_rest (js_p s))" using jtakes_length [OF t] by simp
    ultimately have "elems_at q2" using IH [of "?s\<lparr>js_p := q2\<rparr>"] s dep jtakes_depth [OF t] by auto
    then obtain x q3 q4 ts where e: "jtakes x q2 q3" "jtakes '']'' q3 q4" "jelems x ts"
      "\<forall>t\<in>set ts. jp_depth q2 + jdepth t \<le> SL_JSON_MAX_DEPTH" unfolding elems_at_def by blast
    have "jtakes (w @ v @ w' @ CHR '','' # x) (js_p s) q3" using jtakes_trans [OF t e(1)] by simp
    moreover have "jp_depth q2 = jp_depth (js_p s)" using jtakes_depth [OF t] .
    ultimately show ?thesis unfolding elems_at_def using e je_more [OF v(1,4) a(1) e(3)] v(5)
      by (intro exI [of _ "w @ v @ w' @ CHR '','' # x"] exI [of _ q3] exI [of _ q4] exI [of _ "t # ts"]) simp
  next
    case False
    have "jtakes (w @ v @ w') (js_p s) q1" using v(2,3) a(2) by (auto simp: jtakes_append)
    then show ?thesis unfolding elems_at_def using False a(3,4) je_last [OF v(1,4) a(1)] v(5)
      by (intro exI [of _ "w @ v @ w'"] exI [of _ q1] exI [of _ q2] exI [of _ "[t]"]) simp
  qed
qed

lemma members_sound:
  assumes V: "\<And>s'. length (jp_rest (js_p s')) < length (jp_rest (js_p s)) \<Longrightarrow> jp_depth (js_p s') \<le> SL_JSON_MAX_DEPTH \<Longrightarrow> top_ok s' \<Longrightarrow>
      jloop J_VALUE s' = Inr sf \<Longrightarrow> value_at (js_p s')"
    and IH: "\<And>s' mems'. length (jp_rest (js_p s')) < length (jp_rest (js_p s)) \<Longrightarrow> jp_depth (js_p s') \<le> SL_JSON_MAX_DEPTH \<Longrightarrow>
      (\<exists>f fs. js_frames s' = f # fs \<and> jf_v f < length (js_store s') \<and> js_store s' ! jf_v f = SL_JV_OBJ mems') \<Longrightarrow>
      jloop J_KEY s' = Inr sf \<Longrightarrow> members_at (js_p s')"
    and f: "js_frames s = f # fs" "jf_v f < length (js_store s)" "js_store s ! jf_v f = SL_JV_OBJ mems"
    and dep: "jp_depth (js_p s) \<le> SL_JSON_MAX_DEPTH" and run: "jloop J_KEY s = Inr sf"
  shows "members_at (js_p s)"
proof -
  obtain w q q1 b k q2 w1 q3 q4 where k: "ws w" "jtakes w (js_p s) q" "jtakes [DQUOTE] q q1" "jchars b k"
    "jtakes (b @ [DQUOTE]) q1 q2" "ws w1" "jtakes w1 q2 q3" "jtakes '':'' q3 q4" by (rule key_cases [OF run])
  let ?f = "sl_jreserve (js_store s) f"
  let ?s1 = "s\<lparr>js_p := q4, js_store := (js_store s)[jf_v f := SL_JV_OBJ (mems @ [(k, None)])], js_frames := ?f # fs\<rparr>"
  have r1: "jloop J_VALUE ?s1 = Inr sf" using jloop_key [OF f k] run by simp
  have t1: "jtakes (w @ [DQUOTE] @ (b @ [DQUOTE]) @ w1 @ '':'') (js_p s) q4"
    using k(2,3,5,7,8) by (meson jtakes_trans)
  then have l1: "length (jp_rest q4) < length (jp_rest (js_p s))" using jtakes_length [OF t1] by simp
  have top: "top_ok ?s1" using f(2) by (simp add: top_ok_def)
  have "value_at (js_p ?s1)" using V [of ?s1] l1 top r1 dep jtakes_depth [OF t1] by simp
  then obtain w2 q5 v q6 t new where v: "ws w2" "jtakes w2 (js_p ?s1) q5" "jtakes v q5 q6" "jvalue v t"
    "jp_depth (js_p ?s1) + jdepth t \<le> SL_JSON_MAX_DEPTH" "jloop J_AFTER (jdone ?s1 q6 new) = Inr sf"
    using value_run [OF _ top r1] by blast
  let ?s = "jdone ?s1 q6 new"
  have j: "?s = s\<lparr>js_p := q6, js_frames := ?f # fs,
      js_store := (js_store s)[jf_v f := SL_JV_OBJ (mems @ [(k, Some (length (js_store s)))])] @ new\<rparr>"
    using jlink_obj [of ?s1 ?f fs mems k None q6 new] f(2) by simp
  have s: "js_frames ?s = ?f # fs" "js_p ?s = q6" "jf_v f < length (js_store ?s)"
      "js_store ?s ! jf_v f = SL_JV_OBJ (mems @ [(k, Some (length (js_store s)))])"
    using f(2) by (simp_all add: j nth_append)
  obtain w' q7 c q8 where a: "ws w'" "jtakes w' q6 q7" "jtakes [c] q7 q8" "c = CHR '','' \<or> c = CHR ''}''"
    using after_cases [OF s(1) v(6)] s by (auto simp: is_obj_def jclose_def)
  let ?x = "w @ DQUOTE # b @ DQUOTE # w1 @ CHR '':'' # w2 @ v @ w'"
  have m: "jmember ?x (k, t)" by (rule jm [OF k(1,4,6) v(1,4) a(1)])
  have "jtakes ((w @ [DQUOTE] @ (b @ [DQUOTE]) @ w1 @ '':'') @ w2 @ v @ w') (js_p s) q7"
    using v(2) by (intro jtakes_trans [OF t1] jtakes_trans [OF _ jtakes_trans [OF v(3) a(2)]]) simp
  then have t: "jtakes ?x (js_p s) q7" by simp
  have d: "jp_depth (js_p s) + jdepth t \<le> SL_JSON_MAX_DEPTH" using v(5) jtakes_depth [OF t1] by simp
  show ?thesis
  proof (cases "c = CHR '',''")
    case True
    then have "jloop J_KEY (?s\<lparr>js_p := q8\<rparr>) = Inr sf"
      using jloop_comma [OF s(1) a(1), of q7 q8] a s v(6) by (simp add: is_obj_def)
    moreover have t': "jtakes (?x @ '','') (js_p s) q8" using t a(3) True by (meson jtakes_trans)
    then have "length (jp_rest q8) < length (jp_rest (js_p s))" using jtakes_length [OF t'] by simp
    ultimately have "members_at q8" using IH [of "?s\<lparr>js_p := q8\<rparr>"] s dep jtakes_depth [OF t'] by auto
    then obtain x q9 q10 ms where e: "jtakes x q8 q9" "jtakes ''}'' q9 q10" "jmembers x ms"
      "\<forall>t\<in>set (map snd ms). jp_depth q8 + jdepth t \<le> SL_JSON_MAX_DEPTH" unfolding members_at_def by blast
    have "jtakes (?x @ CHR '','' # x) (js_p s) q9" using jtakes_trans [OF t' e(1)] by simp
    moreover have "jp_depth q8 = jp_depth (js_p s)" using jtakes_depth [OF t'] .
    ultimately show ?thesis unfolding members_at_def using e jm_more [OF m e(3)] d
      by (intro exI [of _ "?x @ CHR '','' # x"] exI [of _ q9] exI [of _ q10] exI [of _ "(k, t) # ms"]) simp
  next
    case False
    then show ?thesis unfolding members_at_def using a(3,4) jm_last [OF m] t d
      by (intro exI [of _ ?x] exI [of _ q7] exI [of _ q8] exI [of _ "[(k, t)]"]) simp
  qed
qed

lemma value_sound:
  assumes E: "\<And>s' as'. length (jp_rest (js_p s')) < length (jp_rest (js_p s)) \<Longrightarrow> jp_depth (js_p s') \<le> SL_JSON_MAX_DEPTH \<Longrightarrow>
      (\<exists>f fs. js_frames s' = f # fs \<and> jf_v f < length (js_store s') \<and> js_store s' ! jf_v f = SL_JV_ARR as') \<Longrightarrow>
      jloop J_VALUE s' = Inr sf \<Longrightarrow> elems_at (js_p s')"
    and M: "\<And>s' mems'. length (jp_rest (js_p s')) < length (jp_rest (js_p s)) \<Longrightarrow> jp_depth (js_p s') \<le> SL_JSON_MAX_DEPTH \<Longrightarrow>
      (\<exists>f fs. js_frames s' = f # fs \<and> jf_v f < length (js_store s') \<and> js_store s' ! jf_v f = SL_JV_OBJ mems') \<Longrightarrow>
      jloop J_KEY s' = Inr sf \<Longrightarrow> members_at (js_p s')"
    and dep: "jp_depth (js_p s) \<le> SL_JSON_MAX_DEPTH" and top: "top_ok s" and run: "jloop J_VALUE s = Inr sf"
  shows "value_at (js_p s)"
proof -
  obtain w where w: "ws w" "jtakes w (js_p s) (sl_jskip_ws (js_p s))" by (rule skip_wsE)
  let ?q = "sl_jskip_ws (js_p s)"
  have dq: "jp_depth ?q = jp_depth (js_p s)" using jtakes_depth [OF w(2)] .
  obtain v p where r: "jread ?q = Inr (v, p)"
    using run by (cases "jread ?q") (auto simp: jloop.simps [of J_VALUE] jvalue_step_def)
  then show ?thesis
  proof (cases rule: jread_cases)
    case (scalar x t)
    then show ?thesis unfolding value_at_def using w dep
      by (intro exI [of _ w] exI [of _ ?q] exI [of _ x] exI [of _ p] exI [of _ t]) auto
  next
    case (opens obj q1)
    have top': "is_container v" using opens(2) by simp
    have ob: "is_obj v = obj" using opens(2) by simp
    obtain w1 where w1: "ws w1" "jtakes w1 p (sl_jskip_ws p)" by (rule skip_wsE)
    show ?thesis
    proof (cases "sl_jpeek (sl_jskip_ws p) = Some (jclose obj)")
      case True
      let ?d = "jp_depth ?q"
      have "jtakes w1 (p\<lparr>jp_depth := ?d\<rparr>) ((sl_jskip_ws p)\<lparr>jp_depth := ?d\<rparr>)" by (rule jtakes_set_depth [OF w1(2)])
      moreover have "p\<lparr>jp_depth := ?d\<rparr> = q1" using opens(3) jtakes_depth [OF opens(1)] by (simp add: set_depth_same)
      moreover have "jtakes [jclose obj] ((sl_jskip_ws p)\<lparr>jp_depth := ?d\<rparr>) ((jadv 1 (sl_jskip_ws p))\<lparr>jp_depth := ?d\<rparr>)"
        by (rule jtakes_set_depth [OF takes_peek [OF True]])
      ultimately have "jtakes (jopen obj # w1 @ [jclose obj]) ?q ((jadv 1 (sl_jskip_ws p))\<lparr>jp_depth := ?d\<rparr>)"
        using opens(1) jtakes_Cons [of "jopen obj"] jtakes_append by metis
      moreover have "jvalue (jopen obj # w1 @ [jclose obj]) (if obj then JObj [] else JArr [])"
        using jv_arr0 [OF w1(1)] jv_obj0 [OF w1(1)] by (simp add: jopen_def jclose_def)
      moreover have "\<not> jnum (jopen obj # w1 @ [jclose obj])" by (auto dest!: jnum_start simp: jopen_def is_digit_def split: if_splits)
      ultimately show ?thesis unfolding value_at_def using w opens(4) dq by (cases obj) fastforce+
    next
      case False
      let ?s1 = "jopened s p v" and ?ph = "if obj then J_KEY else J_VALUE"
      have "jloop ?ph (?s1\<lparr>js_p := sl_jskip_ws p\<rparr>) = Inr sf"
        using jloop_open [OF r top' top] False ob run jopened_p [of s "sl_jskip_ws p" v p] by simp
      then have run1: "jloop ?ph (?s1\<lparr>js_p := p\<rparr>) = Inr sf" using jloop_skip [of p ?s1] by (cases obj) simp_all
      have l: "length (jp_rest p) < length (jp_rest (js_p s))" using jread_less [OF r] jtakes_length [OF w(2)] by simp
      have fr: "\<exists>f fs. js_frames (?s1\<lparr>js_p := p\<rparr>) = f # fs \<and> jf_v f < length (js_store (?s1\<lparr>js_p := p\<rparr>)) \<and>
          js_store (?s1\<lparr>js_p := p\<rparr>) ! jf_v f = empty_of obj"
        using opens(2) by (simp add: jopened_simps nth_append)
      have "\<exists>x q2 q3 t. jtakes x p q2 \<and> jtakes [jclose obj] q2 q3 \<and> jvalue (jopen obj # x @ [jclose obj]) t \<and>
          jp_depth ?q + jdepth t \<le> SL_JSON_MAX_DEPTH"
      proof (cases obj)
        case True
        then have "members_at p" using M [of "?s1\<lparr>js_p := p\<rparr>"] l fr run1 opens(3,4) by (simp add: empty_of_def)
        then obtain x q2 q3 ms where x: "jtakes x p q2" "jtakes ''}'' q2 q3" "jmembers x ms"
          "\<forall>t\<in>set (map snd ms). jp_depth p + jdepth t \<le> SL_JSON_MAX_DEPTH" unfolding members_at_def by blast
        have "jdepth (JObj ms) \<le> SL_JSON_MAX_DEPTH - jp_depth ?q"
          unfolding jdepth_le using x(4) opens(3,4) by fastforce
        then show ?thesis using x(1-3) True jv_obj opens(4) by (fastforce simp: jopen_def jclose_def)
      next
        case False
        then have "elems_at p" using E [of "?s1\<lparr>js_p := p\<rparr>"] l fr run1 opens(3,4) by (simp add: empty_of_def)
        then obtain x q2 q3 ts where x: "jtakes x p q2" "jtakes '']'' q2 q3" "jelems x ts"
          "\<forall>t\<in>set ts. jp_depth p + jdepth t \<le> SL_JSON_MAX_DEPTH" unfolding elems_at_def by blast
        have "jdepth (JArr ts) \<le> SL_JSON_MAX_DEPTH - jp_depth ?q"
          unfolding jdepth_le using x(4) opens(3,4) by fastforce
        then show ?thesis using x(1-3) False jv_arr opens(4) by (fastforce simp: jopen_def jclose_def)
      qed
      then obtain x q2 q3 t where x: "jtakes x p q2" "jtakes [jclose obj] q2 q3" "jvalue (jopen obj # x @ [jclose obj]) t"
          "jp_depth ?q + jdepth t \<le> SL_JSON_MAX_DEPTH" by blast
      let ?d = "jp_depth ?q"
      have "p\<lparr>jp_depth := ?d\<rparr> = q1" using opens(3) jtakes_depth [OF opens(1)] by (simp add: set_depth_same)
      then have "jtakes (jopen obj # x @ [jclose obj]) ?q (q3\<lparr>jp_depth := ?d\<rparr>)"
        using jtakes_set_depth [OF x(1), of ?d] jtakes_set_depth [OF x(2), of ?d] opens(1) jtakes_Cons [of "jopen obj"] jtakes_append by metis
      moreover have "\<not> jnum (jopen obj # x @ [jclose obj])" by (auto dest!: jnum_start simp: jopen_def is_digit_def split: if_splits)
      ultimately show ?thesis unfolding value_at_def using w x(3,4) dq by fastforce
    qed
  qed
qed

text \<open>The three together, by induction on what is left to read.\<close>

lemma jloop_sound:
  "(top_ok s \<longrightarrow> jp_depth (js_p s) \<le> SL_JSON_MAX_DEPTH \<longrightarrow> jloop J_VALUE s = Inr sf \<longrightarrow> value_at (js_p s)) \<and>
   ((\<exists>f fs. js_frames s = f # fs \<and> jf_v f < length (js_store s) \<and> js_store s ! jf_v f = SL_JV_ARR as) \<longrightarrow>
     jp_depth (js_p s) \<le> SL_JSON_MAX_DEPTH \<longrightarrow> jloop J_VALUE s = Inr sf \<longrightarrow> elems_at (js_p s)) \<and>
   ((\<exists>f fs. js_frames s = f # fs \<and> jf_v f < length (js_store s) \<and> js_store s ! jf_v f = SL_JV_OBJ mems) \<longrightarrow>
     jp_depth (js_p s) \<le> SL_JSON_MAX_DEPTH \<longrightarrow> jloop J_KEY s = Inr sf \<longrightarrow> members_at (js_p s))"
proof (induction "length (jp_rest (js_p s))" arbitrary: s as mems rule: less_induct)
  case less
  let ?less = "\<lambda>s'. length (jp_rest (js_p s')) < length (jp_rest (js_p s))"
  have IV: "value_at (js_p s')" if "?less s'" "jp_depth (js_p s') \<le> SL_JSON_MAX_DEPTH" "top_ok s'" "jloop J_VALUE s' = Inr sf" for s'
    using less [OF that(1)] that(2-) by blast
  have IE: "elems_at (js_p s')" if "?less s'" "jp_depth (js_p s') \<le> SL_JSON_MAX_DEPTH"
      "\<exists>f fs. js_frames s' = f # fs \<and> jf_v f < length (js_store s') \<and> js_store s' ! jf_v f = SL_JV_ARR as'"
      "jloop J_VALUE s' = Inr sf" for s' as'
    using less [OF that(1), of as'] that(2-) by blast
  have IM: "members_at (js_p s')" if "?less s'" "jp_depth (js_p s') \<le> SL_JSON_MAX_DEPTH"
      "\<exists>f fs. js_frames s' = f # fs \<and> jf_v f < length (js_store s') \<and> js_store s' ! jf_v f = SL_JV_OBJ mems'"
      "jloop J_KEY s' = Inr sf" for s' mems'
    using less [OF that(1), of _ mems'] that(2-) by blast
  have V: "value_at (js_p s)" if "top_ok s" "jp_depth (js_p s) \<le> SL_JSON_MAX_DEPTH" "jloop J_VALUE s = Inr sf"
    by (rule value_sound [OF IE IM that(2,1,3)])
  have E: "elems_at (js_p s)"
    if f: "js_frames s = f # fs" "jf_v f < length (js_store s)" "js_store s ! jf_v f = SL_JV_ARR as"
      and d: "jp_depth (js_p s) \<le> SL_JSON_MAX_DEPTH" and r: "jloop J_VALUE s = Inr sf" for f fs
    by (rule elems_sound [OF IE f d r V]) (use f d r in \<open>simp_all add: top_ok_def\<close>)
  have M: "members_at (js_p s)"
    if f: "js_frames s = f # fs" "jf_v f < length (js_store s)" "js_store s ! jf_v f = SL_JV_OBJ mems"
      and d: "jp_depth (js_p s) \<le> SL_JSON_MAX_DEPTH" and r: "jloop J_KEY s = Inr sf" for f fs
    by (rule members_sound [OF IV IM f d r])
  show ?case using V E M by blast
qed

section \<open>The parser accepts exactly the JSON texts\<close>

lemma num_end_ws: "ws w \<Longrightarrow> jp_rest q = w \<Longrightarrow> num_end q"
  by (cases w) (auto simp: num_end_def digit_next_def sl_jpeek_def is_ws_def is_digit_def)

definition jinit :: "string \<Rightarrow> jstate" where
  "jinit s = \<lparr>js_p = \<lparr>jp_rest = s, jp_pos = 0, jp_depth = 0\<rparr>, js_store = [], js_frames = [], js_root = None\<rparr>"

lemma jdone_init: "jdone (jinit s) p new = \<lparr>js_p = p, js_store = new, js_frames = [], js_root = Some 0\<rparr>"
  by (simp add: jdone_def jinit_def jlink_def)

lemma sl_json_parse_run:
  assumes "jloop J_VALUE (jinit s) = jloop J_AFTER (jdone (jinit s) p new)"
  shows "sl_json_parse s =
    (if jp_rest (sl_jskip_ws p) \<noteq> [] then Inl (sl_jerr (sl_jskip_ws p) ''trailing garbage after JSON value'')
     else Inr (new, Some 0))"
proof -
  have "jloop J_VALUE (jinit s) = Inr (jdone (jinit s) p new)"
    using assms jloop_done [of "jdone (jinit s) p new"] by (simp add: jdone_init)
  then show ?thesis by (simp add: sl_json_parse_def sl_jparse_value_def jinit_def [symmetric] jdone_init Let_def)
qed

lemma ws_all_skip: "ws (jp_rest p) \<Longrightarrow> jp_rest (sl_jskip_ws p) = []"
proof -
  assume a: "ws (jp_rest p)"
  then have "takeWhile is_ws (jp_rest p) = jp_rest p" by (simp add: ws_def list_all_iff takeWhile_eq_all_conv)
  then have "length (takeWhile is_ws (jp_rest p)) = length (jp_rest p)" by (rule arg_cong)
  then show ?thesis by (simp add: sl_jskip_ws_def)
qed

lemma sl_json_parse_complete:
  assumes "json_text s t" "jdepth t \<le> SL_JSON_MAX_DEPTH"
  shows "\<exists>st. sl_json_parse s = Inr (st, Some 0) \<and> jrep st 0 (length st) t"
proof -
  obtain w v w' where s: "s = w @ v @ w'" "ws w" "jvalue v t" "ws w'" using assms(1) by (auto simp: json_text_def)
  let ?p = "js_p (jinit s)"
  let ?q = "jadv (length w) ?p" and ?q' = "jadv (length (w @ v)) ?p"
  have p: "jp_rest ?p = w @ v @ w'" by (simp add: jinit_def s(1))
  have t: "jtakes w ?p ?q" "jtakes v ?q ?q'" using p by (simp_all add: jtakes_def)
  have n: "jnum v \<longrightarrow> sl_jparse_number ?q = Inr (v, ?q')"
    using sl_jparse_number_complete [OF _ t(2)] num_end_ws [OF s(4), of ?q'] p by simp
  have "jp_depth ?p + jdepth t \<le> SL_JSON_MAX_DEPTH" "top_ok (jinit s)" using assms(2) by (simp_all add: jinit_def top_ok_def)
  from jvalue_reads(1) [OF s(3), unfolded reads_value_def, rule_format, OF s(2) t n [rule_format] this]
  obtain new where new: "jloop J_VALUE (jinit s) = jloop J_AFTER (jdone (jinit s) ?q' new)"
    "jrep (js_store (jdone (jinit s) ?q' new)) (length (js_store (jinit s))) (length (js_store (jdone (jinit s) ?q' new))) t"
    by blast
  have "jp_rest (sl_jskip_ws ?q') = []" using ws_all_skip [of ?q'] s(4) p by simp
  then have "sl_json_parse s = Inr (new, Some 0)" using sl_json_parse_run [OF new(1)] by simp
  moreover have "jrep new 0 (length new) t" using new(2) unfolding jdone_init by (simp add: jinit_def)
  ultimately show ?thesis by blast
qed

lemma sl_json_parse_sound:
  assumes "sl_json_parse s = Inr r"
  shows "\<exists>t. json_text s t \<and> jdepth t \<le> SL_JSON_MAX_DEPTH"
proof -
  obtain sf where sf: "jloop J_VALUE (jinit s) = Inr sf"
    using assms by (auto simp: sl_json_parse_def sl_jparse_value_def jinit_def split: sum.splits)
  have top: "top_ok (jinit s)" by (simp add: jinit_def top_ok_def)
  have "value_at (js_p (jinit s))" using jloop_sound [of "jinit s" sf] sf top by (simp add: jinit_def)
  then obtain w q v q' t new where v: "ws w" "jtakes w (js_p (jinit s)) q" "jtakes v q q'" "jvalue v t"
    "jp_depth (js_p (jinit s)) + jdepth t \<le> SL_JSON_MAX_DEPTH" "jloop J_AFTER (jdone (jinit s) q' new) = Inr sf"
    using value_run [OF _ top sf] by blast
  have "jp_rest (sl_jskip_ws q') = []"
    using sl_json_parse_run [of s q' new] sf v(6) assms by (simp split: if_splits)
  moreover obtain w' where w': "ws w'" "jtakes w' q' (sl_jskip_ws q')" by (rule skip_wsE)
  ultimately have "jtakes (w @ v @ w') (js_p (jinit s)) (sl_jskip_ws q')" "jp_rest (sl_jskip_ws q') = []"
    using v(2,3) by (auto simp: jtakes_append)
  then have "s = w @ v @ w'" by (auto elim!: jtakesE simp: jinit_def)
  then show ?thesis using v(1,4,5) w'(1) by (auto simp: json_text_def jinit_def)
qed

lemma jrep_node:
  "jrep st a b t \<Longrightarrow>
    (case st ! a of
       SL_JV_NULL \<Rightarrow> t = JNull \<and> b = Suc a
     | SL_JV_BOOL x \<Rightarrow> t = JBool x \<and> b = Suc a
     | SL_JV_NUM _ s \<Rightarrow> t = JNum s \<and> b = Suc a
     | SL_JV_STR s \<Rightarrow> t = JStr s \<and> b = Suc a
     | SL_JV_ARR as \<Rightarrow> (\<exists>ts. t = JArr ts \<and> jreps st (Suc a) b as ts)
     | SL_JV_OBJ mems \<Rightarrow>
         (\<exists>ms as. t = JObj ms \<and> mems = zip (map fst ms) (map Some as) \<and> jreps st (Suc a) b as (map snd ms)))"
  by (erule jrep.cases) auto

lemma zip_some_inject:
  assumes "zip (map fst ms) (map Some as) = zip (map fst ms') (map Some as')" "length as = length ms" "length as' = length ms'"
  shows "map fst ms = map fst ms' \<and> as = as'"
proof -
  have len: "length ms = length ms'" using arg_cong [OF assms(1), of length] assms(2,3) by simp
  have "map fst ms = map fst ms'" using arg_cong [OF assms(1), of "map fst"] assms(2,3) len by simp
  moreover have "map Some as = map Some as'" using arg_cong [OF assms(1), of "map snd"] assms(2,3) len by simp
  ultimately show ?thesis by (simp add: inj_map_eq_map)
qed

lemma jrep_fun:
  "jrep st a b t \<Longrightarrow> (\<forall>b' t'. jrep st a b' t' \<longrightarrow> b = b' \<and> t = t')"
  "jreps st a b as ts \<Longrightarrow> (\<forall>b' ts'. jreps st a b' as ts' \<longrightarrow> b = b' \<and> ts = ts')"
proof (induction rule: jrep_jreps.inducts)
  case (rep_obj a ms as b)
  have l: "length as = length ms" using jrep_less(2) [OF rep_obj(3)] by simp
  show ?case
  proof (intro allI impI)
    fix b' t'
    assume "jrep st a b' t'"
    then obtain ms' as' where o: "t' = JObj ms'" "zip (map fst ms) (map Some as) = zip (map fst ms') (map Some as')"
      "jreps st (Suc a) b' as' (map snd ms')" using jrep_node [of st a b' t'] rep_obj(2) by auto
    have "length as' = length ms'" using jrep_less(2) [OF o(3)] by simp
    then have "map fst ms = map fst ms'" "as = as'" using zip_some_inject [OF o(2) l] by simp_all
    then have "b = b'" "map snd ms = map snd ms'" using rep_obj(4) o(3) by auto
    then show "b = b' \<and> JObj ms = t'" using \<open>map fst ms = map fst ms'\<close> o(1) by (metis zip_map_fst_snd)
  qed
next
  case (reps_Nil a)
  then show ?case by (auto elim: jreps_NilE)
next
  case (reps_Cons a b t c as ts)
  then show ?case by (blast elim: jreps_ConsE)
next
  case (rep_arr a as b ts)
  show ?case
  proof (intro allI impI)
    fix b' t'
    assume "jrep st a b' t'"
    then obtain ts' where "t' = JArr ts'" "jreps st (Suc a) b' as ts'"
      using jrep_node [of st a b' t'] rep_arr(2) by auto
    then show "b = b' \<and> JArr ts = t'" using rep_arr(4) by simp
  qed
qed (auto dest!: jrep_node)

text \<open>
  C2: the JSON parser, whose loop keeps its own stack of open containers, answers a tree exactly
  for the texts of the JSON grammar whose nesting is at most 512, and the tree is the value of the
  text: its nodes are those of the store, numbers keep their text and its double, strings are
  decoded. Every other input is an error.
\<close>
theorem sl_json_parse_exact:
  "((\<exists>st. sl_json_parse s = Inr (st, Some 0) \<and> jrep st 0 (length st) t) \<longleftrightarrow>
      json_text s t \<and> jdepth t \<le> SL_JSON_MAX_DEPTH) \<and>
   ((\<exists>r. sl_json_parse s = Inr r) \<longleftrightarrow> (\<exists>t. json_text s t \<and> jdepth t \<le> SL_JSON_MAX_DEPTH))"
proof (intro conjI iffI)
  assume "\<exists>st. sl_json_parse s = Inr (st, Some 0) \<and> jrep st 0 (length st) t"
  then obtain st where st: "sl_json_parse s = Inr (st, Some 0)" "jrep st 0 (length st) t" by blast
  obtain t' where t': "json_text s t'" "jdepth t' \<le> SL_JSON_MAX_DEPTH" using sl_json_parse_sound [OF st(1)] by blast
  then have "jrep st 0 (length st) t'" using sl_json_parse_complete [OF t'] st(1) by auto
  then have "t' = t" using jrep_fun(1) st(2) by blast
  then show "json_text s t" "jdepth t \<le> SL_JSON_MAX_DEPTH" using t' by simp_all
qed (auto dest: sl_json_parse_sound sl_json_parse_complete)

end
