(* ===== verification/Sl_Json_Decode.thy ===== *)
theory Sl_Json_Decode
  imports Sl_Json
begin

text \<open>
  The decoders of the JSON package: from the nodes of the tree (\<open>sl_json_dec_*\<close>) and straight
  from the input (\<open>sl_jd_*\<close>), exact integers from the text of a number, base64, and the depth
  scan (\<open>src/runtime/sl_json.c\<close>).

  A reader of the direct decoder that returns \<open>false\<close> is \<open>None\<close>: its caller starts again through
  the tree, with a new parser. The bit stack of \<open>sl_jd_skip\<close> is an array of 64 bytes with
  arbitrary contents at the start; an access outside it is the value \<open>None\<close> of the outer option
  that its loop returns.
\<close>

section \<open>Scalars of the tree\<close>

fun sl_json_kind_name :: "sl_json_val \<Rightarrow> string" where
  "sl_json_kind_name SL_JV_NULL = ''null''"
| "sl_json_kind_name (SL_JV_BOOL _) = ''a boolean''"
| "sl_json_kind_name (SL_JV_NUM _ _) = ''a number''"
| "sl_json_kind_name (SL_JV_STR _) = ''a string''"
| "sl_json_kind_name (SL_JV_ARR _) = ''an array''"
| "sl_json_kind_name (SL_JV_OBJ _) = ''an object''"

text \<open>A C string ends at its first NUL.\<close>

definition c_str :: "string \<Rightarrow> string" where
  "c_str s = takeWhile (\<lambda>c. c \<noteq> NUL) s"

fun obj_get_loop :: "(string \<times> nat option) list \<Rightarrow> string \<Rightarrow> nat option" where
  "obj_get_loop [] key = None"
| "obj_get_loop ((k, v) # ms) key = (if c_str k = c_str key then v else obj_get_loop ms key)"

definition sl_json_obj_get :: "sl_json_val \<Rightarrow> string \<Rightarrow> nat option" where
  "sl_json_obj_get v key = (case v of SL_JV_OBJ ms \<Rightarrow> obj_get_loop ms key | _ \<Rightarrow> None)"

definition sl_json_errf :: "string \<Rightarrow> string" where
  "sl_json_errf m = snprintf 256 m"

definition sl_json_wrap_err :: "string \<Rightarrow> string \<Rightarrow> string" where
  "sl_json_wrap_err ctx inner =
     (let n = length ctx + length inner + 4 in snprintf n (ctx @ '': '' @ inner))"

definition sl_json_dec_num :: "sl_json_val \<Rightarrow> nat sl_result" where
  "sl_json_dec_num v =
     (case v of SL_JV_NUM d _ \<Rightarrow> Inr d
      | _ \<Rightarrow> Inl (sl_json_errf (''expected a number, got '' @ sl_json_kind_name v)))"

definition sl_json_dec_bool :: "sl_json_val \<Rightarrow> bool sl_result" where
  "sl_json_dec_bool v =
     (case v of SL_JV_BOOL b \<Rightarrow> Inr b
      | _ \<Rightarrow> Inl (sl_json_errf (''expected a boolean, got '' @ sl_json_kind_name v)))"

definition sl_json_dec_str :: "sl_json_val \<Rightarrow> string sl_result" where
  "sl_json_dec_str v =
     (case v of SL_JV_STR s \<Rightarrow> Inr (c_str s)
      | _ \<Rightarrow> Inl (sl_json_errf (''expected a string, got '' @ sl_json_kind_name v)))"

section \<open>Base64\<close>

definition sl_b64_digit :: "char \<Rightarrow> int" where
  "sl_b64_digit c =
     (if is_upper c then int (code c) - 65
      else if is_lower c then int (code c) - 97 + 26
      else if is_digit c then int (code c) - 48 + 52
      else if c = CHR ''+'' then 62
      else if c = CHR ''/'' then 63
      else - 1)"

definition b64_quad_val :: "int \<Rightarrow> int \<Rightarrow> int \<Rightarrow> int \<Rightarrow> 32 word" where
  "b64_quad_val a b c d =
     push_bit 18 (word_of_int a) OR push_bit 12 (word_of_int b) OR push_bit 6 (word_of_int c) OR word_of_int d"

text \<open>One round: the quad is refused, or up to three bytes are written while there is room.\<close>

fun json_b64_loop :: "nat \<Rightarrow> string \<Rightarrow> sl_bytes \<Rightarrow> sl_bytes option" where
  "json_b64_loop outn (s0 # s1 # s2 # s3 # s) out =
     (let a = sl_b64_digit s0; b1 = sl_b64_digit s1;
          c = (if s2 = CHR ''='' then 0 else sl_b64_digit s2);
          d = (if s3 = CHR ''='' then 0 else sl_b64_digit s3)
      in if a < 0 \<or> b1 < 0 \<or> (s2 \<noteq> CHR ''='' \<and> c < 0) \<or> (s3 \<noteq> CHR ''='' \<and> d < 0) \<or>
            (s2 = CHR ''='' \<and> s3 \<noteq> CHR ''='')
         then None
         else (let v = b64_quad_val a b1 c d;
                   out = (if length out < outn then out @ [ucast (drop_bit 16 v)] else out);
                   out = (if length out < outn then out @ [ucast (drop_bit 8 v)] else out);
                   out = (if length out < outn then out @ [ucast v] else out)
               in json_b64_loop outn s out))"
| "json_b64_loop outn _ out = Some out"

definition sl_json_b64 :: "string \<Rightarrow> sl_bytes option" where
  "sl_json_b64 s =
     (let n = length s in
      if n mod 4 \<noteq> 0 then None
      else (let pad = (if n \<ge> 1 \<and> s ! (n - 1) = CHR ''='' then 1 else 0) +
                      (if n \<ge> 2 \<and> s ! (n - 2) = CHR ''='' then 1 else 0)
            in json_b64_loop (n div 4 * 3 - pad) s []))"

definition sl_json_dec_bytes :: "sl_json_val \<Rightarrow> sl_bytes sl_result" where
  "sl_json_dec_bytes v =
     (case v of
        SL_JV_STR s \<Rightarrow>
          (case sl_json_b64 (c_str s) of
             None \<Rightarrow> Inl (sl_json_errf ''invalid base64'')
           | Some b \<Rightarrow> Inr b)
      | _ \<Rightarrow> Inl (sl_json_errf (''expected a base64 string, got '' @ sl_json_kind_name v)))"

section \<open>Exact integers\<close>

datatype json_int = SL_JSON_INT_OK bool nat | SL_JSON_INT_FRACTION | SL_JSON_INT_TOO_BIG

fun int_exp_loop :: "int \<Rightarrow> string \<Rightarrow> int" where
  "int_exp_loop e [] = e"
| "int_exp_loop e (c # s) =
     (if is_digit c then int_exp_loop (if e < 1000000 then e * 10 + int (code c - 48) else e) s else e)"

definition int_exponent :: "string \<Rightarrow> int" where
  "int_exponent s =
     (case s of
        c # s \<Rightarrow>
          if c = CHR ''e'' \<or> c = CHR ''E''
          then (case s of
                  g # r \<Rightarrow> if g = CHR ''+'' then int_exp_loop 0 r
                           else if g = CHR ''-'' then - int_exp_loop 0 r
                           else int_exp_loop 0 s
                | [] \<Rightarrow> 0)
          else 0
      | [] \<Rightarrow> 0)"

text \<open>Multiplication and addition with the overflow check of a 64-bit word.\<close>

fun int_digits_loop :: "nat \<Rightarrow> string \<Rightarrow> nat option" where
  "int_digits_loop acc [] = Some acc"
| "int_digits_loop acc (c # s) =
     (if acc * 10 \<ge> 2 ^ 64 then None
      else if acc * 10 + (code c - 48) \<ge> 2 ^ 64 then None
      else int_digits_loop (acc * 10 + (code c - 48)) s)"

fun int_scale_loop :: "nat \<Rightarrow> nat \<Rightarrow> nat option" where
  "int_scale_loop 0 acc = Some acc"
| "int_scale_loop (Suc k) acc = (if acc * 10 \<ge> 2 ^ 64 then None else int_scale_loop k (acc * 10))"

definition sl_json_num_int_n :: "string \<Rightarrow> json_int" where
  "sl_json_num_int_n s =
     (let neg = (s \<noteq> [] \<and> hd s = CHR ''-'');
          s = (if neg then tl s else s);
          ip = takeWhile is_digit s;
          s = dropWhile is_digit s;
          dot = (s \<noteq> [] \<and> hd s = CHR ''.'');
          fp = (if dot then takeWhile is_digit (tl s) else []);
          s = (if dot then dropWhile is_digit (tl s) else s);
          ds = ip @ fp;
          scale = int_exponent s - int (length fp);
          keep = (if scale < 0 then (if nat (- scale) \<ge> length ds then 0 else length ds - nat (- scale))
                  else length ds)
      in if list_ex (\<lambda>c. c \<noteq> CHR ''0'') (drop keep ds) then SL_JSON_INT_FRACTION
         else (case int_digits_loop 0 (take keep ds) of
                 None \<Rightarrow> SL_JSON_INT_TOO_BIG
               | Some acc \<Rightarrow>
                   (case (if acc \<noteq> 0 then int_scale_loop (nat scale) acc else Some acc) of
                      None \<Rightarrow> SL_JSON_INT_TOO_BIG
                    | Some acc \<Rightarrow> SL_JSON_INT_OK neg acc)))"

definition sl_json_num_int :: "string \<Rightarrow> json_int" where
  "sl_json_num_int s = sl_json_num_int_n s"

text \<open>The value of a magnitude in \<open>[lo, hi]\<close>, without negating the least integer.\<close>

definition neg_lim :: "int \<Rightarrow> nat" where
  "neg_lim lo = (if lo < 0 then nat (- (lo + 1)) + 1 else 0)"

definition mag_value :: "bool \<Rightarrow> nat \<Rightarrow> int" where
  "mag_value neg mag = (if \<not> neg \<or> mag = 0 then int mag else - (int (mag - 1)) - 1)"

definition sl_json_dec_signed :: "sl_json_val \<Rightarrow> int \<Rightarrow> int \<Rightarrow> string \<Rightarrow> int sl_result" where
  "sl_json_dec_signed v lo hi tname =
     (case sl_json_dec_num v of
        Inl e \<Rightarrow> Inl e
      | Inr _ \<Rightarrow>
          (case v of
             SL_JV_NUM _ text \<Rightarrow>
               (case sl_json_num_int text of
                  SL_JSON_INT_FRACTION \<Rightarrow> Inl (sl_json_errf (''expected an integer, got '' @ text))
                | SL_JSON_INT_TOO_BIG \<Rightarrow>
                    Inl (sl_json_errf (''value '' @ text @ '' out of range for '' @ tname))
                | SL_JSON_INT_OK neg mag \<Rightarrow>
                    if (\<not> neg \<and> int mag > hi) \<or> (neg \<and> mag > neg_lim lo)
                    then Inl (sl_json_errf (''value '' @ text @ '' out of range for '' @ tname))
                    else Inr (mag_value neg mag))
           | _ \<Rightarrow> Inr 0))"

definition sl_json_dec_unsigned :: "sl_json_val \<Rightarrow> nat \<Rightarrow> string \<Rightarrow> nat sl_result" where
  "sl_json_dec_unsigned v hi tname =
     (case sl_json_dec_num v of
        Inl e \<Rightarrow> Inl e
      | Inr _ \<Rightarrow>
          (case v of
             SL_JV_NUM _ text \<Rightarrow>
               (case sl_json_num_int text of
                  SL_JSON_INT_FRACTION \<Rightarrow> Inl (sl_json_errf (''expected an integer, got '' @ text))
                | SL_JSON_INT_TOO_BIG \<Rightarrow>
                    Inl (sl_json_errf (''value '' @ text @ '' out of range for '' @ tname))
                | SL_JSON_INT_OK neg mag \<Rightarrow>
                    if neg \<and> mag \<noteq> 0
                    then Inl (sl_json_errf (''expected a non-negative integer, got '' @ text))
                    else if mag > hi
                    then Inl (sl_json_errf (''value '' @ text @ '' out of range for '' @ tname))
                    else Inr mag)
           | _ \<Rightarrow> Inr 0))"

definition sl_json_dec_i8 :: "sl_json_val \<Rightarrow> int sl_result" where
  "sl_json_dec_i8 v = sl_json_dec_signed v (- (2 ^ 7)) (2 ^ 7 - 1) ''i8''"

definition sl_json_dec_i16 :: "sl_json_val \<Rightarrow> int sl_result" where
  "sl_json_dec_i16 v = sl_json_dec_signed v (- (2 ^ 15)) (2 ^ 15 - 1) ''i16''"

definition sl_json_dec_i32 :: "sl_json_val \<Rightarrow> int sl_result" where
  "sl_json_dec_i32 v = sl_json_dec_signed v (- (2 ^ 31)) (2 ^ 31 - 1) ''i32''"

definition sl_json_dec_i64 :: "sl_json_val \<Rightarrow> int sl_result" where
  "sl_json_dec_i64 v = sl_json_dec_signed v (- (2 ^ 63)) (2 ^ 63 - 1) ''i64''"

definition sl_json_dec_int :: "sl_json_val \<Rightarrow> int sl_result" where
  "sl_json_dec_int v = sl_json_dec_signed v (- (2 ^ 63)) (2 ^ 63 - 1) ''int''"

definition sl_json_dec_u8 :: "sl_json_val \<Rightarrow> nat sl_result" where
  "sl_json_dec_u8 v = sl_json_dec_unsigned v (2 ^ 8 - 1) ''u8''"

definition sl_json_dec_u16 :: "sl_json_val \<Rightarrow> nat sl_result" where
  "sl_json_dec_u16 v = sl_json_dec_unsigned v (2 ^ 16 - 1) ''u16''"

definition sl_json_dec_u32 :: "sl_json_val \<Rightarrow> nat sl_result" where
  "sl_json_dec_u32 v = sl_json_dec_unsigned v (2 ^ 32 - 1) ''u32''"

definition sl_json_dec_u64 :: "sl_json_val \<Rightarrow> nat sl_result" where
  "sl_json_dec_u64 v = sl_json_dec_unsigned v (2 ^ 64 - 1) ''u64''"

definition sl_json_dec_f64 :: "sl_json_val \<Rightarrow> nat sl_result" where
  "sl_json_dec_f64 v = sl_json_dec_num v"

end
