(* ===== verification/Sl_Json_Time.thy ===== *)
theory Sl_Json_Time
  imports Sl_Json_Decode "HOL-Library.Signed_Division"
begin

text \<open>
  Timestamps in JSON: the civil calendar, RFC 3339 parsing and printing (\<open>sl_jt_*\<close>,
  \<open>sl_json_enc_time\<close>, \<open>sl_json_dec_time\<close> of \<open>src/runtime/sl_json.c\<close>). \<open>sdiv\<close> is the division
  of C, which rounds towards zero. Seconds of a 64-bit count cannot overflow here except where
  the code negates the least one, so they are \<open>int\<close>.
\<close>

section \<open>The calendar\<close>

definition sl_jt_days_from_civil :: "int \<Rightarrow> int \<Rightarrow> int \<Rightarrow> int" where
  "sl_jt_days_from_civil y m d =
     (let y = y - (if m \<le> 2 then 1 else 0);
          era = (if y \<ge> 0 then y else y - 399) sdiv 400;
          yoe = y - era * 400;
          doy = (153 * (m + (if m > 2 then - 3 else 9)) + 2) sdiv 5 + d - 1;
          doe = yoe * 365 + yoe sdiv 4 - yoe sdiv 100 + doy
      in era * 146097 + doe - 719468)"

definition sl_jt_civil_from_days :: "int \<Rightarrow> int \<times> int \<times> int" where
  "sl_jt_civil_from_days z =
     (let z = z + 719468;
          era = (if z \<ge> 0 then z else z - 146096) sdiv 146097;
          doe = z - era * 146097;
          yoe = (doe - doe sdiv 1460 + doe sdiv 36524 - doe sdiv 146096) sdiv 365;
          doy = doe - (365 * yoe + yoe sdiv 4 - yoe sdiv 100);
          mp = (5 * doy + 2) sdiv 153;
          d = doy - (153 * mp + 2) sdiv 5 + 1;
          m = (if mp < 10 then mp + 3 else mp - 9)
      in (yoe + era * 400 + (if m \<le> 2 then 1 else 0), m, d))"

definition sl_jt_days_in_month :: "int \<Rightarrow> int \<Rightarrow> int" where
  "sl_jt_days_in_month y m =
     (if m = 2 \<and> ((y smod 4 = 0 \<and> y smod 100 \<noteq> 0) \<or> y smod 400 = 0) then 29
      else [31, 28, 31, 30, 31, 30, 31, 31, 30, 31, 30, 31] ! nat (m - 1))"

section \<open>Parsing\<close>

definition sl_jt_digits :: "string \<Rightarrow> nat \<Rightarrow> nat \<Rightarrow> int" where
  "sl_jt_digits s pos w =
     (if pos + w > length s then - 1
      else (let t = take w (drop pos s) in if list_all is_digit t then int (dval 0 t) else - 1))"

fun times10 :: "nat \<Rightarrow> int \<Rightarrow> int" where
  "times10 0 ns = ns"
| "times10 (Suc k) ns = times10 k (ns * 10)"

text \<open>The optional fraction at \<open>i\<close>: the nanoseconds and the next position, or the reason.\<close>

definition jt_fraction :: "string \<Rightarrow> nat \<Rightarrow> nat + (int \<times> nat)" where
  "jt_fraction s i =
     (if i < length s \<and> s ! i = CHR ''.''
      then (let run = takeWhile is_digit (drop (i + 1) s);
                digits = length run
            in if digits = 0 then Inl 1
               else if digits > 9 then Inl 2
               else Inr (times10 (9 - digits) (int (dval 0 (take 9 run))), i + 1 + digits))
      else Inr (0, i))"

text \<open>The offset at \<open>i\<close> in seconds and the next position, or the reason.\<close>

definition jt_offset :: "string \<Rightarrow> nat \<Rightarrow> nat + (int \<times> nat)" where
  "jt_offset s i =
     (if i \<ge> length s then Inl 3
      else if s ! i = CHR ''Z'' \<or> s ! i = CHR ''z'' then Inr (0, i + 1)
      else if s ! i = CHR ''+'' \<or> s ! i = CHR ''-''
      then (let oh = sl_jt_digits s (i + 1) 2; om = sl_jt_digits s (i + 4) 2 in
            if oh < 0 \<or> om < 0 \<or> i + 3 \<ge> length s \<or> s ! (i + 3) \<noteq> CHR '':'' \<or> oh > 23 \<or> om > 59 then Inl 1
            else (let off = oh * 3600 + om * 60 in
                  Inr (if s ! i = CHR ''-'' then - off else off, i + 6)))
      else Inl 1)"

definition sl_jt_parse :: "string \<Rightarrow> nat + (int \<times> int)" where
  "sl_jt_parse s =
     (if length s < 19 \<or> s ! 4 \<noteq> CHR ''-'' \<or> s ! 7 \<noteq> CHR ''-'' then Inl 1
      else
        (let y = sl_jt_digits s 0 4; mo = sl_jt_digits s 5 2; d = sl_jt_digits s 8 2 in
         if y < 0 \<or> mo < 0 \<or> d < 0 then Inl 1
         else if s ! 10 \<noteq> CHR ''T'' \<and> s ! 10 \<noteq> CHR ''t'' \<and> s ! 10 \<noteq> CHR '' '' then Inl 1
         else
           (let h = sl_jt_digits s 11 2; mi = sl_jt_digits s 14 2; se = sl_jt_digits s 17 2 in
            if h < 0 \<or> mi < 0 \<or> se < 0 \<or> s ! 13 \<noteq> CHR '':'' \<or> s ! 16 \<noteq> CHR '':'' then Inl 1
            else
              (case jt_fraction s 19 of
                 Inl why \<Rightarrow> Inl why
               | Inr (ns, i) \<Rightarrow>
                   (case jt_offset s i of
                      Inl why \<Rightarrow> Inl why
                    | Inr (off, i) \<Rightarrow>
                        if i \<noteq> length s then Inl 1
                        else if mo < 1 \<or> mo > 12 \<or> d < 1 \<or> d > sl_jt_days_in_month y mo \<or> h > 23 \<or> mi > 59 \<or> se > 59
                        then Inl 4
                        else Inr (sl_jt_days_from_civil y mo d * 86400 + h * 3600 + mi * 60 + se - off, ns))))))"

definition sl_jt_error :: "nat \<Rightarrow> string \<Rightarrow> string" where
  "sl_jt_error why s =
     (let q = CHR 0x27 in
      sl_json_errf
        (''timestamp '' @ [q] @ take 64 s @ [q] @
         (if why = 2 then '' has more than 9 fraction digits''
          else if why = 3 then '' has no offset: add Z for UTC, or +hh:mm''
          else if why = 4 then '' has a field out of range''
          else '' is not RFC 3339 (2026-10-13T09:30:15Z)'')))"

definition sl_json_dec_time :: "sl_json_val \<Rightarrow> (int \<times> int) sl_result" where
  "sl_json_dec_time v =
     (case v of
        SL_JV_STR s \<Rightarrow>
          (case sl_jt_parse (c_str s) of
             Inl why \<Rightarrow> Inl (sl_jt_error why (c_str s))
           | Inr t \<Rightarrow> Inr t)
      | _ \<Rightarrow> Inl (sl_json_errf (''expected an RFC 3339 timestamp string, got '' @ sl_json_kind_name v)))"

section \<open>Printing\<close>

definition two_digits :: "int \<Rightarrow> string" where
  "two_digits n = [char_of (nat (48 + n sdiv 10)), char_of (nat (48 + n smod 10))]"

text \<open>The nine digits of the nanoseconds, and the fraction without trailing zeros.\<close>

fun nine_digits :: "nat \<Rightarrow> nat \<Rightarrow> string" where
  "nine_digits 0 v = []"
| "nine_digits (Suc k) v = nine_digits k (v div 10) @ [char_of (48 + v mod 10)]"

definition jt_fraction_text :: "nat \<Rightarrow> string" where
  "jt_fraction_text nsec =
     (let fd = nine_digits 9 nsec;
          tail = dropWhile (\<lambda>c. c = CHR ''0'') (rev (tl fd))
      in CHR ''.'' # hd fd # rev tail)"

definition jt_text :: "int \<Rightarrow> int \<Rightarrow> string" where
  "jt_text sec nsec =
     (let days = (if sec \<ge> 0 then sec sdiv 86400 else - ((- sec + 86399) sdiv 86400));
          rem = sec - days * 86400;
          (y, m, d) = sl_jt_civil_from_days days;
          yd = dec (nat \<bar>y\<bar>);
          hh = rem sdiv 3600; mi = rem sdiv 60 smod 60; ss = rem smod 60
      in (if y < 0 then ''-'' else []) @ replicate (4 - length yd) (CHR ''0'') @ yd @
         ''-'' @ two_digits m @ ''-'' @ two_digits d @ ''T'' @
         two_digits hh @ '':'' @ two_digits mi @ '':'' @ two_digits ss @
         (if nsec > 0 \<and> nsec < 1000000000 then jt_fraction_text (nat nsec) else []) @ ''Z'')"

end
