(* ===== verification/Sl_Json_Direct.thy ===== *)
theory Sl_Json_Direct
  imports Sl_Json_Time
begin

text \<open>
  The direct decoder of the JSON package: the readers that \<open>json.decode\<close> tries first, the skip
  over a value with its bit stack, integer tokens in one pass, and the depth scan
  (\<open>src/runtime/sl_json.c\<close>, from \<open>sl_jd_peek\<close> on). A reader that returns \<open>false\<close> is \<open>None\<close>: its
  caller starts again through the tree with a new parser.
\<close>

section \<open>Punctuation\<close>

definition sl_jd_peek :: "sl_jparser \<Rightarrow> char option \<times> sl_jparser" where
  "sl_jd_peek p = (let p = sl_jskip_ws p in (sl_jpeek p, p))"

definition sl_jd_eat :: "sl_jparser \<Rightarrow> char \<Rightarrow> sl_jparser option" where
  "sl_jd_eat p c = (let (d, p) = sl_jd_peek p in if d \<noteq> Some c then None else Some (jadv 1 p))"

definition sl_jd_open :: "sl_jparser \<Rightarrow> char \<Rightarrow> sl_jparser option" where
  "sl_jd_open p c =
     (case sl_jd_eat p c of
        None \<Rightarrow> None
      | Some p \<Rightarrow>
          (let p = p\<lparr>jp_depth := jp_depth p + 1\<rparr> in
           if jp_depth p \<le> SL_JSON_MAX_DEPTH then Some p else None))"

definition sl_jd_empty :: "sl_jparser \<Rightarrow> char \<Rightarrow> bool \<times> sl_jparser" where
  "sl_jd_empty p close =
     (let (d, p) = sl_jd_peek p in
      if d \<noteq> Some close then (False, p)
      else (True, (jadv 1 p)\<lparr>jp_depth := jp_depth p - 1\<rparr>))"

text \<open>Whether another element follows, and whether the closing bracket was read.\<close>

definition sl_jd_more :: "sl_jparser \<Rightarrow> char \<Rightarrow> bool \<times> bool \<times> sl_jparser" where
  "sl_jd_more p close =
     (let (c, p) = sl_jnext (sl_jskip_ws p);
          closed = (c = Some close);
          p = (if closed then p\<lparr>jp_depth := jp_depth p - 1\<rparr> else p)
      in (c = Some (CHR '',''), closed, p))"

section \<open>Numbers and strings\<close>

definition jd_num_int :: "sl_jparser \<Rightarrow> sl_jparser option" where
  "jd_num_int p =
     (let p = (if sl_jpeek p = Some (CHR ''-'') then jadv 1 p else p) in
      if sl_jpeek p = Some (CHR ''0'') then Some (jadv 1 p)
      else if digit_next p then Some (jdigits p)
      else None)"

definition jd_num_frac :: "sl_jparser \<Rightarrow> sl_jparser option" where
  "jd_num_frac p =
     (if sl_jpeek p = Some (CHR ''.'')
      then (let p = jadv 1 p in if \<not> digit_next p then None else Some (jdigits p))
      else Some p)"

definition jd_num_exp :: "sl_jparser \<Rightarrow> sl_jparser option" where
  "jd_num_exp p =
     (if sl_jpeek p = Some (CHR ''e'') \<or> sl_jpeek p = Some (CHR ''E'')
      then (let p = jadv 1 p;
                p = (if sl_jpeek p = Some (CHR ''+'') \<or> sl_jpeek p = Some (CHR ''-'') then jadv 1 p else p)
            in if \<not> digit_next p then None else Some (jdigits p))
      else Some p)"

text \<open>The number at the parser and its text \<open>s[*start .. p->pos)\<close>.\<close>

definition sl_jd_number :: "sl_jparser \<Rightarrow> (string \<times> sl_jparser) option" where
  "sl_jd_number p =
     (let p = sl_jskip_ws p in
      case jd_num_int p of
        None \<Rightarrow> None
      | Some p1 \<Rightarrow>
          (case jd_num_frac p1 of
             None \<Rightarrow> None
           | Some p2 \<Rightarrow>
               (case jd_num_exp p2 of
                  None \<Rightarrow> None
                | Some p3 \<Rightarrow> Some (take (jp_pos p3 - jp_pos p) (jp_rest p), p3))))"

fun jd_hex4_loop :: "nat \<Rightarrow> nat \<Rightarrow> sl_jparser \<Rightarrow> (nat \<times> sl_jparser) option" where
  "jd_hex4_loop 0 v p = Some (v, p)"
| "jd_hex4_loop (Suc i) v p =
     (let (c, p) = sl_jnext p in
      case sl_hexval c of None \<Rightarrow> None | Some h \<Rightarrow> jd_hex4_loop i (push_bit 4 v OR h) p)"

definition sl_jd_hex4 :: "sl_jparser \<Rightarrow> (nat \<times> sl_jparser) option" where
  "sl_jd_hex4 p = jd_hex4_loop 4 0 p"

definition jd_skip_u :: "sl_jparser \<Rightarrow> sl_jparser option" where
  "jd_skip_u p =
     (case sl_jd_hex4 p of
        None \<Rightarrow> None
      | Some (cp, p) \<Rightarrow>
          if 0xD800 \<le> cp \<and> cp \<le> 0xDBFF
          then (let (a, p) = sl_jnext p in
                if a \<noteq> Some BSLASH then None
                else (let (u, p) = sl_jnext p in
                      if u \<noteq> Some (CHR ''u'') then None
                      else (case sl_jd_hex4 p of
                              None \<Rightarrow> None
                            | Some (lo, p) \<Rightarrow> if lo < 0xDC00 \<or> lo > 0xDFFF then None else Some p)))
          else if 0xDC00 \<le> cp \<and> cp \<le> 0xDFFF then None
          else Some p)"

definition jd_skip_escape :: "sl_jparser \<Rightarrow> sl_jparser option" where
  "jd_skip_escape p =
     (case sl_jnext p of
        (None, p) \<Rightarrow> None
      | (Some e, p) \<Rightarrow>
          if e \<in> set [DQUOTE, BSLASH, CHR ''/'', CHR ''b'', CHR ''f'', CHR ''n'', CHR ''r'', CHR ''t''] then Some p
          else if e = CHR ''u'' then jd_skip_u p
          else None)"

lemma jd_hex4_loop_eq: "jd_hex4_loop n v p = (case hex4_loop n v p of Inl _ \<Rightarrow> None | Inr r \<Rightarrow> Some r)"
  by (induction n v p rule: jd_hex4_loop.induct) (auto simp: Let_def split: prod.splits option.splits)

lemma jd_skip_u_le: "jd_skip_u p = Some p' \<Longrightarrow> length (jp_rest p') \<le> length (jp_rest p)"
  by (auto simp: jd_skip_u_def sl_jd_hex4_def jd_hex4_loop_eq Let_def
      split: sum.splits prod.splits if_splits option.splits dest!: sl_jnext_le hex4_loop_le)

lemma jd_skip_escape_le: "jd_skip_escape p = Some p' \<Longrightarrow> length (jp_rest p') \<le> length (jp_rest p)"
  by (auto simp: jd_skip_escape_def split: prod.splits option.splits if_splits dest!: sl_jnext_le jd_skip_u_le)

function sl_jd_skip_string :: "sl_jparser \<Rightarrow> sl_jparser option" where
  "sl_jd_skip_string p =
     (case sl_jnext p of
        (None, p) \<Rightarrow> None
      | (Some c, p) \<Rightarrow>
          if c = DQUOTE then Some p
          else if code c < 0x20 then None
          else if c \<noteq> BSLASH then sl_jd_skip_string p
          else (case jd_skip_escape p of None \<Rightarrow> None | Some p \<Rightarrow> sl_jd_skip_string p))"
  by pat_completeness auto
termination
  by (relation "measure (\<lambda>p. length (jp_rest p))") (auto dest!: sl_jnext_less [OF sym] jd_skip_escape_le)

declare sl_jd_skip_string.simps [simp del]

section \<open>Skipping a value\<close>

text \<open>
  The state of the loop of \<open>sl_jd_skip\<close>: the parser, the 64 bytes of the bit stack, the levels
  that are open and whether the innermost is an object. An access outside the bit stack is
  \<open>K_OUT\<close>.
\<close>

record jskip =
  sk_p :: sl_jparser
  sk_bits :: sl_bytes
  sk_depth :: nat
  sk_in_obj :: bool

datatype kphase = K_VALUE | K_AFTER

datatype kgoes = K_FAIL | K_OUT | K_DONE | K_GO kphase jskip

definition OBJ_STACK :: nat where
  "OBJ_STACK = (SL_JSON_MAX_DEPTH + 7) div 8"

definition bits_set :: "sl_bytes \<Rightarrow> nat \<Rightarrow> bool \<Rightarrow> sl_bytes option" where
  "bits_set b depth obj =
     (let i = drop_bit 3 depth; m = push_bit (depth AND 7) 1 in
      if i \<ge> length b then None
      else Some (b[i := (if obj then b ! i OR m else b ! i AND NOT m)]))"

definition bits_get :: "sl_bytes \<Rightarrow> nat \<Rightarrow> bool option" where
  "bits_get b depth =
     (let i = drop_bit 3 depth in
      if i \<ge> length b then None else Some (drop_bit (depth AND 7) (b ! i) AND 1 \<noteq> 0))"

definition skip_key :: "sl_jparser \<Rightarrow> sl_jparser option" where
  "skip_key p =
     (case sl_jd_eat p DQUOTE of
        None \<Rightarrow> None
      | Some p \<Rightarrow>
          (case sl_jd_skip_string p of
             None \<Rightarrow> None
           | Some p \<Rightarrow> sl_jd_eat p (CHR '':'')))"

definition k_scalar :: "jskip \<Rightarrow> sl_jparser option \<Rightarrow> kgoes" where
  "k_scalar s r = (case r of None \<Rightarrow> K_FAIL | Some p \<Rightarrow> K_GO K_AFTER (s\<lparr>sk_p := p\<rparr>))"

definition k_member :: "bool \<Rightarrow> jskip \<Rightarrow> kgoes" where
  "k_member obj s =
     (if obj then (case skip_key (sk_p s) of None \<Rightarrow> K_FAIL | Some p \<Rightarrow> K_GO K_VALUE (s\<lparr>sk_p := p\<rparr>))
      else K_GO K_VALUE s)"

definition k_open :: "jskip \<Rightarrow> sl_jparser \<Rightarrow> bool \<Rightarrow> kgoes" where
  "k_open s p obj =
     (case sl_jd_open p (if obj then CHR ''{'' else CHR ''['') of
        None \<Rightarrow> K_FAIL
      | Some p \<Rightarrow>
          (let (closed, p) = sl_jd_empty p (jclose obj) in
           if closed then K_GO K_AFTER (s\<lparr>sk_p := p\<rparr>)
           else (case bits_set (sk_bits s) (sk_depth s) obj of
                   None \<Rightarrow> K_OUT
                 | Some b \<Rightarrow>
                     k_member obj (s\<lparr>sk_p := p, sk_bits := b, sk_depth := sk_depth s + 1, sk_in_obj := obj\<rparr>))))"

definition k_value :: "jskip \<Rightarrow> kgoes" where
  "k_value s =
     (let (c, p) = sl_jd_peek (sk_p s) in
      case c of
        None \<Rightarrow> K_FAIL
      | Some c \<Rightarrow>
          if c = DQUOTE then k_scalar s (sl_jd_skip_string (jadv 1 p))
          else if c = CHR ''-'' \<or> is_digit c then k_scalar s (map_option snd (sl_jd_number p))
          else if c = CHR ''t'' then k_scalar s (sl_jmatch_lit p ''true'')
          else if c = CHR ''f'' then k_scalar s (sl_jmatch_lit p ''false'')
          else if c = CHR ''n'' then k_scalar s (sl_jmatch_lit p ''null'')
          else if c = CHR ''['' \<or> c = CHR ''{'' then k_open s p (c = CHR ''{'')
          else K_FAIL)"

definition k_after :: "jskip \<Rightarrow> kgoes" where
  "k_after s =
     (if sk_depth s = 0 then K_DONE
      else
        (let (more, closed, p) = sl_jd_more (sk_p s) (jclose (sk_in_obj s)) in
         if more then k_member (sk_in_obj s) (s\<lparr>sk_p := p\<rparr>)
         else if \<not> closed then K_FAIL
         else
           (let depth = sk_depth s - 1 in
            if depth = 0 then K_GO K_AFTER (s\<lparr>sk_p := p, sk_depth := depth\<rparr>)
            else (case bits_get (sk_bits s) (depth - 1) of
                    None \<Rightarrow> K_OUT
                  | Some obj \<Rightarrow> K_GO K_AFTER (s\<lparr>sk_p := p, sk_depth := depth, sk_in_obj := obj\<rparr>)))))"

fun k_step :: "kphase \<Rightarrow> jskip \<Rightarrow> kgoes" where
  "k_step K_VALUE s = k_value s"
| "k_step K_AFTER s = k_after s"

lemma eat_less: "sl_jd_eat p c = Some p' \<Longrightarrow> length (jp_rest p') < length (jp_rest p)"
  using skip_ws_le [of p]
  by (cases "jp_rest (sl_jskip_ws p)") (auto simp: sl_jd_eat_def sl_jd_peek_def sl_jpeek_def Let_def split: if_splits list.splits)

lemma skip_string_less: "sl_jd_skip_string p = Some p' \<Longrightarrow> length (jp_rest p') < length (jp_rest p)"
proof (induction p rule: sl_jd_skip_string.induct)
  case (1 p)
  obtain e q where q: "sl_jnext p = (e, q)" by fastforce
  then obtain c where e: "e = Some c" using 1(3) by (cases e) (auto simp: sl_jd_skip_string.simps [of p])
  have less: "length (jp_rest q) < length (jp_rest p)" using q e sl_jnext_less by blast
  consider "p' = q" | "c \<noteq> DQUOTE" "\<not> code c < 32" "c \<noteq> BSLASH" "sl_jd_skip_string q = Some p'"
    | q' where "c \<noteq> DQUOTE" "\<not> code c < 32" "\<not> c \<noteq> BSLASH" "jd_skip_escape q = Some q'" "sl_jd_skip_string q' = Some p'"
    using 1(3) q e by (auto simp: sl_jd_skip_string.simps [of p] split: if_splits option.splits)
  then show ?case
  proof cases
    case 2
    then show ?thesis using "1.IH"(1) [OF q [symmetric] e] less by simp
  next
    case 3
    then show ?thesis using "1.IH"(2) [OF q [symmetric] e] less jd_skip_escape_le [of q q'] by fastforce
  qed (use less in simp)
qed

lemma skip_key_less: "skip_key p = Some p' \<Longrightarrow> length (jp_rest p') < length (jp_rest p)"
  by (auto simp: skip_key_def split: option.splits dest!: eat_less skip_string_less)

lemma sl_jd_number_eq:
  "sl_jd_number p = (case sl_jparse_number (sl_jskip_ws p) of Inl _ \<Rightarrow> None | Inr r \<Rightarrow> Some r)"
proof -
  have "jd_num_int q = (case jnum_int q of Inl _ \<Rightarrow> None | Inr r \<Rightarrow> Some r)"
    "jd_num_frac q = (case jnum_frac q of Inl _ \<Rightarrow> None | Inr r \<Rightarrow> Some r)"
    "jd_num_exp q = (case jnum_exp q of Inl _ \<Rightarrow> None | Inr r \<Rightarrow> Some r)" for q
    by (simp_all add: jd_num_int_def jnum_int_def jd_num_frac_def jnum_frac_def jd_num_exp_def jnum_exp_def Let_def)
  then show ?thesis by (simp add: sl_jd_number_def sl_jparse_number_def Let_def split: sum.splits)
qed

lemma k_member_less:
  "k_member obj s = K_GO ph s' \<Longrightarrow> length (jp_rest (sk_p s')) \<le> length (jp_rest (sk_p s))"
  by (auto simp: k_member_def split: if_splits option.splits dest!: skip_key_less)

lemma k_open_less: "k_open s p obj = K_GO ph s' \<Longrightarrow> length (jp_rest (sk_p s')) < length (jp_rest p)"
proof -
  assume a: "k_open s p obj = K_GO ph s'"
  then obtain p1 where p1: "sl_jd_eat p (if obj then CHR ''{'' else CHR ''['') = Some p1"
    by (auto simp: k_open_def sl_jd_open_def split: option.splits)
  then have l: "length (jp_rest p1) < length (jp_rest p)" by (rule eat_less)
  let ?p1 = "p1\<lparr>jp_depth := jp_depth p1 + 1\<rparr>"
  obtain e p2 where e: "sl_jd_empty ?p1 (jclose obj) = (e, p2)" by fastforce
  then have "length (jp_rest p2) \<le> length (jp_rest p1)"
    using skip_ws_le [of ?p1] by (auto simp: sl_jd_empty_def sl_jd_peek_def Let_def split: if_splits)
  moreover have "length (jp_rest (sk_p s')) \<le> length (jp_rest p2)"
    using a p1 e by (auto simp: k_open_def sl_jd_open_def Let_def split: option.splits if_splits dest!: k_member_less)
  ultimately show ?thesis using l by simp
qed

lemma k_step_less: "k_step ph s = K_GO ph' s' \<Longrightarrow> length (jp_rest (sk_p s')) < length (jp_rest (sk_p s))"
proof (induction ph s rule: k_step.induct)
  case (1 s)
  let ?p = "sl_jskip_ws (sk_p s)"
  have le: "length (jp_rest ?p) \<le> length (jp_rest (sk_p s))" by (rule skip_ws_le)
  have num: "length (jp_rest q) < length (jp_rest ?p)" if "sl_jd_number ?p = Some (t, q)" for t q
    using that skip_ws_le [of ?p] by (auto simp: sl_jd_number_eq split: sum.splits dest!: sl_jparse_number_less)
  have lit: "length (jp_rest q) < length (jp_rest ?p)" if "sl_jmatch_lit ?p l = Some q" "l \<noteq> []" for l q
    using that by (rule sl_jmatch_lit_less)
  have str: "length (jp_rest q) < length (jp_rest ?p)" if "sl_jd_skip_string (jadv 1 ?p) = Some q" for q
    using skip_string_less [OF that] by simp
  define ok where "ok g \<longleftrightarrow> (\<forall>ph s'. g = K_GO ph s' \<longrightarrow> length (jp_rest (sk_p s')) < length (jp_rest ?p))" for g
  have sc: "ok (k_scalar s r)" if "\<And>q. r = Some q \<Longrightarrow> length (jp_rest q) < length (jp_rest ?p)" for r
    using that by (auto simp: ok_def k_scalar_def split: option.splits)
  have "ok (k_scalar s (sl_jd_skip_string (jadv 1 ?p)))" by (rule sc) (rule str)
  moreover have "ok (k_scalar s (map_option snd (sl_jd_number ?p)))" by (rule sc) (use num in force)
  moreover have "ok (k_scalar s (sl_jmatch_lit ?p (a # l)))" for a l by (rule sc) (use lit in blast)
  moreover have "ok (k_open s ?p obj)" for obj using k_open_less by (auto simp: ok_def)
  moreover have "ok K_FAIL" by (simp add: ok_def)
  ultimately have "ok (k_value s)" unfolding k_value_def sl_jd_peek_def Let_def by (simp split: option.split)
  then show ?case using 1 le unfolding ok_def by fastforce
next
  case (2 s)
  obtain c q where q: "sl_jnext (sl_jskip_ws (sk_p s)) = (c, q)" by fastforce
  obtain more closed p where m: "sl_jd_more (sk_p s) (jclose (sk_in_obj s)) = (more, closed, p)" by (metis prod_cases3)
  have "more \<or> closed" using 2 m by (auto simp: k_after_def split: if_splits)
  then obtain d where "c = Some d" using m q by (auto simp: sl_jd_more_def Let_def split: if_splits)
  then have "length (jp_rest p) < length (jp_rest (sk_p s))"
    using m q sl_jnext_less [of "sl_jskip_ws (sk_p s)" d q] skip_ws_le [of "sk_p s"]
    by (auto simp: sl_jd_more_def Let_def split: if_splits)
  then show ?case using 2 m by (fastforce simp: k_after_def Let_def split: if_splits option.splits dest!: k_member_less)
qed

function skip_loop :: "kphase \<Rightarrow> jskip \<Rightarrow> sl_jparser option option" where
  "skip_loop ph s =
     (case k_step ph s of
        K_FAIL \<Rightarrow> Some None
      | K_OUT \<Rightarrow> None
      | K_DONE \<Rightarrow> Some (Some (sk_p s))
      | K_GO ph' s' \<Rightarrow> skip_loop ph' s')"
  by pat_completeness auto
termination
  by (relation "measure (\<lambda>(ph, s). length (jp_rest (sk_p s)))") (auto dest!: k_step_less)

declare skip_loop.simps [simp del]

text \<open>\<open>stack\<close> is what the uninitialised array holds.\<close>

definition sl_jd_skip :: "sl_bytes \<Rightarrow> sl_jparser \<Rightarrow> sl_jparser option option" where
  "sl_jd_skip stack p =
     skip_loop K_VALUE \<lparr>sk_p = p, sk_bits = stack, sk_depth = 0, sk_in_obj = False\<rparr>"

section \<open>Keys and the end of the input\<close>

definition sl_jd_key :: "sl_jparser \<Rightarrow> (string \<times> sl_jparser) option" where
  "sl_jd_key p =
     (case sl_jd_eat p DQUOTE of
        None \<Rightarrow> None
      | Some p \<Rightarrow>
          (let run = takeWhile plain_char (jp_rest p); n = length run in
           if n < length (jp_rest p) \<and> jp_rest p ! n = DQUOTE
           then map_option (\<lambda>p. (run, p)) (sl_jd_eat (jadv (n + 1) p) (CHR '':''))
           else (case sl_jparse_string_raw p of
                   Inl _ \<Rightarrow> None
                 | Inr (s, p) \<Rightarrow> map_option (\<lambda>p. (c_str s, p)) (sl_jd_eat p (CHR '':'')))))"

fun sl_jbytes_eq :: "string \<Rightarrow> string \<Rightarrow> nat \<Rightarrow> bool" where
  "sl_jbytes_eq a b 0 = True"
| "sl_jbytes_eq (x # a) (y # b) (Suc n) = (x = y \<and> sl_jbytes_eq a b n)"
| "sl_jbytes_eq _ _ (Suc n) = False"

text \<open>1: the quoted key \<open>q\<close> and its colon were read; 0: another key; -1: no colon.\<close>

definition sl_jd_key_is :: "sl_jparser \<Rightarrow> string \<Rightarrow> int \<times> sl_jparser" where
  "sl_jd_key_is p q =
     (let p = sl_jskip_ws p in
      if length (jp_rest p) < length q \<or> \<not> sl_jbytes_eq (jp_rest p) q (length q) then (0, p)
      else (let p = jadv (length q) p in
            case sl_jd_eat p (CHR '':'') of None \<Rightarrow> (- 1, p) | Some p \<Rightarrow> (1, p)))"

definition sl_jd_end :: "sl_jparser \<Rightarrow> bool" where
  "sl_jd_end p \<longleftrightarrow> jp_rest (sl_jskip_ws p) = []"

section \<open>The depth scan\<close>

text \<open>What follows a string whose opening quote is read; a backslash takes the next byte along.\<close>

fun depth_string :: "string \<Rightarrow> string" where
  "depth_string [] = []"
| "depth_string (c # s) =
     (if c = DQUOTE then s else if c = BSLASH then depth_string (drop 1 s) else depth_string s)"

lemma depth_string_le: "length (depth_string s) \<le> length s"
proof (induction s rule: depth_string.induct)
  case (2 c s)
  then show ?case by (cases s) auto
qed simp

function depth_loop :: "nat \<Rightarrow> nat \<Rightarrow> string \<Rightarrow> nat" where
  "depth_loop d mx [] = mx"
| "depth_loop d mx (c # s) =
     (if c = DQUOTE then depth_loop d mx (depth_string s)
      else if c = CHR ''['' \<or> c = CHR ''{''
      then (if d + 1 > mx
            then (if d + 1 > SL_JSON_MAX_DEPTH then d + 1 else depth_loop (d + 1) (d + 1) s)
            else depth_loop (d + 1) mx s)
      else if (c = CHR '']'' \<or> c = CHR ''}'') \<and> d > 0 then depth_loop (d - 1) mx s
      else depth_loop d mx s)"
  by pat_completeness auto
termination
  by (relation "measure (\<lambda>(d, mx, s). length s)") (auto simp: less_Suc_eq_le depth_string_le)

definition sl_json_depth :: "string \<Rightarrow> nat" where
  "sl_json_depth s = depth_loop 0 0 s"

text \<open>
  How many bytes \<open>sl_json_stack_for\<close> reserves, if any: \<open>room\<close> is what the task's stack has left
  above the guard margin, \<open>scale\<close> is \<open>SL_JSON_LEVEL_SCALE\<close>.
\<close>

definition sl_json_stack_for :: "nat \<Rightarrow> nat \<Rightarrow> string \<Rightarrow> nat \<Rightarrow> nat option" where
  "sl_json_stack_for scale room s per_level =
     (let per_level = per_level * scale;
          levels = (if length s < SL_JSON_MAX_DEPTH then length s else SL_JSON_MAX_DEPTH)
      in if levels * per_level \<le> room then None
         else (let levels = sl_json_depth s;
                   levels = (if levels > SL_JSON_MAX_DEPTH then SL_JSON_MAX_DEPTH else levels)
               in if levels * per_level \<le> room then None else Some (levels * per_level)))"

section \<open>Scalars\<close>

definition sl_jd_null :: "sl_jparser \<Rightarrow> sl_jparser option" where
  "sl_jd_null p =
     (let (c, p) = sl_jd_peek p in if c = Some (CHR ''n'') then sl_jmatch_lit p ''null'' else None)"

definition sl_jd_bool :: "sl_jparser \<Rightarrow> (bool \<times> sl_jparser) option" where
  "sl_jd_bool p =
     (let (c, p) = sl_jd_peek p in
      case (if c = Some (CHR ''t'') then sl_jmatch_lit p ''true'' else None) of
        Some p \<Rightarrow> Some (True, p)
      | None \<Rightarrow>
          (case (if c = Some (CHR ''f'') then sl_jmatch_lit p ''false'' else None) of
             Some p \<Rightarrow> Some (False, p)
           | None \<Rightarrow> None))"

definition sl_jd_str :: "sl_jparser \<Rightarrow> (string \<times> sl_jparser) option" where
  "sl_jd_str p =
     (case sl_jd_eat p DQUOTE of
        None \<Rightarrow> None
      | Some p \<Rightarrow>
          (case sl_jparse_string_raw p of Inl _ \<Rightarrow> None | Inr (s, p) \<Rightarrow> Some (c_str s, p)))"

definition sl_jd_bytes :: "sl_jparser \<Rightarrow> (sl_bytes \<times> sl_jparser) option" where
  "sl_jd_bytes p =
     (case sl_jd_str p of
        None \<Rightarrow> None
      | Some (s, p) \<Rightarrow> map_option (\<lambda>b. (b, p)) (sl_json_b64 s))"

definition sl_jd_time :: "sl_jparser \<Rightarrow> ((int \<times> int) \<times> sl_jparser) option" where
  "sl_jd_time p =
     (case sl_jd_eat p DQUOTE of
        None \<Rightarrow> None
      | Some p \<Rightarrow>
          (let run = takeWhile (\<lambda>c. c \<noteq> DQUOTE \<and> c \<noteq> BSLASH) (jp_rest p); n = length run in
           if n < length (jp_rest p) \<and> jp_rest p ! n = DQUOTE
           then (case sl_jt_parse run of Inl _ \<Rightarrow> None | Inr t \<Rightarrow> Some (t, jadv (n + 1) p))
           else (case sl_jparse_string_raw p of
                   Inl _ \<Rightarrow> None
                 | Inr (s, p) \<Rightarrow> (case sl_jt_parse (c_str s) of Inl _ \<Rightarrow> None | Inr t \<Rightarrow> Some (t, p)))))"

text \<open>A plain integer token in one pass: the sign, the magnitude and what follows.\<close>

definition sl_jd_int_fast :: "sl_jparser \<Rightarrow> (bool \<times> nat \<times> sl_jparser) option" where
  "sl_jd_int_fast p =
     (let s = jp_rest p;
          ng = (s \<noteq> [] \<and> hd s = CHR ''-'');
          s = (if ng then tl s else s)
      in if s = [] then None
         else
           (let ds = (if hd s = CHR ''0'' then ''0'' else takeWhile is_digit s) in
            if hd s \<noteq> CHR ''0'' \<and> (\<not> is_digit (hd s) \<or> length ds > 18) then None
            else if (case drop (length ds) s of [] \<Rightarrow> False | c # _ \<Rightarrow> c \<in> {CHR ''.'', CHR ''e'', CHR ''E''}) then None
            else Some (ng, dval 0 ds, jadv ((if ng then 1 else 0) + length ds) p)))"

definition jd_int :: "sl_jparser \<Rightarrow> (bool \<times> nat \<times> sl_jparser) option" where
  "jd_int p =
     (let p = sl_jskip_ws p in
      case sl_jd_int_fast p of
        Some r \<Rightarrow> Some r
      | None \<Rightarrow>
          (case sl_jd_number p of
             None \<Rightarrow> None
           | Some (text, p) \<Rightarrow>
               (case sl_json_num_int_n text of SL_JSON_INT_OK neg mag \<Rightarrow> Some (neg, mag, p) | _ \<Rightarrow> None)))"

definition sl_jd_signed :: "sl_jparser \<Rightarrow> int \<Rightarrow> int \<Rightarrow> (int \<times> sl_jparser) option" where
  "sl_jd_signed p lo hi =
     (case jd_int p of
        None \<Rightarrow> None
      | Some (neg, mag, p) \<Rightarrow>
          if (\<not> neg \<and> int mag > hi) \<or> (neg \<and> mag > neg_lim lo) then None
          else Some (mag_value neg mag, p))"

definition sl_jd_unsigned :: "sl_jparser \<Rightarrow> nat \<Rightarrow> (nat \<times> sl_jparser) option" where
  "sl_jd_unsigned p hi =
     (case jd_int p of
        None \<Rightarrow> None
      | Some (neg, mag, p) \<Rightarrow> if (neg \<and> mag \<noteq> 0) \<or> mag > hi then None else Some (mag, p))"

definition sl_jd_i8 :: "sl_jparser \<Rightarrow> (int \<times> sl_jparser) option" where
  "sl_jd_i8 p = sl_jd_signed p (- (2 ^ 7)) (2 ^ 7 - 1)"

definition sl_jd_i16 :: "sl_jparser \<Rightarrow> (int \<times> sl_jparser) option" where
  "sl_jd_i16 p = sl_jd_signed p (- (2 ^ 15)) (2 ^ 15 - 1)"

definition sl_jd_i32 :: "sl_jparser \<Rightarrow> (int \<times> sl_jparser) option" where
  "sl_jd_i32 p = sl_jd_signed p (- (2 ^ 31)) (2 ^ 31 - 1)"

definition sl_jd_i64 :: "sl_jparser \<Rightarrow> (int \<times> sl_jparser) option" where
  "sl_jd_i64 p = sl_jd_signed p (- (2 ^ 63)) (2 ^ 63 - 1)"

definition sl_jd_int :: "sl_jparser \<Rightarrow> (int \<times> sl_jparser) option" where
  "sl_jd_int p = sl_jd_signed p (- (2 ^ 63)) (2 ^ 63 - 1)"

definition sl_jd_u8 :: "sl_jparser \<Rightarrow> (nat \<times> sl_jparser) option" where
  "sl_jd_u8 p = sl_jd_unsigned p (2 ^ 8 - 1)"

definition sl_jd_u16 :: "sl_jparser \<Rightarrow> (nat \<times> sl_jparser) option" where
  "sl_jd_u16 p = sl_jd_unsigned p (2 ^ 16 - 1)"

definition sl_jd_u32 :: "sl_jparser \<Rightarrow> (nat \<times> sl_jparser) option" where
  "sl_jd_u32 p = sl_jd_unsigned p (2 ^ 32 - 1)"

definition sl_jd_u64 :: "sl_jparser \<Rightarrow> (nat \<times> sl_jparser) option" where
  "sl_jd_u64 p = sl_jd_unsigned p (2 ^ 64 - 1)"

definition sl_jd_f64 :: "sl_jparser \<Rightarrow> (nat \<times> sl_jparser) option" where
  "sl_jd_f64 p = map_option (apfst jnum_double) (sl_jd_number p)"

end
