(* ===== verification/Sl_Json_Skip.thy ===== *)
theory Sl_Json_Skip
  imports Sl_Json_Tree Sl_Json_Direct
begin

text \<open>
  \<open>sl_jd_skip\<close> walks a value with one bit per open level, in step with the tree parser.
\<close>

section \<open>The readers of the direct decoder against those of the tree\<close>

lemma jd_skip_u_eq: "jd_skip_u p = (case jescape_u p of Inl _ \<Rightarrow> None | Inr (_, p') \<Rightarrow> Some p')"
  by (auto simp: jd_skip_u_def jescape_u_def sl_jd_hex4_def sl_jparse_hex4_def jd_hex4_loop_eq Let_def
      split: sum.splits prod.splits)

lemma jd_skip_escape_eq: "jd_skip_escape p = (case jescape p of Inl _ \<Rightarrow> None | Inr (_, p') \<Rightarrow> Some p')"
proof -
  obtain e q where q: "sl_jnext p = (e, q)" by fastforce
  show ?thesis
  proof (cases e)
    case None
    then show ?thesis by (simp add: jd_skip_escape_def jescape_def q)
  next
    case (Some c)
    have "map_of simple_escapes c = None \<longleftrightarrow> c \<notin> set [DQUOTE, BSLASH, CHR ''/'', CHR ''b'', CHR ''f'', CHR ''n'', CHR ''r'', CHR ''t'']"
      by (auto simp: map_of_eq_None_iff simple_escapes_def)
    then show ?thesis using Some q
      by (cases "map_of simple_escapes c") (auto simp: jd_skip_escape_def jescape_def jd_skip_u_eq)
  qed
qed

lemma skip_string_loop: "sl_jd_skip_string p = (case string_loop p b of Inl _ \<Rightarrow> None | Inr (_, p') \<Rightarrow> Some p')"
proof (induction p b rule: string_loop.induct)
  case (1 p b)
  obtain e q where q: "sl_jnext p = (e, q)" by fastforce
  show ?case
  proof (cases e)
    case None
    then show ?thesis using q by (simp add: string_loop.simps [of p] sl_jd_skip_string.simps [of p])
  next
    case (Some c)
    have "\<not> code BSLASH < 32" by (simp add: BSLASH_def code_def)
    then show ?thesis using q Some "1.IH"(1) [OF q [symmetric] Some] "1.IH"(2) [OF q [symmetric] Some]
      by (auto simp: string_loop.simps [of p] sl_jd_skip_string.simps [of p] jd_skip_escape_eq split: sum.splits)
  qed
qed

lemma skip_string_raw: "sl_jd_skip_string p = (case sl_jparse_string_raw p of Inl _ \<Rightarrow> None | Inr (_, p') \<Rightarrow> Some p')"
proof -
  let ?b = "\<lparr>jb_text = [], jb_cap = 0\<rparr>"
  have "(\<exists>r. string_loop p ?b = Inr (r, p')) \<longleftrightarrow> (\<exists>v. sl_jparse_string_raw p = Inr (v, p'))" for p'
    using string_loop_sound [of p ?b _ p'] string_loop_complete [of _ _ p p' ?b] sl_jparse_string_raw_iff [of p _ p'] by blast
  then show ?thesis unfolding skip_string_loop [of p ?b]
    by (cases "string_loop p ?b"; cases "sl_jparse_string_raw p") (fastforce split: prod.splits)+
qed

lemma skip_key_eq:
  "skip_key p =
     (let q = sl_jskip_ws p in
      if sl_jpeek q \<noteq> Some DQUOTE then None
      else (case sl_jparse_string_raw (jadv 1 q) of
              Inl _ \<Rightarrow> None
            | Inr (k, q) \<Rightarrow>
                (let (c, q) = sl_jnext (sl_jskip_ws q) in if c \<noteq> Some (CHR '':'') then None else Some q)))"
  unfolding skip_key_def sl_jd_eat_def sl_jd_peek_def Let_def skip_string_raw
  by (auto simp: sl_jnext_def sl_jpeek_def split: sum.splits list.splits)

definition k_opened :: "jskip \<Rightarrow> sl_jparser \<Rightarrow> bool \<Rightarrow> kgoes" where
  "k_opened s p obj =
     (let (closed, p) = sl_jd_empty p (jclose obj) in
      if closed then K_GO K_AFTER (s\<lparr>sk_p := p\<rparr>)
      else (case bits_set (sk_bits s) (sk_depth s) obj of
              None \<Rightarrow> K_OUT
            | Some b \<Rightarrow>
                k_member obj (s\<lparr>sk_p := p, sk_bits := b, sk_depth := sk_depth s + 1, sk_in_obj := obj\<rparr>)))"

lemma k_value_jread:
  "k_value k =
     (case jread (sl_jskip_ws (sk_p k)) of
        Inl _ \<Rightarrow> K_FAIL
      | Inr (v, p) \<Rightarrow> if is_container v then k_opened k p (is_obj v) else K_GO K_AFTER (k\<lparr>sk_p := p\<rparr>))"
proof -
  let ?q = "sl_jskip_ws (sk_p k)"
  have op: "k_open k ?q obj = (if Suc (jp_depth ?q) \<le> SL_JSON_MAX_DEPTH
      then k_opened k ((jadv 1 ?q)\<lparr>jp_depth := Suc (jp_depth ?q)\<rparr>) obj else K_FAIL)"
    if "sl_jpeek ?q = Some (if obj then CHR ''{'' else CHR ''['')" for obj
    using that by (simp add: k_open_def k_opened_def sl_jd_open_def sl_jd_eat_def sl_jd_peek_def)
  show ?thesis
  proof (cases "sl_jpeek ?q")
    case None
    then show ?thesis by (simp add: k_value_def sl_jd_peek_def jread_def)
  next
    case (Some c)
    have kv: "k_value k =
         (if c = DQUOTE then k_scalar k (sl_jd_skip_string (jadv 1 ?q))
          else if c = CHR ''-'' \<or> is_digit c then k_scalar k (map_option snd (sl_jd_number ?q))
          else if c = CHR ''t'' then k_scalar k (sl_jmatch_lit ?q ''true'')
          else if c = CHR ''f'' then k_scalar k (sl_jmatch_lit ?q ''false'')
          else if c = CHR ''n'' then k_scalar k (sl_jmatch_lit ?q ''null'')
          else if c = CHR ''['' \<or> c = CHR ''{'' then k_open k ?q (c = CHR ''{'')
          else K_FAIL)" by (simp add: k_value_def sl_jd_peek_def Let_def Some)
    consider "c = DQUOTE" | "c = CHR ''-'' \<or> is_digit c" "c \<noteq> DQUOTE" "c \<noteq> CHR ''{''" "c \<noteq> CHR ''[''" | "c = CHR ''t''" | "c = CHR ''f''" | "c = CHR ''n''"
      | obj where "c = (if obj then CHR ''{'' else CHR ''['')"
      | "c \<noteq> DQUOTE" "\<not> (c = CHR ''-'' \<or> is_digit c)" "c \<notin> {CHR ''t'', CHR ''f'', CHR ''n'', CHR ''['', CHR ''{''}"
    proof -
      have "c = CHR ''{'' \<or> c = CHR ''['' \<Longrightarrow> \<exists>obj. c = (if obj then CHR ''{'' else CHR ''['')" by metis
      then show thesis using that digit_distinct [of c] by (auto simp: DQUOTE_def)
    qed
    then show ?thesis
    proof cases
      case 1
      then show ?thesis unfolding kv jread_def Some
        by (auto simp: k_scalar_def skip_string_raw is_container_def split: sum.splits)
    next
      case 2
      then show ?thesis unfolding kv jread_def Some
        by (auto simp: k_scalar_def sl_jd_number_eq is_container_def split: sum.splits)
    next
      case (6 obj)
      have "\<not> is_digit c" "c \<noteq> DQUOTE" "c \<noteq> CHR ''-''" "c \<notin> {CHR ''t'', CHR ''f'', CHR ''n''}" "c = CHR ''['' \<or> c = CHR ''{''" "(c = CHR ''{'') = obj"
        using 6 by (auto simp: is_digit_def DQUOTE_def)
      then show ?thesis unfolding kv jread_def Some using op [of obj] 6 Some
        by (simp add: is_container_def is_obj_def Let_def)
    qed (auto simp: kv jread_def Some k_scalar_def is_container_def is_digit_def DQUOTE_def split: option.splits)
  qed
qed

section \<open>The bit stack\<close>

lemma and_7: "n AND 7 = n mod (8 :: nat)"
  using take_bit_eq_mask [of 3 n] by (simp add: take_bit_eq_mod mask_eq_exp_minus_1)

lemma bits_set_get:
  assumes "bits_set b d obj = Some b'"
  shows "length b' = length b" "bits_get b' d = Some obj" "e \<noteq> d \<Longrightarrow> bits_get b' e = bits_get b e"
proof -
  let ?i = "d div 8" and ?m = "push_bit (d mod 8) 1 :: byte"
  have b: "?i < length b" "b' = b[?i := (if obj then b ! ?i OR ?m else b ! ?i AND NOT ?m)]"
    using assms by (auto simp: bits_set_def Let_def and_7 drop_bit_eq_div split: if_splits)
  show "length b' = length b" using b by simp
  have one: "drop_bit n w AND 1 \<noteq> 0 \<longleftrightarrow> bit w n" for w :: byte and n
    by (simp add: and_one_eq bit_iff_odd_drop_bit odd_iff_mod_2_eq_one)
  have get: "bits_get x e = (if e div 8 \<ge> length x then None else Some (bit (x ! (e div 8)) (e mod 8)))" for x e
    unfolding bits_get_def Let_def and_7 one by (simp add: drop_bit_eq_div)
  have m: "bit (2 ^ (d mod 8) :: byte) n \<longleftrightarrow> n = d mod 8" if "n < 8" for n using that by (auto simp: bit_exp_iff)
  show "bits_get b' d = Some obj" using b by (simp add: get m bit_or_iff bit_and_iff bit_not_iff)
  show "bits_get b' e = bits_get b e" if "e \<noteq> d"
  proof (cases "e div 8 = ?i")
    case True
    then have "e mod 8 \<noteq> d mod 8" using that by (metis div_mult_mod_eq)
    then show ?thesis using b True by (simp add: get m bit_or_iff bit_and_iff bit_not_iff)
  qed (use b in \<open>simp add: get\<close>)
qed

lemma bits_set_Some: "d < 8 * length b \<Longrightarrow> \<exists>b'. bits_set b d obj = Some b'"
  by (simp add: bits_set_def Let_def drop_bit_eq_div)

section \<open>Both loops in step\<close>

definition jkinds :: "jstate \<Rightarrow> bool list" where
  "jkinds s = map (\<lambda>f. is_obj (js_store s ! jf_v f)) (js_frames s)"

text \<open>The bits below \<open>length ks\<close> are the kinds \<open>ks\<close>, innermost first.\<close>

definition bits_are :: "sl_bytes \<Rightarrow> bool list \<Rightarrow> bool" where
  "bits_are b ks \<longleftrightarrow> (\<forall>i < length ks. bits_get b i = Some (rev ks ! i))"

definition in_step :: "nat \<Rightarrow> jstate \<Rightarrow> jskip \<Rightarrow> bool" where
  "in_step d0 s k \<longleftrightarrow>
     sk_p k = js_p s \<and> sk_depth k = length (js_frames s) \<and> length (sk_bits k) = OBJ_STACK \<and>
     (\<forall>f \<in> set (js_frames s). jf_v f < length (js_store s)) \<and>
     (js_frames s \<noteq> [] \<longrightarrow> sk_in_obj k = hd (jkinds s)) \<and> bits_are (sk_bits k) (jkinds s) \<and>
     jp_depth (js_p s) = d0 + length (js_frames s) \<and>
     (js_frames s \<noteq> [] \<longrightarrow> jp_depth (js_p s) \<le> SL_JSON_MAX_DEPTH)"

lemma sl_jplace_obj: "x < length st \<Longrightarrow> is_obj (fst (sl_jplace st f a) ! x) = is_obj (st ! x)"
  by (cases "jf_v f = x") (auto simp: sl_jplace_def is_obj_def Let_def split: sl_json_val.splits)

lemma jkinds_jdone:
  assumes "\<forall>f \<in> set (js_frames s). jf_v f < length (js_store s)"
  shows "jkinds (jdone s p new) = jkinds s"
proof -
  have v: "map jf_v (js_frames (jlink s a)) = map jf_v (js_frames s)" for a
    by (auto simp: jlink_def sl_jplace_def Let_def split: list.splits prod.splits sl_json_val.splits)
  have o: "is_obj (js_store (jlink s a) ! x) = is_obj (js_store s ! x)" if "x < length (js_store s)" for a x
    using sl_jplace_obj [OF that] by (auto simp: jlink_def split: list.splits prod.splits) (metis fst_conv)+
  have "jkinds (jdone s p new) =
      map (\<lambda>a. is_obj ((js_store (jlink s (length (js_store s))) @ new) ! a)) (map jf_v (js_frames (jlink s (length (js_store s)))))"
    by (simp add: jkinds_def jdone_def)
  also have "\<dots> = map (\<lambda>a. is_obj (js_store s ! a)) (map jf_v (js_frames s))"
    unfolding v using assms by (auto simp: nth_append o)
  also have "\<dots> = jkinds s" by (simp add: jkinds_def)
  finally show ?thesis .
qed

lemma jdone_frames: "length (js_frames (jdone s p new)) = length (js_frames s)"
  "\<forall>f \<in> set (js_frames s). jf_v f < n \<Longrightarrow> \<forall>f \<in> set (js_frames (jdone s p new)). jf_v f < n"
  by (auto simp: jdone_def jlink_def sl_jplace_def Let_def split: list.splits prod.splits sl_json_val.splits)

lemma bits_are_mono: "bits_are b ks \<Longrightarrow> bits_are b (drop n ks)"
  unfolding bits_are_def
proof (intro allI impI)
  fix i
  assume "\<forall>i<length ks. bits_get b i = Some (rev ks ! i)" "i < length (drop n ks)"
  moreover have "rev (drop n ks) ! i = rev ks ! i" if "i < length (drop n ks)" using that by (simp add: rev_nth)
  ultimately show "bits_get b i = Some (rev (drop n ks) ! i)" by simp
qed

lemma bits_are_push:
  assumes "bits_set b (length ks) obj = Some b'" "bits_are b ks"
  shows "bits_are b' (obj # ks)"
  unfolding bits_are_def
proof (intro allI impI)
  fix i
  assume "i < length (obj # ks)"
  then show "bits_get b' i = Some (rev (obj # ks) ! i)"
    using bits_set_get(2) [OF assms(1)] bits_set_get(3) [OF assms(1), of i] assms(2)
    by (cases "i = length ks") (auto simp: bits_are_def nth_append)
qed

lemma k_member_True:
  "k_member True k = (case skip_key (sk_p k) of None \<Rightarrow> K_FAIL | Some p \<Rightarrow> K_GO K_VALUE (k\<lparr>sk_p := p\<rparr>))"
  "k_member False k = K_GO K_VALUE k"
  by (simp_all add: k_member_def)

definition run_go :: "kgoes \<Rightarrow> sl_jparser option option" where
  "run_go g = (case g of K_FAIL \<Rightarrow> Some None | K_OUT \<Rightarrow> None | K_DONE \<Rightarrow> None | K_GO ph k \<Rightarrow> skip_loop ph k)"

lemma run_go_simps [simp]: "run_go K_FAIL = Some None" "run_go K_OUT = None" "run_go (K_GO ph k) = skip_loop ph k"
  by (simp_all add: run_go_def)

lemma skip_loop_step: "k_step ph k \<noteq> K_DONE \<Longrightarrow> skip_loop ph k = run_go (k_step ph k)"
  by (subst skip_loop.simps) (simp add: run_go_def split: kgoes.splits)

text \<open>What the tree parser leaves of the answer: whether it accepts, and where it is then.\<close>

definition janswer :: "jphase \<Rightarrow> jstate \<Rightarrow> sl_jparser option option" where
  "janswer ph s = Some (case jloop ph s of Inl _ \<Rightarrow> None | Inr s' \<Rightarrow> Some (js_p s'))"

lemma janswer_fail: "jstep ph s = J_FAIL e \<Longrightarrow> janswer ph s = Some None"
  by (simp add: janswer_def jloop.simps [of ph s])

lemma janswer_go: "jstep ph s = J_GO ph' s' \<Longrightarrow> janswer ph s = janswer ph' s'"
  by (simp add: janswer_def jloop.simps [of ph s])

lemma in_step_done:
  assumes "in_step d0 s k" "jp_depth p = jp_depth (js_p s)"
  shows "in_step d0 (jdone s p [v]) (k\<lparr>sk_p := p\<rparr>)"
proof -
  have f: "\<forall>f \<in> set (js_frames s). jf_v f < length (js_store s)" using assms(1) by (simp add: in_step_def)
  have l: "length (js_store (jdone s p [v])) = Suc (length (js_store s))" "js_p (jdone s p [v]) = p" by (simp_all add: jdone_def)
  have "\<forall>f \<in> set (js_frames (jdone s p [v])). jf_v f < Suc (length (js_store s))"
    using jdone_frames(2) [of s "length (js_store s)"] f by fastforce
  then show ?thesis using assms jkinds_jdone [OF f, of p "[v]"] jdone_frames(1) [of s p "[v]"]
    by (auto simp: in_step_def l)
qed

lemma in_step_open:
  assumes "in_step d0 s k" "jp_depth p = Suc (jp_depth (js_p s))" "jp_depth p \<le> SL_JSON_MAX_DEPTH" "is_obj v = obj"
  obtains b where "bits_set (sk_bits k) (sk_depth k) obj = Some b"
    "in_step d0 (jopened s p v) (k\<lparr>sk_p := p, sk_bits := b, sk_depth := sk_depth k + 1, sk_in_obj := obj\<rparr>)"
proof -
  have f: "\<forall>f \<in> set (js_frames s). jf_v f < length (js_store s)" using assms(1) by (simp add: in_step_def)
  have d: "sk_depth k = length (js_frames s)" "sk_depth k < SL_JSON_MAX_DEPTH" using assms by (auto simp: in_step_def)
  then have "sk_depth k < 8 * length (sk_bits k)" using assms(1) by (simp add: in_step_def OBJ_STACK_def SL_JSON_MAX_DEPTH_def)
  then obtain b where b: "bits_set (sk_bits k) (sk_depth k) obj = Some b" using bits_set_Some by blast
  have kinds: "jkinds (jopened s p v) = obj # jkinds s"
    using jkinds_jdone [OF f, of p "[v]"] assms(4) by (simp add: jkinds_def jopened_def jdone_def nth_append)
  have l: "length (js_store (jopened s p v)) = Suc (length (js_store s))" "js_p (jopened s p v) = p"
    "js_frames (jopened s p v) = \<lparr>jf_v = length (js_store s), jf_cap = 0\<rparr> # js_frames (jdone s p [v])"
    by (simp_all add: jopened_def jdone_def)
  have "\<forall>f \<in> set (js_frames (jdone s p [v])). jf_v f < Suc (length (js_store s))"
    using jdone_frames(2) [of s "length (js_store s)"] f by fastforce
  moreover have "bits_are b (obj # jkinds s)"
    using bits_are_push [of "sk_bits k" "jkinds s" obj b] b d assms(1) by (simp add: in_step_def jkinds_def)
  ultimately have "in_step d0 (jopened s p v) (k\<lparr>sk_p := p, sk_bits := b, sk_depth := sk_depth k + 1, sk_in_obj := obj\<rparr>)"
    using assms bits_set_get(1) [OF b] jdone_frames(1) [of s p "[v]"] kinds by (auto simp: in_step_def l)
  then show thesis using that b by blast
qed

lemma in_step_p: "in_step d0 s k \<Longrightarrow> jp_depth p = jp_depth (js_p s) \<Longrightarrow> in_step d0 (s\<lparr>js_p := p\<rparr>) (k\<lparr>sk_p := p\<rparr>)"
  by (auto simp: in_step_def jkinds_def)

lemma in_step_key:
  assumes "in_step d0 s k" "jp_depth p = jp_depth (js_p s)"
  shows "in_step d0 (jadd_key (s\<lparr>js_p := p\<rparr>) key) (k\<lparr>sk_p := p\<rparr>)"
proof (cases "js_frames s")
  case Nil
  then show ?thesis using assms in_step_p by (simp add: jadd_key_def)
next
  case (Cons f fs)
  have k: "jkinds (jadd_key (s\<lparr>js_p := p\<rparr>) key) = jkinds s"
    using assms(1) Cons by (auto simp: jadd_key_def jkinds_def Let_def in_step_def is_obj_def nth_list_update split: sl_json_val.splits)
  moreover have "length (js_frames (jadd_key (s\<lparr>js_p := p\<rparr>) key)) = length (js_frames s)"
    "length (js_store (jadd_key (s\<lparr>js_p := p\<rparr>) key)) = length (js_store s)"
    using Cons by (auto simp: jadd_key_def Let_def split: sl_json_val.splits)
  moreover have "\<forall>f \<in> set (js_frames (jadd_key (s\<lparr>js_p := p\<rparr>) key)). jf_v f < length (js_store s)"
    using assms(1) Cons by (auto simp: jadd_key_def Let_def in_step_def split: sl_json_val.splits)
  ultimately show ?thesis using assms by (simp add: in_step_def) (metis length_0_conv)
qed

lemma in_step_top_ok: "in_step d0 s k \<Longrightarrow> top_ok s"
  by (auto simp: in_step_def top_ok_def split: list.splits)

lemma jvalue_step_eq:
  assumes "jread (sl_jskip_ws (js_p s)) = Inr (v, p)" "top_ok s"
  shows "jvalue_step s =
    (if is_container v
     then (let q = sl_jskip_ws p in
           if sl_jpeek q = Some (jclose (is_obj v))
           then J_GO J_AFTER (jdone s ((jadv 1 q)\<lparr>jp_depth := jp_depth q - 1\<rparr>) [v])
           else J_GO (if is_obj v then J_KEY else J_VALUE) (jopened s q v))
     else J_GO J_AFTER (jdone s p [v]))"
  using assms by (auto simp: jvalue_step_def sl_jv_new_def jdone_def jopened_def jpop_def jlink_app Let_def)

lemma skip_ws_depth [simp]: "jp_depth (sl_jskip_ws p) = jp_depth p"
  by (simp add: sl_jskip_ws_def)

lemma jread_depth:
  assumes "jread q = Inr (v, p)"
  shows "is_container v \<Longrightarrow> jp_depth p = Suc (jp_depth q) \<and> jp_depth p \<le> SL_JSON_MAX_DEPTH"
    "\<not> is_container v \<Longrightarrow> jp_depth p = jp_depth q"
  using assms by (auto elim!: jread_cases dest: jtakes_depth)

lemma in_step_value:
  assumes IH: "\<And>ph s' k'. jstep J_VALUE s = J_GO ph s' \<Longrightarrow> in_step d0 s' k' \<Longrightarrow>
      (case ph of J_VALUE \<Rightarrow> skip_loop K_VALUE k' | J_AFTER \<Rightarrow> skip_loop K_AFTER k' | J_KEY \<Rightarrow> run_go (k_member True k')) = janswer ph s'"
    and i: "in_step d0 s k"
  shows "skip_loop K_VALUE k = janswer J_VALUE s"
proof -
  have p: "sk_p k = js_p s" using i by (simp add: in_step_def)
  have "k_value k \<noteq> K_DONE"
    by (auto simp: k_value_jread k_opened_def k_member_def Let_def split: sum.splits prod.splits option.splits if_splits)
  then have l: "skip_loop K_VALUE k = run_go (k_value k)" using skip_loop_step [of K_VALUE k] by simp
  show ?thesis
  proof (cases "jread (sl_jskip_ws (js_p s))")
    case (Inl e)
    then show ?thesis using janswer_fail [of J_VALUE s e] by (simp add: l k_value_jread p jvalue_step_def)
  next
    case (Inr r)
    obtain v q where r: "r = (v, q)" by fastforce
    note step = jvalue_step_eq [OF Inr [unfolded r] in_step_top_ok [OF i]]
    note dep = jread_depth [OF Inr [unfolded r]]
    show ?thesis
    proof (cases "is_container v")
      case False
      then have "jstep J_VALUE s = J_GO J_AFTER (jdone s q [v])" using step by simp
      then show ?thesis using IH [OF _ in_step_done [OF i, of q v]] dep(2) False janswer_go
        by (simp add: l k_value_jread p Inr r)
    next
      case True
      let ?q = "sl_jskip_ws q"
      have d: "jp_depth q = Suc (jp_depth (js_p s))" "jp_depth q \<le> SL_JSON_MAX_DEPTH" using dep(1) [OF True] by simp_all
      have kv: "k_value k = k_opened k q (is_obj v)" using True by (simp add: k_value_jread p Inr r)
      show ?thesis
      proof (cases "sl_jpeek ?q = Some (jclose (is_obj v))")
        case close: True
        let ?q' = "(jadv 1 ?q)\<lparr>jp_depth := jp_depth ?q - 1\<rparr>"
        have "jstep J_VALUE s = J_GO J_AFTER (jdone s ?q' [v])" using step True close by simp
        moreover have "k_opened k q (is_obj v) = K_GO K_AFTER (k\<lparr>sk_p := ?q'\<rparr>)"
          using close by (simp add: k_opened_def sl_jd_empty_def sl_jd_peek_def Let_def)
        ultimately show ?thesis using IH [OF _ in_step_done [OF i, of ?q' v]] d janswer_go by (simp add: l kv)
      next
        case no_close: False
        have g: "jstep J_VALUE s = J_GO (if is_obj v then J_KEY else J_VALUE) (jopened s ?q v)" using step True no_close by simp
        obtain b where b: "bits_set (sk_bits k) (sk_depth k) (is_obj v) = Some b"
          "in_step d0 (jopened s ?q v) (k\<lparr>sk_p := ?q, sk_bits := b, sk_depth := sk_depth k + 1, sk_in_obj := is_obj v\<rparr>)"
          using in_step_open [OF i, of ?q v "is_obj v"] d by auto
        have "k_opened k q (is_obj v) =
            k_member (is_obj v) (k\<lparr>sk_p := ?q, sk_bits := b, sk_depth := sk_depth k + 1, sk_in_obj := is_obj v\<rparr>)"
          using no_close b(1) by (simp add: k_opened_def sl_jd_empty_def sl_jd_peek_def Let_def)
        then show ?thesis using IH [OF g b(2)] janswer_go [OF g] by (simp add: l kv k_member_True split: if_splits)
      qed
    qed
  qed
qed

lemma sl_jnext_depth: "sl_jnext p = (c, q) \<Longrightarrow> jp_depth q = jp_depth p"
  by (auto simp: sl_jnext_def split: list.splits)

lemma in_step_keys:
  assumes IH: "\<And>ph s' k'. jstep J_KEY s = J_GO ph s' \<Longrightarrow> in_step d0 s' k' \<Longrightarrow>
      (case ph of J_VALUE \<Rightarrow> skip_loop K_VALUE k' | J_AFTER \<Rightarrow> skip_loop K_AFTER k' | J_KEY \<Rightarrow> run_go (k_member True k')) = janswer ph s'"
    and i: "in_step d0 s k"
  shows "run_go (k_member True k) = janswer J_KEY s"
proof -
  have p: "sk_p k = js_p s" using i by (simp add: in_step_def)
  let ?q = "sl_jskip_ws (js_p s)"
  show ?thesis
  proof (cases "sl_jpeek ?q = Some DQUOTE")
    case False
    then show ?thesis using janswer_fail [of J_KEY s] by (simp add: k_member_True skip_key_eq p jkey_step_def Let_def)
  next
    case True
    show ?thesis
    proof (cases "sl_jparse_string_raw (jadv 1 ?q)")
      case (Inl e)
      then show ?thesis using True janswer_fail [of J_KEY s] by (simp add: k_member_True skip_key_eq p jkey_step_def Let_def)
    next
      case (Inr r)
      obtain key q1 where r: "r = (key, q1)" by fastforce
      obtain c q2 where c: "sl_jnext (sl_jskip_ws q1) = (c, q2)" by fastforce
      have "jp_depth q1 = jp_depth (js_p s)"
        using Inr r by (auto simp: sl_jparse_string_raw_iff dest: jtakes_depth)
      then have d: "jp_depth q2 = jp_depth (js_p s)" using sl_jnext_depth [OF c] by simp
      show ?thesis
      proof (cases "c = Some (CHR '':'')")
        case False
        then show ?thesis using True Inr r c janswer_fail [of J_KEY s]
          by (simp add: k_member_True skip_key_eq p jkey_step_def Let_def)
      next
        case colon: True
        have g: "jstep J_KEY s = J_GO J_VALUE (jadd_key (s\<lparr>js_p := q2\<rparr>) key)"
          using True Inr r c colon by (simp add: jkey_step_def Let_def)
        have "skip_key (sk_p k) = Some q2" using True Inr r c colon by (simp add: skip_key_eq p Let_def)
        then show ?thesis using IH [OF g in_step_key [OF i d]] janswer_go [OF g] by (simp add: k_member_True)
      qed
    qed
  qed
qed

lemma in_step_after:
  assumes IH: "\<And>ph s' k'. jstep J_AFTER s = J_GO ph s' \<Longrightarrow> in_step d0 s' k' \<Longrightarrow>
      (case ph of J_VALUE \<Rightarrow> skip_loop K_VALUE k' | J_AFTER \<Rightarrow> skip_loop K_AFTER k' | J_KEY \<Rightarrow> run_go (k_member True k')) = janswer ph s'"
    and i: "in_step d0 s k"
  shows "skip_loop K_AFTER k = janswer J_AFTER s"
proof (cases "js_frames s")
  case Nil
  then have "skip_loop K_AFTER k = Some (Some (js_p s))"
    using i by (subst skip_loop.simps) (simp add: k_after_def in_step_def)
  then show ?thesis using jloop_done [OF Nil] by (simp add: janswer_def)
next
  case (Cons f fs)
  have p: "sk_p k = js_p s" "sk_in_obj k = is_obj (js_store s ! jf_v f)" "sk_depth k = Suc (length fs)"
    using i Cons by (simp_all add: in_step_def jkinds_def)
  obtain c q where c: "sl_jnext (sl_jskip_ws (js_p s)) = (c, q)" by fastforce
  have d: "jp_depth q = jp_depth (js_p s)" using sl_jnext_depth [OF c] by simp
  let ?obj = "is_obj (js_store s ! jf_v f)"
  have more: "sl_jd_more (js_p s) (jclose ?obj) =
      (c = Some (CHR '',''), c = Some (jclose ?obj), if c = Some (jclose ?obj) then q\<lparr>jp_depth := jp_depth q - 1\<rparr> else q)"
    by (simp add: sl_jd_more_def p c)
  have nd: "k_after k \<noteq> K_DONE"
    by (auto simp: k_after_def p more k_member_def Let_def split: option.splits)
  then have l: "skip_loop K_AFTER k = run_go (k_after k)" using skip_loop_step [of K_AFTER k] by simp
  consider "c = Some (CHR '','')" | "c \<noteq> Some (CHR '','')" "c = Some (jclose ?obj)" | "c \<noteq> Some (CHR '','')" "c \<noteq> Some (jclose ?obj)" by blast
  then show ?thesis
  proof cases
    case 1
    have g: "jstep J_AFTER s = J_GO (if ?obj then J_KEY else J_VALUE) (s\<lparr>js_p := q\<rparr>)"
      using Cons c 1 by (simp add: jafter_step_def)
    have "c \<noteq> Some (jclose ?obj)" using 1 by (simp add: jclose_def)
    then have "k_after k = k_member ?obj (k\<lparr>sk_p := q\<rparr>)" using 1 by (simp add: k_after_def p more)
    then show ?thesis using IH [OF g in_step_p [OF i d]] janswer_go [OF g] l by (simp add: k_member_True split: if_splits)
  next
    case 2
    let ?q = "q\<lparr>jp_depth := jp_depth q - 1\<rparr>"
    have g: "jstep J_AFTER s = J_GO J_AFTER (jpop q s)" using Cons c 2 by (simp add: jafter_step_def)
    have kinds: "jkinds (jpop q s) = tl (jkinds s)" by (simp add: jkinds_def jpop_def map_tl)
    have bits: "bits_are (sk_bits k) (tl (jkinds s))"
      using bits_are_mono [of "sk_bits k" "jkinds s" 1] i by (simp add: in_step_def drop_Suc)
    define obj' where "obj' = (if fs = [] then sk_in_obj k else hd (tl (jkinds s)))"
    have "bits_get (sk_bits k) (length fs - 1) = Some (hd (tl (jkinds s)))" if "fs \<noteq> []"
    proof -
      have l: "length (tl (jkinds s)) = length fs" using Cons by (simp add: jkinds_def)
      then have "rev (tl (jkinds s)) ! (length fs - 1) = hd (tl (jkinds s))"
        using that by (metis diff_Suc_1' hd_rev last_conv_nth length_0_conv length_rev rev_is_Nil_conv rev_rev_ident One_nat_def)
      moreover have "length fs - 1 < length (tl (jkinds s))" using l that by simp
      then have "bits_get (sk_bits k) (length fs - 1) = Some (rev (tl (jkinds s)) ! (length fs - 1))"
        using bits unfolding bits_are_def by blast
      ultimately show ?thesis by simp
    qed
    then have "k_after k = K_GO K_AFTER (k\<lparr>sk_p := ?q, sk_depth := length fs, sk_in_obj := obj'\<rparr>)"
      using 2 p by (cases "fs = []") (auto simp: k_after_def more obj'_def Let_def)
    moreover have "in_step d0 (jpop q s) (k\<lparr>sk_p := ?q, sk_depth := length fs, sk_in_obj := obj'\<rparr>)"
      using i Cons d kinds bits by (auto simp: in_step_def jpop_def obj'_def)
    ultimately show ?thesis using IH [OF g] janswer_go [OF g] l by simp
  next
    case 3
    have "k_after k = K_FAIL" using 3 by (simp add: k_after_def p more)
    then show ?thesis using Cons c 3 janswer_fail [of J_AFTER s] l by (simp add: jafter_step_def)
  qed
qed

lemma skip_in_step:
  "in_step d0 s k \<Longrightarrow>
    (case ph of J_VALUE \<Rightarrow> skip_loop K_VALUE k | J_AFTER \<Rightarrow> skip_loop K_AFTER k | J_KEY \<Rightarrow> run_go (k_member True k)) = janswer ph s"
proof (induction ph s arbitrary: k rule: jloop.induct)
  case (1 ph s)
  then show ?case
    by (cases ph) (simp_all add: in_step_value [of s d0 k] in_step_after [of s d0 k] in_step_keys [of s d0 k] del: jstep.simps)
qed

text \<open>
  C5: skipping a value accepts exactly what the tree parser accepts, from any position and depth
  and whatever the uninitialised bit stack holds, ends at the same place, and never touches the
  bit stack outside its 64 bytes.
\<close>
theorem sl_jd_skip_exact:
  assumes "length stack = OBJ_STACK"
  shows "sl_jd_skip stack p = Some (case sl_jparse_value p of Inl _ \<Rightarrow> None | Inr (_, p') \<Rightarrow> Some p')"
proof -
  let ?s = "\<lparr>js_p = p, js_store = [], js_frames = [], js_root = None\<rparr>"
  have "in_step (jp_depth p) ?s \<lparr>sk_p = p, sk_bits = stack, sk_depth = 0, sk_in_obj = False\<rparr>"
    using assms by (simp add: in_step_def jkinds_def bits_are_def)
  from skip_in_step [OF this, of J_VALUE] show ?thesis
    by (auto simp: sl_jd_skip_def janswer_def sl_jparse_value_def split: sum.splits)
qed

text \<open>A skip over an array, with a stack of zeros.\<close>
theorem sl_jd_skip_exact_witness:
  "\<exists>q. sl_jd_skip (replicate OBJ_STACK 0) \<lparr>jp_rest = ''[]'', jp_pos = 0, jp_depth = 0\<rparr> = Some (Some q)"
proof -
  have "jvalue ''[]'' (JArr [])" using jv_arr0 [of "[]"] by simp
  then have j: "json_text ''[]'' (JArr [])" unfolding json_text_def by (metis append_Nil append_Nil2 ws_simps(1))
  obtain st where st: "sl_json_parse ''[]'' = Inr (st, Some 0)"
    using sl_json_parse_complete [OF j] by (auto simp: SL_JSON_MAX_DEPTH_def)
  then obtain v q where "sl_jparse_value \<lparr>jp_rest = ''[]'', jp_pos = 0, jp_depth = 0\<rparr> = Inr (v, q)"
    by (auto simp: sl_json_parse_def split: sum.splits)
  then show ?thesis using sl_jd_skip_exact [of "replicate OBJ_STACK 0" "\<lparr>jp_rest = ''[]'', jp_pos = 0, jp_depth = 0\<rparr>"] by simp
qed

end
