(* ===== verification/Sl_Json_Scalar.thy ===== *)
theory Sl_Json_Scalar
  imports Sl_Json_Tree Sl_Json_Direct
begin

text \<open>
  Exact integers from the text of a number, and the readers of the direct decoder against the
  tree: the contract of a reader is a locale, with one interpretation for each scalar type.
\<close>

section \<open>Integers are read exactly\<close>

text \<open>What the value \<open>v * 10 ^ k\<close> decodes to.\<close>

definition int_spec :: "bool \<Rightarrow> nat \<Rightarrow> nat \<Rightarrow> json_int" where
  "int_spec neg n d =
     (if \<not> d dvd n then SL_JSON_INT_FRACTION
      else if n div d < 2 ^ 64 then SL_JSON_INT_OK neg (n div d) else SL_JSON_INT_TOO_BIG)"

definition scaled :: "nat \<Rightarrow> int \<Rightarrow> nat \<times> nat" where
  "scaled v k = (if 0 \<le> k then (v * 10 ^ nat k, 1) else (v, 10 ^ nat (- k)))"

lemma digit_code_range: "is_digit c \<Longrightarrow> 48 \<le> code c \<and> code c \<le> 57"
  by (simp add: is_digit_def char_less_eq_code)

lemma dval_less: "list_all is_digit s \<Longrightarrow> dval 0 s < 10 ^ length s"
proof (induction s)
  case (Cons c s)
  then have "code c - 48 \<le> 9" using digit_code_range [of c] by (simp add: le_diff_conv)
  then have "(code c - 48) * 10 ^ length s \<le> 9 * 10 ^ length s" by (rule mult_right_mono) simp
  moreover have "dval 0 s < 10 ^ length s" using Cons by simp
  ultimately have "(code c - 48) * 10 ^ length s + dval 0 s < 9 * 10 ^ length s + 10 ^ length s"
    by (rule add_le_less_mono)
  then show ?case using dval_shift [of "code c - 48" s] by simp
qed simp

lemma dval_zero_iff: "list_all is_digit s \<Longrightarrow> dval 0 s = 0 \<longleftrightarrow> \<not> list_ex (\<lambda>c. c \<noteq> CHR ''0'') s"
proof (induction s)
  case (Cons c s)
  have "code c - 48 = 0 \<longleftrightarrow> c = CHR ''0''"
    using Cons.prems digit_code_range [of c] code_inject [of c "CHR ''0''"] by (simp del: code_inject) linarith
  then show ?case using Cons dval_shift [of "code c - 48" s] by auto
qed simp

lemma int_digits_loop_eq: "acc < 2 ^ 64 \<Longrightarrow>
    int_digits_loop acc s = (if dval acc s < 2 ^ 64 then Some (dval acc s) else None)"
proof (induction s arbitrary: acc)
  case (Cons c s)
  have "acc * 10 + (code c - 48) \<le> dval acc (c # s)" using dval_mono [of "acc * 10 + (code c - 48)" s] by simp
  then show ?case using Cons by auto
qed simp

lemma int_scale_loop_eq: "acc < 2 ^ 64 \<Longrightarrow> acc \<noteq> 0 \<Longrightarrow>
    int_scale_loop k acc = (if acc * 10 ^ k < 2 ^ 64 then Some (acc * 10 ^ k) else None)"
proof (induction k arbitrary: acc)
  case (Suc k)
  have le: "acc * 10 \<le> acc * 10 ^ Suc k" by simp
  show ?case
  proof (cases "acc * 10 < 2 ^ 64")
    case True
    then show ?thesis using Suc.IH [of "acc * 10"] Suc.prems by (simp add: mult.assoc)
  next
    case False
    then have "\<not> acc * 10 ^ Suc k < 2 ^ 64" using le by linarith
    then show ?thesis using False by simp
  qed
qed simp

text \<open>The digits and the scale as the code uses them.\<close>

definition int_core :: "bool \<Rightarrow> string \<Rightarrow> int \<Rightarrow> json_int" where
  "int_core neg ds scale =
     (let keep = (if scale < 0 then (if nat (- scale) \<ge> length ds then 0 else length ds - nat (- scale)) else length ds)
      in if list_ex (\<lambda>c. c \<noteq> CHR ''0'') (drop keep ds) then SL_JSON_INT_FRACTION
         else (case int_digits_loop 0 (take keep ds) of
                 None \<Rightarrow> SL_JSON_INT_TOO_BIG
               | Some acc \<Rightarrow>
                   (case (if acc \<noteq> 0 then int_scale_loop (nat scale) acc else Some acc) of
                      None \<Rightarrow> SL_JSON_INT_TOO_BIG
                    | Some acc \<Rightarrow> SL_JSON_INT_OK neg acc)))"

lemma int_core_exact:
  assumes "list_all is_digit ds"
  shows "int_core neg ds k = (case scaled (dval 0 ds) k of (n, d) \<Rightarrow> int_spec neg n d)"
proof (cases "0 \<le> k")
  case True
  let ?v = "dval 0 ds"
  have "?v \<le> ?v * 10 ^ nat k" by simp
  then have "\<not> ?v < 2 ^ 64 \<longrightarrow> \<not> ?v * 10 ^ nat k < 2 ^ 64" by linarith
  then show ?thesis using True
    by (auto simp: int_core_def scaled_def int_spec_def int_digits_loop_eq int_scale_loop_eq split: if_splits)
next
  case False
  define j where "j = nat (- k)"
  have j: "0 < j" "nat k = 0" using False by (simp_all add: j_def)
  define keep where "keep = (if j \<ge> length ds then 0 else length ds - j)"
  let ?a = "dval 0 (take keep ds)" and ?b = "dval 0 (drop keep ds)"
  have v: "dval 0 ds = ?a * 10 ^ (length ds - keep) + ?b"
    using dval_shift [of ?a "drop keep ds"] append_take_drop_id [of keep ds] dval_simps(3) [of 0 "take keep ds" "drop keep ds"]
    by (metis length_drop)
  have dr: "list_all is_digit (drop keep ds)" using assms by (meson list_all_iff in_set_dropD)
  have b: "?b < 10 ^ (length ds - keep)" using dval_less [OF dr] by simp
  have le: "length ds - keep \<le> j" by (simp add: keep_def)
  have bj: "?b < 10 ^ j" by (rule order.strict_trans2 [OF b]) (rule power_increasing [OF le], simp)
  have vj: "dval 0 ds = ?a * 10 ^ j + ?b"
  proof (cases "j \<ge> length ds")
    case True
    then show ?thesis using v by (simp add: keep_def)
  next
    case False
    then have "length ds - keep = j" by (simp add: keep_def)
    then show ?thesis using v by simp
  qed
  have dvd: "10 ^ j dvd dval 0 ds \<longleftrightarrow> ?b = 0"
    unfolding vj using bj by (metis dvd_add_right_iff dvd_imp_le dvd_0_right dvd_triv_right gr0I linorder_not_less)
  have div: "dval 0 ds div 10 ^ j = ?a" unfolding vj using bj by simp
  have z: "list_ex (\<lambda>c. c \<noteq> CHR ''0'') (drop keep ds) \<longleftrightarrow> ?b \<noteq> 0" using dval_zero_iff [OF dr] by simp
  have "int_core neg ds k =
     (if ?b \<noteq> 0 then SL_JSON_INT_FRACTION
      else (case (if ?a < 2 ^ 64 then Some ?a else None) of None \<Rightarrow> SL_JSON_INT_TOO_BIG | Some acc \<Rightarrow> SL_JSON_INT_OK neg acc))"
    using False j z unfolding int_core_def Let_def j_def [symmetric] by (simp add: int_digits_loop_eq flip: keep_def split: if_splits)
  then show ?thesis using False div dvd by (simp add: scaled_def int_spec_def flip: j_def)
qed


section \<open>The text of a number\<close>

lemma is_digit_simps [simp]: "\<not> is_digit (CHR ''.'')" "\<not> is_digit (CHR ''e'')" "\<not> is_digit (CHR ''E'')"
    "\<not> is_digit (CHR ''-'')" "\<not> is_digit (CHR ''+'')" "is_digit (CHR ''0'')"
  by (simp_all add: is_digit_def)

lemma digits_all: "digits s \<Longrightarrow> list_all is_digit s"
  by (simp add: digits_def)

lemma jint_digits: "jint i \<Longrightarrow> list_all is_digit i \<and> i \<noteq> []"
  by (auto simp: jint_def digits_def)

lemma takeWhile_until: "list_all P a \<Longrightarrow> b = [] \<or> \<not> P (hd b) \<Longrightarrow> takeWhile P (a @ b) = a \<and> dropWhile P (a @ b) = b"
  by (induction a) (cases b; auto)+

lemma jexp_hd: "jexp e \<Longrightarrow> e = [] \<or> hd e = CHR ''e'' \<or> hd e = CHR ''E''"
  by (auto simp: jexp_def)

lemma jfrac_tl: "jfrac f \<Longrightarrow> list_all is_digit (tl f) \<and> (f = [] \<or> hd f = CHR ''.'')"
  by (auto simp: jfrac_def digits_def)

lemma num_int_parts:
  assumes "sg \<in> {[], ''-''}" "jint i" "jfrac f" "jexp e"
  shows "sl_json_num_int_n (sg @ i @ f @ e) = int_core (sg \<noteq> []) (i @ tl f) (int_exponent e - int (length (tl f)))"
proof -
  have i: "list_all is_digit i" "i \<noteq> []" using jint_digits [OF assms(2)] by blast+
  have f: "list_all is_digit (tl f)" "f = [] \<or> hd f = CHR ''.''" using jfrac_tl [OF assms(3)] by blast+
  have e: "e = [] \<or> hd e = CHR ''e'' \<or> hd e = CHR ''E''" using jexp_hd [OF assms(4)] .
  have "hd i \<noteq> CHR ''-''" using i by (cases i) auto
  then have neg: "(sg @ i @ f @ e \<noteq> [] \<and> hd (sg @ i @ f @ e) = CHR ''-'') = (sg \<noteq> [])"
    and rest: "(if sg \<noteq> [] then tl (sg @ i @ f @ e) else sg @ i @ f @ e) = i @ f @ e"
    using assms(1) i(2) by auto
  have fe: "f @ e = [] \<or> \<not> is_digit (hd (f @ e))" using f(2) e by (cases f) auto
  have e': "e = [] \<or> \<not> is_digit (hd e)" using e by auto
  have dot: "(f @ e \<noteq> [] \<and> hd (f @ e) = CHR ''.'') = (f \<noteq> [])" using f(2) e by (cases f) auto
  have fp: "(if f \<noteq> [] then takeWhile is_digit (tl (f @ e)) else []) = tl f"
    and fr: "(if f \<noteq> [] then dropWhile is_digit (tl (f @ e)) else f @ e) = e"
    using takeWhile_until [OF f(1) e'] by (cases f; simp)+
  show ?thesis
    unfolding sl_json_num_int_n_def Let_def neg rest takeWhile_until [OF i(1) fe, THEN conjunct1]
      takeWhile_until [OF i(1) fe, THEN conjunct2] dot fp fr int_core_def by (rule refl)
qed

lemma dec_ratio_parts:
  assumes "jint i" "jfrac f" "jexp e"
  shows "dec_ratio (i @ f @ e) = scaled (dval 0 (i @ tl f)) (exp_part e - int (length (tl f)))"
proof -
  have i: "list_all is_digit i" using jint_digits [OF assms(1)] by blast
  have f: "list_all is_digit (tl f)" "f = [] \<or> hd f = CHR ''.''" using jfrac_tl [OF assms(2)] by blast+
  have ne: "is_digit c \<Longrightarrow> \<not> is_exp_char c \<and> c \<noteq> CHR ''.''" for c by (auto simp: is_exp_char_def)
  have m: "list_all (\<lambda>c. \<not> is_exp_char c) (i @ f)"
    using i f ne by (cases f) (auto simp: list_all_iff is_exp_char_def)
  have e: "e = [] \<or> \<not> \<not> is_exp_char (hd e)" using jexp_hd [OF assms(3)] by (auto simp: is_exp_char_def)
  have fl: "filter is_digit (i @ f) = i @ tl f"
    using i f by (cases f) (auto simp: list_all_iff)
  have idot: "list_all (\<lambda>c. c \<noteq> CHR ''.'') i" using i ne by (auto simp: list_all_iff)
  have dw: "tl (dropWhile (\<lambda>c. c \<noteq> CHR ''.'') (i @ f)) = tl f"
    using takeWhile_until [OF idot, of f] f(2) by auto
  have w: "takeWhile (\<lambda>c. \<not> is_exp_char c) (i @ f @ e) = i @ f" "dropWhile (\<lambda>c. \<not> is_exp_char c) (i @ f @ e) = e"
    using takeWhile_until [OF m e] by simp_all
  show ?thesis unfolding dec_ratio_def w fl dw scaled_def Let_def by (rule refl)
qed

section \<open>The clamp on the exponent\<close>

lemma exp_loop_clamp: "list_all is_digit s \<Longrightarrow>
    (int_exp_loop a s = int (dval (nat a) s) \<or> 1000000 \<le> int_exp_loop a s \<and> int_exp_loop a s \<le> int (dval (nat a) s))"
  if "0 \<le> a"
  using that
proof (induction s arbitrary: a)
  case (Cons c s)
  show ?case
  proof (cases "a < 1000000")
    case True
    then show ?thesis using Cons.IH [of "a * 10 + int (code c - 48)"] Cons.prems
      by (simp add: nat_add_distrib nat_mult_distrib)
  next
    case False
    have le: "dval (nat a) s \<le> dval (nat a * 10 + (code c - 48)) s"
      using dval_shift [of "nat a" s] dval_shift [of "nat a * 10 + (code c - 48)" s] by simp
    have fix_a: "int_exp_loop a s = a" using False by (induction s) auto
    have "a \<le> int (dval (nat a) s)" using dval_mono [of "nat a" s] Cons.prems(2) by simp
    then show ?thesis using False fix_a le Cons.prems by simp
  qed
qed simp

lemma exponent_clamp:
  assumes "jexp e"
  shows "int_exponent e = exp_part e \<or> 1000000 \<le> int_exponent e \<and> 1000000 \<le> exp_part e
    \<or> int_exponent e \<le> - 1000000 \<and> exp_part e \<le> - 1000000"
proof (cases "e = []")
  case True
  then show ?thesis by (simp add: int_exponent_def exp_part_def)
next
  case False
  then obtain c sg ds where x: "e = c # sg @ ds" "c \<in> {CHR ''e'', CHR ''E''}" "sg \<in> {[], ''+'', ''-''}" "digits ds"
    using assms by (auto simp: jexp_def)
  have d: "ds \<noteq> []" "hd ds \<noteq> CHR ''+''" "hd ds \<noteq> CHR ''-''" "list_all is_digit ds"
    using x(4) by (cases ds; auto simp: digits_def)+
  have c: "int_exp_loop 0 ds = int (dval 0 ds) \<or> 1000000 \<le> int_exp_loop 0 ds \<and> int_exp_loop 0 ds \<le> int (dval 0 ds)"
    using exp_loop_clamp [of 0 ds] d(4) by simp
  obtain g r where g: "ds = g # r" using d(1) by (cases ds) auto
  have u: "int_exponent e = (if sg = ''-'' then - int_exp_loop 0 ds else int_exp_loop 0 ds)"
    "exp_part e = (if sg = ''-'' then - int (dval 0 ds) else int (dval 0 ds))"
    using x(1-3) d(2,3) g by (auto simp: int_exponent_def exp_part_def)
  show ?thesis using c unfolding u by auto
qed

lemma spec_large:
  assumes "20 \<le> k"
  shows "(case scaled v k of (n, d) \<Rightarrow> int_spec neg n d) = (if v = 0 then SL_JSON_INT_OK neg 0 else SL_JSON_INT_TOO_BIG)"
proof (cases "v = 0")
  case True
  then show ?thesis using assms by (simp add: scaled_def int_spec_def)
next
  case False
  have "(10 :: nat) ^ 20 \<le> 10 ^ nat k" by (rule power_increasing) (use assms in simp_all)
  also have "\<dots> \<le> v * 10 ^ nat k" using False by simp
  finally have "\<not> v * 10 ^ nat k < 2 ^ 64" by simp
  then show ?thesis using False assms by (simp add: scaled_def int_spec_def)
qed

lemma spec_small:
  assumes "k < 0" "v < 10 ^ m" "m \<le> nat (- k)"
  shows "(case scaled v k of (n, d) \<Rightarrow> int_spec neg n d) = (if v = 0 then SL_JSON_INT_OK neg 0 else SL_JSON_INT_FRACTION)"
proof (cases "v = 0")
  case True
  then show ?thesis using assms by (simp add: scaled_def int_spec_def)
next
  case False
  have "v < 10 ^ nat (- k)" by (rule order.strict_trans2 [OF assms(2)]) (rule power_increasing [OF assms(3)], simp)
  then have "\<not> 10 ^ nat (- k) dvd v" using False by (metis dvd_imp_le gr0I linorder_not_less)
  then show ?thesis using False assms by (simp add: scaled_def int_spec_def)
qed

definition unsigned_part :: "string \<Rightarrow> string" where
  "unsigned_part s = (case s of [] \<Rightarrow> [] | c # r \<Rightarrow> if c = CHR ''-'' then r else s)"

definition is_negative :: "string \<Rightarrow> bool" where
  "is_negative s \<longleftrightarrow> s \<noteq> [] \<and> hd s = CHR ''-''"

text \<open>C13: exact integers. The integer decoder works on the text of a number, not on its
  \<open>double\<close>: for every text of the number grammar (of less than 999000 bytes) the result is the
  mathematical value \<open>n / d\<close> of the text, with fraction and exponent, when that is an integer below
  \<open>2 ^ 64\<close>; it is an error of its own when the value is not an integer, and another when it does
  not fit. The clamp on the exponent never changes the outcome.\<close>
theorem sl_json_num_int_exact:
  assumes "jnum s" "length s < 999000"
  shows "sl_json_num_int s =
    (case dec_ratio (unsigned_part s) of
       (n, d) \<Rightarrow> if \<not> d dvd n then SL_JSON_INT_FRACTION
                 else if n div d < 2 ^ 64 then SL_JSON_INT_OK (is_negative s) (n div d)
                 else SL_JSON_INT_TOO_BIG)"
proof -
  obtain sg i f e where x: "s = sg @ i @ f @ e" "sg \<in> {[], ''-''}" "jint i" "jfrac f" "jexp e"
    using assms(1) by (auto simp: jnum_def)
  let ?ds = "i @ tl f" and ?fl = "int (length (tl f))"
  have i: "i \<noteq> []" "list_all is_digit i" using jint_digits [OF x(3)] by blast+
  have ds: "list_all is_digit ?ds" using i jfrac_tl [OF x(4)] by simp
  have len: "length ?ds < 999000" "?fl < 999000" using assms(2) x(1) by auto
  have hd_i: "hd i \<noteq> CHR ''-''" using i by (cases i) auto
  then have u: "unsigned_part s = i @ f @ e" and neg: "is_negative s = (sg \<noteq> [])"
    using x(1,2) i(1) by (cases i; auto simp: unsigned_part_def is_negative_def)+
  have v: "dval 0 ?ds < 10 ^ length ?ds" by (rule dval_less [OF ds])
  have "(case scaled (dval 0 ?ds) (int_exponent e - ?fl) of (n, d) \<Rightarrow> int_spec neg n d)
    = (case scaled (dval 0 ?ds) (exp_part e - ?fl) of (n, d) \<Rightarrow> int_spec neg n d)" for neg
    using exponent_clamp [OF x(5)]
  proof (elim disjE conjE)
    assume a: "1000000 \<le> int_exponent e" "1000000 \<le> exp_part e"
    then show ?thesis using len(2) by (simp add: spec_large)
  next
    assume a: "int_exponent e \<le> - 1000000" "exp_part e \<le> - 1000000"
    then have "length ?ds \<le> nat (- (int_exponent e - ?fl))" "length ?ds \<le> nat (- (exp_part e - ?fl))"
      using len by linarith+
    then show ?thesis using a spec_small [OF _ v] by simp
  qed simp
  then show ?thesis
    unfolding sl_json_num_int_def u neg dec_ratio_parts [OF x(3-5)]
    by (simp add: x(1) num_int_parts [OF x(2-5)] int_core_exact [OF ds] int_spec_def)
qed


theorem sl_json_num_int_exact_witness:
  "sl_json_num_int ''-12.50e2'' = SL_JSON_INT_OK True 1250"
proof -
  have e: "jexp ''e2''" unfolding jexp_def digits_def
    by (rule disjI2, rule exI [of _ "CHR ''e''"], rule exI [of _ "[]"], rule exI [of _ "''2''"]) (simp add: is_digit_def)
  have n: "jnum ''-12.50e2''"
    unfolding jnum_def
    by (rule exI [of _ "''-''"], rule exI [of _ "''12''"], rule exI [of _ "''.50''"], rule exI [of _ "''e2''"])
      (simp add: e jint_def jfrac_def digits_def is_digit_def)
  show ?thesis using sl_json_num_int_exact [OF n] 
    by (simp add: dec_ratio_def unsigned_part_def is_negative_def is_exp_char_def exp_part_def is_digit_def code_def)
qed

section \<open>Direct readers and the tree\<close>

lemma parse_value_scalar:
  assumes "jread (sl_jskip_ws p) = Inr (v, q)" "\<not> is_container v"
  shows "sl_jparse_value p = Inr (([v], Some 0), q)"
proof -
  let ?s = "\<lparr>js_p = p, js_store = [], js_frames = [], js_root = None\<rparr>"
  have "jloop J_VALUE ?s = jloop J_AFTER (jdone ?s q [v])" using assms by (intro jloop_scalar) (simp_all add: top_ok_def)
  also have "\<dots> = Inr (jdone ?s q [v])" by (rule jloop_done) (simp add: jdone_def jlink_def)
  finally show ?thesis by (simp add: sl_jparse_value_def jdone_def jlink_def)
qed

lemma parse_value_error: "jread (sl_jskip_ws p) = Inl e \<Longrightarrow> sl_jparse_value p = Inl e"
  by (simp add: sl_jparse_value_def jloop.simps [of J_VALUE] jvalue_step_def)

text \<open>Once the root is a container it stays one.\<close>

definition root_open :: "jphase \<Rightarrow> jstate \<Rightarrow> bool" where
  "root_open ph s \<longleftrightarrow> js_store s \<noteq> [] \<and> is_container (js_store s ! 0) \<and> js_root s = Some 0 \<and>
     (ph \<noteq> J_AFTER \<longrightarrow> js_frames s \<noteq> [])"

lemma is_container_simps [simp]: "is_container (SL_JV_ARR as)" "is_container (SL_JV_OBJ ms)"
  by (simp_all add: is_container_def)

lemma root_update: "st \<noteq> [] \<Longrightarrow> is_container (st ! 0) \<Longrightarrow> is_container v \<Longrightarrow> is_container (st[i := v] ! 0)"
  by (cases i; cases st) simp_all

lemma sl_jplace_kind:
  assumes "st \<noteq> []" "is_container (st ! 0)"
  shows "fst (sl_jplace st f a) \<noteq> [] \<and> is_container (fst (sl_jplace st f a) ! 0)"
  using assms by (simp add: sl_jplace_def Let_def root_update split: sl_json_val.split)

lemma jlink_root:
  assumes "js_store s \<noteq> []" "is_container (js_store s ! 0)" "js_frames s \<noteq> []" "js_root s = Some 0"
  shows "js_store (jlink s a) \<noteq> [] \<and> is_container (js_store (jlink s a) ! 0) \<and> js_root (jlink s a) = Some 0 \<and> js_frames (jlink s a) \<noteq> []"
proof -
  obtain f fs where f: "js_frames s = f # fs" using assms(3) by (cases "js_frames s") auto
  obtain st f' where p: "sl_jplace (js_store s) f a = (st, f')" by fastforce
  then show ?thesis using sl_jplace_kind [OF assms(1,2), of f a] assms(4) f by (simp add: jlink_def)
qed

lemma jadd_key_root:
  assumes "js_store s \<noteq> []" "is_container (js_store s ! 0)" "js_frames s \<noteq> []" "js_root s = Some 0"
  shows "js_store (jadd_key s k) \<noteq> [] \<and> is_container (js_store (jadd_key s k) ! 0) \<and> js_root (jadd_key s k) = Some 0 \<and> js_frames (jadd_key s k) \<noteq> []"
proof -
  obtain f fs where f: "js_frames s = f # fs" using assms(3) by (cases "js_frames s") auto
  then show ?thesis using assms by (simp add: jadd_key_def Let_def root_update split: sl_json_val.split)
qed

lemma jstep_root: "root_open ph s \<Longrightarrow> jstep ph s = J_GO ph' s' \<Longrightarrow> root_open ph' s'"
proof (cases ph)
  case J_VALUE
  assume r: "root_open ph s" and g: "jstep ph s = J_GO ph' s'"
  obtain v p where v: "jread (sl_jskip_ws (js_p s)) = Inr (v, p)"
    using g J_VALUE by (auto simp: jvalue_step_def split: sum.splits)
  let ?s = "jlink (s\<lparr>js_p := p, js_store := js_store s @ [v]\<rparr>) (length (js_store s))"
  have "js_store ?s \<noteq> [] \<and> is_container (js_store ?s ! 0) \<and> js_root ?s = Some 0 \<and> js_frames ?s \<noteq> []"
    using r J_VALUE by (intro jlink_root) (auto simp: root_open_def nth_append)
  then show ?thesis using g J_VALUE v by (auto simp: jvalue_step_def sl_jv_new_def Let_def root_open_def jpop_def split: if_splits)
next
  case J_AFTER
  assume r: "root_open ph s" and g: "jstep ph s = J_GO ph' s'"
  then show ?thesis using J_AFTER
    by (auto simp: jafter_step_def root_open_def jpop_def Let_def split: list.splits prod.splits if_splits)
next
  case J_KEY
  assume r: "root_open ph s" and g: "jstep ph s = J_GO ph' s'"
  then obtain k q where "ph' = J_VALUE" "s' = jadd_key (s\<lparr>js_p := q\<rparr>) k"
    using J_KEY by (auto simp: jkey_step_def Let_def split: sum.splits prod.splits if_splits)
  then show ?thesis using r J_KEY jadd_key_root [of "s\<lparr>js_p := q\<rparr>" k] by (simp add: root_open_def)
qed

lemma jloop_root: "root_open ph s \<Longrightarrow> jloop ph s = Inr s' \<Longrightarrow> root_open J_AFTER s'"
proof (induction ph s rule: jloop.induct)
  case (1 ph s)
  then show ?case using jstep_root [OF 1(2)]
    by (subst (asm) (2) jloop.simps) (cases "jstep ph s"; auto simp: root_open_def)
qed

lemma parse_value_container:
  assumes "jread (sl_jskip_ws p) = Inr (v, q)" "is_container v" "sl_jparse_value p = Inr ((st, r), q')"
  shows "is_container (st ! 0)"
proof -
  let ?s = "\<lparr>js_p = p, js_store = [], js_frames = [], js_root = None\<rparr>"
  obtain s' where l: "jloop J_VALUE ?s = Inr s'" "st = js_store s'"
    using assms(3) by (auto simp: sl_jparse_value_def split: sum.splits)
  obtain ph' s1 where g: "jstep J_VALUE ?s = J_GO ph' s1" "root_open ph' s1"
    using assms(1,2) by (cases "sl_jpeek (sl_jskip_ws q) = Some (jclose (is_obj v))")
      (auto simp: jvalue_step_def sl_jv_new_def Let_def jlink_def root_open_def jpop_def)
  have "jloop J_VALUE ?s = jloop ph' s1" using g(1) by (subst jloop.simps) simp
  then show ?thesis using jloop_root [OF g(2)] l by (auto simp: root_open_def)
qed

text \<open>
  The contract of a direct reader: it returns what the decoder makes of the scalar at the parser,
  and the decoder takes no container. Then it agrees with parsing the value into a tree and
  decoding its root.
\<close>

locale direct_reader =
  fixes rd :: "sl_jparser \<Rightarrow> ('a \<times> sl_jparser) option"
    and decoder :: "sl_json_val \<Rightarrow> 'a sl_result"
  assumes rd_iff: "rd p = Some (a, q) \<longleftrightarrow> (\<exists>v. jread (sl_jskip_ws p) = Inr (v, q) \<and> decoder v = Inr a)"
    and decoder_scalar: "decoder v = Inr a \<Longrightarrow> \<not> is_container v"
begin

lemma agrees: "rd p = Some (a, q) \<longleftrightarrow> (\<exists>st. sl_jparse_value p = Inr ((st, Some 0), q) \<and> decoder (st ! 0) = Inr a)"
proof
  assume "rd p = Some (a, q)"
  then obtain v where v: "jread (sl_jskip_ws p) = Inr (v, q)" "decoder v = Inr a" using rd_iff by blast
  then show "\<exists>st. sl_jparse_value p = Inr ((st, Some 0), q) \<and> decoder (st ! 0) = Inr a"
    using parse_value_scalar [OF v(1) decoder_scalar [OF v(2)]] by (intro exI [of _ "[v]"]) simp
next
  assume "\<exists>st. sl_jparse_value p = Inr ((st, Some 0), q) \<and> decoder (st ! 0) = Inr a"
  then obtain st where st: "sl_jparse_value p = Inr ((st, Some 0), q)" "decoder (st ! 0) = Inr a" by blast
  show "rd p = Some (a, q)"
  proof (cases "jread (sl_jskip_ws p)")
    case (Inl e)
    then show ?thesis using st parse_value_error by simp
  next
    case (Inr r)
    then obtain v q' where v: "jread (sl_jskip_ws p) = Inr (v, q')" by (cases r) auto
    have "\<not> is_container v" using parse_value_container [OF v _ st(1)] decoder_scalar [OF st(2)] by blast
    then show ?thesis using parse_value_scalar [OF v] st v rd_iff by auto
  qed
qed

lemma reads_text:
  assumes "jvalue x t" "jread (sl_jskip_ws p) = Inr (v, q)" "decoder v = Inr a"
  shows "rd p = Some (a, q)"
  using assms rd_iff by blast

end

section \<open>The scalars of the direct decoder\<close>

lemma skip_idem: "sl_jskip_ws (sl_jskip_ws p) = sl_jskip_ws p"
  by simp

lemma jd_eat_quote:
  "sl_jd_eat p DQUOTE = (if sl_jpeek (sl_jskip_ws p) = Some DQUOTE then Some (jadv 1 (sl_jskip_ws p)) else None)"
  by (simp add: sl_jd_eat_def sl_jd_peek_def Let_def)

lemma char_neq_quote [simp]: "CHR ''t'' \<noteq> DQUOTE" "CHR ''f'' \<noteq> DQUOTE" "CHR ''n'' \<noteq> DQUOTE" "CHR ''-'' \<noteq> DQUOTE"
    "\<not> is_digit (CHR ''t'')" "\<not> is_digit (CHR ''f'')" "\<not> is_digit (CHR ''n'')" "\<not> is_digit DQUOTE"
  by (simp_all add: DQUOTE_def is_digit_def)

lemma jread_quote: "sl_jpeek p = Some DQUOTE \<Longrightarrow>
    jread p = map_sum id (apfst SL_JV_STR) (sl_jparse_string_raw (jadv 1 p))"
  by (simp add: jread_def)

lemma jread_str_iff: "jread p = Inr (SL_JV_STR s, q) \<longleftrightarrow>
    sl_jpeek p = Some DQUOTE \<and> sl_jparse_string_raw (jadv 1 p) = Inr (s, q)"
  by (auto simp: jread_def Let_def map_sum_def split: option.splits if_splits sum.splits)

lemma jread_bool_iff: "jread p = Inr (SL_JV_BOOL b, q) \<longleftrightarrow>
    sl_jpeek p = Some (if b then CHR ''t'' else CHR ''f'') \<and> sl_jmatch_lit p (if b then ''true'' else ''false'') = Some q"
  by (auto simp: jread_def Let_def map_sum_def is_digit_def DQUOTE_def split: option.splits if_splits sum.splits)

lemma jparse_number_peek: "sl_jparse_number p = Inr r \<Longrightarrow> \<exists>c. sl_jpeek p = Some c \<and> (c = CHR ''-'' \<or> is_digit c)"
  by (auto simp: sl_jparse_number_def jnum_int_def Let_def digit_next_iff split: sum.splits if_splits)

lemma jread_num_iff: "jread p = Inr (SL_JV_NUM d t, q) \<longleftrightarrow> sl_jparse_number p = Inr (t, q) \<and> d = jnum_double t"
proof
  assume "jread p = Inr (SL_JV_NUM d t, q)"
  then show "sl_jparse_number p = Inr (t, q) \<and> d = jnum_double t"
    by (auto simp: jread_def Let_def map_sum_def split: option.splits if_splits sum.splits)
next
  assume a: "sl_jparse_number p = Inr (t, q) \<and> d = jnum_double t"
  then obtain c where c: "sl_jpeek p = Some c" "c = CHR ''-'' \<or> is_digit c" using jparse_number_peek by blast
  have "c \<noteq> DQUOTE" "c \<noteq> CHR ''{''" "c \<noteq> CHR ''[''" using c(2) digit_distinct by (auto simp: DQUOTE_def)
  then show "jread p = Inr (SL_JV_NUM d t, q)" using a c by (auto simp: jread_def)
qed

lemma dec_iffs:
  "sl_json_dec_bool v = Inr b \<longleftrightarrow> v = SL_JV_BOOL b"
  "sl_json_dec_str v = Inr s \<longleftrightarrow> (\<exists>t. v = SL_JV_STR t \<and> s = c_str t)"
  "sl_json_dec_bytes v = Inr bs \<longleftrightarrow> (\<exists>t. v = SL_JV_STR t \<and> sl_json_b64 (c_str t) = Some bs)"
  "sl_json_dec_f64 v = Inr d \<longleftrightarrow> (\<exists>t. v = SL_JV_NUM d t)"
  "sl_json_dec_time v = Inr tm \<longleftrightarrow> (\<exists>t. v = SL_JV_STR t \<and> sl_jt_parse (c_str t) = Inr tm)"
  by (cases v; auto simp: sl_json_dec_bool_def sl_json_dec_str_def sl_json_dec_bytes_def sl_json_dec_f64_def sl_json_dec_num_def
      sl_json_dec_time_def split: option.splits sum.splits)+

lemma jread_dec:
  "(\<exists>v. jread p = Inr (v, q) \<and> sl_json_dec_bool v = Inr b) \<longleftrightarrow> jread p = Inr (SL_JV_BOOL b, q)"
  "(\<exists>v. jread p = Inr (v, q) \<and> sl_json_dec_str v = Inr s) \<longleftrightarrow> (\<exists>t. jread p = Inr (SL_JV_STR t, q) \<and> s = c_str t)"
  "(\<exists>v. jread p = Inr (v, q) \<and> sl_json_dec_bytes v = Inr bs) \<longleftrightarrow>
     (\<exists>t. jread p = Inr (SL_JV_STR t, q) \<and> sl_json_b64 (c_str t) = Some bs)"
  "(\<exists>v. jread p = Inr (v, q) \<and> sl_json_dec_f64 v = Inr d) \<longleftrightarrow> (\<exists>t. jread p = Inr (SL_JV_NUM d t, q))"
  "(\<exists>v. jread p = Inr (v, q) \<and> sl_json_dec_time v = Inr tm) \<longleftrightarrow>
     (\<exists>t. jread p = Inr (SL_JV_STR t, q) \<and> sl_jt_parse (c_str t) = Inr tm)"
  by (auto simp: dec_iffs)

interpretation rd_bool: direct_reader sl_jd_bool sl_json_dec_bool
  by (unfold_locales, unfold jread_dec) (auto simp: dec_iffs is_container_def jread_bool_iff sl_jd_bool_def sl_jd_peek_def Let_def
      split: option.splits if_splits)

interpretation rd_str: direct_reader sl_jd_str sl_json_dec_str
  by (unfold_locales, unfold jread_dec) (auto simp: dec_iffs is_container_def jread_str_iff sl_jd_str_def jd_eat_quote
      split: sum.splits option.splits if_splits)

interpretation rd_bytes: direct_reader sl_jd_bytes sl_json_dec_bytes
  by (unfold_locales, unfold jread_dec) (auto simp: dec_iffs is_container_def jread_str_iff sl_jd_bytes_def sl_jd_str_def jd_eat_quote
      split: sum.splits option.splits if_splits)

interpretation rd_f64: direct_reader sl_jd_f64 sl_json_dec_f64
  by (unfold_locales, unfold jread_dec) (auto simp: dec_iffs is_container_def jread_num_iff sl_jd_f64_def sl_jd_number_eq split: sum.splits)

text \<open>A timestamp has no byte that a JSON string would escape or refuse.\<close>

lemma jt_digits_at: "0 \<le> sl_jt_digits s i n \<Longrightarrow> i \<le> j \<Longrightarrow> j < i + n \<Longrightarrow> is_digit (s ! j)"
proof -
  assume a: "0 \<le> sl_jt_digits s i n" "i \<le> j" "j < i + n"
  then have l: "list_all is_digit (take n (drop i s))" "i + n \<le> length s" by (auto simp: sl_jt_digits_def Let_def split: if_splits)
  have "j - i < length (take n (drop i s))" using a l(2) by simp
  then have "is_digit (take n (drop i s) ! (j - i))" using l(1) by (simp only: list_all_length)
  then show ?thesis using a l(2) by simp
qed

definition time_char :: "char \<Rightarrow> bool" where
  "time_char c \<longleftrightarrow> is_digit c \<or> c \<in> set ''-Tt :.Zz+''"

lemma plain_not_NUL: "plain_char c \<Longrightarrow> c \<noteq> NUL"
  by (auto simp: plain_char_def code_def NUL_def)

lemma time_char_plain: "time_char c \<Longrightarrow> plain_char c \<and> c \<noteq> NUL"
  by (rule context_conjI)
    (auto simp: time_char_def plain_char_def DQUOTE_def BSLASH_def is_digit_def char_less_eq_code code_def plain_not_NUL)

lemma jt_fraction_at:
  assumes "jt_fraction s i = Inr (ns, k)"
  shows "i \<le> k \<and> (\<forall>j. i \<le> j \<longrightarrow> j < k \<longrightarrow> time_char (s ! j))"
proof (cases "i < length s \<and> s ! i = CHR ''.''")
  case True
  let ?run = "takeWhile is_digit (drop (i + 1) s)"
  have k: "k = i + 1 + length ?run" using assms True by (auto simp: jt_fraction_def Let_def split: if_splits)
  have "is_digit (s ! j)" if "i + 1 \<le> j" "j < k" for j
  proof -
    have l: "j - (i + 1) < length ?run" using that k by simp
    then have "is_digit (?run ! (j - (i + 1)))" using nth_mem set_takeWhileD by metis
    then show ?thesis using takeWhile_nth [OF l] that k length_takeWhile_le [of is_digit "drop (i + 1) s"] by simp
  qed
  then have "time_char (s ! j)" if "i \<le> j" "j < k" for j
    using that True by (cases "j = i") (auto simp: time_char_def)
  then show ?thesis using k by simp
qed (use assms in \<open>auto simp: jt_fraction_def\<close>)

lemma jt_offset_at:
  assumes "jt_offset s i = Inr (off, k)" "i \<le> j" "j < k"
  shows "time_char (s ! j)"
proof -
  consider "j = i" "k = i + 1" "s ! i = CHR ''Z'' \<or> s ! i = CHR ''z''"
    | "k = i + 6" "0 \<le> sl_jt_digits s (i + 1) 2" "0 \<le> sl_jt_digits s (i + 4) 2" "s ! (i + 3) = CHR '':''"
      "s ! i = CHR ''+'' \<or> s ! i = CHR ''-''"
    using assms by (auto simp: jt_offset_def Let_def split: if_splits)
  then show ?thesis
  proof cases
    case 1
    then show ?thesis by (auto simp: time_char_def)
  next
    case 2
    consider "j = i" | "i + 1 \<le> j" "j < i + 1 + 2" | "j = i + 3" | "i + 4 \<le> j" "j < i + 4 + 2" using assms(2,3) 2(1) by linarith
    then show ?thesis using 2 jt_digits_at [OF 2(2), of j] jt_digits_at [OF 2(3), of j] by cases (auto simp: time_char_def)
  qed
qed

lemma jt_parse_chars:
  assumes "sl_jt_parse s = Inr t"
  shows "list_all plain_char s \<and> c_str s = s"
proof -
  obtain ns i off where x: "length s \<ge> 19" "s ! 4 = CHR ''-''" "s ! 7 = CHR ''-''" "0 \<le> sl_jt_digits s 0 4" "0 \<le> sl_jt_digits s 5 2"
      "0 \<le> sl_jt_digits s 8 2" "time_char (s ! 10)" "0 \<le> sl_jt_digits s 11 2" "0 \<le> sl_jt_digits s 14 2" "0 \<le> sl_jt_digits s 17 2"
      "s ! 13 = CHR '':''" "s ! 16 = CHR '':''" "jt_fraction s 19 = Inr (ns, i)" "jt_offset s i = Inr (off, length s)"
    using assms by (auto simp: sl_jt_parse_def Let_def time_char_def split: if_splits sum.splits prod.splits)
  have "time_char (s ! j)" if j: "j < length s" for j
  proof (cases "j < 19")
    case True
    then consider "j \<in> {4, 7, 13, 16}" | "j = 10" | "0 \<le> j" "j < 0 + 4" | "5 \<le> j" "j < 5 + 2" | "8 \<le> j" "j < 8 + 2" | "11 \<le> j" "j < 11 + 2"
      | "14 \<le> j" "j < 14 + 2" | "17 \<le> j" "j < 17 + 2" by force
    then show ?thesis
      using x(2,3,7,11,12) jt_digits_at [OF x(4)] jt_digits_at [OF x(5)] jt_digits_at [OF x(6)] jt_digits_at [OF x(8)]
        jt_digits_at [OF x(9)] jt_digits_at [OF x(10)]
      by cases (auto simp: time_char_def)
  next
    case False
    then show ?thesis using jt_fraction_at [OF x(13)] jt_offset_at [OF x(14), of j] j by (cases "j < i") auto
  qed
  then have "plain_char (s ! j) \<and> s ! j \<noteq> NUL" if "j < length s" for j using that time_char_plain by blast
  then have p: "list_all plain_char s" and n: "NUL \<notin> set s" by (auto simp: list_all_length in_set_conv_nth)
  have "takeWhile (\<lambda>c. c \<noteq> NUL) s = s" using n by (auto simp: takeWhile_eq_all_conv)
  then show ?thesis using p by (simp add: c_str_def)
qed

lemma jd_time_fast:
  assumes "takeWhile (\<lambda>c. c \<noteq> DQUOTE \<and> c \<noteq> BSLASH) (jp_rest p) = run"
    "length run < length (jp_rest p)" "jp_rest p ! length run = DQUOTE"
  shows "(sl_jt_parse run = Inr t \<and> q = jadv (length run + 1) p) \<longleftrightarrow>
    (\<exists>s. sl_jparse_string_raw p = Inr (s, q) \<and> sl_jt_parse (c_str s) = Inr t)"
proof (cases "list_all plain_char run")
  case True
  have n: "takeWhile plain_char (jp_rest p) = run"
  proof -
    have e: "jp_rest p = run @ DQUOTE # drop (Suc (length run)) (jp_rest p)"
      using assms by (metis append_take_drop_id Cons_nth_drop_Suc takeWhile_eq_take)
    show ?thesis using True by (subst e) (auto simp: list_all_iff takeWhile_append2 plain_char_def)
  qed
  have raw: "sl_jparse_string_raw p = Inr (run, jadv (length run + 1) p)"
    using assms(2,3) by (simp add: sl_jparse_string_raw_def n Let_def)
  show ?thesis
  proof (cases "c_str run = run")
    case True
    then show ?thesis using raw by auto
  next
    case False
    then have "NUL \<in> set run" by (auto simp: c_str_def takeWhile_eq_all_conv)
    moreover have "NUL \<notin> set run" using \<open>list_all plain_char run\<close> plain_not_NUL by (auto simp: list_all_iff)
    ultimately show ?thesis by blast
  qed
next
  case False
  then have no: "sl_jt_parse run \<noteq> Inr t" using jt_parse_chars by blast
  have "\<nexists>s. sl_jparse_string_raw p = Inr (s, q)"
  proof
    assume "\<exists>s. sl_jparse_string_raw p = Inr (s, q)"
    then obtain s x where x: "jchars x s" "jtakes (x @ [DQUOTE]) p q" by (auto simp: sl_jparse_string_raw_iff)
    obtain r where r: "jp_rest p = (x @ [DQUOTE]) @ r" using x(2) by (rule jtakesE)
    have "jchars x s \<Longrightarrow> (x @ DQUOTE # r) ! length run = DQUOTE \<Longrightarrow> length run < length (x @ DQUOTE # r) \<Longrightarrow>
      takeWhile (\<lambda>c. c \<noteq> DQUOTE \<and> c \<noteq> BSLASH) (x @ DQUOTE # r) = run \<Longrightarrow> list_all plain_char run" for run
    proof (induction arbitrary: run rule: jchars.induct)
      case (jchars_plain c b v)
      then show ?case by (cases run) (auto simp: plain_char_def split: if_splits)
    qed (auto simp: BSLASH_def DQUOTE_def split: if_splits)
    then show False using x(1) assms r False by simp
  qed
  then show ?thesis using no by blast
qed

interpretation rd_time: direct_reader sl_jd_time sl_json_dec_time
proof unfold_locales
  fix p a q
  let ?p = "sl_jskip_ws p"
  have tree: "(\<exists>v. jread ?p = Inr (v, q) \<and> sl_json_dec_time v = Inr a) \<longleftrightarrow>
    sl_jpeek ?p = Some DQUOTE \<and> (\<exists>s. sl_jparse_string_raw (jadv 1 ?p) = Inr (s, q) \<and> sl_jt_parse (c_str s) = Inr a)"
    by (auto simp: jread_dec jread_str_iff)
  let ?run = "takeWhile (\<lambda>c. c \<noteq> DQUOTE \<and> c \<noteq> BSLASH) (jp_rest (jadv 1 ?p))"
  show "sl_jd_time p = Some (a, q) \<longleftrightarrow> (\<exists>v. jread ?p = Inr (v, q) \<and> sl_json_dec_time v = Inr a)"
  proof (cases "sl_jpeek ?p = Some DQUOTE")
    case True
    show ?thesis
    proof (cases "length ?run < length (jp_rest (jadv 1 ?p)) \<and> jp_rest (jadv 1 ?p) ! length ?run = DQUOTE")
      case fast: True
      have "sl_jd_time p = Some (a, q) \<longleftrightarrow> sl_jt_parse ?run = Inr a \<and> q = jadv (length ?run + 1) (jadv 1 ?p)"
        using fast True unfolding sl_jd_time_def jd_eat_quote Let_def
        by (auto simp del: jadv_rest jadv_jadv split: sum.splits)
      then show ?thesis using tree True jd_time_fast [OF refl fast [THEN conjunct1] fast [THEN conjunct2], of a q] by blast
    next
      case False
      then show ?thesis using tree True unfolding sl_jd_time_def jd_eat_quote Let_def
        by (auto simp del: jadv_rest jadv_jadv split: sum.splits prod.splits)
    qed
  qed (use tree in \<open>simp add: sl_jd_time_def jd_eat_quote\<close>)
qed (auto simp: dec_iffs is_container_def)

section \<open>Integers of the direct decoder\<close>

lemma jnum_plain:
  assumes "jnum_int p = Inr q" "\<not> (case jp_rest q of [] \<Rightarrow> False | c # _ \<Rightarrow> c \<in> {CHR ''.'', CHR ''e'', CHR ''E''})"
  shows "sl_jparse_number p = Inr (take (jp_pos q - jp_pos p) (jp_rest p), q)"
  using assms by (cases "jp_rest q") (auto simp: sl_jparse_number_def jnum_frac_def jnum_exp_def sl_jpeek_def)

lemma num_int_plain:
  assumes "jint ds" "length ds \<le> 18" "sg \<in> {[], ''-''}"
  shows "sl_json_num_int_n (sg @ ds) = SL_JSON_INT_OK (sg \<noteq> []) (dval 0 ds)"
proof -
  have d: "list_all is_digit ds" using jint_digits [OF assms(1)] by blast
  have "dval 0 ds < 10 ^ length ds" by (rule dval_less [OF d])
  also have "\<dots> \<le> (10 :: nat) ^ 18" using assms(2) by (intro power_increasing) simp_all
  finally have "dval 0 ds < 2 ^ 64" by simp
  then show ?thesis
    using num_int_parts [OF assms(3,1), of "[]" "[]"] int_core_exact [OF d, of "sg \<noteq> []" 0]
    by (simp add: jfrac_def jexp_def int_exponent_def scaled_def int_spec_def)
qed

lemma int_fast_sound:
  assumes "sl_jd_int_fast p = Some (neg, mag, q)"
  shows "\<exists>t. sl_jparse_number p = Inr (t, q) \<and> sl_json_num_int_n t = SL_JSON_INT_OK neg mag"
proof -
  define s where "s = (if neg then tl (jp_rest p) else jp_rest p)"
  define ds where "ds = (if hd s = CHR ''0'' then ''0'' else takeWhile is_digit s)"
  have neg: "neg = (jp_rest p \<noteq> [] \<and> hd (jp_rest p) = CHR ''-'')"
    using assms unfolding sl_jd_int_fast_def Let_def by (auto split: if_splits)
  have x: "s \<noteq> []" "hd s = CHR ''0'' \<or> is_digit (hd s) \<and> length ds \<le> 18"
    "\<not> (case drop (length ds) s of [] \<Rightarrow> False | c # _ \<Rightarrow> c \<in> {CHR ''.'', CHR ''e'', CHR ''E''})"
    "mag = dval 0 ds" "q = jadv ((if neg then 1 else 0) + length ds) p"
    using assms unfolding sl_jd_int_fast_def Let_def neg [symmetric] s_def [symmetric] ds_def [symmetric]
    by (auto split: if_splits)
  let ?sg = "if neg then ''-'' else []"
  have rest: "jp_rest p = ?sg @ s" using neg by (cases "jp_rest p") (auto simp: s_def)
  obtain c r where s: "s = c # r" using x(1) by (cases s) auto
  have ji: "jint ds" "length ds \<le> 18"
    using x(2) s by (auto simp: ds_def jint_def digits_def list_all_iff dest: set_takeWhileD)
  let ?p = "jadv (length ?sg) p"
  have p1: "jp_rest ?p = s" using rest by simp
  have "sl_jpeek p = Some (CHR ''-'') \<longleftrightarrow> neg" using neg by (cases "jp_rest p") (auto simp: sl_jpeek_def)
  then have "jnum_int p = (if hd s = CHR ''0'' then Inr (jadv 1 ?p) else if is_digit (hd s) then Inr (jdigits ?p) else Inl (sl_jerr ?p ''invalid number''))"
    using p1 s by (auto simp: jnum_int_def sl_jpeek_def digit_next_def Let_def)
  then have int: "jnum_int p = Inr q"
    using x(2,5) p1 by (auto simp: ds_def jdigits_def)
  have dq: "jp_rest q = drop (length ds) s" "jp_pos q - jp_pos p = length (?sg @ ds)" using x(5) rest by auto
  have "take (length ds) s = ds" using s by (auto simp: ds_def takeWhile_eq_take [symmetric])
  then have "take (jp_pos q - jp_pos p) (jp_rest p) = ?sg @ ds" unfolding dq(2) rest by simp
  then have "sl_jparse_number p = Inr (?sg @ ds, q)" using jnum_plain [OF int] x(3) dq(1) by simp
  moreover have "sl_json_num_int_n (?sg @ ds) = SL_JSON_INT_OK neg mag"
    using num_int_plain [OF ji, of ?sg] x(4) by auto
  ultimately show ?thesis by blast
qed

lemma jd_int_iff:
  "jd_int p = Some (neg, mag, q) \<longleftrightarrow>
    (\<exists>t. sl_jparse_number (sl_jskip_ws p) = Inr (t, q) \<and> sl_json_num_int t = SL_JSON_INT_OK neg mag)"
proof (cases "sl_jd_int_fast (sl_jskip_ws p)")
  case None
  then show ?thesis
    by (auto simp: jd_int_def Let_def sl_jd_number_eq sl_json_num_int_def split: sum.splits json_int.splits)
next
  case (Some r)
  then obtain neg' mag' q' where r: "sl_jd_int_fast (sl_jskip_ws p) = Some (neg', mag', q')" by (cases r) auto
  then show ?thesis using int_fast_sound [OF r] by (auto simp: jd_int_def Let_def sl_json_num_int_def)
qed

lemma dec_int_iffs:
  "sl_json_dec_signed v lo hi tname = Inr a \<longleftrightarrow>
     (\<exists>d t neg mag. v = SL_JV_NUM d t \<and> sl_json_num_int t = SL_JSON_INT_OK neg mag \<and>
        \<not> ((\<not> neg \<and> int mag > hi) \<or> (neg \<and> mag > neg_lim lo)) \<and> a = mag_value neg mag)"
  "sl_json_dec_unsigned v uhi tname = Inr b \<longleftrightarrow>
     (\<exists>d t neg. v = SL_JV_NUM d t \<and> sl_json_num_int t = SL_JSON_INT_OK neg b \<and> \<not> (neg \<and> b \<noteq> 0) \<and> b \<le> uhi)"
  by (cases v; auto simp: sl_json_dec_signed_def sl_json_dec_unsigned_def sl_json_dec_num_def split: json_int.splits)+

lemma jread_dec_int:
  "(\<exists>v. jread p = Inr (v, q) \<and> sl_json_dec_signed v lo hi tname = Inr a) \<longleftrightarrow>
     (\<exists>t neg mag. sl_jparse_number p = Inr (t, q) \<and> sl_json_num_int t = SL_JSON_INT_OK neg mag \<and>
        \<not> ((\<not> neg \<and> int mag > hi) \<or> (neg \<and> mag > neg_lim lo)) \<and> a = mag_value neg mag)"
  "(\<exists>v. jread p = Inr (v, q) \<and> sl_json_dec_unsigned v uhi tname = Inr b) \<longleftrightarrow>
     (\<exists>t neg. sl_jparse_number p = Inr (t, q) \<and> sl_json_num_int t = SL_JSON_INT_OK neg b \<and> \<not> (neg \<and> b \<noteq> 0) \<and> b \<le> uhi)"
  unfolding dec_int_iffs using jread_num_iff by blast+

interpretation rd_signed: direct_reader "\<lambda>p. sl_jd_signed p lo hi" "\<lambda>v. sl_json_dec_signed v lo hi tname"
proof (unfold_locales, unfold jread_dec_int)
  fix p a q
  have "sl_jd_signed p lo hi = Some (a, q) \<longleftrightarrow> (\<exists>neg mag. jd_int p = Some (neg, mag, q) \<and>
        \<not> ((\<not> neg \<and> int mag > hi) \<or> (neg \<and> mag > neg_lim lo)) \<and> a = mag_value neg mag)"
    by (auto simp: sl_jd_signed_def split: option.splits if_splits)
  then show "sl_jd_signed p lo hi = Some (a, q) \<longleftrightarrow> (\<exists>t neg mag. sl_jparse_number (sl_jskip_ws p) = Inr (t, q) \<and>
        sl_json_num_int t = SL_JSON_INT_OK neg mag \<and> \<not> ((\<not> neg \<and> int mag > hi) \<or> (neg \<and> mag > neg_lim lo)) \<and> a = mag_value neg mag)"
    unfolding jd_int_iff by blast
qed (auto simp: dec_int_iffs is_container_def)

interpretation rd_unsigned: direct_reader "\<lambda>p. sl_jd_unsigned p hi" "\<lambda>v. sl_json_dec_unsigned v hi tname"
proof (unfold_locales, unfold jread_dec_int)
  fix p b q
  have "sl_jd_unsigned p hi = Some (b, q) \<longleftrightarrow> (\<exists>neg. jd_int p = Some (neg, b, q) \<and> \<not> (neg \<and> b \<noteq> 0) \<and> b \<le> hi)"
    by (auto simp: sl_jd_unsigned_def split: option.splits if_splits)
  then show "sl_jd_unsigned p hi = Some (b, q) \<longleftrightarrow> (\<exists>t neg. sl_jparse_number (sl_jskip_ws p) = Inr (t, q) \<and>
        sl_json_num_int t = SL_JSON_INT_OK neg b \<and> \<not> (neg \<and> b \<noteq> 0) \<and> b \<le> hi)"
    unfolding jd_int_iff by blast
qed (auto simp: dec_int_iffs is_container_def)

text \<open>
  C4: the direct decoder is an optimisation. Each of its scalar readers, the integers with their
  one-pass fast path and their range, doubles, booleans, strings, base64 and timestamps, succeeds
  from any state of the parser exactly when parsing the value into a tree and decoding its root
  does, with the same result and the same position.
\<close>
theorem sl_jd_scalars_agree:
  "(sl_jd_signed p lo hi = Some (i, q) \<longleftrightarrow>
      (\<exists>st. sl_jparse_value p = Inr ((st, Some 0), q) \<and> sl_json_dec_signed (st ! 0) lo hi tname = Inr i)) \<and>
   (sl_jd_unsigned p uhi = Some (u, q) \<longleftrightarrow>
      (\<exists>st. sl_jparse_value p = Inr ((st, Some 0), q) \<and> sl_json_dec_unsigned (st ! 0) uhi tname = Inr u)) \<and>
   (sl_jd_f64 p = Some (d, q) \<longleftrightarrow>
      (\<exists>st. sl_jparse_value p = Inr ((st, Some 0), q) \<and> sl_json_dec_f64 (st ! 0) = Inr d)) \<and>
   (sl_jd_bool p = Some (b, q) \<longleftrightarrow>
      (\<exists>st. sl_jparse_value p = Inr ((st, Some 0), q) \<and> sl_json_dec_bool (st ! 0) = Inr b)) \<and>
   (sl_jd_str p = Some (s, q) \<longleftrightarrow>
      (\<exists>st. sl_jparse_value p = Inr ((st, Some 0), q) \<and> sl_json_dec_str (st ! 0) = Inr s)) \<and>
   (sl_jd_bytes p = Some (bs, q) \<longleftrightarrow>
      (\<exists>st. sl_jparse_value p = Inr ((st, Some 0), q) \<and> sl_json_dec_bytes (st ! 0) = Inr bs)) \<and>
   (sl_jd_time p = Some (tm, q) \<longleftrightarrow>
      (\<exists>st. sl_jparse_value p = Inr ((st, Some 0), q) \<and> sl_json_dec_time (st ! 0) = Inr tm))"
  by (intro conjI rd_signed.agrees rd_unsigned.agrees rd_f64.agrees rd_bool.agrees rd_str.agrees rd_bytes.agrees rd_time.agrees)

end
