(* ===== verification/Sl_Json_Depth.thy ===== *)
theory Sl_Json_Depth
  imports Sl_Json_Scalar
begin

text \<open>
  The depth scan that sizes the stack of a recursive decoder.
\<close>

section \<open>The depth scan\<close>

definition depth_plain :: "char \<Rightarrow> bool" where
  "depth_plain c \<longleftrightarrow> c \<notin> {DQUOTE, CHR ''['', CHR ''{'', CHR '']'', CHR ''}''}"

lemma depth_loop_plain: "list_all depth_plain x \<Longrightarrow> depth_loop d mx (x @ r) = depth_loop d mx r"
  by (induction x) (auto simp: depth_plain_def)

lemma xdigit_not_quote: "is_xdigit c \<Longrightarrow> c \<noteq> DQUOTE \<and> c \<noteq> BSLASH"
  by (auto simp: is_xdigit_def is_digit_def DQUOTE_def BSLASH_def char_less_eq_code code_def)

lemma depth_string_hex: "list_all is_xdigit h \<Longrightarrow> depth_string (h @ r) = depth_string r"
  by (induction h) (auto dest: xdigit_not_quote)

lemma depth_string_chars: "jchars b v \<Longrightarrow> depth_string (b @ DQUOTE # r) = r"
proof (induction rule: jchars.induct)
  case (jchars_unit h cp b v)
  then show ?case by (simp add: depth_string_hex hex_unit_def) (simp add: DQUOTE_def BSLASH_def)
next
  case (jchars_pair h hi l lo b v)
  then show ?case by (simp add: depth_string_hex hex_unit_def) (simp add: DQUOTE_def BSLASH_def depth_string_hex)
qed (auto simp: plain_char_def DQUOTE_def BSLASH_def)

lemma depth_plain_digit: "is_digit c \<Longrightarrow> depth_plain c"
  by (auto simp: depth_plain_def is_digit_def DQUOTE_def char_less_eq_code code_def)

lemma ws_depth_plain: "is_ws c \<Longrightarrow> depth_plain c"
  by (auto simp: depth_plain_def)

lemma depth_plain_ws: "ws w \<Longrightarrow> list_all depth_plain w"
  using ws_depth_plain by (simp add: ws_def list_all_iff)

lemma depth_plain_chars: "depth_plain (CHR '','')" "depth_plain (CHR '':'')" "depth_plain (CHR ''-'')" "depth_plain (CHR ''+'')"
    "depth_plain (CHR ''.'')" "depth_plain (CHR ''e'')" "depth_plain (CHR ''E'')" "list_all depth_plain ''null''"
    "list_all depth_plain ''true''" "list_all depth_plain ''false''"
  by (simp_all add: depth_plain_def DQUOTE_def)

lemma depth_plain_num: "jnum s \<Longrightarrow> list_all depth_plain s"
proof -
  assume "jnum s"
  then obtain sg i f e where x: "s = sg @ i @ f @ e" "sg \<in> {[], ''-''}" "jint i" "jfrac f" "jexp e" by (auto simp: jnum_def)
  have d: "list_all depth_plain ds" if "list_all is_digit ds" for ds using that depth_plain_digit by (auto simp: list_all_iff)
  have "list_all depth_plain i" using jint_digits [OF x(3)] d by blast
  moreover have "list_all depth_plain f" using x(4) d by (auto simp: jfrac_def digits_def depth_plain_chars)
  moreover have "list_all depth_plain e" using x(5) d by (auto simp: jexp_def digits_def depth_plain_chars)
  ultimately show ?thesis using x(1,2) by (auto simp: depth_plain_chars)
qed

lemma fold_max: "fold max xs a = max (a :: nat) (fold max xs 0)"
proof (induction xs arbitrary: a)
  case (Cons x xs)
  show ?case using Cons [of "max x a"] Cons [of "max x 0"] by (simp add: max.left_commute max.commute)
qed simp

text \<open>The scan over \<open>x\<close> raises the maximum by \<open>n\<close> levels above the current one.\<close>

definition scans :: "string \<Rightarrow> nat \<Rightarrow> bool" where
  "scans x n \<longleftrightarrow> (\<forall>d mx r. d \<le> mx \<longrightarrow> d + n \<le> SL_JSON_MAX_DEPTH \<longrightarrow>
     depth_loop d mx (x @ r) = depth_loop d (max mx (d + n)) r)"

lemma scans_plain: "list_all depth_plain x \<Longrightarrow> scans x 0"
  by (simp add: scans_def depth_loop_plain max_absorb1)

lemma scans_append:
  assumes "scans x m" "scans y n"
  shows "scans (x @ y) (max m n)"
  unfolding scans_def
proof (intro allI impI)
  fix d mx r
  assume a: "d \<le> mx" "d + max m n \<le> SL_JSON_MAX_DEPTH"
  have "depth_loop d mx (x @ y @ r) = depth_loop d (max mx (d + m)) (y @ r)" using assms(1) a unfolding scans_def by simp
  also have "\<dots> = depth_loop d (max (max mx (d + m)) (d + n)) r" using assms(2) a unfolding scans_def by simp
  finally show "depth_loop d mx ((x @ y) @ r) = depth_loop d (max mx (d + max m n)) r"
    by (simp add: nat_add_max_right max.assoc)
qed

lemma scans_quoted: "jchars b v \<Longrightarrow> scans (DQUOTE # b @ [DQUOTE]) 0"
  by (simp add: scans_def depth_string_chars max_absorb1)

lemma scans_brackets:
  assumes "scans x n" "(o', c') \<in> {(CHR ''['', CHR '']''), (CHR ''{'', CHR ''}'')}"
  shows "scans (o' # x @ [c']) (Suc n)"
  unfolding scans_def
proof (intro allI impI)
  fix d mx r
  assume a: "d \<le> mx" "d + Suc n \<le> SL_JSON_MAX_DEPTH"
  have o: "o' \<noteq> DQUOTE" "c' \<noteq> DQUOTE" using assms(2) by (auto simp: DQUOTE_def)
  have "depth_loop d mx (o' # x @ c' # r) = depth_loop (d + 1) (max mx (d + 1)) (x @ c' # r)"
    using assms(2) o a by (auto simp: max_def)
  also have "\<dots> = depth_loop (d + 1) (max (max mx (d + 1)) (d + 1 + n)) (c' # r)"
    using assms(1) a unfolding scans_def by simp
  also have "\<dots> = depth_loop d (max mx (d + Suc n)) r" using assms(2) o by (auto simp: max_def)
  finally show "depth_loop d mx ((o' # x @ [c']) @ r) = depth_loop d (max mx (d + Suc n)) r" by simp
qed

lemma scans_simps: "scans x 0 \<Longrightarrow> scans y n \<Longrightarrow> scans (x @ y) n" "scans x n \<Longrightarrow> scans y 0 \<Longrightarrow> scans (x @ y) n"
  using scans_append by fastforce+

lemma scans_ws: "ws w \<Longrightarrow> scans w 0"
  by (rule scans_plain) (rule depth_plain_ws)

lemma scans_Cons: "depth_plain c \<Longrightarrow> scans y n \<Longrightarrow> scans (c # y) n"
  using scans_simps(1) [OF scans_plain [of "[c]"]] by simp

lemma jvalue_scans:
  "jvalue v t \<Longrightarrow> scans v (jdepth t)"
  "jelems x ts \<Longrightarrow> scans x (fold max (map jdepth ts) 0)"
  "jmember y m \<Longrightarrow> scans y (jdepth (snd m))"
  "jmembers z ms \<Longrightarrow> scans z (fold max (map (\<lambda>(k, t). jdepth t) ms) 0)"
proof (induction rule: jvalue_jelems_jmember_jmembers.inducts)
  case (jv_arr0 w)
  then show ?case using scans_brackets [OF scans_ws [of w], of "CHR ''[''" "CHR '']''"] by simp
next
  case (jv_obj0 w)
  then show ?case using scans_brackets [OF scans_ws [of w], of "CHR ''{''" "CHR ''}''"] by simp
next
  case (jv_arr s ts)
  then show ?case using scans_brackets [of s _ "CHR ''[''" "CHR '']''"] by simp
next
  case (jv_obj s ms)
  then show ?case using scans_brackets [of s _ "CHR ''{''" "CHR ''}''"] by simp
next
  case (je_last w s t w')
  then show ?case using scans_simps(1) [OF scans_ws scans_simps(2) [OF _ scans_ws]] by simp
next
  case (je_more w s t w' s' ts)
  have "scans (w' @ CHR '','' # s') (fold max (map jdepth ts) 0)"
    using je_more scans_simps(1) [OF scans_ws scans_Cons [OF depth_plain_chars(1)]] by blast
  then have "scans (w @ s @ w' @ CHR '','' # s') (max (jdepth t) (fold max (map jdepth ts) 0))"
    using je_more scans_append scans_simps(1) [OF scans_ws] by blast
  then show ?case using fold_max [of "map jdepth ts" "jdepth t"] by simp
next
  case (jm w b k w1 w2 s t w')
  have "scans (s @ w') (jdepth t)" using jm scans_simps(2) scans_ws by blast
  then have "scans (w1 @ CHR '':'' # w2 @ s @ w') (jdepth t)"
    using jm scans_simps(1) scans_ws scans_Cons [OF depth_plain_chars(2)] by blast
  then have "scans ((DQUOTE # b @ [DQUOTE]) @ w1 @ CHR '':'' # w2 @ s @ w') (jdepth t)"
    using scans_simps(1) [OF scans_quoted [OF jm(2)]] by blast
  then show ?case using scans_simps(1) [OF scans_ws [OF jm(1)]] by simp
next
  case (jm_more s m s' ms)
  have "scans (s @ CHR '','' # s') (max (jdepth (snd m)) (fold max (map (\<lambda>(k, t). jdepth t) ms) 0))"
    using jm_more scans_append scans_Cons [OF depth_plain_chars(1)] by blast
  then show ?case using fold_max [of "map (\<lambda>(k, t). jdepth t) ms" "jdepth (snd m)"] by (cases m) simp
qed (simp_all add: scans_plain [OF depth_plain_chars(8)] scans_plain [OF depth_plain_chars(9)] scans_plain [OF depth_plain_chars(10)]
    scans_plain depth_plain_num scans_quoted case_prod_beta)

lemma json_depth_exact:
  assumes "json_text s t" "jdepth t \<le> SL_JSON_MAX_DEPTH"
  shows "sl_json_depth s = jdepth t"
proof -
  obtain w v w' where s: "s = w @ v @ w'" "ws w" "jvalue v t" "ws w'" using assms(1) by (auto simp: json_text_def)
  have "scans s (jdepth t)" unfolding s(1) using scans_simps jvalue_scans(1) [OF s(3)] scans_ws s(2,4) by blast
  then show ?thesis using assms(2) unfolding scans_def sl_json_depth_def by (metis add_0 append_Nil2 depth_loop.simps(1) le0 max_0L)
qed

lemma jdepth_length:
  "jvalue v t \<Longrightarrow> jdepth t \<le> length v"
  "jelems x ts \<Longrightarrow> fold max (map jdepth ts) 0 \<le> length x"
  "jmember y m \<Longrightarrow> jdepth (snd m) \<le> length y"
  "jmembers z ms \<Longrightarrow> fold max (map (\<lambda>(k, t). jdepth t) ms) 0 \<le> length z"
proof (induction rule: jvalue_jelems_jmember_jmembers.inducts)
  case (je_more w s t w' s' ts)
  then show ?case using fold_max [of "map jdepth ts" "jdepth t"] by simp
next
  case (jm_more s m s' ms)
  then show ?case using fold_max [of "map (\<lambda>(k, t). jdepth t) ms" "jdepth (snd m)"] by (cases m) simp
qed (auto split: prod.splits)

text \<open>
  C21: the stack of a recursive decoder. For every text that parses, the scan finds the depth of
  its value, through strings, escapes and numbers; and either the room that the task's stack has
  left takes one frame per level of the value, or the decoder runs with exactly that much reserved.
\<close>
theorem sl_json_stack_enough:
  assumes "sl_json_parse s = Inr (st, Some 0)" "jrep st 0 (length st) t"
  shows "sl_json_depth s = jdepth t \<and>
    (case sl_json_stack_for scale room s per_level of
       None \<Rightarrow> jdepth t * (per_level * scale) \<le> room
     | Some n \<Rightarrow> n = jdepth t * (per_level * scale) \<and> room < n)"
proof -
  obtain t' where t': "json_text s t'" "jdepth t' \<le> SL_JSON_MAX_DEPTH" using sl_json_parse_sound [OF assms(1)] by blast
  have "t' = t" using sl_json_parse_complete [OF t'] assms jrep_fun(1) by fastforce
  then have t: "json_text s t" "jdepth t \<le> SL_JSON_MAX_DEPTH" using t' by simp_all
  have d: "sl_json_depth s = jdepth t" by (rule json_depth_exact [OF t])
  have "jdepth t \<le> length s" using t(1) jdepth_length(1) by (fastforce simp: json_text_def)
  then have m: "jdepth t \<le> (if length s < SL_JSON_MAX_DEPTH then length s else SL_JSON_MAX_DEPTH)" (is "_ \<le> ?l") using t(2) by simp
  then have le: "jdepth t * (per_level * scale) \<le> ?l * (per_level * scale)" by (rule mult_right_mono) simp
  show ?thesis
  proof (cases "?l * (per_level * scale) \<le> room")
    case True
    then show ?thesis using d order_trans [OF le] by (simp add: sl_json_stack_for_def Let_def)
  next
    case False
    then show ?thesis using d t(2) unfolding sl_json_stack_for_def Let_def by (auto simp only: if_False if_True option.case not_le split: if_split)
  qed
qed

theorem sl_json_stack_enough_witness:
  "sl_json_depth ''[]'' = 1 \<and> sl_json_stack_for 1 10 ''[]'' 100 = Some 100"
proof -
  have "jvalue ''[]'' (JArr [])" using jv_arr0 [of "[]"] by simp
  then have j: "json_text ''[]'' (JArr [])" unfolding json_text_def by (metis append_Nil append_Nil2 ws_simps(1))
  obtain st where st: "sl_json_parse ''[]'' = Inr (st, Some 0)" "jrep st 0 (length st) (JArr [])"
    using sl_json_parse_complete [OF j] by (auto simp: SL_JSON_MAX_DEPTH_def)
  show ?thesis using sl_json_stack_enough [OF st, where scale = 1 and room = 10 and per_level = 100]
    by (simp split: option.splits)
qed



end
