(* ===== verification/Sl_Json_Reach.thy ===== *)
theory Sl_Json_Reach
  imports Sl_Json_Scalar
begin

text \<open>
  The trees of a parse that is under way, as the collector sees them.
\<close>

section \<open>Everything parsed so far is reachable from the root\<close>

definition traced :: "jstore \<Rightarrow> (nat \<times> nat) set" where
  "traced st = {(i, b). i < length st \<and> b \<in> set (sl_gc_trace_json_val (st ! i))}"

text \<open>The states that the loop of \<open>sl_jparse_value\<close> passes through, from the parser \<open>p\<close>.\<close>

inductive jreaches :: "sl_jparser \<Rightarrow> jphase \<Rightarrow> jstate \<Rightarrow> bool" for p where
  jreaches_start: "jreaches p J_VALUE \<lparr>js_p = p, js_store = [], js_frames = [], js_root = None\<rparr>"
| jreaches_step: "jreaches p ph s \<Longrightarrow> jstep ph s = J_GO ph' s' \<Longrightarrow> jreaches p ph' s'"

lemma trace_members: "b \<in> set (sl_gc_trace_json_val (SL_JV_OBJ mems)) \<longleftrightarrow> Some b \<in> set (map snd mems)"
  by (induction mems) (auto simp: List.map_filter_def)

lemma reach_extend:
  assumes "\<forall>a<length st. (r, a) \<in> (traced st)\<^sup>*" "length st' = Suc (length st)"
    "\<forall>i<length st. set (sl_gc_trace_json_val (st ! i)) \<subseteq> set (sl_gc_trace_json_val (st' ! i))"
    "i < length st" "length st \<in> set (sl_gc_trace_json_val (st' ! i))"
  shows "\<forall>a<length st'. (r, a) \<in> (traced st')\<^sup>*"
proof (intro allI impI)
  fix a
  assume a: "a < length st'"
  have "traced st \<subseteq> traced st'" using assms(2,3) by (auto simp: traced_def)
  then have mono: "(traced st)\<^sup>* \<subseteq> (traced st')\<^sup>*" by (rule rtrancl_mono)
  show "(r, a) \<in> (traced st')\<^sup>*"
  proof (cases "a < length st")
    case True
    then show ?thesis using assms(1) mono by blast
  next
    case False
    then have "a = length st" using a assms(2) by simp
    then have "(i, a) \<in> traced st'" using assms(2,4,5) by (simp add: traced_def)
    moreover have "(r, i) \<in> (traced st')\<^sup>*" using assms(1,4) mono by blast
    ultimately show ?thesis by (rule rtrancl_into_rtrancl [rotated])
  qed
qed

text \<open>What holds at the entry of each phase.\<close>

definition slot_free :: "sl_json_val \<Rightarrow> bool" where
  "slot_free v \<longleftrightarrow> (case v of SL_JV_OBJ ms \<Rightarrow> ms \<noteq> [] \<and> snd (last ms) = None | _ \<Rightarrow> True)"

definition frames_ok :: "jstate \<Rightarrow> bool" where
  "frames_ok s \<longleftrightarrow> (\<forall>f\<in>set (js_frames s). jf_v f < length (js_store s) \<and> is_container (js_store s ! jf_v f))"

definition reach_ok :: "jstate \<Rightarrow> bool" where
  "reach_ok s \<longleftrightarrow> (js_store s \<noteq> [] \<longrightarrow> js_root s = Some 0) \<and> (\<forall>a<length (js_store s). (0, a) \<in> (traced (js_store s))\<^sup>*)"

definition phase_ok :: "jphase \<Rightarrow> jstate \<Rightarrow> bool" where
  "phase_ok ph s \<longleftrightarrow>
     (case js_frames s of
        [] \<Rightarrow> ph \<noteq> J_KEY \<and> (ph = J_VALUE \<longrightarrow> js_store s = [])
      | f # _ \<Rightarrow> (ph = J_VALUE \<longrightarrow> slot_free (js_store s ! jf_v f)) \<and> (ph = J_KEY \<longrightarrow> is_obj (js_store s ! jf_v f)))"

definition parse_inv :: "jphase \<Rightarrow> jstate \<Rightarrow> bool" where
  "parse_inv ph s \<longleftrightarrow> reach_ok s \<and> frames_ok s \<and> phase_ok ph s"

lemma place_facts:
  assumes "jf_v f < length st" "is_container (st ! jf_v f)" "slot_free (st ! jf_v f)"
  shows "length (fst (sl_jplace st f a)) = length st"
    and "a \<in> set (sl_gc_trace_json_val (fst (sl_jplace st f a) ! jf_v f))"
    and "set (sl_gc_trace_json_val (st ! i)) \<subseteq> set (sl_gc_trace_json_val (fst (sl_jplace st f a) ! i))"
    and "is_container (st ! i) \<Longrightarrow> is_container (fst (sl_jplace st f a) ! i)"
    and "i \<noteq> jf_v f \<Longrightarrow> fst (sl_jplace st f a) ! i = st ! i"
    and "jf_v (snd (sl_jplace st f a)) = jf_v f"
proof -
  have *: "length (fst (sl_jplace st f a)) = length st \<and> a \<in> set (sl_gc_trace_json_val (fst (sl_jplace st f a) ! jf_v f)) \<and>
    set (sl_gc_trace_json_val (st ! jf_v f)) \<subseteq> set (sl_gc_trace_json_val (fst (sl_jplace st f a) ! jf_v f)) \<and>
    is_container (fst (sl_jplace st f a) ! jf_v f) \<and> (i \<noteq> jf_v f \<longrightarrow> fst (sl_jplace st f a) ! i = st ! i) \<and>
    jf_v (snd (sl_jplace st f a)) = jf_v f"
  proof (cases "st ! jf_v f")
    case (SL_JV_ARR items)
    then show ?thesis using assms(1) by (auto simp: sl_jplace_def Let_def)
  next
    case (SL_JV_OBJ mems)
    then obtain ms k where m: "mems = ms @ [(k, None)]" using assms(3) by (cases mems rule: rev_cases) (auto simp: slot_free_def)
    have t: "sl_jplace st f a = (st[jf_v f := SL_JV_OBJ (ms @ [(k, Some a)])], f)"
      by (simp add: sl_jplace_def SL_JV_OBJ m)
    show ?thesis unfolding t using assms(1) SL_JV_OBJ m by (auto simp: trace_members simp del: sl_gc_trace_json_val.simps)
  qed (use assms(2) in \<open>simp_all add: is_container_def\<close>)
  show "length (fst (sl_jplace st f a)) = length st" "a \<in> set (sl_gc_trace_json_val (fst (sl_jplace st f a) ! jf_v f))"
    "i \<noteq> jf_v f \<Longrightarrow> fst (sl_jplace st f a) ! i = st ! i" "jf_v (snd (sl_jplace st f a)) = jf_v f" using * by blast+
  show "set (sl_gc_trace_json_val (st ! i)) \<subseteq> set (sl_gc_trace_json_val (fst (sl_jplace st f a) ! i))"
    using * by (cases "i = jf_v f") auto
  show "is_container (st ! i) \<Longrightarrow> is_container (fst (sl_jplace st f a) ! i)" using * by (cases "i = jf_v f") auto
qed

text \<open>A new node, linked into its parent the moment it is made.\<close>

lemma link_inv:
  assumes "parse_inv J_VALUE s" and l: "s1 = jlink (s\<lparr>js_p := p, js_store := js_store s @ [v]\<rparr>) (length (js_store s))"
    and "sl_gc_trace_json_val v = []"
  shows "reach_ok s1 \<and> frames_ok s1 \<and> length (js_store s1) = Suc (length (js_store s)) \<and> js_store s1 ! length (js_store s) = v"
proof (cases "js_frames s")
  case Nil
  then have "js_store s = []" using assms(1) by (simp add: parse_inv_def phase_ok_def)
  then show ?thesis using l Nil by (simp add: jlink_def reach_ok_def frames_ok_def)
next
  case (Cons f fs)
  let ?st = "js_store s @ [v]"
  have f: "jf_v f < length (js_store s)" "is_container (js_store s ! jf_v f)" "slot_free (js_store s ! jf_v f)"
    using assms(1) Cons by (auto simp: parse_inv_def frames_ok_def phase_ok_def)
  then have f': "jf_v f < length ?st" "is_container (?st ! jf_v f)" "slot_free (?st ! jf_v f)" by (simp_all add: nth_append)
  obtain st' g where p: "sl_jplace ?st f (length (js_store s)) = (st', g)" by fastforce
  note pf = place_facts [OF f', where a = "length (js_store s)", unfolded p fst_conv snd_conv]
  have s1: "js_store s1 = st'" "js_frames s1 = g # fs" "js_root s1 = js_root s" using l Cons p by (simp_all add: jlink_def)
  have sub: "\<forall>i<length (js_store s). set (sl_gc_trace_json_val (js_store s ! i)) \<subseteq> set (sl_gc_trace_json_val (st' ! i))"
  proof (intro allI impI)
    fix i
    assume "i < length (js_store s)"
    then show "set (sl_gc_trace_json_val (js_store s ! i)) \<subseteq> set (sl_gc_trace_json_val (st' ! i))"
      using pf(3) [of i] by (simp add: nth_append)
  qed
  have r: "\<forall>a<length (js_store s). (0, a) \<in> (traced (js_store s))\<^sup>*" using assms(1) by (simp add: parse_inv_def reach_ok_def)
  have "\<forall>a<length st'. (0, a) \<in> (traced st')\<^sup>*" by (rule reach_extend [OF r _ sub f(1) pf(2)]) (simp add: pf(1))
  moreover have "js_root s = Some 0" using assms(1) f(1) by (auto simp: parse_inv_def reach_ok_def)
  moreover have "frames_ok s1"
  proof -
    have "jf_v h < length st' \<and> is_container (st' ! jf_v h)" if h: "h = g \<or> h \<in> set fs" for h
    proof -
      obtain h' where h': "h' \<in> set (js_frames s)" "jf_v h = jf_v h'" using h Cons pf(6) by auto
      then have "jf_v h < length (js_store s)" "is_container (js_store s ! jf_v h)" using assms(1) by (auto simp: parse_inv_def frames_ok_def)
      then show ?thesis using pf(1) pf(4) [of "jf_v h"] by (simp add: nth_append)
    qed
    then show ?thesis using s1 by (auto simp: frames_ok_def)
  qed
  moreover have "st' ! length (js_store s) = v" using pf(5) [of "length (js_store s)"] f(1) by simp
  ultimately show ?thesis using s1 pf(1) by (simp add: reach_ok_def)
qed

lemma jread_new: "jread p = Inr (v, q) \<Longrightarrow> sl_gc_trace_json_val v = [] \<and> (is_container v \<longrightarrow> v = SL_JV_ARR [] \<or> v = SL_JV_OBJ [])"
  by (auto simp: jread_def Let_def map_sum_def is_container_def List.map_filter_def split: option.splits if_splits sum.splits)

lemma value_inv:
  assumes "parse_inv J_VALUE s" "jvalue_step s = J_GO ph' s'"
  shows "parse_inv ph' s'"
proof -
  obtain v p where v: "jread (sl_jskip_ws (js_p s)) = Inr (v, p)" using assms(2) by (auto simp: jvalue_step_def split: sum.splits)
  define s1 where "s1 = jlink (s\<lparr>js_p := p, js_store := js_store s @ [v]\<rparr>) (length (js_store s))"
  have n: "sl_gc_trace_json_val v = []" "is_container v \<longrightarrow> v = SL_JV_ARR [] \<or> v = SL_JV_OBJ []" using jread_new [OF v] by blast+
  have i: "reach_ok s1" "frames_ok s1" "length (js_store s1) = Suc (length (js_store s))" "js_store s1 ! length (js_store s) = v"
    using link_inv [OF assms(1) s1_def n(1)] by blast+
  have step: "J_GO ph' s' = (if is_container v
              then (let s = s1\<lparr>js_frames := \<lparr>jf_v = length (js_store s), jf_cap = 0\<rparr> # js_frames s1\<rparr>;
                        p = sl_jskip_ws p
                    in if sl_jpeek p = Some (jclose (is_obj v)) then J_GO J_AFTER (jpop (jadv 1 p) s)
                       else J_GO (if is_obj v then J_KEY else J_VALUE) (s\<lparr>js_p := p\<rparr>))
              else J_GO J_AFTER s1)"
    unfolding assms(2) [symmetric] jvalue_step_def v s1_def sl_jv_new_def Let_def by simp
  have same: "reach_ok (s1\<lparr>js_frames := fr, js_p := q\<rparr>) = reach_ok s1" for fr q by (simp add: reach_ok_def)
  show ?thesis
  proof (cases "is_container v")
    case False
    then show ?thesis using step i by (simp add: parse_inv_def phase_ok_def split: list.splits)
  next
    case True
    then show ?thesis using step i n(2)
      by (auto simp: Let_def parse_inv_def phase_ok_def frames_ok_def reach_ok_def jpop_def slot_free_def is_obj_def split: if_splits list.splits)
  qed
qed

lemma after_inv:
  assumes "parse_inv J_AFTER s" "jafter_step s = J_GO ph' s'"
  shows "parse_inv ph' s'"
proof -
  obtain f fs where f: "js_frames s = f # fs" using assms(2) by (cases "js_frames s") (auto simp: jafter_step_def)
  have c: "is_container (js_store s ! jf_v f)" using assms(1) f by (simp add: parse_inv_def frames_ok_def)
  then have "\<not> is_obj (js_store s ! jf_v f) \<Longrightarrow> slot_free (js_store s ! jf_v f)"
    by (auto simp: is_container_def is_obj_def slot_free_def split: sl_json_val.splits)
  then show ?thesis using assms f
    by (auto simp: jafter_step_def Let_def parse_inv_def phase_ok_def frames_ok_def reach_ok_def jpop_def split: prod.splits if_splits list.splits)
qed

lemma key_inv:
  assumes "parse_inv J_KEY s" "jkey_step s = J_GO ph' s'"
  shows "parse_inv ph' s'"
proof -
  obtain k q where s': "ph' = J_VALUE" "s' = jadd_key (s\<lparr>js_p := q\<rparr>) k"
    using assms(2) by (auto simp: jkey_step_def Let_def split: sum.splits prod.splits if_splits)
  obtain f fs where f: "js_frames s = f # fs" "is_obj (js_store s ! jf_v f)" "jf_v f < length (js_store s)"
    using assms(1) by (cases "js_frames s") (auto simp: parse_inv_def phase_ok_def frames_ok_def)
  then obtain ms where ms: "js_store s ! jf_v f = SL_JV_OBJ ms" by (auto simp: is_obj_def split: sl_json_val.splits)
  let ?st = "(js_store s)[jf_v f := SL_JV_OBJ (ms @ [(k, None)])]"
  have a: "s' = s\<lparr>js_p := q, js_store := ?st, js_frames := sl_jreserve (js_store s) f # fs\<rparr>"
    using s' f ms by (simp add: jadd_key_def Let_def)
  have "set (sl_gc_trace_json_val (?st ! i)) = set (sl_gc_trace_json_val (js_store s ! i))" if "i < length (js_store s)" for i
    using that ms by (cases "i = jf_v f") (auto simp: List.map_filter_def)
  then have "traced ?st = traced (js_store s)" by (auto simp: traced_def)
  moreover have "is_container (?st ! i)" if "is_container (js_store s ! i)" "i < length (js_store s)" for i
    using that by (cases "i = jf_v f") auto
  ultimately show ?thesis using assms(1) f ms s'(1) unfolding a
    by (auto simp: parse_inv_def phase_ok_def frames_ok_def reach_ok_def slot_free_def)
qed

text \<open>
  C14: garbage collection during a parse. The frames are not scanned, so a node may not depend on
  them: at every point of the loop at which the parser stands between two tokens, every node
  allocated so far, those of the open containers included, is reachable from \<open>root\<close> through what
  the collector traces.
\<close>
theorem json_parse_reachable:
  assumes "jreaches p ph s" "a < length (js_store s)"
  shows "js_root s = Some 0 \<and> (0, a) \<in> (traced (js_store s))\<^sup>*"
proof -
  have "parse_inv ph s"
    using assms(1)
  proof (induction rule: jreaches.induct)
    case jreaches_start
    show ?case by (simp add: parse_inv_def reach_ok_def frames_ok_def phase_ok_def)
  next
    case (jreaches_step ph s ph' s')
    then show ?case using value_inv [of s ph' s'] after_inv [of s ph' s'] key_inv [of s ph' s'] by (cases ph) simp_all
  qed
  then show ?thesis using assms(2) by (auto simp: parse_inv_def reach_ok_def)
qed


theorem json_parse_reachable_witness:
  "(0, 1) \<in> (traced [SL_JV_ARR [1], SL_JV_NULL])\<^sup>*"
proof -
  let ?p = "\<lparr>jp_rest = ''[null]'', jp_pos = 0, jp_depth = 0\<rparr>"
  let ?s = "\<lparr>js_p = ?p, js_store = [], js_frames = [], js_root = None\<rparr>"
  let ?s1 = "\<lparr>js_p = \<lparr>jp_rest = ''null]'', jp_pos = 1, jp_depth = 1\<rparr>, js_store = [SL_JV_ARR []],
    js_frames = [\<lparr>jf_v = 0, jf_cap = 0\<rparr>], js_root = Some 0\<rparr>"
  have 1: "jstep J_VALUE ?s = J_GO J_VALUE ?s1"
    by (simp add: jvalue_step_def jread_def sl_jskip_ws_def sl_jpeek_def jadv_def is_ws_def DQUOTE_def SL_JSON_MAX_DEPTH_def
        sl_jv_new_def jlink_def jclose_def is_obj_def is_container_def Let_def)
  obtain s' where s': "jstep J_VALUE ?s1 = J_GO J_AFTER s'" "js_store s' = [SL_JV_ARR [1], SL_JV_NULL]"
    by (simp add: jvalue_step_def jread_def sl_jskip_ws_def sl_jpeek_def jadv_def is_ws_def DQUOTE_def is_digit_def
        sl_jmatch_lit_def sl_jv_new_def jlink_def sl_jplace_def sl_jreserve_def is_container_def Let_def)
  have "jreaches ?p J_AFTER s'" "1 < length (js_store s')"
    using jreaches_step [OF jreaches_step [OF jreaches_start 1] s'(1)] s'(2) by simp_all
  from json_parse_reachable [OF this] show ?thesis using s'(2) by simp
qed

end
