(* ===== verification/Sl_Json_Calendar.thy ===== *)
theory Sl_Json_Calendar
  imports Sl_Json_Time
begin

text \<open>
  The civil calendar of the timestamps is the Gregorian one, and a printed timestamp is read back.
\<close>

section \<open>The calendar is the Gregorian one\<close>

definition leap :: "int \<Rightarrow> bool" where
  "leap y \<longleftrightarrow> 4 dvd y \<and> (\<not> 100 dvd y \<or> 400 dvd y)"

definition month_len :: "int \<Rightarrow> int \<Rightarrow> int" where
  "month_len y m = (if m = 2 then (if leap y then 29 else 28) else if m \<in> {4, 6, 9, 11} then 30 else 31)"

definition next_day :: "int \<times> int \<times> int \<Rightarrow> int \<times> int \<times> int" where
  "next_day = (\<lambda>(y, m, d).
     if d < month_len y m then (y, m, d + 1)
     else if m < 12 then (y, m + 1, 1)
     else (y + 1, 1, 1))"

definition valid_date :: "int \<times> int \<times> int \<Rightarrow> bool" where
  "valid_date = (\<lambda>(y, m, d). 1 \<le> m \<and> m \<le> 12 \<and> 1 \<le> d \<and> d \<le> month_len y m)"

lemma sdiv_pos: "0 \<le> a \<Longrightarrow> 0 < b \<Longrightarrow> a sdiv b = a div (b :: int)"
  by (simp add: signed_divide_int_def sgn_if div_eq_0_iff)

lemma smod_pos: "0 \<le> a \<Longrightarrow> 0 < b \<Longrightarrow> a smod b = a mod (b :: int)"
  by (cases "a = 0") (auto simp: signed_modulo_int_def sgn_if)

lemma floor_sdiv: "0 < b \<Longrightarrow> (if a \<ge> 0 then a else a - (b - 1)) sdiv b = a div (b :: int)"
proof (cases "a \<ge> 0")
  case False
  assume b: "0 < b"
  have "(a - (b - 1)) sdiv b = - ((b - 1 - a) div b)" using False b by (simp add: signed_divide_int_def sgn_if abs_if)
  also have "\<dots> = a div b"
  proof -
    have "(b - 1 - a) div b = - (a div b)"
    proof (rule int_div_pos_eq [where r = "b - 1 - a mod b"])
      show "b - 1 - a = b * (- (a div b)) + (b - 1 - a mod b)" using mult_div_mod_eq [of b a] by (simp add: algebra_simps)
    qed (use pos_mod_bound [OF b, of a] pos_mod_sign [OF b, of a] in linarith)+
    then show ?thesis by simp
  qed
  finally show ?thesis using False by simp
qed (simp add: sdiv_pos)

text \<open>Days before the first of March of the year \<open>y\<close>, and before a month counted from March.\<close>

definition march_days :: "int \<Rightarrow> int" where
  "march_days y = 365 * y + y div 4 - y div 100 + y div 400"

definition month_days :: "int \<Rightarrow> int" where
  "month_days mp = (153 * mp + 2) div 5"

lemma march_days_era: "march_days (e * 400 + y) = e * 146097 + march_days y"
proof -
  have "(e * 400 + y) div 4 = e * 100 + y div 4" "(e * 400 + y) div 100 = e * 4 + y div 100"
    "(e * 400 + y) div 400 = e + y div 400"
    using div_mult_self1 [of 4 y "e * 100"] div_mult_self1 [of 100 y "e * 4"] div_mult_self1 [of 400 y e]
    by (simp_all add: add.commute)
  then show ?thesis by (simp add: march_days_def)
qed

lemma march_days_Suc: "march_days (y + 1) = march_days y + (if leap (y + 1) then 366 else 365)"
proof -
  have S: "(y + 1) div n = y div n + (if n dvd y + 1 then 1 else 0)" if "0 < n" for n :: int
  proof (cases "n dvd y + 1")
    case True
    then obtain k where "y + 1 = n * k" by blast
    then have "y = n * (k - 1) + (n - 1)" "y + 1 = n * k" by (simp_all add: algebra_simps)
    then have "y div n = k - 1" "(y + 1) div n = k" using that by (simp_all add: int_div_pos_eq [of _ n "k - 1" "n - 1"])
    then show ?thesis using True by simp
  next
    case False
    then have "(y + 1) mod n \<noteq> 0" by (simp add: dvd_eq_mod_eq_0)
    then have "y mod n + 1 < n" using that by (metis add.commute add_le_same_cancel1 linorder_not_less mod_add_left_eq mod_self order_le_less pos_mod_bound zle_add1_eq_le not_one_le_zero)
    then have "(y + 1) div n = y div n" using that pos_mod_sign [of n y] mult_div_mod_eq [of n y]
      by (intro int_div_pos_eq [where r = "y mod n + 1"]) auto
    then show ?thesis using False by simp
  qed
  have imp: "400 dvd y + 1 \<longrightarrow> 100 dvd y + 1" "100 dvd y + 1 \<longrightarrow> 4 dvd y + 1"
    using dvd_trans [of 100 400 "y + 1"] dvd_trans [of 4 100 "y + 1"] by simp_all
  let ?i = "\<lambda>n. if n dvd y + 1 then 1 else 0 :: int"
  have "march_days (y + 1) = march_days y + 365 + ?i 4 - ?i 100 + ?i 400"
  proof -
    have "365 * (y + 1) + (a + i) - (b + j) + (c + k) = 365 * y + a - b + c + 365 + i - j + k" for a b c i j k :: int by simp
    then show ?thesis by (simp only: march_days_def S zero_less_numeral)
  qed
  then show ?thesis using imp unfolding leap_def by presburger
qed

lemma days_from_civil_eq:
  assumes "1 \<le> m" "m \<le> 12" "0 \<le> d"
  shows "sl_jt_days_from_civil y m d =
    march_days (y - (if m \<le> 2 then 1 else 0)) + month_days (m + (if m > 2 then - 3 else 9)) + d - 719469"
proof -
  define Y where "Y = y - (if m \<le> 2 then 1 else 0)"
  define e where "e = Y div 400"
  have era: "(if Y \<ge> 0 then Y else Y - 399) sdiv 400 = e" using floor_sdiv [of 400 Y] by (simp add: e_def split: if_splits)
  have y: "0 \<le> Y - e * 400" "Y - e * 400 < 400" using pos_mod_sign [of 400 Y] pos_mod_bound [of 400 Y]
    by (simp_all add: e_def minus_div_mult_eq_mod)
  have "march_days Y = e * 146097 + march_days (Y - e * 400)" using march_days_era [of e "Y - e * 400"] by simp
  also have "march_days (Y - e * 400) = (Y - e * 400) * 365 + (Y - e * 400) sdiv 4 - (Y - e * 400) sdiv 100"
    using y by (simp add: march_days_def sdiv_pos div_pos_pos_trivial)
  finally have "march_days Y = e * 146097 + ((Y - e * 400) * 365 + (Y - e * 400) sdiv 4 - (Y - e * 400) sdiv 100)" .
  moreover have "month_days (m + (if m > 2 then - 3 else 9)) = (153 * (m + (if m > 2 then - 3 else 9)) + 2) sdiv 5"
    using assms by (simp add: month_days_def sdiv_pos)
  ultimately show ?thesis by (simp add: sl_jt_days_from_civil_def Let_def era flip: Y_def)
qed

text \<open>The year of a day in the cycle of 400 years, by monotonicity and a finite check.\<close>

definition year_of :: "int \<Rightarrow> int" where
  "year_of doe = (doe - doe div 1460 + doe div 36524 - doe div 146096) div 365"

lemma year_of_mono_step: "0 \<le> doe \<Longrightarrow> year_of doe \<le> year_of (doe + 1)"
proof -
  define q q' where "q = doe div 36524" and "q' = (doe + 1) div 36524"
  have s: "(doe + 1) div 1460 \<le> doe div 1460 + 1"
    using zdiv_mono1 [of "doe + 1" "doe + 1460" 1460] by simp
  have "q \<le> q'" unfolding q_def q'_def by (rule zdiv_mono1) auto
  moreover have "doe div 146096 = q div 4" "(doe + 1) div 146096 = q' div 4"
    using zdiv_zmult2_eq [of 4 doe 36524] zdiv_zmult2_eq [of 4 "doe + 1" 36524] by (simp_all add: q_def q'_def)
  moreover have "q' div 4 - q div 4 \<le> q' - q" using \<open>q \<le> q'\<close> by presburger
  ultimately show ?thesis unfolding year_of_def using s by (intro zdiv_mono1) (simp_all flip: q_def q'_def)
qed

lemma year_of_mono: "0 \<le> a \<Longrightarrow> a \<le> b \<Longrightarrow> year_of a \<le> year_of b"
proof (induction "nat (b - a)" arbitrary: b)
  case (Suc n)
  then have "year_of a \<le> year_of (b - 1)" by simp
  also have "\<dots> \<le> year_of b" using year_of_mono_step [of "b - 1"] Suc by simp
  finally show ?case .
qed simp

lemma year_check:
  "list_all (\<lambda>y. year_of (march_days y) = y \<and> year_of (march_days (y + 1) - 1) = y) [0..399]"
  by code_simp

lemma march_days_bounds [simp]: "march_days 0 = 0" "march_days 400 = 146097"
  by (simp_all add: march_days_def)

lemma march_days_between: "0 \<le> doe \<Longrightarrow> doe < march_days (int n) \<Longrightarrow> \<exists>y. 0 \<le> y \<and> y < int n \<and> march_days y \<le> doe \<and> doe < march_days (y + 1)"
proof (induction n)
  case (Suc n)
  then show ?case
  proof (cases "doe < march_days (int n)")
    case False
    then show ?thesis using Suc.prems by (intro exI [of _ "int n"]) (auto simp: add.commute)
  qed (fastforce dest: Suc.IH)
qed simp

lemma march_days_nonneg: "0 \<le> y \<Longrightarrow> 0 \<le> march_days y"
  by (simp add: march_days_def)

lemma year_of_eq:
  assumes "0 \<le> y" "y < 400" "march_days y \<le> doe" "doe < march_days (y + 1)"
  shows "year_of doe = y"
proof -
  have "y \<in> set [0..399]" using assms by simp
  then have c: "year_of (march_days y) = y" "year_of (march_days (y + 1) - 1) = y"
    using year_check by (auto simp: list_all_iff)
  have "0 \<le> march_days y" by (rule march_days_nonneg [OF assms(1)])
  then have "year_of (march_days y) \<le> year_of doe" "year_of doe \<le> year_of (march_days (y + 1) - 1)"
    using assms by (auto intro: year_of_mono)
  then show ?thesis using c by simp
qed

lemma year_of_range:
  assumes "0 \<le> doe" "doe < 146097"
  shows "0 \<le> year_of doe" "year_of doe < 400" "march_days (year_of doe) \<le> doe" "doe < march_days (year_of doe + 1)"
proof -
  obtain y where y: "0 \<le> y" "y < 400" "march_days y \<le> doe" "doe < march_days (y + 1)"
    using march_days_between [OF assms(1), of 400] assms(2) by auto
  then show "0 \<le> year_of doe" "year_of doe < 400" "march_days (year_of doe) \<le> doe" "doe < march_days (year_of doe + 1)"
    using year_of_eq [OF y] by simp_all
qed

lemma month_check:
  "list_all (\<lambda>doy. let mp = (5 * doy + 2) div 153; d = doy - month_days mp + 1 in
     0 \<le> mp \<and> mp \<le> 11 \<and> 1 \<le> d \<and> d \<le> (if mp = 11 then (if doy = 365 then 29 else 28) else if mp \<in> {1, 3, 6, 8} then 30 else 31)) [0..365]"
  by code_simp

lemma twelve: "0 \<le> mp \<Longrightarrow> mp \<le> 11 \<Longrightarrow> mp \<in> {0, 1, 2, 3, 4, 5, 6, 7, 8, 9, 10, 11 :: int}"
  unfolding insert_iff empty_iff by presburger

text \<open>The date of a day counted in its year from March.\<close>

definition date_of :: "int \<Rightarrow> int \<Rightarrow> int \<times> int \<times> int" where
  "date_of y doy =
     (let mp = (5 * doy + 2) div 153; d = doy - month_days mp + 1; m = (if mp < 10 then mp + 3 else mp - 9)
      in (y + (if m \<le> 2 then 1 else 0), m, d))"

lemma civil_from_days_eq:
  assumes "doe = (z + 719468) mod 146097" "era = (z + 719468) div 146097"
  shows "sl_jt_civil_from_days z = date_of (year_of doe + era * 400) (doe - march_days (year_of doe))"
proof -
  define n where "n = z + 719468"
  have e: "(if n \<ge> 0 then n else n - 146096) sdiv 146097 = era" using floor_sdiv [of 146097 n] assms by (simp add: n_def split: if_splits)
  have d: "n - era * 146097 = doe" using assms by (simp add: n_def minus_div_mult_eq_mod)
  have r: "0 \<le> doe" "doe < 146097" using assms by simp_all
  note y = year_of_range [OF r]
  have "doe sdiv 1460 = doe div 1460" "doe sdiv 36524 = doe div 36524" "doe sdiv 146096 = doe div 146096"
    using r by (simp_all add: sdiv_pos)
  moreover have "0 \<le> doe - doe div 1460 + doe div 36524 - doe div 146096"
    using r zdiv_mono2 [of doe 36524 146096] zdiv_mono2 [of doe 1 1460] by simp
  ultimately have yo: "(doe - doe sdiv 1460 + doe sdiv 36524 - doe sdiv 146096) sdiv 365 = year_of doe"
    by (simp add: sdiv_pos year_of_def)
  have md: "365 * year_of doe + year_of doe sdiv 4 - year_of doe sdiv 100 = march_days (year_of doe)"
    using y by (simp add: sdiv_pos march_days_def)
  define doy where "doy = doe - march_days (year_of doe)"
  have doy: "0 \<le> doy" using y by (simp add: doy_def)
  have mp: "(5 * doy + 2) sdiv 153 = (5 * doy + 2) div 153" "0 \<le> (5 * doy + 2) div 153" using doy by (simp_all add: sdiv_pos)
  then have "(153 * ((5 * doy + 2) div 153) + 2) sdiv 5 = month_days ((5 * doy + 2) div 153)"
    by (simp add: sdiv_pos month_days_def)
  then show ?thesis
    unfolding sl_jt_civil_from_days_def Let_def n_def [symmetric] e d yo md doy_def [symmetric] mp(1) date_of_def by simp
qed

lemma date_of_valid:
  assumes "0 \<le> doy" "doy < (if leap (y + 1) then 366 else 365)"
  shows "valid_date (date_of y doy)"
proof -
  have "doy \<in> set [0..365]" using assms by (auto split: if_splits)
  define mp d where "mp = (5 * doy + 2) div 153" and "d = doy - month_days mp + 1"
  have c: "0 \<le> mp" "mp \<le> 11" "1 \<le> d" "d \<le> (if mp = 11 then (if doy = 365 then 29 else 28) else if mp \<in> {1, 3, 6, 8} then 30 else 31)"
    using month_check \<open>doy \<in> set [0..365]\<close> unfolding list_all_iff Let_def mp_def d_def by blast+
  have l: "leap (y + 1)" if "doy = 365" using assms(2) that by (auto split: if_splits)
  have "mp \<in> {0, 1, 2, 3, 4, 5, 6, 7, 8, 9, 10, 11}" using c(1,2) by (rule twelve)
  then show ?thesis using c(3,4) l by (auto simp: date_of_def valid_date_def month_len_def simp flip: mp_def d_def split: if_splits)
qed

lemma days_date_of:
  assumes "0 \<le> doy" "doy \<le> 365"
  shows "(case date_of y doy of (y', m, d) \<Rightarrow> sl_jt_days_from_civil y' m d) = march_days y + doy - 719468"
proof -
  define mp d where "mp = (5 * doy + 2) div 153" and "d = doy - month_days mp + 1"
  have c: "0 \<le> mp" "mp \<le> 11" "1 \<le> d"
    using month_check assms unfolding list_all_iff Let_def mp_def d_def by auto
  have "mp \<in> {0, 1, 2, 3, 4, 5, 6, 7, 8, 9, 10, 11}" using c(1,2) by (rule twelve)
  then show ?thesis using c(3) by (auto simp: date_of_def days_from_civil_eq d_def simp flip: mp_def)
qed

lemma civil_from_days_valid:
  "valid_date (sl_jt_civil_from_days z)"
  "(case sl_jt_civil_from_days z of (y, m, d) \<Rightarrow> sl_jt_days_from_civil y m d) = z"
proof -
  define doe era where "doe = (z + 719468) mod 146097" and "era = (z + 719468) div 146097"
  note c = civil_from_days_eq [OF doe_def era_def]
  have r: "0 \<le> doe" "doe < 146097" by (simp_all add: doe_def)
  note y = year_of_range [OF r]
  define doy where "doy = doe - march_days (year_of doe)"
  have lp: "leap (year_of doe + era * 400 + 1) \<longleftrightarrow> leap (year_of doe + 1)"
  proof -
    have "n dvd year_of doe + era * 400 + 1 \<longleftrightarrow> n dvd year_of doe + 1" if "n dvd 400" for n
      using dvd_add_left_iff [of n "era * 400" "year_of doe + 1"] that by (simp add: algebra_simps)
    then show ?thesis by (simp add: leap_def)
  qed
  have doy: "0 \<le> doy" "doy < (if leap (year_of doe + era * 400 + 1) then 366 else 365)"
    using y march_days_Suc [of "year_of doe"] by (auto simp: doy_def lp split: if_splits)
  show "valid_date (sl_jt_civil_from_days z)" unfolding c doy_def [symmetric] using doy by (rule date_of_valid)
  have "march_days (year_of doe + era * 400) = era * 146097 + march_days (year_of doe)"
    using march_days_era [of era "year_of doe"] by (simp add: add.commute)
  then have "march_days (year_of doe + era * 400) + doy - 719468 = z"
    using mult_div_mod_eq [of 146097 "z + 719468"] by (simp add: doy_def doe_def era_def algebra_simps)
  then show "(case sl_jt_civil_from_days z of (y, m, d) \<Rightarrow> sl_jt_days_from_civil y m d) = z"
    unfolding c doy_def [symmetric] using days_date_of [of doy] doy by (auto split: if_splits)
qed

lemma date_check:
  "list_all (\<lambda>m. list_all (\<lambda>d. d \<le> (if m = 2 then 29 else if m \<in> {4, 6, 9, 11} then 30 else 31) \<longrightarrow>
     (let mp = m + (if m > 2 then - 3 else 9); doy = month_days mp + d - 1 in
      (5 * doy + 2) div 153 = mp \<and> 0 \<le> doy \<and> doy \<le> 365 \<and> (doy = 365 \<longrightarrow> m = 2 \<and> d = 29))) [1..31]) [1..12]"
  by code_simp

lemma civil_of_days:
  assumes "valid_date (y, m, d)"
  shows "sl_jt_civil_from_days (sl_jt_days_from_civil y m d) = (y, m, d)"
proof -
  define Y mp doy where "Y = y - (if m \<le> 2 then 1 else 0)" and "mp = m + (if m > 2 then - 3 else 9)" and "doy = month_days mp + d - 1"
  have v: "1 \<le> m" "m \<le> 12" "1 \<le> d" "d \<le> month_len y m" using assms by (simp_all add: valid_date_def)
  have "d \<le> (if m = 2 then 29 else if m \<in> {4, 6, 9, 11} then 30 else 31)" using v(4) by (auto simp: month_len_def split: if_splits)
  moreover from this have "m \<in> set [1..12]" "d \<in> set [1..31]" using v by (auto split: if_splits)
  ultimately have c: "(5 * doy + 2) div 153 = mp" "0 \<le> doy" "doy \<le> 365" "doy = 365 \<Longrightarrow> m = 2 \<and> d = 29"
    using date_check unfolding list_all_iff Let_def doy_def mp_def by blast+
  have date: "date_of Y doy = (y, m, d)"
  proof -
    have "date_of Y doy = (Y + (if (if mp < 10 then mp + 3 else mp - 9) \<le> 2 then 1 else 0), (if mp < 10 then mp + 3 else mp - 9), d)"
      unfolding date_of_def Let_def c(1) by (simp add: doy_def)
    then show ?thesis using v(1,2) by (auto simp: mp_def Y_def)
  qed
  have doy: "doy < (if leap (Y + 1) then 366 else 365)"
    using c(3,4) v(4) by (cases "doy = 365") (auto simp: Y_def month_len_def split: if_splits)
  define e yoe where "e = Y div 400" and "yoe = Y mod 400"
  have Y: "Y = e * 400 + yoe" "0 \<le> yoe" "yoe < 400" by (simp_all add: e_def yoe_def)
  have lp: "leap (Y + 1) \<longleftrightarrow> leap (yoe + 1)"
  proof -
    have "n dvd e * 400 + yoe + 1 \<longleftrightarrow> n dvd yoe + 1" if "n dvd 400" for n
      using dvd_add_right_iff [of n "e * 400" "yoe + 1"] that by (simp add: algebra_simps)
    then show ?thesis by (simp add: leap_def Y(1))
  qed
  define doe where "doe = march_days yoe + doy"
  have le: "march_days yoe \<le> doe" "doe < march_days (yoe + 1)"
    using c(2) doy march_days_Suc [of yoe] by (auto simp: doe_def lp split: if_splits)
  have yo: "year_of doe = yoe" using Y le by (intro year_of_eq)
  have "march_days (yoe + 1) \<le> 146097"
  proof -
    have "march_days a \<le> march_days (a + int n)" for a n
    proof (induction n)
      case (Suc n)
      have "march_days (a + int n) \<le> march_days (a + int n + 1)" using march_days_Suc [of "a + int n"] by simp
      then show ?case using Suc by (simp add: ac_simps)
    qed simp
    from this [of "yoe + 1" "nat (399 - yoe)"] show ?thesis using Y(3) by simp
  qed
  then have r: "0 \<le> doe" "doe < 146097" using le march_days_nonneg [OF Y(2)] by simp_all
  define z where "z = sl_jt_days_from_civil y m d"
  have "z + 719468 = e * 146097 + doe"
    using days_from_civil_eq [of m d y] v march_days_era [of e yoe] by (simp add: z_def Y_def [symmetric] mp_def [symmetric] doe_def doy_def Y(1))
  then have "(z + 719468) div 146097 = e" "(z + 719468) mod 146097 = doe" using r by simp_all
  then have "sl_jt_civil_from_days z = date_of (yoe + e * 400) doy"
    using civil_from_days_eq [of doe z e] yo by (simp add: doe_def)
  then show ?thesis using date Y(1) by (simp add: z_def add.commute)
qed

lemma days_next_day:
  assumes "valid_date (y, m, d)" "next_day (y, m, d) = (y', m', d')"
  shows "valid_date (y', m', d')" "sl_jt_days_from_civil y' m' d' = sl_jt_days_from_civil y m d + 1"
proof -
  have v: "1 \<le> m" "m \<le> 12" "1 \<le> d" "d \<le> month_len y m" using assms by (simp_all add: valid_date_def)
  have "m - 1 \<in> {0, 1, 2, 3, 4, 5, 6, 7, 8, 9, 10, 11}" using v(1,2) by (intro twelve) auto
  then have m: "m \<in> {1, 2, 3, 4, 5, 6, 7, 8, 9, 10, 11, 12}" unfolding insert_iff empty_iff by presburger
  have len: "1 \<le> month_len a b" for a b by (simp add: month_len_def)
  show "valid_date (y', m', d')"
    using v assms(2) len by (auto simp: next_day_def valid_date_def split: if_splits)
  show "sl_jt_days_from_civil y' m' d' = sl_jt_days_from_civil y m d + 1"
  proof (cases "d < month_len y m")
    case True
    then show ?thesis using v assms(2) by (simp add: next_day_def days_from_civil_eq)
  next
    case False
    then have "d = month_len y m" using v by simp
    then show ?thesis using m assms(2) march_days_Suc [of "y - 1"]
      by (auto simp: next_day_def days_from_civil_eq month_len_def month_days_def)
  qed
qed

text \<open>
  C22: the calendar arithmetic of the timestamps, on all integers, is the Gregorian calendar: day 0
  is 1970-01-01, the date of the next day is the next date (with the leap years of the 400-year
  rule), and the two conversions are inverse.
\<close>
theorem sl_jt_calendar:
  "sl_jt_civil_from_days 0 = (1970, 1, 1) \<and>
   sl_jt_civil_from_days (z + 1) = next_day (sl_jt_civil_from_days z) \<and>
   valid_date (sl_jt_civil_from_days z) \<and>
   (case sl_jt_civil_from_days z of (y, m, d) \<Rightarrow> sl_jt_days_from_civil y m d) = z"
proof (intro conjI)
  show "sl_jt_civil_from_days 0 = (1970, 1, 1)" by code_simp
  obtain y m d where c: "sl_jt_civil_from_days z = (y, m, d)" by (cases "sl_jt_civil_from_days z") auto
  obtain y' m' d' where n: "next_day (y, m, d) = (y', m', d')" by (cases "next_day (y, m, d)") auto
  have v: "valid_date (y, m, d)" "sl_jt_days_from_civil y m d = z" using civil_from_days_valid [of z] c by simp_all
  show "sl_jt_civil_from_days (z + 1) = next_day (sl_jt_civil_from_days z)"
    using civil_of_days [OF days_next_day(1) [OF v(1) n]] days_next_day(2) [OF v(1) n] v(2) c n by simp
qed (rule civil_from_days_valid)+

section \<open>Timestamps are read back\<close>

lemma two_digits:
  assumes "0 \<le> n" "n \<le> 99"
  obtains a b where "two_digits n = [a, b]" "is_digit a" "is_digit b" "int (dval 0 [a, b]) = n"
proof -
  have d: "n sdiv 10 = n div 10" "n smod 10 = n mod 10" using assms by (simp_all add: sdiv_pos smod_pos)
  have r: "0 \<le> n div 10" "n div 10 \<le> 9" "0 \<le> n mod 10" "n mod 10 \<le> 9" using assms by auto
  have dig: "is_digit (char_of (nat (48 + k)))" "code (char_of (nat (48 + k))) - 48 = nat k" if "0 \<le> k" "k \<le> 9" for k :: int
    using that by (auto simp: is_digit_def char_less_eq_code)
  have "dval 0 (two_digits n) = (0 * 10 + nat (n div 10)) * 10 + nat (n mod 10)"
    unfolding two_digits_def d dval_simps dig(2) [OF r(1,2)] dig(2) [OF r(3,4)] by simp
  then have "int (dval 0 (two_digits n)) = n" using r by simp
  then show thesis using that r dig by (simp add: two_digits_def d)
qed

lemma dval_zeros: "dval a (replicate k (CHR ''0'')) = a * 10 ^ k"
  by (induction k arbitrary: a) simp_all

lemma length_dec_le: "n < 10 ^ Suc k \<Longrightarrow> length (dec n) \<le> Suc k"
proof (induction k arbitrary: n)
  case (Suc k)
  show ?case
  proof (cases "n < 10")
    case False
    then have "length (dec n) = Suc (length (dec (n div 10)))" by (subst dec.simps) simp
    moreover have "n div 10 < 10 ^ Suc k" using Suc.prems by auto
    ultimately show ?thesis using Suc.IH by simp
  qed (subst dec.simps, simp)
qed (subst dec.simps, simp)

lemma list_4: "length xs = 4 \<Longrightarrow> \<exists>a b c d. xs = [a, b, c, d]"
  by (auto simp: numeral_eq_Suc length_Suc_conv)

lemma year_digits:
  assumes "n \<le> 9999"
  obtains a b c d where "replicate (4 - length (dec n)) (CHR ''0'') @ dec n = [a, b, c, d]"
    "list_all is_digit [a, b, c, d]" "dval 0 [a, b, c, d] = n"
proof -
  let ?s = "replicate (4 - length (dec n)) (CHR ''0'') @ dec n"
  have "length (dec n) \<le> 4" using length_dec_le [of n 3] assms by simp
  then have "length ?s = 4" by simp
  then obtain a b c d where s: "?s = [a, b, c, d]" using list_4 by blast
  moreover have "is_digit (CHR ''0'')" by (simp add: is_digit_def)
  then have "list_all is_digit ?s" by (auto simp: list_all_iff dec_digits)
  moreover have "dval 0 ?s = n" by (simp add: dval_zeros dval_dec)
  ultimately show thesis using that by metis
qed

lemma nine_digits: "length (nine_digits k v) = k" "list_all is_digit (nine_digits k v)" "dval 0 (nine_digits k v) = v mod 10 ^ k"
proof (induction k arbitrary: v)
  case (Suc k)
  case 2 then show ?case using Suc by (auto simp: is_digit_def char_less_eq_code)
  case 3 then show ?case using Suc by (simp add: mod_mult2_eq ac_simps)
qed simp_all

lemma times10: "times10 k ns = ns * 10 ^ k"
  by (induction k arbitrary: ns) simp_all

lemma takeWhile_replicate: "takeWhile (\<lambda>c. c = x) xs = replicate (length (takeWhile (\<lambda>c. c = x) xs)) x"
  by (induction xs) auto

lemma fraction_text:
  assumes "0 < n" "n < 10 ^ 9"
  obtains run where "jt_fraction_text n = CHR ''.'' # run" "list_all is_digit run" "0 < length run" "length run \<le> 9"
    "int (dval 0 run) * 10 ^ (9 - length run) = int n"
proof -
  obtain c fd where fd: "nine_digits 9 n = c # fd" by (cases "nine_digits 9 n") (use nine_digits(1) [of 9 n] in auto)
  define tail where "tail = dropWhile (\<lambda>c. c = CHR ''0'') (rev fd)"
  define k where "k = length (takeWhile (\<lambda>c. c = CHR ''0'') (rev fd))"
  have "rev fd = replicate k (CHR ''0'') @ tail"
    using takeWhile_dropWhile_id [of "\<lambda>c. c = CHR ''0''" "rev fd"] takeWhile_replicate [of "CHR ''0''" "rev fd"]
    by (simp add: k_def tail_def)
  then have f: "fd = rev tail @ replicate k (CHR ''0'')" by (metis rev_append rev_replicate rev_rev_ident)
  let ?run = "c # rev tail"
  have t: "jt_fraction_text n = CHR ''.'' # ?run" by (simp add: jt_fraction_text_def fd tail_def)
  have l: "length ?run + k = 9" using nine_digits(1) [of 9 n] fd f by simp
  have "dval 0 (?run @ replicate k (CHR ''0'')) = n" using nine_digits(3) [of 9 n] assms fd f by simp
  then have "dval 0 ?run * 10 ^ k = n" by (simp add: dval_zeros)
  moreover have "k = 9 - length ?run" using l by simp
  ultimately have "int (dval 0 ?run) * 10 ^ (9 - length ?run) = int n" by (metis of_nat_mult of_nat_numeral of_nat_power)
  moreover have "list_all is_digit ?run" using nine_digits(2) [of 9 n] fd f by simp
  ultimately show thesis using that t l by simp
qed

lemma days_in_month_eq:
  assumes "0 \<le> y" "1 \<le> m" "m \<le> 12"
  shows "sl_jt_days_in_month y m = month_len y m"
proof -
  have "m - 1 \<in> {0, 1, 2, 3, 4, 5, 6, 7, 8, 9, 10, 11}" using assms by (intro twelve) auto
  then have m: "m \<in> {1, 2, 3, 4, 5, 6, 7, 8, 9, 10, 11, 12}" unfolding insert_iff empty_iff by presburger
  have "400 dvd y \<longrightarrow> 100 dvd y" "100 dvd y \<longrightarrow> 4 dvd y" using dvd_trans [of 100 400 y] dvd_trans [of 4 100 y] by simp_all
  then have l: "(y smod 4 = 0 \<and> y smod 100 \<noteq> 0) \<or> y smod 400 = 0 \<longleftrightarrow> leap y"
    unfolding smod_pos [OF assms(1) zero_less_numeral] leap_def dvd_eq_mod_eq_0 [symmetric] by blast
  show ?thesis using m unfolding sl_jt_days_in_month_def l by (auto simp: month_len_def)
qed

lemma floor_days: "(if sec \<ge> 0 then sec sdiv 86400 else - ((- sec + 86399) sdiv 86400)) = sec div (86400 :: int)"
proof (cases "sec \<ge> 0")
  case False
  have "(sec - 86399) sdiv 86400 = - ((- sec + 86399) sdiv 86400)"
    using False by (simp add: signed_divide_int_def sgn_if abs_if)
  then show ?thesis using floor_sdiv [of 86400 sec] False by simp
qed (simp add: sdiv_pos)

lemma month_len_le: "month_len y m \<le> 31"
  by (simp add: month_len_def)

text \<open>The fields of the printed text.\<close>

lemma jt_text_shape:
  assumes "sl_jt_civil_from_days (sec div 86400) = (y, m, d)" "0 \<le> y" "y \<le> 9999"
    "r = sec mod 86400" "h = r div 3600" "i = r div 60 mod 60" "s = r mod 60"
  obtains y1 y2 y3 y4 m1 m2 d1 d2 h1 h2 i1 i2 s1 s2 where
    "jt_text sec nsec =
       [y1, y2, y3, y4, CHR ''-'', m1, m2, CHR ''-'', d1, d2, CHR ''T'', h1, h2, CHR '':'', i1, i2, CHR '':'', s1, s2] @
       (if nsec > 0 \<and> nsec < 1000000000 then jt_fraction_text (nat nsec) else []) @ ''Z''"
    "list_all is_digit [y1, y2, y3, y4, m1, m2, d1, d2, h1, h2, i1, i2, s1, s2]"
    "int (dval 0 [y1, y2, y3, y4]) = y" "int (dval 0 [m1, m2]) = m" "int (dval 0 [d1, d2]) = d"
    "int (dval 0 [h1, h2]) = h" "int (dval 0 [i1, i2]) = i" "int (dval 0 [s1, s2]) = s"
proof -
  have v: "1 \<le> m" "m \<le> 12" "1 \<le> d" "d \<le> 31"
    using civil_from_days_valid(1) [of "sec div 86400"] assms(1) month_len_le [of y m] by (auto simp: valid_date_def)
  have r: "0 \<le> r" "r < 86400" using assms(4) by simp_all
  have rg: "0 \<le> h" "h \<le> 23" "0 \<le> i" "i \<le> 59" "0 \<le> s" "s \<le> 59" using r assms(5-7) by auto
  obtain y1 y2 y3 y4 where yd: "replicate (4 - length (dec (nat y))) (CHR ''0'') @ dec (nat y) = [y1, y2, y3, y4]"
    "list_all is_digit [y1, y2, y3, y4]" "dval 0 [y1, y2, y3, y4] = nat y"
    by (rule year_digits [of "nat y"]) (use assms(2,3) in simp)
  obtain m1 m2 where md: "two_digits m = [m1, m2]" "is_digit m1" "is_digit m2" "int (dval 0 [m1, m2]) = m" using two_digits [of m] v by auto
  obtain d1 d2 where dd: "two_digits d = [d1, d2]" "is_digit d1" "is_digit d2" "int (dval 0 [d1, d2]) = d" using two_digits [of d] v by auto
  obtain h1 h2 where hd: "two_digits h = [h1, h2]" "is_digit h1" "is_digit h2" "int (dval 0 [h1, h2]) = h" using two_digits [of h] rg by auto
  obtain i1 i2 where id: "two_digits i = [i1, i2]" "is_digit i1" "is_digit i2" "int (dval 0 [i1, i2]) = i" using two_digits [of i] rg by auto
  obtain s1 s2 where sd: "two_digits s = [s1, s2]" "is_digit s1" "is_digit s2" "int (dval 0 [s1, s2]) = s" using two_digits [of s] rg by auto
  have rem: "sec - sec div 86400 * 86400 = r" using assms(4) by (simp add: minus_div_mult_eq_mod)
  have hh: "r sdiv 3600 = h" "r sdiv 60 smod 60 = i" "r smod 60 = s" using r assms(5-7) by (simp_all add: sdiv_pos smod_pos)
  have "jt_text sec nsec = (replicate (4 - length (dec (nat y))) (CHR ''0'') @ dec (nat y)) @ ''-'' @ two_digits m @ ''-'' @ two_digits d @ ''T'' @
      two_digits h @ '':'' @ two_digits i @ '':'' @ two_digits s @
      (if nsec > 0 \<and> nsec < 1000000000 then jt_fraction_text (nat nsec) else []) @ ''Z''"
    unfolding jt_text_def Let_def floor_days assms(1) rem hh using assms(2) by simp
  then have e: "jt_text sec nsec =
       [y1, y2, y3, y4, CHR ''-'', m1, m2, CHR ''-'', d1, d2, CHR ''T'', h1, h2, CHR '':'', i1, i2, CHR '':'', s1, s2] @
       (if nsec > 0 \<and> nsec < 1000000000 then jt_fraction_text (nat nsec) else []) @ ''Z''"
    unfolding yd(1) md(1) dd(1) hd(1) id(1) sd(1) by (simp only: append.simps)
  have y: "int (dval 0 [y1, y2, y3, y4]) = y" unfolding yd(3) using assms(2) by simp
  show thesis using yd(2) md(2,3) dd(2,3) hd(2,3) id(2,3) sd(2,3)
    by (intro that [OF e _ y md(4) dd(4) hd(4) id(4) sd(4)]) simp
qed

lemma jt_fraction_read:
  assumes "length pre = 19" "0 \<le> nsec" "nsec < 1000000000"
    "t = pre @ (if nsec > 0 \<and> nsec < 1000000000 then jt_fraction_text (nat nsec) else []) @ ''Z''"
  shows "jt_fraction t 19 = Inr (nsec, length t - 1) \<and> jt_offset t (length t - 1) = Inr (0, length t)"
proof (cases "nsec = 0")
  case True
  then show ?thesis using assms by (simp add: jt_fraction_def jt_offset_def nth_append)
next
  case False
  then have n: "0 < nat nsec" "nat nsec < 10 ^ 9" using assms(2,3) by auto
  obtain run where run: "jt_fraction_text (nat nsec) = CHR ''.'' # run" "list_all is_digit run" "0 < length run" "length run \<le> 9"
    "int (dval 0 run) * 10 ^ (9 - length run) = nsec"
    using fraction_text [OF n] assms(2) by auto
  have t: "t = pre @ CHR ''.'' # run @ ''Z''" using False assms run(1) by simp
  have "takeWhile is_digit (run @ ''Z'') = run" using run(2) by (simp add: list_all_iff is_digit_def takeWhile_append2)
  then have "jt_fraction t 19 = Inr (nsec, length t - 1)"
    using t assms(1) run(3-5) by (simp add: jt_fraction_def nth_append times10)
  moreover have "jt_offset t (length t - 1) = Inr (0, length t)"
    using t assms(1) by (simp add: jt_offset_def nth_append)
  ultimately show ?thesis by blast
qed

text \<open>
  A timestamp of the years 0 to 9999 with nanoseconds in range is written as RFC 3339 text that
  the reader takes back to the same instant.
\<close>
lemma jt_round_trip:
  assumes "sl_jt_civil_from_days (sec div 86400) = (y, m, d)" "0 \<le> y" "y \<le> 9999"
    and "0 \<le> nsec" "nsec < 1000000000"
  shows "sl_jt_parse (jt_text sec nsec) = Inr (sec, nsec)"
proof -
  define r h i s where "r = sec mod 86400" and "h = r div 3600" and "i = r div 60 mod 60" and "s = r mod 60"
  obtain y1 y2 y3 y4 m1 m2 d1 d2 h1 h2 i1 i2 s1 s2 where
    t: "jt_text sec nsec =
       [y1, y2, y3, y4, CHR ''-'', m1, m2, CHR ''-'', d1, d2, CHR ''T'', h1, h2, CHR '':'', i1, i2, CHR '':'', s1, s2] @
       (if nsec > 0 \<and> nsec < 1000000000 then jt_fraction_text (nat nsec) else []) @ ''Z''"
    and dig: "list_all is_digit [y1, y2, y3, y4, m1, m2, d1, d2, h1, h2, i1, i2, s1, s2]"
    and val: "int (dval 0 [y1, y2, y3, y4]) = y" "int (dval 0 [m1, m2]) = m" "int (dval 0 [d1, d2]) = d"
    "int (dval 0 [h1, h2]) = h" "int (dval 0 [i1, i2]) = i" "int (dval 0 [s1, s2]) = s"
    by (rule jt_text_shape [OF assms(1-3) r_def h_def i_def s_def])
  let ?pre = "[y1, y2, y3, y4, CHR ''-'', m1, m2, CHR ''-'', d1, d2, CHR ''T'', h1, h2, CHR '':'', i1, i2, CHR '':'', s1, s2]"
  define t where "t = jt_text sec nsec"
  obtain u where u: "t = ?pre @ u" using t by (simp add: t_def)
  have f: "jt_fraction t 19 = Inr (nsec, length t - 1)" "jt_offset t (length t - 1) = Inr (0, length t)"
    using jt_fraction_read [OF _ assms(4,5), of ?pre t] t by (simp_all add: t_def)
  have fld: "sl_jt_digits t 0 4 = y" "sl_jt_digits t 5 2 = m" "sl_jt_digits t 8 2 = d" "sl_jt_digits t 11 2 = h"
    "sl_jt_digits t 14 2 = i" "sl_jt_digits t 17 2 = s"
    using dig val by (simp_all add: sl_jt_digits_def u)
  have sep: "\<not> (length t < 19 \<or> t ! 4 \<noteq> CHR ''-'' \<or> t ! 7 \<noteq> CHR ''-'')" "t ! 10 = CHR ''T''" "t ! 13 = CHR '':''" "t ! 16 = CHR '':''"
    by (simp_all add: u)
  have v: "1 \<le> m" "m \<le> 12" "1 \<le> d" "d \<le> month_len y m" and z: "sl_jt_days_from_civil y m d = sec div 86400"
    using civil_from_days_valid [of "sec div 86400"] assms(1) by (simp_all add: valid_date_def)
  have r: "0 \<le> r" "r < 86400" by (simp_all add: r_def)
  have rg: "0 \<le> h" "h \<le> 23" "0 \<le> i" "i \<le> 59" "0 \<le> s" "s \<le> 59" using r by (auto simp: h_def i_def s_def)
  have "h * 3600 + i * 60 + s = r"
  proof -
    have "r div 60 div 60 = h" using zdiv_zmult2_eq [of 60 r 60] by (simp add: h_def)
    then have "60 * h + i = r div 60" using mult_div_mod_eq [of 60 "r div 60"] by (simp add: i_def)
    then have "60 * (60 * h + i) + s = r" using mult_div_mod_eq [of 60 r] by (simp add: s_def)
    then show ?thesis by simp
  qed
  then have "sl_jt_days_from_civil y m d * 86400 + h * 3600 + i * 60 + s - 0 = sec"
    using z div_mult_mod_eq [of sec 86400] by (simp add: r_def add.assoc)
  moreover have "\<not> (m < 1 \<or> m > 12 \<or> d < 1 \<or> d > sl_jt_days_in_month y m \<or> h > 23 \<or> i > 59 \<or> s > 59)"
    using v rg days_in_month_eq [OF assms(2) v(1,2)] by simp
  ultimately have "sl_jt_parse t = Inr (sec, nsec)"
    unfolding sl_jt_parse_def Let_def fld f if_not_P [OF sep(1)] using sep(2-4) assms(2) v rg by (simp add: f del: One_nat_def)
  then show ?thesis by (simp add: t_def)
qed

end
