(* ===== verification/Sl_Json_Encode.thy ===== *)
theory Sl_Json_Encode
  imports Sl_Json_Time
begin

text \<open>
  The encoder of the JSON package (\<open>src/runtime/sl_json.c\<close>, from \<open>sl_json_sb_init\<close> on). The
  buffer of a builder holds \<open>cap\<close> bytes; every write of the encoder goes through \<open>sb_write\<close>,
  which is \<open>None\<close> when the bytes and the terminator behind them do not fit. Lengths stay far below
  \<open>LLONG_MAX\<close>, except in \<open>sl_json_sb_reserve_items\<close>, whose arithmetic the code guards.
\<close>

section \<open>The string builder\<close>

record sl_json_sb =
  sb_data :: string
  sb_cap :: nat

definition LLONG_MAX :: nat where
  "LLONG_MAX = 2 ^ 63 - 1"

definition sl_json_sb_init :: sl_json_sb where
  "sl_json_sb_init = \<lparr>sb_data = [], sb_cap = 0\<rparr>"

function sb_grow_cap :: "nat \<Rightarrow> nat \<Rightarrow> nat" where
  "sb_grow_cap cap need = (if cap < need \<and> 0 < cap then sb_grow_cap (cap * 2) need else cap)"
  by pat_completeness auto
termination
  by (relation "measure (\<lambda>(cap, need). need - cap)") auto

declare sb_grow_cap.simps [simp del]

definition sl_json_sb_grow :: "sl_json_sb \<Rightarrow> nat \<Rightarrow> sl_json_sb" where
  "sl_json_sb_grow sb need =
     (if length (sb_data sb) + need + 1 > sb_cap sb
      then (let cap = (if sb_cap sb \<noteq> 0 then sb_cap sb * 2 else 64) in
            sb\<lparr>sb_cap := sb_grow_cap cap (length (sb_data sb) + need + 1)\<rparr>)
      else sb)"

definition sl_json_sb_reserve :: "sl_json_sb \<Rightarrow> nat \<Rightarrow> sl_json_sb" where
  "sl_json_sb_reserve sb need =
     (if need > 0 \<and> length (sb_data sb) + need + 1 > sb_cap sb
      then sb\<lparr>sb_cap := length (sb_data sb) + need + 1\<rparr> else sb)"

definition sl_json_sb_reserve_items :: "sl_json_sb \<Rightarrow> int \<Rightarrow> int \<Rightarrow> sl_json_sb" where
  "sl_json_sb_reserve_items sb count per_item =
     (if count \<le> 0 \<or> per_item \<le> 0 \<or> length (sb_data sb) \<ge> LLONG_MAX then sb
      else if count > int (LLONG_MAX - length (sb_data sb) - 1) div per_item then sb
      else sl_json_sb_reserve sb (nat (count * per_item)))"

definition sb_write :: "sl_json_sb \<Rightarrow> string \<Rightarrow> sl_json_sb option" where
  "sb_write sb s =
     (if length (sb_data sb) + length s + 1 \<le> sb_cap sb then Some (sb\<lparr>sb_data := sb_data sb @ s\<rparr>) else None)"

definition sl_json_sb_append_n :: "sl_json_sb \<Rightarrow> string \<Rightarrow> sl_json_sb option" where
  "sl_json_sb_append_n sb s = sb_write (sl_json_sb_grow sb (length s)) s"

definition sl_json_sb_append :: "sl_json_sb \<Rightarrow> string \<Rightarrow> sl_json_sb option" where
  "sl_json_sb_append sb s = sl_json_sb_append_n sb s"

section \<open>Strings\<close>

definition sl_json_enc_str_clean :: "string \<Rightarrow> sl_json_sb \<Rightarrow> sl_json_sb option" where
  "sl_json_enc_str_clean s sb = sb_write (sl_json_sb_grow sb (length s + 2)) (DQUOTE # s @ [DQUOTE])"

definition hexd :: "nat \<Rightarrow> char" where
  "hexd n = ''0123456789abcdef'' ! n"

definition esc_char :: "char \<Rightarrow> string" where
  "esc_char c =
     (if c = DQUOTE then [BSLASH, DQUOTE]
      else if c = BSLASH then [BSLASH, BSLASH]
      else if c = CHR 0x0A then [BSLASH, CHR ''n'']
      else if c = CHR 0x0D then [BSLASH, CHR ''r'']
      else if c = CHR 0x09 then [BSLASH, CHR ''t'']
      else if c = CHR 0x08 then [BSLASH, CHR ''b'']
      else if c = CHR 0x0C then [BSLASH, CHR ''f'']
      else if code c < 0x20
      then [BSLASH, CHR ''u'', CHR ''0'', CHR ''0'', hexd (drop_bit 4 (code c) AND 15), hexd (code c AND 15)]
      else [c])"

text \<open>The escaping tail: \<open>i\<close> clean bytes are copied, the rest goes byte by byte.\<close>

definition sl_json_enc_str_esc :: "string \<Rightarrow> nat \<Rightarrow> sl_json_sb \<Rightarrow> sl_json_sb option" where
  "sl_json_enc_str_esc s i sb =
     sb_write (sl_json_sb_grow sb (length s * 6 + 2))
       (DQUOTE # take i s @ concat (map esc_char (drop i s)) @ [DQUOTE])"

definition sl_json_enc_str :: "string \<Rightarrow> sl_json_sb \<Rightarrow> sl_json_sb option" where
  "sl_json_enc_str s sb =
     (let i = length (takeWhile plain_char s) in
      if i = length s then sl_json_enc_str_clean s sb else sl_json_enc_str_esc s i sb)"

section \<open>Bytes, times and numbers\<close>

definition sl_b64_alpha :: string where
  "sl_b64_alpha = ''ABCDEFGHIJKLMNOPQRSTUVWXYZabcdefghijklmnopqrstuvwxyz0123456789+/''"

definition alpha_at :: "32 word \<Rightarrow> nat \<Rightarrow> char" where
  "alpha_at n k = sl_b64_alpha ! unat (drop_bit k n AND 63)"

fun enc_bytes_loop :: "sl_bytes \<Rightarrow> sl_json_sb \<Rightarrow> sl_json_sb option" where
  "enc_bytes_loop (b0 # b1 # b2 # b) sb =
     (let n = push_bit 16 (ucast b0) OR push_bit 8 (ucast b1) OR ucast b2 in
      case sl_json_sb_append_n sb [alpha_at n 18, alpha_at n 12, alpha_at n 6, alpha_at n 0] of
        None \<Rightarrow> None
      | Some sb \<Rightarrow> enc_bytes_loop b sb)"
| "enc_bytes_loop [b0, b1] sb =
     (let n = push_bit 16 (ucast b0) OR push_bit 8 (ucast b1) in
      sl_json_sb_append_n sb [alpha_at n 18, alpha_at n 12, alpha_at n 6, CHR ''=''])"
| "enc_bytes_loop [b0] sb =
     (let n = push_bit 16 (ucast b0) in
      sl_json_sb_append_n sb [alpha_at n 18, alpha_at n 12, CHR ''='', CHR ''=''])"
| "enc_bytes_loop [] sb = Some sb"

definition sl_json_enc_bytes :: "sl_bytes \<Rightarrow> sl_json_sb \<Rightarrow> sl_json_sb option" where
  "sl_json_enc_bytes b sb =
     (case sl_json_sb_append_n sb [DQUOTE] of
        None \<Rightarrow> None
      | Some sb \<Rightarrow>
          (case enc_bytes_loop b sb of
             None \<Rightarrow> None
           | Some sb \<Rightarrow> sl_json_sb_append_n sb [DQUOTE]))"

text \<open>The text is put together in a local array of 64 bytes: \<open>None\<close> when it does not fit.\<close>

definition sl_json_enc_time :: "int \<Rightarrow> int \<Rightarrow> sl_json_sb \<Rightarrow> sl_json_sb option" where
  "sl_json_enc_time sec nsec sb =
     (let buf = DQUOTE # jt_text sec nsec @ [DQUOTE] in
      if length buf > 64 then None else sl_json_sb_append_n sb buf)"

text \<open>The digits of a magnitude, last one first, and the sign, in a local array of 20 bytes.\<close>

fun mag_digits :: "nat \<Rightarrow> string" where
  "mag_digits mag =
     char_of (48 + mag mod 10) # (if mag div 10 = 0 then [] else mag_digits (mag div 10))"

declare mag_digits.simps [simp del]

definition enc_mag :: "bool \<Rightarrow> nat \<Rightarrow> sl_json_sb \<Rightarrow> sl_json_sb option" where
  "enc_mag neg mag sb =
     (let tmp = mag_digits mag @ (if neg then ''-'' else []) in
      if length tmp > 20 then None else sb_write (sl_json_sb_grow sb 20) (rev tmp))"

definition sl_json_enc_i64 :: "int \<Rightarrow> sl_json_sb \<Rightarrow> sl_json_sb option" where
  "sl_json_enc_i64 v sb = enc_mag (v < 0) (if v < 0 then nat (- (v + 1)) + 1 else nat v) sb"

definition sl_json_enc_u64 :: "nat \<Rightarrow> sl_json_sb \<Rightarrow> sl_json_sb option" where
  "sl_json_enc_u64 v sb = enc_mag False v sb"

definition sl_json_enc_bool :: "bool \<Rightarrow> sl_json_sb \<Rightarrow> sl_json_sb option" where
  "sl_json_enc_bool v sb = sl_json_sb_append_n sb (if v then ''true'' else ''false'')"

definition sl_json_enc_null :: "sl_json_sb \<Rightarrow> sl_json_sb option" where
  "sl_json_enc_null sb = sl_json_sb_append_n sb ''null''"

end
