(* ===== verification/Sl_Json_Round.thy ===== *)
theory Sl_Json_Round
  imports Sl_Json_Scalar Sl_Json_Calendar Sl_Json_Encode Sl_Encoding
begin

text \<open>
  The encoder stays inside its buffers, and what it writes is read back, along both paths of the
  decoder: the contract of a scalar type is a locale that extends that of its reader.
\<close>

section \<open>The builder never overruns\<close>

text \<open>An encoder appends \<open>x\<close>, whatever the builder holds, with the terminator in the buffer.\<close>

definition appends :: "(sl_json_sb \<Rightarrow> sl_json_sb option) \<Rightarrow> string \<Rightarrow> bool" where
  "appends f x \<longleftrightarrow> (\<forall>sb. \<exists>cap. f sb = Some \<lparr>sb_data = sb_data sb @ x, sb_cap = cap\<rparr> \<and> length (sb_data sb @ x) < cap)"

lemma sb_grow_cap_enough: "0 < cap \<Longrightarrow> need \<le> sb_grow_cap cap need"
proof (induction cap need rule: sb_grow_cap.induct)
  case (1 cap need)
  then show ?case by (subst sb_grow_cap.simps) auto
qed

lemma sb_grow:
  "sb_data (sl_json_sb_grow sb n) = sb_data sb" "length (sb_data sb) + n + 1 \<le> sb_cap (sl_json_sb_grow sb n)"
  using sb_grow_cap_enough [of "if sb_cap sb \<noteq> 0 then sb_cap sb * 2 else 64" "length (sb_data sb) + n + 1"]
  by (auto simp: sl_json_sb_grow_def Let_def)

lemma write_appends:
  assumes "length x \<le> n"
  shows "appends (\<lambda>sb. sb_write (sl_json_sb_grow sb n) x) x"
  unfolding appends_def
proof
  fix sb
  let ?g = "sl_json_sb_grow sb n"
  have l: "length (sb_data sb) + length x + 1 \<le> sb_cap ?g" using sb_grow(2) [of sb n] assms by linarith
  then have "sb_write ?g x = Some \<lparr>sb_data = sb_data sb @ x, sb_cap = sb_cap ?g\<rparr>"
    by (simp add: sb_write_def sb_grow(1))
  then show "\<exists>cap. sb_write ?g x = Some \<lparr>sb_data = sb_data sb @ x, sb_cap = cap\<rparr> \<and> length (sb_data sb @ x) < cap"
    using l by auto
qed

lemma append_n_appends: "appends (\<lambda>sb. sl_json_sb_append_n sb x) x"
  unfolding sl_json_sb_append_n_def by (rule write_appends) simp

lemma appends_bind:
  assumes "appends f x" "appends g y"
  shows "appends (\<lambda>sb. case f sb of None \<Rightarrow> None | Some sb \<Rightarrow> g sb) (x @ y)"
  unfolding appends_def
proof
  fix sb
  obtain c where c: "f sb = Some \<lparr>sb_data = sb_data sb @ x, sb_cap = c\<rparr>" using assms(1) by (auto simp: appends_def)
  obtain c' where "g \<lparr>sb_data = sb_data sb @ x, sb_cap = c\<rparr> = Some \<lparr>sb_data = (sb_data sb @ x) @ y, sb_cap = c'\<rparr>"
    "length ((sb_data sb @ x) @ y) < c'" using assms(2) unfolding appends_def by (metis sl_json_sb.select_convs(1))
  then show "\<exists>cap. (case f sb of None \<Rightarrow> None | Some sb \<Rightarrow> g sb) = Some \<lparr>sb_data = sb_data sb @ x @ y, sb_cap = cap\<rparr> \<and> length (sb_data sb @ x @ y) < cap"
    using c by auto
qed

section \<open>What the encoder writes is read back\<close>

lemma not_is_container_leaf [simp]: "\<not> is_container (SL_JV_BOOL b)" "\<not> is_container (SL_JV_NUM d t)" "\<not> is_container (SL_JV_STR s)"
  by (simp_all add: is_container_def)

lemma num_end_Nil: "jp_rest p = [] \<Longrightarrow> num_end p"
  by (simp add: num_end_def digit_next_def sl_jpeek_def)

text \<open>What \<open>enc\<close> writes for \<open>a\<close>, the tree path and the direct path both read as \<open>a\<close>.\<close>

definition reads_back :: "('a \<Rightarrow> sl_json_sb \<Rightarrow> sl_json_sb option) \<Rightarrow> (sl_jparser \<Rightarrow> ('a \<times> sl_jparser) option) \<Rightarrow>
    (sl_json_val \<Rightarrow> 'a sl_result) \<Rightarrow> 'a \<Rightarrow> bool" where
  "reads_back enc rd decoder a \<longleftrightarrow>
     (\<exists>sb v q. enc a sl_json_sb_init = Some sb \<and> length (sb_data sb) < sb_cap sb \<and>
        sl_json_parse (sb_data sb) = Inr ([v], Some 0) \<and> decoder v = Inr a \<and>
        rd \<lparr>jp_rest = sb_data sb, jp_pos = 0, jp_depth = 0\<rparr> = Some (a, q) \<and> sl_jd_end q)"

locale json_scalar = direct_reader rd decoder
  for rd :: "sl_jparser \<Rightarrow> ('a \<times> sl_jparser) option" and decoder :: "sl_json_val \<Rightarrow> 'a sl_result" +
  fixes enc :: "'a \<Rightarrow> sl_json_sb \<Rightarrow> sl_json_sb option" and ok :: "'a \<Rightarrow> bool"
    and written :: "'a \<Rightarrow> string" and node :: "'a \<Rightarrow> sl_json_val"
  assumes enc_appends: "ok a \<Longrightarrow> appends (enc a) (written a)"
    and written_start: "ok a \<Longrightarrow> written a \<noteq> [] \<and> \<not> is_ws (hd (written a))"
    and written_read: "ok a \<Longrightarrow> jtakes (written a) p q \<Longrightarrow> num_end q \<Longrightarrow> jread p = Inr (node a, q)"
    and node_decodes: "ok a \<Longrightarrow> decoder (node a) = Inr a"
begin

lemma round_trip:
  assumes "ok a"
  shows "reads_back enc rd decoder a"
proof -
  obtain c where sb: "enc a sl_json_sb_init = Some \<lparr>sb_data = written a, sb_cap = c\<rparr>" "length (written a) < c"
    using enc_appends [OF assms] unfolding appends_def sl_json_sb_init_def by (metis append_Nil sl_json_sb.select_convs(1))
  let ?p = "\<lparr>jp_rest = written a, jp_pos = 0, jp_depth = 0\<rparr>"
  let ?q = "jadv (length (written a)) ?p"
  have t: "jtakes (written a) ?p ?q" by (simp add: jtakes_def)
  have e: "jp_rest ?q = []" by simp
  have skip: "sl_jskip_ws ?p = ?p" using written_start [OF assms] by (cases "written a") (simp_all add: sl_jskip_ws_def)
  have r: "jread (sl_jskip_ws ?p) = Inr (node a, ?q)" unfolding skip by (rule written_read [OF assms t num_end_Nil [OF e]])
  have d: "decoder (node a) = Inr a" by (rule node_decodes [OF assms])
  have q: "jp_rest (sl_jskip_ws ?q) = []" using skip_ws_le [of ?q] e by simp
  have "sl_json_parse (written a) = Inr ([node a], Some 0)"
    using parse_value_scalar [OF r decoder_scalar [OF d]] q by (simp add: sl_json_parse_def Let_def)
  moreover have "rd ?p = Some (a, ?q)" using rd_iff [of ?p a ?q] r d by blast
  ultimately show ?thesis using sb d q unfolding reads_back_def sl_jd_end_def by fastforce
qed

end

section \<open>Strings\<close>

lemma and_15_nat: "(n :: nat) AND 15 = n mod 16"
  using take_bit_eq_mod [of 4 n] by (simp add: take_bit_eq_mask mask_eq_exp_minus_1)

lemma hexd_digit: "n < 16 \<Longrightarrow> is_xdigit (hexd n) \<and> hexdigit (hexd n) = n"
proof -
  have "\<forall>n<16. is_xdigit (hexd n) \<and> hexdigit (hexd n) = n" by code_simp
  then show "n < 16 \<Longrightarrow> ?thesis" by blast
qed

lemma hexd_unit: "n < 32 \<Longrightarrow> hex_unit [CHR ''0'', CHR ''0'', hexd (drop_bit 4 n AND 15), hexd (n AND 15)] n"
proof -
  assume n: "n < 32"
  have a: "drop_bit 4 n AND 15 = n div 16" using n by (simp add: drop_bit_eq_div and_15_nat)
  have b: "n AND 15 = n mod 16" by (simp add: and_15_nat)
  have "n div 16 < 16" using n by simp
  then show ?thesis unfolding a b using hexd_digit [of "n div 16"] hexd_digit [of "n mod 16"] hexd_digit [of 0]
    by (simp add: hex_unit_def hexd_def)
qed

lemma simple_sets:
  "(DQUOTE, 0x22) \<in> set simple_escapes" "(BSLASH, 0x5C) \<in> set simple_escapes" "(CHR ''n'', 10) \<in> set simple_escapes"
  "(CHR ''r'', 13) \<in> set simple_escapes" "(CHR ''t'', 9) \<in> set simple_escapes" "(CHR ''b'', 8) \<in> set simple_escapes"
  "(CHR ''f'', 12) \<in> set simple_escapes"
  by (simp_all add: simple_escapes_def)

lemma simple_chars:
  "char_of (0x22 :: nat) = DQUOTE" "char_of (0x5C :: nat) = BSLASH" "char_of (10 :: nat) = CHR 0x0A" "char_of (13 :: nat) = CHR 0x0D"
  "char_of (9 :: nat) = CHR 0x09" "char_of (8 :: nat) = CHR 0x08" "char_of (12 :: nat) = CHR 0x0C"
  by (simp_all add: DQUOTE_def BSLASH_def char_of_def bit_0)

lemma esc_char_simple:
  "esc_char DQUOTE = [BSLASH, DQUOTE]" "esc_char BSLASH = [BSLASH, BSLASH]" "esc_char (CHR 0x0A) = [BSLASH, CHR ''n'']"
  "esc_char (CHR 0x0D) = [BSLASH, CHR ''r'']" "esc_char (CHR 0x09) = [BSLASH, CHR ''t'']" "esc_char (CHR 0x08) = [BSLASH, CHR ''b'']"
  "esc_char (CHR 0x0C) = [BSLASH, CHR ''f'']"
  by (simp_all add: esc_char_def DQUOTE_def BSLASH_def)

lemma jchars_esc_char: "jchars b v \<Longrightarrow> jchars (esc_char c @ b) (c # v)"
proof -
  assume a: "jchars b v"
  have simple: "jchars ([BSLASH, e] @ b) (char_of cp # v)" if "(e, cp) \<in> set simple_escapes" for e cp
    using jchars_simple [OF that a] by simp
  note known = simple_sets [THEN simple, unfolded simple_chars]
  consider "c = DQUOTE" | "c = BSLASH" | "c = CHR 0x0A" | "c = CHR 0x0D" | "c = CHR 0x09" | "c = CHR 0x08" | "c = CHR 0x0C"
    | "c \<noteq> DQUOTE" "c \<noteq> BSLASH" "c \<noteq> CHR 0x0A" "c \<noteq> CHR 0x0D" "c \<noteq> CHR 0x09" "c \<noteq> CHR 0x08" "c \<noteq> CHR 0x0C" "code c < 32"
    | "plain_char c" using linorder_not_less [of "code c" 32] unfolding plain_char_def by blast
  then show ?thesis
  proof cases
    case 8
    let ?h = "[CHR ''0'', CHR ''0'', hexd (drop_bit 4 (code c) AND 15), hexd (code c AND 15)]"
    have "hex_unit ?h (code c)" by (rule hexd_unit [OF 8(8)])
    then have "jchars (BSLASH # CHR ''u'' # ?h @ b) (utf8 (code c) @ v)" using a 8(8) by (intro jchars_unit) auto
    then show ?thesis using 8 by (simp add: esc_char_def utf8_def)
  next
    case 9
    then show ?thesis using jchars_plain [OF 9 a] by (auto simp: esc_char_def plain_char_def code_def)
  qed (simp_all only: esc_char_simple known)
qed

lemma jchars_escaped: "jchars (concat (map esc_char s)) s"
  by (induction s) (auto intro: jchars_Nil jchars_esc_char)

lemma esc_char_plain: "plain_char c \<Longrightarrow> esc_char c = [c]"
  by (auto simp: esc_char_def plain_char_def code_def)

lemma esc_plain: "list_all plain_char s \<Longrightarrow> concat (map esc_char s) = s"
  by (induction s) (auto simp: esc_char_plain)

lemma esc_length: "length (concat (map esc_char s)) \<le> length s * 6"
proof (induction s)
  case (Cons c s)
  have "length (esc_char c) \<le> 6" by (simp add: esc_char_def)
  then show ?case using Cons by simp
qed simp

definition json_quoted :: "string \<Rightarrow> string" where
  "json_quoted b = DQUOTE # b @ [DQUOTE]"

lemma enc_str_appends: "appends (sl_json_enc_str s) (json_quoted (concat (map esc_char s)))"
proof (cases "list_all plain_char s")
  case True
  then have "length (takeWhile plain_char s) = length s" by (simp add: list_all_iff takeWhile_eq_all_conv [THEN iffD2])
  then have "sl_json_enc_str s = (\<lambda>sb. sb_write (sl_json_sb_grow sb (length s + 2)) (json_quoted s))"
    by (auto simp: sl_json_enc_str_def sl_json_enc_str_clean_def json_quoted_def)
  then show ?thesis using write_appends [of "json_quoted s" "length s + 2"] esc_plain [OF True] by (simp add: json_quoted_def)
next
  case False
  let ?i = "length (takeWhile plain_char s)"
  have "?i \<noteq> length s"
    using False by (metis list_all_iff length_takeWhile_le takeWhile_eq_all_conv takeWhile_eq_take take_all order_refl)
  moreover have "list_all plain_char (take ?i s)" by (auto simp: list_all_iff takeWhile_eq_take [symmetric] dest: set_takeWhileD)
  then have "take ?i s @ concat (map esc_char (drop ?i s)) = concat (map esc_char s)"
    by (metis append_take_drop_id concat_append esc_plain map_append)
  ultimately have "sl_json_enc_str s = (\<lambda>sb. sb_write (sl_json_sb_grow sb (length s * 6 + 2)) (json_quoted (concat (map esc_char s))))"
    by (auto simp: sl_json_enc_str_def sl_json_enc_str_esc_def json_quoted_def Let_def simp flip: append_assoc)
  then show ?thesis using write_appends [of "json_quoted (concat (map esc_char s))" "length s * 6 + 2"] esc_length [of s] by (simp add: json_quoted_def)
qed

lemma json_quoted_start [simp]: "json_quoted b \<noteq> [] \<and> \<not> is_ws (hd (json_quoted b))"
  by (simp add: json_quoted_def is_ws_def DQUOTE_def)

lemma c_str_nul_free: "nul_free s \<Longrightarrow> c_str s = s"
  by (auto simp: c_str_def nul_free_def takeWhile_eq_all_conv)

interpretation js_str: json_scalar sl_jd_str sl_json_dec_str sl_json_enc_str nul_free "\<lambda>s. json_quoted (concat (map esc_char s))" SL_JV_STR
proof unfold_locales
  show "jread p = Inr (SL_JV_STR s, q)" if "jtakes (json_quoted (concat (map esc_char s))) p q" for s p q
    using jread_str [OF jchars_escaped] that by (simp add: json_quoted_def)
qed (simp_all add: enc_str_appends dec_iffs c_str_nul_free)

section \<open>Booleans\<close>

interpretation js_bool: json_scalar sl_jd_bool sl_json_dec_bool sl_json_enc_bool "\<lambda>_. True"
    "\<lambda>b. if b then ''true'' else ''false''" SL_JV_BOOL
proof unfold_locales
  show "appends (sl_json_enc_bool b) (if b then ''true'' else ''false'')" for b
    unfolding sl_json_enc_bool_def [abs_def] by (rule append_n_appends)
  show "jread p = Inr (SL_JV_BOOL b, q)" if "jtakes (if b then ''true'' else ''false'') p q" for b p q
    using that jread_lit by (cases b) auto
qed (auto simp: is_ws_def dec_iffs)

section \<open>Timestamps\<close>

definition json_time :: "int \<times> int \<Rightarrow> bool" where
  "json_time t \<longleftrightarrow> (case t of (sec, nsec) \<Rightarrow>
     (case sl_jt_civil_from_days (sec div 86400) of (y, m, d) \<Rightarrow> 0 \<le> y \<and> y \<le> 9999) \<and> 0 \<le> nsec \<and> nsec < 1000000000)"

lemma fraction_text_length: "length (jt_fraction_text n) \<le> 10"
proof -
  have l: "length (nine_digits k v) = k" for k v by (induction k arbitrary: v) auto
  have "length (dropWhile P xs) \<le> length xs" for P and xs :: string by (rule length_dropWhile_le)
  from this [of "\<lambda>c. c = CHR ''0''" "rev (tl (nine_digits 9 n))"] show ?thesis using l [of 9 n] by (simp add: jt_fraction_text_def Let_def)
qed

lemma json_time_text:
  assumes "json_time (sec, nsec)"
  shows "sl_jt_parse (jt_text sec nsec) = Inr (sec, nsec)" "length (jt_text sec nsec) \<le> 30"
proof -
  obtain y m d where x: "sl_jt_civil_from_days (sec div 86400) = (y, m, d)" "0 \<le> y" "y \<le> 9999" "0 \<le> nsec" "nsec < 1000000000"
    using assms by (auto simp: json_time_def)
  show "sl_jt_parse (jt_text sec nsec) = Inr (sec, nsec)" by (rule jt_round_trip [OF x])
  obtain pre where pre: "length pre = 19"
    "jt_text sec nsec = pre @ (if nsec > 0 \<and> nsec < 1000000000 then jt_fraction_text (nat nsec) else []) @ ''Z''"
    by (rule jt_text_shape [OF x(1-3) refl refl refl refl, of nsec], rule that [rotated], assumption, simp)
  then show "length (jt_text sec nsec) \<le> 30" using fraction_text_length [of "nat nsec"] by simp
qed

interpretation js_time: json_scalar sl_jd_time sl_json_dec_time "\<lambda>(sec, nsec). sl_json_enc_time sec nsec" json_time
    "\<lambda>(sec, nsec). json_quoted (jt_text sec nsec)" "\<lambda>(sec, nsec). SL_JV_STR (jt_text sec nsec)"
proof (unfold_locales, goal_cases)
  case (1 t)
  obtain sec nsec where t: "t = (sec, nsec)" by fastforce
  have "sl_json_enc_time sec nsec = (\<lambda>sb. sl_json_sb_append_n sb (json_quoted (jt_text sec nsec)))"
    using json_time_text(2) [of sec nsec] 1 t by (auto simp: sl_json_enc_time_def json_quoted_def Let_def)
  then show ?case using append_n_appends t by simp
next
  case (2 t)
  then show ?case by (cases t) simp
next
  case (3 t p q)
  obtain sec nsec where t: "t = (sec, nsec)" by fastforce
  have "jchars (jt_text sec nsec) (jt_text sec nsec)"
    using json_time_text(1) [of sec nsec] 3(1) t by (intro jchars_all_plain jt_parse_chars [THEN conjunct1]) auto
  then show ?case using jread_str 3(2) t by (simp add: json_quoted_def)
next
  case (4 t)
  obtain sec nsec where t: "t = (sec, nsec)" by fastforce
  have "sl_jt_parse (jt_text sec nsec) = Inr (sec, nsec)" using json_time_text(1) 4 t by simp
  then show ?case using jt_parse_chars [of "jt_text sec nsec"] t by (auto simp: dec_iffs)
qed

section \<open>Integers\<close>

lemma mag_digits_digits: "list_all is_digit (mag_digits n)"
proof (induction n rule: mag_digits.induct)
  case (1 n)
  have "n mod 10 < 10" by simp
  then have "is_digit (char_of (48 + n mod 10))" by (simp add: is_digit_def char_less_eq_code)
  then show ?case using 1 by (subst mag_digits.simps) simp
qed

lemma mag_digits_value: "dval 0 (rev (mag_digits n)) = n"
proof (induction n rule: mag_digits.induct)
  case (1 n)
  have c: "code (char_of (48 + n mod 10)) = 48 + n mod 10" by simp
  show ?case
  proof (cases "n div 10 = 0")
    case True
    then show ?thesis using c by (subst mag_digits.simps) simp
  next
    case False
    then show ?thesis using 1 c by (subst mag_digits.simps) (simp add: dval_simps(3))
  qed
qed

lemma mag_digits_last: "0 < n \<Longrightarrow> last (mag_digits n) \<noteq> CHR ''0''"
proof (induction n rule: mag_digits.induct)
  case (1 n)
  show ?case
  proof (cases "n div 10 = 0")
    case True
    then have "code (char_of (48 + n mod 10)) \<noteq> 48" using "1.prems" by simp
    then have "char_of (48 + n mod 10) \<noteq> CHR ''0''" by (metis code_numeral_char(1))
    then show ?thesis using True by (subst mag_digits.simps) simp
  next
    case False
    have "mag_digits (n div 10) \<noteq> []" by (subst mag_digits.simps) simp
    then show ?thesis using 1 False by (subst mag_digits.simps) simp
  qed
qed

lemma mag_digits_length: "n < 10 ^ k \<Longrightarrow> 0 < k \<Longrightarrow> length (mag_digits n) \<le> k"
proof (induction n arbitrary: k rule: mag_digits.induct)
  case (1 n)
  show ?case
  proof (cases "n div 10 = 0")
    case False
    then obtain j where j: "k = Suc j" "0 < j" using "1.prems" by (cases k; cases "k - 1") auto
    then have "n div 10 < 10 ^ j" using "1.prems"(1) by (simp add: less_mult_imp_div_less mult.commute)
    then show ?thesis using 1 False j by (subst mag_digits.simps) simp
  qed (use "1.prems" in \<open>subst mag_digits.simps, simp\<close>)
qed

lemma mag_digits_jint: "jint (rev (mag_digits n))"
proof (cases "n = 0")
  case True
  then show ?thesis by (subst mag_digits.simps) (simp add: jint_def char_of_def bit_0)
next
  case False
  have ne: "mag_digits n \<noteq> []" by (subst mag_digits.simps) simp
  then show ?thesis using mag_digits_last [of n] mag_digits_digits [of n] False by (simp add: jint_def digits_def hd_rev list_all_iff)
qed

definition json_int_text :: "bool \<Rightarrow> nat \<Rightarrow> string" where
  "json_int_text neg mag = (if neg then ''-'' else []) @ rev (mag_digits mag)"

lemma int_text_jnum: "jnum (json_int_text neg mag)"
  unfolding jnum_def json_int_text_def
  by (rule exI [of _ "if neg then ''-'' else []"], rule exI [of _ "rev (mag_digits mag)"], rule exI [of _ "[]"], rule exI [of _ "[]"])
    (simp add: mag_digits_jint jfrac_def jexp_def)

lemma int_text_value: "mag < 2 ^ 64 \<Longrightarrow> sl_json_num_int (json_int_text neg mag) = SL_JSON_INT_OK neg mag"
proof -
  assume m: "mag < 2 ^ 64"
  let ?ds = "rev (mag_digits mag)" and ?sg = "if neg then ''-'' else []"
  have d: "list_all is_digit ?ds" using mag_digits_digits [of mag] by (simp add: list_all_iff)
  have "sl_json_num_int_n (?sg @ ?ds @ [] @ []) = int_core (?sg \<noteq> []) (?ds @ tl []) (int_exponent [] - int (length (tl ([] :: string))))"
    by (rule num_int_parts) (simp_all add: mag_digits_jint jfrac_def jexp_def)
  then show ?thesis using m int_core_exact [OF d, of neg 0]
    by (simp add: sl_json_num_int_def json_int_text_def int_exponent_def scaled_def int_spec_def mag_digits_value split: if_splits)
qed

lemma int_text_read: "jtakes (json_int_text neg mag) p q \<Longrightarrow> num_end q \<Longrightarrow> jread p = Inr (SL_JV_NUM (jnum_double (json_int_text neg mag)) (json_int_text neg mag), q)"
  by (simp add: jread_num_iff sl_jparse_number_complete [OF int_text_jnum])

lemma int_text_start: "json_int_text neg mag \<noteq> [] \<and> \<not> is_ws (hd (json_int_text neg mag))"
  using jnum_start [OF int_text_jnum [of neg mag]] digit_not_ws by (auto simp: is_ws_def)

lemma enc_mag_appends:
  assumes "if neg then mag \<le> 2 ^ 63 else mag < 2 ^ 64"
  shows "appends (enc_mag neg mag) (json_int_text neg mag)"
proof -
  have l: "length (mag_digits mag @ (if neg then ''-'' else [])) \<le> 20"
    using assms mag_digits_length [of mag 19] mag_digits_length [of mag 20] by (simp split: if_splits)
  then have "enc_mag neg mag = (\<lambda>sb. sb_write (sl_json_sb_grow sb 20) (json_int_text neg mag))"
    by (auto simp: enc_mag_def json_int_text_def Let_def)
  then show ?thesis using write_appends [of "json_int_text neg mag" 20] l by (simp add: json_int_text_def split: if_splits)
qed

definition i64_mag :: "int \<Rightarrow> nat" where
  "i64_mag v = (if v < 0 then nat (- (v + 1)) + 1 else nat v)"

definition i64_range :: "int \<Rightarrow> bool" where
  "i64_range v \<longleftrightarrow> - (2 ^ 63) \<le> v \<and> v < 2 ^ 63"

lemma i64_mag_eq: "i64_mag v = nat \<bar>v\<bar>"
  by (cases "v < 0") (simp_all add: i64_mag_def nat_add_distrib [symmetric] Suc_nat_eq_nat_zadd1)

interpretation rd_i64: direct_reader sl_jd_i64 sl_json_dec_i64
  unfolding sl_jd_i64_def [abs_def] sl_json_dec_i64_def [abs_def] by (rule rd_signed.direct_reader_axioms)

interpretation rd_u64: direct_reader sl_jd_u64 sl_json_dec_u64
  unfolding sl_jd_u64_def [abs_def] sl_json_dec_u64_def [abs_def] by (rule rd_unsigned.direct_reader_axioms)

interpretation js_i64: json_scalar sl_jd_i64 sl_json_dec_i64 sl_json_enc_i64 i64_range
    "\<lambda>v. json_int_text (v < 0) (i64_mag v)"
    "\<lambda>v. SL_JV_NUM (jnum_double (json_int_text (v < 0) (i64_mag v))) (json_int_text (v < 0) (i64_mag v))"
proof (unfold_locales, goal_cases)
  case (1 v)
  then show ?case unfolding sl_json_enc_i64_def [abs_def] i64_mag_def [symmetric]
    by (intro enc_mag_appends) (auto simp: i64_range_def i64_mag_def)
next
  case (4 v)
  then have "i64_mag v < 2 ^ 64" by (auto simp: i64_mag_eq i64_range_def nat_less_iff)
  then have "sl_json_num_int (json_int_text (v < 0) (i64_mag v)) = SL_JSON_INT_OK (v < 0) (i64_mag v)" by (rule int_text_value)
  then show ?case using 4 unfolding sl_json_dec_i64_def dec_int_iffs
    by (auto simp: i64_range_def neg_lim_def mag_value_def i64_mag_eq nat_le_iff of_nat_diff)
qed (simp_all add: int_text_start int_text_read)

interpretation js_u64: json_scalar sl_jd_u64 sl_json_dec_u64 sl_json_enc_u64 "\<lambda>v. v < 2 ^ 64"
    "json_int_text False" "\<lambda>v. SL_JV_NUM (jnum_double (json_int_text False v)) (json_int_text False v)"
proof (unfold_locales, goal_cases)
  case (1 v)
  then show ?case unfolding sl_json_enc_u64_def [abs_def] by (intro enc_mag_appends) simp
next
  case (4 v)
  then show ?case using int_text_value [of v False] unfolding sl_json_dec_u64_def dec_int_iffs by auto
qed (simp_all add: int_text_start int_text_read)


section \<open>Base64\<close>

definition alpha4 :: "32 word \<Rightarrow> string" where
  "alpha4 n = [alpha_at n 18, alpha_at n 12, alpha_at n 6, alpha_at n 0]"

fun b64_text :: "sl_bytes \<Rightarrow> string" where
  "b64_text (b0 # b1 # b2 # b) = alpha4 (push_bit 16 (ucast b0) OR push_bit 8 (ucast b1) OR ucast b2) @ b64_text b"
| "b64_text [b0, b1] = take 3 (alpha4 (push_bit 16 (ucast b0) OR push_bit 8 (ucast b1))) @ ''=''"
| "b64_text [b0] = take 2 (alpha4 (push_bit 16 (ucast b0))) @ ''==''"
| "b64_text [] = []"

text \<open>The same from a builder whose contents and terminator fit.\<close>

definition continues :: "(sl_json_sb \<Rightarrow> sl_json_sb option) \<Rightarrow> string \<Rightarrow> bool" where
  "continues f x \<longleftrightarrow> (\<forall>sb. length (sb_data sb) < sb_cap sb \<longrightarrow>
     (\<exists>cap. f sb = Some \<lparr>sb_data = sb_data sb @ x, sb_cap = cap\<rparr> \<and> length (sb_data sb @ x) < cap))"

lemma appends_continues: "appends f x \<Longrightarrow> continues f x"
  by (simp add: appends_def continues_def)

lemma continues_Some: "continues Some []"
proof -
  have "Some sb = Some \<lparr>sb_data = sb_data sb @ [], sb_cap = sb_cap sb\<rparr>" for sb by simp
  then show ?thesis unfolding continues_def by (metis append_Nil2)
qed

lemma appends_then:
  assumes "appends f x" "continues g y"
  shows "appends (\<lambda>sb. case f sb of None \<Rightarrow> None | Some sb \<Rightarrow> g sb) (x @ y)"
  unfolding appends_def
proof
  fix sb
  obtain c where c: "f sb = Some \<lparr>sb_data = sb_data sb @ x, sb_cap = c\<rparr>" "length (sb_data sb @ x) < c"
    using assms(1) unfolding appends_def by blast
  then obtain c' where "g \<lparr>sb_data = sb_data sb @ x, sb_cap = c\<rparr> = Some \<lparr>sb_data = (sb_data sb @ x) @ y, sb_cap = c'\<rparr>"
    "length ((sb_data sb @ x) @ y) < c'" using assms(2) unfolding continues_def by (metis sl_json_sb.select_convs)
  then show "\<exists>cap. (case f sb of None \<Rightarrow> None | Some sb \<Rightarrow> g sb) = Some \<lparr>sb_data = sb_data sb @ x @ y, sb_cap = cap\<rparr> \<and> length (sb_data sb @ x @ y) < cap"
    using c by auto
qed

lemma enc_bytes_loop_continues: "continues (enc_bytes_loop b) (b64_text b)"
proof (induction b rule: b64_text.induct)
  case (1 b0 b1 b2 b)
  have "appends (enc_bytes_loop (b0 # b1 # b2 # b)) (b64_text (b0 # b1 # b2 # b))"
    using appends_then [OF append_n_appends 1, of "alpha4 (push_bit 16 (ucast b0) OR push_bit 8 (ucast b1) OR ucast b2)"]
    by (simp add: alpha4_def enc_bytes_loop.simps(1) [abs_def] Let_def)
  then show ?case by (rule appends_continues)
next
  case (2 b0 b1)
  have "appends (enc_bytes_loop [b0, b1]) (b64_text [b0, b1])"
    using append_n_appends by (simp add: alpha4_def enc_bytes_loop.simps(2) [abs_def] Let_def)
  then show ?case by (rule appends_continues)
next
  case (3 b0)
  have "appends (enc_bytes_loop [b0]) (b64_text [b0])"
    using append_n_appends by (simp add: alpha4_def enc_bytes_loop.simps(3) [abs_def] Let_def)
  then show ?case by (rule appends_continues)
next
  case 4
  have "enc_bytes_loop [] = Some" by (rule ext) simp
  then show ?case using continues_Some by simp
qed

lemma enc_bytes_appends: "appends (sl_json_enc_bytes b) (json_quoted (b64_text b))"
proof -
  have "continues (\<lambda>sb. case enc_bytes_loop b sb of None \<Rightarrow> None | Some sb \<Rightarrow> sl_json_sb_append_n sb [DQUOTE]) (b64_text b @ [DQUOTE])"
    unfolding continues_def
  proof (intro allI impI)
    fix sb :: sl_json_sb
    assume "length (sb_data sb) < sb_cap sb"
    then obtain c where c: "enc_bytes_loop b sb = Some \<lparr>sb_data = sb_data sb @ b64_text b, sb_cap = c\<rparr>"
      using enc_bytes_loop_continues unfolding continues_def by blast
    show "\<exists>cap. (case enc_bytes_loop b sb of None \<Rightarrow> None | Some sb \<Rightarrow> sl_json_sb_append_n sb [DQUOTE])
        = Some \<lparr>sb_data = sb_data sb @ b64_text b @ [DQUOTE], sb_cap = cap\<rparr> \<and> length (sb_data sb @ b64_text b @ [DQUOTE]) < cap"
      using append_n_appends [of "[DQUOTE]", unfolded appends_def, rule_format, of "\<lparr>sb_data = sb_data sb @ b64_text b, sb_cap = c\<rparr>"] c by auto
  qed
  from appends_then [OF append_n_appends this, of "[DQUOTE]"] show ?thesis
    unfolding sl_json_enc_bytes_def [abs_def] json_quoted_def append_Cons append_Nil .
qed

lemma alpha_digit: "n < 64 \<Longrightarrow> sl_b64_digit (sl_b64_alpha ! n) = int n \<and> plain_char (sl_b64_alpha ! n) \<and> sl_b64_alpha ! n \<noteq> CHR ''=''"
proof -
  have "\<forall>n<64. sl_b64_digit (sl_b64_alpha ! n) = int n \<and> plain_char (sl_b64_alpha ! n) \<and> sl_b64_alpha ! n \<noteq> CHR ''=''" by code_simp
  then show "n < 64 \<Longrightarrow> ?thesis" by blast
qed

lemma alpha_at_facts:
  "sl_b64_digit (alpha_at v k) = uint (take_bit 6 (drop_bit k v))" "plain_char (alpha_at v k)" "alpha_at v k \<noteq> CHR ''=''"
  using alpha_digit [of "unat (take_bit 6 (drop_bit k v))"] unat_take_bit_less [of 6 "drop_bit k v"]
  by (simp_all add: alpha_at_def and_63)

lemma quad_val:
  assumes "\<And>n. 24 \<le> n \<Longrightarrow> \<not> bit v n"
  shows "b64_quad_val (uint (take_bit 6 (drop_bit 18 v))) (uint (take_bit 6 (drop_bit 12 v))) (uint (take_bit 6 (drop_bit 6 v))) (uint (take_bit 6 v)) = v"
  using quantum_sextets [OF assms] by (simp add: b64_quad_val_def)

lemma plain_pad: "plain_char (CHR ''='')"
  by (simp add: plain_char_def DQUOTE_def BSLASH_def code_def)

lemma b64_text_plain: "list_all plain_char (b64_text b)"
  by (induction b rule: b64_text.induct) (simp_all add: alpha4_def alpha_at_facts(2) plain_pad)

lemma digit_nonneg: "\<not> sl_b64_digit (alpha_at v k) < 0"
  by (simp add: alpha_at_facts)

lemma b64_text_length: "length (b64_text b) = (length b + 2) div 3 * 4"
proof (induction b rule: b64_text.induct)
  case (1 b0 b1 b2 b)
  have "(length (b0 # b1 # b2 # b) + 2) div 3 = (length b + 2) div 3 + 1" using div_add_self1 [of 3 "length b + 2"] by simp
  then show ?case using 1 by (simp add: alpha4_def)
qed (simp_all add: alpha4_def)

text \<open>The padding that the last group leaves.\<close>

lemma b64_text_pad:
  "(let s = b64_text b; n = length s in
      n div 4 * 3 - ((if n \<ge> 1 \<and> s ! (n - 1) = CHR ''='' then 1 else 0) + (if n \<ge> 2 \<and> s ! (n - 2) = CHR ''='' then 1 else 0))) = length b"
proof (induction b rule: b64_text.induct)
  case (1 b0 b1 b2 b)
  let ?a = "alpha4 (push_bit 16 (ucast b0) OR push_bit 8 (ucast b1) OR ucast b2)"
  have a: "length ?a = 4" "?a ! 3 \<noteq> CHR ''=''" "?a ! 2 \<noteq> CHR ''=''" by (simp_all add: alpha4_def alpha_at_facts(3))
  show ?case
  proof (cases "b = []")
    case True
    then show ?thesis using a by (simp add: Let_def)
  next
    case False
    then have l: "4 \<le> length (b64_text b)" "1 \<le> length b" by (cases b; simp add: b64_text_length)+
    let ?n = "length (b64_text b)"
    have nth: "(?a @ b64_text b) ! (4 + ?n - k) = b64_text b ! (?n - k)" if "k \<le> 2" for k
    proof -
      have "4 + ?n - k = length ?a + (?n - k)" using a(1) l(1) that by linarith
      then show ?thesis by (simp only: nth_append_length_plus)
    qed
    have "(4 + ?n) div 4 * 3 = ?n div 4 * 3 + 3" using div_add_self1 [of 4 ?n] by linarith
    moreover have "?n div 4 * 3 \<ge> 3" using l(1) by (simp add: b64_text_length)
    ultimately show ?thesis using 1 a(1) l nth [of 1] nth [of 2] by (simp add: Let_def split: if_splits)
  qed
qed (simp_all add: alpha4_def alpha_at_facts(3) Let_def)

lemma b64_text_mod: "length (b64_text b) mod 4 = 0"
  by (simp add: b64_text_length)

lemma json_b64_loop_text: "length out + length b \<le> outn \<Longrightarrow> outn \<le> length out + length b \<Longrightarrow> json_b64_loop outn (b64_text b) out = Some (out @ b)"
proof (induction b arbitrary: out rule: b64_text.induct)
  case (1 b0 b1 b2 b)
  define v where "v = (push_bit 16 (ucast b0) OR push_bit 8 (ucast b1) OR ucast b2 :: 32 word)"
  have q: "ucast (drop_bit 16 v) = b0" "ucast (drop_bit 8 v) = b1" "ucast v = b2"
    unfolding v_def by (rule quantum_byte1 quantum_byte2 quantum_byte3)+
  have v: "b64_quad_val (sl_b64_digit (alpha_at v 18)) (sl_b64_digit (alpha_at v 12)) (sl_b64_digit (alpha_at v 6)) (sl_b64_digit (alpha_at v 0)) = v"
    unfolding alpha_at_facts v_def using quad_val [OF quantum_high] by simp
  have t: "b64_text (b0 # b1 # b2 # b) = alpha4 v @ b64_text b" by (simp add: v_def)
  have "json_b64_loop outn (b64_text b) (out @ [b0, b1, b2]) = Some ((out @ [b0, b1, b2]) @ b)" using 1 by simp
  moreover have "length out + 3 \<le> outn" using 1(2) by simp
  ultimately show ?case unfolding t alpha4_def by (simp add: alpha_at_facts(3) digit_nonneg v Let_def q)
next
  case (2 b0 b1)
  define v where "v = (push_bit 16 (ucast b0) OR push_bit 8 (ucast b1) :: 32 word)"
  have q: "ucast (drop_bit 16 v) = b0" "ucast (drop_bit 8 v) = b1" "take_bit 6 v = 0"
    unfolding v_def by (rule quantum_bytes_2 quantum_low_sextet)+
  have v: "b64_quad_val (sl_b64_digit (alpha_at v 18)) (sl_b64_digit (alpha_at v 12)) (sl_b64_digit (alpha_at v 6)) 0 = v"
    using quad_val [of v] quantum_bytes_2(3) q(3) unfolding alpha_at_facts v_def by simp
  have t: "b64_text [b0, b1] = take 3 (alpha4 v) @ ''=''" by (simp add: v_def)
  have "outn = length out + 2" using 2 by simp
  then show ?case unfolding t alpha4_def by (simp add: alpha_at_facts(3) digit_nonneg v Let_def q)
next
  case (3 b0)
  define v where "v = (push_bit 16 (ucast b0) :: 32 word)"
  have q: "ucast (drop_bit 16 v) = b0" "take_bit 6 v = 0" "take_bit 6 (drop_bit 6 v) = 0"
    unfolding v_def by (rule quantum_bytes_1 quantum_low_sextets)+
  have v: "b64_quad_val (sl_b64_digit (alpha_at v 18)) (sl_b64_digit (alpha_at v 12)) 0 0 = v"
    using quad_val [of v] quantum_bytes_1(2) q(2,3) unfolding alpha_at_facts v_def by simp
  have t: "b64_text [b0] = take 2 (alpha4 v) @ ''==''" by (simp add: v_def)
  have "outn = length out + 1" using 3 by simp
  then show ?case unfolding t alpha4_def by (simp add: alpha_at_facts(3) digit_nonneg v Let_def q)
qed simp

lemma json_b64_text: "sl_json_b64 (b64_text b) = Some b"
  using json_b64_loop_text [of "[]" b "length b"] b64_text_pad [of b] b64_text_mod [of b]
  by (simp add: sl_json_b64_def Let_def)

lemma plain_c_str: "list_all plain_char s \<Longrightarrow> c_str s = s"
  using plain_not_NUL by (auto simp: c_str_def takeWhile_eq_all_conv list_all_iff)

interpretation js_bytes: json_scalar sl_jd_bytes sl_json_dec_bytes sl_json_enc_bytes "\<lambda>_. True"
    "\<lambda>b. json_quoted (b64_text b)" "\<lambda>b. SL_JV_STR (b64_text b)"
proof unfold_locales
  show "jread p = Inr (SL_JV_STR (b64_text b), q)" if "jtakes (json_quoted (b64_text b)) p q" for b p q
    using jread_str [OF jchars_all_plain [OF b64_text_plain]] that by (simp add: json_quoted_def)
qed (simp_all add: enc_bytes_appends dec_iffs plain_c_str b64_text_plain json_b64_text)

text \<open>
  C3: every scalar that the encoder writes is read back as itself, by parsing into a tree and
  decoding its root, and by the direct reader: strings, bytes, booleans, the integers of 64 bits
  (the least one included) and timestamps of the years 0 to 9999. The encoder never writes outside
  its buffer, nor outside its local arrays.
\<close>
theorem json_scalar_round_trip:
  "(nul_free s \<longrightarrow> reads_back sl_json_enc_str sl_jd_str sl_json_dec_str s) \<and>
   reads_back sl_json_enc_bytes sl_jd_bytes sl_json_dec_bytes bs \<and>
   reads_back sl_json_enc_bool sl_jd_bool sl_json_dec_bool b \<and>
   (- (2 ^ 63) \<le> i \<and> i < 2 ^ 63 \<longrightarrow> reads_back sl_json_enc_i64 sl_jd_i64 sl_json_dec_i64 i) \<and>
   (u < 2 ^ 64 \<longrightarrow> reads_back sl_json_enc_u64 sl_jd_u64 sl_json_dec_u64 u) \<and>
   (json_time t \<longrightarrow> reads_back (\<lambda>(sec, nsec). sl_json_enc_time sec nsec) sl_jd_time sl_json_dec_time t)"
  using js_str.round_trip js_bytes.round_trip js_bool.round_trip js_i64.round_trip js_u64.round_trip js_time.round_trip
  by (simp add: i64_range_def)

theorem json_scalar_round_trip_witness:
  "reads_back sl_json_enc_str sl_jd_str sl_json_dec_str ''a'' \<and>
   reads_back sl_json_enc_i64 sl_jd_i64 sl_json_dec_i64 (- (2 ^ 63)) \<and>
   reads_back sl_json_enc_u64 sl_jd_u64 sl_json_dec_u64 (2 ^ 64 - 1) \<and>
   reads_back (\<lambda>(sec, nsec). sl_json_enc_time sec nsec) sl_jd_time sl_json_dec_time (0, 500000000)"
proof -
  have "sl_jt_civil_from_days 0 = (1970, 1, 1)" by code_simp
  then have "json_time (0, 500000000)" by (simp add: json_time_def)
  moreover have "nul_free ''a''" by (simp add: nul_free_def NUL_def)
  moreover have "- (2 ^ 63) \<le> (- (2 ^ 63) :: int) \<and> (- (2 ^ 63) :: int) < 2 ^ 63" "(2 ^ 64 - 1 :: nat) < 2 ^ 64" by simp_all
  ultimately show ?thesis
    using json_scalar_round_trip [of "''a''" "[]" True "- (2 ^ 63)" "2 ^ 64 - 1" "(0, 500000000)"] by blast
qed

end
