(* ===== verification/Spec2Isabelle.thy ===== *)
theory Spec2Isabelle
  imports Sl_Strings Sl_Encoding Sl_Bytes Sl_Arena Sl_Gc_Obj Sl_Arr Sl_Map Sl_Chan Sl_Lexer_Float Sl_Regex_Find
    Sl_Json_Skip Sl_Json_Depth Sl_Json_Reach Sl_Json_Round
begin

text \<open>
  A verification of the core of slang: the lexer of its compiler and the runtime that every
  compiled program carries.

  \<^bold>\<open>The program.\<close> \<open>src/src\<close> is the compiler: \<open>lexer.c\<close> turns a source text into tokens,
  \<open>parser.c\<close> turns the tokens into a syntax tree, and \<open>codegen/\<close> checks the tree and prints C.
  \<open>src/runtime\<close> is the C text that is compiled together with that output. Its containers
  (\<open>sl_containers.c\<close>: bytes, lists, hash maps, channels, mutexes, joins, select) live on the
  heap of a generational collector (\<open>sl_gc.c\<close>), which they tell about stores by a write
  barrier; tasks run on a scheduler (\<open>sl_sched.c\<close>, \<open>sl_pool.c\<close>), which the channels ask to
  park and to wake tasks; \<open>sl_core.c\<close> has the arenas, wires, peers and faults; the packages
  (\<open>sl_strings.c\<close>, \<open>sl_encoding.c\<close>, \<open>sl_regex.c\<close>, \<open>sl_json.c\<close>, and others) work on strings and bytes.

  \<^bold>\<open>Theories.\<close>
  \<^item> \<open>Prelude\<close>: bytes, 64-bit words, C strings, the libc functions used, failures, shared
    lemmas on lists and words, and the locale of a codec.
  \<^item> \<open>Sl_Strings\<close> (\<open>sl_strings.c\<close>): search, trim, case, slices, split, join, replace. Shown:
    split and join are inverse, count, split and replace agree, slices read only their bounds,
    the buffer that replace sizes is the one it fills as long as the size does not wrap.
  \<^item> \<open>Sl_Encoding\<close> (\<open>sl_encoding.c\<close>): hex, base64, percent-encoding, query strings, bit
    patterns of floats. Shown: every codec decodes what it encodes; the codecs are
    interpretations of the locale of the prelude.
  \<^item> \<open>Sl_Bytes\<close> (\<open>sl_containers.c\<close>, \<open>sl_core.c\<close>): bytes, byte order, integers as text, wires
    over an explicit memory, peers, faults. Shown: integer parsing accepts exactly the 64-bit
    decimals, round trips, copies stay inside their wire.
  \<^item> \<open>Sl_Arena\<close> (\<open>sl_core.c\<close>): bump allocation at 64-bit sizes and the bounded list of free
    chunks. Shown: live blocks are aligned and disjoint for sizes below \<open>2 ^ 62\<close>; which negative
    sizes are granted, and that the blocks behind them overlap.
  \<^item> \<open>Sl_Gc_Obj\<close>, \<open>Sl_Arr\<close>, \<open>Sl_Map\<close> (\<open>sl_gc.c\<close>, \<open>sl_containers.c\<close>): the header of heap
    objects, write barrier and minor marking; growable lists; the open-addressing hash map with
    insertion order and deletion by backward shift. Shown: the map refines an ordered
    association list under any sequence of operations, the lists refine sequences, and both
    keep the contract of \<open>gc_clean\<close> by which a minor collection skips their prefix. The barrier
    with the running task's shard is \<open>remember_in\<close>; the containers carry its effect on the header.
  \<^item> \<open>Sl_Chan\<close> (\<open>sl_containers.c\<close>): the intrusive wait lists with their pointers, channels,
    mutexes, joins and select; a step is one region under the lock, and an execution is any
    interleaving of steps. The ring of a channel is indexed in 32-bit arithmetic. Shown: channels
    of up to \<open>2 ^ 30\<close> slots are bounded queues, no wake-up is lost among plain senders and
    receivers, mutual exclusion, one outcome per join, a poll of a select does what the first
    ready arm does alone, whatever happens between its locks; and runs in which a select loses a
    wake-up.
  \<^item> \<open>Sl_Lexer\<close>, \<open>Sl_Lexer_Text\<close>, \<open>Sl_Lexer_Float\<close> (\<open>lexer.c\<close>, \<open>lexer.h\<close>, the token loop of
    \<open>parser.c\<close>): all of the lexer. Shown: it ends on every text; it reads behind the text exactly
    where an open literal breaks off in an escape; it reads back the language's spelling of every
    token but floats and interpolated strings; integer literals are exact or rejected; float
    literals are the nearest double to the number they stand for; decoded strings fit their
    buffer.
  \<^item> \<open>Sl_Regex\<close> and \<open>Sl_Regex_Machine\<close>, \<open>_Filter\<close>, \<open>_Code\<close>, \<open>_Compile\<close>, \<open>_Find\<close>
    (\<open>sl_regex.c\<close>): the pattern parser, the emitter, the thread lists (the sparse sets are an
    interpretation of the locale \<open>pc_set\<close>), the machine, the filter on first bytes. Shown:
    compiled programs are well formed; matching is linear in the subject; for every pattern a
    reported match is one; for patterns without assertions, tied to the start or with a filter,
    \<open>is_match\<close> misses none and \<open>find\<close> answers the leftmost match, in subjects of less than
    \<open>2 ^ 31\<close> bytes, the range of its offsets; and a pattern with an assertion that is missed.
  \<^item> \<open>Sl_Float\<close>: \<open>strtod\<close> as the correctly rounded conversion, for the lexer and for JSON.
  \<^item> \<open>Sl_Json\<close>, \<open>Sl_Json_Text\<close>, \<open>Sl_Json_Tree\<close> (\<open>sl_json.c\<close>): the iterative parser over a
    store of nodes, in which the address of a node is its index; the JSON grammar. Shown: it
    accepts exactly the texts of the grammar within the depth limit, and the tree it leaves is
    the value of the text. \<open>Sl_Json_Reach\<close>: every node of a parse under way is reachable from
    the root through what the collector traces.
  \<^item> \<open>Sl_Json_Decode\<close>, \<open>Sl_Json_Time\<close>, \<open>Sl_Json_Calendar\<close>: decoding of scalars from the tree,
    exact integers, base64, RFC 3339. Shown: the calendar is the Gregorian one.
  \<^item> \<open>Sl_Json_Direct\<close>, \<open>Sl_Json_Skip\<close>, \<open>Sl_Json_Scalar\<close>, \<open>Sl_Json_Depth\<close>: the decoder that
    reads the input without a tree. Shown: skipping a value is in step with the tree parser and
    stays in its bit stack, every scalar reader is equivalent to the tree path (an
    interpretation of the locale \<open>direct_reader\<close>), the depth scan is exact where it matters.
  \<^item> \<open>Sl_Json_Encode\<close>, \<open>Sl_Json_Round\<close>: the string builder and the encoders. Shown: they stay
    in their buffers, and both decoders read back what they write (interpretations of the locale
    \<open>json_scalar\<close>, which extends \<open>direct_reader\<close>).

  \<^bold>\<open>Conventions.\<close> A call that may end in a panic or an error is a sum with the failure on the
  left. Integers are \<open>int\<close> or \<open>nat\<close> where the code cannot leave the range, and words of their
  width where it can. A possibly-null pointer is an option.

  \<^bold>\<open>Fuel.\<close> The probes of the hash map count down from the capacity, and a table that is not
  full makes that enough. The token loop has one more round than the text has bytes. The
  pattern parser carries \<open>SL_RX_MAX_DEPTH\<close>, which the code itself checks. The closure loop
  of the regex machine draws on \<open>rx_budget\<close>, whose sufficiency is the theorem on linear time.
  In each case the theorems show that a result is returned.

  \<^bold>\<open>Not modelled.\<close> The code generator and the parser (they print C, or build a tree that only
  the code generator reads; a statement about them needs a semantics of both languages); the
  loader, projects and driver (files and processes); the collector's page registry, root scan
  and sweep, and the context switches of the scheduler (machine addresses, registers,
  threads); networking, TLS, cryptography, compression, SQL, operating system (calls into
  libraries that are not part of the repository).
\<close>

end
